(* ===== verification/Prelude.thy ===== *)
theory Prelude
  imports
    Main
    "HOL-Library.Word"
    "HOL-Library.Monad_Syntax"
    "HOL-Library.Signed_Division"
begin

text \<open>
  Shared vocabulary of the development: machine integers, the status codes of
  \<^verbatim>\<open>src/src/status.h\<close>, the constants of \<^verbatim>\<open>src/src/config.h\<close>, and the generic
  lemmas on options, lists and fixed-width integers that the component theories use.

  Conventions of the model.

  \<^item> A C computation is a function into \<open>'a option\<close>. \<open>None\<close> stands for a run that has no
    defined result: an access outside the object it addresses, a null pointer that is
    dereferenced, a division by zero, or a loop that never ends. \<open>Some r\<close> is a run that
    returns \<open>r\<close>. Error codes that the C code returns are ordinary values inside \<open>Some\<close>.
  \<^item> \<^verbatim>\<open>int\<close> locals are HOL integers. Where a value is stored into a 32-bit object or where
    the code converts between signed and unsigned, the conversion is written out with
    \<open>s32\<close> and \<open>u32\<close>; \<^verbatim>\<open>uint8_t\<close>, \<^verbatim>\<open>uint16_t\<close> and \<^verbatim>\<open>uint32_t\<close> fields of structures are
    \<open>word\<close>s of that width.
  \<^item> A pointer to bytes is the list of the bytes from that address to the end of the object,
    so that reading past its end is \<open>None\<close>.
\<close>

unbundle bit_operations_syntax

section \<open>Machine integers\<close>

type_synonym byte = "8 word"
type_synonym u16 = "16 word"
type_synonym u32 = "32 word"

text \<open>Conversion of an integer to a signed and to an unsigned 32-bit value.\<close>

definition s32 :: "int \<Rightarrow> int" where
  "s32 x = (x + 2 ^ 31) mod 2 ^ 32 - 2 ^ 31"

definition u32 :: "int \<Rightarrow> int" where
  "u32 x = x mod 2 ^ 32"

section \<open>Status codes and configuration\<close>

abbreviation (input) PEACHOS_ALL_OK :: int where "PEACHOS_ALL_OK \<equiv> 0"
abbreviation (input) EIO :: int where "EIO \<equiv> 1"
abbreviation (input) EINVARG :: int where "EINVARG \<equiv> 2"
abbreviation (input) ENOMEM :: int where "ENOMEM \<equiv> 3"
abbreviation (input) EBADPATH :: int where "EBADPATH \<equiv> 4"
abbreviation (input) EFSNOTUS :: int where "EFSNOTUS \<equiv> 5"
abbreviation (input) ERDONLY :: int where "ERDONLY \<equiv> 6"
abbreviation (input) EUNIMP :: int where "EUNIMP \<equiv> 7"
abbreviation (input) EISTKN :: int where "EISTKN \<equiv> 8"

abbreviation (input) PEACHOS_SECTOR_SIZE :: int where "PEACHOS_SECTOR_SIZE \<equiv> 512"
abbreviation (input) PEACHOS_MAX_PATH :: nat where "PEACHOS_MAX_PATH \<equiv> 108"
abbreviation (input) PEACHOS_MAX_FILESYSTEMS :: nat where "PEACHOS_MAX_FILESYSTEMS \<equiv> 12"
abbreviation (input) PEACHOS_MAX_FILE_DESCRIPTORS :: nat where "PEACHOS_MAX_FILE_DESCRIPTORS \<equiv> 512"

section \<open>Collections\<close>

named_theorems run_iff \<open>inversion of a run that returns\<close>
named_theorems cint \<open>32-bit conversions that do not change the value\<close>

lemma bind_Some_iff [run_iff]:
  "Option.bind m f = Some y \<longleftrightarrow> (\<exists>x. m = Some x \<and> f x = Some y)"
  by (cases m) auto

lemma map_option_Some_iff [run_iff]:
  "map_option f m = Some y \<longleftrightarrow> (\<exists>x. m = Some x \<and> f x = y)"
  by (cases m) auto

lemma guard_Some_iff [run_iff]:
  "(if b then m else None) = Some y \<longleftrightarrow> b \<and> m = Some y"
  by auto

section \<open>Arithmetic\<close>

lemma s32_id [cint]: "- (2 ^ 31) \<le> x \<Longrightarrow> x < 2 ^ 31 \<Longrightarrow> s32 x = x"
  by (simp add: s32_def)

lemma s32_lower: "- (2 ^ 31) \<le> s32 x"
proof -
  have "0 \<le> (x + 2 ^ 31) mod 2 ^ 32" by simp
  then show ?thesis by (simp add: s32_def)
qed

lemma s32_upper: "s32 x < 2 ^ 31"
proof -
  have "(x + 2 ^ 31) mod 2 ^ 32 < 2 ^ 32" by simp
  then show ?thesis by (simp add: s32_def)
qed

lemma u32_id [cint]: "0 \<le> x \<Longrightarrow> x < 2 ^ 32 \<Longrightarrow> u32 x = x"
  by (simp add: u32_def)

lemma u32_int [cint]: "n < 2 ^ 32 \<Longrightarrow> u32 (int n) = int n"
  by (simp add: u32_def)

lemma s32_int [cint]: "n < 2 ^ 31 \<Longrightarrow> s32 (int n) = int n"
  by (simp add: s32_id)

lemma s32_u32 [simp]: "s32 (u32 x) = s32 x"
  by (simp add: s32_def u32_def mod_simps)

lemma uint_word_of_int_u32: "0 \<le> x \<Longrightarrow> x < 2 ^ 32 \<Longrightarrow> uint (word_of_int x :: u32) = x"
  by (simp add: uint_word_of_int take_bit_eq_mod)

lemma sint_word_of_int_u32: "- (2 ^ 31) \<le> x \<Longrightarrow> x < 2 ^ 31 \<Longrightarrow> sint (word_of_int x :: u32) = x"
  by (simp add: sint_uint signed_take_bit_int_eq_self unsigned_of_int signed_take_bit_take_bit)

lemma sdiv_nonneg [simp]: "0 \<le> (a::int) \<Longrightarrow> 0 < b \<Longrightarrow> a sdiv b = a div b"
  by (simp add: signed_divide_int_def sgn_if)

lemma smod_nonneg [simp]: "0 \<le> (a::int) \<Longrightarrow> 0 < b \<Longrightarrow> a smod b = a mod b"
  by (cases "a = 0") (simp_all add: signed_modulo_int_def sgn_if)

lemma block_index_less:
  "(c::nat) < n \<Longrightarrow> k < z \<Longrightarrow> c * z + k < n * z"
  by (metis add_less_cancel_left less_le_trans mult_Suc Suc_leI mult_le_mono1 add.commute)

lemma block_index_inj:
  assumes "(k::nat) < z" and "k' < z" and "c * z + k = c' * z + k'"
  shows "c = c' \<and> k = k'"
proof -
  from assms(1,2) have "(c * z + k) div z = c" "(c' * z + k') div z = c'"
    by simp_all
  with assms(3) have "c = c'" by metis
  with assms(3) show ?thesis by simp
qed

section \<open>Lists\<close>

lemma map_nth_upt_take_drop:
  "a + n \<le> length xs \<Longrightarrow> map (\<lambda>i. xs ! (a + i)) [0..<n] = take n (drop a xs)"
  by (rule nth_equalityI) simp_all

lemma map_fun_upt_append:
  "map f [a..<a + m] @ map f [a + m..<a + m + n] = map f [a..<a + m + n]"
  by (metis map_append upt_add_eq_append le_add1 add.assoc)

text \<open>\<open>patch xs o ys\<close>: the bytes \<open>ys\<close> written over \<open>xs\<close> from index \<open>o\<close>.\<close>

definition patch :: "'a list \<Rightarrow> nat \<Rightarrow> 'a list \<Rightarrow> 'a list" where
  "patch xs k ys = take k xs @ ys @ drop (k + length ys) xs"

lemma length_patch [simp]: "k + length ys \<le> length xs \<Longrightarrow> length (patch xs k ys) = length xs"
  by (simp add: patch_def)

lemma patch_Nil [simp]: "patch xs k [] = xs"
  by (simp add: patch_def)

lemma nth_patch:
  "k + length ys \<le> length xs \<Longrightarrow> i < length xs \<Longrightarrow>
    patch xs k ys ! i = (if k \<le> i \<and> i < k + length ys then ys ! (i - k) else xs ! i)"
  by (auto simp: patch_def nth_append min_def)

lemma patch_patch:
  "k + length ys + length zs \<le> length xs \<Longrightarrow> patch (patch xs k ys) (k + length ys) zs = patch xs k (ys @ zs)"
  by (simp add: patch_def drop_drop add.commute add.left_commute)

lemma take_drop_patch:
  "k + length ys \<le> length xs \<Longrightarrow> take (length ys) (drop k (patch xs k ys)) = ys"
  by (simp add: patch_def)

lemma take_patch:
  assumes "k + length ys \<le> n" and "n \<le> length xs"
  shows "take n (patch xs k ys) = patch (take n xs) k ys"
proof (rule nth_equalityI)
  have "k + length ys \<le> length xs" using assms by simp
  then show "length (take n (patch xs k ys)) = length (patch (take n xs) k ys)"
    using assms by simp
  fix i assume "i < length (take n (patch xs k ys))"
  then have "i < n" by simp
  then show "take n (patch xs k ys) ! i = patch (take n xs) k ys ! i"
    using assms by (simp add: nth_patch)
qed

end
