(* ===== verification/Loops.thy ===== *)
theory Loops
  imports Prelude
begin

text \<open>
  Counting loops, \<^verbatim>\<open>for (i = a; i < a + n; i++)\<close>, over a state, with a body that may fail, and
  their invariant rule; the log of the writes to I/O ports.
\<close>

section \<open>Counting loops\<close>

fun for_loop :: "nat \<Rightarrow> nat \<Rightarrow> (nat \<Rightarrow> 's \<Rightarrow> 's option) \<Rightarrow> 's \<Rightarrow> 's option" where
  "for_loop a 0 f s = Some s"
| "for_loop a (Suc n) f s = do { s' \<leftarrow> f a s; for_loop (Suc a) n f s' }"

text \<open>Every iteration succeeds and keeps the invariant; then so does the loop.\<close>

lemma for_loop_inv:
  assumes "I a s" and "\<And>i t. a \<le> i \<Longrightarrow> i < a + n \<Longrightarrow> I i t \<Longrightarrow> \<exists>t'. f i t = Some t' \<and> I (Suc i) t'"
  shows "\<exists>s'. for_loop a n f s = Some s' \<and> I (a + n) s'"
  using assms
proof (induction n arbitrary: a s)
  case (Suc n)
  from Suc.prems(2) [of a s] Suc.prems(1) obtain t where t: "f a s = Some t" "I (Suc a) t" by auto
  from Suc.IH [of "Suc a" t, OF t(2)] Suc.prems(2) obtain s' where "for_loop (Suc a) n f t = Some s'" "I (Suc a + n) s'" by auto
  with t(1) show ?case by simp
qed simp

text \<open>The loops whose body always succeeds.\<close>

lemma for_loop_Some:
  assumes "\<And>i t. a \<le> i \<Longrightarrow> i < a + n \<Longrightarrow> f i t = Some (g i t)"
  shows "for_loop a n f s = Some (fold g [a..<a + n] s)"
  using assms
proof (induction n arbitrary: a s)
  case (Suc n)
  have "for_loop (Suc a) n f (g a s) = Some (fold g [Suc a..<Suc a + n] (g a s))"
    by (rule Suc.IH) (use Suc.prems in auto)
  moreover have "[a..<a + Suc n] = a # [Suc a..<Suc a + n]" by (simp add: upt_rec)
  ultimately show ?case using Suc.prems by simp
qed simp

section \<open>I/O ports\<close>

text \<open>The writes to ports in the order the code makes them, as pairs of port and value.\<close>

type_synonym port_log = "(u16 \<times> byte) list"

end
