(* ===== verification/Bytes.thy ===== *)
theory Bytes
  imports Prelude
begin

text \<open>Little-endian 16 and 32 bit numbers as bytes, and their round trips.\<close>

section \<open>Encoding\<close>

definition le16 :: "byte list \<Rightarrow> u16" where
  "le16 bs = word_of_int (uint (bs ! 0) + 256 * uint (bs ! 1))"

definition le32 :: "byte list \<Rightarrow> u32" where
  "le32 bs = word_of_int (uint (bs ! 0) + 256 * uint (bs ! 1) + 65536 * uint (bs ! 2)
                          + 16777216 * uint (bs ! 3))"

definition bytes16 :: "u16 \<Rightarrow> byte list" where
  "bytes16 w = [word_of_int (uint w), word_of_int (uint w div 256)]"

definition bytes32 :: "u32 \<Rightarrow> byte list" where
  "bytes32 w = [word_of_int (uint w), word_of_int (uint w div 256),
                word_of_int (uint w div 65536), word_of_int (uint w div 16777216)]"

section \<open>Round trips\<close>

lemma uint_of_u16: "0 \<le> x \<Longrightarrow> x < 2 ^ 16 \<Longrightarrow> uint (word_of_int x :: u16) = x"
  by (simp add: uint_word_of_int take_bit_eq_mod)

lemma uint_of_byte: "uint (word_of_int x :: byte) = x mod 256"
  by (simp add: uint_word_of_int take_bit_eq_mod)

lemma byte_range: "0 \<le> uint (b :: byte)" "uint (b :: byte) < 256"
  using uint_lt2p [of b] by simp_all

lemma word_of_int_byte: "x mod 256 = uint b \<Longrightarrow> word_of_int x = (b :: byte)"
  using uint_of_byte [of x] by (simp add: word_uint_eq_iff)

lemma uint_le16: "uint (le16 (a # b # r)) = uint a + 256 * uint b"
proof -
  have "uint a + 256 * uint b < 2 ^ 16" using byte_range [of a] byte_range [of b] by simp
  then show ?thesis unfolding le16_def by (subst uint_of_u16) simp_all
qed

lemma uint_le32:
  "uint (le32 (a # b # c # d # r)) = uint a + 256 * uint b + 65536 * uint c + 16777216 * uint d"
proof -
  have "uint a + 256 * uint b + 65536 * uint c + 16777216 * uint d < 2 ^ 32"
    using byte_range [of a] byte_range [of b] byte_range [of c] byte_range [of d] by simp
  then show ?thesis unfolding le32_def by (subst uint_word_of_int_u32) simp_all
qed

lemma byte_digits16: "0 \<le> (x::int) \<Longrightarrow> x < 65536 \<Longrightarrow> x mod 256 + 256 * (x div 256 mod 256) = x"
proof -
  assume "0 \<le> x" "x < 65536"
  then have "x div 256 mod 256 = x div 256" by simp
  then show ?thesis by simp
qed

lemma byte_digits32:
  assumes "0 \<le> (x::int)" and "x < 4294967296"
  shows "x mod 256 + 256 * (x div 256 mod 256) + 65536 * (x div 65536 mod 256)
          + 16777216 * (x div 16777216 mod 256) = x"
proof -
  have "x div 65536 = x div 256 div 256" "x div 16777216 = x div 256 div 256 div 256"
    by (simp_all add: zdiv_zmult2_eq [symmetric])
  moreover have "y mod 256 + 256 * (y div 256) = y" for y :: int by simp
  moreover have "x div 256 div 256 div 256 mod 256 = x div 256 div 256 div 256"
    using assms by simp
  ultimately show ?thesis by (smt (verit, best))
qed

lemma le16_bytes16 [simp]: "le16 (bytes16 w @ r) = w"
proof -
  have "0 \<le> uint w" "uint w < 65536" using uint_lt2p [of w] by simp_all
  then have "uint (le16 (bytes16 w @ r)) = uint w"
    unfolding bytes16_def append_Cons uint_le16 uint_of_byte by (rule byte_digits16)
  then show ?thesis by (simp add: word_uint_eq_iff)
qed

lemma le32_bytes32 [simp]: "le32 (bytes32 w @ r) = w"
proof -
  have "0 \<le> uint w" "uint w < 4294967296" using uint_lt2p [of w] by simp_all
  then have "uint (le32 (bytes32 w @ r)) = uint w"
    unfolding bytes32_def append_Cons uint_le32 uint_of_byte by (rule byte_digits32)
  then show ?thesis by (simp add: word_uint_eq_iff)
qed

lemma bytes16_le16: "bytes16 (le16 (a # b # r)) = [a, b]"
proof -
  have "(uint a + 256 * uint b) mod 256 = uint a" "(uint a + 256 * uint b) div 256 mod 256 = uint b"
    using byte_range [of a] byte_range [of b] by simp_all
  then show ?thesis
    unfolding bytes16_def uint_le16 by (simp only: word_of_int_byte)
qed

lemma low_byte_split:
  assumes "0 \<le> a" "a < (256 :: int)"
  shows "(a + 256 * k) div 256 = k" and "(a + 256 * k) mod 256 = a"
  using assms by simp_all

lemma bytes32_le32: "bytes32 (le32 (a # b # c # d # r)) = [a, b, c, d]"
proof -
  let ?x = "uint a + 256 * uint b + 65536 * uint c + 16777216 * uint d"
  let ?y = "uint b + 256 * (uint c + 256 * uint d)"
  have x: "?x = uint a + 256 * ?y" by simp
  have R: "0 \<le> uint v" "uint v < 256" for v :: byte
    using byte_range [of v] by simp_all
  have m0: "?x mod 256 = uint a" and d0: "?x div 256 = ?y"
    unfolding x by (rule low_byte_split [OF R])+
  have m1: "?y mod 256 = uint b" and d1: "?y div 256 = uint c + 256 * uint d"
    by (rule low_byte_split [OF R])+
  have m2: "(uint c + 256 * uint d) mod 256 = uint c" and d2: "(uint c + 256 * uint d) div 256 = uint d"
    by (rule low_byte_split [OF R])+
  have e1: "?x div 65536 = ?x div 256 div 256" and e2: "?x div 16777216 = ?x div 256 div 256 div 256"
    by (simp_all only: zdiv_zmult2_eq [symmetric]) simp_all
  have w: "word_of_int ?x = a" "word_of_int ?y = b" "word_of_int (uint c + 256 * uint d) = c"
    by (rule word_of_int_byte, rule m0 m1 m2)+
  show ?thesis
    unfolding bytes32_def uint_le32 e1 e2 d0 d1 d2 w by simp
qed

lemma length_bytes16 [simp]: "length (bytes16 v) = 2"
  by (simp add: bytes16_def)

lemma le16_singleton: "le16 (bytes16 w) = w"
  using le16_bytes16 [of w "[]"] by simp

lemma le32_singleton: "le32 (bytes32 w) = w"
  using le32_bytes32 [of w "[]"] by simp

lemma sint_of_nat_u32: "n < 2 ^ 31 \<Longrightarrow> sint (word_of_nat n :: u32) = int n"
  using sint_word_of_int_u32 [of "int n"] by simp

end
