(* ===== verification/Memory.thy ===== *)
theory Memory
  imports Prelude
begin

text \<open>
  The freestanding memory routines of \<^verbatim>\<open>src/src/memory/memory.c\<close>. A pointer argument is
  the list of the bytes from that pointer to the end of the object; the routines return the
  new contents of the destination, or \<open>None\<close> when they leave an object.
\<close>

section \<open>Operations\<close>

text \<open>\<^verbatim>\<open>memset\<close>: the low byte of \<open>c\<close> is stored into the first \<open>size\<close> bytes.\<close>

fun memset :: "byte list \<Rightarrow> int \<Rightarrow> nat \<Rightarrow> byte list option" where
  "memset p c 0 = Some p"
| "memset [] c (Suc n) = None"
| "memset (b # p) c (Suc n) = map_option ((#) (word_of_int c)) (memset p c n)"

text \<open>
  \<^verbatim>\<open>memcmp\<close> compares as \<^verbatim>\<open>char\<close>, which is signed on this target. A count that is not
  positive compares nothing.
\<close>

fun memcmp :: "byte list \<Rightarrow> byte list \<Rightarrow> nat \<Rightarrow> int option" where
  "memcmp p q 0 = Some 0"
| "memcmp (a # p) (b # q) (Suc n) =
     (if a \<noteq> b then Some (if sint a < sint b then -1 else 1) else memcmp p q n)"
| "memcmp _ _ (Suc n) = None"

fun memcpy :: "byte list \<Rightarrow> byte list \<Rightarrow> nat \<Rightarrow> byte list option" where
  "memcpy d s 0 = Some d"
| "memcpy (x # d) (y # s) (Suc n) = map_option ((#) y) (memcpy d s n)"
| "memcpy _ _ (Suc n) = None"

section \<open>Behaviour\<close>

lemma memset_eq:
  "memset p c n = (if n \<le> length p then Some (replicate n (word_of_int c) @ drop n p) else None)"
  by (induction p c n rule: memset.induct) auto

lemma memcpy_eq:
  "memcpy d s n =
     (if n \<le> length d \<and> n \<le> length s then Some (take n s @ drop n d) else None)"
  by (induction d s n rule: memcpy.induct) auto

lemma memcmp_zero_iff:
  "n \<le> length p \<Longrightarrow> n \<le> length q \<Longrightarrow> memcmp p q n = Some 0 \<longleftrightarrow> take n p = take n q"
  by (induction p q n rule: memcmp.induct) auto

lemma memcmp_defined:
  "n \<le> length p \<Longrightarrow> n \<le> length q \<Longrightarrow> \<exists>r. memcmp p q n = Some r"
  by (induction p q n rule: memcmp.induct) auto

end
