(* ===== verification/Cstring.thy ===== *)
theory Cstring
  imports Memory
begin

text \<open>
  The freestanding string routines of \<^verbatim>\<open>src/src/string/string.c\<close>. A \<^verbatim>\<open>char*\<close> is the list
  of the bytes from the pointer to the end of its object; the string it denotes ends at the
  first zero byte. \<^verbatim>\<open>char\<close> is signed on this target, hence the \<open>sint\<close> in the comparisons
  of \<^verbatim>\<open>tolower\<close>, \<^verbatim>\<open>isdigit\<close> and \<^verbatim>\<open>tonumericdigit\<close>.
\<close>

section \<open>Operations\<close>

definition tolower :: "byte \<Rightarrow> byte" where
  "tolower s1 = (if sint s1 \<ge> 65 \<and> sint s1 \<le> 90 then s1 + 32 else s1)"

fun strlen :: "byte list \<Rightarrow> nat option" where
  "strlen [] = None"
| "strlen (c # p) = (if c \<noteq> 0 then map_option Suc (strlen p) else Some 0)"

fun strnlen :: "byte list \<Rightarrow> nat \<Rightarrow> nat option" where
  "strnlen p 0 = Some 0"
| "strnlen [] (Suc n) = None"
| "strnlen (c # p) (Suc n) = (if c = 0 then Some 0 else map_option Suc (strnlen p n))"

fun strnlen_terminator :: "byte list \<Rightarrow> nat \<Rightarrow> byte \<Rightarrow> nat option" where
  "strnlen_terminator p 0 t = Some 0"
| "strnlen_terminator [] (Suc n) t = None"
| "strnlen_terminator (c # p) (Suc n) t =
     (if c = 0 \<or> c = t then Some 0 else map_option Suc (strnlen_terminator p n t))"

text \<open>A count that is not positive compares nothing, as \<open>0\<close> does here.\<close>

fun istrncmp :: "byte list \<Rightarrow> byte list \<Rightarrow> nat \<Rightarrow> int option" where
  "istrncmp s1 s2 0 = Some 0"
| "istrncmp (u1 # s1) (u2 # s2) (Suc n) =
     (if u1 \<noteq> u2 \<and> tolower u1 \<noteq> tolower u2 then Some (uint u1 - uint u2)
      else if u1 = 0 then Some 0
      else istrncmp s1 s2 n)"
| "istrncmp _ _ (Suc n) = None"

fun strncmp :: "byte list \<Rightarrow> byte list \<Rightarrow> nat \<Rightarrow> int option" where
  "strncmp s1 s2 0 = Some 0"
| "strncmp (u1 # s1) (u2 # s2) (Suc n) =
     (if u1 \<noteq> u2 then Some (uint u1 - uint u2)
      else if u1 = 0 then Some 0
      else strncmp s1 s2 n)"
| "strncmp _ _ (Suc n) = None"

fun strcpy :: "byte list \<Rightarrow> byte list \<Rightarrow> byte list option" where
  "strcpy [] _ = None"
| "strcpy (d # dest) [] = None"
| "strcpy (d # dest) (c # src) =
     (if c \<noteq> 0 then map_option ((#) c) (strcpy dest src) else Some (0 # dest))"

text \<open>The loop of \<^verbatim>\<open>strncpy\<close> with \<open>n\<close> iterations left, then the terminating store.\<close>

fun strncpy_loop :: "byte list \<Rightarrow> byte list \<Rightarrow> nat \<Rightarrow> byte list option" where
  "strncpy_loop [] _ _ = None"
| "strncpy_loop (d # dest) _ 0 = Some (0 # dest)"
| "strncpy_loop (d # dest) [] (Suc n) = None"
| "strncpy_loop (d # dest) (c # src) (Suc n) =
     (if c = 0 then Some (0 # dest) else map_option ((#) c) (strncpy_loop dest src n))"

definition strncpy :: "byte list \<Rightarrow> byte list \<Rightarrow> int \<Rightarrow> byte list option" where
  "strncpy dest src count = strncpy_loop dest src (nat (count - 1))"

definition isdigit :: "byte \<Rightarrow> bool" where
  "isdigit c \<longleftrightarrow> sint c \<ge> 48 \<and> sint c \<le> 57"

definition tonumericdigit :: "byte \<Rightarrow> int" where
  "tonumericdigit c = sint c - 48"

section \<open>Strings inside buffers\<close>

text \<open>\<open>cstr_of p xs\<close>: the bytes at \<open>p\<close> begin with the string \<open>xs\<close> and its terminator.\<close>

definition cstr_of :: "byte list \<Rightarrow> byte list \<Rightarrow> bool" where
  "cstr_of p xs \<longleftrightarrow> 0 \<notin> set xs \<and> (\<exists>r. p = xs @ 0 # r)"

lemma cstr_ofI [intro]: "0 \<notin> set xs \<Longrightarrow> cstr_of (xs @ 0 # r) xs"
  by (auto simp: cstr_of_def)

lemma cstr_of_Nil [simp]: "cstr_of (0 # r) []"
  by (simp add: cstr_of_def)

lemma cstr_of_ConsI: "c \<noteq> 0 \<Longrightarrow> cstr_of p xs \<Longrightarrow> cstr_of (c # p) (c # xs)"
  by (auto simp: cstr_of_def)

lemma cstr_of_unique: "cstr_of p xs \<Longrightarrow> cstr_of p ys \<Longrightarrow> xs = ys"
proof (induction xs arbitrary: p ys)
  case Nil
  then show ?case by (cases ys) (auto simp: cstr_of_def)
next
  case (Cons x xs)
  then show ?case by (cases ys) (auto simp: cstr_of_def)
qed

lemma strlen_cstr: "cstr_of p xs \<Longrightarrow> strlen p = Some (length xs)"
  by (induction xs arbitrary: p) (auto simp: cstr_of_def)

lemma strlen_SomeD: "strlen p = Some n \<Longrightarrow> cstr_of p (take n p) \<and> n < length p"
proof (induction p arbitrary: n)
  case Nil
  then show ?case by simp
next
  case (Cons c p)
  show ?case
  proof (cases "c = 0")
    case True
    with Cons.prems show ?thesis by simp
  next
    case False
    with Cons.prems obtain m where m: "strlen p = Some m" "n = Suc m"
      by auto
    with Cons.IH False show ?thesis by (auto intro: cstr_of_ConsI)
  qed
qed

lemma strnlen_cstr: "cstr_of p xs \<Longrightarrow> strnlen p n = Some (min (length xs) n)"
proof (induction p n arbitrary: xs rule: strnlen.induct)
  case (3 c p n)
  then show ?case by (cases xs) (auto simp: cstr_of_def)
qed (auto simp: cstr_of_def)

lemma tolower_eq_0_iff [simp]: "tolower u = 0 \<longleftrightarrow> u = 0"
proof
  assume *: "tolower u = 0"
  show "u = 0"
  proof (rule ccontr)
    assume "u \<noteq> 0"
    with * have "u + 32 = 0" "sint u \<ge> 65"
      by (auto simp: tolower_def split: if_splits)
    then have "u = - 32" by (simp add: eq_neg_iff_add_eq_0)
    with \<open>sint u \<ge> 65\<close> show False by simp
  qed
qed (simp add: tolower_def)

lemma istrncmp_zero_iff:
  assumes "cstr_of p xs" and "cstr_of q ys" and "length xs < n" and "length ys < n"
  shows "istrncmp p q n = Some 0 \<longleftrightarrow> map tolower xs = map tolower ys"
  using assms
proof (induction p q n arbitrary: xs ys rule: istrncmp.induct)
  case (2 u1 s1 u2 s2 n)
  have z: "tolower 0 = 0" by simp
  from 2 show ?case
    by (cases xs; cases ys) (auto simp: cstr_of_def z uint_0_iff word_uint_eq_iff [symmetric] dest: sym)
qed (auto simp: cstr_of_def)

lemma istrncmp_defined:
  assumes "cstr_of p xs" and "cstr_of q ys"
  shows "\<exists>r. istrncmp p q n = Some r"
  using assms
proof (induction p q n arbitrary: xs ys rule: istrncmp.induct)
  case (2 u1 s1 u2 s2 n)
  have z: "tolower 0 = 0" by simp
  show ?case
  proof (cases "(u1 \<noteq> u2 \<and> tolower u1 \<noteq> tolower u2) \<or> u1 = 0")
    case False
    then have "u1 \<noteq> 0" "u2 \<noteq> 0" using z tolower_eq_0_iff by metis+
    with "2.prems" obtain xs' ys' where "cstr_of s1 xs'" "cstr_of s2 ys'"
      by (cases xs; cases ys) (auto simp: cstr_of_def)
    from "2.IH" [OF _ _ this] False show ?thesis by auto
  qed auto
qed (auto simp: cstr_of_def)

text \<open>
  \<^verbatim>\<open>strncpy\<close> with a positive count: the destination keeps its size and holds the first
  \<open>count - 1\<close> characters of the source, terminated.
\<close>

lemma strncpy_loop_cstr:
  assumes "cstr_of src xs" and "n < length dest"
  shows "strncpy_loop dest src n =
           Some (take n xs @ 0 # drop (Suc (min n (length xs))) dest)"
  using assms
proof (induction dest src n arbitrary: xs rule: strncpy_loop.induct)
  case (4 d dest c src n)
  then show ?case by (cases xs) (auto simp: cstr_of_def)
qed (auto simp: cstr_of_def)

lemma strncpy_cstr:
  assumes "cstr_of src xs" and "0 < count" and "count \<le> int (length dest)"
  shows "\<exists>r. strncpy dest src count = Some (take (nat count - 1) xs @ 0 # r)
           \<and> length (take (nat count - 1) xs @ 0 # r) = length dest"
proof -
  let ?n = "nat count - 1"
  have n: "nat (count - 1) = ?n" by simp
  have "?n < length dest" using assms(2,3) by linarith
  with strncpy_loop_cstr [OF assms(1) this] show ?thesis
    by (simp add: strncpy_def n)
qed

lemma strncpy_terminated:
  assumes "cstr_of src xs" and "0 < count" and "count \<le> int (length dest)"
  shows "\<exists>p. strncpy dest src count = Some p \<and> length p = length dest
           \<and> cstr_of p (take (nat count - 1) xs)"
proof -
  have "0 \<notin> set (take (nat count - 1) xs)"
    using assms(1) by (auto simp: cstr_of_def dest: in_set_takeD)
  with strncpy_cstr [OF assms] show ?thesis by (auto intro: cstr_ofI)
qed

lemma strcpy_cstr:
  assumes "cstr_of src xs" and "length xs < length dest"
  shows "strcpy dest src = Some (xs @ 0 # drop (Suc (length xs)) dest)"
  using assms
proof (induction dest src arbitrary: xs rule: strcpy.induct)
  case (3 d dest c src)
  then show ?case by (cases xs) (auto simp: cstr_of_def)
qed (auto simp: cstr_of_def)

end
