(* ===== verification/Kheap.thy ===== *)
theory Kheap
  imports Memory
begin

text \<open>
  The block allocator of \<^verbatim>\<open>src/src/memory/heap/heap.c\<close> and the kernel heap on top of it,
  \<^verbatim>\<open>src/src/memory/heap/kheap.c\<close>. The heap is a pool of 4096-byte blocks and a table with
  one byte per block. An access of the table outside its entries is \<open>None\<close>.

  The contents of the pool are not part of this state: an object that the kernel builds in
  an allocated block is a value of the component that owns it, and the zero fill of
  \<^verbatim>\<open>kzalloc\<close> is the initial value of that object.
\<close>

section \<open>Data\<close>

abbreviation (input) PEACHOS_HEAP_BLOCK_SIZE :: u32 where "PEACHOS_HEAP_BLOCK_SIZE \<equiv> 4096"
abbreviation (input) PEACHOS_HEAP_SIZE_BYTES :: u32 where "PEACHOS_HEAP_SIZE_BYTES \<equiv> 104857600"
abbreviation (input) PEACHOS_HEAP_ADDRESS :: u32 where "PEACHOS_HEAP_ADDRESS \<equiv> 0x01000000"

abbreviation (input) HEAP_BLOCK_TABLE_ENTRY_TAKEN :: byte
  where "HEAP_BLOCK_TABLE_ENTRY_TAKEN \<equiv> 0x01"
abbreviation (input) HEAP_BLOCK_TABLE_ENTRY_FREE :: byte
  where "HEAP_BLOCK_TABLE_ENTRY_FREE \<equiv> 0x00"
abbreviation (input) HEAP_BLOCK_HAS_NEXT :: byte where "HEAP_BLOCK_HAS_NEXT \<equiv> 0x80"
abbreviation (input) HEAP_BLOCK_IS_FIRST :: byte where "HEAP_BLOCK_IS_FIRST \<equiv> 0x40"

record heap_table =
  ht_entries :: "byte list"
  ht_total :: nat

record heap =
  h_table :: heap_table
  h_saddr :: u32

section \<open>Operations\<close>

definition heap_validate_table :: "u32 \<Rightarrow> u32 \<Rightarrow> heap_table \<Rightarrow> int" where
  "heap_validate_table ptr end table =
     (let table_size = end - ptr;
          total_blocks = table_size div PEACHOS_HEAP_BLOCK_SIZE
      in if ht_total table \<noteq> unat total_blocks then - EINVARG else 0)"

definition heap_validate_alignment :: "u32 \<Rightarrow> bool" where
  "heap_validate_alignment ptr \<longleftrightarrow> ptr mod PEACHOS_HEAP_BLOCK_SIZE = 0"

definition heap_create :: "heap \<Rightarrow> u32 \<Rightarrow> u32 \<Rightarrow> heap_table \<Rightarrow> (int \<times> heap) option" where
  "heap_create heap ptr end table =
     (if \<not> heap_validate_alignment ptr \<or> \<not> heap_validate_alignment end
      then Some (- EINVARG, heap)
      else let heap1 = \<lparr>h_table = table, h_saddr = ptr\<rparr>;
               res = heap_validate_table ptr end table
           in if res < 0 then Some (res, heap1)
              else do {
                es \<leftarrow> memset (ht_entries table) (uint HEAP_BLOCK_TABLE_ENTRY_FREE) (ht_total table);
                Some (res, heap1\<lparr>h_table := table\<lparr>ht_entries := es\<rparr>\<rparr>)
              })"

definition heap_align_value_to_upper :: "u32 \<Rightarrow> u32" where
  "heap_align_value_to_upper val =
     (if val mod PEACHOS_HEAP_BLOCK_SIZE = 0 then val
      else (val - val mod PEACHOS_HEAP_BLOCK_SIZE) + PEACHOS_HEAP_BLOCK_SIZE)"

definition heap_get_entry_type :: "byte \<Rightarrow> byte" where
  "heap_get_entry_type entry = entry AND 0x0f"

text \<open>
  The scan of \<^verbatim>\<open>heap_get_start_block\<close>: \<open>k\<close> iterations are left and \<open>i\<close> is the loop index.
  The value is the final \<^verbatim>\<open>bs\<close>.
\<close>

fun start_block_loop :: "byte list \<Rightarrow> nat \<Rightarrow> nat \<Rightarrow> nat \<Rightarrow> nat \<Rightarrow> int \<Rightarrow> int option" where
  "start_block_loop es 0 i n bc bs = Some bs"
| "start_block_loop es (Suc k) i n bc bs =
     (if i < length es then
        if heap_get_entry_type (es ! i) \<noteq> HEAP_BLOCK_TABLE_ENTRY_FREE
        then start_block_loop es k (Suc i) n 0 (-1)
        else let bs' = (if bs = -1 then int i else bs); bc' = Suc bc
             in if bc' = n then Some bs' else start_block_loop es k (Suc i) n bc' bs'
      else None)"

definition heap_get_start_block :: "heap \<Rightarrow> u32 \<Rightarrow> int option" where
  "heap_get_start_block heap total_blocks = do {
     bs \<leftarrow> start_block_loop (ht_entries (h_table heap)) (ht_total (h_table heap)) 0
            (unat total_blocks) 0 (-1);
     Some (if bs = -1 then - ENOMEM else bs)
   }"

definition heap_block_to_address :: "heap \<Rightarrow> int \<Rightarrow> u32" where
  "heap_block_to_address heap block = h_saddr heap + word_of_int (block * 4096)"

text \<open>The loop of \<^verbatim>\<open>heap_mark_blocks_taken\<close> with \<open>k\<close> blocks left to mark.\<close>

fun mark_taken_loop :: "byte list \<Rightarrow> nat \<Rightarrow> int \<Rightarrow> int \<Rightarrow> byte \<Rightarrow> byte list option" where
  "mark_taken_loop es 0 i end_block entry = Some es"
| "mark_taken_loop es (Suc k) i end_block entry =
     (if 0 \<le> i \<and> nat i < length es then
        mark_taken_loop (es[nat i := entry]) k (i + 1) end_block
          (if i \<noteq> end_block - 1
           then HEAP_BLOCK_TABLE_ENTRY_TAKEN OR HEAP_BLOCK_HAS_NEXT
           else HEAP_BLOCK_TABLE_ENTRY_TAKEN)
      else None)"

definition heap_mark_blocks_taken :: "heap \<Rightarrow> int \<Rightarrow> int \<Rightarrow> heap option" where
  "heap_mark_blocks_taken heap start_block total_blocks =
     (let end_block = (start_block + total_blocks) - 1;
          entry = HEAP_BLOCK_TABLE_ENTRY_TAKEN OR HEAP_BLOCK_IS_FIRST;
          entry1 = (if total_blocks > 1 then entry OR HEAP_BLOCK_HAS_NEXT else entry)
      in do {
        es \<leftarrow> mark_taken_loop (ht_entries (h_table heap)) (nat total_blocks) start_block
               end_block entry1;
        Some (heap\<lparr>h_table := (h_table heap)\<lparr>ht_entries := es\<rparr>\<rparr>)
      })"

definition heap_malloc_blocks :: "heap \<Rightarrow> u32 \<Rightarrow> (u32 \<times> heap) option" where
  "heap_malloc_blocks heap total_blocks = do {
     start_block \<leftarrow> heap_get_start_block heap total_blocks;
     if start_block < 0 then Some (0, heap)
     else do {
       heap' \<leftarrow> heap_mark_blocks_taken heap start_block (uint total_blocks);
       Some (heap_block_to_address heap start_block, heap')
     }
   }"

text \<open>The loop of \<^verbatim>\<open>heap_mark_blocks_free\<close> with \<open>k\<close> entries left below \<^verbatim>\<open>table->total\<close>.\<close>

fun mark_free_loop :: "byte list \<Rightarrow> nat \<Rightarrow> int \<Rightarrow> byte list option" where
  "mark_free_loop es 0 i = Some es"
| "mark_free_loop es (Suc k) i =
     (if 0 \<le> i \<and> nat i < length es then
        let entry = es ! nat i; es' = es[nat i := HEAP_BLOCK_TABLE_ENTRY_FREE]
        in if entry AND HEAP_BLOCK_HAS_NEXT = 0 then Some es' else mark_free_loop es' k (i + 1)
      else None)"

definition heap_mark_blocks_free :: "heap \<Rightarrow> int \<Rightarrow> heap option" where
  "heap_mark_blocks_free heap starting_block = do {
     es \<leftarrow> mark_free_loop (ht_entries (h_table heap))
            (nat (int (ht_total (h_table heap)) - starting_block)) starting_block;
     Some (heap\<lparr>h_table := (h_table heap)\<lparr>ht_entries := es\<rparr>\<rparr>)
   }"

definition heap_address_to_block :: "heap \<Rightarrow> u32 \<Rightarrow> int" where
  "heap_address_to_block heap address = sint (address - h_saddr heap) sdiv 4096"

definition heap_malloc :: "heap \<Rightarrow> u32 \<Rightarrow> (u32 \<times> heap) option" where
  "heap_malloc heap sz =
     (let aligned_size = heap_align_value_to_upper sz;
          total_blocks = aligned_size div PEACHOS_HEAP_BLOCK_SIZE
      in heap_malloc_blocks heap total_blocks)"

definition heap_free :: "heap \<Rightarrow> u32 \<Rightarrow> heap option" where
  "heap_free heap ptr = heap_mark_blocks_free heap (heap_address_to_block heap ptr)"

subsection \<open>The kernel heap\<close>

text \<open>
  \<^verbatim>\<open>kheap_init\<close>: \<open>raw\<close> is what the memory at \<^verbatim>\<open>PEACHOS_HEAP_TABLE_ADDRESS\<close> holds before.
  \<^verbatim>\<open>kernel_heap\<close> is a zeroed global. The result code is only used to print a message.
\<close>

definition kheap_init :: "byte list \<Rightarrow> (int \<times> heap) option" where
  "kheap_init raw =
     (let total_table_entries = PEACHOS_HEAP_SIZE_BYTES div PEACHOS_HEAP_BLOCK_SIZE;
          kernel_heap_table = \<lparr>ht_entries = raw, ht_total = unat total_table_entries\<rparr>;
          end = PEACHOS_HEAP_ADDRESS + PEACHOS_HEAP_SIZE_BYTES
      in heap_create \<lparr>h_table = \<lparr>ht_entries = [], ht_total = 0\<rparr>, h_saddr = 0\<rparr>
           PEACHOS_HEAP_ADDRESS end kernel_heap_table)"

definition kmalloc :: "heap \<Rightarrow> u32 \<Rightarrow> (u32 \<times> heap) option" where
  "kmalloc heap sz = heap_malloc heap sz"

definition kzalloc :: "heap \<Rightarrow> u32 \<Rightarrow> (u32 \<times> heap) option" where
  "kzalloc heap sz = do {
     (ptr, heap') \<leftarrow> kmalloc heap sz;
     if ptr = 0 then Some (0, heap') else Some (ptr, heap')
   }"

definition kfree :: "heap \<Rightarrow> u32 \<Rightarrow> heap option" where
  "kfree heap ptr = heap_free heap ptr"

section \<open>The scan for a free run\<close>

definition free_run :: "byte list \<Rightarrow> nat \<Rightarrow> nat \<Rightarrow> bool" where
  "free_run es s n \<longleftrightarrow> s + n \<le> length es \<and> (\<forall>j. s \<le> j \<and> j < s + n \<longrightarrow> heap_get_entry_type (es ! j) = 0)"

text \<open>What the scan has established before the entry at \<open>i\<close>.\<close>

definition scan_inv :: "byte list \<Rightarrow> nat \<Rightarrow> nat \<Rightarrow> nat \<Rightarrow> int \<Rightarrow> bool" where
  "scan_inv es i n bc bs \<longleftrightarrow>
     bc \<le> i \<and> i \<le> length es \<and> bc < n \<and> bs = (if bc = 0 then -1 else int (i - bc))
     \<and> (\<forall>j. i - bc \<le> j \<and> j < i \<longrightarrow> heap_get_entry_type (es ! j) = 0)
     \<and> (bc < i \<longrightarrow> heap_get_entry_type (es ! (i - bc - 1)) \<noteq> 0)
     \<and> (\<forall>s. s < i - bc \<longrightarrow> \<not> free_run es s n)"

lemma scan_inv_start: "0 < n \<Longrightarrow> scan_inv es 0 n 0 (-1)"
  by (simp add: scan_inv_def)

lemma scan_inv_taken:
  assumes "scan_inv es i n bc bs" and "i < length es" and "heap_get_entry_type (es ! i) \<noteq> 0"
  shows "scan_inv es (Suc i) n 0 (-1)"
proof -
  have "\<not> free_run es s n" if "s < Suc i" for s
  proof (cases "s < i - bc")
    case True
    with assms(1) show ?thesis by (simp add: scan_inv_def)
  next
    case False
    with assms(1) that have "s \<le> i" "i < s + n" by (auto simp: scan_inv_def)
    with assms(3) show ?thesis by (auto simp: free_run_def)
  qed
  with assms show ?thesis by (simp add: scan_inv_def)
qed

lemma scan_inv_free:
  assumes "scan_inv es i n bc bs" and "i < length es" and "heap_get_entry_type (es ! i) = 0"
    and "Suc bc \<noteq> n"
  shows "scan_inv es (Suc i) n (Suc bc) (if bs = -1 then int i else bs)"
  using assms by (auto simp: scan_inv_def less_Suc_eq)

lemma scan_inv_found:
  assumes "scan_inv es i n bc bs" and "i < length es" and "heap_get_entry_type (es ! i) = 0"
    and "Suc bc = n"
  shows "free_run es (i - bc) n" and "(if bs = -1 then int i else bs) = int (i - bc)"
  using assms by (auto simp: scan_inv_def free_run_def less_Suc_eq)

lemma start_block_loop_result:
  assumes "scan_inv es i n bc bs" and "i + k = length es"
  shows "(\<exists>s. start_block_loop es k i n bc bs = Some (int s) \<and> free_run es s n
              \<and> (\<forall>t < s. \<not> free_run es t n))
       \<or> (\<exists>bc' bs'. start_block_loop es k i n bc bs = Some bs'
              \<and> scan_inv es (length es) n bc' bs')"
  using assms
proof (induction k arbitrary: i bc bs)
  case 0
  then show ?case by auto
next
  case (Suc k)
  then have i: "i < length es" by simp
  consider (taken) "heap_get_entry_type (es ! i) \<noteq> 0"
    | (found) "heap_get_entry_type (es ! i) = 0" "Suc bc = n"
    | (next_free) "heap_get_entry_type (es ! i) = 0" "Suc bc \<noteq> n"
    by blast
  then show ?case
  proof cases
    case taken
    from Suc.IH [OF scan_inv_taken [OF Suc.prems(1) i taken]] Suc.prems(2) taken i
    show ?thesis by simp
  next
    case found
    note hit = scan_inv_found [OF Suc.prems(1) i found]
    from found i have "start_block_loop es (Suc k) i n bc bs = Some (int (i - bc))"
      by (simp add: Let_def hit(2))
    with hit(1) Suc.prems(1) show ?thesis
      by (intro disjI1 exI [of _ "i - bc"]) (simp add: scan_inv_def)
  next
    case next_free
    from Suc.IH [OF scan_inv_free [OF Suc.prems(1) i next_free]] Suc.prems(2) next_free i
    show ?thesis by (simp add: Let_def)
  qed
qed

text \<open>
  The result of the scan. Where some run of \<open>n\<close> blocks is free it is the first such run.
  Otherwise the scan fails only if the last block is taken: after a free last block \<^verbatim>\<open>bs\<close>
  still names the start of the last free run, which is too short.
\<close>

definition table_ok :: "heap \<Rightarrow> bool" where
  "table_ok heap \<longleftrightarrow> ht_total (h_table heap) = length (ht_entries (h_table heap))"

lemma heap_get_start_block_first_fit:
  assumes "table_ok heap" and "0 < unat n" and "free_run (ht_entries (h_table heap)) t (unat n)"
  shows "\<exists>s. heap_get_start_block heap n = Some (int s)
           \<and> free_run (ht_entries (h_table heap)) s (unat n)
           \<and> (\<forall>r < s. \<not> free_run (ht_entries (h_table heap)) r (unat n))"
proof -
  let ?es = "ht_entries (h_table heap)"
  have no_end: "\<not> scan_inv ?es (length ?es) (unat n) bc bs" for bc bs
  proof
    assume inv: "scan_inv ?es (length ?es) (unat n) bc bs"
    from assms(3) have "t + unat n \<le> length ?es" by (simp add: free_run_def)
    with inv have "t < length ?es - bc" by (auto simp: scan_inv_def)
    with inv assms(3) show False by (auto simp: scan_inv_def)
  qed
  from start_block_loop_result [OF scan_inv_start [OF assms(2), of ?es], of "length ?es"] no_end
  show ?thesis using assms(1) by (auto simp: heap_get_start_block_def table_ok_def)
qed

lemma heap_get_start_block_no_fit:
  assumes "table_ok heap" and "0 < unat n" and "ht_entries (h_table heap) \<noteq> []"
    and "\<And>t. \<not> free_run (ht_entries (h_table heap)) t (unat n)"
  shows "(if heap_get_entry_type (last (ht_entries (h_table heap))) = 0
          then \<exists>s. heap_get_start_block heap n = Some (int s)
                  \<and> s < ht_total (h_table heap) \<and> ht_total (h_table heap) < s + unat n
          else heap_get_start_block heap n = Some (- ENOMEM))"
proof -
  let ?es = "ht_entries (h_table heap)"
  from start_block_loop_result [OF scan_inv_start [OF assms(2), of ?es], of "length ?es"] assms(4)
  obtain bc bs where loop: "start_block_loop ?es (length ?es) 0 (unat n) 0 (-1) = Some bs"
    and inv: "scan_inv ?es (length ?es) (unat n) bc bs"
    by auto
  from assms(3) have last: "last ?es = ?es ! (length ?es - 1)" by (simp add: last_conv_nth)
  have start: "heap_get_start_block heap n = Some (if bs = -1 then - ENOMEM else bs)"
    using loop assms(1) by (simp add: heap_get_start_block_def table_ok_def)
  show ?thesis
  proof (cases "bc = 0")
    case True
    with inv assms(3) start last show ?thesis by (auto simp: scan_inv_def)
  next
    case False
    from inv have free_tail: "heap_get_entry_type (?es ! j) = 0"
      if "length ?es - bc \<le> j" "j < length ?es" for j
      using that by (simp add: scan_inv_def)
    have "heap_get_entry_type (last ?es) = 0"
      unfolding last by (rule free_tail) (use False assms(3) in auto)
    moreover from inv False have "bs = int (length ?es - bc)"
      "length ?es - bc < length ?es" "length ?es < length ?es - bc + unat n"
      by (auto simp: scan_inv_def)
    ultimately show ?thesis using start assms(1) by (auto simp: table_ok_def)
  qed
qed

section \<open>Marking blocks\<close>

text \<open>The entry of block \<open>i\<close> of an allocation of \<open>n\<close> blocks that starts at \<open>s\<close>.\<close>

definition alloc_entry :: "nat \<Rightarrow> nat \<Rightarrow> nat \<Rightarrow> byte" where
  "alloc_entry s n i =
     (if i = s then (if n > 1 then 0xC1 else 0x41) else (if Suc i < s + n then 0x81 else 0x01))"

lemma alloc_entry_type [simp]: "heap_get_entry_type (alloc_entry s n i) = 1"
  by (simp add: alloc_entry_def heap_get_entry_type_def)

lemma alloc_entry_has_next:
  "s \<le> i \<Longrightarrow> i < s + n \<Longrightarrow> alloc_entry s n i AND 0x80 = 0 \<longleftrightarrow> Suc i = s + n"
  by (auto simp: alloc_entry_def)

lemma mark_taken_loop_eq:
  assumes "s \<le> i" and "i + k = s + n" and "s + n \<le> length es"
    and "0 < k \<longrightarrow> entry = alloc_entry s n i"
  shows "mark_taken_loop es k (int i) (int (s + n) - 1) entry =
           Some (map (\<lambda>j. if i \<le> j \<and> j < s + n then alloc_entry s n j else es ! j) [0..<length es])"
  using assms
proof (induction k arbitrary: i es entry)
  case 0
  then show ?case by (auto intro!: nth_equalityI)
next
  case (Suc k)
  let ?es = "es[i := alloc_entry s n i]"
  let ?next = "if int i \<noteq> int (s + n) - 1 - 1 then (0x01::byte) OR 0x80 else 0x01"
  have "mark_taken_loop ?es k (int (Suc i)) (int (s + n) - 1) ?next =
     Some (map (\<lambda>j. if Suc i \<le> j \<and> j < s + n then alloc_entry s n j else ?es ! j) [0..<length ?es])"
    by (rule Suc.IH) (use Suc.prems in \<open>auto simp: alloc_entry_def\<close>)
  moreover have "map (\<lambda>j. if Suc i \<le> j \<and> j < s + n then alloc_entry s n j else ?es ! j) [0..<length ?es]
      = map (\<lambda>j. if i \<le> j \<and> j < s + n then alloc_entry s n j else es ! j) [0..<length es]"
    using Suc.prems by (auto intro!: map_cong simp: nth_list_update)
  ultimately show ?case
    using Suc.prems by (simp add: add.commute)
qed

definition mark_run :: "byte list \<Rightarrow> nat \<Rightarrow> nat \<Rightarrow> byte list" where
  "mark_run es s n =
     map (\<lambda>j. if s \<le> j \<and> j < s + n then alloc_entry s n j else es ! j) [0..<length es]"

lemma length_mark_run [simp]: "length (mark_run es s n) = length es"
  by (simp add: mark_run_def)

lemma nth_mark_run [simp]:
  "j < length es \<Longrightarrow> mark_run es s n ! j = (if s \<le> j \<and> j < s + n then alloc_entry s n j else es ! j)"
  by (simp add: mark_run_def)

lemma heap_mark_blocks_taken_run:
  assumes "s + n \<le> length (ht_entries (h_table heap))" and "0 < n"
  shows "heap_mark_blocks_taken heap (int s) (int n) =
           Some (heap\<lparr>h_table := (h_table heap)\<lparr>ht_entries := mark_run (ht_entries (h_table heap)) s n\<rparr>\<rparr>)"
proof -
  let ?es = "ht_entries (h_table heap)"
  have "mark_taken_loop ?es n (int s) (int (s + n) - 1) (alloc_entry s n s) = Some (mark_run ?es s n)"
    unfolding mark_run_def by (rule mark_taken_loop_eq) (use assms in auto)
  moreover have "alloc_entry s n s = (if n > 1 then 0xC1 else 0x41)"
    by (simp add: alloc_entry_def)
  ultimately show ?thesis
    by (simp add: heap_mark_blocks_taken_def Let_def split: if_splits)
qed

text \<open>Marking a run that leaves the table is a store outside it.\<close>

lemma mark_taken_loop_overrun:
  "0 \<le> i \<Longrightarrow> nat i < length es \<Longrightarrow> length es < nat i + k \<Longrightarrow> mark_taken_loop es k i e entry = None"
proof (induction k arbitrary: i es entry)
  case (Suc k)
  show ?case
  proof (cases "nat i + 1 < length es")
    case True
    with Suc show ?thesis by (simp add: nat_add_distrib)
  next
    case False
    then have "\<not> nat (i + 1) < length es" using Suc.prems by linarith
    with Suc.prems False show ?thesis by (cases k) auto
  qed
qed simp

text \<open>Releasing an allocation clears its entries.\<close>

lemma mark_free_loop_eq:
  assumes "s \<le> i" and "i < s + n" and "s + n \<le> length es" and "i + k = length es"
    and "\<And>j. i \<le> j \<Longrightarrow> j < s + n \<Longrightarrow> es ! j = alloc_entry s n j"
  shows "mark_free_loop es k (int i) =
           Some (map (\<lambda>j. if i \<le> j \<and> j < s + n then 0 else es ! j) [0..<length es])"
  using assms
proof (induction k arbitrary: i es)
  case 0
  then show ?case by simp
next
  case (Suc k)
  let ?es = "es[i := 0]"
  have entry: "es ! i = alloc_entry s n i" using Suc.prems by simp
  show ?case
  proof (cases "Suc i = s + n")
    case True
    with Suc.prems have "es ! i AND 0x80 = 0" by (simp add: entry alloc_entry_has_next)
    with Suc.prems True show ?thesis
      by (auto simp: Let_def nth_list_update intro!: nth_equalityI)
  next
    case False
    have "mark_free_loop ?es k (int (Suc i)) =
       Some (map (\<lambda>j. if Suc i \<le> j \<and> j < s + n then 0 else ?es ! j) [0..<length ?es])"
      by (rule Suc.IH) (use Suc.prems False in auto)
    moreover have "map (\<lambda>j. if Suc i \<le> j \<and> j < s + n then 0 else ?es ! j) [0..<length ?es]
        = map (\<lambda>j. if i \<le> j \<and> j < s + n then 0 else es ! j) [0..<length es]"
      using Suc.prems by (auto intro!: map_cong simp: nth_list_update)
    moreover have "es ! i AND 0x80 \<noteq> 0"
      using Suc.prems False by (simp add: entry alloc_entry_has_next)
    ultimately show ?thesis
      using Suc.prems by (simp add: Let_def add.commute)
  qed
qed

section \<open>The allocations a table records\<close>

text \<open>
  A table is read as the set of the allocations it records, pairs of a first block and a
  number of blocks. It is well formed when every entry that is not free belongs to one.
\<close>

definition allocs :: "byte list \<Rightarrow> (nat \<times> nat) set" where
  "allocs es = {(s, n). 0 < n \<and> s + n \<le> length es
                  \<and> (\<forall>j. s \<le> j \<and> j < s + n \<longrightarrow> es ! j = alloc_entry s n j)}"

definition table_wf :: "byte list \<Rightarrow> bool" where
  "table_wf es \<longleftrightarrow> (\<forall>i < length es. es ! i = 0 \<or> (\<exists>(s, n) \<in> allocs es. s \<le> i \<and> i < s + n))"

lemma allocsI:
  "0 < n \<Longrightarrow> s + n \<le> length es \<Longrightarrow> (\<And>j. s \<le> j \<Longrightarrow> j < s + n \<Longrightarrow> es ! j = alloc_entry s n j)
     \<Longrightarrow> (s, n) \<in> allocs es"
  by (simp add: allocs_def)

lemma allocsD:
  assumes "(s, n) \<in> allocs es"
  shows "0 < n" and "s + n \<le> length es"
    and "\<And>j. s \<le> j \<Longrightarrow> j < s + n \<Longrightarrow> es ! j = alloc_entry s n j"
  using assms by (simp_all add: allocs_def)

lemma alloc_entry_nonzero [simp]: "alloc_entry s n j \<noteq> 0"
  by (simp add: alloc_entry_def)

lemma alloc_entry_first: "alloc_entry s n j AND 0x40 \<noteq> 0 \<longleftrightarrow> j = s"
  by (simp add: alloc_entry_def)

lemma alloc_run_length_unique:
  assumes "\<And>j. s \<le> j \<Longrightarrow> j < s + n \<Longrightarrow> j < s + m \<Longrightarrow> alloc_entry s n j = alloc_entry s m j"
    and "0 < n" and "0 < m"
  shows "n = m"
proof (rule ccontr)
  assume "n \<noteq> m"
  let ?k = "min n m"
  let ?j = "s + ?k - 1"
  have j: "s \<le> ?j" "?j < s + n" "?j < s + m" using assms(2,3) by auto
  from assms(1) [OF j] have "(Suc ?j = s + n) = (Suc ?j = s + m)"
    using alloc_entry_has_next [OF j(1,2)] alloc_entry_has_next [OF j(1,3)] by simp
  with \<open>n \<noteq> m\<close> assms(2,3) show False by (auto simp: min_def split: if_splits)
qed

text \<open>Two allocations are the same or have no block in common.\<close>

lemma allocs_disjoint:
  assumes "(s, n) \<in> allocs es" and "(t, m) \<in> allocs es" and "s \<le> j" "j < s + n" "t \<le> j" "j < t + m"
  shows "(s, n) = (t, m)"
proof -
  have "\<not> s < t"
  proof
    assume "s < t"
    with assms allocsD(3) [OF assms(1), of t] allocsD(3) [OF assms(2), of t]
    have "alloc_entry s n t = alloc_entry t m t" by simp
    with \<open>s < t\<close> show False using alloc_entry_first [of s n t] alloc_entry_first [of t m t] by simp
  qed
  moreover have "\<not> t < s"
  proof
    assume "t < s"
    with assms allocsD(3) [OF assms(1), of s] allocsD(3) [OF assms(2), of s]
    have "alloc_entry s n s = alloc_entry t m s" by simp
    with \<open>t < s\<close> show False using alloc_entry_first [of s n s] alloc_entry_first [of t m s] by simp
  qed
  ultimately have st: "s = t" by simp
  have "alloc_entry s n i = alloc_entry s m i" if "s \<le> i" "i < s + n" "i < s + m" for i
    using allocsD(3) [OF assms(1), of i] allocsD(3) [OF assms(2), of i] that st by simp
  from alloc_run_length_unique [OF this allocsD(1) [OF assms(1)] allocsD(1) [OF assms(2)]]
  have "n = m" .
  with st show ?thesis by simp
qed

lemma allocs_avoid_free:
  assumes "(t, m) \<in> allocs es" and "es ! j = 0"
  shows "\<not> (t \<le> j \<and> j < t + m)"
  using allocsD(3) [OF assms(1), of j] assms(2) by auto

lemma free_run_zero:
  assumes "table_wf es" and "free_run es s n" and "s \<le> j" and "j < s + n"
  shows "es ! j = 0"
proof -
  from assms(2-4) have j: "j < length es" "heap_get_entry_type (es ! j) = 0"
    by (auto simp: free_run_def)
  then show ?thesis
    using assms(1) by (fastforce simp: table_wf_def dest: allocsD(3))
qed

lemma run_cases:
  fixes t s :: nat
  assumes "0 < m" and "0 < n"
  obtains (before) "t + m \<le> s" | (after) "s + n \<le> t" | (from_left) "t < s" "s < t + m"
    | (inside) "s \<le> t" "t < s + n"
  using assms by linarith

lemma allocs_mark_run:
  assumes "table_wf es" and "free_run es s n" and "0 < n"
  shows "allocs (mark_run es s n) = insert (s, n) (allocs es)"
proof (rule set_eqI, clarify)
  fix t m
  have sn: "s + n \<le> length es" using assms(2) by (simp add: free_run_def)
  show "(t, m) \<in> allocs (mark_run es s n) \<longleftrightarrow> (t, m) \<in> insert (s, n) (allocs es)"
  proof
    assume tm: "(t, m) \<in> allocs (mark_run es s n)"
    note d = allocsD [OF tm]
    from d(1) assms(3) show "(t, m) \<in> insert (s, n) (allocs es)"
    proof (cases rule: run_cases [of m n t s])
      case before
      then have "es ! j = alloc_entry t m j" if "t \<le> j" "j < t + m" for j
        using d(2) d(3) [OF that] that by simp
      with d(1,2) show ?thesis by (auto intro: allocsI)
    next
      case after
      then have "es ! j = alloc_entry t m j" if "t \<le> j" "j < t + m" for j
        using d(2) d(3) [OF that] that by simp
      with d(1,2) show ?thesis by (auto intro: allocsI)
    next
      case from_left
      with d(2) d(3) [of s] assms(3) sn have "alloc_entry s n s = alloc_entry t m s" by simp
      with from_left(1) show ?thesis
        using alloc_entry_first [of s n s] alloc_entry_first [of t m s] by simp
    next
      case inside
      with d(1,2) d(3) [of t] have "alloc_entry s n t = alloc_entry t m t" by simp
      then have st: "s = t"
        using alloc_entry_first [of s n t] alloc_entry_first [of t m t] by simp
      have "n = m"
        by (rule alloc_run_length_unique [of s]) (use d sn st assms(3) in force)+
      with st show ?thesis by simp
    qed
  next
    assume "(t, m) \<in> insert (s, n) (allocs es)"
    then consider "(t, m) = (s, n)" | (old) "(t, m) \<in> allocs es" by blast
    then show "(t, m) \<in> allocs (mark_run es s n)"
    proof cases
      case 1
      with sn assms(3) show ?thesis by (auto intro!: allocsI)
    next
      case old
      have "\<not> (s \<le> j \<and> j < s + n)" if "t \<le> j" "j < t + m" for j
        using allocs_avoid_free [OF old] free_run_zero [OF assms(1,2)] that by blast
      with allocsD [OF old] show ?thesis by (auto intro!: allocsI)
    qed
  qed
qed

definition clear_run :: "byte list \<Rightarrow> nat \<Rightarrow> nat \<Rightarrow> byte list" where
  "clear_run es s n = map (\<lambda>j. if s \<le> j \<and> j < s + n then 0 else es ! j) [0..<length es]"

lemma length_clear_run [simp]: "length (clear_run es s n) = length es"
  by (simp add: clear_run_def)

lemma nth_clear_run [simp]:
  "j < length es \<Longrightarrow> clear_run es s n ! j = (if s \<le> j \<and> j < s + n then 0 else es ! j)"
  by (simp add: clear_run_def)

lemma clear_mark_run:
  assumes "\<And>j. s \<le> j \<Longrightarrow> j < s + n \<Longrightarrow> es ! j = 0"
  shows "clear_run (mark_run es s n) s n = es"
  using assms by (auto intro!: nth_equalityI)

lemma allocs_clear_run:
  assumes "(s, n) \<in> allocs es"
  shows "allocs (clear_run es s n) = allocs es - {(s, n)}"
proof (rule set_eqI, clarify)
  fix t m
  note sn = allocsD [OF assms]
  show "(t, m) \<in> allocs (clear_run es s n) \<longleftrightarrow> (t, m) \<in> allocs es - {(s, n)}"
  proof
    assume tm: "(t, m) \<in> allocs (clear_run es s n)"
    note d = allocsD [OF tm]
    have out: "\<not> (s \<le> j \<and> j < s + n)" if "t \<le> j" "j < t + m" for j
      using d(2) d(3) [OF that] that by (auto split: if_splits)
    have "es ! j = alloc_entry t m j" if "t \<le> j" "j < t + m" for j
      using out [OF that] d(2) d(3) [OF that] that by (simp split: if_splits)
    with d(1,2) have "(t, m) \<in> allocs es" by (auto intro: allocsI)
    moreover from out [of t] d(1) have "(t, m) \<noteq> (s, n)" by auto
    ultimately show "(t, m) \<in> allocs es - {(s, n)}" by simp
  next
    assume tm: "(t, m) \<in> allocs es - {(s, n)}"
    then have old: "(t, m) \<in> allocs es" by simp
    have "\<not> (s \<le> j \<and> j < s + n)" if "t \<le> j" "j < t + m" for j
      using allocs_disjoint [OF old assms, of j] tm that by auto
    with allocsD [OF old] show "(t, m) \<in> allocs (clear_run es s n)"
      by (auto intro!: allocsI)
  qed
qed

lemma table_wf_mark_run:
  assumes "table_wf es" and "free_run es s n" and "0 < n"
  shows "table_wf (mark_run es s n)"
  using assms(1) unfolding table_wf_def allocs_mark_run [OF assms] by fastforce

lemma table_wf_clear_run:
  assumes "table_wf es" and "(s, n) \<in> allocs es"
  shows "table_wf (clear_run es s n)"
  unfolding table_wf_def allocs_clear_run [OF assms(2)]
proof (intro allI impI)
  fix i
  assume i: "i < length (clear_run es s n)"
  show "clear_run es s n ! i = 0 \<or> (\<exists>(s', m) \<in> allocs es - {(s, n)}. s' \<le> i \<and> i < s' + m)"
  proof (cases "s \<le> i \<and> i < s + n")
    case True
    with i show ?thesis by simp
  next
    case False
    with i have eq: "clear_run es s n ! i = es ! i" by auto
    from assms(1) i consider "es ! i = 0" | t m where "(t, m) \<in> allocs es" "t \<le> i" "i < t + m"
      by (fastforce simp: table_wf_def)
    then show ?thesis using eq False by cases auto
  qed
qed

section \<open>The heap as an allocator\<close>

definition heap_inv :: "heap \<Rightarrow> bool" where
  "heap_inv heap \<longleftrightarrow> table_ok heap \<and> table_wf (ht_entries (h_table heap))
     \<and> 0 < uint (h_saddr heap) \<and> uint (h_saddr heap) + 4096 * int (ht_total (h_table heap)) \<le> 2 ^ 31"

definition blocks_of :: "u32 \<Rightarrow> nat" where
  "blocks_of sz = unat (heap_align_value_to_upper sz div 4096)"

definition heap_room :: "heap \<Rightarrow> u32 \<Rightarrow> bool" where
  "heap_room heap sz \<longleftrightarrow> 0 < blocks_of sz \<and> (\<exists>s. free_run (ht_entries (h_table heap)) s (blocks_of sz))"

definition heap_live :: "heap \<Rightarrow> (u32 \<times> nat) set" where
  "heap_live heap =
     (\<lambda>(s, n). (heap_block_to_address heap (int s), n)) ` allocs (ht_entries (h_table heap))"

abbreviation with_entries :: "heap \<Rightarrow> byte list \<Rightarrow> heap" where
  "with_entries heap es \<equiv> heap\<lparr>h_table := (h_table heap)\<lparr>ht_entries := es\<rparr>\<rparr>"

lemma block_address_range:
  assumes "heap_inv heap" and "s < ht_total (h_table heap)"
  shows "uint (heap_block_to_address heap (int s)) = uint (h_saddr heap) + 4096 * int s"
proof -
  let ?a = "uint (h_saddr heap) + 4096 * int s"
  have "0 \<le> ?a" "?a < 2 ^ 32" using assms by (auto simp: heap_inv_def)
  moreover have "heap_block_to_address heap (int s) = word_of_int ?a"
    by (simp add: heap_block_to_address_def mult.commute)
  ultimately show ?thesis by (simp only: uint_word_of_int_u32)
qed

lemma heap_address_to_block_inverse:
  assumes "heap_inv heap" and "s < ht_total (h_table heap)"
  shows "heap_address_to_block heap (heap_block_to_address heap (int s)) = int s"
proof -
  have "0 \<le> int s * 4096" "int s * 4096 < 2 ^ 31" using assms by (auto simp: heap_inv_def)
  then have "sint (word_of_int (int s * 4096) :: u32) = int s * 4096"
    by (intro sint_word_of_int_u32) simp_all
  moreover have "heap_block_to_address heap (int s) - h_saddr heap = word_of_int (int s * 4096)"
    by (simp add: heap_block_to_address_def)
  ultimately show ?thesis
    by (simp only: heap_address_to_block_def) simp
qed

lemma heap_malloc_room:
  assumes "heap_inv heap" and "heap_room heap sz"
  obtains s where "free_run (ht_entries (h_table heap)) s (blocks_of sz)"
    and "s < ht_total (h_table heap)"
    and "heap_malloc heap sz =
           Some (heap_block_to_address heap (int s),
                 with_entries heap (mark_run (ht_entries (h_table heap)) s (blocks_of sz)))"
    and "\<And>t. t < s \<Longrightarrow> \<not> free_run (ht_entries (h_table heap)) t (blocks_of sz)"
proof -
  let ?es = "ht_entries (h_table heap)" and ?n = "heap_align_value_to_upper sz div 4096"
  from assms have ok: "table_ok heap" and pos: "0 < unat ?n"
    by (auto simp: heap_inv_def heap_room_def blocks_of_def)
  from assms(2) obtain t where "free_run ?es t (unat ?n)"
    by (auto simp: heap_room_def blocks_of_def)
  from heap_get_start_block_first_fit [OF ok pos this]
  obtain s where s: "heap_get_start_block heap ?n = Some (int s)" "free_run ?es s (unat ?n)" "\<forall>t < s. \<not> free_run ?es t (unat ?n)"
    by blast
  then have "s + unat ?n \<le> length ?es" by (simp add: free_run_def)
  from heap_mark_blocks_taken_run [OF this pos] s(1)
  have "heap_malloc heap sz = Some (heap_block_to_address heap (int s),
                 with_entries heap (mark_run ?es s (blocks_of sz)))"
    by (simp add: heap_malloc_def Let_def heap_malloc_blocks_def blocks_of_def)
  moreover from s(2) pos ok have "s < ht_total (h_table heap)"
    by (auto simp: free_run_def table_ok_def)
  ultimately show thesis using s(2,3) that by (simp add: blocks_of_def)
qed

lemma heap_free_alloc:
  assumes "heap_inv heap" and "(s, n) \<in> allocs (ht_entries (h_table heap))"
  shows "heap_free heap (heap_block_to_address heap (int s)) =
           Some (with_entries heap (clear_run (ht_entries (h_table heap)) s n))"
proof -
  let ?es = "ht_entries (h_table heap)"
  note d = allocsD [OF assms(2)]
  from assms(1) have len: "ht_total (h_table heap) = length ?es"
    by (simp add: heap_inv_def table_ok_def)
  with d(1,2) have "s < ht_total (h_table heap)" by simp
  from heap_address_to_block_inverse [OF assms(1) this]
  have block: "heap_address_to_block heap (heap_block_to_address heap (int s)) = int s" .
  have "mark_free_loop ?es (length ?es - s) (int s) = Some (clear_run ?es s n)"
    unfolding clear_run_def by (rule mark_free_loop_eq) (use d in auto)
  with len d(2) show ?thesis
    by (simp add: heap_free_def block heap_mark_blocks_free_def nat_diff_distrib)
qed

lemma heap_inv_with_entries:
  "heap_inv heap \<Longrightarrow> length es = length (ht_entries (h_table heap)) \<Longrightarrow> table_wf es
     \<Longrightarrow> heap_inv (with_entries heap es)"
  by (simp add: heap_inv_def table_ok_def)

lemma block_address_inj:
  assumes "heap_inv heap" and "s < ht_total (h_table heap)" and "t < ht_total (h_table heap)"
    and "heap_block_to_address heap (int s) = heap_block_to_address heap (int t)"
  shows "s = t"
proof -
  have "uint (h_saddr heap) + 4096 * int s = uint (h_saddr heap) + 4096 * int t"
    unfolding block_address_range [OF assms(1,2), symmetric]
      block_address_range [OF assms(1,3), symmetric] assms(4) ..
  then show ?thesis by simp
qed

lemma block_address_nonzero:
  assumes "heap_inv heap" and "s < ht_total (h_table heap)"
  shows "heap_block_to_address heap (int s) \<noteq> 0"
  using block_address_range [OF assms] assms(1) by (auto simp: heap_inv_def)

lemma heap_block_to_address_with_entries [simp]:
  "heap_block_to_address (with_entries heap es) b = heap_block_to_address heap b"
  by (simp add: heap_block_to_address_def)

lemma alloc_block_less:
  assumes "heap_inv heap" and "(s, n) \<in> allocs (ht_entries (h_table heap))"
  shows "s < ht_total (h_table heap)"
  using assms(1) allocsD(1,2) [OF assms(2)] by (simp add: heap_inv_def table_ok_def)

lemma heap_live_inj:
  assumes "heap_inv heap" and "(s, n) \<in> allocs (ht_entries (h_table heap))"
    and "(t, m) \<in> allocs (ht_entries (h_table heap))"
    and "heap_block_to_address heap (int s) = heap_block_to_address heap (int t)"
  shows "s = t \<and> n = m"
proof -
  have st: "s = t"
    by (rule block_address_inj [OF assms(1) _ _ assms(4)])
       (rule alloc_block_less [OF assms(1)], rule assms)+
  from allocs_disjoint [OF assms(2,3), of s] allocsD(1) [OF assms(2)] allocsD(1) [OF assms(3)] st
  show ?thesis by auto
qed

subsection \<open>The interface of the allocator\<close>

text \<open>
  What the kernel relies on: an allocation for which there is room returns an address that
  no live object has, and releasing a live object leaves the others alone.
\<close>

locale block_allocator =
  fixes inv :: "'h \<Rightarrow> bool"
    and live :: "'h \<Rightarrow> ('a \<times> nat) set"
    and room :: "'h \<Rightarrow> 's \<Rightarrow> bool"
    and blocks :: "'s \<Rightarrow> nat"
    and alloc :: "'h \<Rightarrow> 's \<Rightarrow> ('a \<times> 'h) option"
    and release :: "'h \<Rightarrow> 'a \<Rightarrow> 'h option"
  assumes alloc_room: "inv h \<Longrightarrow> room h sz \<Longrightarrow>
      \<exists>a h'. alloc h sz = Some (a, h') \<and> inv h' \<and> live h' = insert (a, blocks sz) (live h)
             \<and> (\<forall>n. (a, n) \<notin> live h) \<and> release h' a = Some h"
    and release_live: "inv h \<Longrightarrow> (a, n) \<in> live h \<Longrightarrow>
      \<exists>h'. release h a = Some h' \<and> inv h' \<and> live h' = live h - {(a, n)}"
    and live_unique: "inv h \<Longrightarrow> (a, n) \<in> live h \<Longrightarrow> (a, m) \<in> live h \<Longrightarrow> n = m"
begin

lemma alloc_fresh:
  assumes "inv h" and "room h sz" and "alloc h sz = Some (a, h')"
  shows "inv h'" and "live h' = insert (a, blocks sz) (live h)" and "(a, n) \<notin> live h"
  using alloc_room [OF assms(1,2)] assms(3) by auto

lemma alloc_release:
  assumes "inv h" and "room h sz" and "alloc h sz = Some (a, h')"
  shows "release h' a = Some h"
  using alloc_room [OF assms(1,2)] assms(3) by auto

lemma release_older:
  assumes "inv h" and "(b, m) \<in> live h" and "room h sz" and "alloc h sz = Some (a, h')"
  shows "\<exists>h''. release h' b = Some h'' \<and> inv h''
           \<and> live h'' = insert (a, blocks sz) (live h - {(b, m)})"
proof -
  note new = alloc_fresh [OF assms(1,3,4)]
  from new(2) assms(2) have "(b, m) \<in> live h'" by simp
  from release_live [OF new(1) this] obtain h''
    where h'': "release h' b = Some h''" "inv h''" "live h'' = live h' - {(b, m)}"
    by blast
  from new(3) assms(2) have "(b, m) \<noteq> (a, blocks sz)" by blast
  with h'' new(2) show ?thesis by auto
qed

end

interpretation kh: block_allocator heap_inv heap_live heap_room blocks_of heap_malloc heap_free
proof
  fix h sz
  assume inv: "heap_inv h" and room: "heap_room h sz"
  let ?es = "ht_entries (h_table h)"
  obtain s where run: "free_run ?es s (blocks_of sz)" and s: "s < ht_total (h_table h)"
    and malloc: "heap_malloc h sz = Some (heap_block_to_address h (int s),
                   with_entries h (mark_run ?es s (blocks_of sz)))"
    by (rule heap_malloc_room [OF inv room])
  from inv have wf: "table_wf ?es" by (simp add: heap_inv_def)
  from room have pos: "0 < blocks_of sz" by (simp add: heap_room_def)
  let ?h' = "with_entries h (mark_run ?es s (blocks_of sz))"
  note new = allocs_mark_run [OF wf run pos]
  have inv': "heap_inv ?h'"
    by (rule heap_inv_with_entries [OF inv]) (simp_all add: table_wf_mark_run [OF wf run pos])
  have "heap_live ?h' = insert (heap_block_to_address h (int s), blocks_of sz) (heap_live h)"
    by (simp add: heap_live_def new cong: image_cong)
  moreover have "(heap_block_to_address h (int s), n) \<notin> heap_live h" for n
  proof
    assume "(heap_block_to_address h (int s), n) \<in> heap_live h"
    then obtain t where t: "(t, n) \<in> allocs ?es"
      and "heap_block_to_address h (int s) = heap_block_to_address h (int t)"
      by (auto simp: heap_live_def)
    with block_address_inj [OF inv s alloc_block_less [OF inv t]] have "(s, n) \<in> allocs ?es" by simp
    with free_run_zero [OF wf run, of s] pos allocsD [of s n] show False by fastforce
  qed
  moreover have "heap_free ?h' (heap_block_to_address h (int s)) = Some h"
  proof -
    have "(s, blocks_of sz) \<in> allocs (ht_entries (h_table ?h'))" by (simp add: new)
    from heap_free_alloc [OF inv' this] clear_mark_run [OF free_run_zero [OF wf run]]
    show ?thesis by simp
  qed
  ultimately show "\<exists>a h'. heap_malloc h sz = Some (a, h') \<and> heap_inv h'
      \<and> heap_live h' = insert (a, blocks_of sz) (heap_live h)
      \<and> (\<forall>n. (a, n) \<notin> heap_live h) \<and> heap_free h' a = Some h"
    using malloc inv' by blast
next
  fix h a n
  assume inv: "heap_inv h" and "(a, n) \<in> heap_live h"
  then obtain s where s: "(s, n) \<in> allocs (ht_entries (h_table h))" "a = heap_block_to_address h (int s)"
    by (auto simp: heap_live_def)
  let ?es = "ht_entries (h_table h)"
  let ?h' = "with_entries h (clear_run ?es s n)"
  have "heap_inv ?h'"
    by (rule heap_inv_with_entries [OF inv])
       (use inv in \<open>simp_all add: table_wf_clear_run [OF _ s(1)] heap_inv_def\<close>)
  moreover have "heap_live ?h' = heap_live h - {(a, n)}"
    unfolding heap_live_def s(2)
    by (auto simp: allocs_clear_run [OF s(1)] dest: heap_live_inj [OF inv _ s(1)])
  ultimately show "\<exists>h'. heap_free h a = Some h' \<and> heap_inv h' \<and> heap_live h' = heap_live h - {(a, n)}"
    using heap_free_alloc [OF inv s(1)] s(2) by blast
next
  fix h a n m
  assume inv: "heap_inv h" and "(a, n) \<in> heap_live h" and "(a, m) \<in> heap_live h"
  then show "n = m" by (auto simp: heap_live_def dest: heap_live_inj [OF inv])
qed

subsection \<open>Allocations of at most one block\<close>

text \<open>
  Almost every object of the kernel fits in one block. \<open>heap_slack h k\<close>: at least \<open>k\<close> blocks
  of \<open>h\<close> are free, so that \<open>k\<close> such objects can be allocated.
\<close>

definition free_blocks :: "byte list \<Rightarrow> nat set" where
  "free_blocks es = {i. i < length es \<and> es ! i = 0}"

definition heap_slack :: "heap \<Rightarrow> nat \<Rightarrow> bool" where
  "heap_slack heap k \<longleftrightarrow> heap_inv heap \<and> k \<le> card (free_blocks (ht_entries (h_table heap)))"

definition small_size :: "u32 \<Rightarrow> bool" where
  "small_size sz \<longleftrightarrow> 0 < unat sz \<and> unat sz \<le> 4096"

lemma finite_free_blocks [simp]: "finite (free_blocks es)"
  by (simp add: free_blocks_def)

lemma blocks_of_small:
  assumes "small_size sz"
  shows "blocks_of sz = 1"
proof (cases "sz = 4096")
  case False
  with assms have less: "unat sz < 4096"
    using word_unat_eq_iff [of sz "4096 :: u32"] by (auto simp: small_size_def)
  have "unat (sz mod 4096) = unat sz" using less by (simp add: unat_mod)
  then have "sz mod 4096 = sz" by (rule word_unat_eq_iff [THEN iffD2])
  moreover have "sz \<noteq> 0" using assms by (auto simp: small_size_def)
  ultimately show ?thesis by (simp add: blocks_of_def heap_align_value_to_upper_def)
qed (simp add: blocks_of_def heap_align_value_to_upper_def)

lemma heap_room_small:
  assumes "heap_slack heap (Suc k)" and "small_size sz"
  shows "heap_room heap sz"
proof -
  have "free_blocks (ht_entries (h_table heap)) \<noteq> {}"
    using assms(1) by (auto simp: heap_slack_def)
  then obtain i where "i < length (ht_entries (h_table heap))" "ht_entries (h_table heap) ! i = 0"
    by (auto simp: free_blocks_def)
  then have "free_run (ht_entries (h_table heap)) i 1"
    by (auto simp: free_run_def less_Suc_eq heap_get_entry_type_def)
  then show ?thesis using blocks_of_small [OF assms(2)] by (auto simp: heap_room_def)
qed

lemma free_blocks_mark_run:
  assumes "s < length es" and "es ! s = 0"
  shows "card (free_blocks es) = Suc (card (free_blocks (mark_run es s 1)))"
proof -
  have "free_blocks (mark_run es s 1) = free_blocks es - {s}"
    by (auto simp: free_blocks_def split: if_splits)
  moreover have "s \<in> free_blocks es" using assms by (simp add: free_blocks_def)
  ultimately show ?thesis using card_Suc_Diff1 [of "free_blocks es" s] by simp
qed

lemma free_blocks_clear_run:
  assumes "(s, n) \<in> allocs es"
  shows "card (free_blocks (clear_run es s n)) = card (free_blocks es) + n"
proof -
  note d = allocsD [OF assms]
  have "free_blocks (clear_run es s n) = free_blocks es \<union> {s..<s + n}"
    using d(2) by (auto simp: free_blocks_def split: if_splits)
  moreover have "free_blocks es \<inter> {s..<s + n} = {}"
    using d(3) by (auto simp: free_blocks_def)
  ultimately show ?thesis by (simp add: card_Un_disjoint)
qed

text \<open>
  \<open>grown live h as h'\<close>: what is live in \<open>h'\<close> is what was live in \<open>h\<close> and one new block at each
  address of \<open>as\<close>. \<open>release_all\<close> releases a list of addresses in order.
\<close>

definition grown :: "('h \<Rightarrow> ('a \<times> nat) set) \<Rightarrow> 'h \<Rightarrow> 'a list \<Rightarrow> 'h \<Rightarrow> bool" where
  "grown live h as h' \<longleftrightarrow> live h' = live h \<union> (\<lambda>a. (a, 1)) ` set as \<and> distinct as
     \<and> (\<forall>a \<in> set as. \<forall>n. (a, n) \<notin> live h)"

fun release_all :: "('h \<Rightarrow> 'a \<Rightarrow> 'h option) \<Rightarrow> 'h \<Rightarrow> 'a list \<Rightarrow> 'h option" where
  "release_all rel h [] = Some h"
| "release_all rel h (a # as) = do { h' \<leftarrow> rel h a; release_all rel h' as }"

lemma grown_refl [simp]: "grown live h [] h"
  by (simp add: grown_def)

lemma grown_trans:
  assumes "grown live h as h'" and "grown live h' bs h''"
  shows "grown live h (as @ bs) h''"
proof -
  have "set as \<inter> set bs = {}" using assms by (fastforce simp: grown_def)
  with assms show ?thesis by (auto simp: grown_def)
qed

lemma release_all_append:
  "release_all rel h (as @ bs) = do { h' \<leftarrow> release_all rel h as; release_all rel h' bs }"
proof (induction as arbitrary: h)
  case (Cons a as)
  then show ?case by (cases "rel h a") simp_all
qed simp

text \<open>The interface of the kernel heap for such objects, and what a client derives from it.\<close>

locale object_heap =
  fixes slack :: "'h \<Rightarrow> nat \<Rightarrow> bool"
    and live :: "'h \<Rightarrow> ('a::zero \<times> nat) set"
    and small :: "'s \<Rightarrow> bool"
    and zalloc :: "'h \<Rightarrow> 's \<Rightarrow> ('a \<times> 'h) option"
    and release :: "'h \<Rightarrow> 'a \<Rightarrow> 'h option"
  assumes zalloc_slack: "slack h (Suc k) \<Longrightarrow> small sz \<Longrightarrow>
      \<exists>a h'. zalloc h sz = Some (a, h') \<and> a \<noteq> 0 \<and> slack h' k
             \<and> live h' = insert (a, 1) (live h) \<and> (\<forall>n. (a, n) \<notin> live h)"
    and release_slack: "slack h k \<Longrightarrow> (a, n) \<in> live h \<Longrightarrow>
      \<exists>h'. release h a = Some h' \<and> slack h' (k + n) \<and> live h' = live h - {(a, n)}"
    and slack_mono: "slack h k \<Longrightarrow> j \<le> k \<Longrightarrow> slack h j"
begin

lemma zallocE:
  assumes "slack h (Suc k)" and "small sz"
  obtains a h' where "zalloc h sz = Some (a, h')" and "a \<noteq> 0" and "slack h' k"
    and "live h' = insert (a, 1) (live h)" and "\<And>n. (a, n) \<notin> live h"
  using zalloc_slack [OF assms] by blast

lemma releaseE:
  assumes "slack h k" and "(a, n) \<in> live h"
  obtains h' where "release h a = Some h'" and "slack h' (k + n)" and "live h' = live h - {(a, n)}"
  using release_slack [OF assms] by blast

lemma zalloc_grown:
  assumes "slack h (Suc k)" and "small sz"
  obtains a h' where "zalloc h sz = Some (a, h')" and "a \<noteq> 0" and "slack h' k" and "grown live h [a] h'"
  using zalloc_slack [OF assms] by (auto simp: grown_def)

lemma release_all_live:
  assumes "slack h k" and "distinct as" and "\<And>a. a \<in> set as \<Longrightarrow> (a, 1) \<in> live h"
  shows "\<exists>h'. release_all release h as = Some h' \<and> slack h' (k + length as)
           \<and> live h' = live h - (\<lambda>a. (a, 1)) ` set as"
  using assms
proof (induction as arbitrary: h k)
  case (Cons a as)
  from Cons.prems(3) have "(a, 1) \<in> live h" by simp
  from releaseE [OF Cons.prems(1) this] obtain h1 where
    h1: "release h a = Some h1" "slack h1 (k + 1)" "live h1 = live h - {(a, 1)}"
    by blast
  from Cons.IH [OF h1(2)] Cons.prems h1(3) obtain h2 where
    "release_all release h1 as = Some h2" "slack h2 (k + 1 + length as)"
    "live h2 = live h1 - (\<lambda>a. (a, 1)) ` set as"
    by auto
  with h1 show ?case by (auto intro: slack_mono)
qed simp

lemma grown_release_all:
  assumes "slack h' k" and "grown live h as h'" and "set bs = set as" and "distinct bs"
  shows "\<exists>h''. release_all release h' bs = Some h'' \<and> slack h'' (k + length bs) \<and> live h'' = live h"
proof -
  have "\<exists>h''. release_all release h' bs = Some h'' \<and> slack h'' (k + length bs)
           \<and> live h'' = live h' - (\<lambda>a. (a, 1)) ` set bs"
    by (rule release_all_live) (use assms in \<open>auto simp: grown_def\<close>)
  moreover have "live h' - (\<lambda>a. (a, 1)) ` set bs = live h"
    using assms(2,3) by (auto simp: grown_def)
  ultimately show ?thesis by simp
qed

end

interpretation ko: object_heap heap_slack heap_live small_size kzalloc kfree
proof
  fix h k sz
  assume slack: "heap_slack h (Suc k)" and small: "small_size sz"
  let ?es = "ht_entries (h_table h)"
  from slack have inv: "heap_inv h" by (simp add: heap_slack_def)
  note room = heap_room_small [OF slack small] and one = blocks_of_small [OF small]
  obtain s where s: "free_run ?es s (blocks_of sz)" "s < ht_total (h_table h)"
    "heap_malloc h sz = Some (heap_block_to_address h (int s),
                   with_entries h (mark_run ?es s (blocks_of sz)))"
    by (rule heap_malloc_room [OF inv room])
  let ?a = "heap_block_to_address h (int s)" and ?h' = "with_entries h (mark_run ?es s 1)"
  from s(3) one have malloc: "heap_malloc h sz = Some (?a, ?h')" by simp
  note fresh = kh.alloc_fresh [OF inv room malloc]
  have "?es ! s = 0"
    using free_run_zero [OF _ s(1), of s] inv one by (auto simp: heap_inv_def)
  with s(2) inv have "card (free_blocks ?es) = Suc (card (free_blocks (mark_run ?es s 1)))"
    by (intro free_blocks_mark_run) (auto simp: heap_inv_def table_ok_def)
  with fresh(1) slack have "heap_slack ?h' k" by (simp add: heap_slack_def)
  moreover have "?a \<noteq> 0" by (rule block_address_nonzero [OF inv s(2)])
  moreover from this malloc have "kzalloc h sz = Some (?a, ?h')"
    by (simp add: kzalloc_def kmalloc_def)
  ultimately show "\<exists>a h'. kzalloc h sz = Some (a, h') \<and> a \<noteq> 0 \<and> heap_slack h' k
      \<and> heap_live h' = insert (a, 1) (heap_live h) \<and> (\<forall>n. (a, n) \<notin> heap_live h)"
    using fresh(2,3) one by (intro exI [of _ ?a] exI [of _ ?h']) simp
next
  fix h k a n
  assume slack: "heap_slack h k" and "(a, n) \<in> heap_live h"
  then obtain s where s: "(s, n) \<in> allocs (ht_entries (h_table h))" "a = heap_block_to_address h (int s)"
    by (auto simp: heap_live_def)
  from slack have inv: "heap_inv h" by (simp add: heap_slack_def)
  from kh.release_live [OF inv \<open>(a, n) \<in> heap_live h\<close>] heap_free_alloc [OF inv s(1)] s(2)
  have "heap_inv (with_entries h (clear_run (ht_entries (h_table h)) s n))"
    "heap_live (with_entries h (clear_run (ht_entries (h_table h)) s n)) = heap_live h - {(a, n)}"
    by auto
  with slack free_blocks_clear_run [OF s(1)] heap_free_alloc [OF inv s(1)] s(2)
  show "\<exists>h'. kfree h a = Some h' \<and> heap_slack h' (k + n) \<and> heap_live h' = heap_live h - {(a, n)}"
    by (simp add: kfree_def heap_slack_def)
qed (auto simp: heap_slack_def)

text \<open>A heap whose blocks are all free.\<close>

lemma fresh_heap:
  fixes sa :: u32
  assumes "0 < uint sa" and "uint sa + 4096 * int n \<le> 2 ^ 31"
    and "heap = \<lparr>h_table = \<lparr>ht_entries = replicate n 0, ht_total = n\<rparr>, h_saddr = sa\<rparr>"
  shows "heap_inv heap" and "heap_live heap = {}" and "heap_slack heap n"
proof -
  have "allocs (replicate n 0) = {}" by (auto simp: allocs_def)
  moreover have "free_blocks (replicate n 0) = {..<n}" by (auto simp: free_blocks_def)
  ultimately show "heap_inv heap" "heap_live heap = {}" "heap_slack heap n"
    using assms by (simp_all add: heap_live_def heap_slack_def heap_inv_def table_ok_def table_wf_def)
qed

section \<open>Properties\<close>

text \<open>
  C5: first fit. With room for the request, \<^verbatim>\<open>heap_malloc\<close> returns the address, not null, of the first run of free blocks that is long
  enough, blocks that no live allocation has, keeps the table well formed, and \<^verbatim>\<open>heap_free\<close> of that address gives
  back exactly the heap before.
\<close>

theorem heap_malloc_free:
  assumes "heap_inv heap" and "heap_room heap sz"
  shows "\<exists>s a heap'. heap_malloc heap sz = Some (a, heap') \<and> a \<noteq> 0 \<and> heap_inv heap'
           \<and> uint a = uint (h_saddr heap) + 4096 * int s \<and> free_run (ht_entries (h_table heap)) s (blocks_of sz)
           \<and> (\<forall>t < s. \<not> free_run (ht_entries (h_table heap)) t (blocks_of sz))
           \<and> (\<forall>n. (a, n) \<notin> heap_live heap)
           \<and> heap_live heap' = insert (a, blocks_of sz) (heap_live heap)
           \<and> heap_free heap' a = Some heap"
proof -
  obtain s where s: "s < ht_total (h_table heap)"
    "heap_malloc heap sz = Some (heap_block_to_address heap (int s),
        with_entries heap (mark_run (ht_entries (h_table heap)) s (blocks_of sz)))"
    "free_run (ht_entries (h_table heap)) s (blocks_of sz)" "\<forall>t < s. \<not> free_run (ht_entries (h_table heap)) t (blocks_of sz)"
    using heap_malloc_room [OF assms] by metis
  then show ?thesis
    using kh.alloc_room [OF assms] block_address_nonzero [OF assms(1) s(1)] block_address_range [OF assms(1) s(1)] by (intro exI [of _ s]) auto
qed

definition demo_heap :: "byte list \<Rightarrow> heap" where
  "demo_heap es = \<lparr>h_table = \<lparr>ht_entries = es, ht_total = length es\<rparr>, h_saddr = 0x01000000\<rparr>"

lemma demo_heap_slack: "n \<le> 1000 \<Longrightarrow> heap_slack (demo_heap (replicate n 0)) n"
  by (rule fresh_heap(3) [where sa = "0x01000000"]) (simp_all add: demo_heap_def)

lemma demo_heap_free: "heap_inv (demo_heap [0, 0, 0])"
  using demo_heap_slack [of 3] by (simp add: heap_slack_def numeral_3_eq_3)

theorem heap_malloc_free_witness:
  "\<exists>a heap'. heap_malloc (demo_heap [0, 0, 0]) 5000 = Some (a, heap') \<and> uint a = 0x01000000 \<and> heap_free heap' a = Some (demo_heap [0, 0, 0])"
proof -
  have b: "blocks_of 5000 = 2" by (simp add: blocks_of_def heap_align_value_to_upper_def)
  moreover have r: "free_run (ht_entries (h_table (demo_heap [0, 0, 0]))) 0 2"
    by (auto simp: free_run_def demo_heap_def less_Suc_eq numeral_2_eq_2 heap_get_entry_type_def)
  ultimately have "heap_room (demo_heap [0, 0, 0]) 5000" by (auto simp: heap_room_def)
  from heap_malloc_free [OF demo_heap_free this] r obtain s a heap' where "heap_malloc (demo_heap [0, 0, 0]) 5000 = Some (a, heap')"
    "uint a = uint (h_saddr (demo_heap [0, 0, 0])) + 4096 * int s" "\<not> 0 < s" "heap_free heap' a = Some (demo_heap [0, 0, 0])"
    unfolding b by blast
  then show ?thesis by (simp add: demo_heap_def)
qed

text \<open>
  C6: when no run of free blocks is long enough but the last block of the pool is free, the
  scan still answers with the short run at the end of the pool, and marking it stores past
  the end of the table: \<^verbatim>\<open>heap_malloc\<close> does not fail as its callers expect, it has no defined
  result.
\<close>

theorem heap_malloc_overrun:
  assumes "heap_inv heap" and "0 < blocks_of sz" and "ht_entries (h_table heap) \<noteq> []"
    and "\<And>t. \<not> free_run (ht_entries (h_table heap)) t (blocks_of sz)"
    and "last (ht_entries (h_table heap)) = 0"
  shows "heap_malloc heap sz = None"
proof -
  let ?n = "heap_align_value_to_upper sz div 4096"
  from assms(1) have ok: "table_ok heap" by (simp add: heap_inv_def)
  have "heap_get_entry_type (last (ht_entries (h_table heap))) = 0"
    using assms(5) by (simp add: heap_get_entry_type_def)
  with heap_get_start_block_no_fit [OF ok, of ?n] assms(2-4)
  obtain s where s: "heap_get_start_block heap ?n = Some (int s)"
    "s < ht_total (h_table heap)" "ht_total (h_table heap) < s + unat ?n"
    by (auto simp: blocks_of_def)
  moreover have "mark_taken_loop (ht_entries (h_table heap)) (unat ?n) (int s) e entry = None" for e entry
    by (rule mark_taken_loop_overrun) (use s ok in \<open>auto simp: table_ok_def\<close>)
  ultimately show ?thesis
    by (simp add: heap_malloc_def Let_def heap_malloc_blocks_def heap_mark_blocks_taken_def
        nat_uint_eq)
qed

theorem heap_malloc_overrun_witness:
  "heap_malloc (demo_heap [0x41, 0]) 5000 = None"
proof (rule heap_malloc_overrun)
  have "(0, 1) \<in> allocs [0x41, 0]" by (rule allocsI) (auto simp: alloc_entry_def)
  then show "heap_inv (demo_heap [0x41, 0])"
    by (auto simp: heap_inv_def demo_heap_def table_ok_def table_wf_def less_Suc_eq)
  have two: "blocks_of 5000 = 2" by (simp add: blocks_of_def heap_align_value_to_upper_def)
  then show "0 < blocks_of 5000" by simp
  show "\<not> free_run (ht_entries (h_table (demo_heap [0x41, 0]))) t (blocks_of 5000)" for t
    by (auto simp: free_run_def demo_heap_def two heap_get_entry_type_def intro!: exI [of _ 0])
qed (simp_all add: demo_heap_def)

text \<open>
  \<^verbatim>\<open>kheap_init\<close> accepts the configured geometry, whatever the table memory held before, and
  leaves a well-formed heap of 25600 free blocks.
\<close>

lemma kheap_init_ok:
  assumes "length raw = 25600"
  shows "\<exists>heap. kheap_init raw = Some (0, heap) \<and> heap_inv heap \<and> heap_live heap = {}
           \<and> heap_slack heap 25600"
proof -
  define n where "n = length raw"
  let ?heap = "\<lparr>h_table = \<lparr>ht_entries = replicate n 0, ht_total = n\<rparr>, h_saddr = 0x01000000\<rparr>"
  have create: "kheap_init raw = Some (0, ?heap)"
    using assms
    by (simp add: kheap_init_def heap_create_def heap_validate_alignment_def heap_validate_table_def
        memset_eq n_def)
  have "heap_inv ?heap" "heap_live ?heap = {}" "heap_slack ?heap n"
    using fresh_heap [where sa = "0x01000000" and n = n and heap = ?heap] assms by (simp_all add: n_def)
  with assms have "heap_inv ?heap" "heap_live ?heap = {}" "heap_slack ?heap 25600"
    by (simp_all add: n_def)
  then show ?thesis using create by blast
qed

end
