(* ===== verification/Disk.thy ===== *)
theory Disk
  imports Kheap
begin

text \<open>
  Sector access, \<^verbatim>\<open>src/src/disk/disk.c\<close>, and the byte stream over it,
  \<^verbatim>\<open>src/src/disk/streamer.c\<close>. The drive is the function from byte addresses to the bytes
  it holds; sector \<open>n\<close> is the 512 bytes from address \<open>512 * n\<close>. There is one disk, the
  global \<^verbatim>\<open>disk\<close>, and a \<^verbatim>\<open>struct disk*\<close> is its index: \<open>0\<close> for \<^verbatim>\<open>&disk\<close>.

  The streamer reads and writes through a 512-byte local buffer. An index outside of it is
  \<open>None\<close>: \<^verbatim>\<open>diskstreamer_read\<close> has no guard against a read that crosses a sector.
\<close>

section \<open>Data\<close>

type_synonym drive = "nat \<Rightarrow> byte"

record disk_stream =
  ds_pos :: int
  ds_disk :: int

section \<open>Operations\<close>

text \<open>
  The sectors \<open>lba\<close> to \<open>lba + total - 1\<close>. The controller takes 28-bit sector numbers; bit 28
  of \<open>lba\<close> would select the other drive of the channel, which is not modelled.
\<close>

definition lba_ok :: "int \<Rightarrow> int \<Rightarrow> bool" where
  "lba_ok lba n \<longleftrightarrow> 0 \<le> lba \<and> 0 \<le> n \<and> lba + n \<le> 2 ^ 28"

definition disk_get :: "int \<Rightarrow> int option" where
  "disk_get index = (if index \<noteq> 0 then None else Some 0)"

text \<open>
  The block operations as functions of the contents of the drive. The loops over the ports of the controller that they call,
  \<^verbatim>\<open>disk_read_sector\<close> and \<^verbatim>\<open>disk_write_sector\<close>, are in the theory of the ports, with the theorem that relates the two.
\<close>

definition disk_read_block :: "drive \<Rightarrow> int \<Rightarrow> int \<Rightarrow> int \<Rightarrow> (int \<times> byte list) option" where
  "disk_read_block d idisk lba n =
     (if idisk \<noteq> 0 then Some (- EIO, [])
      else if lba_ok lba n
      then Some (0, map d [nat (512 * lba)..<nat (512 * (lba + n))])
      else None)"

definition disk_write_block :: "drive \<Rightarrow> int \<Rightarrow> int \<Rightarrow> int \<Rightarrow> byte list \<Rightarrow> (int \<times> drive) option" where
  "disk_write_block d idisk lba n buf =
     (if idisk \<noteq> 0 then Some (- EIO, d)
      else if lba_ok lba n \<and> int (length buf) \<ge> 512 * n
      then Some (0, \<lambda>a. if nat (512 * lba) \<le> a \<and> a < nat (512 * (lba + n))
                        then buf ! (a - nat (512 * lba)) else d a)
      else None)"

text \<open>The result of \<^verbatim>\<open>diskstreamer_new\<close> is the address of the stream and the stream.\<close>

definition diskstreamer_new :: "heap \<Rightarrow> int \<Rightarrow> ((u32 \<times> disk_stream) option \<times> heap) option" where
  "diskstreamer_new heap disk_id =
     (case disk_get disk_id of
        None \<Rightarrow> Some (None, heap)
      | Some disk \<Rightarrow> do {
          (streamer, heap') \<leftarrow> kzalloc heap 8;
          if streamer = 0 then None
          else Some (Some (streamer, \<lparr>ds_pos = 0, ds_disk = disk\<rparr>), heap')
        })"

definition diskstreamer_close :: "heap \<Rightarrow> u32 \<Rightarrow> heap option" where
  "diskstreamer_close heap stream = kfree heap stream"

definition diskstreamer_seek :: "disk_stream \<Rightarrow> int \<Rightarrow> int \<times> disk_stream" where
  "diskstreamer_seek stream pos = (0, stream\<lparr>ds_pos := pos\<rparr>)"

text \<open>The copy loop of \<^verbatim>\<open>diskstreamer_read\<close>: \<open>n\<close> bytes of \<open>buf\<close> from index \<open>offset + i\<close>.\<close>

fun copy_out :: "byte list \<Rightarrow> int \<Rightarrow> nat \<Rightarrow> byte list option" where
  "copy_out buf i 0 = Some []"
| "copy_out buf i (Suc n) =
     (if 0 \<le> i \<and> nat i < length buf
      then map_option ((#) (buf ! nat i)) (copy_out buf (i + 1) n) else None)"

function diskstreamer_read ::
    "drive \<Rightarrow> disk_stream \<Rightarrow> int \<Rightarrow> (int \<times> disk_stream \<times> byte list) option" where
  "diskstreamer_read d stream n = do {
     let sector = ds_pos stream sdiv PEACHOS_SECTOR_SIZE;
     let offset = ds_pos stream smod PEACHOS_SECTOR_SIZE;
     (res, buf) \<leftarrow> disk_read_block d (ds_disk stream) sector 1;
     if res < 0 then Some (res, stream, [])
     else do {
       let total_to_read = (if n > PEACHOS_SECTOR_SIZE then PEACHOS_SECTOR_SIZE else n);
       out \<leftarrow> copy_out buf offset (nat total_to_read);
       let stream1 = stream\<lparr>ds_pos := ds_pos stream + total_to_read\<rparr>;
       if n > PEACHOS_SECTOR_SIZE
       then do {
         (res', stream', out') \<leftarrow> diskstreamer_read d stream1 (n - PEACHOS_SECTOR_SIZE);
         Some (res', stream', out @ out')
       }
       else Some (res, stream1, out)
     }
   }"
  by pat_completeness auto
termination
  by (relation "measure (\<lambda>(d, stream, n). nat n)") auto

declare diskstreamer_read.simps [simp del]

lemma smod_sector_less [simp]: "(a::int) smod 512 < 512"
  by (cases "a \<ge> 0") (auto simp: signed_modulo_int_def sgn_if)

lemma sector_rest_pos: "512 - (a::int) smod 512 < n \<Longrightarrow> 0 < n"
  using smod_sector_less [of a] by linarith

text \<open>\<open>input\<close> is the object the code writes from; \<^verbatim>\<open>memcpy\<close> into the local buffer is bounded
  by both objects.\<close>

function diskstreamer_write ::
    "drive \<Rightarrow> disk_stream \<Rightarrow> byte list \<Rightarrow> int \<Rightarrow> (int \<times> disk_stream \<times> drive) option" where
  "diskstreamer_write d stream input n = do {
     let sector = ds_pos stream sdiv PEACHOS_SECTOR_SIZE;
     let offset = ds_pos stream smod PEACHOS_SECTOR_SIZE;
     (res, buf) \<leftarrow> disk_read_block d (ds_disk stream) sector 1;
     if res < 0 then Some (res, stream, d)
     else if offset < 0 \<or> n < 0 then None
     else do {
       let total_to_write = (if n > PEACHOS_SECTOR_SIZE - offset
                             then PEACHOS_SECTOR_SIZE - offset else n);
       new_tail \<leftarrow> memcpy (drop (nat offset) buf) input (nat total_to_write);
       (res1, d1) \<leftarrow> disk_write_block d (ds_disk stream) sector 1 (take (nat offset) buf @ new_tail);
       if res1 < 0 then Some (res1, stream, d1)
       else do {
         let stream1 = stream\<lparr>ds_pos := ds_pos stream + total_to_write\<rparr>;
         if n > total_to_write
         then diskstreamer_write d1 stream1 (drop (nat total_to_write) input) (n - total_to_write)
         else Some (res1, stream1, d1)
       }
     }
   }"
  by pat_completeness auto
termination
  by (relation "measure (\<lambda>(d, stream, input, n). nat n)")
     (auto dest: sector_rest_pos split: if_splits)

declare diskstreamer_write.simps [simp del]

section \<open>Behaviour of the streamer\<close>

abbreviation bytes_at :: "drive \<Rightarrow> nat \<Rightarrow> nat \<Rightarrow> byte list" where
  "bytes_at d a n \<equiv> map d [a..<a + n]"

definition write_bytes :: "drive \<Rightarrow> nat \<Rightarrow> byte list \<Rightarrow> drive" where
  "write_bytes d a bs = (\<lambda>x. if a \<le> x \<and> x < a + length bs then bs ! (x - a) else d x)"

lemma write_bytes_Nil [simp]: "write_bytes d a [] = d"
  by (auto simp: write_bytes_def fun_eq_iff)

lemma write_bytes_append:
  "write_bytes (write_bytes d a xs) (a + length xs) ys = write_bytes d a (xs @ ys)"
  by (auto simp: write_bytes_def fun_eq_iff nth_append)

lemma write_bytes_outside: "x < a \<or> a + length bs \<le> x \<Longrightarrow> write_bytes d a bs x = d x"
  by (auto simp: write_bytes_def)

lemma write_bytes_inside: "i < length bs \<Longrightarrow> write_bytes d a bs (a + i) = bs ! i"
  by (simp add: write_bytes_def)

lemma bytes_at_write_bytes: "bytes_at (write_bytes d a bs) a (length bs) = bs"
  by (rule nth_equalityI) (simp_all add: write_bytes_def)

lemma bytes_at_write_bytes_disjoint:
  "b + n \<le> a \<or> a + length bs \<le> b \<Longrightarrow> bytes_at (write_bytes d a bs) b n = bytes_at d b n"
  by (auto simp: write_bytes_def)

lemma copy_out_eq:
  "copy_out buf (int i) n =
     (if n = 0 then Some [] else if i + n \<le> length buf then Some (take n (drop i buf)) else None)"
proof (induction n arbitrary: i)
  case (Suc n)
  have next_i: "int i + 1 = int (Suc i)" by simp
  show ?case
    unfolding copy_out.simps next_i Suc.IH
    by (auto simp: Cons_nth_drop_Suc [symmetric])
qed simp

lemma sector_split: "(p::nat) = 512 * (p div 512) + p mod 512"
  by simp

lemma int_sector: "int p div 512 = int (p div 512)" "int p mod 512 = int (p mod 512)"
  by (simp_all add: zdiv_int zmod_int)

lemma disk_read_block_sector:
  assumes "p < 2 ^ 37"
  shows "disk_read_block d 0 (int (p div 512)) 1 = Some (0, bytes_at d (512 * (p div 512)) 512)"
proof -
  have "p div 512 < 2 ^ 28" using assms by simp
  then show ?thesis
    by (simp add: disk_read_block_def lba_ok_def nat_mult_distrib nat_add_distrib algebra_simps)
qed

lemma read_in_sector:
  assumes "p < 2 ^ 37" and "p mod 512 + n \<le> 512"
  shows "diskstreamer_read d \<lparr>ds_pos = int p, ds_disk = 0\<rparr> (int n) =
           Some (0, \<lparr>ds_pos = int (p + n), ds_disk = 0\<rparr>, bytes_at d p n)"
proof -
  let ?b = "512 * (p div 512)"
  have "p + n \<le> ?b + 512" using assms(2) sector_split [of p] by linarith
  have "take n (drop (p mod 512) (bytes_at d ?b 512)) = bytes_at d p n"
    using \<open>p + n \<le> ?b + 512\<close> by (simp add: take_map drop_map)
  moreover have n: "\<not> 512 < n" using assms(2) by simp
  ultimately have copy: "copy_out (bytes_at d ?b 512) (int (p mod 512)) n = Some (bytes_at d p n)"
    using assms(2) by (simp add: copy_out_eq)
  show ?thesis
    using assms(1)
    by (subst diskstreamer_read.simps)
       (simp add: Let_def disk_read_block_sector copy int_sector n del: copy_out.simps)
qed

lemma read_aligned:
  assumes "p + n < 2 ^ 37" and "p mod 512 = 0"
  shows "diskstreamer_read d \<lparr>ds_pos = int p, ds_disk = 0\<rparr> (int n) =
           Some (0, \<lparr>ds_pos = int (p + n), ds_disk = 0\<rparr>, bytes_at d p n)"
  using assms
proof (induction n arbitrary: p rule: less_induct)
  case (less n)
  show ?case
  proof (cases "n \<le> 512")
    case True
    with less.prems show ?thesis by (intro read_in_sector) auto
  next
    case False
    have buf: "512 * (p div 512) = p" using less.prems(2) minus_mod_eq_mult_div [of p 512] by simp
    have lt: "n - 512 < n" "p + 512 + (n - 512) < 2 ^ 37" "(p + 512) mod 512 = 0"
      using less.prems False by simp_all
    from less.IH [OF lt] False
    have IH: "diskstreamer_read d \<lparr>ds_pos = int p + 512, ds_disk = 0\<rparr> (int n - 512) =
       Some (0, \<lparr>ds_pos = int (p + n), ds_disk = 0\<rparr>, bytes_at d (p + 512) (n - 512))"
      by (simp add: of_nat_diff)
    have app: "bytes_at d p 512 @ bytes_at d (p + 512) (n - 512) = bytes_at d p n"
      using map_fun_upt_append [of d p 512 "n - 512"] False by simp
    have "disk_read_block d 0 (int (p div 512)) 1 = Some (0, bytes_at d p 512)"
      using disk_read_block_sector [of p d] less.prems(1) buf by simp
    moreover have "copy_out (bytes_at d p 512) 0 512 = Some (bytes_at d p 512)"
      using copy_out_eq [of "bytes_at d p 512" 0 512] by simp
    ultimately show ?thesis
      using False IH app less.prems(2)
      by (subst diskstreamer_read.simps) (simp add: int_sector Let_def del: copy_out.simps)
  qed
qed

lemma read_crossing:
  assumes "p < 2 ^ 37" and "p mod 512 \<noteq> 0" and "512 < p mod 512 + n"
  shows "diskstreamer_read d \<lparr>ds_pos = int p, ds_disk = 0\<rparr> (int n) = None"
proof -
  let ?m = "min n 512"
  have "copy_out (bytes_at d (512 * (p div 512)) 512) (int (p mod 512)) ?m = None"
    unfolding copy_out_eq using assms(2,3) by auto
  moreover have "nat (if int n > 512 then 512 else int n) = ?m" by (simp add: min_def)
  ultimately show ?thesis
    using assms
    by (subst diskstreamer_read.simps)
       (simp add: disk_read_block_sector int_sector del: copy_out.simps)
qed

lemma disk_write_block_sector:
  assumes "p < 2 ^ 37" and "length buf = 512"
  shows "disk_write_block d 0 (int (p div 512)) 1 buf = Some (0, write_bytes d (512 * (p div 512)) buf)"
proof -
  have "p div 512 < 2 ^ 28" using assms by simp
  moreover have "nat (512 * int q) = 512 * q" for q by simp
  moreover have "nat (512 * (int q + 1)) = 512 * q + 512" for q by simp
  ultimately show ?thesis
    using assms(2) by (auto simp: disk_write_block_def lba_ok_def write_bytes_def fun_eq_iff)
qed

text \<open>The read-modify-write of one sector changes the bytes of the write window only.\<close>

lemma sector_patch:
  assumes "o' + length bs \<le> 512"
  shows "write_bytes d b (take o' (bytes_at d b 512) @ bs @ drop (o' + length bs) (bytes_at d b 512))
           = write_bytes d (b + o') bs"
proof (rule ext)
  fix x
  let ?buf = "take o' (bytes_at d b 512) @ bs @ drop (o' + length bs) (bytes_at d b 512)"
  have len: "length ?buf = 512" using assms by simp
  consider "x < b" | "b + 512 \<le> x" | (pre) "b \<le> x" "x < b + o'"
    | (win) "b + o' \<le> x" "x < b + o' + length bs" | (post) "b + o' + length bs \<le> x" "x < b + 512"
    by linarith
  then show "write_bytes d b ?buf x = write_bytes d (b + o') bs x"
    using assms len by cases (auto simp: write_bytes_def nth_append)
qed

lemma write_step:
  assumes "p + n < 2 ^ 37" and "n \<le> length input" and "m = min n (512 - p mod 512)"
  shows "diskstreamer_write d \<lparr>ds_pos = int p, ds_disk = 0\<rparr> input (int n) =
     (if m < n
      then diskstreamer_write (write_bytes d p (take m input)) \<lparr>ds_pos = int (p + m), ds_disk = 0\<rparr>
             (drop m input) (int (n - m))
      else Some (0, \<lparr>ds_pos = int (p + m), ds_disk = 0\<rparr>, write_bytes d p (take m input)))"
proof -
  let ?b = "512 * (p div 512)" and ?o = "p mod 512"
  let ?buf = "bytes_at d ?b 512"
  have o: "?o < 512" by simp
  have m: "m \<le> n" "?o + m \<le> 512" "m \<le> length input" using assms(2,3) by auto
  have cpy: "memcpy (drop ?o ?buf) input m = Some (take m input @ drop (?o + m) ?buf)"
    using m by (simp add: memcpy_eq drop_drop [symmetric] add.commute del: drop_drop)
  have "length (take m input) = m" using m by simp
  with sector_patch [of ?o "take m input" d ?b] m
  have patch: "write_bytes d ?b (take ?o ?buf @ take m input @ drop (?o + m) ?buf)
      = write_bytes d p (take m input)"
    by simp
  have len: "length (take ?o ?buf @ take m input @ drop (?o + m) ?buf) = 512" using m by simp
  have tw: "(if int n > 512 - int ?o then 512 - int ?o else int n) = int m"
    using assms(3) o by (auto simp: min_def)
  have blk: "disk_write_block d 0 (int (p div 512)) 1 (take ?o ?buf @ take m input @ drop (?o + m) ?buf)
      = Some (0, write_bytes d p (take m input))"
    using disk_write_block_sector [OF _ len, of p d] assms(1) patch by simp
  have cond: "(int n > int m) = (m < n)" by simp
  show ?thesis
    using assms(1) m
    by (subst diskstreamer_write.simps)
       (simp add: disk_read_block_sector int_sector tw cpy blk of_nat_diff Let_def)
qed

lemma write_eq:
  assumes "p + n < 2 ^ 37" and "n \<le> length input"
  shows "diskstreamer_write d \<lparr>ds_pos = int p, ds_disk = 0\<rparr> input (int n) =
     Some (0, \<lparr>ds_pos = int (p + n), ds_disk = 0\<rparr>, write_bytes d p (take n input))"
  using assms
proof (induction n arbitrary: p d input rule: less_induct)
  case (less n)
  define m where "m = min n (512 - p mod 512)"
  note step = write_step [OF less.prems m_def]
  have m: "m \<le> n" "n = 0 \<or> 0 < m" by (auto simp: m_def)
  then have len: "length (take m input) = m" using less.prems by simp
  show ?case
  proof (cases "m < n")
    case True
    with m have "n - m < n" by simp
    from less.IH [OF this, of "p + m" "drop m input" "write_bytes d p (take m input)"] less.prems m
    have "diskstreamer_write (write_bytes d p (take m input)) \<lparr>ds_pos = int (p + m), ds_disk = 0\<rparr>
        (drop m input) (int (n - m)) = Some (0, \<lparr>ds_pos = int (p + n), ds_disk = 0\<rparr>,
          write_bytes (write_bytes d p (take m input)) (p + m) (take (n - m) (drop m input)))"
      by simp
    moreover have "write_bytes (write_bytes d p (take m input)) (p + m) (take (n - m) (drop m input))
        = write_bytes d p (take n input)"
      using write_bytes_append [of d p "take m input" "take (n - m) (drop m input)"] len m(1)
        take_add [of m "n - m" input] by simp
    ultimately show ?thesis using step True by simp
  next
    case False
    with m have "m = n" by simp
    with step show ?thesis by simp
  qed
qed

section \<open>Properties\<close>

text \<open>
  C22: a read of \<open>n\<close> bytes at position \<open>p\<close> of the disk returns the bytes the drive holds there,
  and advances the position, exactly when it starts on a sector boundary or stays in one
  sector. Any other read copies from beyond the 512-byte local buffer.
\<close>

theorem diskstreamer_read_spec:
  assumes "p + n < 2 ^ 31"
  shows "diskstreamer_read d \<lparr>ds_pos = int p, ds_disk = 0\<rparr> (int n) =
     (if p mod 512 = 0 \<or> p mod 512 + n \<le> 512
      then Some (0, \<lparr>ds_pos = int (p + n), ds_disk = 0\<rparr>, bytes_at d p n) else None)"
proof -
  have "p < 2 ^ 37" "p + n < 2 ^ 37" using assms by simp_all
  then show ?thesis
    using read_aligned [of p n d] read_in_sector [of p n d] read_crossing [of p n d] by auto
qed

theorem diskstreamer_read_spec_witness:
  "diskstreamer_read (\<lambda>a. word_of_nat a) \<lparr>ds_pos = 510, ds_disk = 0\<rparr> 2 =
     Some (0, \<lparr>ds_pos = 512, ds_disk = 0\<rparr>, [254, 255])
   \<and> diskstreamer_read (\<lambda>a. word_of_nat a) \<lparr>ds_pos = 511, ds_disk = 0\<rparr> 2 = None"
  using diskstreamer_read_spec [of 510 2 "\<lambda>a. word_of_nat a"]
    diskstreamer_read_spec [of 511 2 "\<lambda>a. word_of_nat a"] by (simp add: upt_rec)

text \<open>
  \<^verbatim>\<open>diskstreamer_write\<close> stores the \<open>n\<close> bytes of the input at the position, for every
  alignment and length, changes no other byte of the drive, and a read of any part of them
  that stays inside one sector returns them.
\<close>

lemma diskstreamer_write_read:
  assumes "p + n < 2 ^ 31" and "n \<le> length input" and "i + m \<le> n" and "(p + i) mod 512 + m \<le> 512"
  shows "\<exists>d'. diskstreamer_write d \<lparr>ds_pos = int p, ds_disk = 0\<rparr> input (int n) =
            Some (0, \<lparr>ds_pos = int (p + n), ds_disk = 0\<rparr>, d')
        \<and> diskstreamer_read d' \<lparr>ds_pos = int (p + i), ds_disk = 0\<rparr> (int m) =
            Some (0, \<lparr>ds_pos = int (p + i + m), ds_disk = 0\<rparr>, take m (drop i input))
        \<and> (\<forall>a. a < p \<or> p + n \<le> a \<longrightarrow> d' a = d a)"
proof (intro exI conjI)
  let ?d = "write_bytes d p (take n input)"
  have big: "p + n < 2 ^ 37" using assms(1) by simp
  show "diskstreamer_write d \<lparr>ds_pos = int p, ds_disk = 0\<rparr> input (int n) =
     Some (0, \<lparr>ds_pos = int (p + n), ds_disk = 0\<rparr>, ?d)"
    using write_eq [OF big assms(2)] .
  have "bytes_at ?d (p + i) m = take m (drop i input)"
    using assms(2,3) by (intro nth_equalityI) (simp_all add: write_bytes_def)
  then show "diskstreamer_read ?d \<lparr>ds_pos = int (p + i), ds_disk = 0\<rparr> (int m) =
     Some (0, \<lparr>ds_pos = int (p + i + m), ds_disk = 0\<rparr>, take m (drop i input))"
    using read_in_sector [of "p + i" m ?d] assms(3,4) big by simp
  show "\<forall>a. a < p \<or> p + n \<le> a \<longrightarrow> ?d a = d a"
    using assms(2) by (auto simp: write_bytes_def)
qed

end
