(* ===== verification/Path_Parser.thy ===== *)
theory Path_Parser
  imports Cstring Kheap
begin

text \<open>
  The path parser, \<^verbatim>\<open>src/src/fs/pparser.c\<close>. A path is \<^verbatim>\<open>d:/part/part/...\<close> with one digit
  for the drive. The parser allocates the root, and for each part the part and its string;
  the linked list of parts is the list \<open>pr_first\<close>, in order, and each object keeps its
  address so that \<^verbatim>\<open>pathparser_free\<close> can release it. A null result of \<^verbatim>\<open>kzalloc\<close> is stored
  through at once, which is \<open>None\<close>.
\<close>

section \<open>Data\<close>

record path_part =
  pp_addr :: u32
  pp_str_addr :: u32
  pp_part :: "byte list"

record path_root =
  pr_addr :: u32
  pr_drive_no :: int
  pr_first :: "path_part list"

abbreviation (input) chr_slash :: byte where "chr_slash \<equiv> 0x2F"
abbreviation (input) chr_colon :: byte where "chr_colon \<equiv> 0x3A"

section \<open>Operations\<close>

definition pathparser_path_valid_format :: "byte list \<Rightarrow> bool option" where
  "pathparser_path_valid_format filename = do {
     len \<leftarrow> strnlen filename PEACHOS_MAX_PATH;
     if len \<ge> 3 \<and> isdigit (filename ! 0)
     then do { c \<leftarrow> memcmp (drop 1 filename) [chr_colon, chr_slash, 0] 2; Some (c = 0) }
     else Some False
   }"

text \<open>The result is the drive or an error code, and the advanced path.\<close>

definition pathparser_get_drive_by_path :: "byte list \<Rightarrow> (int \<times> byte list) option" where
  "pathparser_get_drive_by_path path = do {
     valid \<leftarrow> pathparser_path_valid_format path;
     if \<not> valid then Some (- EBADPATH, path)
     else Some (tonumericdigit (path ! 0), drop 3 path)
   }"

definition pathparser_create_root :: "heap \<Rightarrow> int \<Rightarrow> (path_root \<times> heap) option" where
  "pathparser_create_root heap drive_number = do {
     (path_r, heap') \<leftarrow> kzalloc heap 8;
     if path_r = 0 then None
     else Some (\<lparr>pr_addr = path_r, pr_drive_no = drive_number, pr_first = []\<rparr>, heap')
   }"

text \<open>The copy loop of \<^verbatim>\<open>pathparser_get_path_part\<close>; a store past the 108 bytes is \<open>None\<close>.\<close>

fun part_loop :: "byte list \<Rightarrow> byte list \<Rightarrow> nat \<Rightarrow> (byte list \<times> byte list \<times> nat) option" where
  "part_loop [] buf i = None"
| "part_loop (c # path) buf i =
     (if c \<noteq> chr_slash \<and> c \<noteq> 0 then
        if i < length buf then part_loop path (buf[i := c]) (Suc i) else None
      else Some (buf, c # path, i))"

text \<open>The string and its address, or \<open>None\<close> inside for a null result; then the advanced path.\<close>

definition pathparser_get_path_part ::
    "heap \<Rightarrow> byte list \<Rightarrow> ((u32 \<times> byte list) option \<times> byte list \<times> heap) option" where
  "pathparser_get_path_part heap path = do {
     (result_path_part, heap1) \<leftarrow> kzalloc heap (of_nat PEACHOS_MAX_PATH);
     (buf, path1, i) \<leftarrow> part_loop path (replicate PEACHOS_MAX_PATH 0) 0;
     if i > 0 \<and> result_path_part = 0 then None
     else do {
       let path2 = (if hd path1 = chr_slash then tl path1 else path1);
       if i = 0
       then do { heap2 \<leftarrow> kfree heap1 result_path_part; Some (None, path2, heap2) }
       else Some (Some (result_path_part, buf), path2, heap1)
     }
   }"

definition pathparser_parse_path_part ::
    "heap \<Rightarrow> byte list \<Rightarrow> (path_part option \<times> byte list \<times> heap) option" where
  "pathparser_parse_path_part heap path = do {
     (path_part_str, path1, heap1) \<leftarrow> pathparser_get_path_part heap path;
     case path_part_str of
       None \<Rightarrow> Some (None, path1, heap1)
     | Some (addr, str) \<Rightarrow> do {
         (part, heap2) \<leftarrow> kzalloc heap1 8;
         if part = 0 then None
         else Some (Some \<lparr>pp_addr = part, pp_str_addr = addr, pp_part = str\<rparr>, path1, heap2)
       }
   }"

fun free_parts :: "heap \<Rightarrow> path_part list \<Rightarrow> heap option" where
  "free_parts heap [] = Some heap"
| "free_parts heap (part # next_part) = do {
     heap1 \<leftarrow> kfree heap (pp_str_addr part);
     heap2 \<leftarrow> kfree heap1 (pp_addr part);
     free_parts heap2 next_part
   }"

definition pathparser_free :: "heap \<Rightarrow> path_root \<Rightarrow> heap option" where
  "pathparser_free heap root = do {
     heap1 \<leftarrow> free_parts heap (pr_first root);
     kfree heap1 (pr_addr root)
   }"

subsection \<open>The parse loop\<close>

lemma part_loop_suffix:
  "part_loop path buf i = Some (buf', path', j) \<Longrightarrow>
     i \<le> j \<and> path' \<noteq> [] \<and> length path = length path' + (j - i)"
proof (induction path buf i rule: part_loop.induct)
  case (2 c path buf i)
  show ?case
  proof (cases "c \<noteq> chr_slash \<and> c \<noteq> 0")
    case True
    with 2 have "Suc i \<le> j \<and> path' \<noteq> [] \<and> length path = length path' + (j - Suc i)"
      by (auto split: if_splits)
    then show ?thesis by auto
  next
    case False
    with "2.prems" show ?thesis by (auto split: if_splits)
  qed
qed simp

lemma parse_path_part_consumes:
  assumes "pathparser_parse_path_part heap path = Some (Some part, path', heap')"
  shows "length path' < length path"
proof -
  from assms obtain str heap1 where "pathparser_get_path_part heap path = Some (Some str, path', heap1)"
    by (auto simp: pathparser_parse_path_part_def run_iff split: option.splits prod.splits if_splits)
  then obtain buf path1 i where "part_loop path (replicate PEACHOS_MAX_PATH 0) 0 = Some (buf, path1, i)"
    and "0 < i" and "path' = path1 \<or> path' = tl path1"
    by (auto simp: pathparser_get_path_part_def Let_def run_iff split: prod.splits if_splits)
  with part_loop_suffix [of path "replicate PEACHOS_MAX_PATH 0" 0 buf path1 i] show ?thesis
    by (cases path1) auto
qed

text \<open>
  The loop of \<^verbatim>\<open>pathparser_parse\<close> that appends parts until one is null. Every part it appends
  has consumed at least one character of the path, so it ends.
\<close>

function parse_parts :: "heap \<Rightarrow> byte list \<Rightarrow> (path_part list \<times> heap) option" where
  "parse_parts heap path =
     (case pathparser_parse_path_part heap path of
        None \<Rightarrow> None
      | Some (None, path', heap') \<Rightarrow> Some ([], heap')
      | Some (Some part, path', heap') \<Rightarrow>
          (case parse_parts heap' path' of
             None \<Rightarrow> None
           | Some (parts, heap'') \<Rightarrow> Some (part # parts, heap'')))"
  by pat_completeness auto
termination
  by (relation "measure (\<lambda>(heap, path). length path)") (auto dest: parse_path_part_consumes)

declare parse_parts.simps [simp del]

text \<open>
  The result is \<open>None\<close> inside for a null pointer. A null first part leaves a root without
  parts, as the code does.
\<close>

definition pathparser_parse :: "heap \<Rightarrow> byte list \<Rightarrow> (path_root option \<times> heap) option" where
  "pathparser_parse heap path = do {
     len \<leftarrow> strlen path;
     if len > PEACHOS_MAX_PATH then Some (None, heap)
     else do {
       (res, tmp_path) \<leftarrow> pathparser_get_drive_by_path path;
       if res < 0 then Some (None, heap)
       else do {
         (root, heap1) \<leftarrow> pathparser_create_root heap res;
         (first_part, tmp_path1, heap2) \<leftarrow> pathparser_parse_path_part heap1 tmp_path;
         case first_part of
           None \<Rightarrow> Some (Some root, heap2)
         | Some first \<Rightarrow> do {
             (parts, heap3) \<leftarrow> parse_parts heap2 tmp_path1;
             Some (Some (root\<lparr>pr_first := first # parts\<rparr>), heap3)
           }
       }
     }
   }"

section \<open>What a path denotes\<close>

text \<open>
  The parts of the text after the drive: the components between slashes up to the first
  empty one.
\<close>

function path_components :: "byte list \<Rightarrow> byte list list" where
  "path_components xs =
     (let c = takeWhile (\<lambda>b. b \<noteq> chr_slash) xs
      in if c = [] then [] else c # path_components (drop (Suc (length c)) xs))"
  by pat_completeness auto
termination
proof (relation "measure length")
  fix xs :: "byte list" and c
  assume "c = takeWhile (\<lambda>b. b \<noteq> chr_slash) xs" and "c \<noteq> []"
  then show "(drop (Suc (length c)) xs, xs) \<in> measure length" by (cases xs) auto
qed simp

declare path_components.simps [simp del]

lemma path_components_length: "length (path_components xs) \<le> length xs"
proof (induction xs rule: path_components.induct)
  case (1 xs)
  let ?c = "takeWhile (\<lambda>b. b \<noteq> chr_slash) xs"
  show ?case
  proof (cases "?c = []")
    case True
    then show ?thesis by (subst path_components.simps) simp
  next
    case False
    have "length ?c \<le> length xs" by (rule length_takeWhile_le)
    with False "1" [OF refl False] have "Suc (length (path_components (drop (Suc (length ?c)) xs))) \<le> length xs"
      by (cases xs) (auto split: if_splits)
    with False show ?thesis by (subst path_components.simps) (simp add: Let_def)
  qed
qed

lemma part_loop_eq:
  assumes "chr_slash \<notin> set c" and "0 \<notin> set c" and "t = chr_slash \<or> t = 0" and "i + length c \<le> length buf"
  shows "part_loop (c @ t # r) buf i = Some (take i buf @ c @ drop (i + length c) buf, t # r, i + length c)"
  using assms
proof (induction c arbitrary: buf i)
  case (Cons b c)
  have "part_loop (c @ t # r) (buf[i := b]) (Suc i) =
     Some (take (Suc i) (buf[i := b]) @ c @ drop (Suc i + length c) (buf[i := b]), t # r, Suc i + length c)"
    by (rule Cons.IH) (use Cons.prems in auto)
  moreover have "take (Suc i) (buf[i := b]) = take i buf @ [b]"
    using Cons.prems(4) by (simp add: take_Suc_conv_app_nth)
  ultimately show ?case using Cons.prems by auto
qed (auto simp del: part_loop.simps simp: part_loop.simps(2))

text \<open>The text at a path pointer, split at its first slash.\<close>

lemma cstr_of_split:
  assumes "cstr_of path xs"
  obtains t r where "path = takeWhile (\<lambda>b. b \<noteq> chr_slash) xs @ t # r" and "t = chr_slash \<or> t = 0"
    and "cstr_of (if t = chr_slash then r else t # r)
           (drop (Suc (length (takeWhile (\<lambda>b. b \<noteq> chr_slash) xs))) xs)"
proof -
  let ?c = "takeWhile (\<lambda>b. b \<noteq> chr_slash) xs" and ?d = "dropWhile (\<lambda>b. b \<noteq> chr_slash) xs"
  from assms obtain q where q: "path = xs @ 0 # q" "0 \<notin> set xs" by (auto simp: cstr_of_def)
  have xs: "xs = ?c @ ?d" by simp
  have drop: "drop (Suc (length ?c)) xs = tl ?d"
    by (metis append_eq_conv_conj drop_Suc tl_drop xs)
  show thesis
  proof (cases ?d)
    case Nil
    then have "path = ?c @ 0 # q" using q xs by (metis append.right_neutral)
    moreover have "cstr_of (0 # q) (drop (Suc (length ?c)) xs)" using drop Nil by simp
    ultimately show thesis using that by simp
  next
    case (Cons s r)
    then have s: "s = chr_slash" using hd_dropWhile [of "\<lambda>b. b \<noteq> chr_slash" xs] by force
    have "path = ?c @ s # (r @ 0 # q)" using q xs Cons by (metis append.assoc append_Cons)
    moreover have "0 \<notin> set r" using q(2) xs Cons by (metis UnCI list.set_intros(2) set_append)
    then have "cstr_of (r @ 0 # q) (drop (Suc (length ?c)) xs)" using drop Cons by (auto intro: cstr_ofI)
    ultimately show thesis using that s by simp
  qed
qed

section \<open>Correctness of the parser\<close>

lemma small_sizes [simp]: "small_size 8" "small_size 108"
  by (simp_all add: small_size_def)

definition part_addrs :: "path_part list \<Rightarrow> u32 list" where
  "part_addrs parts = concat (map (\<lambda>p. [pp_str_addr p, pp_addr p]) parts)"

lemma get_path_part_some:
  assumes "cstr_of path xs" and "c = takeWhile (\<lambda>b. b \<noteq> chr_slash) xs" and "c \<noteq> []"
    and "length c < PEACHOS_MAX_PATH" and "heap_slack heap (Suc k)"
  shows "\<exists>a buf path' heap'. pathparser_get_path_part heap path = Some (Some (a, buf), path', heap')
     \<and> cstr_of buf c \<and> cstr_of path' (drop (Suc (length c)) xs)
     \<and> heap_slack heap' k \<and> grown heap_live heap [a] heap'"
proof -
  obtain a heap' where z: "kzalloc heap 108 = Some (a, heap')" "a \<noteq> 0" "heap_slack heap' k"
    "grown heap_live heap [a] heap'"
    by (rule ko.zalloc_grown [OF assms(5) small_sizes(2)])
  obtain t r where tr: "path = c @ t # r" "t = chr_slash \<or> t = 0"
    "cstr_of (if t = chr_slash then r else t # r) (drop (Suc (length c)) xs)"
    using cstr_of_split [OF assms(1)] unfolding assms(2) [symmetric] by blast
  have "0 \<notin> set xs" using assms(1) by (simp add: cstr_of_def)
  then have c: "chr_slash \<notin> set c" "0 \<notin> set c"
    unfolding assms(2) by (auto dest: set_takeWhileD)
  let ?buf = "c @ drop (length c) (replicate PEACHOS_MAX_PATH 0)"
  have loop: "part_loop path (replicate PEACHOS_MAX_PATH 0) 0 = Some (?buf, t # r, length c)"
    using part_loop_eq [OF c tr(2), of 0 "replicate PEACHOS_MAX_PATH 0" r] assms(4) tr(1) by simp
  have "\<exists>m. drop (length c) (replicate PEACHOS_MAX_PATH (0::byte)) = 0 # replicate m 0"
    using assms(4) by (intro exI [of _ "PEACHOS_MAX_PATH - length c - 1"])
      (simp add: replicate_Suc [symmetric] Suc_diff_Suc del: replicate_Suc)
  with c(2) have "cstr_of ?buf c" by (auto intro: cstr_ofI)
  then show ?thesis
    using z tr(3) assms(3) loop by (auto simp: pathparser_get_path_part_def Let_def)
qed

lemma get_path_part_none:
  assumes "cstr_of path xs" and "takeWhile (\<lambda>b. b \<noteq> chr_slash) xs = []" and "heap_slack heap (Suc k)"
  shows "\<exists>path' heap'. pathparser_get_path_part heap path = Some (None, path', heap')
     \<and> heap_slack heap' (Suc k) \<and> grown heap_live heap [] heap'"
proof -
  obtain a heap' where z: "kzalloc heap 108 = Some (a, heap')" "a \<noteq> 0" "heap_slack heap' k"
    "grown heap_live heap [a] heap'"
    by (rule ko.zalloc_grown [OF assms(3) small_sizes(2)])
  obtain t r where tr: "path = t # r" "t = chr_slash \<or> t = 0"
    using cstr_of_split [OF assms(1)] unfolding assms(2) append_Nil by metis
  have "part_loop path (replicate PEACHOS_MAX_PATH 0) 0 = Some (replicate PEACHOS_MAX_PATH 0, path, 0)"
    using tr by auto
  moreover obtain heap'' where "kfree heap' a = Some heap''" "heap_slack heap'' (k + 1)"
    "heap_live heap'' = heap_live heap"
    using ko.grown_release_all [OF z(3,4), of "[a]"] by (auto split: bind_splits)
  ultimately show ?thesis
    using z by (auto simp: pathparser_get_path_part_def Let_def grown_def)
qed

lemma parse_path_part_some:
  assumes "cstr_of path xs" and "c = takeWhile (\<lambda>b. b \<noteq> chr_slash) xs" and "c \<noteq> []"
    and "length c < PEACHOS_MAX_PATH" and "heap_slack heap (Suc (Suc k))"
  shows "\<exists>part path' heap'. pathparser_parse_path_part heap path = Some (Some part, path', heap')
     \<and> cstr_of (pp_part part) c \<and> cstr_of path' (drop (Suc (length c)) xs)
     \<and> heap_slack heap' k \<and> grown heap_live heap (part_addrs [part]) heap'"
proof -
  from get_path_part_some [OF assms] obtain a buf path' heap1 where
    get: "pathparser_get_path_part heap path = Some (Some (a, buf), path', heap1)" "cstr_of buf c"
    "cstr_of path' (drop (Suc (length c)) xs)" "heap_slack heap1 (Suc k)" "grown heap_live heap [a] heap1"
    by blast
  obtain b heap2 where z: "kzalloc heap1 8 = Some (b, heap2)" "b \<noteq> 0" "heap_slack heap2 k"
    "grown heap_live heap1 [b] heap2"
    by (rule ko.zalloc_grown [OF get(4) small_sizes(1)])
  from grown_trans [OF get(5) z(4)] get z show ?thesis
    by (simp add: pathparser_parse_path_part_def part_addrs_def)
qed

lemma parse_path_part_none:
  assumes "cstr_of path xs" and "takeWhile (\<lambda>b. b \<noteq> chr_slash) xs = []" and "heap_slack heap (Suc k)"
  shows "\<exists>path' heap'. pathparser_parse_path_part heap path = Some (None, path', heap')
     \<and> heap_slack heap' (Suc k) \<and> grown heap_live heap [] heap'"
  using get_path_part_none [OF assms] by (auto simp: pathparser_parse_path_part_def)

lemma length_drop_cstr: "cstr_of path xs \<Longrightarrow> length (takeWhile P xs) \<le> length xs"
  by (rule length_takeWhile_le)

lemma parse_parts_correct:
  assumes "cstr_of path xs" and "length xs < PEACHOS_MAX_PATH"
    and "heap_slack heap (2 * length (path_components xs) + Suc k)"
  shows "\<exists>parts heap'. parse_parts heap path = Some (parts, heap')
     \<and> list_all2 (\<lambda>p c. cstr_of (pp_part p) c) parts (path_components xs)
     \<and> heap_slack heap' (Suc k) \<and> grown heap_live heap (part_addrs parts) heap'"
  using assms
proof (induction xs arbitrary: path heap rule: path_components.induct)
  case (1 xs)
  define c where "c = takeWhile (\<lambda>b. b \<noteq> chr_slash) xs"
  have comps: "path_components xs =
      (if c = [] then [] else c # path_components (drop (Suc (length c)) xs))"
    by (subst path_components.simps) (simp add: Let_def c_def)
  show ?case
  proof (cases "c = []")
    case True
    with parse_path_part_none [OF "1.prems"(1) _ , of heap k] "1.prems"(3) comps show ?thesis
      by (subst parse_parts.simps) (auto simp: c_def part_addrs_def)
  next
    case False
    have "length c \<le> length xs" unfolding c_def by (rule length_takeWhile_le)
    with "1.prems"(2) have len: "length c < PEACHOS_MAX_PATH" by linarith
    let ?k = "2 * length (path_components (drop (Suc (length c)) xs)) + Suc k"
    have slack: "heap_slack heap (Suc (Suc ?k))" using "1.prems"(3) False comps by simp
    from parse_path_part_some [OF "1.prems"(1) c_def False len slack] obtain part path' heap1 where
      part: "pathparser_parse_path_part heap path = Some (Some part, path', heap1)"
      "cstr_of (pp_part part) c" "cstr_of path' (drop (Suc (length c)) xs)" "heap_slack heap1 ?k"
      "grown heap_live heap (part_addrs [part]) heap1"
      by blast
    have "length (drop (Suc (length c)) xs) < PEACHOS_MAX_PATH" using "1.prems"(2) by simp
    from "1.IH" [OF c_def False part(3) this part(4)] obtain parts heap' where
      rest: "parse_parts heap1 path' = Some (parts, heap')"
      "list_all2 (\<lambda>p c. cstr_of (pp_part p) c) parts (path_components (drop (Suc (length c)) xs))"
      "heap_slack heap' (Suc k)" "grown heap_live heap1 (part_addrs parts) heap'"
      by blast
    have "grown heap_live heap (part_addrs (part # parts)) heap'"
      using grown_trans [OF part(5) rest(4)] by (simp add: part_addrs_def)
    with part rest False comps show ?thesis
      by (subst parse_parts.simps) simp
  qed
qed

lemma free_parts_release_all: "free_parts heap parts = release_all kfree heap (part_addrs parts)"
  by (induction parts arbitrary: heap) (simp_all add: part_addrs_def)

text \<open>The first part and the loop together are the loop from the start.\<close>

lemma parse_after_root:
  assumes "pr_first root = []"
  shows "do {
      (first_part, path1, heap2) \<leftarrow> pathparser_parse_path_part heap1 path;
      case first_part of
        None \<Rightarrow> Some (Some root, heap2)
      | Some first \<Rightarrow> do {
          (parts, heap3) \<leftarrow> parse_parts heap2 path1;
          Some (Some (root\<lparr>pr_first := first # parts\<rparr>), heap3)
        }
    } = do { (parts, heap2) \<leftarrow> parse_parts heap1 path; Some (Some (root\<lparr>pr_first := parts\<rparr>), heap2) }"
proof -
  have "root\<lparr>pr_first := []\<rparr> = root" using assms by (cases root) simp
  then show ?thesis
    by (subst (2) parse_parts.simps) (auto split: option.splits bind_splits)
qed

lemma get_drive_valid:
  assumes "cstr_of path (dig # chr_colon # chr_slash # xs)" and "isdigit dig"
  shows "pathparser_get_drive_by_path path = Some (tonumericdigit dig, drop 3 path)"
    and "cstr_of (drop 3 path) xs"
proof -
  from assms(1) obtain r where r: "path = dig # chr_colon # chr_slash # xs @ 0 # r" "0 \<notin> set xs"
    by (auto simp: cstr_of_def)
  have "strnlen path PEACHOS_MAX_PATH = Some (min (length xs + 3) PEACHOS_MAX_PATH)"
    using strnlen_cstr [OF assms(1)] by simp
  then show "pathparser_get_drive_by_path path = Some (tonumericdigit dig, drop 3 path)"
    using r assms(2)
    by (simp add: pathparser_get_drive_by_path_def pathparser_path_valid_format_def numeral_2_eq_2)
  show "cstr_of (drop 3 path) xs" using r by (auto simp: numeral_3_eq_3)
qed

section \<open>Runs\<close>

text \<open>The objects of a parsed path.\<close>

definition root_addrs :: "path_root \<Rightarrow> u32 list" where
  "root_addrs root = pr_addr root # part_addrs (pr_first root)"

lemma pathparser_parse_run:
  assumes path: "cstr_of path (dig # chr_colon # chr_slash # xs)" and dig: "isdigit dig"
    and len: "length xs + 3 \<le> PEACHOS_MAX_PATH"
    and slack: "heap_slack heap (2 * length (path_components xs) + 2 + k)"
  shows "\<exists>root heap'. pathparser_parse heap path = Some (Some root, heap')
     \<and> pr_drive_no root = tonumericdigit dig
     \<and> list_all2 (\<lambda>p c. cstr_of (pp_part p) c) (pr_first root) (path_components xs)
     \<and> heap_slack heap' (Suc k) \<and> grown heap_live heap (root_addrs root) heap'"
proof -
  let ?k = "2 * length (path_components xs) + Suc k"
  note drive = get_drive_valid [OF path dig]
  have "strlen path = Some (length xs + 3)" using strlen_cstr [OF path] by simp
  moreover have "0 \<le> tonumericdigit dig" using dig by (simp add: isdigit_def tonumericdigit_def)
  moreover obtain a heap1 where z: "kzalloc heap 8 = Some (a, heap1)" "a \<noteq> 0" "heap_slack heap1 ?k"
    "grown heap_live heap [a] heap1"
    by (rule ko.zalloc_grown [of heap ?k 8]) (use slack in simp_all)
  moreover define root where "root = \<lparr>pr_addr = a, pr_drive_no = tonumericdigit dig, pr_first = []\<rparr>"
  moreover obtain parts heap' where parts: "parse_parts heap1 (drop 3 path) = Some (parts, heap')"
    "list_all2 (\<lambda>p c. cstr_of (pp_part p) c) parts (path_components xs)"
    "heap_slack heap' (Suc k)" "grown heap_live heap1 (part_addrs parts) heap'"
    using parse_parts_correct [OF drive(2) _ z(3)] len by auto
  ultimately have parse: "pathparser_parse heap path = Some (Some (root\<lparr>pr_first := parts\<rparr>), heap')"
    using len
    by (simp add: pathparser_parse_def drive(1) pathparser_create_root_def parse_after_root)
  have "grown heap_live heap (a # part_addrs parts) heap'"
    using grown_trans [OF z(4) parts(4)] by simp
  with parse parts(2,3) show ?thesis
    by (intro exI [of _ "root\<lparr>pr_first := parts\<rparr>"] exI [of _ heap']) (simp add: root_def root_addrs_def)
qed

lemma pathparser_free_run:
  assumes "heap_slack heap' k" and "grown heap_live heap (root_addrs root) heap'"
  shows "\<exists>heap''. pathparser_free heap' root = Some heap'' \<and> heap_live heap'' = heap_live heap
     \<and> heap_slack heap'' (k + length (root_addrs root))"
proof -
  let ?as = "part_addrs (pr_first root) @ [pr_addr root]"
  have "set ?as = set (root_addrs root)" "distinct ?as" and len: "length ?as = length (root_addrs root)"
    using assms(2) by (auto simp: root_addrs_def grown_def)
  from ko.grown_release_all [OF assms this(1,2)] obtain heap'' where
    "release_all kfree heap' ?as = Some heap''" "heap_live heap'' = heap_live heap"
    "heap_slack heap'' (k + length (root_addrs root))" unfolding len by blast
  moreover from this(1) have "pathparser_free heap' root = Some heap''"
    by (simp add: pathparser_free_def free_parts_release_all release_all_append split: bind_splits)
  ultimately show ?thesis by blast
qed

section \<open>Properties\<close>

text \<open>
  C21: on a path \<^verbatim>\<open>d:/...\<close> of at most 108 characters, with enough free blocks,
  \<^verbatim>\<open>pathparser_parse\<close> ends and returns a root with the drive number and with one part per
  component, in order; and \<^verbatim>\<open>pathparser_free\<close> of that root releases exactly what the parse
  allocated.
\<close>

theorem pathparser_parse_correct:
  assumes path: "cstr_of path (dig # chr_colon # chr_slash # xs)" and dig: "isdigit dig"
    and len: "length xs + 3 \<le> PEACHOS_MAX_PATH"
    and slack: "heap_slack heap (2 * length (path_components xs) + 2)"
  shows "\<exists>root heap' heap''. pathparser_parse heap path = Some (Some root, heap')
     \<and> pr_drive_no root = tonumericdigit dig
     \<and> list_all2 (\<lambda>p c. cstr_of (pp_part p) c) (pr_first root) (path_components xs)
     \<and> pathparser_free heap' root = Some heap'' \<and> heap_live heap'' = heap_live heap"
proof -
  have "heap_slack heap (2 * length (path_components xs) + 2 + 0)" using slack by simp
  from pathparser_parse_run [OF path dig len this] obtain root heap' where
    r: "pathparser_parse heap path = Some (Some root, heap')" "pr_drive_no root = tonumericdigit dig"
    "list_all2 (\<lambda>p c. cstr_of (pp_part p) c) (pr_first root) (path_components xs)"
    "heap_slack heap' (Suc 0)" "grown heap_live heap (root_addrs root) heap'" by blast
  with pathparser_free_run [OF r(4,5)] show ?thesis by blast
qed

text \<open>The path \<^verbatim>\<open>0:/a/b\<close> in a heap of six free blocks.\<close>

theorem pathparser_parse_correct_witness:
  "\<exists>root heap'. pathparser_parse (demo_heap (replicate 6 0)) [0x30, 0x3A, 0x2F, 0x61, 0x2F, 0x62, 0] = Some (Some root, heap')
     \<and> pr_drive_no root = 0 \<and> length (pr_first root) = 2"
proof -
  have comps: "path_components [0x61, 0x2F, 0x62] = [[0x61], [0x62]]"
    by (simp add: path_components.simps)
  have "heap_slack (demo_heap (replicate 6 0)) (2 * length (path_components [0x61, 0x2F, 0x62]) + 2)"
    unfolding comps using demo_heap_slack [of 6] by simp
  from pathparser_parse_correct [OF _ _ _ this, of "[0x30, 0x3A, 0x2F, 0x61, 0x2F, 0x62, 0]" "0x30"]
  show ?thesis
    by (auto simp: comps cstr_of_def isdigit_def tonumericdigit_def dest: list_all2_lengthD)
qed

end
