(* ===== verification/Fat16_Layout.thy ===== *)
theory Fat16_Layout
  imports Cstring Disk Bytes
begin

text \<open>
  The on-disk and in-memory structures of \<^verbatim>\<open>src/src/fs/fat/fat16.c\<close>, their byte layout, and
  the two conversions between 8.3 directory names and path components:
  \<^verbatim>\<open>fat16_name_to_83\<close> and \<^verbatim>\<open>fat16_get_full_relative_filename\<close>.

  The packed structures are read from and written to the drive as bytes; \<open>decode_item\<close>,
  \<open>encode_item\<close> and \<open>decode_fat_h\<close> are the layout the compiler gives them (little endian,
  no padding).
\<close>

section \<open>Structures\<close>

record fat_header_extended =
  fe_drive_number :: byte
  fe_win_nt_bit :: byte
  fe_signature :: byte
  fe_volume_id :: u32
  fe_volume_id_string :: "byte list"
  fe_system_id_string :: "byte list"

record fat_header =
  fh_short_jmp_ins :: "byte list"
  fh_oem_identifier :: "byte list"
  fh_bytes_per_sector :: u16
  fh_sectors_per_cluster :: byte
  fh_reserved_sectors :: u16
  fh_fat_copies :: byte
  fh_root_dir_entries :: u16
  fh_number_of_sectors :: u16
  fh_media_type :: byte
  fh_sectors_per_fat :: u16
  fh_sectors_per_track :: u16
  fh_number_of_heads :: u16
  fh_hidden_setors :: u32
  fh_sectors_big :: u32

record fat_h =
  fat_primary_header :: fat_header
  fat_extended_header :: fat_header_extended

record fat_directory_item =
  di_filename :: "byte list"
  di_ext :: "byte list"
  di_attribute :: byte
  di_reserved :: byte
  di_creation_time_tenths_of_a_sec :: byte
  di_creation_time :: u16
  di_creation_date :: u16
  di_last_access :: u16
  di_high_16_bits_first_cluster :: u16
  di_last_mod_time :: u16
  di_last_mod_date :: u16
  di_low_16_bits_first_cluster :: u16
  di_filesize :: u32

text \<open>
  \<open>fd_addr\<close> and \<open>fd_item_addr\<close> are where the directory and its items live in the kernel
  heap (the root directory itself is a member of \<^verbatim>\<open>struct fat_private\<close>).
\<close>

record fat_directory =
  fd_addr :: u32
  fd_item_addr :: u32
  fd_item :: "fat_directory_item list"
  fd_total :: int
  fd_sector_pos :: int
  fd_ending_sector_pos :: int

abbreviation (input) FAT_ITEM_TYPE_DIRECTORY :: nat where "FAT_ITEM_TYPE_DIRECTORY \<equiv> 0"
abbreviation (input) FAT_ITEM_TYPE_FILE :: nat where "FAT_ITEM_TYPE_FILE \<equiv> 1"

text \<open>
  The union of an item and a directory pointer: a store to one member replaces the other.
\<close>

datatype fat_item_ptr =
    Item_Null
  | Item_Ptr u32 fat_directory_item
  | Directory_Ptr fat_directory

record fat_item =
  fi_addr :: u32
  fi_ptr :: fat_item_ptr
  fi_type :: nat

record fat_file_descriptor =
  ff_addr :: u32
  ff_item :: fat_item
  ff_pos :: u32
  ff_root_dir_slot :: int

record fat_private =
  fp_addr :: u32
  fp_header :: fat_h
  fp_root_directory :: fat_directory
  fp_cluster_read_stream :: "disk_stream option"
  fp_fat_read_stream :: "disk_stream option"
  fp_directory_stream :: "disk_stream option"
  fp_cluster_write_stream :: "disk_stream option"
  fp_fat_write_stream :: "disk_stream option"

section \<open>Byte layout\<close>

definition encode_item :: "fat_directory_item \<Rightarrow> byte list" where
  "encode_item it =
     di_filename it @ di_ext it
     @ [di_attribute it, di_reserved it, di_creation_time_tenths_of_a_sec it]
     @ bytes16 (di_creation_time it) @ bytes16 (di_creation_date it) @ bytes16 (di_last_access it)
     @ bytes16 (di_high_16_bits_first_cluster it) @ bytes16 (di_last_mod_time it)
     @ bytes16 (di_last_mod_date it) @ bytes16 (di_low_16_bits_first_cluster it)
     @ bytes32 (di_filesize it)"

definition decode_item :: "byte list \<Rightarrow> fat_directory_item" where
  "decode_item bs = \<lparr>
     di_filename = take 8 bs,
     di_ext = take 3 (drop 8 bs),
     di_attribute = bs ! 11,
     di_reserved = bs ! 12,
     di_creation_time_tenths_of_a_sec = bs ! 13,
     di_creation_time = le16 (drop 14 bs),
     di_creation_date = le16 (drop 16 bs),
     di_last_access = le16 (drop 18 bs),
     di_high_16_bits_first_cluster = le16 (drop 20 bs),
     di_last_mod_time = le16 (drop 22 bs),
     di_last_mod_date = le16 (drop 24 bs),
     di_low_16_bits_first_cluster = le16 (drop 26 bs),
     di_filesize = le32 (drop 28 bs)\<rparr>"

text \<open>The 36 bytes of the primary header and the 26 of the extended one.\<close>

definition decode_fat_h :: "byte list \<Rightarrow> fat_h" where
  "decode_fat_h bs = \<lparr>
     fat_primary_header = \<lparr>
       fh_short_jmp_ins = take 3 bs,
       fh_oem_identifier = take 8 (drop 3 bs),
       fh_bytes_per_sector = le16 (drop 11 bs),
       fh_sectors_per_cluster = bs ! 13,
       fh_reserved_sectors = le16 (drop 14 bs),
       fh_fat_copies = bs ! 16,
       fh_root_dir_entries = le16 (drop 17 bs),
       fh_number_of_sectors = le16 (drop 19 bs),
       fh_media_type = bs ! 21,
       fh_sectors_per_fat = le16 (drop 22 bs),
       fh_sectors_per_track = le16 (drop 24 bs),
       fh_number_of_heads = le16 (drop 26 bs),
       fh_hidden_setors = le32 (drop 28 bs),
       fh_sectors_big = le32 (drop 32 bs)\<rparr>,
     fat_extended_header = \<lparr>
       fe_drive_number = bs ! 36,
       fe_win_nt_bit = bs ! 37,
       fe_signature = bs ! 38,
       fe_volume_id = le32 (drop 39 bs),
       fe_volume_id_string = take 11 (drop 43 bs),
       fe_system_id_string = take 8 (drop 54 bs)\<rparr>\<rparr>"

text \<open>The array of items that a directory read fills.\<close>

fun decode_items :: "byte list \<Rightarrow> nat \<Rightarrow> fat_directory_item list" where
  "decode_items bs 0 = []"
| "decode_items bs (Suc n) = decode_item (take 32 bs) # decode_items (drop 32 bs) n"

section \<open>Names\<close>

text \<open>
  \<^verbatim>\<open>fat16_to_proper_string\<close>: \<open>out\<close> is the output buffer and \<open>pos\<close> the offset of \<^verbatim>\<open>*out\<close> in
  it; the result is the buffer and the advanced offset.
\<close>

fun fat16_to_proper_string :: "byte list \<Rightarrow> nat \<Rightarrow> byte list \<Rightarrow> (byte list \<times> nat) option" where
  "fat16_to_proper_string out pos [] = None"
| "fat16_to_proper_string out pos (c # input) =
     (if c \<noteq> 0x00 \<and> c \<noteq> 0x20 then
        if pos < length out then fat16_to_proper_string (out[pos := c]) (pos + 1) input else None
      else if c = 0x20 then
        if pos < length out then Some (out[pos := 0x00], pos) else None
      else Some (out, pos))"

definition fat16_get_full_relative_filename ::
    "fat_directory_item \<Rightarrow> byte list \<Rightarrow> nat \<Rightarrow> byte list option" where
  "fat16_get_full_relative_filename item out max_len = do {
     out1 \<leftarrow> memset out 0x00 max_len;
     let fname_buf = take 8 (di_filename item) @ [0x00];
     let ext_buf = take 3 (di_ext item) @ [0x00];
     (out2, out_tmp) \<leftarrow> fat16_to_proper_string out1 0 fname_buf;
     if ext_buf ! 0 \<noteq> 0x00 \<and> ext_buf ! 0 \<noteq> 0x20
     then do {
       out3 \<leftarrow> (if out_tmp < length out2 then Some (out2[out_tmp := 0x2E]) else None);
       (out4, _) \<leftarrow> fat16_to_proper_string out3 (out_tmp + 1) ext_buf;
       Some out4
     }
     else Some out2
   }"

definition upper83 :: "byte \<Rightarrow> byte" where
  "upper83 c = (if sint c \<ge> 97 \<and> sint c \<le> 122 then c - 32 else c)"

text \<open>
  One of the two loops of \<^verbatim>\<open>fat16_name_to_83\<close>: at most \<open>k\<close> characters are copied, in upper
  case; \<open>dot\<close> tells whether a dot ends the loop. The result is what was copied and the
  advanced name.
\<close>

fun name_loop :: "bool \<Rightarrow> byte list \<Rightarrow> nat \<Rightarrow> (byte list \<times> byte list) option" where
  "name_loop dot [] k = None"
| "name_loop dot (c # name) k =
     (if c \<noteq> 0 \<and> \<not> (dot \<and> c = 0x2E) \<and> 0 < k
      then map_option (\<lambda>(cs, r). (upper83 c # cs, r)) (name_loop dot name (k - 1))
      else Some ([], c # name))"

definition fat16_name_to_83 :: "byte list \<Rightarrow> (byte list \<times> byte list) option" where
  "fat16_name_to_83 name = do {
     (fname, name1) \<leftarrow> name_loop True name 8;
     let name2 = (if hd name1 = 0x2E then tl name1 else name1);
     (ext, _) \<leftarrow> name_loop False name2 3;
     Some (fname @ replicate (8 - length fname) 0x20, ext @ replicate (3 - length ext) 0x20)
   }"

section \<open>Layout round trips\<close>

definition wf_item :: "fat_directory_item \<Rightarrow> bool" where
  "wf_item it \<longleftrightarrow> length (di_filename it) = 8 \<and> length (di_ext it) = 3"

lemma length_encode_item: "wf_item it \<Longrightarrow> length (encode_item it) = 32"
  by (simp add: wf_item_def encode_item_def bytes16_def bytes32_def)

lemma decode_encode_item:
  assumes "wf_item it"
  shows "decode_item (encode_item it) = it"
proof -
  obtain a b c d e f g h where fn: "di_filename it = [a, b, c, d, e, f, g, h]"
    using assms by (auto simp: wf_item_def numeral_eq_Suc length_Suc_conv)
  obtain x y z where ex: "di_ext it = [x, y, z]"
    using assms by (auto simp: wf_item_def numeral_eq_Suc length_Suc_conv)
  show ?thesis
    by (cases it) (use fn ex in \<open>simp add: decode_item_def encode_item_def le32_singleton\<close>)
qed

lemma encode_decode_item:
  assumes "length bs = 32"
  shows "encode_item (decode_item bs) = bs"
proof -
  have "\<exists>x xs. ys = x # xs \<and> length xs = n" if "length ys = Suc n" for ys :: "byte list" and n
    using that by (cases ys) auto
  then obtain a0 a1 a2 a3 a4 a5 a6 a7 a8 a9 a10 a11 a12 a13 a14 a15 a16 a17 a18 a19 a20 a21 a22 a23 a24 a25 a26 a27
      a28 a29 a30 a31 where
    "bs = [a0, a1, a2, a3, a4, a5, a6, a7, a8, a9, a10, a11, a12, a13, a14, a15, a16, a17, a18, a19, a20, a21, a22,
       a23, a24, a25, a26, a27, a28, a29, a30, a31]"
    using assms by (auto simp: numeral_eq_Suc length_Suc_conv)
  then show ?thesis
    by (simp add: encode_item_def decode_item_def bytes16_le16 bytes32_le32)
qed

section \<open>Names\<close>

lemma sint_word_of_int_byte: "- 128 \<le> x \<Longrightarrow> x < 128 \<Longrightarrow> sint (word_of_int x :: byte) = x"
  by (simp add: sint_uint signed_take_bit_int_eq_self unsigned_of_int signed_take_bit_take_bit)

lemma sint_sub_byte:
  assumes "- 128 \<le> sint (c :: byte) - k" and "sint c - k < 128"
  shows "sint (c - word_of_int k) = sint c - k"
proof -
  have "c - word_of_int k = word_of_int (sint c - k)" by simp
  then show ?thesis using assms sint_word_of_int_byte by (simp only:)
qed

lemma tolower_upper83: "tolower (upper83 c) = tolower c"
proof (cases "sint c \<ge> 97 \<and> sint c \<le> 122")
  case True
  then have "sint (c - 32) = sint c - 32" using sint_sub_byte [of c 32] by simp
  with True show ?thesis by (simp add: upper83_def tolower_def)
qed (auto simp: upper83_def)

text \<open>Characters that a component of an 8.3 name can have here.\<close>

definition name_char :: "byte \<Rightarrow> bool" where
  "name_char c \<longleftrightarrow> c \<noteq> 0 \<and> c \<noteq> 0x20 \<and> c \<noteq> 0x2E"

lemma name_char_upper83:
  assumes "name_char c"
  shows "name_char (upper83 c)"
proof (cases "sint c \<ge> 97 \<and> sint c \<le> 122")
  case True
  then have "sint (c - 32) = sint c - 32" using sint_sub_byte [of c 32] by simp
  with True have "sint (upper83 c) \<ge> 65" by (simp add: upper83_def)
  then show ?thesis by (auto simp: name_char_def)
qed (use assms in \<open>auto simp: upper83_def\<close>)

text \<open>The name \<^verbatim>\<open>base.ext\<close>, or \<^verbatim>\<open>base\<close> alone.\<close>

definition dotted :: "byte list \<Rightarrow> byte list \<Rightarrow> byte list" where
  "dotted base ext = (if ext = [] then base else base @ 0x2E # ext)"

definition name83 :: "byte list \<Rightarrow> byte list \<Rightarrow> bool" where
  "name83 base ext \<longleftrightarrow> base \<noteq> [] \<and> length base \<le> 8 \<and> length ext \<le> 3
     \<and> list_all name_char base \<and> list_all name_char ext"

lemma name_loop_eq:
  assumes "list_all name_char cs" and "length cs \<le> k" and "t = 0 \<or> dot \<and> t = 0x2E"
  shows "name_loop dot (cs @ t # r) k = Some (map upper83 cs, t # r)"
  using assms
proof (induction cs arbitrary: k)
  case (Cons c cs)
  then show ?case by (cases k) (simp_all add: name_char_def)
qed auto

lemma name_to_83_eq:
  assumes "cstr_of p (dotted base ext)" and "name83 base ext"
  shows "fat16_name_to_83 p = Some (map upper83 base @ replicate (8 - length base) 0x20,
                                    map upper83 ext @ replicate (3 - length ext) 0x20)"
proof -
  from assms(1) obtain r where p: "p = dotted base ext @ 0 # r" by (auto simp: cstr_of_def)
  have nb: "list_all name_char base" "length base \<le> 8" "list_all name_char ext" "length ext \<le> 3"
    using assms(2) by (simp_all add: name83_def)
  show ?thesis
  proof (cases "ext = []")
    case True
    then show ?thesis
      using name_loop_eq [OF nb(1,2), of 0 True r] name_loop_eq [of "[]" 3 0 False r]
      by (simp add: fat16_name_to_83_def p dotted_def)
  next
    case False
    then show ?thesis
      using name_loop_eq [OF nb(1,2), of "0x2E" True "ext @ 0 # r"] name_loop_eq [OF nb(3,4), of 0 False r]
      by (simp add: fat16_name_to_83_def p dotted_def)
  qed
qed

text \<open>
  The name of a directory item: the characters of each field up to a space or a zero, with
  a dot between them if there is an extension.
\<close>

definition visible_char :: "byte \<Rightarrow> bool" where
  "visible_char c \<longleftrightarrow> c \<noteq> 0 \<and> c \<noteq> 0x20"

definition item_name :: "fat_directory_item \<Rightarrow> byte list" where
  "item_name it = dotted (takeWhile visible_char (take 8 (di_filename it)))
                         (takeWhile visible_char (take 3 (di_ext it)))"

lemma to_proper_string_eq:
  assumes "list_all visible_char cs" and "t = 0 \<or> t = 0x20" and "pos + length cs < length out"
    and "out ! (pos + length cs) = 0"
  shows "fat16_to_proper_string out pos (cs @ t # r) = Some (patch out pos cs, pos + length cs)"
  using assms
proof (induction cs arbitrary: out pos)
  case (Cons c cs)
  have "patch (out[pos := c]) (Suc pos) cs = patch out pos (c # cs)"
    using Cons.prems(3) by (simp add: patch_def take_Suc_conv_app_nth upd_conv_take_nth_drop add.commute)
  with Cons show ?case by (simp add: visible_char_def)
next
  case Nil
  then have "out[pos := 0] = out" by (metis append_Nil add.right_neutral list.size(3) list_update_id)
  with Nil show ?case by auto
qed

lemma field_split:
  obtains t r where "xs @ [0] = takeWhile visible_char xs @ t # r" "t = 0 \<or> t = 0x20"
proof (cases "dropWhile visible_char xs")
  case Nil
  then have "xs = takeWhile visible_char xs" by (metis append.right_neutral takeWhile_dropWhile_id)
  then show thesis using that [of 0 "[]"] by simp
next
  case (Cons y ys)
  then have "\<not> visible_char y" by (metis dropWhile_eq_Cons_conv)
  moreover have "xs = takeWhile visible_char xs @ y # ys" using Cons by (metis takeWhile_dropWhile_id)
  ultimately show thesis using that [of y "ys @ [0]"] by (auto simp: visible_char_def)
qed

lemma field_head: "takeWhile visible_char xs = [] \<longleftrightarrow> (xs @ [0]) ! 0 = 0 \<or> (xs @ [0]) ! 0 = 0x20"
  by (cases xs) (auto simp: visible_char_def)

lemma takeWhile_all: "list_all P (takeWhile P xs)"
  by (induction xs) auto

lemma full_relative_filename_eq:
  assumes "n \<le> length out" and "13 \<le> n"
  shows "\<exists>r. fat16_get_full_relative_filename it out n = Some (item_name it @ 0 # r)
     \<and> length (item_name it @ 0 # r) = length out"
proof -
  let ?b = "takeWhile visible_char (take 8 (di_filename it))" and ?e = "takeWhile visible_char (take 3 (di_ext it))"
  define out1 where "out1 = replicate n (0::byte) @ drop n out"
  have l: "length ?b \<le> 8" "length ?e \<le> 3"
    using length_takeWhile_le [of visible_char "take 8 (di_filename it)"]
      length_takeWhile_le [of visible_char "take 3 (di_ext it)"] by simp_all
  have len: "length out1 = length out" using assms(1) by (simp add: out1_def)
  have z: "out1 ! k = 0" if "k < n" for k using that by (simp add: out1_def nth_append)
  have dz: "drop k out1 = 0 # drop (Suc k) out1" if "k < n" for k
    using that z [OF that] len assms(1) by (simp add: Cons_nth_drop_Suc [symmetric])
  obtain t r where fb: "take 8 (di_filename it) @ [0] = ?b @ t # r" "t = 0 \<or> t = 0x20" by (rule field_split)
  obtain t' r' where eb: "take 3 (di_ext it) @ [0] = ?e @ t' # r'" "t' = 0 \<or> t' = 0x20" by (rule field_split)
  have first: "fat16_to_proper_string out1 0 (take 8 (di_filename it) @ [0]) = Some (patch out1 0 ?b, length ?b)"
    using to_proper_string_eq [OF takeWhile_all fb(2), of 0 "take 8 (di_filename it)" out1 r] fb(1) l(1) z len assms
    by simp
  show ?thesis
  proof (cases "?e = []")
    case True
    then have "\<not> ((take 3 (di_ext it) @ [0]) ! 0 \<noteq> 0x00 \<and> (take 3 (di_ext it) @ [0]) ! 0 \<noteq> 0x20)"
      using field_head by blast
    then have "fat16_get_full_relative_filename it out n = Some (patch out1 0 ?b)"
      using assms(1) first by (auto simp: fat16_get_full_relative_filename_def memset_eq out1_def [symmetric] Let_def)
    moreover have "patch out1 0 ?b = item_name it @ 0 # drop (Suc (length ?b)) out1"
      using dz [of "length ?b"] l(1) assms(2) True by (simp add: patch_def item_name_def dotted_def)
    ultimately show ?thesis using len l(1) assms True by (auto simp: item_name_def dotted_def)
  next
    case False
    then have cond: "(take 3 (di_ext it) @ [0]) ! 0 \<noteq> 0x00 \<and> (take 3 (di_ext it) @ [0]) ! 0 \<noteq> 0x20"
      using field_head by blast
    define out3 where "out3 = (patch out1 0 ?b)[length ?b := 0x2E]"
    have o3: "out3 = ?b @ 0x2E # drop (Suc (length ?b)) out1"
      using dz [of "length ?b"] l(1) assms(2) by (simp add: out3_def patch_def)
    have l3: "length out3 = length out" using l(1) assms len by (simp add: o3)
    have z3: "out3 ! (length ?b + 1 + length ?e) = 0"
      using l z [of "length ?b + 1 + length ?e"] assms len by (simp add: o3 nth_append)
    have snd: "fat16_to_proper_string out3 (length ?b + 1) (take 3 (di_ext it) @ [0]) =
        Some (patch out3 (length ?b + 1) ?e, length ?b + 1 + length ?e)"
      using to_proper_string_eq [OF takeWhile_all eb(2) _ z3] eb(1) l l3 assms by simp
    have "patch out3 (length ?b + 1) ?e = ?b @ 0x2E # ?e @ drop (length ?b + 1 + length ?e) out1"
      by (simp add: patch_def o3 add.commute)
    then have "patch out3 (length ?b + 1) ?e = item_name it @ 0 # drop (Suc (length ?b + 1 + length ?e)) out1"
      using dz [of "length ?b + 1 + length ?e"] l assms(2) False by (simp add: item_name_def dotted_def)
    moreover have "fat16_get_full_relative_filename it out n = Some (patch out3 (length ?b + 1) ?e)"
      using assms(1) first snd cond l(1) assms len
      by (simp add: fat16_get_full_relative_filename_def memset_eq out1_def [symmetric] out3_def [symmetric] Let_def)
    ultimately show ?thesis using len l assms False by (auto simp: item_name_def dotted_def)
  qed
qed

lemma item_name_no_zero: "0 \<notin> set (item_name it)"
  by (auto simp: item_name_def dotted_def visible_char_def dest: set_takeWhileD)

lemma item_name_length: "length (item_name it) \<le> 12"
proof -
  have "length (takeWhile visible_char (take 8 (di_filename it))) \<le> 8"
      "length (takeWhile visible_char (take 3 (di_ext it))) \<le> 3"
    using length_takeWhile_le [of visible_char "take 8 (di_filename it)"]
      length_takeWhile_le [of visible_char "take 3 (di_ext it)"] by simp_all
  then show ?thesis by (simp add: item_name_def dotted_def)
qed

lemma item_name_pad:
  assumes "name83 base ext"
    and "di_filename it = map upper83 base @ replicate (8 - length base) 0x20"
    and "di_ext it = map upper83 ext @ replicate (3 - length ext) 0x20"
  shows "item_name it = map upper83 (dotted base ext)" "map tolower (item_name it) = map tolower (dotted base ext)"
proof -
  have vis: "visible_char (upper83 c)" if "name_char c" for c
    using name_char_upper83 [OF that] by (simp add: name_char_def visible_char_def)
  have tw: "takeWhile visible_char (map upper83 cs @ replicate k 0x20) = map upper83 cs"
    if "list_all name_char cs" for cs k
    using that vis by (induction cs) (simp_all add: takeWhile_replicate visible_char_def [of "0x20"])
  from assms have "takeWhile visible_char (take 8 (di_filename it)) = map upper83 base"
      "takeWhile visible_char (take 3 (di_ext it)) = map upper83 ext"
    by (simp_all add: name83_def tw)
  then show "item_name it = map upper83 (dotted base ext)" by (simp add: item_name_def dotted_def upper83_def)
  then show "map tolower (item_name it) = map tolower (dotted base ext)" by (simp add: tolower_upper83)
qed

text \<open>A character with a small letter as its capital.\<close>

definition capital :: "byte \<Rightarrow> byte" where
  "capital c = (if 0x61 \<le> c \<and> c \<le> 0x7A then c - 0x20 else c)"

lemma sint_byte: "sint (c :: byte) = (if uint c < 128 then uint c else uint c - 256)"
proof -
  let ?x = "if uint c < 128 then uint c else uint c - 256"
  have "0 \<le> uint c" "uint c < 256" using uint_bounded [of c] by simp_all
  then have "- 128 \<le> ?x" "?x < 128" by (simp_all split: if_split, linarith+)
  then have "sint (word_of_int ?x :: byte) = ?x" by (rule sint_word_of_int_byte)
  moreover have "word_of_int ?x = c" by simp
  ultimately show ?thesis by simp
qed

lemma upper83_capital: "upper83 = capital"
proof
  fix c :: byte
  have "uint c < 256" using uint_bounded [of c] by simp
  then have "(97 \<le> sint c \<and> sint c \<le> 122) = (0x61 \<le> c \<and> c \<le> 0x7A)" by (simp add: sint_byte word_le_def)
  then show "upper83 c = capital c" by (simp add: upper83_def capital_def)
qed

text \<open>
  C27: a path component \<^verbatim>\<open>base.ext\<close> of at most 8 and 3 characters goes into a
  directory entry and back in upper case: \<^verbatim>\<open>fat16_name_to_83\<close> fills the two fields with the characters in upper case and with spaces behind them, the
  string that \<^verbatim>\<open>fat16_get_full_relative_filename\<close> builds from them is the component with its small letters as capitals, and it compares equal to the component, so that the lookups find the entry again.
\<close>

theorem name_to_83_roundtrip:
  assumes "cstr_of p (dotted base ext)" and "name83 base ext"
  shows "\<exists>fname e out. fat16_name_to_83 p = Some (fname, e)
     \<and> fname = map capital base @ replicate (8 - length base) 0x20 \<and> e = map capital ext @ replicate (3 - length ext) 0x20
     \<and> fat16_get_full_relative_filename (it\<lparr>di_filename := fname, di_ext := e\<rparr>)
         (replicate PEACHOS_MAX_PATH 0) PEACHOS_MAX_PATH = Some out
     \<and> cstr_of out (map capital (dotted base ext)) \<and> istrncmp out p PEACHOS_MAX_PATH = Some 0"
proof -
  let ?f = "map upper83 base @ replicate (8 - length base) 0x20"
  let ?e = "map upper83 ext @ replicate (3 - length ext) 0x20"
  let ?it = "it\<lparr>di_filename := ?f, di_ext := ?e\<rparr>"
  have len: "length base \<le> 8" "length ext \<le> 3" using assms(2) by (simp_all add: name83_def)
  obtain r where r: "fat16_get_full_relative_filename ?it (replicate PEACHOS_MAX_PATH 0) PEACHOS_MAX_PATH =
      Some (item_name ?it @ 0 # r)"
    using full_relative_filename_eq [of PEACHOS_MAX_PATH "replicate PEACHOS_MAX_PATH 0" ?it] by auto
  have "cstr_of (item_name ?it @ 0 # r) (item_name ?it)" using item_name_no_zero by (rule cstr_ofI)
  moreover have nm: "item_name ?it = map capital (dotted base ext)" "map tolower (item_name ?it) = map tolower (dotted base ext)"
    using item_name_pad [OF assms(2), of ?it] by (simp_all add: upper83_capital)
  moreover have "length (dotted base ext) < PEACHOS_MAX_PATH" using len by (simp add: dotted_def)
  ultimately have "cstr_of (item_name ?it @ 0 # r) (map capital (dotted base ext))" "istrncmp (item_name ?it @ 0 # r) p PEACHOS_MAX_PATH = Some 0"
    using istrncmp_zero_iff [OF _ assms(1), of "item_name ?it @ 0 # r"] item_name_length [of ?it] by simp_all
  with r name_to_83_eq [OF assms] show ?thesis by (auto simp: upper83_capital)
qed

theorem name_to_83_roundtrip_witness:
  "\<exists>fname e out. fat16_name_to_83 [0x61, 0x2E, 0x74, 0x78, 0x74, 0] = Some (fname, e)
     \<and> fat16_get_full_relative_filename
         ((decode_item (replicate 32 0))\<lparr>di_filename := fname, di_ext := e\<rparr>)
         (replicate PEACHOS_MAX_PATH 0) PEACHOS_MAX_PATH = Some out
     \<and> cstr_of out [0x41, 0x2E, 0x54, 0x58, 0x54] \<and> istrncmp out [0x61, 0x2E, 0x74, 0x78, 0x74, 0] PEACHOS_MAX_PATH = Some 0"
proof -
  have "cstr_of [0x61, 0x2E, 0x74, 0x78, 0x74, 0] (dotted [0x61] [0x74, 0x78, 0x74])"
    by (simp add: dotted_def cstr_of_def)
  moreover have "name83 [0x61] [0x74, 0x78, 0x74]" by (simp add: name83_def name_char_def)
  moreover have "map capital (dotted [0x61] [0x74, 0x78, 0x74]) = [0x41, 0x2E, 0x54, 0x58, 0x54]" by (simp add: dotted_def capital_def)
  ultimately show ?thesis using name_to_83_roundtrip [of _ "[0x61]" "[0x74, 0x78, 0x74]"] by metis
qed

end
