(* ===== verification/Fat16_Table.thy ===== *)
theory Fat16_Table
  imports Fat16_Layout
begin

text \<open>
  The file allocation table of \<^verbatim>\<open>src/src/fs/fat/fat16.c\<close>: reading and writing entries in both
  copies, the search for a free cluster, its allocation, and the release of a chain.

  The state the file system works on is \<open>kstate\<close>: the drive, the kernel heap and the global
  \<^verbatim>\<open>struct disk\<close>. Every function of \<^verbatim>\<open>fat16.c\<close> moves the streams of \<^verbatim>\<open>struct fat_private\<close>; the
  lemmas compare states up to these positions (\<open>agrees\<close>).
\<close>

section \<open>State\<close>

text \<open>
  \<^verbatim>\<open>disk->filesystem\<close> points to one of the file systems that \<^verbatim>\<open>fs_load\<close> inserted, of which
  there is one; \<^verbatim>\<open>disk->fs_private\<close> is its data.
\<close>

datatype filesystem = FAT16

record disk =
  dk_type :: nat
  dk_sector_size :: int
  dk_id :: int
  dk_filesystem :: "filesystem option"
  dk_fs_private :: "fat_private option"

record kstate =
  k_drive :: drive
  k_heap :: heap
  k_disk :: disk

definition put_private :: "kstate \<Rightarrow> fat_private \<Rightarrow> kstate" where
  "put_private s p = s\<lparr>k_disk := (k_disk s)\<lparr>dk_fs_private := Some p\<rparr>\<rparr>"

section \<open>Operations\<close>

definition fat16_sector_to_absolute :: "disk \<Rightarrow> int \<Rightarrow> int" where
  "fat16_sector_to_absolute disk sector = s32 (sector * dk_sector_size disk)"

definition fat16_get_first_cluster :: "fat_directory_item \<Rightarrow> u32" where
  "fat16_get_first_cluster item =
     push_bit 16 (ucast (di_high_16_bits_first_cluster item))
     OR ucast (di_low_16_bits_first_cluster item)"

definition fat16_cluster_to_sector :: "fat_private \<Rightarrow> int \<Rightarrow> int" where
  "fat16_cluster_to_sector private cluster =
     s32 (fd_ending_sector_pos (fp_root_directory private)
          + (cluster - 2) * uint (fh_sectors_per_cluster (fat_primary_header (fp_header private))))"

definition fat16_get_first_fat_sector :: "fat_private \<Rightarrow> int" where
  "fat16_get_first_fat_sector private =
     uint (fh_reserved_sectors (fat_primary_header (fp_header private)))"

definition fat16_get_fat_entry :: "kstate \<Rightarrow> int \<Rightarrow> (int \<times> kstate) option" where
  "fat16_get_fat_entry s cluster = do {
     private \<leftarrow> dk_fs_private (k_disk s);
     case fp_fat_read_stream private of
       None \<Rightarrow> Some (-1, s)
     | Some stream \<Rightarrow> do {
         let fat_table_position =
               u32 (fat16_get_first_fat_sector private * dk_sector_size (k_disk s));
         let (res, stream1) = diskstreamer_seek stream (s32 (fat_table_position + cluster * 2));
         if res < 0
         then Some (res, put_private s (private\<lparr>fp_fat_read_stream := Some stream1\<rparr>))
         else do {
           (res1, stream2, result) \<leftarrow> diskstreamer_read (k_drive s) stream1 2;
           let s2 = put_private s (private\<lparr>fp_fat_read_stream := Some stream2\<rparr>);
           if res1 < 0 then Some (res1, s2) else Some (uint (le16 result), s2)
         }
       }
   }"

text \<open>\<^verbatim>\<open>fat16_set_fat_entry\<close>: one write per copy of the table.\<close>

definition fat16_set_fat_entry :: "kstate \<Rightarrow> int \<Rightarrow> u16 \<Rightarrow> (int \<times> kstate) option" where
  "fat16_set_fat_entry s cluster value = do {
     private \<leftarrow> dk_fs_private (k_disk s);
     stream \<leftarrow> fp_fat_write_stream private;
     let fat_base = u32 (fat16_get_first_fat_sector private * dk_sector_size (k_disk s));
     let entry_off = u32 (fat_base + u32 (cluster * 2));
     let fat2_off = u32 (entry_off
           + u32 (uint (fh_sectors_per_fat (fat_primary_header (fp_header private)))
                  * dk_sector_size (k_disk s)));
     let (res, stream1) = diskstreamer_seek stream (s32 entry_off);
     if res < 0 then Some (res, put_private s (private\<lparr>fp_fat_write_stream := Some stream1\<rparr>))
     else do {
       (res1, stream2, d1) \<leftarrow> diskstreamer_write (k_drive s) stream1 (bytes16 value) 2;
       if res1 < 0
       then Some (res1, put_private (s\<lparr>k_drive := d1\<rparr>) (private\<lparr>fp_fat_write_stream := Some stream2\<rparr>))
       else do {
         let (res2, stream3) = diskstreamer_seek stream2 (s32 fat2_off);
         if res2 < 0
         then Some (res2, put_private (s\<lparr>k_drive := d1\<rparr>) (private\<lparr>fp_fat_write_stream := Some stream3\<rparr>))
         else do {
           (res3, stream4, d2) \<leftarrow> diskstreamer_write d1 stream3 (bytes16 value) 2;
           Some (res3, put_private (s\<lparr>k_drive := d2\<rparr>) (private\<lparr>fp_fat_write_stream := Some stream4\<rparr>))
         }
       }
     }
   }"

text \<open>The loop of \<^verbatim>\<open>fat16_find_free_cluster\<close> with \<open>k\<close> entries left, from entry \<open>i\<close>.\<close>

fun find_free_loop :: "kstate \<Rightarrow> nat \<Rightarrow> int \<Rightarrow> (int \<times> kstate) option" where
  "find_free_loop s 0 i = Some (- ENOMEM, s)"
| "find_free_loop s (Suc k) i = do {
     (entry, s1) \<leftarrow> fat16_get_fat_entry s i;
     if entry = 0 then Some (i, s1) else find_free_loop s1 k (i + 1)
   }"

definition count_of_clusters :: "fat_private \<Rightarrow> int option" where
  "count_of_clusters private =
     (let h = fat_primary_header (fp_header private);
          total_sectors = (if fh_number_of_sectors h \<noteq> 0 then uint (fh_number_of_sectors h)
                           else sint (fh_sectors_big h));
          first_data_sector = fd_ending_sector_pos (fp_root_directory private);
          data_sectors = s32 (total_sectors - first_data_sector)
      in if fh_sectors_per_cluster h = 0 then None
         else Some (data_sectors sdiv uint (fh_sectors_per_cluster h)))"

definition fat16_find_free_cluster :: "kstate \<Rightarrow> (int \<times> kstate) option" where
  "fat16_find_free_cluster s = do {
     private \<leftarrow> dk_fs_private (k_disk s);
     n \<leftarrow> count_of_clusters private;
     find_free_loop s (nat n) 2
   }"

definition fat16_alloc_cluster :: "kstate \<Rightarrow> int \<Rightarrow> (int \<times> kstate) option" where
  "fat16_alloc_cluster s prev_cluster = do {
     (cluster, s1) \<leftarrow> fat16_find_free_cluster s;
     if cluster < 0 then Some (cluster, s1)
     else do {
       (res, s2) \<leftarrow> fat16_set_fat_entry s1 cluster 0xFFFF;
       if res < 0 then Some (res, s2)
       else if prev_cluster \<ge> 2
       then do {
         (res1, s3) \<leftarrow> fat16_set_fat_entry s2 prev_cluster (word_of_int cluster);
         if res1 < 0 then Some (res1, s3) else Some (cluster, s3)
       }
       else Some (cluster, s2)
     }
   }"

text \<open>The loop of \<^verbatim>\<open>fat16_free_cluster_chain\<close>. Results of the two calls are not checked.\<close>

partial_function (option) free_chain_loop :: "kstate \<Rightarrow> int \<Rightarrow> kstate option" where
  "free_chain_loop s cluster =
     (if cluster \<ge> 2 \<and> cluster < 0xFFF8
      then do {
        (next, s1) \<leftarrow> fat16_get_fat_entry s cluster;
        (_, s2) \<leftarrow> fat16_set_fat_entry s1 cluster 0x0000;
        if next < 2 \<or> next \<ge> 0xFFF8 then Some s2 else free_chain_loop s2 next
      }
      else Some s)"

definition fat16_free_cluster_chain :: "kstate \<Rightarrow> u32 \<Rightarrow> (int \<times> kstate) option" where
  "fat16_free_cluster_chain s first_cluster = do {
     s1 \<leftarrow> free_chain_loop s (sint first_cluster);
     Some (PEACHOS_ALL_OK, s1)
   }"

section \<open>Mounted volumes\<close>

text \<open>
  The geometry of a mounted volume: reserved sectors, sectors per table, sectors per cluster,
  root entries, first sector of the root directory and of the data, and the number of data
  clusters.
\<close>

definition priv :: "kstate \<Rightarrow> fat_private" where
  "priv s = the (dk_fs_private (k_disk s))"

abbreviation hdr :: "kstate \<Rightarrow> fat_header" where
  "hdr s \<equiv> fat_primary_header (fp_header (priv s))"

definition rsv :: "kstate \<Rightarrow> nat" where "rsv s = unat (fh_reserved_sectors (hdr s))"
definition spf :: "kstate \<Rightarrow> nat" where "spf s = unat (fh_sectors_per_fat (hdr s))"
definition spc :: "kstate \<Rightarrow> nat" where "spc s = unat (fh_sectors_per_cluster (hdr s))"
definition ents :: "kstate \<Rightarrow> nat" where "ents s = unat (fh_root_dir_entries (hdr s))"
definition root_sec :: "kstate \<Rightarrow> nat" where "root_sec s = nat (fd_sector_pos (fp_root_directory (priv s)))"
definition data_sec :: "kstate \<Rightarrow> nat" where
  "data_sec s = nat (fd_ending_sector_pos (fp_root_directory (priv s)))"
definition clusters :: "kstate \<Rightarrow> nat" where "clusters s = nat (the (count_of_clusters (priv s)))"

definition stream_ok :: "disk_stream option \<Rightarrow> bool" where
  "stream_ok x \<longleftrightarrow> (case x of None \<Rightarrow> False | Some st \<Rightarrow> ds_disk st = 0)"

definition streams_ok :: "fat_private \<Rightarrow> bool" where
  "streams_ok p \<longleftrightarrow> stream_ok (fp_cluster_read_stream p) \<and> stream_ok (fp_fat_read_stream p)
     \<and> stream_ok (fp_directory_stream p) \<and> stream_ok (fp_cluster_write_stream p)
     \<and> stream_ok (fp_fat_write_stream p)"

text \<open>
  A state after a successful mount of a volume whose parts do not overlap: two copies of the
  table in front of the root directory, the root directory in front of the data, a table with
  an entry for every cluster, and no cluster number that is an end mark.
\<close>

definition geometry_ok :: "kstate \<Rightarrow> bool" where
  "geometry_ok s \<longleftrightarrow> 0 < spc s \<and> rsv s + 2 * spf s \<le> root_sec s
     \<and> 512 * root_sec s + 32 * ents s \<le> 512 * data_sec s \<and> 512 * data_sec s < 2 ^ 31
     \<and> 0 \<le> fd_sector_pos (fp_root_directory (priv s))
     \<and> 0 \<le> fd_ending_sector_pos (fp_root_directory (priv s))
     \<and> clusters s + 2 \<le> 256 * spf s \<and> clusters s + 2 \<le> 0xFFF8
     \<and> length (fd_item (fp_root_directory (priv s))) = ents s"

definition ready :: "kstate \<Rightarrow> bool" where
  "ready s \<longleftrightarrow> dk_fs_private (k_disk s) \<noteq> None \<and> dk_sector_size (k_disk s) = 512 \<and> dk_id (k_disk s) = 0
     \<and> streams_ok (priv s) \<and> geometry_ok s"

subsection \<open>States up to the stream positions\<close>

definition still :: "disk_stream option \<Rightarrow> disk_stream option" where
  "still = map_option (ds_pos_update (\<lambda>_. 0))"

definition still_private :: "fat_private \<Rightarrow> fat_private" where
  "still_private p = p\<lparr>
     fp_cluster_read_stream := still (fp_cluster_read_stream p),
     fp_fat_read_stream := still (fp_fat_read_stream p),
     fp_directory_stream := still (fp_directory_stream p),
     fp_cluster_write_stream := still (fp_cluster_write_stream p),
     fp_fat_write_stream := still (fp_fat_write_stream p)\<rparr>"

definition norm :: "kstate \<Rightarrow> kstate" where
  "norm s = s\<lparr>k_disk := (k_disk s)\<lparr>dk_fs_private := map_option still_private (dk_fs_private (k_disk s))\<rparr>\<rparr>"

text \<open>\<open>agrees s d s'\<close>: the drive of \<open>s'\<close> is \<open>d\<close>, and all else is as in \<open>s\<close> but for the positions.\<close>

definition agrees :: "kstate \<Rightarrow> drive \<Rightarrow> kstate \<Rightarrow> bool" where
  "agrees s d s' \<longleftrightarrow> norm s' = (norm s)\<lparr>k_drive := d\<rparr>"

lemma norm_simps [simp]:
  "k_drive (norm s) = k_drive s" "k_heap (norm s) = k_heap s"
  "dk_sector_size (k_disk (norm s)) = dk_sector_size (k_disk s)" "dk_id (k_disk (norm s)) = dk_id (k_disk s)"
  "dk_filesystem (k_disk (norm s)) = dk_filesystem (k_disk s)"
  "dk_fs_private (k_disk (norm s)) = map_option still_private (dk_fs_private (k_disk s))"
  "norm (s\<lparr>k_drive := d\<rparr>) = (norm s)\<lparr>k_drive := d\<rparr>"
  by (simp_all add: norm_def)

lemma still_private_simps [simp]:
  "fp_header (still_private p) = fp_header p"
  "fp_root_directory (still_private p) = fp_root_directory p"
  "fp_addr (still_private p) = fp_addr p"
  by (simp_all add: still_private_def)

lemma agrees_refl [simp]: "agrees s (k_drive s) s"
  by (simp add: agrees_def norm_def)

lemma agrees_trans: "agrees s d s1 \<Longrightarrow> agrees s1 d' s2 \<Longrightarrow> agrees s d' s2"
  by (simp add: agrees_def)

lemma agrees_drive: "agrees s d s' \<Longrightarrow> k_drive s' = d"
  unfolding agrees_def by (drule arg_cong [of _ _ k_drive]) simp

lemma stream_ok_still: "stream_ok (still x) = stream_ok x"
  by (cases x) (simp_all add: stream_ok_def still_def)

lemma agrees_keeps:
  assumes "agrees s d s'"
  shows "k_heap s' = k_heap s" "dk_sector_size (k_disk s') = dk_sector_size (k_disk s)"
    "dk_id (k_disk s') = dk_id (k_disk s)" "dk_filesystem (k_disk s') = dk_filesystem (k_disk s)"
    "map_option still_private (dk_fs_private (k_disk s')) = map_option still_private (dk_fs_private (k_disk s))"
proof -
  have *: "norm s' = (norm s)\<lparr>k_drive := d\<rparr>" using assms by (simp add: agrees_def)
  show "k_heap s' = k_heap s" using arg_cong [OF *, of k_heap] by simp
  show "dk_sector_size (k_disk s') = dk_sector_size (k_disk s)"
    using arg_cong [OF *, of "\<lambda>x. dk_sector_size (k_disk x)"] by simp
  show "dk_id (k_disk s') = dk_id (k_disk s)" using arg_cong [OF *, of "\<lambda>x. dk_id (k_disk x)"] by simp
  show "dk_filesystem (k_disk s') = dk_filesystem (k_disk s)"
    using arg_cong [OF *, of "\<lambda>x. dk_filesystem (k_disk x)"] by simp
  show "map_option still_private (dk_fs_private (k_disk s')) = map_option still_private (dk_fs_private (k_disk s))"
    using arg_cong [OF *, of "\<lambda>x. dk_fs_private (k_disk x)"] by simp
qed

lemma agrees_priv:
  assumes "agrees s d s'"
  shows "dk_fs_private (k_disk s') = None \<longleftrightarrow> dk_fs_private (k_disk s) = None"
    and "dk_fs_private (k_disk s) \<noteq> None \<Longrightarrow> still_private (priv s') = still_private (priv s)"
  using agrees_keeps(5) [OF assms] by (auto simp: priv_def)

lemma still_private_eqD:
  assumes "still_private p' = still_private p"
  shows "fp_header p' = fp_header p" "fp_root_directory p' = fp_root_directory p" "fp_addr p' = fp_addr p"
    "streams_ok p' = streams_ok p"
proof -
  show "fp_header p' = fp_header p" using arg_cong [OF assms, of fp_header] by simp
  show "fp_root_directory p' = fp_root_directory p" using arg_cong [OF assms, of fp_root_directory] by simp
  show "fp_addr p' = fp_addr p" using arg_cong [OF assms, of fp_addr] by simp
  have "streams_ok (still_private q) = streams_ok q" for q
    by (simp add: still_private_def streams_ok_def stream_ok_still)
  then show "streams_ok p' = streams_ok p" using assms by metis
qed

text \<open>The file system of the disk and the fields that the geometry depends on.\<close>

definition same_volume :: "kstate \<Rightarrow> kstate \<Rightarrow> bool" where
  "same_volume s s' \<longleftrightarrow> fp_header (priv s') = fp_header (priv s)
     \<and> fd_sector_pos (fp_root_directory (priv s')) = fd_sector_pos (fp_root_directory (priv s))
     \<and> fd_ending_sector_pos (fp_root_directory (priv s')) = fd_ending_sector_pos (fp_root_directory (priv s))
     \<and> dk_filesystem (k_disk s') = dk_filesystem (k_disk s)"

lemma same_volume_geometry:
  assumes "same_volume s s'"
  shows "rsv s' = rsv s" "spf s' = spf s" "spc s' = spc s" "ents s' = ents s" "root_sec s' = root_sec s"
    "data_sec s' = data_sec s" "clusters s' = clusters s"
  using assms
  by (simp_all add: same_volume_def rsv_def spf_def spc_def ents_def root_sec_def data_sec_def
      clusters_def count_of_clusters_def)

lemma same_volume_trans: "same_volume s s1 \<Longrightarrow> same_volume s1 s2 \<Longrightarrow> same_volume s s2"
  by (simp add: same_volume_def)

lemma agrees_volume:
  assumes "agrees s d s'" and "ready s"
  shows "same_volume s s'" and "ready s'"
    and "fp_root_directory (priv s') = fp_root_directory (priv s)" and "fp_addr (priv s') = fp_addr (priv s)"
proof -
  from assms(2) have s: "dk_fs_private (k_disk s) \<noteq> None" by (simp add: ready_def)
  note eq = still_private_eqD [OF agrees_priv(2) [OF assms(1) s]]
  show vol: "same_volume s s'" by (simp add: same_volume_def eq agrees_keeps(4) [OF assms(1)])
  show "ready s'"
    using assms s eq agrees_priv(1) [OF assms(1)] agrees_keeps [OF assms(1)]
    by (simp add: ready_def geometry_ok_def same_volume_geometry [OF vol])
  show "fp_root_directory (priv s') = fp_root_directory (priv s)" "fp_addr (priv s') = fp_addr (priv s)"
    by (rule eq)+
qed

lemma agrees_put:
  assumes "dk_fs_private (k_disk s) = Some p" and "still_private p' = still_private p"
  shows "agrees s d (put_private (s\<lparr>k_drive := d\<rparr>) p')"
  using assms by (cases s) (simp add: agrees_def norm_def put_private_def)

lemma agrees_put_same:
  assumes "dk_fs_private (k_disk s) = Some p" and "still_private p' = still_private p"
  shows "agrees s (k_drive s) (put_private s p')"
  using agrees_put [OF assms, of "k_drive s"] by simp

lemma still_seek: "stream_ok (Some st) \<Longrightarrow> still (Some \<lparr>ds_pos = q, ds_disk = 0\<rparr>) = still (Some st)"
  by (cases st) (simp add: still_def stream_ok_def)

section \<open>Entries\<close>

definition fat_off :: "kstate \<Rightarrow> nat \<Rightarrow> nat" where
  "fat_off s c = 512 * rsv s + 2 * c"

definition fat2_off :: "kstate \<Rightarrow> nat \<Rightarrow> nat" where
  "fat2_off s c = fat_off s c + 512 * spf s"

definition word16_at :: "drive \<Rightarrow> nat \<Rightarrow> u16" where
  "word16_at d a = le16 (bytes_at d a 2)"

definition fat_at :: "kstate \<Rightarrow> nat \<Rightarrow> nat" where
  "fat_at s c = unat (word16_at (k_drive s) (fat_off s c))"

definition fat2_at :: "kstate \<Rightarrow> nat \<Rightarrow> nat" where
  "fat2_at s c = unat (word16_at (k_drive s) (fat2_off s c))"

definition fat_store :: "kstate \<Rightarrow> nat \<Rightarrow> u16 \<Rightarrow> drive" where
  "fat_store s c v = write_bytes (write_bytes (k_drive s) (fat_off s c) (bytes16 v)) (fat2_off s c) (bytes16 v)"

lemma u16_range: "unat (w :: u16) < 65536"
  using unsigned_less [where 'a = nat, of w] by simp

lemma fat_off_bound: "c < 65536 \<Longrightarrow> fat2_off s c + 2 < 2 ^ 31" "c < 65536 \<Longrightarrow> fat_off s c + 2 < 2 ^ 31"
proof -
  have "rsv s < 65536" "spf s < 65536" unfolding rsv_def spf_def by (rule u16_range)+
  then show "c < 65536 \<Longrightarrow> fat2_off s c + 2 < 2 ^ 31" "c < 65536 \<Longrightarrow> fat_off s c + 2 < 2 ^ 31"
    by (simp_all add: fat2_off_def fat_off_def)
qed

lemma fat_off_in_sector: "fat_off s c mod 512 + 2 \<le> 512" "fat2_off s c mod 512 + 2 \<le> 512"
proof -
  have "(2 * k) mod 512 + 2 \<le> (512::nat)" for k
  proof -
    have "(2 * k) mod 512 = 2 * (k mod 256)" by (metis mult_mod_right num_double numeral_times_numeral)
    moreover have "k mod 256 < 256" by simp
    ultimately show ?thesis by linarith
  qed
  from this [of "256 * rsv s + c"] this [of "256 * rsv s + c + 256 * spf s"]
  show "fat_off s c mod 512 + 2 \<le> 512" "fat2_off s c mod 512 + 2 \<le> 512"
    by (simp_all add: fat_off_def fat2_off_def algebra_simps)
qed

lemma u32_sectors: "u32 (uint (w :: u16) * 512) = int (512 * unat w)"
proof -
  have "uint w * 512 = int (512 * unat w)" by simp
  moreover have "u32 (int (512 * unat w)) = int (512 * unat w)"
    using u16_range [of w] by (intro u32_int) simp
  ultimately show ?thesis by (simp only:)
qed

lemma read_fat_entry:
  assumes "ready s" and "c < 65536"
  shows "\<exists>s'. fat16_get_fat_entry s (int c) = Some (int (fat_at s c), s') \<and> agrees s (k_drive s) s'"
proof -
  obtain p st where p: "dk_fs_private (k_disk s) = Some p" "priv s = p"
      "fp_fat_read_stream p = Some st" "stream_ok (Some st)" "dk_sector_size (k_disk s) = 512"
    using assms(1) by (auto simp: ready_def streams_ok_def stream_ok_def priv_def split: option.splits)
  let ?q = "fat_off s c"
  have bound: "?q + 2 < 2 ^ 31" "?q < 2 ^ 37" using fat_off_bound(2) [OF assms(2), of s] by simp_all
  have pos: "s32 (u32 (fat16_get_first_fat_sector p * 512) + int c * 2) = int ?q"
  proof -
    have "u32 (fat16_get_first_fat_sector p * 512) + int c * 2 = int ?q"
      by (simp add: fat16_get_first_fat_sector_def u32_sectors fat_off_def rsv_def p(2))
    moreover have "s32 (int ?q) = int ?q" using bound(1) by (intro s32_int) simp
    ultimately show ?thesis by simp
  qed
  have seek: "diskstreamer_seek st (int ?q) = (0, \<lparr>ds_pos = int ?q, ds_disk = 0\<rparr>)"
    using p(4) by (cases st) (simp add: diskstreamer_seek_def stream_ok_def)
  note rd = read_in_sector [OF bound(2) fat_off_in_sector(1), of "k_drive s"]
  have "still_private (p\<lparr>fp_fat_read_stream := Some \<lparr>ds_pos = int (?q + 2), ds_disk = 0\<rparr>\<rparr>) = still_private p"
    using still_seek [OF p(4)] p(3) by (simp add: still_private_def)
  note put = agrees_put_same [OF p(1) this]
  have "uint (le16 (bytes_at (k_drive s) ?q 2)) = int (fat_at s c)" by (simp add: fat_at_def word16_at_def)
  then show ?thesis
    using rd put by (simp add: fat16_get_fat_entry_def p(1,3,5) pos seek del: upt_rec_numeral)
qed

lemma write_fat_entry:
  assumes "ready s" and "c < 65536"
  shows "\<exists>s'. fat16_set_fat_entry s (int c) v = Some (0, s') \<and> agrees s (fat_store s c v) s'"
proof -
  obtain p st where p: "dk_fs_private (k_disk s) = Some p" "priv s = p"
      "fp_fat_write_stream p = Some st" "stream_ok (Some st)" "dk_sector_size (k_disk s) = 512"
    using assms(1) by (auto simp: ready_def streams_ok_def stream_ok_def priv_def split: option.splits)
  let ?q = "fat_off s c" and ?r = "fat2_off s c"
  have bound: "?q + 2 < 2 ^ 31" "?r + 2 < 2 ^ 31" "?q + 2 < 2 ^ 37" "?r + 2 < 2 ^ 37"
    using fat_off_bound [OF assms(2), of s] by simp_all
  have base: "u32 (fat16_get_first_fat_sector p * 512) = int (512 * rsv s)"
    by (simp add: fat16_get_first_fat_sector_def u32_sectors rsv_def p(2))
  have size: "u32 (uint (fh_sectors_per_fat (fat_primary_header (fp_header p))) * 512) = int (512 * spf s)"
    by (simp add: u32_sectors spf_def p(2))
  have entry: "u32 (int (512 * rsv s) + u32 (int c * 2)) = int ?q"
    using bound(1) assms(2) by (simp add: u32_id fat_off_def)
  have entry2: "u32 (int ?q + int (512 * spf s)) = int ?r"
    using bound(2) by (simp add: u32_id fat2_off_def)
  have s32s: "s32 (int ?q) = int ?q" "s32 (int ?r) = int ?r"
    using bound by (simp_all add: s32_id)
  have seek: "diskstreamer_seek st (int ?q) = (0, \<lparr>ds_pos = int ?q, ds_disk = 0\<rparr>)"
    "diskstreamer_seek \<lparr>ds_pos = int (?q + 2), ds_disk = 0\<rparr> (int ?r) = (0, \<lparr>ds_pos = int ?r, ds_disk = 0\<rparr>)"
    using p(4) by (cases st; simp add: diskstreamer_seek_def stream_ok_def)+
  have wr1: "diskstreamer_write (k_drive s) \<lparr>ds_pos = int ?q, ds_disk = 0\<rparr> (bytes16 v) 2 =
      Some (0, \<lparr>ds_pos = int (?q + 2), ds_disk = 0\<rparr>, write_bytes (k_drive s) ?q (bytes16 v))"
    using write_eq [OF bound(3), of "bytes16 v" "k_drive s"] by simp
  have wr2: "diskstreamer_write (write_bytes (k_drive s) ?q (bytes16 v)) \<lparr>ds_pos = int ?r, ds_disk = 0\<rparr> (bytes16 v) 2 =
      Some (0, \<lparr>ds_pos = int (?r + 2), ds_disk = 0\<rparr>, fat_store s c v)"
    using write_eq [OF bound(4), of "bytes16 v" "write_bytes (k_drive s) ?q (bytes16 v)"]
    by (simp add: fat_store_def)
  have "still_private (p\<lparr>fp_fat_write_stream := Some \<lparr>ds_pos = int (?r + 2), ds_disk = 0\<rparr>\<rparr>) = still_private p"
    using still_seek [OF p(4)] p(3) by (simp add: still_private_def)
  note put = agrees_put [OF p(1) this, of "fat_store s c v"]
  show ?thesis
    using put
    by (simp only: fat16_set_fat_entry_def p(1,3,5) base size entry entry2 s32s seek wr1 wr2 Let_def
        Option.bind.simps prod.case) simp
qed

text \<open>
  Inside the first table an entry reads back what was stored, the other entries and the rest
  of the drive keep their values, and the second copy receives the same value.
\<close>

definition in_table :: "kstate \<Rightarrow> nat \<Rightarrow> bool" where
  "in_table s c \<longleftrightarrow> c < 256 * spf s \<and> c < 65536"

lemma agrees_offs:
  assumes "same_volume s s'"
  shows "fat_off s' c = fat_off s c" "fat2_off s' c = fat2_off s c" "in_table s' c = in_table s c"
  using same_volume_geometry [OF assms] by (simp_all add: fat_off_def fat2_off_def in_table_def)

lemma word16_at_same [simp]: "word16_at (write_bytes d a (bytes16 v)) a = v"
  using bytes_at_write_bytes [of d a "bytes16 v"] le16_bytes16 [of v "[]"]
  by (simp add: word16_at_def)

lemma word16_at_other:
  "b + 2 \<le> a \<or> a + length bs \<le> b \<Longrightarrow> word16_at (write_bytes d a bs) b = word16_at d b"
  unfolding word16_at_def by (subst bytes_at_write_bytes_disjoint) simp_all

lemma fat_at_store:
  assumes "ready s" and "agrees s (fat_store s c v) s'" and "in_table s c" and "in_table s e"
  shows "fat_at s' e = (if e = c then unat v else fat_at s e)"
    and "fat2_at s' e = (if e = c then unat v else fat2_at s e)"
proof -
  note vol = agrees_volume(1) [OF assms(2,1)] and d = agrees_drive [OF assms(2)]
  have lt: "e < 256 * spf s" "c < 256 * spf s" using assms(3,4) by (simp_all add: in_table_def)
  have disj: "fat2_off s e + 2 \<le> fat_off s c \<or> fat_off s c + 2 \<le> fat2_off s e"
     "fat_off s e + 2 \<le> fat2_off s c \<or> fat2_off s c + 2 \<le> fat_off s e"
    using lt by (simp_all add: fat_off_def fat2_off_def)
  have ne: "e \<noteq> c \<Longrightarrow> fat_off s e + 2 \<le> fat_off s c \<or> fat_off s c + 2 \<le> fat_off s e"
     "e \<noteq> c \<Longrightarrow> fat2_off s e + 2 \<le> fat2_off s c \<or> fat2_off s c + 2 \<le> fat2_off s e"
    by (auto simp: fat_off_def fat2_off_def)
  show "fat_at s' e = (if e = c then unat v else fat_at s e)"
    unfolding fat_at_def agrees_offs [OF vol] d fat_store_def
    using disj ne by (auto simp: word16_at_other)
  show "fat2_at s' e = (if e = c then unat v else fat2_at s e)"
    unfolding fat2_at_def agrees_offs [OF vol] d fat_store_def
    using disj ne by (auto simp: word16_at_other)
qed

text \<open>What lies behind the tables.\<close>

lemma fat_store_outside:
  "in_table s c \<Longrightarrow> 512 * (rsv s + 2 * spf s) \<le> a \<Longrightarrow> fat_store s c v a = k_drive s a"
  by (simp add: fat_store_def write_bytes_outside in_table_def fat_off_def fat2_off_def)

lemma fat_at_read:
  assumes "ready s" and "agrees s (k_drive s) s'"
  shows "fat_at s' e = fat_at s e" "fat2_at s' e = fat2_at s e"
  using agrees_offs [OF agrees_volume(1) [OF assms(2,1)]] agrees_drive [OF assms(2)]
  by (simp_all add: fat_at_def fat2_at_def)

text \<open>
  \<open>table_step s f s'\<close>: \<open>s'\<close> is \<open>s\<close> but for the stream positions and the table, whose entries
  are \<open>f\<close> now; the copies stay equal if they were.
\<close>

definition mirrored :: "kstate \<Rightarrow> bool" where
  "mirrored s \<longleftrightarrow> (\<forall>c. in_table s c \<longrightarrow> fat2_at s c = fat_at s c)"

definition table_step :: "kstate \<Rightarrow> (nat \<Rightarrow> nat) \<Rightarrow> kstate \<Rightarrow> bool" where
  "table_step s f s' \<longleftrightarrow> agrees s (k_drive s') s' \<and> (\<forall>e. in_table s e \<longrightarrow> fat_at s' e = f e)
     \<and> (mirrored s \<longrightarrow> mirrored s')
     \<and> (\<forall>a. 512 * (rsv s + 2 * spf s) \<le> a \<longrightarrow> k_drive s' a = k_drive s a)"

lemma table_stepD:
  assumes "table_step s f s'" and "ready s"
  shows "ready s'" "same_volume s s'" "agrees s (k_drive s') s'"
    "in_table s' e = in_table s e" "in_table s e \<Longrightarrow> fat_at s' e = f e"
    "512 * (rsv s + 2 * spf s) \<le> a \<Longrightarrow> k_drive s' a = k_drive s a"
    "fp_root_directory (priv s') = fp_root_directory (priv s)" "k_heap s' = k_heap s"
  using assms agrees_volume agrees_offs [OF agrees_volume(1)] agrees_keeps(1)
  by (auto simp: table_step_def)

lemma table_step_refl: "agrees s (k_drive s) s' \<Longrightarrow> ready s \<Longrightarrow> table_step s (fat_at s) s'"
  using agrees_offs [OF agrees_volume(1)] fat_at_read [of s s']
  by (simp add: table_step_def agrees_drive mirrored_def)

lemma table_step_store:
  assumes "ready s" and "agrees s (fat_store s c v) s'" and "in_table s c"
  shows "table_step s ((fat_at s)(c := unat v)) s'"
  using assms(2) fat_at_store [OF assms] fat_store_outside [OF assms(3)]
    agrees_offs [OF agrees_volume(1) [OF assms(2,1)]] agrees_drive [OF assms(2)]
  by (auto simp: table_step_def mirrored_def)

lemma table_step_trans:
  assumes "table_step s f s1" and "table_step s1 g s2" and "ready s"
  shows "table_step s g s2"
  using assms(1,2) table_stepD [OF assms(1,3)] agrees_trans [of s _ s1 _ s2]
    same_volume_geometry [OF table_stepD(2) [OF assms(1,3)]]
  by (simp add: table_step_def)

lemma table_step_cong:
  "table_step s f s' \<Longrightarrow> (\<And>e. in_table s e \<Longrightarrow> f e = g e) \<Longrightarrow> table_step s g s'"
  by (simp add: table_step_def)

lemma get_entry:
  assumes "ready s" and "c < 65536"
  obtains s' where "fat16_get_fat_entry s (int c) = Some (int (fat_at s c), s')" "table_step s (fat_at s) s'"
  using read_fat_entry [OF assms] table_step_refl [OF _ assms(1)] by blast

lemma set_entry:
  assumes "ready s" and "in_table s c"
  obtains s' where "fat16_set_fat_entry s (int c) v = Some (0, s')" "table_step s ((fat_at s)(c := unat v)) s'"
proof -
  have "c < 65536" using assms(2) by (simp add: in_table_def)
  with write_fat_entry [OF assms(1) this] table_step_store [OF assms(1) _ assms(2)] that
  show thesis by blast
qed

section \<open>The search and the allocation\<close>

definition free_clusters :: "kstate \<Rightarrow> nat list" where
  "free_clusters s = filter (\<lambda>c. fat_at s c = 0) [2..<2 + clusters s]"

lemma cluster_in_table: "ready s \<Longrightarrow> c < 2 + clusters s \<Longrightarrow> in_table s c"
  by (auto simp: ready_def geometry_ok_def in_table_def)

lemma find_free_loop_eq:
  assumes "ready s" and "i + k \<le> 65536"
  shows "\<exists>s'. find_free_loop s k (int i) =
            Some (case filter (\<lambda>c. fat_at s c = 0) [i..<i + k] of [] \<Rightarrow> - ENOMEM | c # _ \<Rightarrow> int c, s')
          \<and> agrees s (k_drive s) s'"
  using assms
proof (induction k arbitrary: s i)
  case 0
  then show ?case by simp
next
  case (Suc k)
  then have "i < 65536" by simp
  from read_fat_entry [OF Suc.prems(1) this] obtain s1 where
    s1: "fat16_get_fat_entry s (int i) = Some (int (fat_at s i), s1)" "agrees s (k_drive s) s1" by blast
  have split: "[i..<i + Suc k] = i # [Suc i..<Suc i + k]" "[i..<Suc (i + k)] = i # [Suc i..<Suc i + k]"
    by (simp_all add: upt_conv_Cons)
  show ?case
  proof (cases "fat_at s i = 0")
    case True
    with s1 show ?thesis by (auto simp: split simp del: upt_Suc)
  next
    case False
    have at: "fat_at s1 = fat_at s" using fat_at_read(1) [OF Suc.prems(1) s1(2)] by blast
    have "ready s1" "Suc i + k \<le> 65536" using agrees_volume(2) [OF s1(2) Suc.prems(1)] Suc.prems(2) by simp_all
    from Suc.IH [OF this] obtain s2 where
      s2: "find_free_loop s1 k (int (Suc i)) =
         Some (case filter (\<lambda>c. fat_at s c = 0) [Suc i..<Suc i + k] of [] \<Rightarrow> - ENOMEM | c # _ \<Rightarrow> int c, s2)"
      "agrees s1 (k_drive s1) s2"
      unfolding at by blast
    have "agrees s (k_drive s) s2" using agrees_trans [OF s1(2) s2(2)] agrees_drive [OF s1(2)] by simp
    with s1(1) s2(1) False show ?thesis by (simp add: split add.commute del: upt_Suc)
  qed
qed

lemma find_free_cluster_eq:
  assumes "ready s"
  obtains s' where "fat16_find_free_cluster s =
      Some (case free_clusters s of [] \<Rightarrow> - ENOMEM | c # _ \<Rightarrow> int c, s')" "table_step s (fat_at s) s'"
proof -
  obtain p where p: "dk_fs_private (k_disk s) = Some p" "priv s = p"
    using assms by (auto simp: ready_def priv_def)
  have "0 < spc s" "clusters s + 2 \<le> 0xFFF8" using assms by (simp_all add: ready_def geometry_ok_def)
  then have "count_of_clusters p \<noteq> None" "nat (the (count_of_clusters p)) = clusters s"
    by (auto simp: count_of_clusters_def clusters_def p(2) Let_def spc_def)
  moreover have "2 + clusters s \<le> 65536" using \<open>clusters s + 2 \<le> 0xFFF8\<close> by simp
  note find_free_loop_eq [OF assms this]
  ultimately show thesis
    using that table_step_refl [OF _ assms]
    by (auto simp: fat16_find_free_cluster_def p(1) free_clusters_def)
qed

text \<open>An allocation takes the first free cluster, marks it as an end and links \<open>prev\<close> to it.\<close>

lemma alloc_cluster_eq:
  assumes "ready s" and "free_clusters s = c # cs" and "prev < 2 \<or> prev = int p \<and> in_table s p"
  obtains s' where "fat16_alloc_cluster s prev = Some (int c, s')"
    "table_step s (if prev < 2 then (fat_at s)(c := 0xFFFF) else (fat_at s)(c := 0xFFFF, p := c)) s'"
proof -
  obtain s1 where s1: "fat16_find_free_cluster s = Some (int c, s1)" "table_step s (fat_at s) s1"
    using find_free_cluster_eq [OF assms(1)] assms(2) by auto
  have "c \<in> set (free_clusters s)" using assms(2) by simp
  then have c: "in_table s c" "c < 65536"
    using cluster_in_table [OF assms(1)] by (auto simp: free_clusters_def in_table_def)
  note d1 = table_stepD [OF s1(2) assms(1)]
  obtain s2 where s2: "fat16_set_fat_entry s1 (int c) 0xFFFF = Some (0, s2)"
      "table_step s1 ((fat_at s1)(c := 0xFFFF)) s2"
    using set_entry [OF d1(1), of c "0xFFFF"] c(1) d1(4) by auto
  have t2: "table_step s ((fat_at s)(c := 0xFFFF)) s2"
    using table_step_trans [OF s1(2) s2(2) assms(1)]
    by (rule table_step_cong) (simp add: d1)
  show thesis
  proof (cases "prev < 2")
    case True
    with s1 s2 t2 show thesis by (intro that) (simp_all add: fat16_alloc_cluster_def)
  next
    case False
    with assms(3) have p: "prev = int p" "in_table s p" by simp_all
    note d2 = table_stepD [OF t2 assms(1)]
    obtain s3 where s3: "fat16_set_fat_entry s2 (int p) (word_of_int (int c)) = Some (0, s3)"
        "table_step s2 ((fat_at s2)(p := unat (word_of_int (int c) :: u16))) s3"
      using set_entry [OF d2(1), of p "word_of_int (int c)"] p(2) d2(4) by auto
    have "unat (word_of_int (int c) :: u16) = c" 
      using c(2) by (simp add: unsigned_of_nat take_bit_nat_eq_self_iff)
    with table_step_trans [OF t2 s3(2) assms(1)]
    have "table_step s ((fat_at s2)(p := c)) s3" by simp
    then have "table_step s ((fat_at s)(c := 0xFFFF, p := c)) s3"
      by (rule table_step_cong) (simp add: d2)
    with False s1 s2 s3 p(1) show thesis by (intro that) (simp_all add: fat16_alloc_cluster_def)
  qed
qed

lemma alloc_cluster_full:
  assumes "ready s" and "free_clusters s = []"
  obtains s' where "fat16_alloc_cluster s prev = Some (- ENOMEM, s')" "table_step s (fat_at s) s'"
proof -
  obtain s' where "fat16_find_free_cluster s = Some (- ENOMEM, s')" "table_step s (fat_at s) s'"
    using find_free_cluster_eq [OF assms(1)] assms(2) by auto
  then show thesis by (intro that) (simp_all add: fat16_alloc_cluster_def)
qed

section \<open>Chains\<close>

text \<open>A chain of clusters: each entry names the next cluster, the last one is an end mark.\<close>

fun chain :: "(nat \<Rightarrow> nat) \<Rightarrow> nat list \<Rightarrow> bool" where
  "chain f [] \<longleftrightarrow> False"
| "chain f [c] \<longleftrightarrow> 0xFFF8 \<le> f c"
| "chain f (c # c' # cs) \<longleftrightarrow> f c = c' \<and> chain f (c' # cs)"

definition file_chain :: "kstate \<Rightarrow> nat list \<Rightarrow> bool" where
  "file_chain s cs \<longleftrightarrow> chain (fat_at s) cs \<and> set cs \<subseteq> {2..<2 + clusters s}"

lemma chain_cong: "(\<And>c. c \<in> set cs \<Longrightarrow> f c = g c) \<Longrightarrow> chain f cs = chain g cs"
  by (induction f cs rule: chain.induct) auto

lemma chain_tail: "chain f (xs @ y # ys) \<Longrightarrow> chain f (y # ys)"
proof (induction xs)
  case (Cons x xs)
  then show ?case by (cases xs) auto
qed simp

lemma chain_determined:
  "chain f (c # xs) \<Longrightarrow> chain f (c # ys) \<Longrightarrow> set (c # xs) \<subseteq> {..<0xFFF8} \<Longrightarrow> set (c # ys) \<subseteq> {..<0xFFF8}
    \<Longrightarrow> xs = ys"
proof (induction xs arbitrary: c ys)
  case Nil
  then show ?case by (cases ys) auto
next
  case (Cons x xs)
  then show ?case by (cases ys) auto
qed

lemma chain_distinct:
  assumes "chain f cs" and "set cs \<subseteq> {..<0xFFF8}"
  shows "distinct cs"
proof (rule ccontr)
  assume "\<not> distinct cs"
  then obtain xs ys zs y where cs: "cs = xs @ [y] @ ys @ [y] @ zs"
    using not_distinct_decomp by blast
  have "chain f (y # ys @ y # zs)" "chain f (y # zs)"
    using assms(1) chain_tail [of f xs y "ys @ y # zs"] chain_tail [of f "xs @ y # ys" y zs] cs by simp_all
  with chain_determined [of f y "ys @ y # zs" zs] assms(2) cs have "ys @ y # zs = zs" by auto
  then have "length (ys @ y # zs) = length zs" by simp
  then show False by simp
qed

lemma chain_nth: "chain f cs \<Longrightarrow> Suc i < length cs \<Longrightarrow> f (cs ! i) = cs ! Suc i"
proof (induction f cs arbitrary: i rule: chain.induct)
  case (3 f c c' cs)
  then show ?case by (cases i) auto
qed auto

lemma chain_last: "chain f cs \<Longrightarrow> 0xFFF8 \<le> f (last cs)"
  by (induction f cs rule: chain.induct) auto

lemma chain_append:
  "chain f cs \<Longrightarrow> d \<notin> set cs \<Longrightarrow> distinct cs \<Longrightarrow> 0xFFF8 \<le> e \<Longrightarrow> chain (f(d := e, last cs := d)) (cs @ [d])"
proof (induction f cs rule: chain.induct)
  case (3 f c c' cs)
  let ?g = "f(d := e, last (c' # cs) := d)"
  have IH: "chain ?g ((c' # cs) @ [d])" by (rule "3.IH") (use "3.prems" in simp_all)
  have "c \<noteq> last (c' # cs)" using "3.prems"(3) by (metis distinct.simps(2) last_in_set list.distinct(1))
  then have "?g c = c'" using "3.prems" by auto
  then have "chain ?g (c # (c' # cs) @ [d])" using IH by (simp only: append_Cons chain.simps)
  moreover have "last (c # c' # cs) = last (c' # cs)" by simp
  ultimately show ?case by (simp only: append_Cons)
qed simp_all

lemma chain_nonzero: "chain f cs \<Longrightarrow> set cs \<subseteq> {2..} \<Longrightarrow> c \<in> set cs \<Longrightarrow> f c \<noteq> 0"
  by (induction f cs rule: chain.induct) auto

lemma file_chain_facts:
  assumes "ready s" and "file_chain s cs"
  shows "cs \<noteq> []" "distinct cs" "c \<in> set cs \<Longrightarrow> in_table s c" "c \<in> set cs \<Longrightarrow> 2 \<le> c \<and> c < 0xFFF8"
    "c \<in> set cs \<Longrightarrow> c < 2 + clusters s" "c \<in> set cs \<Longrightarrow> fat_at s c \<noteq> 0"
proof -
  have N: "clusters s + 2 \<le> 0xFFF8" using assms(1) by (simp add: ready_def geometry_ok_def)
  show "cs \<noteq> []" using assms(2) by (auto simp: file_chain_def)
  show "distinct cs"
    using assms(2) N by (intro chain_distinct [of "fat_at s"]) (auto simp: file_chain_def)
  show "c \<in> set cs \<Longrightarrow> in_table s c"
    using assms(2) cluster_in_table [OF assms(1)] by (auto simp: file_chain_def)
  show "c \<in> set cs \<Longrightarrow> 2 \<le> c \<and> c < 0xFFF8" "c \<in> set cs \<Longrightarrow> c < 2 + clusters s"
    using assms(2) N by (auto simp: file_chain_def)
  have "set cs \<subseteq> {2..}" using assms(2) by (auto simp: file_chain_def)
  then show "c \<in> set cs \<Longrightarrow> fat_at s c \<noteq> 0"
    using assms(2) chain_nonzero [of "fat_at s" cs c] by (simp add: file_chain_def)
qed

lemma file_chain_step:
  assumes "ready s" and "table_step s f s'" and "file_chain s cs" and "\<And>c. c \<in> set cs \<Longrightarrow> f c = fat_at s c"
  shows "file_chain s' cs"
proof -
  note D = table_stepD [OF assms(2,1)]
  have "chain (fat_at s') cs = chain (fat_at s) cs"
    using assms(4) file_chain_facts(3) [OF assms(1,3)] D(5) by (intro chain_cong) auto
  with assms(3) same_volume_geometry [OF D(2)] show ?thesis by (simp add: file_chain_def)
qed

text \<open>The loop on a chain zeroes the entries of the chain and no other.\<close>

lemma free_chain_loop_eq:
  assumes "ready s" and "file_chain s (c # cs)"
  shows "\<exists>s'. free_chain_loop s (int c) = Some s'
     \<and> table_step s (\<lambda>e. if e \<in> set (c # cs) then 0 else fat_at s e) s'"
  using assms
proof (induction cs arbitrary: s c)
  case (Cons d cs)
  note F = file_chain_facts [OF Cons.prems]
  have c: "2 \<le> c" "c < 0xFFF8" "in_table s c" "2 \<le> d" "d < 0xFFF8" "c \<notin> set (d # cs)"
    using F(2-4) by auto
  have nxt: "fat_at s c = d" using Cons.prems(2) by (simp add: file_chain_def)
  obtain s1 where s1: "fat16_get_fat_entry s (int c) = Some (int d, s1)" "table_step s (fat_at s) s1"
    using get_entry [OF Cons.prems(1), of c] c nxt by auto
  note D1 = table_stepD [OF s1(2) Cons.prems(1)]
  obtain s2 where s2: "fat16_set_fat_entry s1 (int c) 0 = Some (0, s2)" "table_step s1 ((fat_at s1)(c := 0)) s2"
    using set_entry [OF D1(1), of c 0] c(3) D1(4) by auto
  have t2: "table_step s ((fat_at s)(c := 0)) s2"
    using table_step_trans [OF s1(2) s2(2) Cons.prems(1)] by (rule table_step_cong) (simp add: D1)
  have "file_chain s (d # cs)" using Cons.prems(2) by (simp add: file_chain_def)
  then have fc: "file_chain s2 (d # cs)"
    using c(6) by (intro file_chain_step [OF Cons.prems(1) t2]) auto
  from Cons.IH [OF table_stepD(1) [OF t2 Cons.prems(1)] fc] obtain s' where
    s': "free_chain_loop s2 (int d) = Some s'"
    "table_step s2 (\<lambda>e. if e \<in> set (d # cs) then 0 else fat_at s2 e) s'" by blast
  have "table_step s (\<lambda>e. if e \<in> set (c # d # cs) then 0 else fat_at s e) s'"
    using table_step_trans [OF t2 s'(2) Cons.prems(1)]
    by (rule table_step_cong) (auto simp: table_stepD(5) [OF t2 Cons.prems(1)])
  with s1 s2 s' c show ?case by (subst free_chain_loop.simps) simp
next
  case Nil
  note F = file_chain_facts [OF Nil.prems]
  have c: "2 \<le> c" "c < 0xFFF8" "in_table s c" using F(3,4) by auto
  have nxt: "0xFFF8 \<le> fat_at s c" using Nil.prems(2) by (simp add: file_chain_def)
  obtain s1 where s1: "fat16_get_fat_entry s (int c) = Some (int (fat_at s c), s1)" "table_step s (fat_at s) s1"
    using get_entry [OF Nil.prems(1), of c] c by auto
  note D1 = table_stepD [OF s1(2) Nil.prems(1)]
  obtain s2 where s2: "fat16_set_fat_entry s1 (int c) 0 = Some (0, s2)" "table_step s1 ((fat_at s1)(c := 0)) s2"
    using set_entry [OF D1(1), of c 0] c(3) D1(4) by auto
  have "table_step s (\<lambda>e. if e \<in> set [c] then 0 else fat_at s e) s2"
    using table_step_trans [OF s1(2) s2(2) Nil.prems(1)] by (rule table_step_cong) (simp add: D1)
  with s1 s2 c nxt show ?case by (subst free_chain_loop.simps) simp
qed

text \<open>
  The loop ends whatever the table holds, a cyclic chain included: every iteration that goes
  on has zeroed an entry that was not zero, and no entry ever becomes nonzero. This includes
  cluster numbers beyond the table, whose entries overlap its second copy.
\<close>

definition nonzero_entries :: "kstate \<Rightarrow> nat set" where
  "nonzero_entries s = {e. e < 65536 \<and> fat_at s e \<noteq> 0}"

lemma nonzero_entries_mono:
  "nonzero_entries s' \<subseteq> nonzero_entries s \<Longrightarrow> e < 65536 \<Longrightarrow> fat_at s e = 0 \<Longrightarrow> fat_at s' e = 0"
  by (rule ccontr) (auto simp: nonzero_entries_def)

lemma word16_zeroed:
  assumes "even (a + b)"
  shows "word16_at (write_bytes d a (bytes16 0)) b = (if a = b then 0 else word16_at d b)"
proof (cases "a = b")
  case False
  have "b + 2 \<le> a \<or> a + 2 \<le> b"
  proof (rule ccontr)
    assume "\<not> (b + 2 \<le> a \<or> a + 2 \<le> b)"
    with False have "a = Suc b \<or> b = Suc a" by auto
    with assms show False by auto
  qed
  with False show ?thesis by (simp add: word16_at_other)
qed simp

lemma fat_at_zeroed:
  assumes "ready s" and "agrees s (fat_store s c 0) s'"
  shows "fat_at s' e = (if fat_off s e = fat_off s c \<or> fat_off s e = fat2_off s c then 0 else fat_at s e)"
proof -
  have "even (fat_off s c + fat_off s e)" "even (fat2_off s c + fat_off s e)"
    by (simp_all add: fat_off_def fat2_off_def)
  then show ?thesis
    unfolding fat_at_def agrees_offs [OF agrees_volume(1) [OF assms(2,1)]] agrees_drive [OF assms(2)] fat_store_def
    by (auto simp: word16_zeroed)
qed

lemma free_chain_loop_ends:
  assumes "ready s"
  shows "\<exists>s'. free_chain_loop s c = Some s' \<and> ready s' \<and> nonzero_entries s' \<subseteq> nonzero_entries s"
  using assms
proof (induction "card (nonzero_entries s)" arbitrary: s c rule: less_induct)
  case less
  show ?case
  proof (cases "2 \<le> c \<and> c < 0xFFF8")
    case False
    with less.prems show ?thesis by (subst free_chain_loop.simps) auto
  next
    case True
    define n where "n = nat c"
    have n: "c = int n" "n < 65536" using True by (simp_all add: n_def nat_less_iff)
    from read_fat_entry [OF less.prems n(2)] obtain s1 where
      s1: "fat16_get_fat_entry s c = Some (int (fat_at s n), s1)" "agrees s (k_drive s) s1" using n(1) by blast
    have r1: "ready s1" using agrees_volume(2) [OF s1(2) less.prems] .
    from write_fat_entry [OF r1 n(2), of 0] obtain s2 where
      s2: "fat16_set_fat_entry s1 c 0 = Some (0, s2)" "agrees s1 (fat_store s1 n 0) s2" using n(1) by blast
    have r2: "ready s2" using agrees_volume(2) [OF s2(2) r1] .
    have sub: "nonzero_entries s2 \<subseteq> nonzero_entries s" and gone: "n \<notin> nonzero_entries s2"
      using fat_at_zeroed [OF r1 s2(2)] fat_at_read(1) [OF less.prems s1(2)]
      by (auto simp: nonzero_entries_def split: if_splits)
    show ?thesis
    proof (cases "int (fat_at s n) < 2 \<or> int (fat_at s n) \<ge> 0xFFF8")
      case stop: True
      with True s1 s2 r2 sub show ?thesis by (subst free_chain_loop.simps) auto
    next
      case go: False
      then have "n \<in> nonzero_entries s" using n(2) by (simp add: nonzero_entries_def)
      moreover have "finite (nonzero_entries s)" by (simp add: nonzero_entries_def)
      ultimately have "card (nonzero_entries s2) < card (nonzero_entries s)"
        using sub gone by (intro psubset_card_mono) auto
      from less.hyps [OF this r2, of "int (fat_at s n)"] obtain s' where
        "free_chain_loop s2 (int (fat_at s n)) = Some s'" "ready s'" "nonzero_entries s' \<subseteq> nonzero_entries s2"
        by blast
      with True go s1 s2 sub show ?thesis by (subst free_chain_loop.simps) auto
    qed
  qed
qed

section \<open>The interface of the table\<close>

text \<open>
  What the rest of the file system relies on: a table of entries that can be read and
  written, and whose other contents (\<open>rest\<close>) no operation touches.
\<close>

locale cluster_table =
  fixes get_entry :: "'s \<Rightarrow> int \<Rightarrow> (int \<times> 's) option"
    and alloc :: "'s \<Rightarrow> int \<Rightarrow> (int \<times> 's) option"
    and ok :: "'s \<Rightarrow> bool"
    and entry :: "'s \<Rightarrow> nat \<Rightarrow> nat"
    and valid :: "'s \<Rightarrow> nat \<Rightarrow> bool"
    and free :: "'s \<Rightarrow> nat list"
    and step :: "'s \<Rightarrow> (nat \<Rightarrow> nat) \<Rightarrow> 's \<Rightarrow> bool"
  assumes entry_read: "ok s \<Longrightarrow> valid s c \<Longrightarrow>
      \<exists>s'. get_entry s (int c) = Some (int (entry s c), s') \<and> step s (entry s) s'"
    and alloc_link: "ok s \<Longrightarrow> free s = d # ds \<Longrightarrow> valid s c \<Longrightarrow> 2 \<le> c \<Longrightarrow>
      \<exists>s'. alloc s (int c) = Some (int d, s') \<and> step s ((entry s)(d := 0xFFFF, c := d)) s'"
    and alloc_none: "ok s \<Longrightarrow> free s = [] \<Longrightarrow> \<exists>s'. alloc s p = Some (- ENOMEM, s') \<and> step s (entry s) s'"
    and step_ok: "step s f s' \<Longrightarrow> ok s \<Longrightarrow> ok s'"
    and step_entry: "step s f s' \<Longrightarrow> ok s \<Longrightarrow> valid s c \<Longrightarrow> entry s' c = f c"
    and step_valid: "step s f s' \<Longrightarrow> ok s \<Longrightarrow> valid s' c = valid s c"
    and step_trans: "step s f s1 \<Longrightarrow> step s1 g s2 \<Longrightarrow> ok s \<Longrightarrow> step s g s2"
    and step_cong: "step s f s' \<Longrightarrow> (\<And>c. valid s c \<Longrightarrow> f c = g c) \<Longrightarrow> step s g s'"
    and free_valid: "ok s \<Longrightarrow> c \<in> set (free s) \<Longrightarrow> valid s c \<and> entry s c = 0 \<and> 2 \<le> c \<and> c < 0xFFF8"
begin

text \<open>One move along a chain, which is what the write loop does between two clusters.\<close>

lemma move_inside:
  assumes "ok s" and "valid s c" and "entry s c = d" and "2 \<le> d" and "d < 0xFFF8"
  shows "\<exists>s1. get_entry s (int c) = Some (int d, s1) \<and> \<not> (int d < 2 \<or> int d \<ge> 0xFFF8) \<and> step s (entry s) s1"
  using entry_read [OF assms(1,2)] assms(3-5) by auto

lemma move_extend:
  assumes "ok s" and "valid s c" and "2 \<le> c" and "0xFFF8 \<le> entry s c" and "free s = d # ds"
    and same: "\<And>s1. step s (entry s) s1 \<Longrightarrow> free s1 = free s"
  shows "\<exists>s1 s2. get_entry s (int c) = Some (int (entry s c), s1) \<and> alloc s1 (int c) = Some (int d, s2)
     \<and> step s ((entry s)(d := 0xFFFF, c := d)) s2"
proof -
  from entry_read [OF assms(1,2)] obtain s1 where
    s1: "get_entry s (int c) = Some (int (entry s c), s1)" "step s (entry s) s1" by blast
  have ok1: "ok s1" "free s1 = d # ds" "valid s1 c"
    using step_ok [OF s1(2) assms(1)] same [OF s1(2)] assms(2,5) step_valid [OF s1(2) assms(1)] by simp_all
  from alloc_link [OF ok1 assms(3)] obtain s2 where
    s2: "alloc s1 (int c) = Some (int d, s2)" "step s1 ((entry s1)(d := 0xFFFF, c := d)) s2" by blast
  have "step s ((entry s)(d := 0xFFFF, c := d)) s2"
    using step_trans [OF s1(2) s2(2) assms(1)]
    by (rule step_cong) (simp add: step_entry [OF s1(2) assms(1)])
  with s1(1) s2(1) show ?thesis by blast
qed

end

lemma free_clusters_mem:
  "c \<in> set (free_clusters s) \<longleftrightarrow> 2 \<le> c \<and> c < 2 + clusters s \<and> fat_at s c = 0"
  by (auto simp: free_clusters_def simp del: upt_Suc)

lemma free_clusters_entry:
  "ready s \<Longrightarrow> c \<in> set (free_clusters s) \<Longrightarrow> in_table s c \<and> fat_at s c = 0 \<and> 2 \<le> c \<and> c < 0xFFF8"
  using cluster_in_table [of s c] by (auto simp: free_clusters_mem ready_def geometry_ok_def)

interpretation ft: cluster_table fat16_get_fat_entry fat16_alloc_cluster ready fat_at in_table free_clusters table_step
proof unfold_locales
  fix s c
  assume "ready s" "in_table s c"
  then show "\<exists>s'. fat16_get_fat_entry s (int c) = Some (int (fat_at s c), s') \<and> table_step s (fat_at s) s'"
    using get_entry [of s c] by (auto simp: in_table_def)
next
  fix s d ds c
  assume *: "ready s" "free_clusters s = d # ds" "in_table s c" "2 \<le> c"
  then have "int c < 2 \<or> int c = int c \<and> in_table s c" "\<not> int c < 2" by simp_all
  then show "\<exists>s'. fat16_alloc_cluster s (int c) = Some (int d, s')
      \<and> table_step s ((fat_at s)(d := 0xFFFF, c := d)) s'"
    using alloc_cluster_eq [OF *(1,2), of "int c" c] by auto
next
  fix s p
  assume "ready s" "free_clusters s = []"
  then show "\<exists>s'. fat16_alloc_cluster s p = Some (- ENOMEM, s') \<and> table_step s (fat_at s) s'"
    using alloc_cluster_full [of s p] by blast
next
  fix s f s' g
  assume "table_step s f s'" "\<And>c. in_table s c \<Longrightarrow> f c = g c"
  then show "table_step s g s'" by (rule table_step_cong)
qed (rule table_stepD(1,4,5) table_step_trans free_clusters_entry; assumption)+

lemma free_clusters_step:
  assumes "ready s" and "table_step s f s'"
  shows "free_clusters s' = filter (\<lambda>c. f c = 0) [2..<2 + clusters s]"
proof -
  note D = table_stepD [OF assms(2,1)]
  have "fat_at s' c = f c" if "c < 2 + clusters s" for c
    using D(5) cluster_in_table [OF assms(1) that] .
  then show ?thesis
    by (auto simp: free_clusters_def same_volume_geometry [OF D(2)] intro!: filter_cong)
qed

lemma free_clusters_step_mem:
  "ready s \<Longrightarrow> table_step s f s' \<Longrightarrow> c \<in> set (free_clusters s') \<longleftrightarrow> 2 \<le> c \<and> c < 2 + clusters s \<and> f c = 0"
  by (simp only: free_clusters_step) auto

lemma free_clusters_same:
  "ready s \<Longrightarrow> table_step s (fat_at s) s' \<Longrightarrow> free_clusters s' = free_clusters s"
  using free_clusters_step [of s "fat_at s" s'] by (simp only: free_clusters_def)

section \<open>A volume with the geometry of the boot sector\<close>

definition demo_private :: fat_private where
  "demo_private = \<lparr>
     fp_addr = 0x01000000,
     fp_header = \<lparr>
       fat_primary_header = \<lparr>
         fh_short_jmp_ins = [0xEB, 0x3C, 0x90], fh_oem_identifier = replicate 8 0x20,
         fh_bytes_per_sector = 0x200, fh_sectors_per_cluster = 0x80, fh_reserved_sectors = 200,
         fh_fat_copies = 2, fh_root_dir_entries = 0x40, fh_number_of_sectors = 0, fh_media_type = 0xF8,
         fh_sectors_per_fat = 0x100, fh_sectors_per_track = 0x20, fh_number_of_heads = 0x40,
         fh_hidden_setors = 0, fh_sectors_big = 0x773594\<rparr>,
       fat_extended_header = \<lparr>
         fe_drive_number = 0x80, fe_win_nt_bit = 0, fe_signature = 0x29, fe_volume_id = 0xD105,
         fe_volume_id_string = replicate 11 0x20, fe_system_id_string = replicate 8 0x20\<rparr>\<rparr>,
     fp_root_directory = \<lparr>
       fd_addr = 0x01000040, fd_item_addr = 0x01006000,
       fd_item = replicate 64 (decode_item (replicate 32 0)), fd_total = 0,
       fd_sector_pos = 712, fd_ending_sector_pos = 716\<rparr>,
     fp_cluster_read_stream = Some \<lparr>ds_pos = 0, ds_disk = 0\<rparr>,
     fp_fat_read_stream = Some \<lparr>ds_pos = 0, ds_disk = 0\<rparr>,
     fp_directory_stream = Some \<lparr>ds_pos = 0, ds_disk = 0\<rparr>,
     fp_cluster_write_stream = Some \<lparr>ds_pos = 0, ds_disk = 0\<rparr>,
     fp_fat_write_stream = Some \<lparr>ds_pos = 0, ds_disk = 0\<rparr>\<rparr>"

definition demo_state :: "drive \<Rightarrow> kstate" where
  "demo_state d = \<lparr>k_drive = d, k_heap = demo_heap (replicate 100 0),
     k_disk = \<lparr>dk_type = 0, dk_sector_size = 512, dk_id = 0, dk_filesystem = Some FAT16,
               dk_fs_private = Some demo_private\<rparr>\<rparr>"

lemma demo_geometry:
  "rsv (demo_state d) = 200" "spf (demo_state d) = 256" "spc (demo_state d) = 128"
  "ents (demo_state d) = 64" "root_sec (demo_state d) = 712" "data_sec (demo_state d) = 716"
  "clusters (demo_state d) = 61029"
  by (simp_all add: rsv_def spf_def spc_def ents_def root_sec_def data_sec_def clusters_def
      count_of_clusters_def priv_def demo_state_def demo_private_def s32_def)

lemma demo_ready: "ready (demo_state d)"
proof -
  have "priv (demo_state d) = demo_private" by (simp add: priv_def demo_state_def)
  then show ?thesis
    by (simp add: ready_def geometry_ok_def demo_geometry)
       (simp add: demo_state_def demo_private_def streams_ok_def stream_ok_def)
qed

lemma demo_fat_at: "fat_at (demo_state d) c = unat (word16_at d (102400 + 2 * c))"
  by (simp add: fat_at_def fat_off_def demo_geometry) (simp add: demo_state_def)

text \<open>A drive of zeros whose first data cluster, and only it, is a chain.\<close>

definition demo_drive :: drive where
  "demo_drive = write_bytes (\<lambda>a. 0) 102404 (bytes16 0xFFFF)"

lemma word16_at_zero: "word16_at (\<lambda>a. 0) b = 0"
  by (simp add: word16_at_def le16_def)

lemma demo_drive_entries: "fat_at (demo_state demo_drive) c = (if c = 2 then 0xFFFF else 0)"
  unfolding demo_fat_at demo_drive_def
proof (cases "c = 2")
  case False
  then have "102400 + 2 * c + 2 \<le> 102404 \<or> 102404 + length (bytes16 0xFFFF) \<le> 102400 + 2 * c" by auto
  with False show "unat (word16_at (write_bytes (\<lambda>a. 0) 102404 (bytes16 65535)) (102400 + 2 * c)) =
      (if c = 2 then 65535 else 0)"
    by (simp only: word16_at_other word16_at_zero) simp
qed simp

lemma demo_chain: "file_chain (demo_state demo_drive) [2]"
  by (simp add: file_chain_def demo_drive_entries demo_geometry)

lemma demo_free: "3 \<in> set (free_clusters (demo_state demo_drive))"
  by (simp add: free_clusters_mem demo_drive_entries demo_geometry)

section \<open>Properties\<close>

text \<open>
  C23: appending to a file. On a volume with a free cluster, \<^verbatim>\<open>fat16_alloc_cluster\<close> called with
  the last cluster of a chain returns a cluster that was free and extends the chain by it;
  every other chain, the equality of the two copies of the table and all bytes behind the
  tables stay as they were.
\<close>

theorem fat16_alloc_cluster_extends:
  assumes "ready s" and "file_chain s cs" and "free_clusters s \<noteq> []"
  shows "\<exists>c s'. fat16_alloc_cluster s (int (last cs)) = Some (int c, s') \<and> ready s'
     \<and> c = hd (free_clusters s) \<and> file_chain s' (cs @ [c])
     \<and> (\<forall>ds. file_chain s ds \<and> set ds \<inter> set cs = {} \<longrightarrow> file_chain s' ds)
     \<and> (mirrored s \<longrightarrow> mirrored s')
     \<and> (\<forall>a \<ge> 512 * (rsv s + 2 * spf s). k_drive s' a = k_drive s a)"
proof -
  obtain c fs where free: "free_clusters s = c # fs" using assms(3) by (cases "free_clusters s") auto
  have c: "in_table s c" "fat_at s c = 0" "2 \<le> c" "c < 2 + clusters s"
    using free_clusters_entry [OF assms(1), of c] free_clusters_mem [of c s] free by simp_all
  note F = file_chain_facts [OF assms(1,2)]
  have l: "last cs \<in> set cs" using F(1) by simp
  obtain s' where s': "fat16_alloc_cluster s (int (last cs)) = Some (int c, s')"
      "table_step s ((fat_at s)(c := 0xFFFF, last cs := c)) s'"
    using ft.alloc_link [OF assms(1) free F(3) [OF l]] F(4) [OF l] by auto
  note D = table_stepD [OF s'(2) assms(1)]
  have notin: "c \<notin> set ds" if "file_chain s ds" for ds
    using file_chain_facts(6) [OF assms(1) that, of c] c(2) by blast
  have "chain ((fat_at s)(c := 0xFFFF, last cs := c)) (cs @ [c])"
    using assms(2) notin [OF assms(2)] F(2) by (intro chain_append) (auto simp: file_chain_def)
  moreover have "chain (fat_at s') (cs @ [c]) = chain ((fat_at s)(c := 0xFFFF, last cs := c)) (cs @ [c])"
    using F(3) c(1) by (intro chain_cong D(5)) auto
  ultimately have "file_chain s' (cs @ [c])"
    using assms(2) c(3,4) same_volume_geometry(7) [OF D(2)] by (auto simp: file_chain_def)
  moreover have "file_chain s' ds" if "file_chain s ds" "set ds \<inter> set cs = {}" for ds
    using notin [OF that(1)] that l by (intro file_chain_step [OF assms(1) s'(2) that(1)]) auto
  ultimately show ?thesis
    using s' D(1) free by (auto simp: table_step_def)
qed

theorem fat16_alloc_cluster_extends_witness:
  "\<exists>c s'. fat16_alloc_cluster (demo_state demo_drive) 2 = Some (int c, s') \<and> file_chain s' [2, c]"
proof -
  have "free_clusters (demo_state demo_drive) \<noteq> []" using demo_free by (metis empty_iff empty_set)
  from fat16_alloc_cluster_extends [OF demo_ready demo_chain this] show ?thesis by auto
qed

text \<open>
  C24: \<^verbatim>\<open>fat16_free_cluster_chain\<close> of the first cluster of a chain makes exactly the clusters of
  that chain free, in both copies of the table; every chain disjoint from it and all bytes
  behind the tables stay as they were.
\<close>

theorem fat16_free_cluster_chain_correct:
  assumes "ready s" and "file_chain s (c # cs)"
  shows "\<exists>s'. fat16_free_cluster_chain s (word_of_nat c) = Some (0, s') \<and> ready s'
     \<and> set (free_clusters s') = set (free_clusters s) \<union> set (c # cs)
     \<and> (\<forall>ds. file_chain s ds \<and> set ds \<inter> set (c # cs) = {} \<longrightarrow> file_chain s' ds)
     \<and> (mirrored s \<longrightarrow> mirrored s')
     \<and> (\<forall>a \<ge> 512 * (rsv s + 2 * spf s). k_drive s' a = k_drive s a)"
proof -
  note F = file_chain_facts [OF assms]
  from free_chain_loop_eq [OF assms] obtain s' where s': "free_chain_loop s (int c) = Some s'"
    "table_step s (\<lambda>e. if e \<in> set (c # cs) then 0 else fat_at s e) s'" by blast
  note D = table_stepD [OF s'(2) assms(1)]
  have "c < 2 ^ 31" using F(4) [of c] by simp
  then have "sint (word_of_nat c :: u32) = int c"
    using sint_word_of_int_u32 [of "int c"] by simp
  then have run: "fat16_free_cluster_chain s (word_of_nat c) = Some (0, s')"
    using s'(1) by (simp add: fat16_free_cluster_chain_def)
  have "e \<in> set (free_clusters s') \<longleftrightarrow> e \<in> set (free_clusters s) \<union> set (c # cs)" for e
    using F(4,5) [of e] by (auto simp: free_clusters_step_mem [OF assms(1) s'(2)] free_clusters_mem [of _ s])
  then have "set (free_clusters s') = set (free_clusters s) \<union> set (c # cs)" by blast
  moreover have "file_chain s' ds" if "file_chain s ds" "set ds \<inter> set (c # cs) = {}" for ds
    using that by (intro file_chain_step [OF assms(1) s'(2) that(1)]) auto
  ultimately show ?thesis
    using run D(1) s'(2) by (auto simp: table_step_def)
qed

theorem fat16_free_cluster_chain_correct_witness:
  "\<exists>s'. fat16_free_cluster_chain (demo_state demo_drive) 2 = Some (0, s') \<and> 2 \<in> set (free_clusters s')"
  using fat16_free_cluster_chain_correct [OF demo_ready demo_chain] by auto

text \<open>
  C25: \<^verbatim>\<open>fat16_free_cluster_chain\<close> returns on every mounted volume and for every first cluster,
  also when the table holds a cycle or cluster numbers out of its range, and it never makes
  an entry nonzero.
\<close>

theorem fat16_free_cluster_chain_terminates:
  assumes "ready s"
  shows "\<exists>s'. fat16_free_cluster_chain s w = Some (0, s') \<and> ready s'
     \<and> (\<forall>e < 65536. fat_at s e = 0 \<longrightarrow> fat_at s' e = 0)"
  using free_chain_loop_ends [OF assms, of "sint w"] nonzero_entries_mono
  by (fastforce simp: fat16_free_cluster_chain_def)

text \<open>A table whose cluster 2 is linked to itself.\<close>

theorem fat16_free_cluster_chain_terminates_witness:
  "\<exists>s'. fat16_free_cluster_chain (demo_state (write_bytes (\<lambda>a. 0) 102404 [2, 0])) 2 = Some (0, s')"
  using fat16_free_cluster_chain_terminates [OF demo_ready] by blast

end
