(* ===== verification/Fat16_Data.thy ===== *)
theory Fat16_Data
  imports Fat16_Table
begin

text \<open>
  File data of \<^verbatim>\<open>src/src/fs/fat/fat16.c\<close>: the cluster of an offset, reads along a chain,
  and writes that follow and extend it. The bytes of a file are the concatenation of the
  clusters of its chain (\<open>contents\<close>); the theorems say when reads and writes agree with it.
\<close>

section \<open>Operations\<close>

definition size_of_cluster_bytes :: "kstate \<Rightarrow> fat_private \<Rightarrow> int" where
  "size_of_cluster_bytes s private =
     uint (fh_sectors_per_cluster (fat_primary_header (fp_header private))) * dk_sector_size (k_disk s)"

text \<open>
  The loop of \<^verbatim>\<open>fat16_get_cluster_for_offset\<close> with \<open>k\<close> clusters ahead. The marks it compares
  with have twelve bits.
\<close>

fun cluster_walk :: "kstate \<Rightarrow> nat \<Rightarrow> int \<Rightarrow> (int \<times> kstate) option" where
  "cluster_walk s 0 cluster_to_use = Some (cluster_to_use, s)"
| "cluster_walk s (Suc k) cluster_to_use = do {
     (entry, s1) \<leftarrow> fat16_get_fat_entry s cluster_to_use;
     if entry = 0xFF8 \<or> entry = 0xFFF then Some (- EIO, s1)
     else if entry = 0xFF7 \<or> entry = 0xFF0 \<or> entry = 0xFF6 \<or> entry = 0x00 then Some (- EIO, s1)
     else cluster_walk s1 k entry
   }"

definition fat16_get_cluster_for_offset :: "kstate \<Rightarrow> int \<Rightarrow> int \<Rightarrow> (int \<times> kstate) option" where
  "fat16_get_cluster_for_offset s starting_cluster offset = do {
     private \<leftarrow> dk_fs_private (k_disk s);
     let sz = size_of_cluster_bytes s private;
     if sz = 0 then None else cluster_walk s (nat (offset sdiv sz)) starting_cluster
   }"

text \<open>
  \<^verbatim>\<open>fat16_read_internal_from_stream\<close>, on the only stream it is called with,
  \<^verbatim>\<open>cluster_read_stream\<close>. The second component of the result is what is stored at \<^verbatim>\<open>out\<close>.
\<close>

partial_function (option) fat16_read_internal_from_stream ::
    "kstate \<Rightarrow> int \<Rightarrow> int \<Rightarrow> int \<Rightarrow> (int \<times> byte list \<times> kstate) option" where
  "fat16_read_internal_from_stream s cluster offset tot = do {
     (cluster_to_use, s1) \<leftarrow> fat16_get_cluster_for_offset s cluster offset;
     if cluster_to_use < 0 then Some (cluster_to_use, [], s1)
     else do {
       private \<leftarrow> dk_fs_private (k_disk s1);
       stream \<leftarrow> fp_cluster_read_stream private;
       let sz = size_of_cluster_bytes s1 private;
       let offset_from_cluster = offset smod sz;
       let starting_sector = fat16_cluster_to_sector private cluster_to_use;
       let starting_pos = s32 (starting_sector * dk_sector_size (k_disk s1) + offset_from_cluster);
       let total_to_read = (if tot > sz then sz else tot);
       let (res, stream1) = diskstreamer_seek stream starting_pos;
       if res \<noteq> PEACHOS_ALL_OK
       then Some (res, [], put_private s1 (private\<lparr>fp_cluster_read_stream := Some stream1\<rparr>))
       else do {
         (res1, stream2, out) \<leftarrow> diskstreamer_read (k_drive s1) stream1 total_to_read;
         let s2 = put_private s1 (private\<lparr>fp_cluster_read_stream := Some stream2\<rparr>);
         if res1 \<noteq> PEACHOS_ALL_OK then Some (res1, out, s2)
         else if tot - total_to_read > 0
         then do {
           (res2, out2, s3) \<leftarrow> fat16_read_internal_from_stream s2 cluster (offset + total_to_read)
                                (tot - total_to_read);
           Some (res2, out @ out2, s3)
         }
         else Some (res1, out, s2)
       }
     }
   }"

definition fat16_read_internal :: "kstate \<Rightarrow> int \<Rightarrow> int \<Rightarrow> int \<Rightarrow> (int \<times> byte list \<times> kstate) option" where
  "fat16_read_internal s starting_cluster offset tot = do {
     private \<leftarrow> dk_fs_private (k_disk s);
     fat16_read_internal_from_stream s starting_cluster offset tot
   }"

definition fat16_write_cluster_data ::
    "kstate \<Rightarrow> int \<Rightarrow> nat \<Rightarrow> byte list \<Rightarrow> nat \<Rightarrow> (int \<times> kstate) option" where
  "fat16_write_cluster_data s cluster offset_in_cluster buf len = do {
     private \<leftarrow> dk_fs_private (k_disk s);
     stream \<leftarrow> fp_cluster_write_stream private;
     let sector = fat16_cluster_to_sector private cluster;
     let byte_pos = s32 (sector * dk_sector_size (k_disk s) + int offset_in_cluster);
     let (res, stream1) = diskstreamer_seek stream byte_pos;
     if res < 0 then Some (res, put_private s (private\<lparr>fp_cluster_write_stream := Some stream1\<rparr>))
     else do {
       (res1, stream2, d1) \<leftarrow> diskstreamer_write (k_drive s) stream1 buf (s32 (int len));
       Some (res1, put_private (s\<lparr>k_drive := d1\<rparr>) (private\<lparr>fp_cluster_write_stream := Some stream2\<rparr>))
     }
   }"

text \<open>
  The step to the following cluster, which \<^verbatim>\<open>fat16_write_internal\<close> has in both of its loops:
  a negative result is the error of the allocation.
\<close>

definition next_or_new :: "kstate \<Rightarrow> int \<Rightarrow> (int \<times> kstate) option" where
  "next_or_new s current_cluster = do {
     (next, s1) \<leftarrow> fat16_get_fat_entry s current_cluster;
     if next < 2 \<or> next \<ge> 0xFFF8 then fat16_alloc_cluster s1 current_cluster else Some (next, s1)
   }"

text \<open>The walk to the cluster of the offset: \<open>Inl\<close> is an early return.\<close>

fun write_walk :: "kstate \<Rightarrow> nat \<Rightarrow> int \<Rightarrow> ((int + int) \<times> kstate) option" where
  "write_walk s 0 current_cluster = Some (Inr current_cluster, s)"
| "write_walk s (Suc k) current_cluster = do {
     (c, s1) \<leftarrow> next_or_new s current_cluster;
     if c < 0 then Some (Inl c, s1) else write_walk s1 k c
   }"

text \<open>The write loop: \<open>src\<close> is \<^verbatim>\<open>src + written\<close> and \<open>left\<close> is \<^verbatim>\<open>total - written\<close>.\<close>

partial_function (option) write_loop ::
    "kstate \<Rightarrow> nat \<Rightarrow> int \<Rightarrow> nat \<Rightarrow> byte list \<Rightarrow> nat \<Rightarrow> nat \<Rightarrow> (int \<times> kstate) option" where
  "write_loop s cluster_size current_cluster offset_in_cluster src written left =
     (if 0 < left then do {
        let space = cluster_size - offset_in_cluster;
        let to_write = (if left < space then left else space);
        (res, s1) \<leftarrow> fat16_write_cluster_data s current_cluster offset_in_cluster src to_write;
        if res < 0 then Some (res, s1)
        else if 0 < left - to_write
        then do {
          (c, s2) \<leftarrow> next_or_new s1 current_cluster;
          if c < 0 then Some (c, s2)
          else write_loop s2 cluster_size c 0 (drop to_write src) (written + to_write) (left - to_write)
        }
        else write_loop s1 cluster_size current_cluster 0 (drop to_write src) (written + to_write)
               (left - to_write)
      }
      else Some (s32 (int written), s))"

text \<open>The results are the returned value, \<^verbatim>\<open>*first_cluster\<close> and the state.\<close>

definition fat16_write_internal ::
    "kstate \<Rightarrow> u32 \<Rightarrow> u32 \<Rightarrow> byte list \<Rightarrow> u32 \<Rightarrow> (int \<times> u32 \<times> kstate) option" where
  "fat16_write_internal s first_cluster file_offset data tot = do {
     private \<leftarrow> dk_fs_private (k_disk s);
     let cluster_size = nat (u32 (size_of_cluster_bytes s private));
     if first_cluster = 0
     then do {
       (new_cluster, s1) \<leftarrow> fat16_alloc_cluster s (-1);
       if new_cluster < 0 then Some (new_cluster, first_cluster, s1)
       else if cluster_size = 0 then None
       else do {
         (res, s2) \<leftarrow> write_loop s1 cluster_size new_cluster (unat file_offset mod cluster_size) data 0 (unat tot);
         Some (res, word_of_int new_cluster, s2)
       }
     }
     else if cluster_size = 0 then None
     else do {
       (walk, s1) \<leftarrow> write_walk s (unat file_offset div cluster_size) (sint first_cluster);
       case walk of
         Inl err \<Rightarrow> Some (err, first_cluster, s1)
       | Inr current_cluster \<Rightarrow> do {
           (res, s2) \<leftarrow> write_loop s1 cluster_size current_cluster (unat file_offset mod cluster_size)
                         data 0 (unat tot);
           Some (res, first_cluster, s2)
         }
     }
   }"

section \<open>The bytes of a chain\<close>

definition csize :: "kstate \<Rightarrow> nat" where "csize s = 512 * spc s"

definition data_pos :: "kstate \<Rightarrow> nat \<Rightarrow> nat" where
  "data_pos s c = 512 * data_sec s + csize s * (c - 2)"

text \<open>The positions of \<^verbatim>\<open>int\<close> that the streams take end at \<open>2 ^ 31\<close>.\<close>

definition reach :: "kstate \<Rightarrow> nat \<Rightarrow> bool" where
  "reach s c \<longleftrightarrow> 2 \<le> c \<and> c < 2 + clusters s \<and> data_pos s c + csize s < 2 ^ 31"

definition cluster_data :: "kstate \<Rightarrow> nat \<Rightarrow> byte list" where
  "cluster_data s c = bytes_at (k_drive s) (data_pos s c) (csize s)"

definition contents :: "kstate \<Rightarrow> nat list \<Rightarrow> byte list" where
  "contents s cs = concat (map (cluster_data s) cs)"

lemma length_cluster_data [simp]: "length (cluster_data s c) = csize s"
  by (simp add: cluster_data_def)

lemma cluster_bytes:
  "k + n \<le> csize s \<Longrightarrow> take n (drop k (cluster_data s c)) = bytes_at (k_drive s) (data_pos s c + k) n"
  by (simp add: cluster_data_def take_map drop_map)

lemma length_contents [simp]: "length (contents s cs) = length cs * csize s"
  by (induction cs) (simp_all add: contents_def)

lemma contents_simps: "contents s [] = []" "contents s (c # cs) = cluster_data s c @ contents s cs"
  by (simp_all add: contents_def)

lemma drop_contents: "drop (k * csize s) (contents s cs) = contents s (drop k cs)"
proof (induction cs arbitrary: k)
  case (Cons c cs)
  then show ?case by (cases k) (simp_all add: contents_simps)
qed (simp add: contents_def)

lemma csize_pos: "ready s \<Longrightarrow> 0 < csize s"
  by (simp add: ready_def geometry_ok_def csize_def)

lemma byte_bound: "unat (w :: byte) < 256"
  using unsigned_less [where 'a = nat, of w] by simp

lemma csize_bound: "csize s < 131072"
  using byte_bound [of "fh_sectors_per_cluster (hdr s)"] by (simp add: csize_def spc_def)

lemma csize_volume: "same_volume s s' \<Longrightarrow> csize s' = csize s"
  "same_volume s s' \<Longrightarrow> data_pos s' c = data_pos s c" "same_volume s s' \<Longrightarrow> reach s' c = reach s c"
  using same_volume_geometry [of s s'] by (simp_all add: csize_def data_pos_def reach_def)

lemma cluster_data_read:
  "same_volume s s' \<Longrightarrow> (\<And>a. 512 * data_sec s \<le> a \<Longrightarrow> k_drive s' a = k_drive s a)
    \<Longrightarrow> cluster_data s' c = cluster_data s c"
  by (simp add: cluster_data_def csize_volume) (simp add: data_pos_def)

lemma contents_read:
  assumes "same_volume s s'" and "\<And>a. 512 * data_sec s \<le> a \<Longrightarrow> k_drive s' a = k_drive s a"
  shows "contents s' cs = contents s cs"
proof -
  have "cluster_data s' = cluster_data s" using cluster_data_read [OF assms] by (rule ext)
  then show ?thesis by (simp add: contents_def)
qed

lemma data_pos_disjoint:
  assumes "c \<noteq> c'" and "2 \<le> c" and "2 \<le> c'"
  shows "data_pos s c + csize s \<le> data_pos s c' \<or> data_pos s c' + csize s \<le> data_pos s c"
proof -
  have "csize s * (a - 2) + csize s \<le> csize s * (b - 2)" if "2 \<le> a" "a < b" for a b
  proof -
    have "Suc (a - 2) \<le> b - 2" using that by simp
    then have "csize s * Suc (a - 2) \<le> csize s * (b - 2)" by (rule mult_le_mono2)
    then show ?thesis by (simp add: add.commute)
  qed
  then show ?thesis using assms by (cases "c < c'") (auto simp: data_pos_def)
qed

subsection \<open>Positions\<close>

lemma volume_size:
  assumes "ready s" and "dk_fs_private (k_disk s) = Some p"
  shows "size_of_cluster_bytes s p = int (csize s)" "dk_sector_size (k_disk s) = 512"
    "priv s = p"
  using assms by (simp_all add: size_of_cluster_bytes_def ready_def csize_def spc_def priv_def)

lemma cluster_position:
  assumes "ready s" and "reach s c" and "o' \<le> csize s"
  shows "s32 (fat16_cluster_to_sector (priv s) (int c) * 512 + int o') = int (data_pos s c + o')"
proof -
  let ?h = "fd_ending_sector_pos (fp_root_directory (priv s))"
  have h: "?h = int (data_sec s)" using assms(1) by (simp add: ready_def geometry_ok_def data_sec_def)
  have c: "int c - 2 = int (c - 2)" using assms(2) by (simp add: reach_def of_nat_diff)
  have "fat16_cluster_to_sector (priv s) (int c) = s32 (int (data_sec s + (c - 2) * spc s))"
    by (simp add: fat16_cluster_to_sector_def h c spc_def)
  moreover have pos: "data_pos s c = 512 * (data_sec s + (c - 2) * spc s)"
    by (simp add: data_pos_def csize_def algebra_simps)
  moreover have bound: "data_pos s c + csize s < 2 ^ 31" using assms(2) by (simp add: reach_def)
  moreover have "data_sec s + (c - 2) * spc s \<le> data_pos s c + csize s" unfolding pos by simp
  then have "s32 (int (data_sec s + (c - 2) * spc s)) = int (data_sec s + (c - 2) * spc s)"
    using bound by (intro s32_int) (rule le_less_trans)
  ultimately have "fat16_cluster_to_sector (priv s) (int c) = int (data_sec s + (c - 2) * spc s)"
    by (simp only:)
  then have "fat16_cluster_to_sector (priv s) (int c) * 512 + int o' = int (data_pos s c + o')"
    by (simp add: pos)
  moreover have "s32 (int (data_pos s c + o')) = int (data_pos s c + o')"
    using bound assms(3) by (intro s32_int) simp
  ultimately show ?thesis by (simp only:)
qed

lemma data_pos_aligned: "data_pos s c mod 512 = 0"
  by (simp add: data_pos_def csize_def)

lemma data_after_tables: "ready s \<Longrightarrow> 512 * (rsv s + 2 * spf s) \<le> 512 * data_sec s"
  by (auto simp: ready_def geometry_ok_def)

section \<open>Reads\<close>

text \<open>Cluster numbers that the walk takes for an end or a bad cluster.\<close>

definition marks12 :: "nat set" where
  "marks12 = {0xFF8, 0xFFF, 0xFF7, 0xFF0, 0xFF6}"

lemma cluster_walk_eq:
  assumes "ready s" and "file_chain s cs" and "i + k < length cs" and "set (tl cs) \<inter> marks12 = {}"
  shows "\<exists>s'. cluster_walk s k (int (cs ! i)) = Some (int (cs ! (i + k)), s') \<and> agrees s (k_drive s) s'"
  using assms
proof (induction k arbitrary: s i)
  case 0
  then show ?case by simp
next
  case (Suc k)
  note F = file_chain_facts [OF Suc.prems(1,2)]
  have i: "Suc i < length cs" "cs ! i \<in> set cs" "cs ! Suc i \<in> set cs" using Suc.prems(3) by simp_all
  have "cs ! Suc i = tl cs ! i" using i(1) by (cases cs) simp_all
  then have "cs ! Suc i \<in> set (tl cs)" using i(1) by simp
  then have nm: "cs ! Suc i \<notin> marks12" using Suc.prems(4) by blast
  have nxt: "fat_at s (cs ! i) = cs ! Suc i"
    using chain_nth [of "fat_at s" cs i] Suc.prems(2) i(1) by (simp add: file_chain_def)
  have "cs ! i < 65536" using F(4) [OF i(2)] by simp
  from read_fat_entry [OF Suc.prems(1) this] obtain s1 where
    s1: "fat16_get_fat_entry s (int (cs ! i)) = Some (int (cs ! Suc i), s1)" "agrees s (k_drive s) s1"
    unfolding nxt by blast
  have r1: "ready s1" "file_chain s1 cs"
    using agrees_volume(2) [OF s1(2) Suc.prems(1)]
      file_chain_step [OF Suc.prems(1) table_step_refl [OF s1(2) Suc.prems(1)] Suc.prems(2)] by simp_all
  from Suc.IH [OF r1, of "Suc i"] Suc.prems(3,4) obtain s' where
    s': "cluster_walk s1 k (int (cs ! Suc i)) = Some (int (cs ! (Suc i + k)), s')" "agrees s1 (k_drive s1) s'"
    by auto
  have "agrees s (k_drive s) s'" using agrees_trans [OF s1(2) s'(2)] agrees_drive [OF s1(2)] by simp
  moreover have "int (cs ! Suc i) \<notin> {0xFF8, 0xFFF, 0xFF7, 0xFF0, 0xFF6, 0}"
    using nm F(4) [OF i(3)] by (auto simp: marks12_def)
  ultimately show ?case using s1(1) s'(1) by simp
qed

lemma cluster_for_offset_eq:
  assumes "ready s" and "file_chain s cs" and "offset < length cs * csize s" and "set (tl cs) \<inter> marks12 = {}"
  shows "\<exists>s'. fat16_get_cluster_for_offset s (int (hd cs)) (int offset) =
      Some (int (cs ! (offset div csize s)), s') \<and> agrees s (k_drive s) s'"
proof -
  obtain p where p: "dk_fs_private (k_disk s) = Some p" using assms(1) by (auto simp: ready_def)
  note V = volume_size [OF assms(1) p]
  have "offset div csize s < length cs" using assms(3) by (simp add: less_mult_imp_div_less)
  moreover have "hd cs = cs ! 0" using file_chain_facts(1) [OF assms(1,2)] by (simp add: hd_conv_nth)
  moreover have "nat (int offset sdiv int (csize s)) = offset div csize s"
    using csize_pos [OF assms(1)] by (simp add: zdiv_int [symmetric])
  ultimately show ?thesis
    using cluster_walk_eq [OF assms(1,2), of 0 "offset div csize s"] assms(4) csize_pos [OF assms(1)]
    by (simp add: fat16_get_cluster_for_offset_def p V)
qed

text \<open>The part of the read that one call of the stream does.\<close>

definition plain_read :: "nat \<Rightarrow> nat \<Rightarrow> bool" where
  "plain_read k n \<longleftrightarrow> k mod 512 = 0 \<or> k mod 512 + n \<le> 512"

lemma read_chunk:
  assumes "ready s" and "reach s c" and "k + n \<le> csize s" and "plain_read k n"
  obtains p st s' where "dk_fs_private (k_disk s) = Some p" "fp_cluster_read_stream p = Some st"
    "s32 (fat16_cluster_to_sector p (int c) * 512 + int k) = int (data_pos s c + k)"
    "diskstreamer_read (k_drive s) (snd (diskstreamer_seek st (int (data_pos s c + k)))) (int n) =
       Some (0, \<lparr>ds_pos = int (data_pos s c + k + n), ds_disk = 0\<rparr>, take n (drop k (cluster_data s c)))"
    "put_private s (p\<lparr>fp_cluster_read_stream := Some \<lparr>ds_pos = int (data_pos s c + k + n), ds_disk = 0\<rparr>\<rparr>) = s'"
    "agrees s (k_drive s) s'"
proof -
  obtain p st where p: "dk_fs_private (k_disk s) = Some p" "fp_cluster_read_stream p = Some st" "stream_ok (Some st)"
    using assms(1) by (auto simp: ready_def streams_ok_def stream_ok_def priv_def split: option.splits)
  note V = volume_size [OF assms(1) p(1)]
  let ?q = "data_pos s c + k"
  have q: "?q + n < 2 ^ 37" "?q < 2 ^ 37" using assms(2,3) by (simp_all add: reach_def)
  have m: "?q mod 512 = k mod 512" using data_pos_aligned [of s c] by (metis add_cancel_left_left mod_add_left_eq)
  have seek: "snd (diskstreamer_seek st (int ?q)) = \<lparr>ds_pos = int ?q, ds_disk = 0\<rparr>"
    using p(3) by (cases st) (simp add: diskstreamer_seek_def stream_ok_def)
  have bytes: "take n (drop k (cluster_data s c)) = bytes_at (k_drive s) ?q n"
    using assms(3) by (rule cluster_bytes)
  have rd: "diskstreamer_read (k_drive s) (snd (diskstreamer_seek st (int ?q))) (int n) =
      Some (0, \<lparr>ds_pos = int (?q + n), ds_disk = 0\<rparr>, take n (drop k (cluster_data s c)))"
    using assms(4) read_aligned [OF q(1), of "k_drive s"] read_in_sector [OF q(2), of n "k_drive s"]
    unfolding plain_read_def m seek bytes by (elim disjE) simp_all
  have "still_private (p\<lparr>fp_cluster_read_stream := Some \<lparr>ds_pos = int (?q + n), ds_disk = 0\<rparr>\<rparr>) = still_private p"
    using still_seek [OF p(3)] p(2) by (simp add: still_private_def)
  note put = agrees_put_same [OF p(1) this]
  have "k \<le> csize s" using assms(3) by simp
  note pos = cluster_position [OF assms(1,2) this, unfolded V(3)]
  show thesis by (rule that [OF p(1,2) pos rd refl put])
qed

lemma read_step:
  assumes "ready s" and "file_chain s cs" and "set (tl cs) \<inter> marks12 = {}"
    and "\<And>c. c \<in> set cs \<Longrightarrow> reach s c" and "offset < length cs * csize s"
    and n: "n = min tot (csize s)" and "offset mod csize s + n \<le> csize s" and "plain_read (offset mod csize s) n"
  obtains s' where "agrees s (k_drive s) s'"
    "fat16_read_internal_from_stream s (int (hd cs)) (int offset) (int tot) =
      (let out = take n (drop (offset mod csize s) (cluster_data s (cs ! (offset div csize s))))
       in if n < tot
          then do {
            (res2, out2, s3) \<leftarrow> fat16_read_internal_from_stream s' (int (hd cs)) (int (offset + n)) (int (tot - n));
            Some (res2, out @ out2, s3)
          }
          else Some (0, out, s'))"
proof -
  let ?c = "cs ! (offset div csize s)" and ?k = "offset mod csize s"
  from cluster_for_offset_eq [OF assms(1,2,5,3)] obtain s1 where
    s1: "fat16_get_cluster_for_offset s (int (hd cs)) (int offset) = Some (int ?c, s1)"
    "agrees s (k_drive s) s1" by blast
  note A1 = agrees_volume [OF s1(2) assms(1)] and C = csize_volume [OF agrees_volume(1) [OF s1(2) assms(1)]]
  have "offset div csize s < length cs" using assms(5) by (simp add: less_mult_imp_div_less)
  then have reach: "reach s1 ?c" using assms(4) C(3) by simp
  have kn: "?k + n \<le> csize s1" using assms(7) C(1) by simp
  have cd: "cluster_data s1 c = cluster_data s c" for c
    using agrees_drive [OF s1(2)] by (intro cluster_data_read [OF A1(1)]) simp
  obtain p st s' where R: "dk_fs_private (k_disk s1) = Some p" "fp_cluster_read_stream p = Some st"
    "s32 (fat16_cluster_to_sector p (int ?c) * 512 + int ?k) = int (data_pos s1 ?c + ?k)"
    "diskstreamer_read (k_drive s1) (snd (diskstreamer_seek st (int (data_pos s1 ?c + ?k)))) (int n) =
       Some (0, \<lparr>ds_pos = int (data_pos s1 ?c + ?k + n), ds_disk = 0\<rparr>, take n (drop ?k (cluster_data s1 ?c)))"
    "put_private s1 (p\<lparr>fp_cluster_read_stream := Some \<lparr>ds_pos = int (data_pos s1 ?c + ?k + n), ds_disk = 0\<rparr>\<rparr>) = s'"
    "agrees s1 (k_drive s1) s'"
    by (rule read_chunk [OF A1(2) reach kn assms(8)])
  note V = volume_size [OF A1(2) R(1)]
  have mm: "int offset smod int (csize s) = int ?k"
    using csize_pos [OF assms(1)] by (simp add: zmod_int)
  define st1 where "st1 = snd (diskstreamer_seek st (int (data_pos s1 ?c + ?k)))"
  have seek: "diskstreamer_seek st (int (data_pos s1 ?c + ?k)) = (0, st1)"
    by (simp add: diskstreamer_seek_def st1_def)
  note rd = R(4) [folded st1_def]
  have lt: "int offset + int n = int (offset + n)" by simp
  have sub: "n < tot \<Longrightarrow> int tot - int n = int (tot - n)" by (simp add: of_nat_diff)
  have "agrees s (k_drive s) s'" using agrees_trans [OF s1(2) R(6)] agrees_drive [OF s1(2)] by simp
  then show thesis
  proof (rule that)
    show "fat16_read_internal_from_stream s (int (hd cs)) (int offset) (int tot) =
      (let out = take n (drop ?k (cluster_data s ?c))
       in if n < tot
          then do {
            (res2, out2, s3) \<leftarrow> fat16_read_internal_from_stream s' (int (hd cs)) (int (offset + n)) (int (tot - n));
            Some (res2, out @ out2, s3)
          }
          else Some (0, out, s'))"
    proof (cases "n < tot")
      case True
      then have cn: "csize s = n" using n by (simp add: min_def split: if_splits)
      have ne: "int tot - int n = int (tot - n)" "0 < int (tot - n)" "int n < int tot" using True sub by simp_all
      show ?thesis using True
        by (subst fat16_read_internal_from_stream.simps)
           (simp add: s1(1) R(1,2) R(3) [unfolded cn] V C(1) mm [unfolded cn] seek [unfolded cn]
             rd [unfolded cn] R(5) [unfolded cn] lt ne cd Let_def cn
             del: of_nat_add of_nat_diff of_nat_less_iff)
    next
      case False
      then have tn: "n = tot" "\<not> int (csize s) < int tot" using n by (simp_all add: min_def split: if_splits)
      show ?thesis
        by (subst fat16_read_internal_from_stream.simps)
           (simp add: s1(1) R(1,2,3) V C(1) mm seek rd [unfolded tn(1)] R(5) [unfolded tn(1)] tn cd Let_def
             del: of_nat_add of_nat_diff of_nat_less_iff)
    qed
  qed
qed

lemma contents_chunk:
  assumes "offset < length cs * csize s" and "offset mod csize s + n \<le> csize s"
  shows "take n (drop (offset mod csize s) (cluster_data s (cs ! (offset div csize s)))) =
         take n (drop offset (contents s cs))"
proof -
  let ?i = "offset div csize s" and ?k = "offset mod csize s"
  have i: "?i < length cs" using assms(1) by (simp add: less_mult_imp_div_less)
  have "drop offset (contents s cs) = drop ?k (drop (?i * csize s) (contents s cs))" by simp
  also have "\<dots> = drop ?k (cluster_data s (cs ! ?i) @ contents s (drop (Suc ?i) cs))"
    using i by (simp only: drop_contents Cons_nth_drop_Suc [symmetric] contents_simps)
  finally show ?thesis using assms(2) by simp
qed

text \<open>
  The reads that return the bytes of the file: from a cluster boundary on, or inside one
  cluster with an offset that the stream supports.
\<close>

definition readable :: "kstate \<Rightarrow> nat \<Rightarrow> nat \<Rightarrow> bool" where
  "readable s offset n \<longleftrightarrow> offset mod csize s = 0
     \<or> offset mod csize s + n \<le> csize s \<and> plain_read (offset mod csize s) n"

lemma readable_chunk:
  assumes "ready s" and "readable s offset tot" and "n = min tot (csize s)"
  shows "offset mod csize s + n \<le> csize s" "plain_read (offset mod csize s) n"
    "n < tot \<Longrightarrow> readable s (offset + n) (tot - n)"
proof -
  have "offset mod csize s + tot \<le> csize s \<and> plain_read (offset mod csize s) tot \<Longrightarrow> n = tot"
    using assms(3) by simp
  then show "offset mod csize s + n \<le> csize s" "plain_read (offset mod csize s) n"
    using assms(2,3) by (auto simp: readable_def plain_read_def)
  show "readable s (offset + n) (tot - n)" if "n < tot"
  proof -
    have n: "n = csize s" using that assms(3) by simp
    then have "offset mod csize s = 0" using assms(2) that by (auto simp: readable_def)
    with n show ?thesis by (simp add: readable_def)
  qed
qed

lemma file_chain_agrees:
  "ready s \<Longrightarrow> agrees s (k_drive s) s' \<Longrightarrow> file_chain s cs \<Longrightarrow> file_chain s' cs"
  using file_chain_step [OF _ table_step_refl] by blast

lemma contents_agrees:
  "ready s \<Longrightarrow> agrees s (k_drive s) s' \<Longrightarrow> contents s' cs = contents s cs"
  using agrees_drive by (intro contents_read agrees_volume(1)) auto

lemma read_internal_eq:
  assumes "ready s" and "file_chain s cs" and "set (tl cs) \<inter> marks12 = {}"
    and "\<And>c. c \<in> set cs \<Longrightarrow> reach s c" and "offset < length cs * csize s"
    and "offset + tot \<le> length cs * csize s" and "readable s offset tot"
  shows "\<exists>s'. fat16_read_internal_from_stream s (int (hd cs)) (int offset) (int tot) =
      Some (0, take tot (drop offset (contents s cs)), s') \<and> agrees s (k_drive s) s'"
  using assms
proof (induction tot arbitrary: s offset rule: less_induct)
  case (less tot)
  define n where "n = min tot (csize s)"
  note R = readable_chunk [OF less.prems(1,7) n_def]
  obtain s1 where s1: "agrees s (k_drive s) s1"
    "fat16_read_internal_from_stream s (int (hd cs)) (int offset) (int tot) =
      (let out = take n (drop (offset mod csize s) (cluster_data s (cs ! (offset div csize s))))
       in if n < tot
          then do {
            (res2, out2, s3) \<leftarrow> fat16_read_internal_from_stream s1 (int (hd cs)) (int (offset + n)) (int (tot - n));
            Some (res2, out @ out2, s3)
          }
          else Some (0, out, s1))"
    by (rule read_step [OF less.prems(1-5) n_def R(1,2)])
  note step = s1(2) [unfolded contents_chunk [OF less.prems(5) R(1)] Let_def]
  show ?case
  proof (cases "n < tot")
    case False
    then have "n = tot" by (simp add: n_def)
    with False step s1(1) show ?thesis by simp
  next
    case True
    note A = agrees_volume [OF s1(1) less.prems(1)] and C = csize_volume [OF agrees_volume(1) [OF s1(1) less.prems(1)]]
    have n: "0 < n" "tot - n < tot" using True csize_pos [OF less.prems(1)] by (auto simp: n_def)
    have prems: "file_chain s1 cs" "\<And>c. c \<in> set cs \<Longrightarrow> reach s1 c" "offset + n < length cs * csize s1"
      "offset + n + (tot - n) \<le> length cs * csize s1" "readable s1 (offset + n) (tot - n)"
      using file_chain_agrees [OF less.prems(1) s1(1) less.prems(2)] less.prems(4,6) C True R(3)
      by (simp_all add: readable_def)
    from less.IH [OF n(2) A(2) prems(1) less.prems(3) prems(2-5)] obtain s' where
      s': "fat16_read_internal_from_stream s1 (int (hd cs)) (int (offset + n)) (int (tot - n)) =
        Some (0, take (tot - n) (drop (offset + n) (contents s cs)), s')" "agrees s1 (k_drive s1) s'"
      unfolding contents_agrees [OF less.prems(1) s1(1)] by blast
    have "take n (drop offset (contents s cs)) @ take (tot - n) (drop (offset + n) (contents s cs))
        = take tot (drop offset (contents s cs))"
      using True by (metis add.commute add_diff_inverse_nat drop_drop less_imp_le_nat linorder_not_less take_add)
    moreover have "agrees s (k_drive s) s'" using agrees_trans [OF s1(1) s'(2)] agrees_drive [OF s1(1)] by simp
    ultimately show ?thesis using True step s'(1) by simp
  qed
qed

section \<open>Writes\<close>

text \<open>
  The clusters a write can use, in the order in which it takes them: \<open>L\<close> is the chain of the
  file followed by the free clusters of the volume. \<open>planned s L n\<close>: the first \<open>n\<close> of them are
  the chain now.
\<close>

definition planned :: "kstate \<Rightarrow> nat list \<Rightarrow> nat \<Rightarrow> bool" where
  "planned s L n \<longleftrightarrow> 0 < n \<and> n \<le> length L \<and> file_chain s (take n L) \<and> free_clusters s = drop n L"

text \<open>
  \<open>only_table s L s'\<close>: from \<open>s\<close> to \<open>s'\<close> no byte behind the tables changed and no entry of a
  cluster outside \<open>L\<close>.
\<close>

definition only_table :: "kstate \<Rightarrow> nat list \<Rightarrow> kstate \<Rightarrow> bool" where
  "only_table s L s' \<longleftrightarrow> (\<exists>f. table_step s f s' \<and> (\<forall>e. e \<notin> set L \<longrightarrow> f e = fat_at s e))"

lemma planned_distinct:
  assumes "ready s" and "planned s L n"
  shows "distinct L" "set L \<subseteq> {2..<2 + clusters s}" "\<And>i. i < length L \<Longrightarrow> in_table s (L ! i)"
proof -
  have L: "L = take n L @ free_clusters s" using assms(2) by (simp add: planned_def)
  have c: "file_chain s (take n L)" using assms(2) by (simp add: planned_def)
  note F = file_chain_facts [OF assms(1) c]
  have "set (take n L) \<inter> set (free_clusters s) = {}"
    using F(6) free_clusters_mem by fastforce
  moreover have "distinct (free_clusters s)" by (simp add: free_clusters_def)
  ultimately have "distinct (take n L @ free_clusters s)" using F(2) by simp
  then show "distinct L" by (simp only: L [symmetric])
  have "set (take n L) \<subseteq> {2..<2 + clusters s}" using c by (simp add: file_chain_def)
  moreover have "set (free_clusters s) \<subseteq> {2..<2 + clusters s}" by (auto simp: free_clusters_mem)
  moreover have "set L = set (take n L) \<union> set (free_clusters s)" by (simp only: set_append [symmetric] L [symmetric])
  ultimately show sub: "set L \<subseteq> {2..<2 + clusters s}" by blast
  show "in_table s (L ! i)" if "i < length L" for i
    using sub nth_mem [OF that] by (intro cluster_in_table [OF assms(1)]) auto
qed

lemma filter_upt_tail:
  assumes "filter P [a..<b] = d # ds" and "\<And>x. x \<in> set [a..<b] \<Longrightarrow> Q x \<longleftrightarrow> P x \<and> x \<noteq> d"
  shows "filter Q [a..<b] = ds"
proof -
  have "filter Q [a..<b] = filter (\<lambda>x. x \<noteq> d) (filter P [a..<b])"
    using assms(2) by (auto simp: filter_filter intro: filter_cong)
  moreover have "d \<notin> set ds" using assms(1) by (metis distinct.simps(2) distinct_filter distinct_upt)
  ultimately show ?thesis using assms(1) by (simp add: filter_id_conv) (metis filter_True)
qed

lemma planned_same:
  assumes "ready s" and "planned s L n" and "table_step s (fat_at s) s'"
  shows "planned s' L n"
  using assms file_chain_step [OF assms(1,3)] free_clusters_same [OF assms(1,3)]
  by (simp add: planned_def)

lemma planned_extend:
  assumes "ready s" and "planned s L n" and "n < length L"
    and "table_step s ((fat_at s)(L ! n := 0xFFFF, L ! (n - 1) := L ! n)) s'"
  shows "planned s' L (Suc n)"
proof -
  let ?d = "L ! n"
  note P = planned_distinct [OF assms(1,2)] and D = table_stepD [OF assms(4,1)]
  have n: "0 < n" "file_chain s (take n L)" "free_clusters s = ?d # drop (Suc n) L"
    using assms(2,3) by (simp_all add: planned_def Cons_nth_drop_Suc)
  have "take n L \<noteq> []" using n(1) assms(3) by auto
  then have lst: "last (take n L) = L ! (n - 1)" using n(1) assms(3) by (simp add: last_conv_nth min_def)
  have d: "?d \<notin> set (take n L)" "?d \<noteq> L ! (n - 1)"
    using P(1) assms(3) n(1) by (auto simp: in_set_conv_nth nth_eq_iff_index_eq)
  have tk: "take (Suc n) L = take n L @ [?d]" using assms(3) by (simp add: take_Suc_conv_app_nth)
  let ?f = "(fat_at s)(?d := 0xFFFF, L ! (n - 1) := ?d)"
  have "chain ?f (take n L @ [?d])"
    using chain_append [of "fat_at s" "take n L" ?d "0xFFFF"] n(2) d(1) P(1) lst by (simp add: file_chain_def)
  moreover have "fat_at s' e = ?f e" if "e \<in> set (take (Suc n) L)" for e
  proof -
    from that obtain i where "i < length L" "e = L ! i" by (metis in_set_conv_nth in_set_takeD)
    with P(3) D(5) show ?thesis by blast
  qed
  then have "chain (fat_at s') (take (Suc n) L) = chain ?f (take (Suc n) L)" by (rule chain_cong)
  ultimately have "file_chain s' (take (Suc n) L)"
    using P(2) same_volume_geometry(7) [OF D(2)] tk set_take_subset [of "Suc n" L]
    by (simp only: file_chain_def) blast
  moreover have "free_clusters s' = drop (Suc n) L"
    unfolding free_clusters_step [OF assms(1,4)]
  proof (rule filter_upt_tail)
    show "filter (\<lambda>c. fat_at s c = 0) [2..<2 + clusters s] = ?d # drop (Suc n) L"
      using n(3) by (simp only: free_clusters_def)
    have "L ! (n - 1) \<in> set (take n L)" using lst n(1) assms(3) by (metis gr_implies_not0 last_in_set list.size(3) take_eq_Nil)
    then have "fat_at s (L ! (n - 1)) \<noteq> 0" using file_chain_facts(6) [OF assms(1) n(2)] by blast
    moreover have "?d \<noteq> 0" using P(2) assms(3) nth_mem by fastforce
    ultimately show "(?f x = 0) = (fat_at s x = 0 \<and> x \<noteq> ?d)" if "x \<in> set [2..<2 + clusters s]" for x
      using d(2) by auto
  qed
  ultimately show ?thesis using assms(3) by (simp add: planned_def)
qed

lemma only_table_trans:
  assumes "only_table s L s1" and "only_table s1 L s2" and "ready s"
  shows "only_table s L s2"
proof -
  from assms(1,2) obtain f g where *: "table_step s f s1" "\<And>e. e \<notin> set L \<Longrightarrow> f e = fat_at s e"
    "table_step s1 g s2" "\<And>e. e \<notin> set L \<Longrightarrow> g e = fat_at s1 e"
    by (auto simp: only_table_def)
  let ?h = "\<lambda>e. if e \<in> set L then g e else fat_at s e"
  have "table_step s ?h s2"
    using table_step_trans [OF *(1,3) assms(3)] by (rule table_step_cong)
      (use *(2,4) table_stepD(5) [OF *(1) assms(3)] in auto)
  then show ?thesis by (auto simp: only_table_def)
qed

lemma next_or_new_eq:
  assumes "ready s" and "planned s L n" and "i < n" and "Suc i < length L"
  shows "\<exists>s'. next_or_new s (int (L ! i)) = Some (int (L ! Suc i), s')
     \<and> planned s' L (max n (Suc (Suc i))) \<and> only_table s L s'"
proof -
  note P = planned_distinct [OF assms(1,2)]
  have N: "clusters s + 2 \<le> 0xFFF8" using assms(1) by (simp add: ready_def geometry_ok_def)
  have rng: "2 \<le> L ! k \<and> L ! k < 0xFFF8" if "k < length L" for k
    using P(2) N nth_mem [OF that] by auto
  have il: "i < length L" "n \<le> length L" using assms(2-4) by (simp_all add: planned_def)
  have c: "chain (fat_at s) (take n L)" using assms(2) by (simp add: planned_def file_chain_def)
  show ?thesis
  proof (cases "Suc i < n")
    case True
    have nxt: "fat_at s (L ! i) = L ! Suc i" using chain_nth [OF c, of i] True il by simp
    from ft.move_inside [OF assms(1) P(3) [OF il(1)] nxt] rng [OF assms(4)] obtain s1 where
      s1: "fat16_get_fat_entry s (int (L ! i)) = Some (int (L ! Suc i), s1)"
      "\<not> (int (L ! Suc i) < 2 \<or> int (L ! Suc i) \<ge> 0xFFF8)" "table_step s (fat_at s) s1"
      by blast
    have "next_or_new s (int (L ! i)) = Some (int (L ! Suc i), s1)"
      using s1(1,2) by (auto simp: next_or_new_def)
    moreover have "only_table s L s1" using s1(3) by (auto simp: only_table_def)
    moreover have "max n (Suc (Suc i)) = n" using True by simp
    ultimately show ?thesis using planned_same [OF assms(1,2) s1(3)] by auto
  next
    case False
    then have n: "n = Suc i" using assms(3) by simp
    have "last (take n L) = L ! i" using n il by (simp add: take_Suc_conv_app_nth)
    with chain_last [OF c] have eoc: "0xFFF8 \<le> fat_at s (L ! i)" by simp
    have fr: "free_clusters s = L ! Suc i # drop (Suc (Suc i)) L"
      using assms(2,4) n by (simp add: planned_def Cons_nth_drop_Suc)
    have rng_i: "2 \<le> L ! i" using rng [OF il(1)] by simp
    from ft.move_extend [OF assms(1) P(3) [OF il(1)] rng_i eoc fr free_clusters_same [OF assms(1)]]
    obtain s1 s2 where s2: "fat16_get_fat_entry s (int (L ! i)) = Some (int (fat_at s (L ! i)), s1)"
      "fat16_alloc_cluster s1 (int (L ! i)) = Some (int (L ! Suc i), s2)"
      "table_step s ((fat_at s)(L ! Suc i := 0xFFFF, L ! i := L ! Suc i)) s2"
      by blast
    have "next_or_new s (int (L ! i)) = Some (int (L ! Suc i), s2)"
      using s2(1,2) eoc by (simp add: next_or_new_def)
    moreover have "planned s2 L (Suc n)"
      using planned_extend [OF assms(1,2)] s2(3) n assms(4) by simp
    moreover have "only_table s L s2"
      unfolding only_table_def using s2(3) il(1) assms(4)
      by (intro exI [of _ "(fat_at s)(L ! Suc i := 0xFFFF, L ! i := L ! Suc i)"]) auto
    ultimately show ?thesis using n by (auto simp: max_def)
  qed
qed

text \<open>
  \<open>file_step s L s'\<close>: what a write to the file with the clusters \<open>L\<close> leaves alone: the entries
  and the data of all other clusters, the root directory, and the rest of the state.
\<close>

definition file_step :: "kstate \<Rightarrow> nat list \<Rightarrow> kstate \<Rightarrow> bool" where
  "file_step s L s' \<longleftrightarrow> agrees s (k_drive s') s'
     \<and> (\<forall>e. in_table s e \<and> e \<notin> set L \<longrightarrow> fat_at s' e = fat_at s e)
     \<and> (mirrored s \<longrightarrow> mirrored s')
     \<and> (\<forall>a. 512 * (rsv s + 2 * spf s) \<le> a \<and> a < 512 * data_sec s \<longrightarrow> k_drive s' a = k_drive s a)
     \<and> (\<forall>c. 2 \<le> c \<and> c \<notin> set L \<longrightarrow> cluster_data s' c = cluster_data s c)"

lemma file_stepD:
  assumes "file_step s L s'" and "ready s"
  shows "ready s'" "same_volume s s'" "k_heap s' = k_heap s"
    "fp_root_directory (priv s') = fp_root_directory (priv s)"
  using assms agrees_volume [of s _ s'] agrees_keeps(1) [of s _ s'] by (auto simp: file_step_def)

lemma file_step_refl [simp]: "file_step s L s"
  by (simp add: file_step_def)

lemma file_step_trans:
  assumes "file_step s L s1" and "file_step s1 L s2" and "ready s"
  shows "file_step s L s2"
  using assms(1,2) agrees_trans [of s "k_drive s1" s1 "k_drive s2" s2] file_stepD(2) [OF assms(1,3)]
    same_volume_geometry [OF file_stepD(2) [OF assms(1,3)]] agrees_offs(3) [OF file_stepD(2) [OF assms(1,3)]]
  by (simp add: file_step_def)

lemma only_table_step:
  assumes "only_table s L s'" and "ready s"
  shows "file_step s L s'" "contents s' cs = contents s cs"
proof -
  from assms(1) obtain f where f: "table_step s f s'" "\<And>e. e \<notin> set L \<Longrightarrow> f e = fat_at s e"
    by (auto simp: only_table_def)
  note D = table_stepD [OF f(1) assms(2)]
  have same: "k_drive s' a = k_drive s a" if "512 * data_sec s \<le> a" for a
    using D(6) that data_after_tables [OF assms(2)] by simp
  show "contents s' cs = contents s cs" by (rule contents_read [OF D(2) same])
  show "file_step s L s'"
    using f D cluster_data_read [OF D(2) same] by (simp add: file_step_def table_step_def)
qed

lemma write_cluster_data_eq:
  assumes "ready s" and "reach s c" and "k + n \<le> csize s" and "n \<le> length buf"
  shows "\<exists>s'. fat16_write_cluster_data s (int c) k buf n = Some (0, s')
     \<and> agrees s (write_bytes (k_drive s) (data_pos s c + k) (take n buf)) s'"
proof -
  obtain p st where p: "dk_fs_private (k_disk s) = Some p" "fp_cluster_write_stream p = Some st" "stream_ok (Some st)"
    using assms(1) by (auto simp: ready_def streams_ok_def stream_ok_def priv_def split: option.splits)
  note V = volume_size [OF assms(1) p(1)]
  let ?q = "data_pos s c + k"
  have q: "?q + n < 2 ^ 37" using assms(2,3) by (simp add: reach_def)
  have "k \<le> csize s" "n < 2 ^ 31" using assms(3) csize_bound [of s] by simp_all
  then have pos: "s32 (fat16_cluster_to_sector p (int c) * 512 + int k) = int ?q" "s32 (int n) = int n"
    using cluster_position [OF assms(1,2), unfolded V(3), of k] by (simp_all add: s32_int)
  have seek: "diskstreamer_seek st (int ?q) = (0, \<lparr>ds_pos = int ?q, ds_disk = 0\<rparr>)"
    using p(3) by (cases st) (simp add: diskstreamer_seek_def stream_ok_def)
  have "still_private (p\<lparr>fp_cluster_write_stream := Some \<lparr>ds_pos = int (?q + n), ds_disk = 0\<rparr>\<rparr>) = still_private p"
    using still_seek [OF p(3)] p(2) by (simp add: still_private_def)
  note put = agrees_put [OF p(1) this]
  show ?thesis
    using write_eq [OF q assms(4), of "k_drive s"] put
    by (simp add: fat16_write_cluster_data_def p(1,2) V(2) pos seek del: of_nat_add)
qed

text \<open>A write into one cluster patches the bytes of the file there.\<close>

lemma cluster_data_write:
  assumes vol: "same_volume s s'" and d: "k_drive s' = write_bytes (k_drive s) (data_pos s c + k) bs"
    and k: "k + length bs \<le> csize s"
  shows "cluster_data s' c = patch (cluster_data s c) k bs"
    and "c' \<noteq> c \<Longrightarrow> 2 \<le> c \<Longrightarrow> 2 \<le> c' \<Longrightarrow> cluster_data s' c' = cluster_data s c'"
proof -
  note V = csize_volume [OF vol]
  show "cluster_data s' c = patch (cluster_data s c) k bs"
    using k by (intro nth_equalityI) (auto simp: cluster_data_def V d nth_patch write_bytes_def)
  assume "c' \<noteq> c" "2 \<le> c" "2 \<le> c'"
  then have "data_pos s c' + csize s \<le> data_pos s c + k \<or> data_pos s c + k + length bs \<le> data_pos s c'"
    using data_pos_disjoint [of c' c s] k by auto
  then show "cluster_data s' c' = cluster_data s c'"
    unfolding cluster_data_def V d by (rule bytes_at_write_bytes_disjoint)
qed

lemma patch_middle:
  "k + length bs \<le> length ys \<Longrightarrow> patch (xs @ ys @ zs) (length xs + k) bs = xs @ patch ys k bs @ zs"
  by (simp add: patch_def)

lemma contents_patch:
  assumes vol: "same_volume s s'" and d: "k_drive s' = write_bytes (k_drive s) (data_pos s (L ! i) + k) bs"
    and L: "distinct L" "set L \<subseteq> {2..}" and i: "i < length L" and k: "k + length bs \<le> csize s"
  shows "contents s' L = patch (contents s L) (i * csize s + k) bs"
proof -
  let ?c = "L ! i" and ?A = "take i L" and ?B = "drop (Suc i) L"
  have split: "L = ?A @ ?c # ?B" using i by (rule id_take_nth_drop)
  have "distinct (?A @ ?c # ?B)" using L(1) by (simp only: split [symmetric])
  then have notin: "?c \<notin> set ?A" "?c \<notin> set ?B" by (simp_all only: distinct_append distinct.simps) auto
  have two: "2 \<le> e" if "e \<in> set L" for e using L(2) that by auto
  have sub: "set ?A \<subseteq> set L" "set ?B \<subseteq> set L" "?c \<in> set L" using i by (auto dest: in_set_takeD in_set_dropD)
  have other: "contents s' X = contents s X" if "set X \<subseteq> set L" "?c \<notin> set X" for X
  proof -
    have "cluster_data s' e = cluster_data s e" if "e \<in> set X" for e
      using cluster_data_write(2) [OF vol d k, of e] two sub(3) \<open>set X \<subseteq> set L\<close> \<open>?c \<notin> set X\<close> that by blast
    then show ?thesis unfolding contents_def by (intro arg_cong [of _ _ concat] map_cong) auto
  qed
  have app: "contents t (X @ c # Y) = contents t X @ cluster_data t c @ contents t Y" for t X c Y
    by (simp add: contents_def)
  have "contents s' (?A @ ?c # ?B) = contents s ?A @ patch (cluster_data s ?c) k bs @ contents s ?B"
    unfolding app using other [OF sub(1) notin(1)] other [OF sub(2) notin(2)] cluster_data_write(1) [OF vol d k]
    by simp
  also have "\<dots> = patch (contents s ?A @ cluster_data s ?c @ contents s ?B) (length (contents s ?A) + k) bs"
    using k by (simp only: patch_middle length_cluster_data)
  also have "\<dots> = patch (contents s (?A @ ?c # ?B)) (i * csize s + k) bs"
    unfolding app using i by simp
  finally show ?thesis by (simp only: split [symmetric])
qed

lemma data_write_step:
  assumes "ready s" and "planned s L n" and "i < length L" and "reach s (L ! i)"
    and "k + m \<le> csize s" and "m \<le> length buf"
  shows "\<exists>s'. fat16_write_cluster_data s (int (L ! i)) k buf m = Some (0, s') \<and> planned s' L n
     \<and> file_step s L s' \<and> contents s' L = patch (contents s L) (i * csize s + k) (take m buf)"
proof -
  note P = planned_distinct [OF assms(1,2)]
  let ?bs = "take m buf" and ?q = "data_pos s (L ! i) + k"
  from write_cluster_data_eq [OF assms(1,4,5,6)] obtain s' where
    s': "fat16_write_cluster_data s (int (L ! i)) k buf m = Some (0, s')"
    "agrees s (write_bytes (k_drive s) ?q ?bs) s'" by blast
  note V = agrees_volume [OF s'(2) assms(1)] and d = agrees_drive [OF s'(2)]
  have len: "k + length ?bs \<le> csize s" using assms(5,6) by simp
  have low: "k_drive s' a = k_drive s a" if "a < 512 * data_sec s" for a
    unfolding d using that by (intro write_bytes_outside) (auto simp: data_pos_def)
  have tab: "fat_at s' e = fat_at s e" "fat2_at s' e = fat2_at s e" if "in_table s e" for e
  proof -
    have "fat2_off s e + 2 \<le> 512 * data_sec s" "fat_off s e + 2 \<le> 512 * data_sec s"
      using that data_after_tables [OF assms(1)] by (simp_all add: in_table_def fat_off_def fat2_off_def)
    then show "fat_at s' e = fat_at s e" "fat2_at s' e = fat2_at s e"
      unfolding fat_at_def fat2_at_def word16_at_def agrees_offs [OF V(1)]
      using low by (auto intro!: arg_cong [of _ _ le16] simp del: upt_rec_numeral)
  qed
  have two: "set L \<subseteq> {2..}" "2 \<le> L ! i" using P(2) nth_mem [OF assms(3)] by auto
  have "cluster_data s' c = cluster_data s c" if "2 \<le> c" "c \<notin> set L" for c
    using cluster_data_write(2) [OF V(1) d len _ two(2) that(1)] that nth_mem [OF assms(3)] by metis
  then have "file_step s L s'"
    using s'(2) d tab low agrees_offs(3) [OF V(1)] by (simp add: file_step_def mirrored_def)
  moreover have "file_chain s' (take n L)"
  proof -
    have "chain (fat_at s') (take n L) = chain (fat_at s) (take n L)"
      using P(3) tab by (intro chain_cong) (metis in_set_conv_nth in_set_takeD)
    then show ?thesis using assms(2) same_volume_geometry [OF V(1)] by (simp add: planned_def file_chain_def)
  qed
  moreover have "free_clusters s' = free_clusters s"
    unfolding free_clusters_def same_volume_geometry [OF V(1)]
    using tab(1) cluster_in_table [OF assms(1)] by (intro filter_cong) auto
  moreover have "contents s' L = patch (contents s L) (i * csize s + k) ?bs"
    by (rule contents_patch [OF V(1) d P(1) two(1) assms(3) len])
  ultimately show ?thesis using s'(1) assms(2) by (auto simp: planned_def)
qed

lemma write_walk_eq:
  assumes "ready s" and "planned s L n" and "i < n" and "i + k < length L"
  shows "\<exists>s'. write_walk s k (int (L ! i)) = Some (Inr (int (L ! (i + k))), s')
     \<and> planned s' L (max n (Suc (i + k))) \<and> only_table s L s'"
  using assms
proof (induction k arbitrary: s n i)
  case 0
  moreover have "only_table s L s" using table_step_refl [OF agrees_refl 0(1)] by (auto simp: only_table_def)
  moreover have "max n (Suc i) = n" using 0(3) by simp
  ultimately show ?case by simp
next
  case (Suc k)
  from next_or_new_eq [OF Suc.prems(1-3)] Suc.prems(4) obtain s1 where
    s1: "next_or_new s (int (L ! i)) = Some (int (L ! Suc i), s1)" "planned s1 L (max n (Suc (Suc i)))" "only_table s L s1"
    by auto
  have r1: "ready s1" using file_stepD(1) only_table_step(1) [OF s1(3) Suc.prems(1)] Suc.prems(1) by blast
  have lt: "Suc i < max n (Suc (Suc i))" by (simp add: less_max_iff_disj)
  from Suc.IH [OF r1 s1(2) lt] Suc.prems(4) obtain s' where
    s': "write_walk s1 k (int (L ! Suc i)) = Some (Inr (int (L ! (Suc i + k))), s')"
    "planned s' L (max (max n (Suc (Suc i))) (Suc (Suc i + k)))" "only_table s1 L s'"
    by auto
  moreover have "max (max n (Suc (Suc i))) (Suc (Suc i + k)) = max n (Suc (i + Suc k))" by simp
  ultimately show ?case using s1 only_table_trans [OF s1(3) s'(3) Suc.prems(1)] by simp
qed

definition clusters_for :: "kstate \<Rightarrow> nat \<Rightarrow> nat" where
  "clusters_for s x = (x + csize s - 1) div csize s"

lemma clusters_for_le: "0 < csize s \<Longrightarrow> x \<le> i * csize s \<Longrightarrow> clusters_for s x \<le> i"
proof -
  assume "0 < csize s" "x \<le> i * csize s"
  then have "x + csize s - 1 < Suc i * csize s" by simp
  then have "clusters_for s x < Suc i" unfolding clusters_for_def by (rule less_mult_imp_div_less)
  then show ?thesis by simp
qed

lemma clusters_for_ge: "0 < csize s \<Longrightarrow> i * csize s < x \<Longrightarrow> Suc i \<le> clusters_for s x"
proof -
  assume z: "0 < csize s" "i * csize s < x"
  then have "Suc i * csize s \<le> x + csize s - 1" by simp
  then have "Suc i * csize s div csize s \<le> clusters_for s x" unfolding clusters_for_def by (rule div_le_mono)
  with z show ?thesis by simp
qed

lemma write_loop_eq:
  assumes "ready s" and "planned s L n" and "i < n" and "off < csize s" and "left \<le> length src"
    and "i * csize s + off + left \<le> length L * csize s"
    and "\<And>j. j * csize s < i * csize s + off + left \<Longrightarrow> reach s (L ! j)"
  shows "\<exists>s'. write_loop s (csize s) (int (L ! i)) off src w left = Some (s32 (int (w + left)), s')
     \<and> planned s' L (max n (clusters_for s (i * csize s + off + left))) \<and> file_step s L s'
     \<and> contents s' L = patch (contents s L) (i * csize s + off) (take left src)"
  using assms
proof (induction left arbitrary: s n i off src w rule: less_induct)
  case (less left)
  let ?z = "csize s"
  have z: "0 < ?z" using csize_pos [OF less.prems(1)] .
  have il: "i < length L" using less.prems(2,3) by (simp add: planned_def)
  show ?case
  proof (cases "0 < left")
    case False
    have "clusters_for s (i * ?z + off + left) \<le> Suc i" using False less.prems(4) z by (intro clusters_for_le) auto
    then have "max n (clusters_for s (i * ?z + off + left)) = n" using less.prems(3) by simp
    with False less.prems(2) show ?thesis by (subst write_loop.simps) simp
  next
    case pos: True
    define m where "m = (if left < ?z - off then left else ?z - off)"
    have m: "0 < m" "m \<le> left" "off + m \<le> ?z" "m < left \<Longrightarrow> off + m = ?z"
      using pos less.prems(4) by (auto simp: m_def)
    have "i * ?z < i * ?z + off + left" using pos by simp
    then have "reach s (L ! i)" by (rule less.prems(7))
    from data_write_step [OF less.prems(1,2) il this m(3), of src] m(2) less.prems(5) obtain s1 where
      s1: "fat16_write_cluster_data s (int (L ! i)) off src m = Some (0, s1)" "planned s1 L n" "file_step s L s1"
      "contents s1 L = patch (contents s L) (i * ?z + off) (take m src)"
      by auto
    note D1 = file_stepD [OF s1(3) less.prems(1)] and V1 = csize_volume [OF file_stepD(2) [OF s1(3) less.prems(1)]]
    show ?thesis
    proof (cases "m < left")
      case False
      then have ml: "m = left" using m(2) by simp
      have "clusters_for s (i * ?z + off + left) \<le> Suc i" using m(3) ml z by (intro clusters_for_le) auto
      then have mx: "max n (clusters_for s (i * ?z + off + left)) = n" using less.prems(3) by simp
      have "write_loop s ?z (int (L ! i)) off src w left = write_loop s1 ?z (int (L ! i)) 0 (drop m src) (w + m) 0"
        using pos s1(1) ml m_def by (subst write_loop.simps) (simp add: Let_def)
      also have "\<dots> = Some (s32 (int (w + left)), s1)" using ml by (subst write_loop.simps) simp
      finally show ?thesis using s1 mx ml by simp
    next
      case more: True
      have full: "off + m = ?z" using m(4) more by simp
      have tot: "i * ?z + off + left = Suc i * ?z + 0 + (left - m)" using full more by simp
      then have "Suc i * ?z < length L * ?z" using less.prems(6) more by simp
      then have "Suc i < length L" by (simp only: mult_less_cancel2)
      from next_or_new_eq [OF D1(1) s1(2) less.prems(3) this] obtain s2 where
        s2: "next_or_new s1 (int (L ! i)) = Some (int (L ! Suc i), s2)" "planned s2 L (max n (Suc (Suc i)))"
        "only_table s1 L s2" by blast
      note T = only_table_step [OF s2(3) D1(1)]
      note st2 = file_step_trans [OF s1(3) T(1) less.prems(1)]
      note D2 = file_stepD [OF st2 less.prems(1)] and V2 = csize_volume [OF file_stepD(2) [OF st2 less.prems(1)]]
      have "left - m < left" "Suc i < max n (Suc (Suc i))" "0 < csize s2" "left - m \<le> length (drop m src)"
        "Suc i * csize s2 + 0 + (left - m) \<le> length L * csize s2"
        using m(1) pos z less.prems(5,6) tot V2(1) by (simp_all add: less_max_iff_disj)
      moreover have "reach s2 (L ! j)" if "j * csize s2 < Suc i * csize s2 + 0 + (left - m)" for j
        using that less.prems(7) tot V2 by simp
      moreover have "w + m + (left - m) = w + left" using m(2) by simp
      ultimately obtain s' where s': "write_loop s2 ?z (int (L ! Suc i)) 0 (drop m src) (w + m) (left - m)
           = Some (s32 (int (w + left)), s')"
        "planned s' L (max (max n (Suc (Suc i))) (clusters_for s2 (Suc i * ?z + 0 + (left - m))))" "file_step s2 L s'"
        "contents s' L = patch (contents s2 L) (Suc i * ?z + 0) (take (left - m) (drop m src))"
        using less.IH [of "left - m" s2 "max n (Suc (Suc i))" "Suc i" 0 "drop m src" "w + m"] D2(1) s2(2) V2(1)
        by auto
      have "Suc (Suc i) \<le> clusters_for s (i * ?z + off + left)" using tot more z by (intro clusters_for_ge) auto
      moreover have "clusters_for s2 x = clusters_for s x" for x by (simp add: clusters_for_def V2(1))
      ultimately have mx: "max (max n (Suc (Suc i))) (clusters_for s2 (Suc i * ?z + 0 + (left - m)))
          = max n (clusters_for s (i * ?z + off + left))"
        by (simp only: tot)
      have run: "write_loop s ?z (int (L ! i)) off src w left =
          write_loop s2 ?z (int (L ! Suc i)) 0 (drop m src) (w + m) (left - m)"
        using pos s1(1) s2(1) more m_def by (subst write_loop.simps) (simp add: Let_def)
      have "contents s' L = patch (patch (contents s L) (i * ?z + off) (take m src)) (i * ?z + off + m)
          (take (left - m) (drop m src))"
      proof -
        have "i * ?z + off + m = Suc i * ?z + 0" using full by simp
        with s'(4) show ?thesis by (simp only: T(2) s1(4))
      qed
      also have "\<dots> = patch (contents s L) (i * ?z + off) (take m src @ take (left - m) (drop m src))"
        using patch_patch [of "i * ?z + off" "take m src" "take (left - m) (drop m src)" "contents s L"]
          less.prems(5,6) m(2) by simp
      also have "take m src @ take (left - m) (drop m src) = take left src"
        using take_add [of m "left - m" src] m(2) by simp
      finally show ?thesis
        using run s'(1,2) mx file_step_trans [OF st2 s'(3) less.prems(1)] by simp
    qed
  qed
qed

text \<open>Another file: its chain and its bytes stay.\<close>

lemma file_step_other:
  assumes "ready s" and "file_step s L s'" and "file_chain s ds" and "set ds \<inter> set L = {}"
  shows "file_chain s' ds" "contents s' ds = contents s ds"
proof -
  note F = file_chain_facts [OF assms(1,3)]
  have "chain (fat_at s') ds = chain (fat_at s) ds"
    using assms(2,4) F(3) by (intro chain_cong) (auto simp: file_step_def)
  then show "file_chain s' ds"
    using assms(3) same_volume_geometry(7) [OF file_stepD(2) [OF assms(2,1)]] by (simp add: file_chain_def)
  have "cluster_data s' c = cluster_data s c" if "c \<in> set ds" for c
    using assms(2,4) F(4) [OF that] that by (auto simp: file_step_def)
  then show "contents s' ds = contents s ds" unfolding contents_def by (simp cong: map_cong)
qed

text \<open>The first cluster of a file: zero before anything was written.\<close>

definition first_of :: "nat list \<Rightarrow> u32" where
  "first_of cs = (if cs = [] then 0 else word_of_nat (hd cs))"

definition file_at :: "kstate \<Rightarrow> nat list \<Rightarrow> bool" where
  "file_at s cs \<longleftrightarrow> cs = [] \<or> file_chain s cs"

lemma first_of_cluster:
  assumes "ready s" and "file_chain s cs"
  shows "first_of cs \<noteq> 0" "sint (first_of cs) = int (hd cs)" "unat (first_of cs) = hd cs"
proof -
  have c: "2 \<le> hd cs" "hd cs < 0xFFF8"
    using file_chain_facts(1,4) [OF assms] by simp_all
  show "sint (first_of cs) = int (hd cs)"
    using sint_word_of_int_u32 [of "int (hd cs)"] c file_chain_facts(1) [OF assms] by (simp add: first_of_def)
  then show "first_of cs \<noteq> 0" using c(1) by auto
  show "unat (first_of cs) = hd cs"
    using c(2) file_chain_facts(1) [OF assms] by (simp add: first_of_def unsigned_of_nat take_bit_nat_eq_self_iff)
qed

lemma alloc_first:
  assumes "ready s" and "free_clusters s \<noteq> []"
  shows "\<exists>s'. fat16_alloc_cluster s (- 1) = Some (int (hd (free_clusters s)), s')
     \<and> planned s' (free_clusters s) 1 \<and> only_table s (free_clusters s) s'"
proof -
  obtain c cs where c: "free_clusters s = c # cs" using assms(2) by (cases "free_clusters s") auto
  have "(- 1 :: int) < 2" by simp
  obtain s' where s': "fat16_alloc_cluster s (- 1) = Some (int c, s')" "table_step s ((fat_at s)(c := 0xFFFF)) s'"
    using alloc_cluster_eq [OF assms(1) c, of "- 1" 0] by auto
  note D = table_stepD [OF s'(2) assms(1)]
  have mem: "c \<in> set (free_clusters s)" using c by simp
  note E = free_clusters_entry [OF assms(1) mem] and M = iffD1 [OF free_clusters_mem mem]
  have "file_chain s' [c]"
    using D(5) [of c] E M same_volume_geometry(7) [OF D(2)] by (simp add: file_chain_def)
  moreover have "free_clusters s' = cs"
    unfolding free_clusters_step [OF assms(1) s'(2)]
    by (rule filter_upt_tail [of "\<lambda>c. fat_at s c = 0" _ _ c]) (use c in \<open>auto simp: free_clusters_def\<close>)
  ultimately have "planned s' (free_clusters s) 1" by (simp add: planned_def c)
  moreover have "only_table s (free_clusters s) s'"
    unfolding only_table_def using s'(2) c by (intro exI [of _ "(fat_at s)(c := 0xFFFF)"]) auto
  ultimately show ?thesis using s'(1) c by auto
qed

lemma take_contents: "take (k * csize s) (contents s L) = contents s (take k L)"
proof (induction L arbitrary: k)
  case (Cons c L)
  then show ?case by (cases k) (simp_all add: contents_simps)
qed (simp add: contents_def)

lemma contents_patch_prefix:
  assumes "contents s' L = patch (contents s L) k bs" and "csize s' = csize s" and "k + length bs \<le> n * csize s"
    and "n \<le> length L"
  shows "contents s' (take n L) = patch (contents s (take n L)) k bs"
proof -
  have "n * csize s \<le> length (contents s L)" using assms(4) by (simp add: mult_le_mono1)
  then have "take (n * csize s) (patch (contents s L) k bs) = patch (take (n * csize s) (contents s L)) k bs"
    using assms(3) by (intro take_patch)
  then show ?thesis using take_contents [of n s' L] take_contents [of n s L] assms(1,2) by simp
qed

lemma clusters_for_cover: "0 < csize s \<Longrightarrow> x \<le> clusters_for s x * csize s"
  using clusters_for_ge [of s "clusters_for s x" x] by (meson not_less not_less_eq_eq order_refl)

text \<open>Up to the write loop: the first cluster is allocated, or the chain is walked.\<close>

lemma write_start:
  assumes "ready s" and "file_at s cs" and L: "L = cs @ free_clusters s" and "off < 2 ^ 32"
    and "length data < 2 ^ 31" and "cs = [] \<Longrightarrow> off < csize s" and i: "i = off div csize s" "i < length L"
  shows "\<exists>s1. planned s1 L (max (length cs) (Suc i)) \<and> only_table s L s1
      \<and> fat16_write_internal s (first_of cs) (word_of_nat off) data (word_of_nat (length data)) =
         do { (res, s2) \<leftarrow> write_loop s1 (csize s) (int (L ! i)) (off mod csize s) data 0 (length data);
              Some (res, first_of L, s2) }"
proof -
  let ?z = "csize s"
  obtain p where p: "dk_fs_private (k_disk s) = Some p" using assms(1) by (auto simp: ready_def)
  have z: "0 < ?z" "u32 (size_of_cluster_bytes s p) = int ?z"
    using csize_pos [OF assms(1)] csize_bound [of s] volume_size(1) [OF assms(1) p] by (simp_all add: u32_int)
  have un: "unat (word_of_nat off :: u32) = off" "unat (word_of_nat (length data) :: u32) = length data"
    using assms(4,5) by (simp_all add: unsigned_of_nat take_bit_nat_eq_self_iff)
  have "L \<noteq> []" using i(2) by auto
  then have hdL: "hd L = L ! 0" "L \<noteq> []" by (simp_all add: hd_conv_nth)
  show ?thesis
  proof (cases "cs = []")
    case True
    then have fr: "free_clusters s = L" using L by simp
    from alloc_first [OF assms(1)] fr hdL(2) obtain s1 where
      s1: "fat16_alloc_cluster s (- 1) = Some (int (hd L), s1)" "planned s1 L 1" "only_table s L s1" by auto
    moreover have "i = 0" using assms(6) True i(1) by simp
    ultimately show ?thesis
      using True z un p hdL i(1)
      by (intro exI [of _ s1]) (simp add: fat16_write_internal_def first_of_def Let_def)
  next
    case False
    then have ch: "file_chain s cs" using assms(2) by (simp add: file_at_def)
    have pl: "planned s L (length cs)" using ch False L by (simp add: planned_def)
    have "0 + i < length L" "0 < length cs" using i(2) False by simp_all
    from write_walk_eq [OF assms(1) pl this(2,1)] obtain s1 where
      s1: "write_walk s i (int (L ! 0)) = Some (Inr (int (L ! i)), s1)"
      "planned s1 L (max (length cs) (Suc i))" "only_table s L s1" by auto
    have "hd cs = L ! 0" "first_of L = first_of cs"
      using False L by (auto simp: first_of_def hd_append hd_conv_nth nth_append)
    then show ?thesis
      using s1 first_of_cluster [OF assms(1) ch] z un p i(1)
      by (intro exI [of _ s1]) (simp add: fat16_write_internal_def Let_def)
  qed
qed

text \<open>
  The whole write. The chain of the file afterwards is the old chain followed by as many of
  the first free clusters as the written range needs; the file holds the data at the offset,
  and elsewhere what its clusters held before.
\<close>

lemma write_internal_eq:
  assumes "ready s" and "file_at s cs" and L: "L = cs @ free_clusters s"
    and "off < 2 ^ 32" and "length data < 2 ^ 31" and "cs = [] \<Longrightarrow> off < csize s"
    and m: "m = max (length cs) (max (Suc (off div csize s)) (clusters_for s (off + length data)))" and "m \<le> length L"
    and reach: "\<And>c. c \<in> set (take m L) \<Longrightarrow> reach s c"
  shows "\<exists>s'. fat16_write_internal s (first_of cs) (word_of_nat off) data (word_of_nat (length data)) =
        Some (int (length data), first_of (take m L), s')
     \<and> file_chain s' (take m L) \<and> file_step s L s'
     \<and> contents s' (take m L) = patch (contents s (take m L)) off data \<and> free_clusters s' = drop m L"
proof -
  let ?z = "csize s" and ?i = "off div csize s" and ?o = "off mod csize s"
  let ?n = "max (length cs) (Suc ?i)"
  have z: "0 < ?z" using csize_pos [OF assms(1)] .
  have "clusters_for s (off + length data) \<le> m" unfolding m by simp
  then have "clusters_for s (off + length data) * ?z \<le> m * ?z" by (rule mult_le_mono1)
  with clusters_for_cover [OF z] have fit: "off + length data \<le> m * ?z" by (rule le_trans)
  have "m * ?z \<le> length L * ?z" using assms(8) by (rule mult_le_mono1)
  with fit have "off + length data \<le> length L * ?z" by (rule le_trans)
  then have fitL: "?i * ?z + ?o + length data \<le> length L * ?z" by (simp only: div_mult_mod_eq)
  have im: "?i < length L" "take m L \<noteq> []" "first_of L = first_of (take m L)"
    using assms(8) m by (auto simp: first_of_def)
  from write_start [OF assms(1,2) L assms(4,5) _ refl im(1)] assms(6) obtain s1 where
    s1: "planned s1 L ?n" "only_table s L s1"
      "fat16_write_internal s (first_of cs) (word_of_nat off) data (word_of_nat (length data)) =
       do { (res, s2) \<leftarrow> write_loop s1 ?z (int (L ! ?i)) ?o data 0 (length data); Some (res, first_of L, s2) }"
    by blast
  note T = only_table_step [OF s1(2) assms(1)] 
  note D = file_stepD [OF T(1) assms(1)] and V = csize_volume [OF file_stepD(2) [OF T(1) assms(1)]]
  have rj: "reach s1 (L ! j)" if "j * csize s1 < ?i * csize s1 + ?o + length data" for j
  proof -
    have "j * ?z < off + length data" using that V(1) by simp
    then have "j * ?z < m * ?z" using fit by (rule less_le_trans)
    then have "j < m" by simp
    then have "L ! j \<in> set (take m L)" using assms(8) by (auto simp: in_set_conv_nth)
    with reach V(3) show ?thesis by simp
  qed
  have "?i < ?n" "?o < csize s1" "?i * csize s1 + ?o + length data \<le> length L * csize s1" using z fitL V(1) by simp_all
  from write_loop_eq [OF D(1) s1(1) this(1,2) order_refl this(3) rj, of 0] obtain s' where
    s': "write_loop s1 ?z (int (L ! ?i)) ?o data 0 (length data) = Some (s32 (int (length data)), s')"
    "planned s' L (max ?n (clusters_for s1 (off + length data)))" "file_step s1 L s'"
    "contents s' L = patch (contents s L) off data"
    unfolding V(1) T(2) by auto
  have mx: "max ?n (clusters_for s1 (off + length data)) = m" by (simp add: m clusters_for_def V(1))
  note st = file_step_trans [OF T(1) s'(3) assms(1)]
  have "contents s' (take m L) = patch (contents s (take m L)) off data"
    by (rule contents_patch_prefix [OF s'(4) csize_volume(1) [OF file_stepD(2) [OF st assms(1)]] fit assms(8)])
  moreover have "file_chain s' (take m L)" "free_clusters s' = drop m L" using s'(2) unfolding mx by (simp_all add: planned_def)
  ultimately show ?thesis using s1(3) s'(1) st im(3) assms(5) by (simp add: s32_int)
qed

section \<open>Properties\<close>

text \<open>
  \<^verbatim>\<open>fat16_read_internal\<close> of a range of a file returns the bytes of its cluster chain,
  when the range starts on a cluster boundary, or lies in one cluster and is sector aligned
  or inside one sector. The chain must not contain, after its first cluster, one of the five
  numbers that the walk takes for twelve-bit end and bad marks.
\<close>

lemma fat16_read_internal_correct:
  assumes "ready s" and "file_chain s cs" and "set (tl cs) \<inter> marks12 = {}"
    and "\<And>c. c \<in> set cs \<Longrightarrow> reach s c" and "offset < length cs * csize s"
    and "offset + n \<le> length cs * csize s" and "readable s offset n"
  shows "\<exists>s'. fat16_read_internal s (int (hd cs)) (int offset) (int n) =
      Some (0, take n (drop offset (contents s cs)), s') \<and> agrees s (k_drive s) s'"
  using read_internal_eq [OF assms] assms(1) by (auto simp: fat16_read_internal_def ready_def)

lemma demo_drive_of [simp]: "k_drive (demo_state d) = d"
  by (simp add: demo_state_def)

lemma demo_csize: "csize (demo_state d) = 65536"
  by (simp add: csize_def demo_geometry)

lemma demo_reach: "2 \<le> c \<Longrightarrow> c < 1000 \<Longrightarrow> reach (demo_state d) c"
  by (simp add: reach_def demo_csize demo_geometry data_pos_def)

text \<open>
  C26: \<^verbatim>\<open>fat16_write_internal\<close> on a volume with enough free clusters returns the number of
  bytes written; the chain of the file is then the old chain followed by the first free
  clusters, as many as the range needs; the file holds the data at the offset and is
  unchanged elsewhere; and every other chain keeps its clusters and its bytes.
\<close>

theorem fat16_write_internal_correct:
  assumes "ready s" and "file_at s cs" and L: "L = cs @ free_clusters s"
    and "off < 2 ^ 32" and "length data < 2 ^ 31" and "cs = [] \<Longrightarrow> off < csize s"
    and m: "m = max (length cs) (max (Suc (off div csize s)) (clusters_for s (off + length data)))"
    and "m \<le> length L" and "\<And>c. c \<in> set (take m L) \<Longrightarrow> reach s c"
  shows "\<exists>s'. fat16_write_internal s (first_of cs) (word_of_nat off) data (word_of_nat (length data)) =
        Some (int (length data), first_of (take m L), s')
     \<and> ready s' \<and> file_chain s' (take m L)
     \<and> contents s' (take m L) = patch (contents s (take m L)) off data
     \<and> (\<forall>ds. file_chain s ds \<and> set ds \<inter> set cs = {} \<longrightarrow> file_chain s' ds \<and> contents s' ds = contents s ds)"
proof -
  from write_internal_eq [OF assms] obtain s' where
    s': "fat16_write_internal s (first_of cs) (word_of_nat off) data (word_of_nat (length data)) =
        Some (int (length data), first_of (take m L), s')"
    "file_chain s' (take m L)" "file_step s L s'" "contents s' (take m L) = patch (contents s (take m L)) off data"
    by blast
  have "file_chain s' ds \<and> contents s' ds = contents s ds" if ds: "file_chain s ds" "set ds \<inter> set cs = {}" for ds
  proof -
    have "c \<notin> set (free_clusters s)" if "c \<in> set ds" for c
      using file_chain_facts(6) [OF assms(1) ds(1) that] by (simp add: free_clusters_mem)
    then have "set ds \<inter> set L = {}" using ds(2) unfolding L by auto
    with file_step_other [OF assms(1) s'(3) ds(1)] show ?thesis by simp
  qed
  with s' file_stepD(1) [OF s'(3) assms(1)] show ?thesis by auto
qed

lemma demo_free_all: "free_clusters (demo_state (\<lambda>a. 0)) = [2..<61031]"
  unfolding free_clusters_def demo_fat_at word16_at_zero demo_geometry by (simp del: upt_rec_numeral)

theorem fat16_write_internal_correct_witness:
  "\<exists>s'. fat16_write_internal (demo_state (\<lambda>a. 0)) 0 0 [1, 2, 3] 3 = Some (3, 2, s') \<and> file_chain s' [2]"
proof -
  let ?s = "demo_state (\<lambda>a. 0)"
  have take1: "take 1 ([] @ free_clusters ?s) = [2]"
    unfolding demo_free_all append_Nil by (subst take_upt) simp_all
  have "1 \<le> length ([] @ free_clusters ?s)"
    unfolding demo_free_all append_Nil by (simp del: upt_rec_numeral)
  then show ?thesis
    using fat16_write_internal_correct [OF demo_ready [of "\<lambda>a. 0"] _ refl, where cs = "[]" and off = 0
        and data = "[1, 2, 3]" and m = 1, unfolded take1]
    by (auto simp: file_at_def demo_csize clusters_for_def first_of_def demo_reach)
qed

end
