(* ===== verification/Fat16_Root.thy ===== *)
theory Fat16_Root
  imports Fat16_Data Path_Parser
begin

text \<open>
  Directories of \<^verbatim>\<open>src/src/fs/fat/fat16.c\<close>: the mount (\<^verbatim>\<open>fat16_resolve\<close>), loading a directory,
  looking up a name, and the slots of the root directory.

  A pointer to a heap object that one structure owns is the address and the value of the
  object; \<open>None\<close> is the null pointer. An index outside the loaded items is an access outside
  their object.
\<close>

section \<open>Operations\<close>

definition k_zalloc :: "kstate \<Rightarrow> u32 \<Rightarrow> (u32 \<times> kstate) option" where
  "k_zalloc s sz = do { (p, h) \<leftarrow> kzalloc (k_heap s) sz; Some (p, s\<lparr>k_heap := h\<rparr>) }"

definition k_free :: "kstate \<Rightarrow> u32 \<Rightarrow> kstate option" where
  "k_free s p = do { h \<leftarrow> kfree (k_heap s) p; Some (s\<lparr>k_heap := h\<rparr>) }"

definition new_stream :: "kstate \<Rightarrow> ((u32 \<times> disk_stream) option \<times> kstate) option" where
  "new_stream s = do {
     (st, h) \<leftarrow> diskstreamer_new (k_heap s) (dk_id (k_disk s));
     Some (st, s\<lparr>k_heap := h\<rparr>)
   }"

subsection \<open>Mount\<close>

text \<open>\<^verbatim>\<open>fat16_init_private\<close>: a zeroed structure at \<open>private\<close> and its five streams.\<close>

definition zero_private :: "u32 \<Rightarrow> fat_private" where
  "zero_private private = \<lparr>
     fp_addr = private,
     fp_header = decode_fat_h (replicate 62 0),
     fp_root_directory = \<lparr>fd_addr = private + 64, fd_item_addr = 0, fd_item = [], fd_total = 0,
                          fd_sector_pos = 0, fd_ending_sector_pos = 0\<rparr>,
     fp_cluster_read_stream = None, fp_fat_read_stream = None, fp_directory_stream = None,
     fp_cluster_write_stream = None, fp_fat_write_stream = None\<rparr>"

definition fat16_init_private :: "kstate \<Rightarrow> u32 \<Rightarrow> (fat_private \<times> kstate) option" where
  "fat16_init_private s private =
     (if private = 0 then None
      else do {
        (st1, s1) \<leftarrow> new_stream s;
        (st2, s2) \<leftarrow> new_stream s1;
        (st3, s3) \<leftarrow> new_stream s2;
        (st4, s4) \<leftarrow> new_stream s3;
        (st5, s5) \<leftarrow> new_stream s4;
        Some ((zero_private private)\<lparr>
                fp_cluster_read_stream := map_option snd st1,
                fp_fat_read_stream := map_option snd st2,
                fp_directory_stream := map_option snd st3,
                fp_cluster_write_stream := map_option snd st4,
                fp_fat_write_stream := map_option snd st5\<rparr>, s5)
      })"

text \<open>
  The loop of \<^verbatim>\<open>fat16_get_total_items_for_directory\<close>, which has no bound but the entry whose
  first byte is zero.
\<close>

partial_function (option) total_items_loop :: "drive \<Rightarrow> disk_stream \<Rightarrow> int \<Rightarrow> (int \<times> disk_stream) option" where
  "total_items_loop d stream i = do {
     (res, stream1, item) \<leftarrow> diskstreamer_read d stream 32;
     if res \<noteq> PEACHOS_ALL_OK then Some (- EIO, stream1)
     else if item ! 0 = 0x00 then Some (i, stream1)
     else if item ! 0 = 0xE5 then total_items_loop d stream1 i
     else total_items_loop d stream1 (i + 1)
   }"

definition fat16_get_total_items_for_directory :: "kstate \<Rightarrow> int \<Rightarrow> (int \<times> kstate) option" where
  "fat16_get_total_items_for_directory s directory_start_sector = do {
     private \<leftarrow> dk_fs_private (k_disk s);
     stream \<leftarrow> fp_directory_stream private;
     let directory_start_pos = s32 (u32 directory_start_sector * dk_sector_size (k_disk s));
     let (res, stream1) = diskstreamer_seek stream directory_start_pos;
     if res \<noteq> PEACHOS_ALL_OK
     then Some (- EIO, put_private s (private\<lparr>fp_directory_stream := Some stream1\<rparr>))
     else do {
       (res1, stream2) \<leftarrow> total_items_loop (k_drive s) stream1 0;
       Some (res1, put_private s (private\<lparr>fp_directory_stream := Some stream2\<rparr>))
     }
   }"

definition fat16_get_root_directory :: "kstate \<Rightarrow> (int \<times> kstate) option" where
  "fat16_get_root_directory s = do {
     private \<leftarrow> dk_fs_private (k_disk s);
     let primary_header = fat_primary_header (fp_header private);
     let root_dir_sector_pos = uint (fh_fat_copies primary_header) * uint (fh_sectors_per_fat primary_header)
                               + uint (fh_reserved_sectors primary_header);
     let root_dir_entries = uint (fh_root_dir_entries primary_header);
     let root_dir_size = root_dir_entries * 32;
     if dk_sector_size (k_disk s) = 0 then None
     else do {
       (total_items, s1) \<leftarrow> fat16_get_total_items_for_directory s root_dir_sector_pos;
       (dir, s2) \<leftarrow> k_zalloc s1 (word_of_int root_dir_size);
       if dir = 0 then Some (- ENOMEM, s2)
       else do {
         private2 \<leftarrow> dk_fs_private (k_disk s2);
         stream \<leftarrow> fp_directory_stream private2;
         let (res, stream1) = diskstreamer_seek stream (fat16_sector_to_absolute (k_disk s2) root_dir_sector_pos);
         if res \<noteq> PEACHOS_ALL_OK
         then Some (- EIO, put_private s2 (private2\<lparr>fp_directory_stream := Some stream1\<rparr>))
         else do {
           (res1, stream2, bytes) \<leftarrow> diskstreamer_read (k_drive s2) stream1 root_dir_size;
           let private3 = private2\<lparr>fp_directory_stream := Some stream2\<rparr>;
           if res1 \<noteq> PEACHOS_ALL_OK then Some (- EIO, put_private s2 private3)
           else Some (0, put_private s2 (private3\<lparr>fp_root_directory := \<lparr>
                  fd_addr = fp_addr private3 + 64,
                  fd_item_addr = dir,
                  fd_item = decode_items bytes (nat root_dir_entries),
                  fd_total = total_items,
                  fd_sector_pos = root_dir_sector_pos,
                  fd_ending_sector_pos = root_dir_sector_pos
                    + root_dir_size sdiv dk_sector_size (k_disk s2)\<rparr>\<rparr>))
         }
       }
     }
   }"

text \<open>
  \<^verbatim>\<open>fat16_resolve\<close>. \<open>resolve_out\<close> is the part after the label \<^verbatim>\<open>out\<close>; the five streams of the
  structure are not released there.
\<close>

definition resolve_out :: "kstate \<Rightarrow> u32 \<Rightarrow> u32 option \<Rightarrow> int \<Rightarrow> (int \<times> kstate) option" where
  "resolve_out s fat_private stream res = do {
     h1 \<leftarrow> (case stream of None \<Rightarrow> Some (k_heap s) | Some a \<Rightarrow> diskstreamer_close (k_heap s) a);
     let s1 = s\<lparr>k_heap := h1\<rparr>;
     if res < 0
     then do {
       s2 \<leftarrow> k_free s1 fat_private;
       Some (res, s2\<lparr>k_disk := (k_disk s2)\<lparr>dk_fs_private := None\<rparr>\<rparr>)
     }
     else Some (res, s1)
   }"

definition fat16_resolve :: "kstate \<Rightarrow> (int \<times> kstate) option" where
  "fat16_resolve s = do {
     (fat_private, s1) \<leftarrow> k_zalloc s 100;
     (private, s2) \<leftarrow> fat16_init_private s1 fat_private;
     let s3 = (put_private s2 private)\<lparr>k_disk := (k_disk (put_private s2 private))\<lparr>dk_filesystem := Some FAT16\<rparr>\<rparr>;
     (stream, s4) \<leftarrow> new_stream s3;
     case stream of
       None \<Rightarrow> resolve_out s4 fat_private None (- ENOMEM)
     | Some (a, st) \<Rightarrow> do {
         (res, _, bytes) \<leftarrow> diskstreamer_read (k_drive s4) st 62;
         if res \<noteq> PEACHOS_ALL_OK then resolve_out s4 fat_private (Some a) (- EIO)
         else do {
           let s5 = put_private s4 (private\<lparr>fp_header := decode_fat_h bytes\<rparr>);
           if fe_signature (fat_extended_header (decode_fat_h bytes)) \<noteq> 0x29
           then resolve_out s5 fat_private (Some a) (- EFSNOTUS)
           else do {
             (res1, s6) \<leftarrow> fat16_get_root_directory s5;
             resolve_out s6 fat_private (Some a) (if res1 \<noteq> PEACHOS_ALL_OK then - EIO else 0)
           }
         }
       }
   }"

subsection \<open>Items\<close>

definition fat16_clone_directory_item ::
    "kstate \<Rightarrow> fat_directory_item \<Rightarrow> int \<Rightarrow> ((u32 \<times> fat_directory_item) option \<times> kstate) option" where
  "fat16_clone_directory_item s item sz =
     (if sz < 32 then Some (None, s)
      else do {
        (item_copy, s1) \<leftarrow> k_zalloc s (word_of_int sz);
        if item_copy = 0 then Some (None, s1)
        else Some (Some (item_copy, item), s1)
      })"

definition fat16_free_directory :: "kstate \<Rightarrow> fat_directory option \<Rightarrow> kstate option" where
  "fat16_free_directory s directory =
     (case directory of
        None \<Rightarrow> Some s
      | Some dir \<Rightarrow> do {
          s1 \<leftarrow> (if fd_item_addr dir \<noteq> 0 then k_free s (fd_item_addr dir) else Some s);
          k_free s1 (fd_addr dir)
        })"

text \<open>
  \<^verbatim>\<open>fat16_fat_item_free\<close>: which member of the union is released depends on the type alone.
\<close>

definition fat16_fat_item_free :: "kstate \<Rightarrow> fat_item \<Rightarrow> kstate option" where
  "fat16_fat_item_free s item = do {
     s1 \<leftarrow> (if fi_type item = FAT_ITEM_TYPE_DIRECTORY
            then case fi_ptr item of
                   Item_Null \<Rightarrow> fat16_free_directory s None
                 | Directory_Ptr dir \<Rightarrow> fat16_free_directory s (Some dir)
                 | Item_Ptr _ _ \<Rightarrow> None
            else if fi_type item = FAT_ITEM_TYPE_FILE
            then case fi_ptr item of
                   Item_Null \<Rightarrow> k_free s 0
                 | Item_Ptr a _ \<Rightarrow> k_free s a
                 | Directory_Ptr dir \<Rightarrow> k_free s (fd_addr dir)
            else Some s);
     k_free s1 (fi_addr item)
   }"

text \<open>
  \<^verbatim>\<open>fat16_load_fat_directory\<close>. After an error the directory is released and the pointer to it
  is returned all the same.
\<close>

definition fat16_load_fat_directory ::
    "kstate \<Rightarrow> fat_directory_item \<Rightarrow> (fat_directory option \<times> kstate) option" where
  "fat16_load_fat_directory s item =
     (if di_attribute item AND 0x10 = 0 then Some (None, s)
      else do {
        (a, s1) \<leftarrow> k_zalloc s 16;
        if a = 0 then Some (None, s1)
        else do {
          fat_private \<leftarrow> dk_fs_private (k_disk s1);
          let cluster = sint (fat16_get_first_cluster item);
          let cluster_sector = fat16_cluster_to_sector fat_private cluster;
          (total_items, s2) \<leftarrow> fat16_get_total_items_for_directory s1 cluster_sector;
          let directory_size = total_items * 32;
          (ia, s3) \<leftarrow> k_zalloc s2 (word_of_int directory_size);
          let directory = \<lparr>fd_addr = a, fd_item_addr = ia, fd_item = [], fd_total = total_items,
                           fd_sector_pos = 0, fd_ending_sector_pos = 0\<rparr>;
          if ia = 0
          then do { s4 \<leftarrow> fat16_free_directory s3 (Some directory); Some (Some directory, s4) }
          else do {
            (res, bytes, s4) \<leftarrow> fat16_read_internal s3 cluster 0x00 directory_size;
            let directory1 = directory\<lparr>fd_item := decode_items bytes (nat total_items)\<rparr>;
            if res \<noteq> PEACHOS_ALL_OK
            then do { s5 \<leftarrow> fat16_free_directory s4 (Some directory1); Some (Some directory1, s5) }
            else Some (Some directory1, s4)
          }
        }
      })"

text \<open>
  \<^verbatim>\<open>fat16_new_fat_item_for_directory_item\<close>: the directory that is loaded for a subdirectory is
  overwritten by the stores of the file case, which has no \<^verbatim>\<open>else\<close>.
\<close>

definition fat16_new_fat_item_for_directory_item ::
    "kstate \<Rightarrow> fat_directory_item \<Rightarrow> (fat_item option \<times> kstate) option" where
  "fat16_new_fat_item_for_directory_item s item = do {
     (a, s1) \<leftarrow> k_zalloc s 8;
     if a = 0 then Some (None, s1)
     else do {
       (f_item, s2) \<leftarrow>
         (if di_attribute item AND 0x10 \<noteq> 0
          then do {
            (dir, s') \<leftarrow> fat16_load_fat_directory s1 item;
            Some (\<lparr>fi_addr = a, fi_ptr = (case dir of None \<Rightarrow> Item_Null | Some x \<Rightarrow> Directory_Ptr x),
                   fi_type = FAT_ITEM_TYPE_DIRECTORY\<rparr>, s')
          }
          else Some (\<lparr>fi_addr = a, fi_ptr = Item_Null, fi_type = 0\<rparr>, s1));
       let f_item1 = f_item\<lparr>fi_type := FAT_ITEM_TYPE_FILE\<rparr>;
       (clone, s3) \<leftarrow> fat16_clone_directory_item s2 item 32;
       Some (Some (f_item1\<lparr>fi_ptr := (case clone of None \<Rightarrow> Item_Null | Some (ca, it) \<Rightarrow> Item_Ptr ca it)\<rparr>), s3)
     }
   }"

subsection \<open>Lookup\<close>

text \<open>The test of both lookups: the name of the item equals \<open>name\<close> up to case.\<close>

definition name_matches :: "fat_directory_item \<Rightarrow> byte list \<Rightarrow> bool option" where
  "name_matches item name = do {
     tmp \<leftarrow> fat16_get_full_relative_filename item (replicate PEACHOS_MAX_PATH 0) PEACHOS_MAX_PATH;
     r \<leftarrow> istrncmp tmp name PEACHOS_MAX_PATH;
     Some (r = 0)
   }"

text \<open>The loop of \<^verbatim>\<open>fat16_find_item_in_directory\<close> with \<open>k\<close> items left, from index \<open>i\<close>.\<close>

fun find_item_loop ::
    "kstate \<Rightarrow> fat_directory_item list \<Rightarrow> nat \<Rightarrow> nat \<Rightarrow> byte list \<Rightarrow> fat_item option
      \<Rightarrow> (fat_item option \<times> kstate) option" where
  "find_item_loop s items 0 i name f_item = Some (f_item, s)"
| "find_item_loop s items (Suc k) i name f_item =
     (if i < length items then do {
        m \<leftarrow> name_matches (items ! i) name;
        if m then do {
          (f_item1, s1) \<leftarrow> fat16_new_fat_item_for_directory_item s (items ! i);
          find_item_loop s1 items k (Suc i) name f_item1
        }
        else find_item_loop s items k (Suc i) name f_item
      }
      else None)"

definition fat16_find_item_in_directory ::
    "kstate \<Rightarrow> fat_directory \<Rightarrow> byte list \<Rightarrow> (fat_item option \<times> kstate) option" where
  "fat16_find_item_in_directory s directory name =
     find_item_loop s (fd_item directory) (nat (fd_total directory)) 0 name None"

text \<open>The loop of \<^verbatim>\<open>fat16_get_directory_entry\<close> over the parts after the first.\<close>

fun entry_loop :: "kstate \<Rightarrow> fat_item option \<Rightarrow> path_part list \<Rightarrow> (fat_item option \<times> kstate) option" where
  "entry_loop s current_item [] = Some (current_item, s)"
| "entry_loop s None (next_part # parts) = None"
| "entry_loop s (Some item) (next_part # parts) =
     (if fi_type item \<noteq> FAT_ITEM_TYPE_DIRECTORY then Some (None, s)
      else case fi_ptr item of
        Directory_Ptr dir \<Rightarrow> do {
          (tmp_item, s1) \<leftarrow> fat16_find_item_in_directory s dir (pp_part next_part);
          s2 \<leftarrow> fat16_fat_item_free s1 item;
          entry_loop s2 tmp_item parts
        }
      | _ \<Rightarrow> None)"

definition fat16_get_directory_entry :: "kstate \<Rightarrow> path_part list \<Rightarrow> (fat_item option \<times> kstate) option" where
  "fat16_get_directory_entry s path =
     (case path of
        [] \<Rightarrow> None
      | first # rest \<Rightarrow> do {
          fat_private \<leftarrow> dk_fs_private (k_disk s);
          (current_item, s1) \<leftarrow> fat16_find_item_in_directory s (fp_root_directory fat_private) (pp_part first);
          case current_item of
            None \<Rightarrow> Some (None, s1)
          | Some item \<Rightarrow> entry_loop s1 (Some item) rest
        })"

subsection \<open>Slots of the root directory\<close>

fun slot_by_name_loop :: "fat_directory_item list \<Rightarrow> nat \<Rightarrow> nat \<Rightarrow> byte list \<Rightarrow> int option" where
  "slot_by_name_loop items 0 i name = Some (-1)"
| "slot_by_name_loop items (Suc k) i name =
     (if i < length items then
        let entry = items ! i
        in if di_filename entry ! 0 = 0x00 then Some (-1)
           else if di_filename entry ! 0 = 0xE5 then slot_by_name_loop items k (Suc i) name
           else if di_attribute entry = 0x0F then slot_by_name_loop items k (Suc i) name
           else do {
             m \<leftarrow> name_matches entry name;
             if m then Some (int i) else slot_by_name_loop items k (Suc i) name
           }
      else None)"

definition fat16_find_root_dir_slot_by_name :: "kstate \<Rightarrow> byte list \<Rightarrow> int option" where
  "fat16_find_root_dir_slot_by_name s name = do {
     private \<leftarrow> dk_fs_private (k_disk s);
     slot_by_name_loop (fd_item (fp_root_directory private))
       (unat (fh_root_dir_entries (fat_primary_header (fp_header private)))) 0 name
   }"

fun free_slot_loop :: "fat_directory_item list \<Rightarrow> nat \<Rightarrow> nat \<Rightarrow> int option" where
  "free_slot_loop items 0 i = Some (- ENOMEM)"
| "free_slot_loop items (Suc k) i =
     (if i < length items then
        let first = di_filename (items ! i) ! 0
        in if first = 0x00 \<or> first = 0xE5 then Some (int i) else free_slot_loop items k (Suc i)
      else None)"

definition fat16_find_free_root_dir_slot :: "kstate \<Rightarrow> int option" where
  "fat16_find_free_root_dir_slot s = do {
     private \<leftarrow> dk_fs_private (k_disk s);
     free_slot_loop (fd_item (fp_root_directory private))
       (unat (fh_root_dir_entries (fat_primary_header (fp_header private)))) 0
   }"

definition fat16_write_root_dir_entry :: "kstate \<Rightarrow> int \<Rightarrow> (int \<times> kstate) option" where
  "fat16_write_root_dir_entry s slot_index = do {
     private \<leftarrow> dk_fs_private (k_disk s);
     stream \<leftarrow> fp_fat_write_stream private;
     let root = fp_root_directory private;
     let byte_offset = s32 (fd_sector_pos root * dk_sector_size (k_disk s) + slot_index * 32);
     let (res, stream1) = diskstreamer_seek stream byte_offset;
     if res < 0 then Some (res, put_private s (private\<lparr>fp_fat_write_stream := Some stream1\<rparr>))
     else if 0 \<le> slot_index \<and> nat slot_index < length (fd_item root)
     then do {
       (res1, stream2, d1) \<leftarrow> diskstreamer_write (k_drive s) stream1
                               (encode_item (fd_item root ! nat slot_index)) 32;
       Some (res1, put_private (s\<lparr>k_drive := d1\<rparr>) (private\<lparr>fp_fat_write_stream := Some stream2\<rparr>))
     }
     else None
   }"

section \<open>Lookup\<close>

text \<open>The text at \<open>p\<close> and the name of the item are equal up to case.\<close>

definition same_name :: "byte list \<Rightarrow> byte list \<Rightarrow> bool" where
  "same_name xs ys \<longleftrightarrow> map tolower xs = map tolower ys"

lemma name_matches_eq:
  assumes "cstr_of name xs" and "length xs < PEACHOS_MAX_PATH"
  shows "name_matches it name = Some (same_name (item_name it) xs)"
proof -
  obtain r where r: "fat16_get_full_relative_filename it (replicate PEACHOS_MAX_PATH 0) PEACHOS_MAX_PATH =
      Some (item_name it @ 0 # r)"
    using full_relative_filename_eq [of PEACHOS_MAX_PATH "replicate PEACHOS_MAX_PATH 0" it] by auto
  have c: "cstr_of (item_name it @ 0 # r) (item_name it)" using item_name_no_zero by (rule cstr_ofI)
  have l: "length (item_name it) < PEACHOS_MAX_PATH" using item_name_length [of it] by simp
  obtain v where v: "istrncmp (item_name it @ 0 # r) name PEACHOS_MAX_PATH = Some v"
    using istrncmp_defined [OF c assms(1)] l by blast
  with istrncmp_zero_iff [OF c assms(1) l assms(2)] have "(v = 0) = same_name (item_name it) xs"
    by (simp add: same_name_def)
  with r v show ?thesis by (simp add: name_matches_def)
qed

text \<open>The slots that the search by name looks at, and those it can return.\<close>

definition free_slot :: "fat_directory_item \<Rightarrow> bool" where
  "free_slot it \<longleftrightarrow> di_filename it ! 0 = 0x00 \<or> di_filename it ! 0 = 0xE5"

definition named_slot :: "byte list \<Rightarrow> fat_directory_item \<Rightarrow> bool" where
  "named_slot xs it \<longleftrightarrow> \<not> free_slot it \<and> di_attribute it \<noteq> 0x0F \<and> same_name (item_name it) xs"

text \<open>Index of the first element with \<open>P\<close> among those before the first one with \<open>E\<close>.\<close>

definition first_index :: "('a \<Rightarrow> bool) \<Rightarrow> ('a \<Rightarrow> bool) \<Rightarrow> 'a list \<Rightarrow> nat option" where
  "first_index E P xs = (let ys = takeWhile (\<lambda>x. \<not> E x) xs; k = length (takeWhile (\<lambda>x. \<not> P x) ys)
                         in if k < length ys then Some k else None)"

lemma first_index_Nil [simp]: "first_index E P [] = None"
  by (simp add: first_index_def)

lemma first_index_Cons:
  "first_index E P (x # xs) =
     (if E x then None else if P x then Some 0 else map_option Suc (first_index E P xs))"
  by (simp add: first_index_def Let_def)

lemma first_index_Some:
  assumes "first_index E P xs = Some k"
  shows "k < length xs" "P (xs ! k)" "\<not> E (xs ! k)" "\<And>j. j < k \<Longrightarrow> \<not> E (xs ! j) \<and> \<not> P (xs ! j)"
  using assms
proof (induction xs arbitrary: k)
  case (Cons x xs)
  { case 1 with Cons show ?case by (auto simp: first_index_Cons split: if_splits) }
  { case 2 with Cons show ?case by (auto simp: first_index_Cons split: if_splits) }
  { case 3 with Cons show ?case by (auto simp: first_index_Cons split: if_splits) }
  { case (4 j) with Cons show ?case by (cases j) (auto simp: first_index_Cons split: if_splits) }
qed simp_all

lemma slot_by_name_loop_eq:
  assumes "cstr_of name xs" and "length xs < PEACHOS_MAX_PATH" and "i + k = length items"
  shows "slot_by_name_loop items k i name =
     Some (case first_index (\<lambda>it. di_filename it ! 0 = 0) (named_slot xs) (drop i items) of
             None \<Rightarrow> -1 | Some j \<Rightarrow> int (i + j))"
  using assms(3)
proof (induction k arbitrary: i)
  case (Suc k)
  then have i: "i < length items" by simp
  then have d: "drop i items = items ! i # drop (Suc i) items" by (simp add: Cons_nth_drop_Suc)
  from Suc.prems Suc.IH [of "Suc i"] i show ?case
    by (auto simp: d first_index_Cons Let_def name_matches_eq [OF assms(1,2)] named_slot_def free_slot_def
        split: option.splits)
qed simp

lemma free_slot_loop_eq:
  assumes "i + k = length items"
  shows "free_slot_loop items k i =
     Some (case first_index (\<lambda>_. False) free_slot (drop i items) of None \<Rightarrow> - ENOMEM | Some j \<Rightarrow> int (i + j))"
  using assms
proof (induction k arbitrary: i)
  case (Suc k)
  then have i: "i < length items" by simp
  then have d: "drop i items = items ! i # drop (Suc i) items" by (simp add: Cons_nth_drop_Suc)
  from Suc.prems Suc.IH [of "Suc i"] i show ?case
    by (auto simp: d first_index_Cons Let_def free_slot_def split: option.splits)
qed simp

abbreviation root_of :: "kstate \<Rightarrow> fat_directory" where "root_of s \<equiv> fp_root_directory (priv s)"
abbreviation items_of :: "kstate \<Rightarrow> fat_directory_item list" where "items_of s \<equiv> fd_item (root_of s)"

lemma length_items: "ready s \<Longrightarrow> length (items_of s) = ents s"
  by (simp add: ready_def geometry_ok_def)

lemma find_slot_eq:
  assumes "ready s" and "cstr_of name xs" and "length xs < PEACHOS_MAX_PATH"
  shows "fat16_find_root_dir_slot_by_name s name =
     Some (case first_index (\<lambda>it. di_filename it ! 0 = 0) (named_slot xs) (items_of s) of
             None \<Rightarrow> -1 | Some j \<Rightarrow> int j)"
proof -
  obtain p where p: "dk_fs_private (k_disk s) = Some p" "priv s = p" using assms(1) by (auto simp: ready_def priv_def)
  show ?thesis
    using slot_by_name_loop_eq [OF assms(2,3), of 0 "ents s" "items_of s"] length_items [OF assms(1)]
    by (simp add: fat16_find_root_dir_slot_by_name_def p ents_def split: option.splits)
qed

lemma find_free_slot_eq:
  assumes "ready s"
  shows "fat16_find_free_root_dir_slot s =
     Some (case first_index (\<lambda>_. False) free_slot (items_of s) of None \<Rightarrow> - ENOMEM | Some j \<Rightarrow> int j)"
proof -
  obtain p where p: "dk_fs_private (k_disk s) = Some p" "priv s = p" using assms(1) by (auto simp: ready_def priv_def)
  show ?thesis
    using free_slot_loop_eq [of 0 "ents s" "items_of s"] length_items [OF assms(1)]
    by (simp add: fat16_find_free_root_dir_slot_def p ents_def split: option.splits)
qed

section \<open>Entries on the drive\<close>

definition entry_pos :: "kstate \<Rightarrow> nat \<Rightarrow> nat" where
  "entry_pos s i = 512 * root_sec s + 32 * i"

text \<open>The root directory in memory and the one on the drive agree.\<close>

definition synced :: "kstate \<Rightarrow> bool" where
  "synced s \<longleftrightarrow> (\<forall>i < ents s. bytes_at (k_drive s) (entry_pos s i) 32 = encode_item (items_of s ! i))"

definition put_items :: "kstate \<Rightarrow> fat_directory_item list \<Rightarrow> kstate" where
  "put_items s its = put_private s ((priv s)\<lparr>fp_root_directory := (root_of s)\<lparr>fd_item := its\<rparr>\<rparr>)"

lemma put_items_facts:
  assumes "ready s" and "length its = length (items_of s)"
  shows "ready (put_items s its)" "same_volume s (put_items s its)" "items_of (put_items s its) = its"
    "fd_total (root_of (put_items s its)) = fd_total (root_of s)" "k_heap (put_items s its) = k_heap s"
    "k_drive (put_items s its) = k_drive s"
proof -
  have priv: "priv (put_items s its) = (priv s)\<lparr>fp_root_directory := (root_of s)\<lparr>fd_item := its\<rparr>\<rparr>"
    by (simp add: put_items_def put_private_def priv_def)
  show "items_of (put_items s its) = its" "fd_total (root_of (put_items s its)) = fd_total (root_of s)" by (simp_all add: priv)
  show "k_heap (put_items s its) = k_heap s" "k_drive (put_items s its) = k_drive s"
    by (simp_all add: put_items_def put_private_def)
  show vol: "same_volume s (put_items s its)" by (simp add: same_volume_def priv) (simp add: put_items_def put_private_def)
  have "dk_fs_private (k_disk (put_items s its)) \<noteq> None"
      "dk_sector_size (k_disk (put_items s its)) = dk_sector_size (k_disk s)"
      "dk_id (k_disk (put_items s its)) = dk_id (k_disk s)"
    by (simp_all add: put_items_def put_private_def)
  then show "ready (put_items s its)"
    using assms same_volume_geometry [OF vol] priv
    by (simp add: ready_def geometry_ok_def streams_ok_def)
qed

text \<open>\<open>entry_step s i it s'\<close>: slot \<open>i\<close> holds \<open>it\<close> now, in memory and on the drive.\<close>

definition entry_step :: "kstate \<Rightarrow> nat \<Rightarrow> fat_directory_item \<Rightarrow> kstate \<Rightarrow> bool" where
  "entry_step s i it s' \<longleftrightarrow> ready s' \<and> same_volume s s' \<and> items_of s' = (items_of s)[i := it]
     \<and> fd_total (root_of s') = fd_total (root_of s) \<and> k_heap s' = k_heap s
     \<and> k_drive s' = write_bytes (k_drive s) (entry_pos s i) (encode_item it)"

lemma entry_window:
  assumes "ready s" and "i < ents s"
  shows "entry_pos s i + 32 \<le> 512 * data_sec s" "512 * (rsv s + 2 * spf s) \<le> entry_pos s i"
    "entry_pos s i + 32 < 2 ^ 31"
proof -
  have g: "512 * root_sec s + 32 * ents s \<le> 512 * data_sec s" "512 * data_sec s < 2 ^ 31"
    "rsv s + 2 * spf s \<le> root_sec s"
    using assms(1) by (simp_all add: ready_def geometry_ok_def)
  then show le: "entry_pos s i + 32 \<le> 512 * data_sec s" "512 * (rsv s + 2 * spf s) \<le> entry_pos s i"
    using assms(2) by (simp_all add: entry_pos_def)
  show "entry_pos s i + 32 < 2 ^ 31" using le(1) g(2) by (rule le_less_trans)
qed

lemma write_root_dir_entry_eq:
  assumes "ready s" and "i < ents s" and "wf_item (items_of s ! i)"
  shows "\<exists>s'. fat16_write_root_dir_entry s (int i) = Some (0, s')
     \<and> agrees s (write_bytes (k_drive s) (entry_pos s i) (encode_item (items_of s ! i))) s'"
proof -
  obtain p st where p: "dk_fs_private (k_disk s) = Some p" "priv s = p" "fp_fat_write_stream p = Some st" "stream_ok (Some st)"
    using assms(1) by (auto simp: ready_def streams_ok_def stream_ok_def priv_def split: option.splits)
  let ?q = "entry_pos s i"
  have b: "?q < 2 ^ 31" "?q + 32 < 2 ^ 37" using entry_window(3) [OF assms(1,2)] by simp_all
  have "fd_sector_pos (fp_root_directory p) = int (root_sec s)" "dk_sector_size (k_disk s) = 512"
    using assms(1) p(2) by (auto simp: ready_def geometry_ok_def root_sec_def)
  then have "fd_sector_pos (fp_root_directory p) * dk_sector_size (k_disk s) + int i * 32 = int ?q"
    by (simp add: entry_pos_def)
  then have pos: "s32 (fd_sector_pos (fp_root_directory p) * dk_sector_size (k_disk s) + int i * 32) = int ?q"
    using b(1) by (simp only: s32_int)
  have seek: "diskstreamer_seek st (int ?q) = (0, \<lparr>ds_pos = int ?q, ds_disk = 0\<rparr>)"
    using p(4) by (cases st) (simp add: diskstreamer_seek_def stream_ok_def)
  have len: "length (encode_item (items_of s ! i)) = 32" using length_encode_item [OF assms(3)] .
  have wr: "diskstreamer_write (k_drive s) \<lparr>ds_pos = int ?q, ds_disk = 0\<rparr> (encode_item (fd_item (fp_root_directory p) ! i)) 32 =
      Some (0, \<lparr>ds_pos = int (?q + 32), ds_disk = 0\<rparr>, write_bytes (k_drive s) ?q (encode_item (items_of s ! i)))"
    using write_eq [OF b(2), of "encode_item (items_of s ! i)" "k_drive s"] len p(2) by simp
  have "still_private (p\<lparr>fp_fat_write_stream := Some \<lparr>ds_pos = int (?q + 32), ds_disk = 0\<rparr>\<rparr>) = still_private p"
    using still_seek [OF p(4)] p(3) by (simp add: still_private_def)
  note put = agrees_put [OF p(1) this]
  have "i < length (fd_item (fp_root_directory p))" using assms(2) length_items [OF assms(1)] p(2) by simp
  then show ?thesis
    using put wr by (simp add: fat16_write_root_dir_entry_def p(1,3) pos seek)
qed

lemma entry_stepI:
  assumes "ready s" and "i < ents s" and "wf_item it"
  shows "\<exists>s'. fat16_write_root_dir_entry (put_items s ((items_of s)[i := it])) (int i) = Some (0, s')
     \<and> entry_step s i it s'"
proof -
  let ?s1 = "put_items s ((items_of s)[i := it])"
  have "length ((items_of s)[i := it]) = length (items_of s)" by simp
  note P = put_items_facts [OF assms(1) this] and G = same_volume_geometry [OF put_items_facts(2) [OF assms(1) this]]
  have i: "i < length (items_of s)" using assms(2) length_items [OF assms(1)] by simp
  have "wf_item (items_of ?s1 ! i)" "i < ents ?s1" using P(3) i assms(2,3) G(4) by simp_all
  from write_root_dir_entry_eq [OF P(1) this(2,1)] obtain s' where
    s': "fat16_write_root_dir_entry ?s1 (int i) = Some (0, s')"
    "agrees ?s1 (write_bytes (k_drive ?s1) (entry_pos ?s1 i) (encode_item (items_of ?s1 ! i))) s'" by blast
  note V = agrees_volume [OF s'(2) P(1)]
  have "entry_step s i it s'"
    unfolding entry_step_def
    using V same_volume_trans [OF P(2) V(1)] P(3-6) agrees_drive [OF s'(2)] agrees_keeps(1) [OF s'(2)] i G(5)
    by (simp add: entry_pos_def)
  with s'(1) show ?thesis by blast
qed

lemma entry_step_table:
  assumes "entry_step s i it s'" and "ready s" and "i < ents s" and "in_table s e"
  shows "fat_at s' e = fat_at s e" "fat2_at s' e = fat2_at s e"
proof -
  have vol: "same_volume s s'" and d: "k_drive s' = write_bytes (k_drive s) (entry_pos s i) (encode_item it)"
    using assms(1) by (simp_all add: entry_step_def)
  have "fat2_off s e + 2 \<le> entry_pos s i" "fat_off s e + 2 \<le> entry_pos s i"
    using assms(4) entry_window(2) [OF assms(2,3)] by (simp_all add: in_table_def fat_off_def fat2_off_def)
  then show "fat_at s' e = fat_at s e" "fat2_at s' e = fat2_at s e"
    unfolding fat_at_def fat2_at_def d agrees_offs [OF vol] by (simp_all add: word16_at_other)
qed

lemma entry_step_facts:
  assumes "entry_step s i it s'" and "ready s" and "i < ents s" and "wf_item it"
  shows "contents s' cs = contents s cs" "file_chain s' cs = file_chain s cs"
    "free_clusters s' = free_clusters s" "mirrored s \<Longrightarrow> mirrored s'" "synced s \<Longrightarrow> synced s'"
proof -
  have vol: "same_volume s s'" and d: "k_drive s' = write_bytes (k_drive s) (entry_pos s i) (encode_item it)"
    and its: "items_of s' = (items_of s)[i := it]"
    using assms(1) by (simp_all add: entry_step_def)
  note G = same_volume_geometry [OF vol] and len = length_encode_item [OF assms(4)]
  have tab: "fat_at s' e = fat_at s e" "fat2_at s' e = fat2_at s e" if "in_table s e" for e
    using entry_step_table [OF assms(1-3) that] by simp_all
  show "contents s' cs = contents s cs"
    using entry_window(1) [OF assms(2,3)] len unfolding d
    by (intro contents_read [OF vol]) (simp add: d write_bytes_outside)
  have eq: "chain (fat_at s') cs = chain (fat_at s) cs" if "set cs \<subseteq> {2..<2 + clusters s}"
    using that tab cluster_in_table [OF assms(2)] by (intro chain_cong) auto
  then show "file_chain s' cs = file_chain s cs"
    unfolding file_chain_def G(7) by blast
  show "free_clusters s' = free_clusters s"
    unfolding free_clusters_def G(7) using tab(1) cluster_in_table [OF assms(2)] by (intro filter_cong) auto
  show "mirrored s \<Longrightarrow> mirrored s'"
    using tab agrees_offs(3) [OF vol] by (simp add: mirrored_def)
  show "synced s'" if "synced s"
    unfolding synced_def G(4)
  proof (intro allI impI)
    fix j assume j: "j < ents s"
    have pos: "entry_pos s' j = entry_pos s j" by (simp add: entry_pos_def G(5))
    show "bytes_at (k_drive s') (entry_pos s' j) 32 = encode_item (items_of s' ! j)"
    proof (cases "j = i")
      case True
      then show ?thesis
        using bytes_at_write_bytes [of "k_drive s" "entry_pos s i" "encode_item it"] len j its pos d
          length_items [OF assms(2)] by simp
    next
      case False
      then have "entry_pos s j + 32 \<le> entry_pos s i \<or> entry_pos s i + length (encode_item it) \<le> entry_pos s j"
        using len by (auto simp: entry_pos_def)
      then have "bytes_at (k_drive s') (entry_pos s' j) 32 = bytes_at (k_drive s) (entry_pos s j) 32"
        unfolding d pos by (rule bytes_at_write_bytes_disjoint)
      also have "\<dots> = encode_item (items_of s ! j)" using that j by (simp only: synced_def)
      finally show ?thesis using False its by simp
    qed
  qed
qed

end
