(* ===== verification/File_System.thy ===== *)
theory File_System
  imports Fat16_Table Path_Parser
begin

text \<open>
  The interface between the virtual file layer and a file system, \<^verbatim>\<open>src/src/fs/file.h\<close>:
  \<^verbatim>\<open>struct filesystem\<close> as a record of operations, and the contract that its clients rely on
  as the locale \<open>file_store\<close>. The contract speaks about a finite map from file names to their
  bytes; the names are compared without regard to case.
\<close>

section \<open>Data\<close>

abbreviation (input) FILE_MODE_READ :: nat where "FILE_MODE_READ \<equiv> 0"
abbreviation (input) FILE_MODE_WRITE :: nat where "FILE_MODE_WRITE \<equiv> 1"
abbreviation (input) FILE_MODE_APPEND :: nat where "FILE_MODE_APPEND \<equiv> 2"
abbreviation (input) FILE_MODE_INVALID :: nat where "FILE_MODE_INVALID \<equiv> 3"
abbreviation (input) SEEK_SET :: nat where "SEEK_SET \<equiv> 0"
abbreviation (input) SEEK_CUR :: nat where "SEEK_CUR \<equiv> 1"
abbreviation (input) SEEK_END :: nat where "SEEK_END \<equiv> 2"

record file_stat =
  st_flags :: u32
  st_filesize :: u32

text \<open>
  The function pointers of \<^verbatim>\<open>struct filesystem\<close>, over the type \<open>'d\<close> of the private data of a
  descriptor. The pointers that the callers compare with null are options. A pointer result
  that may carry an error code is \<open>Inl\<close> of the code or \<open>Inr\<close> of the object; an operation that
  stores through the private pointer returns the private data after it.
\<close>

record 'd filesystem_ops =
  fs_resolve_fn :: "kstate \<Rightarrow> (int \<times> kstate) option"
  fs_open_fn :: "kstate \<Rightarrow> path_part list \<Rightarrow> nat \<Rightarrow> ((int + 'd) \<times> kstate) option"
  fs_read_fn :: "kstate \<Rightarrow> 'd \<Rightarrow> u32 \<Rightarrow> u32 \<Rightarrow> (int \<times> byte list \<times> kstate) option"
  fs_write_fn :: "(kstate \<Rightarrow> 'd \<Rightarrow> u32 \<Rightarrow> u32 \<Rightarrow> byte list \<Rightarrow> (int \<times> 'd \<times> kstate) option) option"
  fs_seek_fn :: "'d \<Rightarrow> u32 \<Rightarrow> nat \<Rightarrow> (int \<times> 'd) option"
  fs_stat_fn :: "'d \<Rightarrow> file_stat \<Rightarrow> (int \<times> file_stat) option"
  fs_close_fn :: "kstate \<Rightarrow> 'd \<Rightarrow> (int \<times> kstate) option"
  fs_delete_fn :: "(kstate \<Rightarrow> path_part list \<Rightarrow> (int \<times> kstate) option) option"
  fs_readdir_fn :: "(kstate \<Rightarrow> int \<Rightarrow> byte list \<Rightarrow> int \<Rightarrow> (int \<times> byte list) option) option"

section \<open>The contract\<close>

text \<open>The key of a name: file names are compared without regard to case.\<close>

definition canon :: "byte list \<Rightarrow> byte list" where
  "canon xs = map tolower xs"

text \<open>
  \<open>undisturbed opened s k s'\<close>: from \<open>s\<close> to \<open>s'\<close> the disk keeps its file system and every
  descriptor of a file other than \<open>k\<close> stays open at its position.
\<close>

definition undisturbed ::
    "(kstate \<Rightarrow> 'd \<Rightarrow> bool \<Rightarrow> byte list \<Rightarrow> nat \<Rightarrow> bool) \<Rightarrow> kstate \<Rightarrow> byte list \<Rightarrow> kstate \<Rightarrow> bool" where
  "undisturbed opened s k s' \<longleftrightarrow> dk_filesystem (k_disk s') = dk_filesystem (k_disk s)
     \<and> (\<forall>d w m p. m \<noteq> k \<longrightarrow> opened s d w m p \<longrightarrow> opened s' d w m p)"

lemma undisturbed_trans:
  "undisturbed opened s k s1 \<Longrightarrow> undisturbed opened s1 k s2 \<Longrightarrow> undisturbed opened s k s2"
  by (auto simp: undisturbed_def)

text \<open>
  \<open>rep s M\<close>: the disk of \<open>s\<close> stores the files of \<open>M\<close>. \<open>opened s d w k p\<close>: \<open>d\<close> is open on the
  file \<open>k\<close> at position \<open>p\<close>, for writing if \<open>w\<close>. \<open>entry_room s n\<close>: \<open>n\<close> more files can be created;
  a read may go past the end of a file as long as it ends in the first 512 bytes, and then says nothing about what it gives there;
  \<open>data_room s ns\<close>: files can grow by the numbers of bytes in the list \<open>ns\<close>. \<open>owned d\<close>: the heap objects of \<open>d\<close>; there are
  \<open>cost\<close> of them.
\<close>

locale file_store =
  fixes fs :: "'d filesystem_ops"
    and rep :: "kstate \<Rightarrow> (byte list \<rightharpoonup> byte list) \<Rightarrow> bool"
    and opened :: "kstate \<Rightarrow> 'd \<Rightarrow> bool \<Rightarrow> byte list \<Rightarrow> nat \<Rightarrow> bool"
    and good :: "byte list \<Rightarrow> bool"
    and entry_room :: "kstate \<Rightarrow> nat \<Rightarrow> bool"
    and data_room :: "kstate \<Rightarrow> nat list \<Rightarrow> bool"
    and owned :: "'d \<Rightarrow> u32 list"
    and cost :: nat
  assumes rep_heap: "rep s M \<Longrightarrow> rep (s\<lparr>k_heap := h\<rparr>) M"
    and opened_heap: "opened s d w k p \<Longrightarrow> opened (s\<lparr>k_heap := h\<rparr>) d w k p"
    and room_heap: "data_room s ns \<Longrightarrow> data_room (s\<lparr>k_heap := h\<rparr>) ns"
      "entry_room s n \<Longrightarrow> entry_room (s\<lparr>k_heap := h\<rparr>) n"
    and good_name: "good xs \<Longrightarrow> xs \<noteq> [] \<and> length xs \<le> 12 \<and> 0x2F \<notin> set xs"
    and open_write: "rep s M \<Longrightarrow> good xs \<Longrightarrow> cstr_of (pp_part part) xs \<Longrightarrow> 
      entry_room s (if M (canon xs) = None then Suc n else n) \<Longrightarrow> heap_slack (k_heap s) (j + cost) \<Longrightarrow>
      \<exists>d s'. fs_open_fn fs s (part # parts) FILE_MODE_WRITE = Some (Inr d, s')
        \<and> rep s' (M(canon xs \<mapsto> [])) \<and> opened s' d True (canon xs) 0 \<and> undisturbed opened s (canon xs) s'
        \<and> entry_room s' n \<and> (\<forall>ns. data_room s ns \<longrightarrow> data_room s' ns)
        \<and> heap_slack (k_heap s') j \<and> grown heap_live (k_heap s) (owned d) (k_heap s')"
    and write_ok: "rep s M \<Longrightarrow> M k = Some bs \<Longrightarrow> opened s d True k p \<Longrightarrow> p \<le> length bs \<Longrightarrow> buf \<noteq> [] \<Longrightarrow>
      unat sz * unat nmemb = length buf \<Longrightarrow> p + length buf < 2 ^ 31 \<Longrightarrow> data_room s (length buf # ns) \<Longrightarrow>
      \<exists>wr d' s'. fs_write_fn fs = Some wr \<and> wr s d sz nmemb buf = Some (sint nmemb, d', s')
        \<and> rep s' (M(k \<mapsto> patch bs p buf)) \<and> opened s' d' True k (p + length buf) \<and> owned d' = owned d
        \<and> undisturbed opened s k s' \<and> k_heap s' = k_heap s
        \<and> data_room s' ns \<and> (\<forall>n. entry_room s n \<longrightarrow> entry_room s' n)"
    and open_read: "rep s M \<Longrightarrow> good xs \<Longrightarrow> cstr_of (pp_part part) xs \<Longrightarrow> M (canon xs) \<noteq> None \<Longrightarrow>
      heap_slack (k_heap s) (j + cost) \<Longrightarrow>
      \<exists>d h. fs_open_fn fs s [part] FILE_MODE_READ = Some (Inr d, s\<lparr>k_heap := h\<rparr>)
        \<and> opened (s\<lparr>k_heap := h\<rparr>) d False (canon xs) 0
        \<and> heap_slack h j \<and> grown heap_live (k_heap s) (owned d) h"
    and open_missing: "rep s M \<Longrightarrow> good xs \<Longrightarrow> cstr_of (pp_part part) xs \<Longrightarrow> M (canon xs) = None \<Longrightarrow>
      heap_slack (k_heap s) (Suc j) \<Longrightarrow>
      \<exists>e h. fs_open_fn fs s [part] FILE_MODE_READ = Some (Inl e, s\<lparr>k_heap := h\<rparr>) \<and> e < 0
        \<and> heap_slack h (Suc j) \<and> heap_live h = heap_live (k_heap s)"
    and read_ok: "rep s M \<Longrightarrow> M k = Some bs \<Longrightarrow> bs \<noteq> [] \<Longrightarrow> opened s d w k p \<Longrightarrow> 0 < z \<Longrightarrow> 0 < n \<Longrightarrow> p + n * z \<le> max 512 (length bs) \<Longrightarrow>
      z = 1 \<or> p = 0 \<and> n = 1 \<Longrightarrow>
      \<exists>out s'. fs_read_fn fs s d (word_of_nat z) (word_of_nat n) = Some (int n, out, s')
        \<and> length out = n * z \<and> take (length bs - p) out = take (n * z) (drop p bs)
        \<and> rep s' M \<and> opened s' d w k p \<and> undisturbed opened s k s' \<and> k_heap s' = k_heap s
        \<and> (\<forall>ns. data_room s ns \<longrightarrow> data_room s' ns) \<and> (\<forall>n. entry_room s n \<longrightarrow> entry_room s' n)"
    and stat_ok: "rep s M \<Longrightarrow> M k = Some bs \<Longrightarrow> opened s d w k p \<Longrightarrow>
      \<exists>st'. fs_stat_fn fs d st = Some (0, st') \<and> unat (st_filesize st') = length bs"
    and close_ok: "opened s d w k p \<Longrightarrow>
      fs_close_fn fs s d = map_option (\<lambda>h. (0, s\<lparr>k_heap := h\<rparr>)) (release_all kfree (k_heap s) (rev (owned d)))"
    and delete_ok: "rep s M \<Longrightarrow> good xs \<Longrightarrow> cstr_of (pp_part part) xs \<Longrightarrow> M (canon xs) \<noteq> None \<Longrightarrow> entry_room s n \<Longrightarrow>
      \<exists>del s'. fs_delete_fn fs = Some del \<and> del s (part # parts) = Some (0, s')
        \<and> rep s' (M(canon xs := None)) \<and> entry_room s' (Suc n) \<and> undisturbed opened s (canon xs) s'
        \<and> (\<forall>ns. data_room s ns \<longrightarrow> data_room s' ns) \<and> k_heap s' = k_heap s"
    and delete_missing: "rep s M \<Longrightarrow> good xs \<Longrightarrow> cstr_of (pp_part part) xs \<Longrightarrow> M (canon xs) = None \<Longrightarrow>
      \<exists>del. fs_delete_fn fs = Some del \<and> del s (part # parts) = Some (- EIO, s)"
begin

lemma open_read_rep:
  assumes "rep s M" and "good xs" and "cstr_of (pp_part part) xs" and "M (canon xs) = Some bs"
    and "heap_slack (k_heap s) (j + cost)"
  obtains d h where "fs_open_fn fs s [part] FILE_MODE_READ = Some (Inr d, s\<lparr>k_heap := h\<rparr>)"
    "rep (s\<lparr>k_heap := h\<rparr>) M" "opened (s\<lparr>k_heap := h\<rparr>) d False (canon xs) 0"
    "heap_slack h j" "grown heap_live (k_heap s) (owned d) h"
  using open_read [OF assms(1-3) _ assms(5)] assms(4) rep_heap [OF assms(1)] by blast

text \<open>A descriptor releases its objects when it is closed, and only those.\<close>

lemma close_live:
  assumes "opened s d w k p" and "heap_slack (k_heap s) j" and "distinct (owned d)"
    and "\<And>a. a \<in> set (owned d) \<Longrightarrow> (a, 1) \<in> heap_live (k_heap s)"
  obtains h where "fs_close_fn fs s d = Some (0, s\<lparr>k_heap := h\<rparr>)" "heap_slack h (j + length (owned d))"
    "heap_live h = heap_live (k_heap s) - (\<lambda>a. (a, 1)) ` set (owned d)"
proof -
  have "distinct (rev (owned d))" using assms(3) by simp
  from ko.release_all_live [OF assms(2) this] assms(4) close_ok [OF assms(1)] that show thesis by auto
qed

end

end
