(* ===== verification/Fat16.thy ===== *)
theory Fat16
  imports Fat16_Root File_System
begin

text \<open>
  The file system functions of \<^verbatim>\<open>src/src/fs/fat/fat16.c\<close> that the virtual file layer calls:
  open, read, write, seek, stat, close, delete and readdir.

  A file descriptor of the FAT layer owns its item and the copy of the directory entry in
  it, so that descriptors are values. A pointer result that may carry an error code is
  \<open>Inl\<close> of the code or \<open>Inr\<close> of the descriptor.
\<close>

section \<open>Operations\<close>

text \<open>The name that \<^verbatim>\<open>fat16_init\<close> copies into the twenty bytes of \<^verbatim>\<open>fat16_fs.name\<close>.\<close>

definition fat16_init :: "byte list \<Rightarrow> (filesystem \<times> byte list) option" where
  "fat16_init name = do {
     name1 \<leftarrow> strcpy name [0x46, 0x41, 0x54, 0x31, 0x36, 0];
     Some (FAT16, name1)
   }"

text \<open>A store to \<^verbatim>\<open>private->root_directory.item[slot]\<close>.\<close>

definition put_item :: "kstate \<Rightarrow> int \<Rightarrow> fat_directory_item \<Rightarrow> kstate option" where
  "put_item s slot item = do {
     private \<leftarrow> dk_fs_private (k_disk s);
     let root = fp_root_directory private;
     if 0 \<le> slot \<and> nat slot < length (fd_item root)
     then Some (put_private s (private\<lparr>fp_root_directory := root\<lparr>fd_item := (fd_item root)[nat slot := item]\<rparr>\<rparr>))
     else None
   }"

definition get_item :: "kstate \<Rightarrow> int \<Rightarrow> fat_directory_item option" where
  "get_item s slot = do {
     private \<leftarrow> dk_fs_private (k_disk s);
     let items = fd_item (fp_root_directory private);
     if 0 \<le> slot \<and> nat slot < length items then Some (items ! nat slot) else None
   }"

definition fat16_open_read :: "kstate \<Rightarrow> path_part list \<Rightarrow> ((int + fat_file_descriptor) \<times> kstate) option" where
  "fat16_open_read s path = do {
     (descriptor, s1) \<leftarrow> k_zalloc s 12;
     if descriptor = 0 then Some (Inl (- ENOMEM), s1)
     else do {
       (item, s2) \<leftarrow> fat16_get_directory_entry s1 path;
       case item of
         None \<Rightarrow> do { s3 \<leftarrow> k_free s2 descriptor; Some (Inl (- EIO), s3) }
       | Some it \<Rightarrow> Some (Inr \<lparr>ff_addr = descriptor, ff_item = it, ff_pos = 0, ff_root_dir_slot = -1\<rparr>, s2)
     }
   }"

text \<open>The truncation of an existing file, and the release of its clusters in general.\<close>

definition drop_chain :: "kstate \<Rightarrow> fat_directory_item \<Rightarrow> kstate option" where
  "drop_chain s item =
     (if fat16_get_first_cluster item \<ge> 2
      then do { (_, s1) \<leftarrow> fat16_free_cluster_chain s (fat16_get_first_cluster item); Some s1 }
      else Some s)"

definition open_truncate :: "kstate \<Rightarrow> int \<Rightarrow> kstate option" where
  "open_truncate s slot = do {
     existing \<leftarrow> get_item s slot;
     s1 \<leftarrow> drop_chain s existing;
     s2 \<leftarrow> put_item s1 slot (existing\<lparr>di_filesize := 0, di_low_16_bits_first_cluster := 0,
                                      di_high_16_bits_first_cluster := 0\<rparr>);
     (_, s3) \<leftarrow> fat16_write_root_dir_entry s2 slot;
     Some s3
   }"

text \<open>A new entry in the free slot \<open>slot\<close>; \<open>fd_total\<close> grows when the slot lies behind it.\<close>

definition open_create :: "kstate \<Rightarrow> int \<Rightarrow> byte list \<Rightarrow> kstate option" where
  "open_create s slot name = do {
     (fname, ext) \<leftarrow> fat16_name_to_83 name;
     let new_entry = (decode_item (replicate 32 0))\<lparr>di_filename := fname, di_ext := ext, di_attribute := 0x20\<rparr>;
     s1 \<leftarrow> put_item s slot new_entry;
     (_, s2) \<leftarrow> fat16_write_root_dir_entry s1 slot;
     private \<leftarrow> dk_fs_private (k_disk s2);
     let root = fp_root_directory private;
     Some (if slot \<ge> fd_total root
           then put_private s2 (private\<lparr>fp_root_directory := root\<lparr>fd_total := slot + 1\<rparr>\<rparr>) else s2)
   }"

definition open_descriptor :: "kstate \<Rightarrow> int \<Rightarrow> ((int + fat_file_descriptor) \<times> kstate) option" where
  "open_descriptor s slot = do {
     (descriptor, s1) \<leftarrow> k_zalloc s 12;
     if descriptor = 0 then Some (Inl (- ENOMEM), s1)
     else do {
       (ia, s2) \<leftarrow> k_zalloc s1 8;
       if ia = 0 then do { s3 \<leftarrow> k_free s2 descriptor; Some (Inl (- ENOMEM), s3) }
       else do {
         entry \<leftarrow> get_item s2 slot;
         (clone, s3) \<leftarrow> fat16_clone_directory_item s2 entry 32;
         case clone of
           None \<Rightarrow> do { s4 \<leftarrow> k_free s3 ia; s5 \<leftarrow> k_free s4 descriptor; Some (Inl (- ENOMEM), s5) }
         | Some (ca, it) \<Rightarrow>
             Some (Inr \<lparr>ff_addr = descriptor,
                        ff_item = \<lparr>fi_addr = ia, fi_ptr = Item_Ptr ca it, fi_type = FAT_ITEM_TYPE_FILE\<rparr>,
                        ff_pos = 0, ff_root_dir_slot = slot\<rparr>, s3)
       }
     }
   }"

definition fat16_open_write :: "kstate \<Rightarrow> path_part list \<Rightarrow> ((int + fat_file_descriptor) \<times> kstate) option" where
  "fat16_open_write s path =
     (case path of
        [] \<Rightarrow> None
      | part # _ \<Rightarrow> do {
          slot \<leftarrow> fat16_find_root_dir_slot_by_name s (pp_part part);
          if slot \<ge> 0 then do { s1 \<leftarrow> open_truncate s slot; open_descriptor s1 slot }
          else do {
            slot1 \<leftarrow> fat16_find_free_root_dir_slot s;
            if slot1 < 0 then Some (Inl (- ENOMEM), s)
            else do { s1 \<leftarrow> open_create s slot1 (pp_part part); open_descriptor s1 slot1 }
          }
        })"

definition fat16_open :: "kstate \<Rightarrow> path_part list \<Rightarrow> nat \<Rightarrow> ((int + fat_file_descriptor) \<times> kstate) option" where
  "fat16_open s path mode =
     (if mode = FILE_MODE_READ then fat16_open_read s path
      else if mode = FILE_MODE_WRITE then fat16_open_write s path
      else Some (Inl (- EINVARG), s))"

definition fat16_free_file_descriptor :: "kstate \<Rightarrow> fat_file_descriptor \<Rightarrow> kstate option" where
  "fat16_free_file_descriptor s desc = do {
     s1 \<leftarrow> fat16_fat_item_free s (ff_item desc);
     k_free s1 (ff_addr desc)
   }"

definition fat16_close :: "kstate \<Rightarrow> fat_file_descriptor \<Rightarrow> (int \<times> kstate) option" where
  "fat16_close s private = do { s1 \<leftarrow> fat16_free_file_descriptor s private; Some (0, s1) }"

text \<open>The directory entry of a descriptor: \<^verbatim>\<open>desc->item->item\<close>.\<close>

definition desc_item :: "fat_file_descriptor \<Rightarrow> fat_directory_item option" where
  "desc_item desc = (case fi_ptr (ff_item desc) of Item_Ptr _ it \<Rightarrow> Some it | _ \<Rightarrow> None)"

definition put_desc_item :: "fat_file_descriptor \<Rightarrow> fat_directory_item \<Rightarrow> fat_file_descriptor" where
  "put_desc_item desc it =
     (case fi_ptr (ff_item desc) of
        Item_Ptr a _ \<Rightarrow> desc\<lparr>ff_item := (ff_item desc)\<lparr>fi_ptr := Item_Ptr a it\<rparr>\<rparr>
      | _ \<Rightarrow> desc)"

definition fat16_stat :: "fat_file_descriptor \<Rightarrow> file_stat \<Rightarrow> (int \<times> file_stat) option" where
  "fat16_stat desc stat =
     (if fi_type (ff_item desc) \<noteq> FAT_ITEM_TYPE_FILE then Some (- EINVARG, stat)
      else do {
        ritem \<leftarrow> desc_item desc;
        Some (0, \<lparr>st_flags = (if di_attribute ritem AND 0x01 \<noteq> 0 then 0x01 else 0x00),
                  st_filesize = di_filesize ritem\<rparr>)
      })"

text \<open>The loop of \<^verbatim>\<open>fat16_read\<close>: the bytes go to \<^verbatim>\<open>out_ptr\<close> in order.\<close>

fun read_members :: "kstate \<Rightarrow> int \<Rightarrow> int \<Rightarrow> int \<Rightarrow> nat \<Rightarrow> (int option \<times> byte list \<times> kstate) option" where
  "read_members s cluster offset sz 0 = Some (None, [], s)"
| "read_members s cluster offset sz (Suc k) = do {
     (res, out, s1) \<leftarrow> fat16_read_internal s cluster offset sz;
     if res < 0 then Some (Some res, out, s1)
     else do {
       (err, out1, s2) \<leftarrow> read_members s1 cluster (s32 (offset + sz)) sz k;
       Some (err, out @ out1, s2)
     }
   }"

definition fat16_read ::
    "kstate \<Rightarrow> fat_file_descriptor \<Rightarrow> u32 \<Rightarrow> u32 \<Rightarrow> (int \<times> byte list \<times> kstate) option" where
  "fat16_read s desc sz nmemb = do {
     item \<leftarrow> desc_item desc;
     (err, out, s1) \<leftarrow> read_members s (sint (fat16_get_first_cluster item)) (sint (ff_pos desc)) (sint sz) (unat nmemb);
     Some (case err of None \<Rightarrow> sint nmemb | Some res \<Rightarrow> res, out, s1)
   }"

definition fat16_write ::
    "kstate \<Rightarrow> fat_file_descriptor \<Rightarrow> u32 \<Rightarrow> u32 \<Rightarrow> byte list
      \<Rightarrow> (int \<times> fat_file_descriptor \<times> kstate) option" where
  "fat16_write s desc sz nmemb buf = do {
     item \<leftarrow> desc_item desc;
     let tot = sz * nmemb;
     (bytes_written, first_cluster, s1) \<leftarrow>
        fat16_write_internal s (fat16_get_first_cluster item) (ff_pos desc) buf tot;
     if bytes_written < 0 then Some (bytes_written, desc, s1)
     else do {
       let item1 = (if di_low_16_bits_first_cluster item = 0 \<and> first_cluster \<noteq> 0
                    then item\<lparr>di_low_16_bits_first_cluster := ucast first_cluster,
                              di_high_16_bits_first_cluster := ucast (drop_bit 16 first_cluster)\<rparr>
                    else item);
       let new_end = ff_pos desc + word_of_int bytes_written;
       let item2 = (if new_end > di_filesize item1 then item1\<lparr>di_filesize := new_end\<rparr> else item1);
       let desc1 = (put_desc_item desc item2)\<lparr>ff_pos := ff_pos desc + word_of_int bytes_written\<rparr>;
       s2 \<leftarrow> (if ff_root_dir_slot desc \<ge> 0
              then do {
                s' \<leftarrow> put_item s1 (ff_root_dir_slot desc) item2;
                (_, s'') \<leftarrow> fat16_write_root_dir_entry s' (ff_root_dir_slot desc);
                Some s''
              }
              else Some s1);
       Some (sint nmemb, desc1, s2)
     }
   }"

definition fat16_delete :: "kstate \<Rightarrow> path_part list \<Rightarrow> (int \<times> kstate) option" where
  "fat16_delete s path =
     (case path of
        [] \<Rightarrow> None
      | part # _ \<Rightarrow> do {
          slot \<leftarrow> fat16_find_root_dir_slot_by_name s (pp_part part);
          if slot < 0 then Some (- EIO, s)
          else do {
            item \<leftarrow> get_item s slot;
            s1 \<leftarrow> drop_chain s item;
            s2 \<leftarrow> put_item s1 slot (item\<lparr>di_filename := (di_filename item)[0 := 0xE5], di_filesize := 0,
                     di_low_16_bits_first_cluster := 0, di_high_16_bits_first_cluster := 0\<rparr>);
            (_, s3) \<leftarrow> fat16_write_root_dir_entry s2 slot;
            Some (0, s3)
          }
        })"

text \<open>
  The loop of \<^verbatim>\<open>fat16_readdir\<close> with \<open>k\<close> slots left, from slot \<open>i\<close>. \<^verbatim>\<open>buf_size\<close> becomes the
  \<^verbatim>\<open>size_t\<close> argument of \<^verbatim>\<open>memset\<close>.
\<close>

fun readdir_loop :: "fat_directory_item list \<Rightarrow> nat \<Rightarrow> nat \<Rightarrow> int \<Rightarrow> int \<Rightarrow> byte list \<Rightarrow> nat \<Rightarrow> (int \<times> byte list) option" where
  "readdir_loop items 0 i cnt index buf buf_size = Some (0, buf)"
| "readdir_loop items (Suc k) i cnt index buf buf_size =
     (if i < length items then
        let entry = items ! i
        in if di_filename entry ! 0 = 0x00 then Some (0, buf)
           else if di_filename entry ! 0 = 0xE5 then readdir_loop items k (Suc i) cnt index buf buf_size
           else if di_attribute entry AND (0x08 OR 0x10) \<noteq> 0
           then readdir_loop items k (Suc i) cnt index buf buf_size
           else if cnt = index
           then do { buf1 \<leftarrow> fat16_get_full_relative_filename entry buf buf_size; Some (1, buf1) }
           else readdir_loop items k (Suc i) (cnt + 1) index buf buf_size
      else None)"

definition fat16_readdir :: "kstate \<Rightarrow> int \<Rightarrow> byte list \<Rightarrow> int \<Rightarrow> (int \<times> byte list) option" where
  "fat16_readdir s index buf buf_size = do {
     private \<leftarrow> dk_fs_private (k_disk s);
     readdir_loop (fd_item (fp_root_directory private))
       (unat (fh_root_dir_entries (fat_primary_header (fp_header private)))) 0 0 index buf (nat (u32 buf_size))
   }"

definition fat16_seek :: "fat_file_descriptor \<Rightarrow> u32 \<Rightarrow> nat \<Rightarrow> (int \<times> fat_file_descriptor) option" where
  "fat16_seek desc offset seek_mode =
     (if fi_type (ff_item desc) \<noteq> FAT_ITEM_TYPE_FILE then Some (- EINVARG, desc)
      else do {
        ritem \<leftarrow> desc_item desc;
        if offset \<ge> di_filesize ritem then Some (- EIO, desc)
        else if seek_mode = SEEK_SET then Some (0, desc\<lparr>ff_pos := offset\<rparr>)
        else if seek_mode = SEEK_END then Some (- EUNIMP, desc)
        else if seek_mode = SEEK_CUR then Some (0, desc\<lparr>ff_pos := ff_pos desc + offset\<rparr>)
        else Some (- EINVARG, desc)
      })"

section \<open>The volume invariant\<close>

text \<open>
  \<open>layout s F\<close>: the invariant of a mounted volume, with \<open>F i\<close> the cluster chain of the entry in
  slot \<open>i\<close> of the root directory (empty for a free slot and for an empty file). The copies of
  the table are equal, the directory in memory and on the drive are equal, every entry names
  the first cluster of its chain, and no two chains share a cluster.
\<close>

definition entry_ok :: "fat_directory_item \<Rightarrow> nat list \<Rightarrow> bool" where
  "entry_ok it cs \<longleftrightarrow> wf_item it
     \<and> (if free_slot it then cs = [] else fat16_get_first_cluster it = first_of cs)"

definition layout :: "kstate \<Rightarrow> (nat \<Rightarrow> nat list) \<Rightarrow> bool" where
  "layout s F \<longleftrightarrow> ready s \<and> mirrored s \<and> synced s
     \<and> (\<forall>i < ents s. entry_ok (items_of s ! i) (F i) \<and> file_at s (F i))
     \<and> (\<forall>i < ents s. \<forall>j < ents s. i \<noteq> j \<longrightarrow> set (F i) \<inter> set (F j) = {})"

lemma layoutD:
  assumes "layout s F"
  shows "ready s" "mirrored s" "synced s" "i < ents s \<Longrightarrow> entry_ok (items_of s ! i) (F i)"
    "i < ents s \<Longrightarrow> file_at s (F i)" "i < ents s \<Longrightarrow> j < ents s \<Longrightarrow> i \<noteq> j \<Longrightarrow> set (F i) \<inter> set (F j) = {}"
  using assms by (simp_all add: layout_def)

lemma entry_okD:
  assumes "entry_ok it cs"
  shows "wf_item it" "\<not> free_slot it \<Longrightarrow> fat16_get_first_cluster it = first_of cs" "free_slot it \<Longrightarrow> cs = []"
  using assms by (simp_all add: entry_ok_def)

text \<open>
  What an operation on slot \<open>i\<close> leaves alone: the other slots and the bytes of their files.
\<close>

definition others_kept :: "kstate \<Rightarrow> (nat \<Rightarrow> nat list) \<Rightarrow> nat \<Rightarrow> kstate \<Rightarrow> bool" where
  "others_kept s F i s' \<longleftrightarrow> (\<forall>j < ents s. j \<noteq> i \<longrightarrow> items_of s' ! j = items_of s ! j \<and> contents s' (F j) = contents s (F j))"

lemma put_item_eq:
  assumes "ready s" and "i < ents s"
  shows "put_item s (int i) it = Some (put_items s ((items_of s)[i := it]))" "get_item s (int i) = Some (items_of s ! i)"
proof -
  obtain p where p: "dk_fs_private (k_disk s) = Some p" "priv s = p" using assms(1) by (auto simp: ready_def priv_def)
  show "put_item s (int i) it = Some (put_items s ((items_of s)[i := it]))" "get_item s (int i) = Some (items_of s ! i)"
    using assms length_items [OF assms(1)] by (simp_all add: put_item_def get_item_def put_items_def p Let_def)
qed

text \<open>A store into slot \<open>i\<close> that keeps its chain.\<close>

definition store_entry :: "kstate \<Rightarrow> int \<Rightarrow> fat_directory_item \<Rightarrow> kstate option" where
  "store_entry s slot it = do {
     s1 \<leftarrow> put_item s slot it;
     (_, s2) \<leftarrow> fat16_write_root_dir_entry s1 slot;
     Some s2
   }"

lemma store_entry_eq:
  assumes "ready s" and "i < ents s" and "wf_item it"
  shows "\<exists>s'. store_entry s (int i) it = Some s' \<and> entry_step s i it s'"
  using entry_stepI [OF assms] put_item_eq(1) [OF assms(1,2)] by (auto simp: store_entry_def)

lemma layout_entry_step:
  assumes "layout s F" and "i < ents s" and "entry_ok it (F i)" and "entry_step s i it s'"
  shows "layout s' F" "others_kept s F i s'"
proof -
  note L = layoutD [OF assms(1)]
  note E = entry_step_facts [OF assms(4) L(1) assms(2) entry_okD(1) [OF assms(3)]]
  have E': "ready s'" "same_volume s s'" "items_of s' = (items_of s)[i := it]"
    using assms(4) by (simp_all add: entry_step_def)
  have n: "ents s' = ents s" using same_volume_geometry(4) [OF E'(2)] .
  have slot: "entry_ok (items_of s' ! j) (F j) \<and> file_at s' (F j)" if "j < ents s" for j
    using that L(4,5) [OF that] assms(2,3) E(2) E'(3) length_items [OF L(1)]
    by (cases "j = i") (simp_all add: file_at_def)
  show "layout s' F"
    unfolding layout_def n using E'(1) E(4) [OF L(2)] E(5) [OF L(3)] slot L(6) by blast
  show "others_kept s F i s'" using E(1) E'(3) by (simp add: others_kept_def)
qed

text \<open>The release of the chain of slot \<open>i\<close>.\<close>

lemma first_of_ge2:
  assumes "ready s" and "file_at s cs"
  shows "(2 \<le> first_of cs) = (cs \<noteq> [])"
proof (cases "cs = []")
  case False
  then have "file_chain s cs" using assms(2) by (simp add: file_at_def)
  then have "unat (first_of cs) = hd cs" "2 \<le> hd cs"
    using first_of_cluster(3) file_chain_facts [OF assms(1)] assms(1) False by auto
  then show ?thesis using False by (simp add: word_le_nat_alt)
qed (simp add: first_of_def)

lemma drop_chain_eq:
  assumes "ready s" and "file_at s cs" and "fat16_get_first_cluster it = first_of cs"
  shows "\<exists>s'. drop_chain s it = Some s' \<and> table_step s (\<lambda>e. if e \<in> set cs then 0 else fat_at s e) s'"
proof (cases cs)
  case Nil
  then show ?thesis
    using assms first_of_ge2 [OF assms(1,2)] table_step_refl [OF agrees_refl assms(1)]
    by (auto simp: drop_chain_def)
next
  case (Cons c ds)
  then have ch: "file_chain s (c # ds)" using assms(2) by (simp add: file_at_def)
  from free_chain_loop_eq [OF assms(1) ch] obtain s' where
    s': "free_chain_loop s (int c) = Some s'" "table_step s (\<lambda>e. if e \<in> set (c # ds) then 0 else fat_at s e) s'"
    by blast
  have "sint (first_of cs) = int c" using first_of_cluster(2) [OF assms(1) ch] Cons by simp
  then have "drop_chain s it = Some s'"
    using s'(1) first_of_ge2 [OF assms(1,2)] Cons assms(3) by (simp add: drop_chain_def fat16_free_cluster_chain_def)
  with s'(2) Cons show ?thesis by auto
qed

text \<open>The directory stays in step when its sectors and its items do not change.\<close>

lemma synced_same:
  assumes "ready s" and vol: "same_volume s s'" and "items_of s' = items_of s" and "synced s"
    and same: "\<And>a. 512 * (rsv s + 2 * spf s) \<le> a \<Longrightarrow> a < 512 * data_sec s \<Longrightarrow> k_drive s' a = k_drive s a"
  shows "synced s'"
  unfolding synced_def same_volume_geometry(4) [OF vol]
proof (intro allI impI)
  fix j assume j: "j < ents s"
  have "entry_pos s' j = entry_pos s j" by (simp add: entry_pos_def same_volume_geometry(5) [OF vol])
  moreover have "map (k_drive s') [entry_pos s j..<entry_pos s j + 32] = map (k_drive s) [entry_pos s j..<entry_pos s j + 32]"
    using entry_window(1,2) [OF assms(1) j] by (intro map_cong refl same) auto
  ultimately have "bytes_at (k_drive s') (entry_pos s' j) 32 = bytes_at (k_drive s) (entry_pos s j) 32" by (simp only:)
  also have "\<dots> = encode_item (items_of s ! j)" using assms(4) j by (simp only: synced_def)
  finally show "bytes_at (k_drive s') (entry_pos s' j) 32 = encode_item (items_of s' ! j)" by (simp only: assms(3))
qed

lemma synced_table_step:
  assumes "ready s" and "table_step s f s'" and "synced s"
  shows "synced s'"
  using table_stepD [OF assms(2,1)] by (intro synced_same [OF assms(1) _ _ assms(3)]) simp_all

lemma layout_drop:
  assumes "layout s F" and "i < ents s" and "table_step s (\<lambda>e. if e \<in> set (F i) then 0 else fat_at s e) s'"
    and "j < ents s" and "j \<noteq> i"
  shows "file_at s' (F j)" "contents s' (F j) = contents s (F j)"
proof -
  note L = layoutD [OF assms(1)] and D = table_stepD [OF assms(3) layoutD(1) [OF assms(1)]]
  show "file_at s' (F j)"
  proof -
    have "(if c \<in> set (F i) then 0 else fat_at s c) = fat_at s c" if "c \<in> set (F j)" for c
      using L(6) [OF assms(4,2,5)] that by auto
    then show ?thesis
      using L(5) [OF assms(4)] file_chain_step [OF L(1) assms(3), of "F j"] by (auto simp: file_at_def)
  qed
  show "contents s' (F j) = contents s (F j)"
    using D(6) data_after_tables [OF L(1)] by (intro contents_read [OF D(2)]) simp
qed

text \<open>
  The general form of an update of the file in slot \<open>i\<close>: first its clusters (\<open>s\<close> to \<open>s1\<close>),
  which become \<open>cs\<close>, then its entry (\<open>s1\<close> to \<open>s2\<close>).
\<close>

lemma layout_update:
  assumes "layout s F" and "i < ents s" and "ready s1" and vol: "same_volume s s1"
    and "items_of s1 = items_of s" and "mirrored s1" and "synced s1" and "file_at s1 cs"
    and other: "\<And>j. j < ents s \<Longrightarrow> j \<noteq> i \<Longrightarrow>
          file_at s1 (F j) \<and> contents s1 (F j) = contents s (F j) \<and> set cs \<inter> set (F j) = {}"
    and "entry_ok it cs" and "entry_step s1 i it s2"
  shows "layout s2 (F(i := cs))" "others_kept s F i s2" "items_of s2 = (items_of s)[i := it]" "same_volume s s2"
    "k_heap s2 = k_heap s1" "free_clusters s2 = free_clusters s1" "contents s2 ds = contents s1 ds"
proof -
  note L = layoutD [OF assms(1)]
  have i1: "i < ents s1" using assms(2) same_volume_geometry(4) [OF vol] by simp
  note S = entry_step_facts [OF assms(11,3) i1 entry_okD(1) [OF assms(10)]]
  show its: "items_of s2 = (items_of s)[i := it]" and "k_heap s2 = k_heap s1" and vol2: "same_volume s s2"
    using assms(5,11) same_volume_trans [OF vol] by (auto simp: entry_step_def)
  show "free_clusters s2 = free_clusters s1" "contents s2 ds = contents s1 ds" by (rule S)+
  have n: "ents s2 = ents s" using same_volume_geometry(4) [OF vol2] .
  have "entry_ok (items_of s2 ! j) ((F(i := cs)) j) \<and> file_at s2 ((F(i := cs)) j)" if "j < ents s" for j
    using that other [OF that] L(4) [OF that] assms(2,8,10) S(2) its length_items [OF L(1)]
    by (cases "j = i") (simp_all add: file_at_def)
  moreover have "set ((F(i := cs)) j) \<inter> set ((F(i := cs)) k) = {}" if "j < ents s" "k < ents s" "j \<noteq> k" for j k
    using that L(6) [OF that] other [OF that(1)] other [OF that(2)] by (cases "j = i"; cases "k = i") auto
  moreover have "ready s2" using assms(11) by (simp add: entry_step_def)
  ultimately show "layout s2 (F(i := cs))"
    unfolding layout_def n using S(4) [OF assms(6)] S(5) [OF assms(7)] by blast
  show "others_kept s F i s2" using S(1) other its by (simp add: others_kept_def)
qed

text \<open>
  Releasing the file in slot \<open>i\<close>: its chain is freed and the slot gets an entry without
  clusters. Truncation and deletion are of this form.
\<close>

lemma release_entry:
  assumes "layout s F" and "i < ents s" and "\<not> free_slot (items_of s ! i)"
    and "wf_item it" and "fat16_get_first_cluster it = 0"
  shows "\<exists>s1 s2. drop_chain s (items_of s ! i) = Some s1 \<and> store_entry s1 (int i) it = Some s2
     \<and> layout s2 (F(i := [])) \<and> others_kept s F i s2 \<and> items_of s2 = (items_of s)[i := it]
     \<and> same_volume s s2 \<and> k_heap s2 = k_heap s
     \<and> set (free_clusters s2) = set (free_clusters s) \<union> set (F i) \<and> fd_total (root_of s2) = fd_total (root_of s)"
proof -
  note L = layoutD [OF assms(1)] and E = entry_okD [OF layoutD(4) [OF assms(1,2)]]
  from drop_chain_eq [OF L(1) L(5) [OF assms(2)] E(2) [OF assms(3)]] obtain s1 where
    s1: "drop_chain s (items_of s ! i) = Some s1" "table_step s (\<lambda>e. if e \<in> set (F i) then 0 else fat_at s e) s1"
    by blast
  note D = table_stepD [OF s1(2) L(1)]
  have it: "items_of s1 = items_of s" using D(7) by simp
  have i1: "i < ents s1" using assms(2) same_volume_geometry(4) [OF D(2)] by simp
  from store_entry_eq [OF D(1) i1 assms(4)] obtain s2 where
    s2: "store_entry s1 (int i) it = Some s2" "entry_step s1 i it s2" by blast
  have ok: "entry_ok it []" using assms(4,5) by (simp add: entry_ok_def first_of_def)
  have mir: "mirrored s1" using s1(2) L(2) by (simp add: table_step_def)
  have oth: "file_at s1 (F j) \<and> contents s1 (F j) = contents s (F j) \<and> set [] \<inter> set (F j) = {}"
    if "j < ents s" "j \<noteq> i" for j
    using layout_drop [OF assms(1,2) s1(2) that] by simp
  note U = layout_update [OF assms(1,2) D(1,2) it mir synced_table_step [OF L(1) s1(2) L(3)] _ oth ok s2(2)]
  have rng: "2 \<le> e \<and> e < 2 + clusters s" if "e \<in> set (F i)" for e
    using that L(5) [OF assms(2)] by (auto simp: file_at_def file_chain_def)
  have "e \<in> set (free_clusters s1) \<longleftrightarrow> e \<in> set (free_clusters s) \<union> set (F i)" for e
    using rng [of e] by (auto simp: free_clusters_step_mem [OF L(1) s1(2)] free_clusters_mem [of _ s])
  then have "set (free_clusters s1) = set (free_clusters s) \<union> set (F i)" by blast
  moreover have "fd_total (root_of s2) = fd_total (root_of s)" using s2(2) D(7) by (simp add: entry_step_def)
  ultimately show ?thesis using s1(1) s2(1) U D(8) by (simp add: file_at_def)
qed

section \<open>Open and delete\<close>

lemma first_cluster_zero:
  "di_low_16_bits_first_cluster it = 0 \<Longrightarrow> di_high_16_bits_first_cluster it = 0 \<Longrightarrow> fat16_get_first_cluster it = 0"
  by (simp add: fat16_get_first_cluster_def)

definition emptied :: "fat_directory_item \<Rightarrow> fat_directory_item" where
  "emptied it = it\<lparr>di_filesize := 0, di_low_16_bits_first_cluster := 0, di_high_16_bits_first_cluster := 0\<rparr>"

lemma emptied_simps [simp]:
  "di_filename (emptied it) = di_filename it" "di_ext (emptied it) = di_ext it"
  "di_attribute (emptied it) = di_attribute it" "di_filesize (emptied it) = 0"
  "fat16_get_first_cluster (emptied it) = 0" "wf_item (emptied it) = wf_item it"
  "free_slot (emptied it) = free_slot it" "item_name (emptied it) = item_name it"
  by (simp_all add: emptied_def fat16_get_first_cluster_def wf_item_def free_slot_def item_name_def)

lemma open_truncate_eq:
  assumes "layout s F" and "i < ents s" and "\<not> free_slot (items_of s ! i)"
  shows "\<exists>s'. open_truncate s (int i) = Some s' \<and> layout s' (F(i := [])) \<and> others_kept s F i s'
     \<and> items_of s' = (items_of s)[i := emptied (items_of s ! i)] \<and> same_volume s s' \<and> k_heap s' = k_heap s
     \<and> set (free_clusters s') = set (free_clusters s) \<union> set (F i) \<and> fd_total (root_of s') = fd_total (root_of s)"
proof -
  note L = layoutD [OF assms(1)]
  have "wf_item (emptied (items_of s ! i))" using entry_okD(1) [OF L(4) [OF assms(2)]] by simp
  from release_entry [OF assms this] obtain s1 s2 where
    r: "drop_chain s (items_of s ! i) = Some s1" "store_entry s1 (int i) (emptied (items_of s ! i)) = Some s2"
    "layout s2 (F(i := []))" "others_kept s F i s2" "items_of s2 = (items_of s)[i := emptied (items_of s ! i)]"
    "same_volume s s2" "k_heap s2 = k_heap s" "set (free_clusters s2) = set (free_clusters s) \<union> set (F i)"
    "fd_total (root_of s2) = fd_total (root_of s)"
    by auto
  have "open_truncate s (int i) = Some s2"
    using r(1,2) put_item_eq(2) [OF L(1) assms(2)]
    by (simp add: open_truncate_def store_entry_def emptied_def)
  with r show ?thesis by blast
qed

text \<open>The entry that a deletion leaves in the slot.\<close>

definition deleted :: "fat_directory_item \<Rightarrow> fat_directory_item" where
  "deleted it = (emptied it)\<lparr>di_filename := (di_filename it)[0 := 0xE5]\<rparr>"

lemma deleted_simps:
  "fat16_get_first_cluster (deleted it) = 0" "wf_item (deleted it) = wf_item it"
  "wf_item it \<Longrightarrow> free_slot (deleted it)"
  by (simp_all add: deleted_def emptied_def fat16_get_first_cluster_def wf_item_def free_slot_def)

lemma named_slot_free: "named_slot xs it \<Longrightarrow> \<not> free_slot it"
  by (simp add: named_slot_def)

lemma fat16_delete_eq:
  assumes "layout s F" and "cstr_of (pp_part part) xs" and "length xs < PEACHOS_MAX_PATH"
    and "first_index (\<lambda>it. di_filename it ! 0 = 0) (named_slot xs) (items_of s) = Some i"
  shows "\<exists>s'. fat16_delete s (part # parts) = Some (0, s') \<and> layout s' (F(i := [])) \<and> others_kept s F i s'
     \<and> items_of s' = (items_of s)[i := deleted (items_of s ! i)] \<and> same_volume s s' \<and> k_heap s' = k_heap s
     \<and> set (free_clusters s') = set (free_clusters s) \<union> set (F i) \<and> fd_total (root_of s') = fd_total (root_of s)"
proof -
  note L = layoutD [OF assms(1)] and I = first_index_Some [OF assms(4)]
  have i: "i < ents s" using I(1) length_items [OF L(1)] by simp
  have "wf_item (deleted (items_of s ! i))" using entry_okD(1) [OF L(4) [OF i]] by (simp add: deleted_simps)
  from release_entry [OF assms(1) i named_slot_free [OF I(2)] this deleted_simps(1)] obtain s1 s2 where
    r: "drop_chain s (items_of s ! i) = Some s1" "store_entry s1 (int i) (deleted (items_of s ! i)) = Some s2"
    "layout s2 (F(i := []))" "others_kept s F i s2" "items_of s2 = (items_of s)[i := deleted (items_of s ! i)]"
    "same_volume s s2" "k_heap s2 = k_heap s" "set (free_clusters s2) = set (free_clusters s) \<union> set (F i)"
    "fd_total (root_of s2) = fd_total (root_of s)"
    by auto
  have "deleted (items_of s ! i) = (items_of s ! i)\<lparr>di_filename := (di_filename (items_of s ! i))[0 := 0xE5],
      di_filesize := 0, di_low_16_bits_first_cluster := 0, di_high_16_bits_first_cluster := 0\<rparr>"
    by (cases "items_of s ! i") (simp add: deleted_def emptied_def)
  then have "fat16_delete s (part # parts) = Some (0, s2)"
    using r(1,2) put_item_eq(2) [OF L(1) i] find_slot_eq [OF L(1) assms(2,3)] assms(4)
    by (auto simp: fat16_delete_def store_entry_def split: bind_splits prod.splits)
  with r show ?thesis by blast
qed

lemma fat16_delete_missing:
  assumes "ready s" and "cstr_of (pp_part part) xs" and "length xs < PEACHOS_MAX_PATH"
    and "first_index (\<lambda>it. di_filename it ! 0 = 0) (named_slot xs) (items_of s) = None"
  shows "fat16_delete s (part # parts) = Some (- EIO, s)"
  using find_slot_eq [OF assms(1-3)] assms(4) by (simp add: fat16_delete_def)

text \<open>A new file: a free slot gets an entry with the name and no clusters.\<close>

definition fresh_item :: "byte list \<Rightarrow> byte list \<Rightarrow> fat_directory_item" where
  "fresh_item fname ext = (decode_item (replicate 32 0))\<lparr>di_filename := fname, di_ext := ext, di_attribute := 0x20\<rparr>"

lemma fresh_item_facts:
  assumes "name83 base ext" and "hd base \<noteq> 0xE5"
    and it: "it = fresh_item (map upper83 base @ replicate (8 - length base) 0x20) (map upper83 ext @ replicate (3 - length ext) 0x20)"
  shows "wf_item it" "fat16_get_first_cluster it = 0" "\<not> free_slot it" "di_filesize it = 0"
    "same_name (item_name it) (dotted base ext)" "named_slot (dotted base ext) it"
proof -
  have len: "length base \<le> 8" "length ext \<le> 3" "base \<noteq> []" "name_char (hd base)"
    using assms(1) by (auto simp: name83_def list_all_iff)
  show "wf_item it" using len by (simp add: it fresh_item_def wf_item_def)
  show "fat16_get_first_cluster it = 0" "di_filesize it = 0"
    by (simp_all add: it fresh_item_def fat16_get_first_cluster_def decode_item_def le16_def le32_def)
  have h: "di_filename it ! 0 = upper83 (hd base)"
    using len(3) by (cases base) (simp_all add: it fresh_item_def)
  have "upper83 (hd base) \<noteq> 0xE5"
  proof (cases "sint (hd base) \<ge> 97 \<and> sint (hd base) \<le> 122")
    case True
    then have "sint (hd base - 32) = sint (hd base) - 32" using sint_sub_byte [of "hd base" 32] by simp
    with True have "sint (upper83 (hd base)) \<ge> 65" by (simp add: upper83_def)
    then show ?thesis by auto
  qed (use assms(2) in \<open>auto simp: upper83_def\<close>)
  moreover have "upper83 (hd base) \<noteq> 0" using name_char_upper83 [OF len(4)] by (simp add: name_char_def)
  ultimately show fs: "\<not> free_slot it" by (simp add: free_slot_def h)
  have nm: "map tolower (item_name it) = map tolower (dotted base ext)"
    by (rule item_name_pad [OF assms(1)]) (simp_all add: it fresh_item_def)
  then show "same_name (item_name it) (dotted base ext)" by (simp add: same_name_def)
  then show "named_slot (dotted base ext) it"
    using fs by (simp add: named_slot_def it fresh_item_def)
qed

lemma put_total_facts:
  assumes "ready s" and "s' = put_private s ((priv s)\<lparr>fp_root_directory := (root_of s)\<lparr>fd_total := t\<rparr>\<rparr>)"
  shows "ready s'" "same_volume s s'" "items_of s' = items_of s" "k_heap s' = k_heap s" "k_drive s' = k_drive s"
proof -
  have priv: "priv s' = (priv s)\<lparr>fp_root_directory := (root_of s)\<lparr>fd_total := t\<rparr>\<rparr>"
    by (simp add: assms(2) put_private_def priv_def)
  show "items_of s' = items_of s" by (simp add: priv)
  show "k_heap s' = k_heap s" "k_drive s' = k_drive s" by (simp_all add: assms(2) put_private_def)
  show vol: "same_volume s s'" by (simp add: same_volume_def priv) (simp add: assms(2) put_private_def)
  have "dk_fs_private (k_disk s') \<noteq> None" "dk_sector_size (k_disk s') = dk_sector_size (k_disk s)"
      "dk_id (k_disk s') = dk_id (k_disk s)"
    by (simp_all add: assms(2) put_private_def)
  then show "ready s'"
    using assms(1) same_volume_geometry [OF vol] priv by (simp add: ready_def geometry_ok_def streams_ok_def)
qed

text \<open>Two states with the same volume, drive and directory satisfy the same invariant.\<close>

lemma layout_cong:
  assumes "layout s F" and "ready s'" and vol: "same_volume s s'" and "items_of s' = items_of s" and d: "k_drive s' = k_drive s"
  shows "layout s' F" "contents s' cs = contents s cs" "free_clusters s' = free_clusters s" "file_chain s' cs = file_chain s cs"
proof -
  note G = same_volume_geometry [OF vol]
  have f: "fat_at s' = fat_at s" "fat2_at s' = fat2_at s"
    by (simp_all add: fun_eq_iff fat_at_def fat2_at_def d agrees_offs [OF vol])
  show c: "contents s' cs = contents s cs" for cs by (rule contents_read [OF vol]) (simp add: d)
  show "free_clusters s' = free_clusters s" by (simp only: free_clusters_def f G)
  show fc: "file_chain s' cs = file_chain s cs" for cs by (simp add: file_chain_def f G)
  have "mirrored s' = mirrored s" by (simp add: mirrored_def f agrees_offs [OF vol])
  moreover have "synced s' = synced s" by (simp only: synced_def entry_pos_def assms(4) d G)
  ultimately show "layout s' F" using assms(1,2,4) G(4) fc by (simp add: layout_def file_at_def)
qed

lemma open_create_eq:
  assumes "layout s F" and "i < ents s" and "free_slot (items_of s ! i)"
    and "cstr_of name (dotted base ext)" and "name83 base ext" and "hd base \<noteq> 0xE5"
    and it: "it = fresh_item (map upper83 base @ replicate (8 - length base) 0x20) (map upper83 ext @ replicate (3 - length ext) 0x20)"
  shows "\<exists>s'. open_create s (int i) name = Some s' \<and> layout s' F \<and> others_kept s F i s'
     \<and> items_of s' = (items_of s)[i := it] \<and> same_volume s s' \<and> k_heap s' = k_heap s
     \<and> free_clusters s' = free_clusters s \<and> fd_total (root_of s') = max (fd_total (root_of s)) (int i + 1)"
proof -
  note L = layoutD [OF assms(1)] and I = fresh_item_facts [OF assms(5,6) it]
  have Fi: "F i = []" using entry_okD(3) [OF L(4) [OF assms(2)] assms(3)] .
  have ok: "entry_ok it (F i)" using I Fi by (simp add: entry_ok_def first_of_def)
  from store_entry_eq [OF L(1) assms(2) I(1)] obtain s1 where
    s1: "store_entry s (int i) it = Some s1" "entry_step s i it s1" by blast
  note Y = layout_entry_step [OF assms(1,2) ok s1(2)] and E = entry_step_facts [OF s1(2) L(1) assms(2) I(1)]
  have S: "ready s1" "same_volume s s1" "items_of s1 = (items_of s)[i := it]" "k_heap s1 = k_heap s"
    using s1(2) by (simp_all add: entry_step_def)
  obtain p where p: "dk_fs_private (k_disk s1) = Some p" "priv s1 = p" using S(1) by (auto simp: ready_def priv_def)
  define s2 where "s2 = (if int i \<ge> fd_total (root_of s1)
      then put_private s1 ((priv s1)\<lparr>fp_root_directory := (root_of s1)\<lparr>fd_total := int i + 1\<rparr>\<rparr>) else s1)"
  have T: "ready s2" "same_volume s1 s2" "items_of s2 = items_of s1" "k_heap s2 = k_heap s1" "k_drive s2 = k_drive s1"
    using put_total_facts [OF S(1) refl, of "int i + 1"] S(1) by (simp_all add: s2_def same_volume_def)
  note C = layout_cong [OF Y(1) T(1,2,3,5)]
  have "open_create s (int i) name = Some s2"
    using s1(1) name_to_83_eq [OF assms(4,5)] p
    by (auto simp: open_create_def store_entry_def it fresh_item_def s2_def Let_def split: bind_splits prod.splits)
  moreover have "others_kept s F i s2" using Y(2) C(2) T(3) by (simp add: others_kept_def)
  moreover have "fd_total (root_of s2) = max (fd_total (root_of s)) (int i + 1)"
    using s1(2) by (auto simp: s2_def entry_step_def put_private_def priv_def)
  ultimately show ?thesis
    using C(1,3) E(3) S T same_volume_trans [OF S(2) T(2)] by auto
qed

section \<open>Descriptors\<close>

lemma heap_update [simp]:
  "priv (s\<lparr>k_heap := h\<rparr>) = priv s" "ready (s\<lparr>k_heap := h\<rparr>) = ready s" "same_volume s (s\<lparr>k_heap := h\<rparr>)"
  "ents (s\<lparr>k_heap := h\<rparr>) = ents s"
proof -
  show priv: "priv (s\<lparr>k_heap := h\<rparr>) = priv s" by (simp add: priv_def)
  then show vol: "same_volume s (s\<lparr>k_heap := h\<rparr>)" by (simp add: same_volume_def)
  show "ents (s\<lparr>k_heap := h\<rparr>) = ents s" by (rule same_volume_geometry(4) [OF vol])
  show "ready (s\<lparr>k_heap := h\<rparr>) = ready s"
    using same_volume_geometry [OF vol] priv by (simp add: ready_def geometry_ok_def)
qed

lemma layout_heap:
  "layout s F \<Longrightarrow> layout (s\<lparr>k_heap := h\<rparr>) F"
  by (rule layout_cong(1) [of s F]) (simp_all add: layoutD(1))

lemma k_zalloc_eq:
  assumes "heap_slack (k_heap s) (Suc k)" and "small_size sz"
  obtains a h where "k_zalloc s sz = Some (a, s\<lparr>k_heap := h\<rparr>)" "a \<noteq> 0" "heap_slack h k"
    "grown heap_live (k_heap s) [a] h"
proof -
  obtain a h where "kzalloc (k_heap s) sz = Some (a, h)" "a \<noteq> 0" "heap_slack h k" "grown heap_live (k_heap s) [a] h"
    by (rule ko.zalloc_grown [OF assms])
  then show thesis using that by (simp add: k_zalloc_def)
qed

lemma fat_sizes [simp]: "small_size 12" "small_size 8" "small_size 32"
  by (simp_all add: small_size_def)

text \<open>A descriptor of slot \<open>i\<close>: it holds a copy of the entry of that slot.\<close>

definition desc_at :: "kstate \<Rightarrow> fat_file_descriptor \<Rightarrow> nat \<Rightarrow> bool" where
  "desc_at s desc i \<longleftrightarrow> ff_root_dir_slot desc = int i \<and> fi_type (ff_item desc) = FAT_ITEM_TYPE_FILE
     \<and> desc_item desc = Some (items_of s ! i) \<and> i < ents s"

definition desc_addrs :: "fat_file_descriptor \<Rightarrow> u32 list" where
  "desc_addrs desc = (case fi_ptr (ff_item desc) of Item_Ptr a _ \<Rightarrow> [a] | _ \<Rightarrow> []) @ [fi_addr (ff_item desc), ff_addr desc]"

lemma open_descriptor_eq:
  assumes "ready s" and "i < ents s" and "heap_slack (k_heap s) (k + 3)"
  shows "\<exists>desc h. open_descriptor s (int i) = Some (Inr desc, s\<lparr>k_heap := h\<rparr>) \<and> desc_at s desc i \<and> ff_pos desc = 0
     \<and> heap_slack h k \<and> grown heap_live (k_heap s) (rev (desc_addrs desc)) h"
proof -
  have sl: "heap_slack (k_heap s) (Suc (k + 2))" using assms(3) by (simp add: numeral_3_eq_3)
  obtain a h1 where a: "k_zalloc s 12 = Some (a, s\<lparr>k_heap := h1\<rparr>)" "a \<noteq> 0" "heap_slack h1 (k + 2)"
    "grown heap_live (k_heap s) [a] h1"
    by (rule k_zalloc_eq [OF sl fat_sizes(1)])
  have "heap_slack (k_heap (s\<lparr>k_heap := h1\<rparr>)) (Suc (k + 1))" using a(3) by simp
  then obtain b h2 where b: "k_zalloc (s\<lparr>k_heap := h1\<rparr>) 8 = Some (b, s\<lparr>k_heap := h2\<rparr>)" "b \<noteq> 0" "heap_slack h2 (k + 1)"
    "grown heap_live h1 [b] h2"
    by (rule k_zalloc_eq [OF _ fat_sizes(2)]) auto
  have "heap_slack (k_heap (s\<lparr>k_heap := h2\<rparr>)) (Suc k)" using b(3) by simp
  then obtain c h3 where c: "k_zalloc (s\<lparr>k_heap := h2\<rparr>) 32 = Some (c, s\<lparr>k_heap := h3\<rparr>)" "c \<noteq> 0" "heap_slack h3 k"
    "grown heap_live h2 [c] h3"
    by (rule k_zalloc_eq [OF _ fat_sizes(3)]) auto
  have item: "get_item (s\<lparr>k_heap := h2\<rparr>) (int i) = Some (items_of s ! i)"
    using put_item_eq(2) [of "s\<lparr>k_heap := h2\<rparr>" i] assms(1,2) by simp
  have gr: "grown heap_live (k_heap s) [a, b, c] h3"
    using grown_trans [OF grown_trans [OF a(4) b(4)] c(4)] by simp
  let ?d = "\<lparr>ff_addr = a, ff_item = \<lparr>fi_addr = b, fi_ptr = Item_Ptr c (items_of s ! i), fi_type = FAT_ITEM_TYPE_FILE\<rparr>,
             ff_pos = 0, ff_root_dir_slot = int i\<rparr>"
  have "open_descriptor s (int i) = Some (Inr ?d, s\<lparr>k_heap := h3\<rparr>)"
    using a b c item by (simp add: open_descriptor_def fat16_clone_directory_item_def)
  with c(3) gr assms(2) show ?thesis
    by (intro exI [of _ ?d] exI [of _ h3]) (simp add: desc_at_def desc_item_def desc_addrs_def)
qed

text \<open>Closing releases what the descriptor owns.\<close>

lemma fat16_close_eq:
  assumes "fi_type (ff_item desc) = FAT_ITEM_TYPE_FILE" and "desc_item desc \<noteq> None"
  shows "fat16_close s desc = map_option (\<lambda>h. (0, s\<lparr>k_heap := h\<rparr>)) (release_all kfree (k_heap s) (desc_addrs desc))"
proof -
  obtain a it where p: "fi_ptr (ff_item desc) = Item_Ptr a it"
    using assms(2) by (auto simp: desc_item_def split: fat_item_ptr.splits)
  show ?thesis
    using assms(1) p
    by (auto simp: fat16_close_def fat16_free_file_descriptor_def fat16_fat_item_free_def k_free_def desc_addrs_def
        split: bind_splits)
qed

section \<open>Write\<close>

lemma first_cluster_set:
  "fat16_get_first_cluster (it\<lparr>di_low_16_bits_first_cluster := ucast f,
     di_high_16_bits_first_cluster := ucast (drop_bit 16 f)\<rparr>) = f"
  unfolding fat16_get_first_cluster_def by (rule bit_word_eqI) (auto simp: bit_simps)

text \<open>The entry after the write of \<open>n\<close> bytes at \<open>off\<close>, with the first cluster \<open>f\<close>.\<close>

definition written :: "fat_directory_item \<Rightarrow> u32 \<Rightarrow> u32 \<Rightarrow> fat_directory_item" where
  "written it f new_end =
     (let it1 = (if di_low_16_bits_first_cluster it = 0 \<and> f \<noteq> 0
                 then it\<lparr>di_low_16_bits_first_cluster := ucast f,
                         di_high_16_bits_first_cluster := ucast (drop_bit 16 f)\<rparr> else it)
      in if new_end > di_filesize it1 then it1\<lparr>di_filesize := new_end\<rparr> else it1)"

lemma written_keeps:
  "di_filename (written it f e) = di_filename it" "di_ext (written it f e) = di_ext it"
  "di_attribute (written it f e) = di_attribute it" "wf_item (written it f e) = wf_item it"
  "free_slot (written it f e) = free_slot it" "item_name (written it f e) = item_name it"
  "di_filesize (written it f e) = max (di_filesize it) e"
  by (auto simp: written_def Let_def wf_item_def free_slot_def item_name_def max_def)

lemma fat16_get_first_cluster_filesize [simp]:
  "fat16_get_first_cluster (it\<lparr>di_filesize := e\<rparr>) = fat16_get_first_cluster it"
  by (simp add: fat16_get_first_cluster_def)

lemma written_first_cluster:
  assumes "ready s" and "file_at s cs" and "fat16_get_first_cluster it = first_of cs" and "f \<noteq> 0"
    and "cs \<noteq> [] \<Longrightarrow> f = first_of cs"
  shows "fat16_get_first_cluster (written it f e) = f"
proof -
  have "fat16_get_first_cluster it = f" if "di_low_16_bits_first_cluster it \<noteq> 0"
  proof -
    have "bit (fat16_get_first_cluster it) n = bit (di_low_16_bits_first_cluster it) n" if "n < 16" for n
      using that by (auto simp: fat16_get_first_cluster_def bit_simps)
    moreover have "\<exists>n < 16. bit (di_low_16_bits_first_cluster it) n"
    proof (rule ccontr)
      assume "\<not> ?thesis"
      then have "di_low_16_bits_first_cluster it = 0" by (intro bit_word_eqI) auto
      with that show False by simp
    qed
    ultimately have "fat16_get_first_cluster it \<noteq> 0" by fastforce
    then have "cs \<noteq> []" using assms(3) by (auto simp: first_of_def)
    with assms(3,5) show ?thesis by simp
  qed
  then show ?thesis using assms(4) first_cluster_set by (auto simp: written_def Let_def)
qed

lemma u32_mult_nat: "unat sz * unat nmemb = n \<Longrightarrow> (sz :: u32) * nmemb = word_of_nat n"
  by auto

lemma put_desc_item_at:
  "desc_item desc \<noteq> None \<Longrightarrow> desc_item (put_desc_item desc it) = Some it"
  "ff_root_dir_slot (put_desc_item desc it) = ff_root_dir_slot desc"
  "fi_type (ff_item (put_desc_item desc it)) = fi_type (ff_item desc)"
  by (auto simp: desc_item_def put_desc_item_def split: fat_item_ptr.splits)

lemma desc_item_pos [simp]: "desc_item (desc\<lparr>ff_pos := q\<rparr>) = desc_item desc"
  by (simp add: desc_item_def)

lemma fat16_write_unfold:
  assumes "desc_item desc = Some item" and "0 \<le> ff_root_dir_slot desc"
    and "fat16_write_internal s (fat16_get_first_cluster item) (ff_pos desc) buf (sz * nmemb) = Some (int n, f, s1)"
    and "it = written item f (ff_pos desc + word_of_nat n)"
  shows "fat16_write s desc sz nmemb buf =
     do { s2 \<leftarrow> store_entry s1 (ff_root_dir_slot desc) it;
          Some (sint nmemb, (put_desc_item desc it)\<lparr>ff_pos := ff_pos desc + word_of_nat n\<rparr>, s2) }"
  using assms(1-3) unfolding assms(4) fat16_write_def written_def Let_def store_entry_def
  by simp

lemma fat16_write_eq:
  assumes "layout s F" and "desc_at s desc i" and "\<not> free_slot (items_of s ! i)"
    and pos: "ff_pos desc = word_of_nat off" and "unat sz * unat nmemb = length buf" and "off + length buf < 2 ^ 31"
    and "F i = [] \<Longrightarrow> off < csize s" and L: "L = F i @ free_clusters s"
    and m: "m = max (length (F i)) (max (Suc (off div csize s)) (clusters_for s (off + length buf)))"
    and "m \<le> length L" and reach: "\<And>c. c \<in> set (take m L) \<Longrightarrow> reach s c"
    and it: "it = written (items_of s ! i) (first_of (take m L)) (word_of_nat (off + length buf))"
  shows "\<exists>s'. fat16_write s desc sz nmemb buf =
        Some (sint nmemb, (put_desc_item desc it)\<lparr>ff_pos := word_of_nat (off + length buf)\<rparr>, s')
     \<and> layout s' (F(i := take m L)) \<and> items_of s' = (items_of s)[i := it] \<and> others_kept s F i s'
     \<and> contents s' (take m L) = patch (contents s (take m L)) off buf
     \<and> same_volume s s' \<and> k_heap s' = k_heap s \<and> fd_total (root_of s') = fd_total (root_of s)
     \<and> free_clusters s' = drop m L"
proof -
  note Y = layoutD [OF assms(1)]
  have i: "i < ents s" and di: "desc_item desc = Some (items_of s ! i)" and slot: "ff_root_dir_slot desc = int i"
    using assms(2) by (simp_all add: desc_at_def)
  note E = entry_okD [OF Y(4) [OF i]]
  have fc: "fat16_get_first_cluster (items_of s ! i) = first_of (F i)" by (rule E(2) [OF assms(3)])
  have tot: "sz * nmemb = word_of_nat (length buf)" by (rule u32_mult_nat [OF assms(5)])
  have small: "off < 2 ^ 32" "length buf < 2 ^ 31" using assms(6) by simp_all
  from write_internal_eq [OF Y(1) Y(5) [OF i] L small assms(7) m assms(10) reach] obtain s1 where
    s1: "fat16_write_internal s (first_of (F i)) (word_of_nat off) buf (word_of_nat (length buf)) =
          Some (int (length buf), first_of (take m L), s1)"
    "file_chain s1 (take m L)" "file_step s L s1" "contents s1 (take m L) = patch (contents s (take m L)) off buf"
    "free_clusters s1 = drop m L"
    by blast
  note D = file_stepD [OF s1(3) Y(1)]
  have its: "items_of s1 = items_of s" using D(4) by simp
  have nz: "first_of (take m L) \<noteq> 0" using first_of_cluster(1) [OF D(1) s1(2)] .
  have "F i \<noteq> [] \<Longrightarrow> first_of (take m L) = first_of (F i)" using m by (auto simp: L first_of_def)
  from written_first_cluster [OF Y(1) Y(5) [OF i] fc nz this]
  have ok: "entry_ok it (take m L)"
    using E(1) assms(3) by (simp add: entry_ok_def it written_keeps)
  have i1: "i < ents s1" using i same_volume_geometry(4) [OF D(2)] by simp
  from store_entry_eq [OF D(1) i1 entry_okD(1) [OF ok]] obtain s2 where
    s2: "store_entry s1 (int i) it = Some s2" "entry_step s1 i it s2" by blast
  have oth: "file_at s1 (F j) \<and> contents s1 (F j) = contents s (F j) \<and> set (take m L) \<inter> set (F j) = {}"
    if j: "j < ents s" "j \<noteq> i" for j
  proof (cases "F j = []")
    case False
    then have ch: "file_chain s (F j)" using Y(5) [OF j(1)] by (simp add: file_at_def)
    have "c \<notin> set (free_clusters s)" if "c \<in> set (F j)" for c
      using file_chain_facts(6) [OF Y(1) ch that] by (simp add: free_clusters_mem)
    then have dis: "set (F j) \<inter> set L = {}" using Y(6) [OF j(1) i j(2)] unfolding L by auto
    with file_step_other [OF Y(1) s1(3) ch dis] show ?thesis by (auto simp: file_at_def dest: in_set_takeD)
  qed (simp add: file_at_def contents_def)
  have mir: "mirrored s1" using s1(3) Y(2) by (simp add: file_step_def)
  have syn: "synced s1"
    using s1(3) by (intro synced_same [OF Y(1) D(2) its Y(3)]) (simp add: file_step_def)
  have fa: "file_at s1 (take m L)" using s1(2) by (simp add: file_at_def)
  note U = layout_update [OF assms(1) i D(1,2) its mir syn fa oth ok s2(2)]
  have "fat16_write s desc sz nmemb buf =
      Some (sint nmemb, (put_desc_item desc it)\<lparr>ff_pos := word_of_nat (off + length buf)\<rparr>, s2)"
    using fat16_write_unfold [of desc "items_of s ! i" s buf sz nmemb "length buf" "first_of (take m L)" s1 it]
      s1(1) s2(1) di fc pos tot slot it by simp
  moreover have "fd_total (root_of s2) = fd_total (root_of s)" using s2(2) D(4) by (simp add: entry_step_def)
  ultimately show ?thesis using U s1(4,5) D(3) by auto
qed

section \<open>Read\<close>

lemma readable_byte: "ready s \<Longrightarrow> readable s k 1"
proof -
  assume "ready s"
  then have "k mod csize s < csize s" using csize_pos by simp
  moreover have "k mod csize s mod 512 < 512" by simp
  ultimately show ?thesis unfolding readable_def plain_read_def by linarith
qed

lemma readable_agrees: "ready s \<Longrightarrow> agrees s d s' \<Longrightarrow> readable s' k n = readable s k n"
  using csize_volume(1) [OF agrees_volume(1)] by (simp add: readable_def)

lemma read_members_eq:
  assumes "ready s" and "file_chain s cs" and "set (tl cs) \<inter> marks12 = {}" and "\<And>c. c \<in> set cs \<Longrightarrow> reach s c"
    and "0 < z" and "off + k * z \<le> length cs * csize s" and "off + k * z < 2 ^ 31"
    and "\<And>j. j < k \<Longrightarrow> readable s (off + j * z) z"
  shows "\<exists>s'. read_members s (int (hd cs)) (int off) (int z) k =
      Some (None, take (k * z) (drop off (contents s cs)), s') \<and> agrees s (k_drive s) s'"
  using assms
proof (induction k arbitrary: s off)
  case (Suc k)
  have b: "off < length cs * csize s" "off + z \<le> length cs * csize s" "off + z < 2 ^ 31"
    using Suc.prems(5-7) by simp_all
  have "readable s off z" using Suc.prems(8) [of 0] by simp
  from read_internal_eq [OF Suc.prems(1-4) b(1,2) this] obtain s1 where
    s1: "fat16_read_internal s (int (hd cs)) (int off) (int z) = Some (0, take z (drop off (contents s cs)), s1)"
    "agrees s (k_drive s) s1"
    using Suc.prems(1) by (auto simp: fat16_read_internal_def ready_def)
  note A = agrees_volume [OF s1(2) Suc.prems(1)] and V = csize_volume [OF agrees_volume(1) [OF s1(2) Suc.prems(1)]]
  have pr: "file_chain s1 cs" "\<And>c. c \<in> set cs \<Longrightarrow> reach s1 c" "off + z + k * z \<le> length cs * csize s1"
    "off + z + k * z < 2 ^ 31" "\<And>j. j < k \<Longrightarrow> readable s1 (off + z + j * z) z"
    using file_chain_agrees [OF Suc.prems(1) s1(2) Suc.prems(2)] Suc.prems(4,6,7) V
      readable_agrees [OF Suc.prems(1) s1(2)] Suc.prems(8) [of "Suc _"]
    by (simp_all add: add.assoc)
  from Suc.IH [OF A(2) pr(1) Suc.prems(3) pr(2) Suc.prems(5) pr(3-5)] obtain s2 where
    s2: "read_members s1 (int (hd cs)) (int (off + z)) (int z) k =
       Some (None, take (k * z) (drop (off + z) (contents s cs)), s2)" "agrees s1 (k_drive s1) s2"
    unfolding contents_agrees [OF Suc.prems(1) s1(2)] by blast
  have "s32 (int off + int z) = int (off + z)" using b(3) s32_int [of "off + z"] by simp
  moreover have "take z (drop off (contents s cs)) @ take (k * z) (drop (off + z) (contents s cs))
      = take (Suc k * z) (drop off (contents s cs))"
    by (simp add: take_add add.commute)
  moreover have "agrees s (k_drive s) s2" using agrees_trans [OF s1(2) s2(2)] agrees_drive [OF s1(2)] by simp
  ultimately show ?case using s1(1) s2(1) by simp
qed simp

lemma fat16_read_eq:
  assumes "ready s" and "file_chain s cs" and "set (tl cs) \<inter> marks12 = {}" and "\<And>c. c \<in> set cs \<Longrightarrow> reach s c"
    and "desc_item desc = Some it" and "fat16_get_first_cluster it = first_of cs" and "ff_pos desc = word_of_nat off"
    and "0 < z" and "off + k * z \<le> length cs * csize s" and "off + k * z < 2 ^ 31" and "k < 2 ^ 31" and "z < 2 ^ 31"
    and "\<And>j. j < k \<Longrightarrow> readable s (off + j * z) z"
  shows "\<exists>s'. fat16_read s desc (word_of_nat z) (word_of_nat k) =
      Some (int k, take (k * z) (drop off (contents s cs)), s') \<and> agrees s (k_drive s) s'"
proof -
  have off: "off < 2 ^ 31" using assms(10) by simp
  have "unat (word_of_nat k :: u32) = k" using assms(11) by (simp add: unsigned_of_nat take_bit_nat_eq_self_iff)
  then show ?thesis
    using read_members_eq [OF assms(1-4,8-10,13)] first_of_cluster(2) [OF assms(1,2)] assms(5-7)
      sint_of_nat_u32 [OF off] sint_of_nat_u32 [OF assms(11)] sint_of_nat_u32 [OF assms(12)]
    by (auto simp: fat16_read_def)
qed

section \<open>Open for reading\<close>

lemma load_skips_file: "di_attribute it AND 0x10 = 0 \<Longrightarrow> fat16_load_fat_directory s it = Some (None, s)"
  by (simp add: fat16_load_fat_directory_def)

lemma new_item_is_file:
  "fat16_new_fat_item_for_directory_item s it = Some (Some f, s') \<Longrightarrow> fi_type f = FAT_ITEM_TYPE_FILE"
  by (auto simp: fat16_new_fat_item_for_directory_item_def split: bind_splits if_splits option.splits prod.splits)

lemma find_item_loop_file:
  assumes "find_item_loop s its k i name f0 = Some (f, s')"
    and "\<And>x. f0 = Some x \<Longrightarrow> fi_type x = FAT_ITEM_TYPE_FILE" and "f = Some x"
  shows "fi_type x = FAT_ITEM_TYPE_FILE"
  using assms
proof (induction s its k i name f0 rule: find_item_loop.induct)
  case (2 s its k i name f0)
  from "2.prems"(1) obtain mt where m: "i < length its" "name_matches (its ! i) name = Some mt"
    by (auto split: if_splits bind_splits)
  show ?case
  proof (cases mt)
    case True
    with m "2.prems"(1) obtain f1 s1 where n: "fat16_new_fat_item_for_directory_item s (its ! i) = Some (f1, s1)"
      "find_item_loop s1 its k (Suc i) name f1 = Some (f, s')"
      by (auto split: bind_splits prod.splits)
    show ?thesis
      using "2.IH"(1) [OF m True n(1) refl n(2) _ "2.prems"(3)] new_item_is_file n(1) by auto
  next
    case False
    with m "2.prems" show ?thesis using "2.IH"(2) [OF m] by auto
  qed
qed auto

lemma directory_entry_deep:
  assumes "fat16_get_directory_entry s (part # part' # parts) = Some (f, s')"
  shows "f = None"
proof -
  from assms obtain p :: fat_private and item s1 where e: "fat16_find_item_in_directory s (fp_root_directory p) (pp_part part) = Some (item, s1)"
    "(case item of None \<Rightarrow> Some (None, s1) | Some it \<Rightarrow> entry_loop s1 (Some it) (part' # parts)) = Some (f, s')"
    by (auto simp: fat16_get_directory_entry_def bind_Some_iff)
  show ?thesis
  proof (cases item)
    case (Some it)
    have "fi_type it = FAT_ITEM_TYPE_FILE"
      by (rule find_item_loop_file [OF e(1) [unfolded fat16_find_item_in_directory_def] _ Some]) simp
    with e(2) Some show ?thesis by simp
  qed (use e(2) in simp)
qed

text \<open>The one item whose name matches is copied; earlier results of the loop are dropped.\<close>

lemma find_item_loop_unmatched:
  assumes "cstr_of name xs" and "length xs < PEACHOS_MAX_PATH" and "i + k \<le> length its"
    and "\<And>j. i \<le> j \<Longrightarrow> j < i + k \<Longrightarrow> \<not> same_name (item_name (its ! j)) xs"
  shows "find_item_loop s its k i name f0 = Some (f0, s)"
  using assms(3,4)
proof (induction k arbitrary: i)
  case (Suc k)
  have "i < length its" "\<not> same_name (item_name (its ! i)) xs" using Suc.prems(1) Suc.prems(2) [of i] by simp_all
  moreover have "find_item_loop s its k (Suc i) name f0 = Some (f0, s)"
    using Suc.IH [of "Suc i"] Suc.prems by simp
  ultimately show ?case by (simp add: name_matches_eq [OF assms(1,2)])
qed simp

lemma find_item_loop_unique:
  assumes "cstr_of name xs" and "length xs < PEACHOS_MAX_PATH" and "a + k \<le> length its" and "a \<le> i" and "i < a + k"
    and "\<And>j. a \<le> j \<Longrightarrow> j < a + k \<Longrightarrow> same_name (item_name (its ! j)) xs \<longleftrightarrow> j = i"
    and "fat16_new_fat_item_for_directory_item s (its ! i) = Some (f, s')"
  shows "find_item_loop s its k a name f0 = Some (f, s')"
  using assms(3-6)
proof (induction k arbitrary: a)
  case (Suc k)
  show ?case
  proof (cases "a = i")
    case True
    have "find_item_loop s' its k (Suc a) name f = Some (f, s')"
      using Suc.prems True by (intro find_item_loop_unmatched [OF assms(1,2)]) auto
    then show ?thesis
      using True Suc.prems(1) Suc.prems(4) [of a] assms(7) by (simp add: name_matches_eq [OF assms(1,2)])
  next
    case False
    have "find_item_loop s its k (Suc a) name f0 = Some (f, s')"
      using Suc.IH [of "Suc a"] Suc.prems False by simp
    then show ?thesis
      using False Suc.prems(1) Suc.prems(4) [of a] by (simp add: name_matches_eq [OF assms(1,2)])
  qed
qed simp

lemma fat16_open_read_eq:
  assumes "ready s" and "cstr_of (pp_part part) xs" and "length xs < PEACHOS_MAX_PATH"
    and "0 \<le> fd_total (root_of s)" and "fd_total (root_of s) \<le> int (ents s)" and "int i < fd_total (root_of s)"
    and "\<And>j. int j < fd_total (root_of s) \<Longrightarrow> same_name (item_name (items_of s ! j)) xs \<longleftrightarrow> j = i"
    and "di_attribute (items_of s ! i) AND 0x10 = 0" and "heap_slack (k_heap s) (k + 3)"
  shows "\<exists>desc h. fat16_open s [part] FILE_MODE_READ = Some (Inr desc, s\<lparr>k_heap := h\<rparr>)
     \<and> desc_item desc = Some (items_of s ! i) \<and> ff_pos desc = 0 \<and> fi_type (ff_item desc) = FAT_ITEM_TYPE_FILE
     \<and> heap_slack h k \<and> grown heap_live (k_heap s) (rev (desc_addrs desc)) h"
proof -
  have sl: "heap_slack (k_heap s) (Suc (k + 2))" using assms(9) by (simp add: numeral_3_eq_3)
  obtain a h1 where a: "k_zalloc s 12 = Some (a, s\<lparr>k_heap := h1\<rparr>)" "a \<noteq> 0" "heap_slack h1 (k + 2)"
    "grown heap_live (k_heap s) [a] h1"
    by (rule k_zalloc_eq [OF sl fat_sizes(1)])
  have "heap_slack (k_heap (s\<lparr>k_heap := h1\<rparr>)) (Suc (k + 1))" using a(3) by simp
  then obtain b h2 where b: "k_zalloc (s\<lparr>k_heap := h1\<rparr>) 8 = Some (b, s\<lparr>k_heap := h2\<rparr>)" "b \<noteq> 0" "heap_slack h2 (k + 1)"
    "grown heap_live h1 [b] h2"
    by (rule k_zalloc_eq [OF _ fat_sizes(2)]) auto
  have "heap_slack (k_heap (s\<lparr>k_heap := h2\<rparr>)) (Suc k)" using b(3) by simp
  then obtain c h3 where c: "k_zalloc (s\<lparr>k_heap := h2\<rparr>) 32 = Some (c, s\<lparr>k_heap := h3\<rparr>)" "c \<noteq> 0" "heap_slack h3 k"
    "grown heap_live h2 [c] h3"
    by (rule k_zalloc_eq [OF _ fat_sizes(3)]) auto
  let ?f = "\<lparr>fi_addr = b, fi_ptr = Item_Ptr c (items_of s ! i), fi_type = FAT_ITEM_TYPE_FILE\<rparr>"
  have new: "fat16_new_fat_item_for_directory_item (s\<lparr>k_heap := h1\<rparr>) (items_of s ! i) = Some (Some ?f, s\<lparr>k_heap := h3\<rparr>)"
    using b c assms(8)
    by (simp add: fat16_new_fat_item_for_directory_item_def fat16_clone_directory_item_def)
  have "find_item_loop (s\<lparr>k_heap := h1\<rparr>) (items_of s) (nat (fd_total (root_of s))) 0 (pp_part part) None
      = Some (Some ?f, s\<lparr>k_heap := h3\<rparr>)"
    using assms(4-7) length_items [OF assms(1)]
    by (intro find_item_loop_unique [OF assms(2,3) _ _ _ _ new]) auto
  moreover obtain p where p: "dk_fs_private (k_disk s) = Some p" "priv s = p" using assms(1) by (auto simp: ready_def priv_def)
  ultimately have "fat16_get_directory_entry (s\<lparr>k_heap := h1\<rparr>) [part] = Some (Some ?f, s\<lparr>k_heap := h3\<rparr>)"
    by (simp add: fat16_get_directory_entry_def fat16_find_item_in_directory_def)
  moreover have "grown heap_live (k_heap s) [a, b, c] h3"
    using grown_trans [OF grown_trans [OF a(4) b(4)] c(4)] by simp
  ultimately show ?thesis
    using a c(3) by (auto simp: fat16_open_def fat16_open_read_def desc_item_def desc_addrs_def)
qed

section \<open>Open for writing\<close>

lemma fat16_open_write_existing:
  assumes "layout s F" and "cstr_of (pp_part part) xs" and "length xs < PEACHOS_MAX_PATH"
    and "first_index (\<lambda>it. di_filename it ! 0 = 0) (named_slot xs) (items_of s) = Some i"
    and "heap_slack (k_heap s) (k + 3)"
  shows "\<exists>desc s'. fat16_open s (part # parts) FILE_MODE_WRITE = Some (Inr desc, s') \<and> desc_at s' desc i
     \<and> ff_pos desc = 0 \<and> layout s' (F(i := [])) \<and> others_kept s F i s'
     \<and> items_of s' = (items_of s)[i := emptied (items_of s ! i)] \<and> same_volume s s'
     \<and> set (free_clusters s') = set (free_clusters s) \<union> set (F i) \<and> fd_total (root_of s') = fd_total (root_of s)
     \<and> heap_slack (k_heap s') k \<and> grown heap_live (k_heap s) (rev (desc_addrs desc)) (k_heap s')"
proof -
  note L = layoutD [OF assms(1)] and I = first_index_Some [OF assms(4)]
  have i: "i < ents s" using I(1) length_items [OF L(1)] by simp
  from open_truncate_eq [OF assms(1) i named_slot_free [OF I(2)]] obtain s1 where
    s1: "open_truncate s (int i) = Some s1" "layout s1 (F(i := []))" "others_kept s F i s1"
    "items_of s1 = (items_of s)[i := emptied (items_of s ! i)]" "same_volume s s1" "k_heap s1 = k_heap s"
    "set (free_clusters s1) = set (free_clusters s) \<union> set (F i)" "fd_total (root_of s1) = fd_total (root_of s)" by blast
  have "i < ents s1" "heap_slack (k_heap s1) (k + 3)"
    using i same_volume_geometry(4) [OF s1(5)] s1(6) assms(5) by simp_all
  from open_descriptor_eq [OF layoutD(1) [OF s1(2)] this] obtain desc h where
    d: "open_descriptor s1 (int i) = Some (Inr desc, s1\<lparr>k_heap := h\<rparr>)" "desc_at s1 desc i" "ff_pos desc = 0"
    "heap_slack h k" "grown heap_live (k_heap s1) (rev (desc_addrs desc)) h" by blast
  have "fat16_open s (part # parts) FILE_MODE_WRITE = Some (Inr desc, s1\<lparr>k_heap := h\<rparr>)"
    using find_slot_eq [OF L(1) assms(2,3)] assms(4) s1(1) d(1)
    by (simp add: fat16_open_def fat16_open_write_def)
  moreover note C = layout_cong [OF s1(2), of "s1\<lparr>k_heap := h\<rparr>", simplified, OF layoutD(1) [OF s1(2)]]
  moreover have "others_kept s F i (s1\<lparr>k_heap := h\<rparr>)" using s1(3) C(2) by (simp add: others_kept_def)
  moreover have "desc_at (s1\<lparr>k_heap := h\<rparr>) desc i" using d(2) by (simp add: desc_at_def)
  moreover have "same_volume s (s1\<lparr>k_heap := h\<rparr>)" using same_volume_trans [OF s1(5) heap_update(3)] .
  ultimately show ?thesis using d(3-5) s1(4,6-8) by auto
qed

lemma fat16_open_write_new:
  assumes "layout s F" and "cstr_of (pp_part part) (dotted base ext)" and "name83 base ext" and "hd base \<noteq> 0xE5"
    and "first_index (\<lambda>it. di_filename it ! 0 = 0) (named_slot (dotted base ext)) (items_of s) = None"
    and "first_index (\<lambda>_. False) free_slot (items_of s) = Some i"
    and "heap_slack (k_heap s) (k + 3)"
    and it: "it = fresh_item (map upper83 base @ replicate (8 - length base) 0x20) (map upper83 ext @ replicate (3 - length ext) 0x20)"
  shows "\<exists>desc s'. fat16_open s (part # parts) FILE_MODE_WRITE = Some (Inr desc, s') \<and> desc_at s' desc i
     \<and> ff_pos desc = 0 \<and> layout s' F \<and> F i = [] \<and> others_kept s F i s'
     \<and> items_of s' = (items_of s)[i := it] \<and> same_volume s s' \<and> free_clusters s' = free_clusters s
     \<and> fd_total (root_of s') = max (fd_total (root_of s)) (int i + 1)
     \<and> heap_slack (k_heap s') k \<and> grown heap_live (k_heap s) (rev (desc_addrs desc)) (k_heap s')"
proof -
  note L = layoutD [OF assms(1)] and I = first_index_Some [OF assms(6)]
  have i: "i < ents s" using I(1) length_items [OF L(1)] by simp
  have len: "length (dotted base ext) < PEACHOS_MAX_PATH" using assms(3) by (simp add: name83_def dotted_def)
  from open_create_eq [OF assms(1) i I(2) assms(2,3,4) it] obtain s1 where
    s1: "open_create s (int i) (pp_part part) = Some s1" "layout s1 F" "others_kept s F i s1"
    "items_of s1 = (items_of s)[i := it]" "same_volume s s1" "k_heap s1 = k_heap s"
    "free_clusters s1 = free_clusters s" "fd_total (root_of s1) = max (fd_total (root_of s)) (int i + 1)" by blast
  have "i < ents s1" "heap_slack (k_heap s1) (k + 3)"
    using i same_volume_geometry(4) [OF s1(5)] s1(6) assms(7) by simp_all
  from open_descriptor_eq [OF layoutD(1) [OF s1(2)] this] obtain desc h where
    d: "open_descriptor s1 (int i) = Some (Inr desc, s1\<lparr>k_heap := h\<rparr>)" "desc_at s1 desc i" "ff_pos desc = 0"
    "heap_slack h k" "grown heap_live (k_heap s1) (rev (desc_addrs desc)) h" by blast
  have "fat16_open s (part # parts) FILE_MODE_WRITE = Some (Inr desc, s1\<lparr>k_heap := h\<rparr>)"
    using find_slot_eq [OF L(1) assms(2) len] find_free_slot_eq [OF L(1)] assms(5,6) s1(1) d(1)
    by (simp add: fat16_open_def fat16_open_write_def)
  moreover note C = layout_cong [OF s1(2), of "s1\<lparr>k_heap := h\<rparr>", simplified, OF layoutD(1) [OF s1(2)]]
  moreover have "others_kept s F i (s1\<lparr>k_heap := h\<rparr>)" using s1(3) C(2) by (simp add: others_kept_def)
  moreover have "desc_at (s1\<lparr>k_heap := h\<rparr>) desc i" using d(2) by (simp add: desc_at_def)
  moreover have "same_volume s (s1\<lparr>k_heap := h\<rparr>)" using same_volume_trans [OF s1(5) heap_update(3)] .
  moreover have "F i = []" using entry_okD(3) [OF L(4) [OF i] I(2)] .
  ultimately show ?thesis using d(3-5) s1(4,6-8) by auto
qed

section \<open>Listing\<close>

definition listed :: "fat_directory_item \<Rightarrow> bool" where
  "listed it \<longleftrightarrow> di_filename it ! 0 \<noteq> 0xE5 \<and> di_attribute it AND 0x18 = 0"

definition listing :: "fat_directory_item list \<Rightarrow> fat_directory_item list" where
  "listing its = filter listed (takeWhile (\<lambda>it. di_filename it ! 0 \<noteq> 0) its)"

lemma readdir_loop_eq:
  assumes "i + k = length its" and "cnt \<le> index"
  shows "readdir_loop its k i cnt index buf n =
     (let l = listing (drop i its)
      in if nat (index - cnt) < length l
         then map_option (\<lambda>b. (1, b)) (fat16_get_full_relative_filename (l ! nat (index - cnt)) buf n)
         else Some (0, buf))"
  using assms
proof (induction k arbitrary: i cnt)
  case 0
  then show ?case by (simp add: listing_def)
next
  case (Suc k)
  then have i: "i < length its" by simp
  have mask: "(0x08 :: byte) OR 0x10 = 0x18" by simp
  have d: "listing (drop i its) =
      (if di_filename (its ! i) ! 0 = 0 then [] else
       if listed (its ! i) then its ! i # listing (drop (Suc i) its) else listing (drop (Suc i) its))"
    using i by (subst Cons_nth_drop_Suc [symmetric]) (auto simp: listing_def)
  show ?case
  proof (cases "di_filename (its ! i) ! 0 \<noteq> 0 \<and> listed (its ! i)")
    case False
    then show ?thesis
      using Suc.IH [of "Suc i" cnt] Suc.prems i by (auto simp: d Let_def listed_def mask)
  next
    case True
    then have step: "readdir_loop its (Suc k) i cnt index buf n =
        (if cnt = index then map_option (\<lambda>b. (1, b)) (fat16_get_full_relative_filename (its ! i) buf n)
         else readdir_loop its k (Suc i) (cnt + 1) index buf n)"
      using i by (auto simp: listed_def mask Let_def map_option_case split: option.splits)
    show ?thesis
    proof (cases "cnt = index")
      case eq: True
      with True step show ?thesis by (simp add: d)
    next
      case ne: False
      then have "cnt + 1 \<le> index" and sh: "nat (index - cnt) = Suc (nat (index - (cnt + 1)))"
        using Suc.prems(2) by simp_all
      with Suc.IH [of "Suc i" "cnt + 1"] Suc.prems(1) True step ne show ?thesis
        by (simp add: d Let_def)
    qed
  qed
qed

section \<open>A volume without files\<close>

abbreviation demo_volume :: kstate where "demo_volume \<equiv> demo_state (\<lambda>a. 0)"

lemma demo_items: "items_of demo_volume = replicate 64 (decode_item (replicate 32 0))"
  by (simp add: demo_state_def demo_private_def priv_def)

lemma zero_item: "encode_item (decode_item (replicate 32 0)) = replicate 32 0" "wf_item (decode_item (replicate 32 0))"
  "free_slot (decode_item (replicate 32 0))"
  by (simp_all add: encode_item_def decode_item_def bytes16_def bytes32_def le16_def le32_def wf_item_def
      free_slot_def numeral_eq_Suc)

lemma demo_layout: "layout demo_volume (\<lambda>i. [])"
proof -
  have it: "items_of demo_volume ! i = decode_item (replicate 32 0)" if "i < ents demo_volume" for i
    using that by (simp add: demo_items demo_geometry)
  have "synced demo_volume"
    unfolding synced_def
  proof (intro allI impI)
    fix i assume i: "i < ents demo_volume"
    have "bytes_at (k_drive demo_volume) (entry_pos demo_volume i) 32 = replicate 32 0"
      by (rule nth_equalityI) simp_all
    then show "bytes_at (k_drive demo_volume) (entry_pos demo_volume i) 32 = encode_item (items_of demo_volume ! i)"
      by (simp only: it [OF i] zero_item)
  qed
  moreover have "mirrored demo_volume"
    by (simp add: mirrored_def fat_at_def fat2_at_def word16_at_zero)
  ultimately show ?thesis
    using demo_ready it zero_item by (simp add: layout_def entry_ok_def file_at_def)
qed

lemma demo_heap_room: "heap_slack (k_heap demo_volume) (97 + 3)"
  using demo_heap_slack [of 100] by (simp add: demo_state_def)

text \<open>The path part \<^verbatim>\<open>a.txt\<close>, which names no file yet.\<close>

definition demo_part :: path_part where
  "demo_part = \<lparr>pp_addr = 0x01005000, pp_str_addr = 0x01006000, pp_part = [0x61, 0x2E, 0x74, 0x78, 0x74, 0]\<rparr>"

lemma demo_name: "cstr_of (pp_part demo_part) (dotted [0x61] [0x74, 0x78, 0x74])" "name83 [0x61] [0x74, 0x78, 0x74]"
  by (simp_all add: demo_part_def dotted_def cstr_of_def name83_def name_char_def)

lemma demo_no_entry:
  "first_index (\<lambda>it. di_filename it ! 0 = 0) P (items_of demo_volume) = None"
  "first_index (\<lambda>_. False) free_slot (items_of demo_volume) = Some 0"
proof -
  have "items_of demo_volume = decode_item (replicate 32 0) # replicate 63 (decode_item (replicate 32 0))"
    unfolding demo_items by (simp add: numeral_eq_Suc)
  moreover have "di_filename (decode_item (replicate 32 0)) ! 0 = 0" by (simp add: decode_item_def numeral_eq_Suc)
  ultimately show "first_index (\<lambda>it. di_filename it ! 0 = 0) P (items_of demo_volume) = None"
    "first_index (\<lambda>_. False) free_slot (items_of demo_volume) = Some 0"
    using zero_item(3) by (simp_all add: first_index_Cons)
qed

lemma demo_open:
  obtains desc s1 where "fat16_open demo_volume [demo_part] FILE_MODE_WRITE = Some (Inr desc, s1)" "desc_at s1 desc 0"
    "ff_pos desc = 0" "layout s1 (\<lambda>i. [])" "\<not> free_slot (items_of s1 ! 0)" "same_volume demo_volume s1"
    "free_clusters s1 = free_clusters demo_volume"
proof -
  let ?it = "fresh_item (map upper83 [0x61] @ replicate (8 - length [0x61::byte]) 0x20)
    (map upper83 [0x74, 0x78, 0x74] @ replicate (3 - length [0x74, 0x78, 0x74::byte]) 0x20)"
  have h: "hd [0x61 :: byte] \<noteq> 0xE5" by simp
  from fat16_open_write_new [OF demo_layout demo_name h demo_no_entry demo_heap_room refl, of "[]"]
  obtain desc s1 where d: "fat16_open demo_volume [demo_part] FILE_MODE_WRITE = Some (Inr desc, s1)" "desc_at s1 desc 0"
    "ff_pos desc = 0" "layout s1 (\<lambda>i. [])" "items_of s1 = (items_of demo_volume)[0 := ?it]" "same_volume demo_volume s1"
    "free_clusters s1 = free_clusters demo_volume" by blast
  have "items_of s1 ! 0 = ?it" using d(5) by (simp add: demo_items)
  then have "\<not> free_slot (items_of s1 ! 0)" using fresh_item_facts(3) [OF demo_name(2) h refl] by simp
  with d that show thesis by blast
qed

section \<open>Properties\<close>

text \<open>
  what \<^verbatim>\<open>fat16_write\<close> stores is what \<^verbatim>\<open>fat16_read\<close> returns. A write through a descriptor of
  slot \<open>i\<close>, at any offset inside or at the end of the file and with enough free clusters,
  returns \<^verbatim>\<open>nmemb\<close>, keeps the invariant of the volume, all other files and the agreement of
  the descriptor with its slot, and a read of that range, byte by byte and through any
  descriptor of the file, returns exactly the bytes written. (Byte-wise reads are those that
  never cross a sector; the chain must avoid the numbers of \<open>marks12\<close>.)
\<close>

lemma fat16_write_read:
  assumes "layout s F" and "desc_at s desc i" and "\<not> free_slot (items_of s ! i)"
    and "ff_pos desc = word_of_nat off" and "unat sz * unat nmemb = length buf" and "off + length buf < 2 ^ 31"
    and "F i = [] \<Longrightarrow> off < csize s" and L: "L = F i @ free_clusters s"
    and m: "m = max (length (F i)) (max (Suc (off div csize s)) (clusters_for s (off + length buf)))"
    and "m \<le> length L" and "\<And>c. c \<in> set (take m L) \<Longrightarrow> reach s c" and "set (tl (take m L)) \<inter> marks12 = {}"
  shows "\<exists>desc' s'. fat16_write s desc sz nmemb buf = Some (sint nmemb, desc', s')
     \<and> layout s' (F(i := take m L)) \<and> desc_at s' desc' i \<and> others_kept s F i s'
     \<and> (\<forall>rd. desc_item rd = Some (items_of s' ! i) \<and> ff_pos rd = word_of_nat off \<longrightarrow>
          (\<exists>s''. fat16_read s' rd 1 (word_of_nat (length buf)) = Some (int (length buf), buf, s'')
             \<and> layout s'' (F(i := take m L))))"
proof -
  let ?C = "take m L"
  define it where "it = written (items_of s ! i) (first_of ?C) (word_of_nat (off + length buf))"
  have i: "i < ents s" using assms(2) by (simp add: desc_at_def)
  from fat16_write_eq [OF assms(1-11) it_def] obtain s' where
    s': "fat16_write s desc sz nmemb buf =
        Some (sint nmemb, (put_desc_item desc it)\<lparr>ff_pos := word_of_nat (off + length buf)\<rparr>, s')"
    "layout s' (F(i := ?C))" "items_of s' = (items_of s)[i := it]" "others_kept s F i s'"
    "contents s' ?C = patch (contents s ?C) off buf" "same_volume s s'" "k_heap s' = k_heap s" by blast
  note Y = layoutD [OF s'(2)] and R = layoutD(1) [OF s'(2)]
  have i': "i < ents s'" using i same_volume_geometry(4) [OF s'(6)] by simp
  have item: "items_of s' ! i = it" using s'(3) i length_items [OF layoutD(1) [OF assms(1)]] by simp
  have d': "desc_at s' ((put_desc_item desc it)\<lparr>ff_pos := word_of_nat (off + length buf)\<rparr>) i"
    using assms(2) item i' put_desc_item_at [of desc it] by (simp add: desc_at_def)
  have ne: "?C \<noteq> []" using m assms(10) by auto
  then have ch: "file_chain s' ?C" using Y(5) [OF i'] by (simp add: file_at_def)
  have fc: "fat16_get_first_cluster it = first_of ?C"
  proof -
    have "\<not> free_slot (items_of s' ! i)" using assms(3) by (simp add: item it_def written_keeps)
    from entry_okD(2) [OF Y(4) [OF i'] this] show ?thesis by (simp add: item)
  qed
  have rc: "\<And>c. c \<in> set ?C \<Longrightarrow> reach s' c" using assms(11) csize_volume(3) [OF s'(6)] by simp
  have "off + length buf \<le> m * csize s"
  proof -
    have "clusters_for s (off + length buf) * csize s \<le> m * csize s" unfolding m by (rule mult_le_mono1) simp
    then show ?thesis
      using clusters_for_cover [OF csize_pos [OF layoutD(1) [OF assms(1)]]] le_trans by blast
  qed
  then have fit: "off + length buf * 1 \<le> length ?C * csize s'"
    using assms(10) csize_volume(1) [OF s'(6)] by simp
  have small: "off + length buf * 1 < 2 ^ 31" "length buf < 2 ^ 31" "1 < (2::nat) ^ 31" using assms(6) by simp_all
  have rb: "\<And>j. j < length buf \<Longrightarrow> readable s' (off + j * 1) 1" by (rule readable_byte [OF R])
  have bytes: "take (length buf * 1) (drop off (contents s' ?C)) = buf"
    using fit csize_volume(1) [OF s'(6)] unfolding s'(5) by (simp add: take_drop_patch)
  have "\<exists>s''. fat16_read s' rd 1 (word_of_nat (length buf)) = Some (int (length buf), buf, s'')
      \<and> layout s'' (F(i := ?C))"
    if "desc_item rd = Some (items_of s' ! i)" "ff_pos rd = word_of_nat off" for rd
  proof -
    from fat16_read_eq [OF R ch assms(12) rc that(1) _ that(2) _ fit small rb] fc item obtain s'' where
      r: "fat16_read s' rd 1 (word_of_nat (length buf)) =
         Some (int (length buf), take (length buf * 1) (drop off (contents s' ?C)), s'')" "agrees s' (k_drive s') s''"
      by auto
    have "layout s'' (F(i := ?C))"
      using agrees_volume [OF r(2) R] agrees_drive [OF r(2)] by (intro layout_cong(1) [OF s'(2)]) simp_all
    with r(1) show ?thesis unfolding bytes by blast
  qed
  with s'(1,2,4) d' show ?thesis by blast
qed

text \<open>
  \<^verbatim>\<open>fat16_delete\<close> of a name that the root directory has returns success, keeps the
  invariant of the volume and every other file, makes exactly the clusters of the file free,
  leaves a free slot behind, and the name is then not found in that slot any more.
\<close>

lemma fat16_delete_correct:
  assumes "layout s F" and "cstr_of (pp_part part) xs" and "length xs < PEACHOS_MAX_PATH"
    and "fat16_find_root_dir_slot_by_name s (pp_part part) = Some (int i)"
  shows "\<exists>s'. fat16_delete s (part # parts) = Some (0, s') \<and> layout s' (F(i := [])) \<and> others_kept s F i s'
     \<and> set (free_clusters s') = set (free_clusters s) \<union> set (F i) \<and> free_slot (items_of s' ! i)
     \<and> fat16_find_root_dir_slot_by_name s' (pp_part part) \<noteq> Some (int i)"
proof -
  note L = layoutD [OF assms(1)]
  have idx: "first_index (\<lambda>it. di_filename it ! 0 = 0) (named_slot xs) (items_of s) = Some i"
    using find_slot_eq [OF L(1) assms(2,3)] assms(4) by (auto split: option.splits)
  from fat16_delete_eq [OF assms(1-3) idx] obtain s' where
    s': "fat16_delete s (part # parts) = Some (0, s')" "layout s' (F(i := []))" "others_kept s F i s'"
    "items_of s' = (items_of s)[i := deleted (items_of s ! i)]"
    "set (free_clusters s') = set (free_clusters s) \<union> set (F i)" by blast
  have i: "i < ents s" using first_index_Some(1) [OF idx] length_items [OF L(1)] by simp
  have fr: "free_slot (items_of s' ! i)"
    using s'(4) i length_items [OF L(1)] deleted_simps(3) entry_okD(1) [OF L(4) [OF i]] by simp
  have "fat16_find_root_dir_slot_by_name s' (pp_part part) \<noteq> Some (int i)"
    using find_slot_eq [OF layoutD(1) [OF s'(2)] assms(2,3)] fr named_slot_free first_index_Some(2)
    by (fastforce split: option.splits)
  with s' fr show ?thesis by blast
qed

text \<open>
  No call of \<^verbatim>\<open>fat16_open\<close> returns a descriptor for a path of more than one component for reading, because every item the lookup returns has the
  type of a file.
\<close>

lemma open_deep_fails:
  assumes "fat16_open s (part # part' # parts) FILE_MODE_READ = Some (r, s')"
  shows "\<exists>err. r = Inl err"
proof -
  from assms obtain a s1 where a: "k_zalloc s 12 = Some (a, s1)"
    "(if a = 0 then Some (Inl (- ENOMEM), s1) else
      do { (item, s2) \<leftarrow> fat16_get_directory_entry s1 (part # part' # parts);
           case item of None \<Rightarrow> do { s3 \<leftarrow> k_free s2 a; Some (Inl (- EIO), s3) }
           | Some it \<Rightarrow> Some (Inr \<lparr>ff_addr = a, ff_item = it, ff_pos = 0, ff_root_dir_slot = -1\<rparr>, s2) }) = Some (r, s')"
    by (auto simp: fat16_open_def fat16_open_read_def run_iff)
  show ?thesis
  proof (cases "a = 0")
    case False
    with a(2) obtain item s2 where e: "fat16_get_directory_entry s1 (part # part' # parts) = Some (item, s2)"
      "(case item of None \<Rightarrow> do { s3 \<leftarrow> k_free s2 a; Some (Inl (- EIO), s3) }
        | Some it \<Rightarrow> Some (Inr \<lparr>ff_addr = a, ff_item = it, ff_pos = 0, ff_root_dir_slot = -1\<rparr>, s2)) = Some (r, s')"
      by (auto simp: bind_Some_iff)
    have "item = None" by (rule directory_entry_deep [OF e(1)])
    with e(2) show ?thesis by (auto simp: bind_Some_iff)
  qed (use a(2) in auto)
qed

text \<open>
  C40: \<^verbatim>\<open>fat16_readdir\<close> with a buffer of at least 13 bytes enumerates the files of the root
  directory: index \<open>n\<close> gives the name of the \<open>n\<close>-th entry that is neither deleted nor a volume
  label nor a subdirectory, and an index past the last one gives 0 and leaves the buffer.
\<close>

theorem fat16_readdir_lists:
  assumes "ready s" and "length buf = nat buf_size" and "13 \<le> buf_size" and "buf_size < 2 ^ 31" and "0 \<le> index"
  shows "if nat index < length (listing (items_of s))
     then \<exists>r. fat16_readdir s index buf buf_size = Some (1, item_name (listing (items_of s) ! nat index) @ 0 # r)
            \<and> length (item_name (listing (items_of s) ! nat index) @ 0 # r) = nat buf_size
     else fat16_readdir s index buf buf_size = Some (0, buf)"
proof -
  obtain p where p: "dk_fs_private (k_disk s) = Some p" "priv s = p" using assms(1) by (auto simp: ready_def priv_def)
  have n: "nat (u32 buf_size) = nat buf_size" using assms(3,4) by (simp add: u32_id)
  have run: "fat16_readdir s index buf buf_size =
      (let l = listing (items_of s)
       in if nat index < length l
          then map_option (\<lambda>b. (1, b)) (fat16_get_full_relative_filename (l ! nat index) buf (nat buf_size))
          else Some (0, buf))"
    using readdir_loop_eq [of 0 "ents s" "items_of s" 0 index buf "nat buf_size"] length_items [OF assms(1)] assms(5)
    by (simp add: fat16_readdir_def p ents_def n Let_def)
  have "nat buf_size \<le> length buf" "13 \<le> nat buf_size" using assms(2,3) by simp_all
  from full_relative_filename_eq [OF this, of "listing (items_of s) ! nat index"] run assms(2) show ?thesis
    by (auto simp: Let_def)
qed

theorem fat16_readdir_lists_witness:
  "fat16_readdir demo_volume 0 (replicate 16 1) 16 = Some (0, replicate 16 1)"
proof -
  have "listing (items_of demo_volume) = []"
    by (simp add: listing_def demo_items decode_item_def numeral_eq_Suc)
  then show ?thesis
    using fat16_readdir_lists [OF demo_ready, of "replicate 16 1" 16 0 "\<lambda>a. 0"] by simp
qed

end
