(* ===== verification/Fat16_Volume.thy ===== *)
theory Fat16_Volume
  imports Fat16
begin

text \<open>
  What a mounted FAT16 volume stores, as a finite map from file names to bytes, and the proof
  that the operations of \<^verbatim>\<open>src/src/fs/fat/fat16.c\<close> implement the contract \<open>file_store\<close> of the
  virtual file layer: opening for writing empties or creates a file, a write changes the bytes
  of one file, a read returns them, a deletion removes the name, and nothing else changes.
\<close>

section \<open>Names\<close>

text \<open>A name of the form \<^verbatim>\<open>base.ext\<close> that the directory can store.\<close>

definition good_name :: "byte list \<Rightarrow> bool" where
  "good_name xs \<longleftrightarrow> (\<exists>base ext. xs = dotted base ext \<and> name83 base ext \<and> hd base \<noteq> 0xE5) \<and> 0x2F \<notin> set xs"

lemma same_name_canon: "same_name xs ys \<longleftrightarrow> canon xs = canon ys"
  by (simp add: same_name_def canon_def)

lemma tolower_special:
  assumes "v = 0x2E \<or> v = 0xE5"
  shows "tolower c = v \<longleftrightarrow> c = v"
proof -
  have "\<not> (65 \<le> sint c \<and> sint c \<le> 90)" if "c + 32 = v"
  proof -
    have "c = v - 32" using that by (simp add: eq_diff_eq)
    with assms show ?thesis by auto
  qed
  moreover have "\<not> (65 \<le> sint v \<and> sint v \<le> 90)" using assms by auto
  ultimately show ?thesis by (auto simp: tolower_def)
qed

lemma good_nameD:
  assumes "good_name xs"
  shows "xs \<noteq> []" "length xs \<le> 12" "hd xs \<noteq> 0xE5" "hd xs \<noteq> 0x2E" "0x2F \<notin> set xs" "length xs < PEACHOS_MAX_PATH"
proof -
  from assms obtain base ext where b: "xs = dotted base ext" "name83 base ext" "hd base \<noteq> 0xE5"
    by (auto simp: good_name_def)
  then have n: "base \<noteq> []" "length base \<le> 8" "length ext \<le> 3" "name_char (hd base)"
    by (auto simp: name83_def list_all_iff)
  then have h: "hd xs = hd base" by (simp add: b(1) dotted_def)
  show "xs \<noteq> []" "length xs \<le> 12" "length xs < PEACHOS_MAX_PATH" using n by (auto simp: b(1) dotted_def)
  show "hd xs \<noteq> 0xE5" "hd xs \<noteq> 0x2E" using h b(3) n(4) by (simp_all add: name_char_def)
  show "0x2F \<notin> set xs" using assms by (simp add: good_name_def)
qed

lemma free_slot_name:
  assumes "wf_item it" and "free_slot it" and "good_name xs"
  shows "canon (item_name it) \<noteq> canon xs"
proof
  assume eq: "canon (item_name it) = canon xs"
  note G = good_nameD [OF assms(3)]
  obtain c r where f: "di_filename it = c # r"
    using assms(1) by (cases "di_filename it") (auto simp: wf_item_def)
  have ne: "item_name it \<noteq> []" using eq G(1) by (auto simp: canon_def)
  then have hd: "tolower (hd (item_name it)) = tolower (hd xs)"
    using eq G(1) by (metis canon_def list.map_sel(1))
  have "hd (item_name it) = 0x2E \<or> hd (item_name it) = 0xE5"
    using assms(2) f ne by (auto simp: free_slot_def item_name_def dotted_def visible_char_def split: if_splits)
  with hd tolower_special G(3,4) show False by metis
qed

section \<open>Lookup by name\<close>

definition slot_of :: "kstate \<Rightarrow> byte list \<Rightarrow> nat option" where
  "slot_of s k = find (\<lambda>i. \<not> free_slot (items_of s ! i) \<and> canon (item_name (items_of s ! i)) = k) [0..<ents s]"

text \<open>
  The invariant of the root directory. Every entry in use is a file, names are unique, the
  count \<^verbatim>\<open>root_directory.total\<close> reaches all of them, and nothing follows an entry that was
  never used.
\<close>

definition dir_ok :: "kstate \<Rightarrow> bool" where
  "dir_ok s \<longleftrightarrow> 0 \<le> fd_total (root_of s) \<and> fd_total (root_of s) \<le> int (ents s)
     \<and> (\<forall>i < ents s. \<not> free_slot (items_of s ! i) \<longrightarrow>
          int i < fd_total (root_of s) \<and> di_attribute (items_of s ! i) AND 0x18 = 0)
     \<and> (\<forall>i < ents s. \<forall>j < ents s. i \<le> j \<longrightarrow> di_filename (items_of s ! i) ! 0 = 0 \<longrightarrow> di_filename (items_of s ! j) ! 0 = 0)
     \<and> (\<forall>i < ents s. \<forall>j < ents s. \<not> free_slot (items_of s ! i) \<longrightarrow> \<not> free_slot (items_of s ! j) \<longrightarrow>
          canon (item_name (items_of s ! i)) = canon (item_name (items_of s ! j)) \<longrightarrow> i = j)"

lemma dir_okD:
  assumes "dir_ok s"
  shows "0 \<le> fd_total (root_of s)" "fd_total (root_of s) \<le> int (ents s)"
    "i < ents s \<Longrightarrow> \<not> free_slot (items_of s ! i) \<Longrightarrow> int i < fd_total (root_of s)"
    "i < ents s \<Longrightarrow> \<not> free_slot (items_of s ! i) \<Longrightarrow> di_attribute (items_of s ! i) AND 0x18 = 0"
    "i < ents s \<Longrightarrow> j < ents s \<Longrightarrow> i \<le> j \<Longrightarrow> di_filename (items_of s ! i) ! 0 = 0 \<Longrightarrow> di_filename (items_of s ! j) ! 0 = 0"
    "i < ents s \<Longrightarrow> j < ents s \<Longrightarrow> \<not> free_slot (items_of s ! i) \<Longrightarrow> \<not> free_slot (items_of s ! j) \<Longrightarrow>
       canon (item_name (items_of s ! i)) = canon (item_name (items_of s ! j)) \<Longrightarrow> i = j"
  using assms unfolding dir_ok_def by blast+

lemma used_before:
  "dir_ok s \<Longrightarrow> i < ents s \<Longrightarrow> \<not> free_slot (items_of s ! i) \<Longrightarrow> j < i \<Longrightarrow> di_filename (items_of s ! j) ! 0 \<noteq> 0"
  using dir_okD(5) [of s j i] by (auto simp: free_slot_def)

lemma slot_of_None:
  "slot_of s k = None \<longleftrightarrow> (\<forall>i < ents s. \<not> free_slot (items_of s ! i) \<longrightarrow> canon (item_name (items_of s ! i)) \<noteq> k)"
  by (auto simp: slot_of_def find_None_iff)

lemma slot_of_SomeD:
  "slot_of s k = Some i \<Longrightarrow> i < ents s \<and> \<not> free_slot (items_of s ! i) \<and> canon (item_name (items_of s ! i)) = k"
  by (auto simp: slot_of_def find_Some_iff)

lemma slot_of_Some:
  assumes "dir_ok s"
  shows "slot_of s k = Some i \<longleftrightarrow> i < ents s \<and> \<not> free_slot (items_of s ! i) \<and> canon (item_name (items_of s ! i)) = k"
proof
  assume r: "i < ents s \<and> \<not> free_slot (items_of s ! i) \<and> canon (item_name (items_of s ! i)) = k"
  then obtain j where j: "slot_of s k = Some j" using slot_of_None [of s k] by (cases "slot_of s k") auto
  with slot_of_SomeD [OF j] r dir_okD(6) [OF assms, of j i] show "slot_of s k = Some i" by auto
qed (rule slot_of_SomeD)

lemma first_index_None:
  assumes "first_index E P xs = None" and "k < length xs" and "P (xs ! k)"
  shows "\<exists>j \<le> k. E (xs ! j)"
  using assms
proof (induction xs arbitrary: k)
  case (Cons x xs)
  show ?case
  proof (cases "E x")
    case False
    with Cons.prems obtain k' where k: "k = Suc k'" "first_index E P xs = None"
      by (cases k) (auto simp: first_index_Cons split: if_splits)
    with Cons.IH [of k'] Cons.prems obtain j where "j \<le> k'" "E (xs ! j)" by auto
    with k show ?thesis by (intro exI [of _ "Suc j"]) simp
  qed auto
qed simp

text \<open>The search of \<^verbatim>\<open>fat16_find_root_dir_slot_by_name\<close> finds the file.\<close>

lemma lookup_slot:
  assumes "ready s" and "dir_ok s"
  shows "first_index (\<lambda>it. di_filename it ! 0 = 0) (named_slot xs) (items_of s) = slot_of s (canon xs)"
proof -
  note D = dir_okD [OF assms(2)] and len = length_items [OF assms(1)]
  show ?thesis
  proof (cases "first_index (\<lambda>it. di_filename it ! 0 = 0) (named_slot xs) (items_of s)")
    case (Some i)
    from first_index_Some(1,2) [OF this] Some show ?thesis
      using slot_of_Some [OF assms(2), of "canon xs" i] len by (simp add: named_slot_def same_name_canon)
  next
    case None
    have "slot_of s (canon xs) = None"
      unfolding slot_of_None
    proof (intro allI impI notI)
      fix i assume i: "i < ents s" "\<not> free_slot (items_of s ! i)" "canon (item_name (items_of s ! i)) = canon xs"
      then have "named_slot xs (items_of s ! i)"
        using D(4) [OF i(1,2)] by (auto simp: named_slot_def same_name_canon)
      from first_index_None [OF None _ this] i(1) len obtain j where "j \<le> i" "di_filename (items_of s ! j) ! 0 = 0" by auto
      with D(5) [of j i] i show False by (simp add: free_slot_def)
    qed
    with None show ?thesis by simp
  qed
qed

lemma free_slot_found:
  assumes "ready s" and "i < ents s" and "free_slot (items_of s ! i)"
  obtains j where "first_index (\<lambda>_. False) free_slot (items_of s) = Some j" "j \<le> i"
proof (cases "first_index (\<lambda>_. False) free_slot (items_of s)")
  case None
  from first_index_None [OF this _ assms(3)] assms(2) length_items [OF assms(1)] show thesis by simp
next
  case (Some j)
  with first_index_Some(4) [OF Some, of i] assms(3) that show thesis by (cases "i < j") auto
qed

section \<open>Updates of one slot\<close>

lemma dir_update:
  assumes "ready s" and "dir_ok s" and "i < ents s" and n: "ents s' = ents s"
    and its: "items_of s' = (items_of s)[i := it]" and z: "di_filename it ! 0 \<noteq> 0"
    and before: "\<And>j. j < i \<Longrightarrow> di_filename (items_of s ! j) ! 0 \<noteq> 0"
    and tot: "fd_total (root_of s) \<le> fd_total (root_of s')" "fd_total (root_of s') \<le> int (ents s)"
    and live: "\<not> free_slot it \<Longrightarrow> int i < fd_total (root_of s') \<and> di_attribute it AND 0x18 = 0"
    and name: "\<And>j. \<not> free_slot it \<Longrightarrow> j < ents s \<Longrightarrow> j \<noteq> i \<Longrightarrow> \<not> free_slot (items_of s ! j) \<Longrightarrow>
          canon (item_name (items_of s ! j)) \<noteq> canon (item_name it)"
  shows "dir_ok s'"
proof -
  note D = dir_okD [OF assms(2)]
  have nth: "items_of s' ! j = (if j = i then it else items_of s ! j)" if "j < ents s" for j
    using that assms(3) length_items [OF assms(1)] by (simp add: its)
  have "int j < fd_total (root_of s') \<and> di_attribute (items_of s' ! j) AND 0x18 = 0"
    if "j < ents s" "\<not> free_slot (items_of s' ! j)" for j
    using that nth live D(3,4) [of j] tot(1) by (cases "j = i") auto
  moreover have "di_filename (items_of s' ! k) ! 0 = 0"
    if "j < ents s" "k < ents s" "j \<le> k" "di_filename (items_of s' ! j) ! 0 = 0" for j k
  proof -
    have "j \<noteq> i" "\<not> j < i" using that nth z before by auto
    then have "i < j" by simp
    with that nth D(5) [of j k] show ?thesis by simp
  qed
  moreover have "j = k" if "j < ents s" "k < ents s" "\<not> free_slot (items_of s' ! j)" "\<not> free_slot (items_of s' ! k)"
    "canon (item_name (items_of s' ! j)) = canon (item_name (items_of s' ! k))" for j k
    using that nth name [of j] name [of k] D(6) [of j k] by (cases "j = i"; cases "k = i") auto
  moreover have "0 \<le> fd_total (root_of s')" using D(1) tot(1) by simp
  ultimately show ?thesis unfolding dir_ok_def n using tot(2) by blast
qed

lemma dir_update_same_name:
  assumes "ready s" and "dir_ok s" and i: "i < ents s" and "ents s' = ents s"
    and its: "items_of s' = (items_of s)[i := it]" and live: "\<not> free_slot (items_of s ! i)"
    and same: "di_filename it = di_filename (items_of s ! i)" "item_name it = item_name (items_of s ! i)"
      "di_attribute it = di_attribute (items_of s ! i)" and tot: "fd_total (root_of s') = fd_total (root_of s)"
  shows "dir_ok s'"
proof (rule dir_update [OF assms(1,2) i assms(4) its])
  note D = dir_okD [OF assms(2)]
  show "di_filename it ! 0 \<noteq> 0" using live same(1) by (simp add: free_slot_def)
  show "\<And>j. j < i \<Longrightarrow> di_filename (items_of s ! j) ! 0 \<noteq> 0" by (rule used_before [OF assms(2) i live])
  show "int i < fd_total (root_of s') \<and> di_attribute it AND 0x18 = 0" using D(3,4) [OF i live] same(3) tot by simp
  show "canon (item_name (items_of s ! j)) \<noteq> canon (item_name it)"
    if "j < ents s" "j \<noteq> i" "\<not> free_slot (items_of s ! j)" for j
    using D(6) [OF that(1) i that(3) live] that(2) same(2) by auto
qed (use dir_okD(2) [OF assms(2)] tot in simp_all)

lemma slot_of_update:
  assumes "ready s" and "dir_ok s" and "dir_ok s'" and "i < ents s" and "ents s' = ents s"
    and its: "items_of s' = (items_of s)[i := it]"
  shows "slot_of s' m = (if \<not> free_slot it \<and> canon (item_name it) = m then Some i
     else if slot_of s m = Some i then None else slot_of s m)"
proof -
  have nth: "items_of s' ! j = (if j = i then it else items_of s ! j)" if "j < ents s" for j
    using that assms(4) length_items [OF assms(1)] by (simp add: its)
  let ?r = "if \<not> free_slot it \<and> canon (item_name it) = m then Some i else if slot_of s m = Some i then None else slot_of s m"
  have "slot_of s' m = Some j \<longleftrightarrow> ?r = Some j" for j
  proof -
    have "slot_of s' m = Some i" if "\<not> free_slot it \<and> canon (item_name it) = m"
      using that nth [OF assms(4)] assms(4,5) by (simp add: slot_of_Some [OF assms(3)])
    moreover have "slot_of s' m = Some j \<longleftrightarrow> j \<noteq> i \<and> slot_of s m = Some j" if "\<not> (\<not> free_slot it \<and> canon (item_name it) = m)"
      unfolding slot_of_Some [OF assms(3)] slot_of_Some [OF assms(2)] assms(5)
      using that nth by (cases "j = i") auto
    ultimately show ?thesis by auto
  qed
  then show ?thesis by (metis option.exhaust)
qed

section \<open>Files\<close>

text \<open>
  A cluster is usable when its bytes lie below the reach of a stream position and its number
  is not one that \<^verbatim>\<open>fat16_get_cluster_for_offset\<close> takes for a mark.
\<close>

definition usable :: "kstate \<Rightarrow> nat \<Rightarrow> bool" where
  "usable s c \<longleftrightarrow> reach s c \<and> c \<notin> marks12"

definition volume :: "kstate \<Rightarrow> (nat \<Rightarrow> nat list) \<Rightarrow> bool" where
  "volume s F \<longleftrightarrow> layout s F \<and> dir_ok s
     \<and> (\<forall>i < ents s. \<not> free_slot (items_of s ! i) \<longrightarrow>
          unat (di_filesize (items_of s ! i)) \<le> length (F i) * csize s
          \<and> unat (di_filesize (items_of s ! i)) < 2 ^ 31 \<and> (\<forall>c \<in> set (F i). usable s c))"

definition file_bytes :: "kstate \<Rightarrow> (nat \<Rightarrow> nat list) \<Rightarrow> nat \<Rightarrow> byte list" where
  "file_bytes s F i = take (unat (di_filesize (items_of s ! i))) (contents s (F i))"

definition files :: "kstate \<Rightarrow> (nat \<Rightarrow> nat list) \<Rightarrow> byte list \<Rightarrow> byte list option" where
  "files s F k = map_option (file_bytes s F) (slot_of s k)"

text \<open>The abstraction: the volume of \<open>s\<close> stores the files \<open>M\<close>.\<close>

definition stores :: "kstate \<Rightarrow> (byte list \<rightharpoonup> byte list) \<Rightarrow> bool" where
  "stores s M \<longleftrightarrow> (\<exists>F. volume s F \<and> files s F = M)"

lemma volumeD:
  assumes "volume s F"
  shows "layout s F" "dir_ok s" "ready s"
    "i < ents s \<Longrightarrow> \<not> free_slot (items_of s ! i) \<Longrightarrow> unat (di_filesize (items_of s ! i)) \<le> length (F i) * csize s"
    "i < ents s \<Longrightarrow> \<not> free_slot (items_of s ! i) \<Longrightarrow> unat (di_filesize (items_of s ! i)) < 2 ^ 31"
    "i < ents s \<Longrightarrow> \<not> free_slot (items_of s ! i) \<Longrightarrow> c \<in> set (F i) \<Longrightarrow> usable s c"
  using assms layoutD(1) by (auto simp: volume_def)

lemma usable_volume: "same_volume s s' \<Longrightarrow> usable s' c = usable s c"
  using csize_volume(3) by (simp add: usable_def)

lemma length_file_bytes:
  "volume s F \<Longrightarrow> i < ents s \<Longrightarrow> \<not> free_slot (items_of s ! i) \<Longrightarrow>
     length (file_bytes s F i) = unat (di_filesize (items_of s ! i))"
  using volumeD(4) [of s F i] by (simp add: file_bytes_def)

text \<open>
  The general form of an update: slot \<open>i\<close> gets the entry \<open>it\<close> with the clusters \<open>cs\<close>, and all
  other slots and their bytes stay.
\<close>

lemma volume_update:
  assumes "volume s F" and "i < ents s" and vol: "same_volume s s'" and "layout s' (F(i := cs))" and "dir_ok s'"
    and its: "items_of s' = (items_of s)[i := it]" and kept: "others_kept s F i s'"
    and size: "\<not> free_slot it \<Longrightarrow> unat (di_filesize it) \<le> length cs * csize s"
      "\<not> free_slot it \<Longrightarrow> unat (di_filesize it) < 2 ^ 31"
      "\<not> free_slot it \<Longrightarrow> \<forall>c \<in> set cs. usable s c"
    and old: "\<forall>m. slot_of s m = Some i \<longrightarrow> m = k" and new: "\<not> free_slot it \<Longrightarrow> canon (item_name it) = k"
  shows "volume s' (F(i := cs))"
    and "\<not> free_slot it \<Longrightarrow> slot_of s' k = Some i"
    and "m \<noteq> k \<Longrightarrow> slot_of s' m = slot_of s m"
    and "files s' (F(i := cs)) = (files s F)(k := if free_slot it then (if slot_of s k = Some i then None else files s F k)
           else Some (take (unat (di_filesize it)) (contents s' cs)))"
proof -
  note V = volumeD [OF assms(1)] and G = same_volume_geometry(4) [OF vol]
  have nth: "items_of s' ! j = (if j = i then it else items_of s ! j)" if "j < ents s" for j
    using that assms(2) length_items [OF V(3)] by (simp add: its)
  note S = slot_of_update [OF V(3,2) assms(5,2) G its]
  show "volume s' (F(i := cs))"
    unfolding volume_def G
    using assms(4,5) nth size V(4-6) csize_volume(1) [OF vol] usable_volume [OF vol] by auto
  show "slot_of s' k = Some i" if "\<not> free_slot it" using that new S [of k] by simp
  show other: "slot_of s' m = slot_of s m" if "m \<noteq> k" for m
    using that old new S [of m] by auto
  show "files s' (F(i := cs)) = (files s F)(k := if free_slot it then (if slot_of s k = Some i then None else files s F k)
           else Some (take (unat (di_filesize it)) (contents s' cs)))" (is "_ = ?r")
  proof
    fix m
    have fb: "file_bytes s' (F(i := cs)) j = (if j = i then take (unat (di_filesize it)) (contents s' cs) else file_bytes s F j)"
      if "j < ents s" for j
      using nth [OF that] kept that by (simp add: file_bytes_def others_kept_def)
    show "files s' (F(i := cs)) m = ?r m"
    proof (cases "m = k")
      case False
      have "file_bytes s' (F(i := cs)) j = file_bytes s F j" if "slot_of s m = Some j" for j
        using that fb [of j] slot_of_SomeD [OF that] old False by auto
      then show ?thesis using False other [OF False] by (cases "slot_of s m") (simp_all add: files_def)
    next
      case True
      have "file_bytes s' (F(i := cs)) j = file_bytes s F j" if "slot_of s k = Some j" "j \<noteq> i" for j
        using fb [of j] slot_of_SomeD [OF that(1)] that by auto
      then show ?thesis using True new S [of k] fb [OF assms(2)]
        by (cases "slot_of s k") (auto simp: files_def)
    qed
  qed
qed

section \<open>Room\<close>

text \<open>The clusters that the next allocations take are usable.\<close>

definition units :: "kstate \<Rightarrow> nat list \<Rightarrow> nat" where
  "units s ns = sum_list (map (clusters_for s) ns)"

definition data_room :: "kstate \<Rightarrow> nat list \<Rightarrow> bool" where
  "data_room s ns \<longleftrightarrow> units s ns \<le> length (free_clusters s) \<and> (\<forall>c \<in> set (take (units s ns) (free_clusters s)). usable s c)"

definition free_slots :: "kstate \<Rightarrow> nat set" where
  "free_slots s = {i. i < ents s \<and> free_slot (items_of s ! i)}"

definition entry_room :: "kstate \<Rightarrow> nat \<Rightarrow> bool" where
  "entry_room s n \<longleftrightarrow> n \<le> card (free_slots s)"

lemma finite_free_slots [simp]: "finite (free_slots s)"
  by (simp add: free_slots_def)

lemma free_slots_update:
  assumes "ready s" and "i < ents s" and "ents s' = ents s" and "items_of s' = (items_of s)[i := it]"
  shows "free_slots s' = (if free_slot it then insert i (free_slots s) else free_slots s - {i})"
proof -
  have "items_of s' ! j = (if j = i then it else items_of s ! j)" if "j < ents s" for j
    using that assms(2,4) length_items [OF assms(1)] by simp
  with assms(2,3) show ?thesis by (auto simp: free_slots_def split: if_splits)
qed

lemma units_volume: "same_volume s s' \<Longrightarrow> units s' ns = units s ns"
  by (simp add: units_def clusters_for_def [abs_def] csize_volume(1))

lemma take_filter_mono:
  assumes "\<And>x. x \<in> set xs \<Longrightarrow> P x \<Longrightarrow> Q x"
  shows "length (filter P xs) \<le> length (filter Q xs)"
    and "x \<in> set (take k (filter Q xs)) \<Longrightarrow> P x \<Longrightarrow> x \<in> set (take k (filter P xs))"
proof -
  show "length (filter P xs) \<le> length (filter Q xs)"
    using assms by (induction xs) (auto intro: le_SucI)
  show "x \<in> set (take k (filter P xs))" if "x \<in> set (take k (filter Q xs))" "P x"
    using that assms
  proof (induction xs arbitrary: k)
    case (Cons a xs)
    show ?case
    proof (cases k)
      case (Suc k')
      have ih: "x \<in> set (take k' (filter Q xs)) \<Longrightarrow> x \<in> set (take k' (filter P xs))"
        "x \<in> set (take k (filter Q xs)) \<Longrightarrow> x \<in> set (take k (filter P xs))"
        using Cons.IH Cons.prems(2,3) by auto
      have "set (take k' (filter P xs)) \<subseteq> set (take k (filter P xs))"
        using Suc by (simp add: set_take_subset_set_take)
      then show ?thesis using Cons.prems Suc ih by (auto split: if_splits)
    qed (use Cons.prems in simp)
  qed simp
qed

lemma data_room_mono:
  assumes vol: "same_volume s s'" and "set (free_clusters s) \<subseteq> set (free_clusters s')"
    and "\<And>c. c \<in> set (free_clusters s') \<Longrightarrow> c \<in> set (free_clusters s) \<or> usable s c" and "data_room s ns"
  shows "data_room s' ns"
proof -
  note G = same_volume_geometry(7) [OF vol]
  have sub: "fat_at s' c = 0" if c: "c \<in> set [2..<2 + clusters s]" "fat_at s c = 0" for c
  proof -
    have "c \<in> set (free_clusters s)" using c by (simp only: free_clusters_mem set_upt atLeastLessThan_iff)
    then have "c \<in> set (free_clusters s')" using assms(2) by blast
    then show ?thesis by (simp add: free_clusters_mem)
  qed
  note T = take_filter_mono [of "[2..<2 + clusters s]" "\<lambda>c. fat_at s c = 0" "\<lambda>c. fat_at s' c = 0", OF sub]
  have c: "units s' ns = units s ns" by (rule units_volume [OF vol])
  have "usable s x" if x: "x \<in> set (take (units s ns) (free_clusters s'))" for x
  proof (cases "usable s x")
    case False
    then have "x \<in> set (free_clusters s)" using assms(3) in_set_takeD [OF x] by auto
    then have "fat_at s x = 0" by (simp add: free_clusters_def)
    then have "x \<in> set (take (units s ns) (free_clusters s))"
      using T(2) x G by (simp add: free_clusters_def)
    with assms(4) show ?thesis by (simp add: data_room_def)
  qed
  moreover have "length (free_clusters s) \<le> length (free_clusters s')"
    using T(1) G by (simp add: free_clusters_def)
  ultimately show ?thesis using assms(4) c usable_volume [OF vol] by (simp add: data_room_def)
qed

lemma data_room_cong:
  assumes vol: "same_volume s s'" and "k_drive s' = k_drive s" and its: "items_of s' = items_of s"
  shows "data_room s' ns = data_room s ns" "entry_room s' n = entry_room s n"
proof -
  have "fat_at s' = fat_at s" by (simp add: fun_eq_iff fat_at_def assms(2) agrees_offs [OF vol])
  then have "free_clusters s' = free_clusters s"
    by (simp add: free_clusters_def same_volume_geometry(7) [OF vol])
  then show "data_room s' ns = data_room s ns"
    by (simp add: data_room_def units_volume [OF vol] usable_volume [OF vol])
  show "entry_room s' n = entry_room s n"
    by (simp only: entry_room_def free_slots_def its same_volume_geometry(4) [OF vol])
qed

lemma data_room_heap: "data_room (s\<lparr>k_heap := h\<rparr>) ns = data_room s ns" "entry_room (s\<lparr>k_heap := h\<rparr>) n = entry_room s n"
  by (rule data_room_cong; simp)+

section \<open>Descriptors\<close>

text \<open>\<open>fat_opened s d w k p\<close>: \<open>d\<close> holds a current copy of the entry of the file \<open>k\<close>.\<close>

definition fat_opened :: "kstate \<Rightarrow> fat_file_descriptor \<Rightarrow> bool \<Rightarrow> byte list \<Rightarrow> nat \<Rightarrow> bool" where
  "fat_opened s d w k p \<longleftrightarrow> p < 2 ^ 31 \<and> ff_pos d = word_of_nat p \<and> fi_type (ff_item d) = FAT_ITEM_TYPE_FILE
     \<and> (\<exists>i. slot_of s k = Some i \<and> desc_item d = Some (items_of s ! i) \<and> (w \<longrightarrow> ff_root_dir_slot d = int i))"

lemma slot_of_cong: "items_of s' = items_of s \<Longrightarrow> ents s' = ents s \<Longrightarrow> slot_of s' k = slot_of s k"
  by (simp only: slot_of_def)

lemma fat_opened_cong: "items_of s' = items_of s \<Longrightarrow> ents s' = ents s \<Longrightarrow> fat_opened s' d w k p = fat_opened s d w k p"
  using slot_of_cong [of s' s] by (simp only: fat_opened_def)

lemma undisturbedI:
  assumes "same_volume s s'" and "\<And>m. m \<noteq> k \<Longrightarrow> slot_of s' m = slot_of s m" and "slot_of s k = None \<or> slot_of s k = Some i"
    and "items_of s' = (items_of s)[i := it]" and "dir_ok s" and "i < ents s" and "free_slot (items_of s ! i) \<or> slot_of s k = Some i"
  shows "undisturbed fat_opened s k s'"
proof -
  have "items_of s' ! j = items_of s ! j" if m: "slot_of s m = Some j" "m \<noteq> k" for m j
  proof -
    have "j \<noteq> i" using assms(7) slot_of_SomeD [OF m(1)] slot_of_SomeD [of s k i] m(2) by blast
    then show ?thesis by (simp add: assms(4))
  qed
  then have "fat_opened s' d w m p" if "m \<noteq> k" "fat_opened s d w m p" for d w m p
    using that assms(2) [OF that(1)] by (auto simp: fat_opened_def)
  moreover have "dk_filesystem (k_disk s') = dk_filesystem (k_disk s)" using assms(1) by (simp add: same_volume_def)
  ultimately show ?thesis by (simp add: undisturbed_def)
qed

section \<open>The operations on files\<close>

lemma open_existing:
  assumes "volume s F" and "good_name xs" and "cstr_of (pp_part part) xs" and slot: "slot_of s (canon xs) = Some i"
    and "heap_slack (k_heap s) (j + 3)"
  shows "\<exists>d s'. fat16_open s (part # parts) FILE_MODE_WRITE = Some (Inr d, s') \<and> volume s' (F(i := []))
     \<and> files s' (F(i := [])) = (files s F)(canon xs \<mapsto> []) \<and> desc_at s' d i \<and> slot_of s' (canon xs) = Some i \<and> ff_pos d = 0
     \<and> undisturbed fat_opened s (canon xs) s' \<and> (\<forall>ns. data_room s ns \<longrightarrow> data_room s' ns) \<and> free_slots s' = free_slots s
     \<and> heap_slack (k_heap s') j \<and> grown heap_live (k_heap s) (rev (desc_addrs d)) (k_heap s')"
proof -
  note V = volumeD [OF assms(1)] and I = slot_of_SomeD [OF slot]
  have i: "i < ents s" and live: "\<not> free_slot (items_of s ! i)" and nm: "canon (item_name (items_of s ! i)) = canon xs"
    using I by simp_all
  have look: "first_index (\<lambda>it. di_filename it ! 0 = 0) (named_slot xs) (items_of s) = Some i"
    using lookup_slot [OF V(3,2)] slot by simp
  from fat16_open_write_existing [OF V(1) assms(3) good_nameD(6) [OF assms(2)] look assms(5)] obtain d s' where
    d: "fat16_open s (part # parts) FILE_MODE_WRITE = Some (Inr d, s')" "desc_at s' d i" "ff_pos d = 0"
    "layout s' (F(i := []))" "others_kept s F i s'" "items_of s' = (items_of s)[i := emptied (items_of s ! i)]"
    "same_volume s s'" "set (free_clusters s') = set (free_clusters s) \<union> set (F i)"
    "fd_total (root_of s') = fd_total (root_of s)" "heap_slack (k_heap s') j"
    "grown heap_live (k_heap s) (rev (desc_addrs d)) (k_heap s')" by blast
  note G = same_volume_geometry(4) [OF d(7)]
  have dir: "dir_ok s'" by (rule dir_update_same_name [OF V(3,2) i G d(6) live]) (use d(9) in simp_all)
  have old: "\<forall>m. slot_of s m = Some i \<longrightarrow> m = canon xs" using slot_of_SomeD nm by blast
  let ?it = "emptied (items_of s ! i)"
  have e: "unat (di_filesize ?it) \<le> length [] * csize s" "unat (di_filesize ?it) < 2 ^ 31" "\<forall>c \<in> set []. usable s c"
    "canon (item_name ?it) = canon xs" "\<not> free_slot ?it" using nm live by simp_all
  note X = volume_update [OF assms(1) i d(7,4) dir d(6,5) e(1-3) old e(4)]
  have U: "volume s' (F(i := []))" "slot_of s' (canon xs) = Some i" "\<And>m. m \<noteq> canon xs \<Longrightarrow> slot_of s' m = slot_of s m"
    using X(1) X(2) [OF e(5)] X(3) by simp_all
  have fl: "files s' (F(i := [])) = (files s F)(canon xs \<mapsto> [])" using X(4) e(5) by (simp only: if_False emptied_simps) simp
  have un: "undisturbed fat_opened s (canon xs) s'"
    by (rule undisturbedI [OF d(7) U(3) _ d(6) V(2) i]) (simp_all add: slot)
  have "data_room s' ns" if "data_room s ns" for ns
    using d(8) V(6) [OF i live] by (intro data_room_mono [OF d(7) _ _ that]) auto
  moreover have "free_slots s' = free_slots s"
    using free_slots_update [OF V(3) i G d(6)] live by (auto simp: free_slots_def)
  ultimately show ?thesis using d U fl un by blast
qed

lemma open_new:
  assumes "volume s F" and "good_name xs" and "cstr_of (pp_part part) xs" and slot: "slot_of s (canon xs) = None"
    and "entry_room s (Suc n)" and "heap_slack (k_heap s) (j + 3)"
  shows "\<exists>d s' i. fat16_open s (part # parts) FILE_MODE_WRITE = Some (Inr d, s') \<and> volume s' F
     \<and> files s' F = (files s F)(canon xs \<mapsto> []) \<and> desc_at s' d i \<and> slot_of s' (canon xs) = Some i \<and> ff_pos d = 0
     \<and> undisturbed fat_opened s (canon xs) s' \<and> (\<forall>ns. data_room s ns \<longrightarrow> data_room s' ns) \<and> entry_room s' n
     \<and> heap_slack (k_heap s') j \<and> grown heap_live (k_heap s) (rev (desc_addrs d)) (k_heap s')"
proof -
  note V = volumeD [OF assms(1)]
  obtain i where fi: "first_index (\<lambda>_. False) free_slot (items_of s) = Some i"
  proof -
    have "free_slots s \<noteq> {}" using assms(5) by (auto simp: entry_room_def)
    then show thesis using that free_slot_found [OF V(3)] by (auto simp: free_slots_def)
  qed
  note I = first_index_Some [OF fi]
  have i: "i < ents s" using I(1) length_items [OF V(3)] by simp
  have look: "first_index (\<lambda>it. di_filename it ! 0 = 0) (named_slot xs) (items_of s) = None"
    using lookup_slot [OF V(3,2)] slot by simp
  obtain base ext where b: "xs = dotted base ext" "name83 base ext" "hd base \<noteq> 0xE5"
    using assms(2) by (auto simp: good_name_def)
  define it where "it = fresh_item (map upper83 base @ replicate (8 - length base) 0x20) (map upper83 ext @ replicate (3 - length ext) 0x20)"
  note N = fresh_item_facts [OF b(2,3) it_def]
  from fat16_open_write_new [OF V(1) assms(3) [unfolded b(1)] b(2,3) look [unfolded b(1)] fi assms(6) it_def] obtain d s' where
    d: "fat16_open s (part # parts) FILE_MODE_WRITE = Some (Inr d, s')" "desc_at s' d i" "ff_pos d = 0"
    "layout s' F" "F i = []" "others_kept s F i s'" "items_of s' = (items_of s)[i := it]"
    "same_volume s s'" "free_clusters s' = free_clusters s"
    "fd_total (root_of s') = max (fd_total (root_of s)) (int i + 1)" "heap_slack (k_heap s') j"
    "grown heap_live (k_heap s) (rev (desc_addrs d)) (k_heap s')" by blast
  note D = dir_okD [OF V(2)] and G = same_volume_geometry(4) [OF d(8)]
  have nm: "canon (item_name it) = canon xs" using N(5) b(1) by (simp add: same_name_canon)
  have at: "di_attribute it AND 0x18 = 0" by (simp add: it_def fresh_item_def)
  have dir: "dir_ok s'"
    using D(2) i N(3) at I(4) slot nm d(10)
    by (intro dir_update [OF V(3,2) i G d(7)]) (auto simp: free_slot_def slot_of_None)
  have old: "\<forall>m. slot_of s m = Some i \<longrightarrow> m = canon xs" using slot_of_SomeD I(2) by blast
  have F: "F(i := []) = F" using d(5) by (simp add: fun_upd_idem_iff)
  have e: "unat (di_filesize it) \<le> length [] * csize s" "unat (di_filesize it) < 2 ^ 31" "\<forall>c \<in> set []. usable s c"
    using N(4) by simp_all
  have lay: "layout s' (F(i := []))" unfolding F by (rule d(4))
  note X = volume_update [OF assms(1) i d(8) lay dir d(7,6) e old nm, unfolded F]
  have U: "volume s' F" "slot_of s' (canon xs) = Some i" "\<And>m. m \<noteq> canon xs \<Longrightarrow> slot_of s' m = slot_of s m"
    using X(1) X(2) [OF N(3)] X(3) by simp_all
  have fl: "files s' F = (files s F)(canon xs \<mapsto> [])" using X(4) N(3,4) by (simp only: if_False) simp
  have un: "undisturbed fat_opened s (canon xs) s'"
    by (rule undisturbedI [OF d(8) U(3) _ d(7) V(2) i]) (simp_all add: slot I(2))
  have "data_room s' ns" if "data_room s ns" for ns
    using d(9) by (intro data_room_mono [OF d(8) _ _ that]) auto
  moreover have "entry_room s' n"
    using free_slots_update [OF V(3) i G d(7)] N(3) I(2) i assms(5) by (simp add: entry_room_def free_slots_def)
  ultimately show ?thesis using d U fl un by blast
qed

lemma desc_at_opened:
  assumes "desc_at s d i" and "slot_of s k = Some i" and "ff_pos d = word_of_nat p" and "p < 2 ^ 31"
  shows "fat_opened s d True k p"
  using assms by (simp add: desc_at_def fat_opened_def)

lemma stores_open_write:
  assumes "stores s M" and "good_name xs" and "cstr_of (pp_part part) xs" and "entry_room s (if M (canon xs) = None then Suc n else n)"
    and "heap_slack (k_heap s) (j + 3)"
  shows "\<exists>d s'. fat16_open s (part # parts) FILE_MODE_WRITE = Some (Inr d, s') \<and> stores s' (M(canon xs \<mapsto> []))
     \<and> fat_opened s' d True (canon xs) 0 \<and> undisturbed fat_opened s (canon xs) s'
     \<and> entry_room s' n \<and> (\<forall>ns. data_room s ns \<longrightarrow> data_room s' ns)
     \<and> heap_slack (k_heap s') j \<and> grown heap_live (k_heap s) (rev (desc_addrs d)) (k_heap s')"
proof -
  obtain F where F: "volume s F" "files s F = M" using assms(1) by (auto simp: stores_def)
  show ?thesis
  proof (cases "slot_of s (canon xs)")
    case None
    then have "entry_room s (Suc n)" using assms(4) F(2) by (auto simp: files_def split: if_splits)
    from open_new [OF F(1) assms(2,3) None this assms(5), of parts] F(2) show ?thesis
      unfolding stores_def using desc_at_opened [where p = 0] by fastforce
  next
    case (Some i)
    then have "entry_room s n" using assms(4) F(2) by (auto simp: files_def)
    then have "entry_room s' n" if "free_slots s' = free_slots s" for s' using that by (simp add: entry_room_def)
    with open_existing [OF F(1) assms(2,3) Some assms(5), of parts] F(2) show ?thesis
      unfolding stores_def using desc_at_opened [where p = 0] by fastforce
  qed
qed

text \<open>A write inside or at the end of a file, on the bytes of the file.\<close>

lemma take_patch_grow:
  assumes "off \<le> n" and "n \<le> length xs" and "off + length buf \<le> length (xs @ ys)"
  shows "take (max n (off + length buf)) (patch (xs @ ys) off buf) = patch (take n xs) off buf"
proof -
  let ?m = "max n (off + length buf)"
  have "take ?m (patch (xs @ ys) off buf) = patch (take ?m (xs @ ys)) off buf"
    using assms by (intro take_patch) auto
  also have "\<dots> = patch (take n xs) off buf"
    using assms by (auto simp: patch_def max_def min_def)
  finally show ?thesis .
qed

lemma write_clusters:
  assumes "0 < csize s" and "off \<le> l * csize s" and "0 < n"
  shows "max l (max (Suc (off div csize s)) (clusters_for s (off + n))) \<le> l + clusters_for s n"
proof -
  have "off + n \<le> (l + clusters_for s n) * csize s"
    using assms(2) clusters_for_cover [OF assms(1), of n] by (simp add: add_mult_distrib)
  then have c: "clusters_for s (off + n) \<le> l + clusters_for s n" by (rule clusters_for_le [OF assms(1)])
  have "Suc (off div csize s) = (off + csize s) div csize s" using div_add_self2 [of "csize s" off] assms(1) by simp
  also have "\<dots> \<le> clusters_for s (off + n)" unfolding clusters_for_def using assms(3) by (intro div_le_mono) simp
  finally show ?thesis using c by simp
qed

text \<open>The clusters that a write of \<open>n\<close> bytes at \<open>p\<close> into the file of slot \<open>i\<close> uses.\<close>

lemma write_plan:
  assumes "volume s F" and "i < ents s" and "\<not> free_slot (items_of s ! i)" and "p \<le> unat (di_filesize (items_of s ! i))"
    and "0 < n" and "data_room s (n # ns)" and L: "L = F i @ free_clusters s"
    and m: "m = max (length (F i)) (max (Suc (p div csize s)) (clusters_for s (p + n)))"
  shows "m \<le> length L" and "take m L = F i @ take (m - length (F i)) (free_clusters s)"
    and "c \<in> set (take m L) \<Longrightarrow> usable s c" and "p + n \<le> m * csize s" and "F i = [] \<Longrightarrow> p < csize s"
    and "length (F i) \<le> m"
    and "same_volume s s' \<Longrightarrow> free_clusters s' = drop m L \<Longrightarrow> data_room s' ns"
proof -
  note V = volumeD [OF assms(1)]
  have cs: "0 < csize s" using csize_pos [OF V(3)] .
  have p: "p \<le> length (F i) * csize s" using assms(4) V(4) [OF assms(2,3)] by simp
  then show "F i = [] \<Longrightarrow> p < csize s" using cs by simp
  have le: "m \<le> length (F i) + clusters_for s n" unfolding m by (rule write_clusters [OF cs p assms(5)])
  then show "m \<le> length L" using assms(6) by (simp add: L data_room_def units_def)
  show C: "take m L = F i @ take (m - length (F i)) (free_clusters s)" by (simp add: L m)
  show lm: "length (F i) \<le> m" by (simp add: m)
  show "usable s c" if "c \<in> set (take m L)"
  proof -
    have "set (take (m - length (F i)) (free_clusters s)) \<subseteq> set (take (clusters_for s n) (free_clusters s))"
      using le by (intro set_take_subset_set_take) simp
    also have "\<dots> \<subseteq> set (take (units s (n # ns)) (free_clusters s))"
      by (intro set_take_subset_set_take) (simp add: units_def)
    finally show ?thesis using that V(6) [OF assms(2,3)] assms(6) unfolding C data_room_def by auto
  qed
  show "data_room s' ns" if vol: "same_volume s s'" and fr: "free_clusters s' = drop m L"
  proof -
    define k where "k = m - length (F i)"
    have k: "free_clusters s' = drop k (free_clusters s)" "k + units s ns \<le> units s (n # ns)"
      using fr le lm by (simp_all add: L k_def units_def)
    have "take (units s ns) (drop k (free_clusters s)) = drop k (take (k + units s ns) (free_clusters s))"
      by (simp add: take_drop add.commute)
    then have "set (take (units s ns) (free_clusters s')) \<subseteq> set (take (k + units s ns) (free_clusters s))"
      unfolding k(1) using set_drop_subset by metis
    also have "\<dots> \<subseteq> set (take (units s (n # ns)) (free_clusters s))" by (rule set_take_subset_set_take [OF k(2)])
    finally show ?thesis
      using assms(6) k by (auto simp: data_room_def units_volume [OF vol] usable_volume [OF vol])
  qed
  have "clusters_for s (p + n) * csize s \<le> m * csize s" unfolding m by (rule mult_le_mono1) simp
  then show "p + n \<le> m * csize s" using clusters_for_cover [OF cs] le_trans by blast
qed

lemma unat_max_nat: "n < 2 ^ 31 \<Longrightarrow> unat (max w (word_of_nat n :: u32)) = max (unat w) n"
proof -
  assume "n < 2 ^ 31"
  then have "unat (word_of_nat n :: u32) = n" by (simp add: unsigned_of_nat take_bit_nat_eq_self_iff)
  then show ?thesis by (simp add: max_def word_le_nat_alt)
qed

lemma volume_write:
  assumes "volume s F" and "desc_at s d i" and slot: "slot_of s k = Some i" and "ff_pos d = word_of_nat p"
    and "p \<le> length (file_bytes s F i)" and "buf \<noteq> []" and "unat sz * unat nmemb = length buf"
    and "p + length buf < 2 ^ 31" and "data_room s (length buf # ns)"
  shows "\<exists>F' it s'. fat16_write s d sz nmemb buf =
        Some (sint nmemb, (put_desc_item d it)\<lparr>ff_pos := word_of_nat (p + length buf)\<rparr>, s')
     \<and> volume s' F' \<and> files s' F' = (files s F)(k \<mapsto> patch (file_bytes s F i) p buf)
     \<and> slot_of s' k = Some i \<and> items_of s' ! i = it \<and> undisturbed fat_opened s k s' \<and> k_heap s' = k_heap s
     \<and> data_room s' ns \<and> free_slots s' = free_slots s \<and> same_volume s s' \<and> items_of s' = (items_of s)[i := it]"
proof -
  note V = volumeD [OF assms(1)]
  have i: "i < ents s" and live: "\<not> free_slot (items_of s ! i)" and nm: "canon (item_name (items_of s ! i)) = k"
    using slot_of_SomeD [OF slot] by simp_all
  let ?n = "unat (di_filesize (items_of s ! i))" and ?e = "p + length buf"
  have p: "p \<le> ?n" using assms(5) length_file_bytes [OF assms(1) i live] by simp
  define L m where L: "L = F i @ free_clusters s"
    and m: "m = max (length (F i)) (max (Suc (p div csize s)) (clusters_for s ?e))"
  have "0 < length buf" using assms(6) by simp
  note P = write_plan [OF assms(1) i live p this assms(9) L m]
  define it where "it = written (items_of s ! i) (first_of (take m L)) (word_of_nat ?e)"
  have rc: "\<And>c. c \<in> set (take m L) \<Longrightarrow> reach s c" using P(3) by (simp add: usable_def)
  from fat16_write_eq [OF V(1) assms(2) live assms(4,7,8) P(5) L m P(1) rc it_def] obtain s' where
    w: "fat16_write s d sz nmemb buf = Some (sint nmemb, (put_desc_item d it)\<lparr>ff_pos := word_of_nat ?e\<rparr>, s')"
    "layout s' (F(i := take m L))" "items_of s' = (items_of s)[i := it]" "others_kept s F i s'"
    "contents s' (take m L) = patch (contents s (take m L)) p buf" "same_volume s s'" "k_heap s' = k_heap s"
    "fd_total (root_of s') = fd_total (root_of s)" "free_clusters s' = drop m L" by blast
  note W = written_keeps [of "items_of s ! i" "first_of (take m L)" "word_of_nat ?e", folded it_def]
  have nm': "canon (item_name it) = k" and live': "\<not> free_slot it" using W nm live by simp_all
  have sz: "unat (di_filesize it) = max ?n ?e" using W(7) unat_max_nat [OF assms(8)] by simp
  have sz_le: "max ?n ?e \<le> length (take m L) * csize s"
    using le_trans [OF V(4) [OF i live] mult_le_mono1 [OF P(6)]] P(1,4) by simp
  note G = same_volume_geometry(4) [OF w(6)]
  have dir: "dir_ok s'" by (rule dir_update_same_name [OF V(3,2) i G w(3) live]) (use W w(8) in simp_all)
  have old: "\<forall>m'. slot_of s m' = Some i \<longrightarrow> m' = k" using slot_of_SomeD nm by blast
  have us: "\<forall>c \<in> set (take m L). usable s c" using P(3) by blast
  have small: "unat (di_filesize it) < 2 ^ 31" using sz V(5) [OF i live] assms(8) by simp
  have le: "unat (di_filesize it) \<le> length (take m L) * csize s" unfolding sz by (rule sz_le)
  note X = volume_update [OF assms(1) i w(6,2) dir w(3,4) le small us old nm']
  have U: "volume s' (F(i := take m L))" "slot_of s' k = Some i" "\<And>m. m \<noteq> k \<Longrightarrow> slot_of s' m = slot_of s m"
    using X(1) X(2) [OF live'] X(3) by simp_all
  have fl: "files s' (F(i := take m L)) = (files s F)(k \<mapsto> take (max ?n ?e) (contents s' (take m L)))"
    using X(4) live' by (simp only: sz if_False)
  have "contents s (take m L) = contents s (F i) @ contents s (take (m - length (F i)) (free_clusters s))"
    by (simp add: P(2) contents_def)
  then have bytes: "take (max ?n ?e) (contents s' (take m L)) = patch (file_bytes s F i) p buf"
    unfolding w(5) file_bytes_def using p V(4) [OF i live] P(1,4) length_contents [of s "take m L"]
    by (simp only:) (rule take_patch_grow; simp)
  have "undisturbed fat_opened s k s'"
    by (rule undisturbedI [OF w(6) U(3) _ w(3) V(2) i]) (simp_all add: slot)
  moreover have "items_of s' ! i = it" using w(3) i length_items [OF V(3)] by simp
  moreover have "free_slots s' = free_slots s"
    using free_slots_update [OF V(3) i G w(3)] live live' by (auto simp: free_slots_def)
  ultimately show ?thesis using w(1,3,6,7) U(1,2) fl bytes P(7) [OF w(6,9)] by metis
qed

lemma stores_write:
  assumes "stores s M" and "M k = Some bs" and "fat_opened s d True k p" and "p \<le> length bs" and "buf \<noteq> []"
    and "unat sz * unat nmemb = length buf" and "p + length buf < 2 ^ 31" and "data_room s (length buf # ns)"
  shows "\<exists>d' s'. fat16_write s d sz nmemb buf = Some (sint nmemb, d', s') \<and> stores s' (M(k \<mapsto> patch bs p buf))
     \<and> fat_opened s' d' True k (p + length buf) \<and> desc_addrs d' = desc_addrs d
     \<and> undisturbed fat_opened s k s' \<and> k_heap s' = k_heap s
     \<and> data_room s' ns \<and> (\<forall>n. entry_room s n \<longrightarrow> entry_room s' n)"
proof -
  obtain F where F: "volume s F" "files s F = M" using assms(1) by (auto simp: stores_def)
  obtain i where i: "slot_of s k = Some i" "desc_at s d i" "ff_pos d = word_of_nat p"
    using assms(3) slot_of_SomeD by (auto simp: fat_opened_def desc_at_def)
  have bs: "bs = file_bytes s F i" using assms(2) F(2) i(1) by (auto simp: files_def)
  from volume_write [OF F(1) i(2,1,3) assms(4) [unfolded bs] assms(5-8)] obtain F' it s' where
    w: "fat16_write s d sz nmemb buf = Some (sint nmemb, (put_desc_item d it)\<lparr>ff_pos := word_of_nat (p + length buf)\<rparr>, s')"
    "volume s' F'" "files s' F' = M(k \<mapsto> patch bs p buf)" "slot_of s' k = Some i" "items_of s' ! i = it"
    "undisturbed fat_opened s k s'" "k_heap s' = k_heap s" "data_room s' ns" "free_slots s' = free_slots s"
    unfolding bs F(2) by blast
  have "fat_opened s' ((put_desc_item d it)\<lparr>ff_pos := word_of_nat (p + length buf)\<rparr>) True k (p + length buf)"
    using i(2) w(4,5) assms(7) put_desc_item_at [of d it] by (simp add: fat_opened_def desc_at_def)
  moreover have "desc_addrs ((put_desc_item d it)\<lparr>ff_pos := word_of_nat (p + length buf)\<rparr>) = desc_addrs d"
    by (simp add: desc_addrs_def put_desc_item_def split: fat_item_ptr.splits)
  ultimately show ?thesis using w unfolding stores_def entry_room_def by auto
qed

text \<open>States with the same drive and the same root directory store the same files.\<close>

lemma stores_cong:
  assumes "stores s M" and "ready s'" and vol: "same_volume s s'" and root: "root_of s' = root_of s" and d: "k_drive s' = k_drive s"
  shows "stores s' M"
proof -
  obtain F where F: "volume s F" "files s F = M" using assms(1) by (auto simp: stores_def)
  note V = volumeD [OF F(1)] and G = same_volume_geometry(4) [OF vol]
  have its: "items_of s' = items_of s" by (simp only: root)
  note C = layout_cong [OF V(1) assms(2) vol its d]
  have "dir_ok s'" using V(2) unfolding dir_ok_def root G .
  then have "volume s' F"
    unfolding volume_def its G csize_volume(1) [OF vol] usable_volume [OF vol]
    using C(1) F(1) by (simp add: volume_def)
  moreover have "files s' F = files s F"
    using slot_of_cong [OF its G] by (simp add: fun_eq_iff files_def file_bytes_def [abs_def] C(2) its)
  ultimately show ?thesis using F(2) unfolding stores_def by blast
qed

lemma stores_ready: "stores s M \<Longrightarrow> ready s"
  using volumeD(3) by (auto simp: stores_def)

lemma stores_heap: "stores s M \<Longrightarrow> stores (s\<lparr>k_heap := h\<rparr>) M"
  by (rule stores_cong) (simp_all add: stores_ready)

lemma fat_opened_heap: "fat_opened (s\<lparr>k_heap := h\<rparr>) d w k p = fat_opened s d w k p"
  by (rule fat_opened_cong) simp_all

text \<open>Names that the search for reading finds.\<close>

lemma read_lookup:
  assumes "volume s F" and "good_name xs" and "int j < fd_total (root_of s)"
  shows "same_name (item_name (items_of s ! j)) xs \<longleftrightarrow> slot_of s (canon xs) = Some j"
proof -
  note V = volumeD [OF assms(1)]
  have j: "j < ents s" using assms(3) dir_okD(2) [OF V(2)] by simp
  have "wf_item (items_of s ! j)" by (rule entry_okD(1) [OF layoutD(4) [OF V(1) j]])
  from free_slot_name [OF this _ assms(2)] j show ?thesis
    by (auto simp: slot_of_Some [OF V(2)] same_name_canon)
qed

lemma stores_open_read:
  assumes "stores s M" and "good_name xs" and "cstr_of (pp_part part) xs" and "M (canon xs) \<noteq> None"
    and "heap_slack (k_heap s) (j + 3)"
  shows "\<exists>d h. fat16_open s [part] FILE_MODE_READ = Some (Inr d, s\<lparr>k_heap := h\<rparr>)
     \<and> fat_opened (s\<lparr>k_heap := h\<rparr>) d False (canon xs) 0
     \<and> heap_slack h j \<and> grown heap_live (k_heap s) (rev (desc_addrs d)) h"
proof -
  obtain F where F: "volume s F" "files s F = M" using assms(1) by (auto simp: stores_def)
  note V = volumeD [OF F(1)] and D = dir_okD [OF volumeD(2) [OF F(1)]]
  obtain i where i: "slot_of s (canon xs) = Some i" using assms(4) F(2) by (auto simp: files_def)
  have ie: "i < ents s" "\<not> free_slot (items_of s ! i)" using slot_of_SomeD [OF i] by simp_all
  have "\<And>j. int j < fd_total (root_of s) \<Longrightarrow> same_name (item_name (items_of s ! j)) xs \<longleftrightarrow> j = i"
    using read_lookup [OF F(1) assms(2)] i by auto
  moreover have "di_attribute (items_of s ! i) AND 0x10 = 0"
  proof -
    have "(0x10 :: byte) = 0x18 AND 0x10" by simp
    then have "di_attribute (items_of s ! i) AND 0x10 = (di_attribute (items_of s ! i) AND 0x18) AND 0x10"
      by (metis and.assoc)
    then show ?thesis using D(4) [OF ie] by simp
  qed
  ultimately obtain d h where d: "fat16_open s [part] FILE_MODE_READ = Some (Inr d, s\<lparr>k_heap := h\<rparr>)"
    "desc_item d = Some (items_of s ! i)" "ff_pos d = 0" "fi_type (ff_item d) = FAT_ITEM_TYPE_FILE"
    "heap_slack h j" "grown heap_live (k_heap s) (rev (desc_addrs d)) h"
    using fat16_open_read_eq [OF V(3) assms(3) good_nameD(6) [OF assms(2)] D(1,2) D(3) [OF ie] _ _ assms(5)] by blast
  then have "fat_opened s d False (canon xs) 0" using i by (simp add: fat_opened_def)
  with d show ?thesis unfolding fat_opened_heap by blast
qed

lemma stores_open_missing:
  assumes "stores s M" and "good_name xs" and "cstr_of (pp_part part) xs" and "M (canon xs) = None"
    and "heap_slack (k_heap s) (Suc j)"
  shows "\<exists>h. fat16_open s [part] FILE_MODE_READ = Some (Inl (- EIO), s\<lparr>k_heap := h\<rparr>)
     \<and> heap_slack h (Suc j) \<and> heap_live h = heap_live (k_heap s)"
proof -
  obtain F where F: "volume s F" "files s F = M" using assms(1) by (auto simp: stores_def)
  note V = volumeD [OF F(1)] and D = dir_okD [OF volumeD(2) [OF F(1)]]
  have none: "slot_of s (canon xs) = None" using assms(4) F(2) by (auto simp: files_def)
  obtain a h1 where a: "k_zalloc s 12 = Some (a, s\<lparr>k_heap := h1\<rparr>)" "a \<noteq> 0" "heap_slack h1 j" "grown heap_live (k_heap s) [a] h1"
    by (rule k_zalloc_eq [OF assms(5) fat_sizes(1)])
  obtain h where h: "kfree h1 a = Some h" "heap_slack h (Suc j)" "heap_live h = heap_live (k_heap s)"
    using ko.grown_release_all [OF a(3,4), of "[a]"] by (auto split: bind_splits)
  obtain p where p: "dk_fs_private (k_disk s) = Some p" "priv s = p" using V(3) by (auto simp: ready_def priv_def)
  have "find_item_loop (s\<lparr>k_heap := h1\<rparr>) (items_of s) (nat (fd_total (root_of s))) 0 (pp_part part) None
      = Some (None, s\<lparr>k_heap := h1\<rparr>)"
    using read_lookup [OF F(1) assms(2)] none D(1,2) length_items [OF V(3)]
    by (intro find_item_loop_unmatched [OF assms(3) good_nameD(6) [OF assms(2)]]) auto
  then have "fat16_get_directory_entry (s\<lparr>k_heap := h1\<rparr>) [part] = Some (None, s\<lparr>k_heap := h1\<rparr>)"
    using p by (simp add: fat16_get_directory_entry_def fat16_find_item_in_directory_def)
  then show ?thesis using a(1,2) h by (intro exI [of _ h]) (simp add: fat16_open_def fat16_open_read_def k_free_def)
qed

text \<open>A read of single bytes, or of one member from the start.\<close>

text \<open>
  A read is bounded by the clusters of the file, not by its size: behind the end it gives what the last cluster holds.
\<close>

text \<open>The clusters of a file: the chain of the table from the first cluster in its entry on.\<close>

definition file_clusters :: "kstate \<Rightarrow> byte list \<Rightarrow> nat list \<Rightarrow> bool" where
  "file_clusters s k cs \<longleftrightarrow> file_chain s cs \<and> (\<exists>i. slot_of s k = Some i \<and> fat16_get_first_cluster (items_of s ! i) = first_of cs)"

text \<open>
  A read of a file that is not empty gives the bytes that its clusters hold, those behind the end of the file included, as long as it ends in the
  clusters.
\<close>

definition read_result :: "kstate \<Rightarrow> (byte list \<rightharpoonup> byte list) \<Rightarrow> fat_file_descriptor \<Rightarrow> bool \<Rightarrow> byte list \<Rightarrow> nat \<Rightarrow> kstate \<Rightarrow> bool" where
  "read_result s M d w k p s' \<longleftrightarrow> stores s' M \<and> fat_opened s' d w k p \<and> undisturbed fat_opened s k s' \<and> k_heap s' = k_heap s
     \<and> (\<forall>ns. data_room s ns \<longrightarrow> data_room s' ns) \<and> (\<forall>n. entry_room s n \<longrightarrow> entry_room s' n)"

lemma file_read:
  assumes "stores s M" and "M k = Some bs" and "bs \<noteq> []"
  obtains cs where "file_clusters s k cs" "take (length bs) (contents s cs) = bs" "length bs \<le> length cs * csize s" "512 \<le> length cs * csize s" "length bs < 2 ^ 31"
    "\<And>d w p z n. fat_opened s d w k p \<Longrightarrow> 0 < z \<Longrightarrow> 0 < n \<Longrightarrow> p + n * z \<le> length cs * csize s \<Longrightarrow> p + n * z < 2 ^ 31 \<Longrightarrow> z = 1 \<or> p = 0 \<and> n = 1 \<Longrightarrow>
       \<exists>s'. fat16_read s d (word_of_nat z) (word_of_nat n) = Some (int n, take (n * z) (drop p (contents s cs)), s') \<and> read_result s M d w k p s'"
proof -
  obtain F where F: "volume s F" "files s F = M" using assms(1) by (auto simp: stores_def)
  note V = volumeD [OF F(1)]
  obtain i where i: "slot_of s k = Some i" using assms(2) F(2) by (auto simp: files_def)
  have ie: "i < ents s" "\<not> free_slot (items_of s ! i)" using slot_of_SomeD [OF i] by simp_all
  let ?n = "unat (di_filesize (items_of s ! i))" and ?c = "contents s (F i)"
  have bs: "bs = take ?n ?c" and len: "length bs = ?n"
    using assms(2) F(2) i length_file_bytes [OF F(1) ie] by (auto simp: files_def file_bytes_def)
  have ne: "F i \<noteq> []" using assms(3) len V(4) [OF ie] by auto
  then have ch: "file_chain s (F i)" using layoutD(5) [OF V(1) ie(1)] by (simp add: file_at_def)
  have mk: "set (tl (F i)) \<inter> marks12 = {}" and rc: "\<And>c. c \<in> set (F i) \<Longrightarrow> reach s c"
    using V(6) [OF ie] ne list.set_sel(2) [of "F i"] by (auto simp: usable_def)
  note fst = entry_okD(2) [OF layoutD(4) [OF V(1) ie(1)] ie(2)]
  have "512 \<le> csize s" using V(3) by (simp add: csize_def ready_def geometry_ok_def)
  moreover have "csize s \<le> length (F i) * csize s" using ne by (cases "F i") simp_all
  ultimately have room: "512 \<le> length (F i) * csize s" by (rule le_trans)
  have read: "\<exists>s'. fat16_read s d (word_of_nat z) (word_of_nat n) = Some (int n, take (n * z) (drop p ?c), s') \<and> read_result s M d w k p s'"
    if o: "fat_opened s d w k p" and z: "0 < z" "0 < n" and fit: "p + n * z \<le> length (F i) * csize s" "p + n * z < 2 ^ 31" and zp: "z = 1 \<or> p = 0 \<and> n = 1"
    for d w p z n
  proof -
    have d: "desc_item d = Some (items_of s ! i)" "ff_pos d = word_of_nat p" using o i by (auto simp: fat_opened_def)
    have "n \<le> n * z" "z \<le> n * z" using z by simp_all
    then have small: "n < 2 ^ 31" "z < 2 ^ 31" using fit(2) by linarith+
    have rd: "readable s (p + j * z) z" if "j < n" for j
    proof (cases "z = 1")
      case True
      then show ?thesis using readable_byte [OF V(3), of "p + j"] by simp
    qed (use zp that in \<open>simp add: readable_def\<close>)
    from fat16_read_eq [OF V(3) ch mk rc d(1) fst d(2) z(1) fit small rd] obtain s' where
      r: "fat16_read s d (word_of_nat z) (word_of_nat n) = Some (int n, take (n * z) (drop p ?c), s')" "agrees s (k_drive s) s'" by blast
    note A = agrees_volume [OF r(2) V(3)]
    have "stores s' M" by (rule stores_cong [OF assms(1) A(2,1,3) agrees_drive [OF r(2)]])
    moreover have op: "fat_opened s' = fat_opened s"
      using A(3) same_volume_geometry(4) [OF A(1)] by (intro ext fat_opened_cong) simp_all
    moreover have "undisturbed fat_opened s k s'" by (simp add: undisturbed_def op agrees_keeps(4) [OF r(2)])
    moreover have "data_room s' ns = data_room s ns" "entry_room s' m = entry_room s m" for ns m
      by (rule data_room_cong [OF A(1) agrees_drive [OF r(2)]], simp add: A(3))+
    ultimately show ?thesis using r(1) o agrees_keeps(1) [OF r(2)] by (intro exI [of _ s']) (simp add: read_result_def)
  qed
  have "file_clusters s k (F i)" using ch i fst by (simp add: file_clusters_def)
  then show thesis by (rule that) (use bs len room read V(4,5) [OF ie] in auto)
qed

lemma clusters_read:
  assumes "stores s M" and "M k = Some bs" and "bs \<noteq> []" and "fat_opened s d w k p" and "0 < z" and "0 < n" and "p + n * z \<le> max 512 (length bs)"
    and "z = 1 \<or> p = 0 \<and> n = 1"
  shows "\<exists>out s'. fat16_read s d (word_of_nat z) (word_of_nat n) = Some (int n, out, s')
     \<and> length out = n * z \<and> take (length bs - p) out = take (n * z) (drop p bs) \<and> stores s' M
     \<and> fat_opened s' d w k p \<and> undisturbed fat_opened s k s' \<and> k_heap s' = k_heap s
     \<and> (\<forall>ns. data_room s ns \<longrightarrow> data_room s' ns) \<and> (\<forall>n. entry_room s n \<longrightarrow> entry_room s' n)"
proof -
  obtain cs where cs: "take (length bs) (contents s cs) = bs" "length bs \<le> length cs * csize s" "512 \<le> length cs * csize s" "length bs < 2 ^ 31"
    "\<And>d w p z n. fat_opened s d w k p \<Longrightarrow> 0 < z \<Longrightarrow> 0 < n \<Longrightarrow> p + n * z \<le> length cs * csize s \<Longrightarrow> p + n * z < 2 ^ 31 \<Longrightarrow> z = 1 \<or> p = 0 \<and> n = 1 \<Longrightarrow>
       \<exists>s'. fat16_read s d (word_of_nat z) (word_of_nat n) = Some (int n, take (n * z) (drop p (contents s cs)), s') \<and> read_result s M d w k p s'"
    by (rule file_read [OF assms(1-3)]) blast
  have "max 512 (length bs) \<le> length cs * csize s" "max 512 (length bs) < 2 ^ 31" using cs(2-4) by simp_all
  then have fit: "p + n * z \<le> length cs * csize s" "p + n * z < 2 ^ 31" using assms(7) by linarith+
  from cs(5) [OF assms(4-6) fit assms(8)] obtain s' where
    r: "fat16_read s d (word_of_nat z) (word_of_nat n) = Some (int n, take (n * z) (drop p (contents s cs)), s')" "read_result s M d w k p s'" by blast
  have "length (take (n * z) (drop p (contents s cs))) = n * z" using fit(1) length_contents [of s cs] by simp
  moreover have "take (length bs - p) (take (n * z) (drop p (contents s cs))) = take (n * z) (drop p (take (length bs) (contents s cs)))"
    by (simp add: drop_take min.commute)
  ultimately show ?thesis using r unfolding cs(1) by (intro exI [of _ "take (n * z) (drop p (contents s cs))"] exI [of _ s']) (simp add: read_result_def)
qed

lemma stores_stat:
  assumes "stores s M" and "M k = Some bs" and "fat_opened s d w k p"
  shows "\<exists>st'. fat16_stat d st = Some (0, st') \<and> unat (st_filesize st') = length bs"
proof -
  obtain F where F: "volume s F" "files s F = M" using assms(1) by (auto simp: stores_def)
  obtain i where i: "slot_of s k = Some i" "desc_item d = Some (items_of s ! i)" "fi_type (ff_item d) = FAT_ITEM_TYPE_FILE"
    using assms(3) by (auto simp: fat_opened_def)
  have "length bs = unat (di_filesize (items_of s ! i))"
    using assms(2) F(2) i(1) length_file_bytes [OF F(1)] slot_of_SomeD [OF i(1)] by (auto simp: files_def)
  with i show ?thesis by (simp add: fat16_stat_def)
qed

lemma deleted_free: "wf_item it \<Longrightarrow> di_filename (deleted it) ! 0 = 0xE5"
  by (simp add: deleted_def emptied_def wf_item_def)

lemma volume_delete:
  assumes "volume s F" and "good_name xs" and "cstr_of (pp_part part) xs" and slot: "slot_of s (canon xs) = Some i"
    and "entry_room s n"
  shows "\<exists>s'. fat16_delete s (part # parts) = Some (0, s') \<and> volume s' (F(i := []))
     \<and> files s' (F(i := [])) = (files s F)(canon xs := None) \<and> entry_room s' (Suc n)
     \<and> undisturbed fat_opened s (canon xs) s' \<and> (\<forall>ns. data_room s ns \<longrightarrow> data_room s' ns) \<and> k_heap s' = k_heap s"
proof -
  note V = volumeD [OF assms(1)]
  have i: "i < ents s" and live: "\<not> free_slot (items_of s ! i)" and nm: "canon (item_name (items_of s ! i)) = canon xs"
    using slot_of_SomeD [OF slot] by simp_all
  let ?it = "deleted (items_of s ! i)"
  have wf: "wf_item (items_of s ! i)" by (rule entry_okD(1) [OF layoutD(4) [OF V(1) i]])
  have look: "first_index (\<lambda>it. di_filename it ! 0 = 0) (named_slot xs) (items_of s) = Some i"
    using lookup_slot [OF V(3,2)] slot by simp
  from fat16_delete_eq [OF V(1) assms(3) good_nameD(6) [OF assms(2)] look] obtain s' where
    d: "fat16_delete s (part # parts) = Some (0, s')" "layout s' (F(i := []))" "others_kept s F i s'"
    "items_of s' = (items_of s)[i := ?it]" "same_volume s s'" "k_heap s' = k_heap s"
    "set (free_clusters s') = set (free_clusters s) \<union> set (F i)" "fd_total (root_of s') = fd_total (root_of s)" by blast
  note G = same_volume_geometry(4) [OF d(5)]
  have free: "free_slot ?it" by (rule deleted_simps(3) [OF wf])
  have dir: "dir_ok s'"
    using deleted_free [OF wf] used_before [OF V(2) i live] d(8) dir_okD(2) [OF V(2)] free
    by (intro dir_update [OF V(3,2) i G d(4)]) simp_all
  have old: "\<forall>m. slot_of s m = Some i \<longrightarrow> m = canon xs" using slot_of_SomeD nm by blast
  note X = volume_update [OF assms(1) i d(5,2) dir d(4,3) _ _ _ old]
  have U: "volume s' (F(i := []))" "\<And>m. m \<noteq> canon xs \<Longrightarrow> slot_of s' m = slot_of s m"
    using X(1,3) free by simp_all
  have fl: "files s' (F(i := [])) = (files s F)(canon xs := None)" using X(4) free slot by simp
  have un: "undisturbed fat_opened s (canon xs) s'"
    by (rule undisturbedI [OF d(5) U(2) _ d(4) V(2) i]) (simp_all add: slot)
  have room: "data_room s' ns" if "data_room s ns" for ns
    using d(7) V(6) [OF i live] by (intro data_room_mono [OF d(5) _ _ that]) auto
  have "entry_room s' (Suc n)"
    using free_slots_update [OF V(3) i G d(4)] free live assms(5) by (simp add: entry_room_def free_slots_def)
  with d(1,6) U(1) fl un room show ?thesis by blast
qed

lemma stores_delete:
  assumes "stores s M" and "good_name xs" and "cstr_of (pp_part part) xs" and "M (canon xs) \<noteq> None" and "entry_room s n"
  shows "\<exists>s'. fat16_delete s (part # parts) = Some (0, s') \<and> stores s' (M(canon xs := None)) \<and> entry_room s' (Suc n)
     \<and> undisturbed fat_opened s (canon xs) s' \<and> (\<forall>ns. data_room s ns \<longrightarrow> data_room s' ns) \<and> k_heap s' = k_heap s"
proof -
  obtain F where F: "volume s F" "files s F = M" using assms(1) by (auto simp: stores_def)
  obtain i where "slot_of s (canon xs) = Some i" using assms(4) F(2) by (auto simp: files_def)
  from volume_delete [OF F(1) assms(2,3) this assms(5), of parts] F(2) show ?thesis unfolding stores_def by auto
qed

lemma stores_delete_missing:
  assumes "stores s M" and "good_name xs" and "cstr_of (pp_part part) xs" and "M (canon xs) = None"
  shows "fat16_delete s (part # parts) = Some (- EIO, s)"
proof -
  obtain F where F: "volume s F" "files s F = M" using assms(1) by (auto simp: stores_def)
  note V = volumeD [OF F(1)]
  show ?thesis
    using assms(4) F(2) lookup_slot [OF V(3,2), of xs]
    by (intro fat16_delete_missing [OF V(3) assms(3) good_nameD(6) [OF assms(2)]]) (auto simp: files_def)
qed

section \<open>The contract\<close>

definition fat16_fs :: "fat_file_descriptor filesystem_ops" where
  "fat16_fs = \<lparr>
     fs_resolve_fn = fat16_resolve,
     fs_open_fn = fat16_open,
     fs_read_fn = fat16_read,
     fs_write_fn = Some fat16_write,
     fs_seek_fn = fat16_seek,
     fs_stat_fn = fat16_stat,
     fs_close_fn = fat16_close,
     fs_delete_fn = Some fat16_delete,
     fs_readdir_fn = Some fat16_readdir\<rparr>"

abbreviation fat_owned :: "fat_file_descriptor \<Rightarrow> u32 list" where
  "fat_owned d \<equiv> rev (desc_addrs d)"

lemma fat16_fs_sel:
  "fs_open_fn fat16_fs = fat16_open" "fs_read_fn fat16_fs = fat16_read" "fs_write_fn fat16_fs = Some fat16_write"
  "fs_seek_fn fat16_fs = fat16_seek" "fs_stat_fn fat16_fs = fat16_stat" "fs_close_fn fat16_fs = fat16_close"
  "fs_delete_fn fat16_fs = Some fat16_delete" "fs_readdir_fn fat16_fs = Some fat16_readdir" "fs_resolve_fn fat16_fs = fat16_resolve"
  by (simp_all add: fat16_fs_def)

lemma fat_opened_close:
  "fat_opened s d w k p \<Longrightarrow>
     fat16_close s d = map_option (\<lambda>h. (0, s\<lparr>k_heap := h\<rparr>)) (release_all kfree (k_heap s) (rev (fat_owned d)))"
  using fat16_close_eq [of d s] by (auto simp: fat_opened_def)

interpretation fatfs: file_store fat16_fs stores fat_opened good_name entry_room data_room fat_owned 3
proof (unfold_locales, unfold fat16_fs_sel, goal_cases)
  case 1 then show ?case by (rule stores_heap)
next
  case 2 then show ?case by (simp only: fat_opened_heap)
next
  case 3 then show ?case by (simp only: data_room_heap)
next
  case 4 then show ?case by (simp only: data_room_heap)
next
  case 5 then show ?case by (simp add: good_nameD)
next
  case 6 then show ?case by (rule stores_open_write)
next
  case (7 s M k bs d p buf sz nmemb ns)
  from stores_write [OF this] show ?case by auto
next
  case 8 then show ?case by (rule stores_open_read)
next
  case (9 s M xs part j)
  from stores_open_missing [OF this] show ?case by fastforce
next
  case 10 then show ?case by (rule clusters_read)
next
  case 11 then show ?case by (rule stores_stat)
next
  case 12 then show ?case by (rule fat_opened_close)
next
  case (13 s M xs part n parts)
  from stores_delete [OF this, of parts] show ?case by auto
next
  case (14 s M xs part parts)
  from stores_delete_missing [OF this, of parts] show ?case by auto
qed

end
