(* ===== verification/File_Layer.thy ===== *)
theory File_Layer
  imports Fat16_Volume
begin

text \<open>
  The virtual file layer, \<^verbatim>\<open>src/src/fs/file.c\<close>: the table of file systems, the table of the 512
  file descriptors, and the operations of the kernel on files. The operations call the file
  system through its function pointers: \<open>ops\<close> gives the record of operations that a pointer
  \<^verbatim>\<open>struct filesystem*\<close> stands for. The lemmas about them are proved once against the contract
  \<open>file_store\<close>.
\<close>

section \<open>State\<close>

text \<open>
  \<^verbatim>\<open>struct file_descriptor\<close> with its address; the pointers that \<^verbatim>\<open>kzalloc\<close> leaves null are
  options. There is one disk, so that the pointer \<^verbatim>\<open>disk\<close> is null or \<^verbatim>\<open>&disk\<close>.
\<close>

record 'd file_descriptor =
  fo_addr :: u32
  fo_index :: int
  fo_filesystem :: "filesystem option"
  fo_private :: "'d option"
  fo_disk :: "int option"

record 'd vfs =
  v_k :: kstate
  v_filesystems :: "filesystem option list"
  v_fds :: "'d file_descriptor option list"
  v_fs_name :: "byte list"

definition put_heap :: "'d vfs \<Rightarrow> heap \<Rightarrow> 'd vfs" where
  "put_heap v h = v\<lparr>v_k := (v_k v)\<lparr>k_heap := h\<rparr>\<rparr>"

section \<open>Operations\<close>

text \<open>The first null pointer of an array, from index \<open>i\<close>.\<close>

fun first_null :: "'a option list \<Rightarrow> nat \<Rightarrow> nat option" where
  "first_null [] i = None"
| "first_null (x # xs) i = (case x of None \<Rightarrow> Some i | Some _ \<Rightarrow> first_null xs (Suc i))"

definition fs_get_free_filesystem :: "'d vfs \<Rightarrow> nat option" where
  "fs_get_free_filesystem v = first_null (v_filesystems v) 0"

text \<open>Without a free entry the kernel prints a message and loops.\<close>

definition fs_insert_filesystem :: "'d vfs \<Rightarrow> filesystem \<Rightarrow> 'd vfs option" where
  "fs_insert_filesystem v fs = do {
     i \<leftarrow> fs_get_free_filesystem v;
     Some (v\<lparr>v_filesystems := (v_filesystems v)[i := Some fs]\<rparr>)
   }"

definition fs_static_load :: "'d vfs \<Rightarrow> 'd vfs option" where
  "fs_static_load v = do {
     (fs, name) \<leftarrow> fat16_init (v_fs_name v);
     fs_insert_filesystem (v\<lparr>v_fs_name := name\<rparr>) fs
   }"

definition fs_load :: "'d vfs \<Rightarrow> 'd vfs option" where
  "fs_load v = fs_static_load (v\<lparr>v_filesystems := replicate PEACHOS_MAX_FILESYSTEMS None\<rparr>)"

definition fs_init :: "'d vfs \<Rightarrow> 'd vfs option" where
  "fs_init v = fs_load (v\<lparr>v_fds := replicate PEACHOS_MAX_FILE_DESCRIPTORS None\<rparr>)"

definition file_free_descriptor :: "'d vfs \<Rightarrow> 'd file_descriptor \<Rightarrow> 'd vfs option" where
  "file_free_descriptor v desc =
     (if 1 \<le> fo_index desc \<and> nat (fo_index desc - 1) < length (v_fds v)
      then do {
        h \<leftarrow> kfree (k_heap (v_k v)) (fo_addr desc);
        Some (put_heap (v\<lparr>v_fds := (v_fds v)[nat (fo_index desc - 1) := None]\<rparr>) h)
      }
      else None)"

text \<open>The result of \<^verbatim>\<open>kzalloc\<close> is stored through without a check.\<close>

definition file_new_descriptor :: "'d vfs \<Rightarrow> (int \<times> 'd file_descriptor option \<times> 'd vfs) option" where
  "file_new_descriptor v =
     (case first_null (v_fds v) 0 of
        None \<Rightarrow> Some (- ENOMEM, None, v)
      | Some i \<Rightarrow> do {
          (a, h) \<leftarrow> kzalloc (k_heap (v_k v)) 16;
          if a = 0 then None
          else do {
            let desc = \<lparr>fo_addr = a, fo_index = int i + 1, fo_filesystem = None, fo_private = None, fo_disk = None\<rparr>;
            Some (0, Some desc, put_heap (v\<lparr>v_fds := (v_fds v)[i := Some desc]\<rparr>) h)
          }
        })"

definition file_get_descriptor :: "'d vfs \<Rightarrow> int \<Rightarrow> 'd file_descriptor option option" where
  "file_get_descriptor v fd =
     (if fd \<le> 0 \<or> fd \<ge> int PEACHOS_MAX_FILE_DESCRIPTORS then Some None
      else if nat (fd - 1) < length (v_fds v) then Some (v_fds v ! nat (fd - 1))
      else None)"

text \<open>The loop of \<^verbatim>\<open>fs_resolve\<close> over the entries that are left.\<close>

fun resolve_loop :: "(filesystem \<Rightarrow> 'd filesystem_ops) \<Rightarrow> filesystem option list \<Rightarrow> kstate \<Rightarrow> (filesystem option \<times> kstate) option" where
  "resolve_loop ops [] s = Some (None, s)"
| "resolve_loop ops (None # fss) s = resolve_loop ops fss s"
| "resolve_loop ops (Some fs # fss) s = do {
     (res, s1) \<leftarrow> fs_resolve_fn (ops fs) s;
     if res = 0 then Some (Some fs, s1) else resolve_loop ops fss s1
   }"

definition fs_resolve :: "(filesystem \<Rightarrow> 'd filesystem_ops) \<Rightarrow> 'd vfs \<Rightarrow> (filesystem option \<times> 'd vfs) option" where
  "fs_resolve ops v = do {
     (fs, s) \<leftarrow> resolve_loop ops (v_filesystems v) (v_k v);
     Some (fs, v\<lparr>v_k := s\<rparr>)
   }"

definition file_get_mode_by_string :: "byte list \<Rightarrow> nat option" where
  "file_get_mode_by_string str = do {
     r \<leftarrow> strncmp str [0x72, 0] 1;
     if r = 0 then Some FILE_MODE_READ
     else do {
       w \<leftarrow> strncmp str [0x77, 0] 1;
       if w = 0 then Some FILE_MODE_WRITE
       else do {
         a \<leftarrow> strncmp str [0x61, 0] 1;
         Some (if a = 0 then FILE_MODE_APPEND else FILE_MODE_INVALID)
       }
     }
   }"

text \<open>The part of \<^verbatim>\<open>fopen\<close> before the label \<^verbatim>\<open>out\<close>. Nothing releases \<^verbatim>\<open>root_path\<close>.\<close>

definition fopen_body :: "(filesystem \<Rightarrow> 'd filesystem_ops) \<Rightarrow> 'd vfs \<Rightarrow> byte list \<Rightarrow> byte list \<Rightarrow> (int \<times> 'd vfs) option" where
  "fopen_body ops v filename mode_str = do {
     (root_path, h) \<leftarrow> pathparser_parse (k_heap (v_k v)) filename;
     let v1 = put_heap v h;
     case root_path of
       None \<Rightarrow> Some (- EINVARG, v1)
     | Some root \<Rightarrow>
         if pr_first root = [] then Some (- EINVARG, v1)
         else (case disk_get (pr_drive_no root) of
           None \<Rightarrow> Some (- EIO, v1)
         | Some disk \<Rightarrow> (case dk_filesystem (k_disk (v_k v1)) of
             None \<Rightarrow> Some (- EIO, v1)
           | Some fs \<Rightarrow> do {
               mode \<leftarrow> file_get_mode_by_string mode_str;
               if mode = FILE_MODE_INVALID then Some (- EINVARG, v1)
               else do {
                 (r, s2) \<leftarrow> fs_open_fn (ops fs) (v_k v1) (pr_first root) mode;
                 let v2 = v1\<lparr>v_k := s2\<rparr>;
                 case r of
                   Inl err \<Rightarrow> Some (err, v2)
                 | Inr private \<Rightarrow> do {
                     (res, desc, v3) \<leftarrow> file_new_descriptor v2;
                     case desc of
                       None \<Rightarrow> Some (res, v3)
                     | Some d \<Rightarrow>
                         Some (fo_index d,
                               v3\<lparr>v_fds := (v_fds v3)[nat (fo_index d - 1) :=
                                    Some (d\<lparr>fo_filesystem := Some fs, fo_private := Some private,
                                            fo_disk := Some disk\<rparr>)]\<rparr>)
                   }
               }
             }))
   }"

definition fopen :: "(filesystem \<Rightarrow> 'd filesystem_ops) \<Rightarrow> 'd vfs \<Rightarrow> byte list \<Rightarrow> byte list \<Rightarrow> (int \<times> 'd vfs) option" where
  "fopen ops v filename mode_str = do {
     (res, v1) \<leftarrow> fopen_body ops v filename mode_str;
     Some (if res < 0 then 0 else res, v1)
   }"

definition fstat :: "(filesystem \<Rightarrow> 'd filesystem_ops) \<Rightarrow> 'd vfs \<Rightarrow> int \<Rightarrow> file_stat \<Rightarrow> (int \<times> file_stat) option" where
  "fstat ops v fd stat = do {
     desc \<leftarrow> file_get_descriptor v fd;
     case desc of
       None \<Rightarrow> Some (- EIO, stat)
     | Some d \<Rightarrow> do {
         fs \<leftarrow> fo_filesystem d;
         private \<leftarrow> fo_private d;
         fs_stat_fn (ops fs) private stat
       }
   }"

definition fclose :: "(filesystem \<Rightarrow> 'd filesystem_ops) \<Rightarrow> 'd vfs \<Rightarrow> int \<Rightarrow> (int \<times> 'd vfs) option" where
  "fclose ops v fd = do {
     desc \<leftarrow> file_get_descriptor v fd;
     case desc of
       None \<Rightarrow> Some (- EIO, v)
     | Some d \<Rightarrow> do {
         fs \<leftarrow> fo_filesystem d;
         private \<leftarrow> fo_private d;
         (res, s1) \<leftarrow> fs_close_fn (ops fs) (v_k v) private;
         if res = PEACHOS_ALL_OK
         then do { v2 \<leftarrow> file_free_descriptor (v\<lparr>v_k := s1\<rparr>) d; Some (res, v2) }
         else Some (res, v\<lparr>v_k := s1\<rparr>)
       }
   }"

text \<open>A store of the file system to the private data of descriptor \<open>fd\<close>.\<close>

definition put_fo_private :: "'d vfs \<Rightarrow> int \<Rightarrow> 'd file_descriptor \<Rightarrow> 'd \<Rightarrow> 'd vfs" where
  "put_fo_private v fd d private = v\<lparr>v_fds := (v_fds v)[nat (fd - 1) := Some (d\<lparr>fo_private := Some private\<rparr>)]\<rparr>"

definition fseek :: "(filesystem \<Rightarrow> 'd filesystem_ops) \<Rightarrow> 'd vfs \<Rightarrow> int \<Rightarrow> int \<Rightarrow> nat \<Rightarrow> (int \<times> 'd vfs) option" where
  "fseek ops v fd offset whence = do {
     desc \<leftarrow> file_get_descriptor v fd;
     case desc of
       None \<Rightarrow> Some (- EIO, v)
     | Some d \<Rightarrow> do {
         fs \<leftarrow> fo_filesystem d;
         private \<leftarrow> fo_private d;
         (res, private1) \<leftarrow> fs_seek_fn (ops fs) private (word_of_int offset) whence;
         Some (res, put_fo_private v fd d private1)
       }
   }"

text \<open>The bytes go to \<^verbatim>\<open>ptr\<close>.\<close>

definition fread :: "(filesystem \<Rightarrow> 'd filesystem_ops) \<Rightarrow> 'd vfs \<Rightarrow> u32 \<Rightarrow> u32 \<Rightarrow> int \<Rightarrow> (int \<times> byte list \<times> 'd vfs) option" where
  "fread ops v sz nmemb fd =
     (if sz = 0 \<or> nmemb = 0 \<or> fd < 1 then Some (- EINVARG, [], v)
      else do {
        desc \<leftarrow> file_get_descriptor v fd;
        case desc of
          None \<Rightarrow> Some (- EINVARG, [], v)
        | Some d \<Rightarrow> do {
            fs \<leftarrow> fo_filesystem d;
            private \<leftarrow> fo_private d;
            (res, out, s1) \<leftarrow> fs_read_fn (ops fs) (v_k v) private sz nmemb;
            Some (res, out, v\<lparr>v_k := s1\<rparr>)
          }
      })"

definition fwrite :: "(filesystem \<Rightarrow> 'd filesystem_ops) \<Rightarrow> 'd vfs \<Rightarrow> byte list \<Rightarrow> u32 \<Rightarrow> u32 \<Rightarrow> int \<Rightarrow> (int \<times> 'd vfs) option" where
  "fwrite ops v ptr sz nmemb fd =
     (if sz = 0 \<or> nmemb = 0 \<or> fd < 1 then Some (- EINVARG, v)
      else do {
        desc \<leftarrow> file_get_descriptor v fd;
        case desc of
          None \<Rightarrow> Some (- EINVARG, v)
        | Some d \<Rightarrow> do {
            fs \<leftarrow> fo_filesystem d;
            case fs_write_fn (ops fs) of
              None \<Rightarrow> Some (- EINVARG, v)
            | Some wr \<Rightarrow> do {
                private \<leftarrow> fo_private d;
                (res, private1, s1) \<leftarrow> wr (v_k v) private sz nmemb ptr;
                Some (res, put_fo_private (v\<lparr>v_k := s1\<rparr>) fd d private1)
              }
          }
      })"

definition freaddir :: "(filesystem \<Rightarrow> 'd filesystem_ops) \<Rightarrow> 'd vfs \<Rightarrow> int \<Rightarrow> byte list \<Rightarrow> int \<Rightarrow> (int \<times> byte list) option" where
  "freaddir ops v index buf buf_size =
     (case disk_get 0 of
        None \<Rightarrow> Some (- EIO, buf)
      | Some disk \<Rightarrow> (case dk_filesystem (k_disk (v_k v)) of
          None \<Rightarrow> Some (- EIO, buf)
        | Some fs \<Rightarrow> (case fs_readdir_fn (ops fs) of
            None \<Rightarrow> Some (- EIO, buf)
          | Some rd \<Rightarrow> rd (v_k v) index buf buf_size)))"

text \<open>The part of \<^verbatim>\<open>fdelete\<close> before the label \<^verbatim>\<open>out\<close>, with a root that is not null.\<close>

definition fdelete_root :: "(filesystem \<Rightarrow> 'd filesystem_ops) \<Rightarrow> 'd vfs \<Rightarrow> path_root \<Rightarrow> (int \<times> 'd vfs) option" where
  "fdelete_root ops v root =
     (if pr_first root = [] then Some (- EINVARG, v)
      else (case disk_get (pr_drive_no root) of
        None \<Rightarrow> Some (- EIO, v)
      | Some disk \<Rightarrow> (case dk_filesystem (k_disk (v_k v)) of
          None \<Rightarrow> Some (- EIO, v)
        | Some fs \<Rightarrow> (case fs_delete_fn (ops fs) of
            None \<Rightarrow> Some (- EIO, v)
          | Some del \<Rightarrow> do { (res, s1) \<leftarrow> del (v_k v) (pr_first root); Some (res, v\<lparr>v_k := s1\<rparr>) }))))"

definition fdelete :: "(filesystem \<Rightarrow> 'd filesystem_ops) \<Rightarrow> 'd vfs \<Rightarrow> byte list \<Rightarrow> (int \<times> 'd vfs) option" where
  "fdelete ops v filename = do {
     (root_path, h) \<leftarrow> pathparser_parse (k_heap (v_k v)) filename;
     let v1 = put_heap v h;
     case root_path of
       None \<Rightarrow> Some (- EINVARG, v1)
     | Some root \<Rightarrow> do {
         (res, v2) \<leftarrow> fdelete_root ops v1 root;
         h2 \<leftarrow> pathparser_free (k_heap (v_k v2)) root;
         Some (res, put_heap v2 h2)
       }
   }"

text \<open>The file systems of this kernel.\<close>

fun kernel_ops :: "filesystem \<Rightarrow> fat_file_descriptor filesystem_ops" where
  "kernel_ops FAT16 = fat16_fs"

section \<open>The descriptor table\<close>

lemma put_heap_simps [simp]:
  "v_k (put_heap v h) = (v_k v)\<lparr>k_heap := h\<rparr>" "v_fds (put_heap v h) = v_fds v"
  "v_filesystems (put_heap v h) = v_filesystems v" "v_fs_name (put_heap v h) = v_fs_name v"
  by (simp_all add: put_heap_def)

lemma first_null_Some:
  "first_null xs i = Some k \<Longrightarrow> i \<le> k \<and> k < i + length xs \<and> xs ! (k - i) = None \<and> (\<forall>j < k - i. xs ! j \<noteq> None)"
proof (induction xs i rule: first_null.induct)
  case (2 x xs i)
  show ?case
  proof (cases x)
    case (Some y)
    with 2 have "Suc i \<le> k \<and> k < Suc i + length xs \<and> xs ! (k - Suc i) = None \<and> (\<forall>j < k - Suc i. xs ! j \<noteq> None)" by simp
    moreover from this have "k - i = Suc (k - Suc i)" by linarith
    ultimately show ?thesis using Some by (auto simp: less_Suc_eq_0_disj)
  qed (use "2.prems" in auto)
qed simp

lemma first_null_None: "first_null xs i = None \<longleftrightarrow> None \<notin> set xs"
  by (induction xs i rule: first_null.induct) (auto split: option.splits)

lemma first_null_ex:
  assumes "k < length xs" and "xs ! k = None"
  obtains j where "first_null xs 0 = Some j" "j \<le> k" "xs ! j = None"
proof (cases "first_null xs 0")
  case None
  then show thesis using assms nth_mem first_null_None by metis
next
  case (Some j)
  with first_null_Some [OF Some] assms that show thesis by (cases "k < j") auto
qed

text \<open>
  The invariant of the table: descriptor \<open>i\<close> has number \<open>i + 1\<close>, the heap objects of the open
  descriptors are live, and no object belongs to two of them.
\<close>

definition desc_objects :: "('d \<Rightarrow> u32 list) \<Rightarrow> 'd file_descriptor \<Rightarrow> u32 list" where
  "desc_objects owned d = (case fo_private d of None \<Rightarrow> [] | Some p \<Rightarrow> owned p) @ [fo_addr d]"

definition fds_inv :: "('d \<Rightarrow> u32 list) \<Rightarrow> 'd vfs \<Rightarrow> bool" where
  "fds_inv owned v \<longleftrightarrow> length (v_fds v) = PEACHOS_MAX_FILE_DESCRIPTORS
     \<and> (\<forall>i < PEACHOS_MAX_FILE_DESCRIPTORS. \<forall>d. v_fds v ! i = Some d \<longrightarrow> fo_index d = int i + 1
          \<and> distinct (desc_objects owned d)
          \<and> (\<forall>a \<in> set (desc_objects owned d). (a, 1) \<in> heap_live (k_heap (v_k v))))
     \<and> (\<forall>i < PEACHOS_MAX_FILE_DESCRIPTORS. \<forall>j < PEACHOS_MAX_FILE_DESCRIPTORS. \<forall>d e. i \<noteq> j \<longrightarrow>
          v_fds v ! i = Some d \<longrightarrow> v_fds v ! j = Some e \<longrightarrow>
          set (desc_objects owned d) \<inter> set (desc_objects owned e) = {})"

lemma fds_invD:
  assumes "fds_inv owned v"
  shows "length (v_fds v) = PEACHOS_MAX_FILE_DESCRIPTORS"
    "i < PEACHOS_MAX_FILE_DESCRIPTORS \<Longrightarrow> v_fds v ! i = Some d \<Longrightarrow> fo_index d = int i + 1"
    "i < PEACHOS_MAX_FILE_DESCRIPTORS \<Longrightarrow> v_fds v ! i = Some d \<Longrightarrow> distinct (desc_objects owned d)"
    "i < PEACHOS_MAX_FILE_DESCRIPTORS \<Longrightarrow> v_fds v ! i = Some d \<Longrightarrow> a \<in> set (desc_objects owned d) \<Longrightarrow>
       (a, 1) \<in> heap_live (k_heap (v_k v))"
    "i < PEACHOS_MAX_FILE_DESCRIPTORS \<Longrightarrow> j < PEACHOS_MAX_FILE_DESCRIPTORS \<Longrightarrow> i \<noteq> j \<Longrightarrow> v_fds v ! i = Some d \<Longrightarrow>
       v_fds v ! j = Some e \<Longrightarrow> set (desc_objects owned d) \<inter> set (desc_objects owned e) = {}"
  using assms unfolding fds_inv_def by blast+

lemma fds_inv_put:
  assumes "fds_inv owned v" and "i < PEACHOS_MAX_FILE_DESCRIPTORS" and "v_fds v' = (v_fds v)[i := Some d]"
    and "fo_index d = int i + 1" and "distinct (desc_objects owned d)"
    and "\<And>a. a \<in> set (desc_objects owned d) \<Longrightarrow> (a, 1) \<in> heap_live (k_heap (v_k v'))"
    and keep: "\<And>a j e. j < PEACHOS_MAX_FILE_DESCRIPTORS \<Longrightarrow> j \<noteq> i \<Longrightarrow> v_fds v ! j = Some e \<Longrightarrow> a \<in> set (desc_objects owned e) \<Longrightarrow>
          (a, 1) \<in> heap_live (k_heap (v_k v')) \<and> a \<notin> set (desc_objects owned d)"
  shows "fds_inv owned v'"
proof -
  note I = fds_invD [OF assms(1)]
  have nth: "v_fds v' ! j = (if j = i then Some d else v_fds v ! j)" if "j < PEACHOS_MAX_FILE_DESCRIPTORS" for j
    using that assms(2,3) I(1) by simp
  show ?thesis
    unfolding fds_inv_def
  proof (intro conjI allI impI)
    show "length (v_fds v') = PEACHOS_MAX_FILE_DESCRIPTORS" using assms(3) I(1) by simp
    fix j e
    assume j: "j < PEACHOS_MAX_FILE_DESCRIPTORS" "v_fds v' ! j = Some e"
    show "fo_index e = int j + 1" "distinct (desc_objects owned e)"
      "\<forall>a \<in> set (desc_objects owned e). (a, 1) \<in> heap_live (k_heap (v_k v'))"
      using j nth [OF j(1)] assms(4-6) I(2,3) [OF j(1)] keep [OF j(1)] by (auto split: if_splits)
    fix k f
    assume k: "k < PEACHOS_MAX_FILE_DESCRIPTORS" "j \<noteq> k" "v_fds v' ! k = Some f"
    show "set (desc_objects owned e) \<inter> set (desc_objects owned f) = {}"
      using j k nth [OF j(1)] nth [OF k(1)] keep [OF j(1)] keep [OF k(1)] I(5) [OF j(1) k(1,2)]
      by (auto split: if_splits)
  qed
qed

lemma fds_inv_drop:
  assumes "fds_inv owned v" and "i < PEACHOS_MAX_FILE_DESCRIPTORS" and "v_fds v' = (v_fds v)[i := None]"
    and keep: "\<And>a j e. j < PEACHOS_MAX_FILE_DESCRIPTORS \<Longrightarrow> j \<noteq> i \<Longrightarrow> v_fds v ! j = Some e \<Longrightarrow> a \<in> set (desc_objects owned e) \<Longrightarrow>
          (a, 1) \<in> heap_live (k_heap (v_k v'))"
  shows "fds_inv owned v'"
proof -
  note I = fds_invD [OF assms(1)]
  have nth: "v_fds v' ! j = (if j = i then None else v_fds v ! j)" if "j < PEACHOS_MAX_FILE_DESCRIPTORS" for j
    using that assms(2,3) I(1) by simp
  show ?thesis
    unfolding fds_inv_def
  proof (intro conjI allI impI)
    show "length (v_fds v') = PEACHOS_MAX_FILE_DESCRIPTORS" using assms(3) I(1) by simp
    fix j e
    assume j: "j < PEACHOS_MAX_FILE_DESCRIPTORS" "v_fds v' ! j = Some e"
    show "fo_index e = int j + 1" "distinct (desc_objects owned e)"
      "\<forall>a \<in> set (desc_objects owned e). (a, 1) \<in> heap_live (k_heap (v_k v'))"
      using j nth [OF j(1)] I(2,3) [OF j(1)] keep [OF j(1)] by (auto split: if_splits)
    fix k f
    assume k: "k < PEACHOS_MAX_FILE_DESCRIPTORS" "j \<noteq> k" "v_fds v' ! k = Some f"
    show "set (desc_objects owned e) \<inter> set (desc_objects owned f) = {}"
      using j k nth [OF j(1)] nth [OF k(1)] I(5) [OF j(1) k(1,2)] by (auto split: if_splits)
  qed
qed

lemma fds_inv_same:
  assumes "fds_inv owned v" and "v_fds v' = v_fds v" and "heap_live (k_heap (v_k v)) \<subseteq> heap_live (k_heap (v_k v'))"
  shows "fds_inv owned v'"
  using assms(1,3) unfolding fds_inv_def assms(2) by blast

section \<open>Opening\<close>

lemma path_components_single:
  "xs \<noteq> [] \<Longrightarrow> chr_slash \<notin> set xs \<Longrightarrow> path_components xs = [xs]"
proof -
  assume a: "xs \<noteq> []" "chr_slash \<notin> set xs"
  then have t: "takeWhile (\<lambda>b. b \<noteq> chr_slash) xs = xs" by (auto simp: takeWhile_eq_all_conv)
  show ?thesis
    using a(1) by (subst path_components.simps, simp only: t Let_def) (simp add: path_components.simps [of "[]"])
qed

lemma parse_single:
  assumes "cstr_of path (0x30 # chr_colon # chr_slash # xs)" and "xs \<noteq> []" and "chr_slash \<notin> set xs" and "length xs \<le> 12"
    and "heap_slack heap (4 + k)"
  obtains root part heap' where "pathparser_parse heap path = Some (Some root, heap')" "pr_drive_no root = 0"
    "pr_first root = [part]" "cstr_of (pp_part part) xs" "heap_slack heap' (Suc k)"
    "grown heap_live heap (root_addrs root) heap'" "length (root_addrs root) = 3"
proof -
  note c = path_components_single [OF assms(2,3)]
  have "heap_slack heap (2 * length (path_components xs) + 2 + k)" using assms(5) c by simp
  moreover have "isdigit 0x30" "length xs + 3 \<le> PEACHOS_MAX_PATH" using assms(4) by (simp_all add: isdigit_def)
  ultimately obtain root heap' where r: "pathparser_parse heap path = Some (Some root, heap')"
    "pr_drive_no root = tonumericdigit 0x30" "list_all2 (\<lambda>p c. cstr_of (pp_part p) c) (pr_first root) [xs]"
    "heap_slack heap' (Suc k)" "grown heap_live heap (root_addrs root) heap'"
    using pathparser_parse_run [OF assms(1)] c by metis
  from r(3) obtain part where "pr_first root = [part]" "cstr_of (pp_part part) xs" by (auto simp: list_all2_Cons2)
  with r that show thesis by (auto simp: tonumericdigit_def root_addrs_def part_addrs_def)
qed

lemma small_16 [simp]: "small_size 16"
  by (simp add: small_size_def)

abbreviation blank_desc :: "u32 \<Rightarrow> nat \<Rightarrow> 'd file_descriptor" where
  "blank_desc a j \<equiv> \<lparr>fo_addr = a, fo_index = int j + 1, fo_filesystem = None, fo_private = None, fo_disk = None\<rparr>"

lemma new_descriptor_run:
  assumes "fds_inv owned v" and "i < PEACHOS_MAX_FILE_DESCRIPTORS" and "v_fds v ! i = None" and "heap_slack (k_heap (v_k v)) (Suc k)"
  obtains j a h where "file_new_descriptor v =
       Some (0, Some (blank_desc a j), put_heap (v\<lparr>v_fds := (v_fds v)[j := Some (blank_desc a j)]\<rparr>) h)"
    "j \<le> i" "v_fds v ! j = None" "heap_slack h k" "grown heap_live (k_heap (v_k v)) [a] h"
proof -
  have "i < length (v_fds v)" using fds_invD(1) [OF assms(1)] assms(2) by simp
  then obtain j where j: "first_null (v_fds v) 0 = Some j" "j \<le> i" "v_fds v ! j = None"
    using first_null_ex assms(3) by blast
  obtain a h where a: "kzalloc (k_heap (v_k v)) 16 = Some (a, h)" "a \<noteq> 0" "heap_slack h k" "grown heap_live (k_heap (v_k v)) [a] h"
    by (rule ko.zalloc_grown [OF assms(4) small_16])
  have "file_new_descriptor v =
       Some (0, Some (blank_desc a j), put_heap (v\<lparr>v_fds := (v_fds v)[j := Some (blank_desc a j)]\<rparr>) h)"
    using j(1) a(1,2) by (simp add: file_new_descriptor_def Let_def)
  from this j(2,3) a(3,4) show thesis by (rule that)
qed

text \<open>
  The run of \<^verbatim>\<open>fopen\<close> on a path \<^verbatim>\<open>0:/xs\<close>, given how the file system opens the one part of it.
  The objects of the parsed path stay allocated.
\<close>

lemma fopen_run:
  assumes inv: "fds_inv owned v" and path: "cstr_of path (0x30 # chr_colon # chr_slash # xs)"
    and xs: "xs \<noteq> []" "chr_slash \<notin> set xs" "length xs \<le> 12" and fs: "dk_filesystem (k_disk (v_k v)) = Some tok"
    and mode: "file_get_mode_by_string m = Some mode" "mode \<noteq> FILE_MODE_INVALID"
    and free: "i < PEACHOS_MAX_FILE_DESCRIPTORS" "v_fds v ! i = None" and slack: "heap_slack (k_heap (v_k v)) (4 + k)"
    and "open": "\<And>part h. cstr_of (pp_part part) xs \<Longrightarrow> heap_slack h (Suc k) \<Longrightarrow>
       \<exists>q s'. fs_open_fn (ops tok) ((v_k v)\<lparr>k_heap := h\<rparr>) [part] mode = Some (Inr q, s') \<and> P q s'
         \<and> heap_slack (k_heap s') (Suc j) \<and> grown heap_live h (owned q) (k_heap s')"
  shows "\<exists>n root q s' h a. n \<le> i \<and> v_fds v ! n = None \<and> P q s'
     \<and> fopen ops v path m = Some (int n + 1, v\<lparr>v_k := s'\<lparr>k_heap := h\<rparr>, v_fds := (v_fds v)[n := Some
         \<lparr>fo_addr = a, fo_index = int n + 1, fo_filesystem = Some tok, fo_private = Some q, fo_disk = Some 0\<rparr>]\<rparr>)
     \<and> heap_slack h j \<and> grown heap_live (k_heap (v_k v)) (root_addrs root @ owned q @ [a]) h
     \<and> length (root_addrs root) = 3"
proof -
  obtain root part h1 where r: "pathparser_parse (k_heap (v_k v)) path = Some (Some root, h1)" "pr_drive_no root = 0"
    "pr_first root = [part]" "cstr_of (pp_part part) xs" "heap_slack h1 (Suc k)"
    "grown heap_live (k_heap (v_k v)) (root_addrs root) h1" "length (root_addrs root) = 3"
    by (rule parse_single [OF path xs slack])
  from "open" [OF r(4,5)] obtain q s' where q: "fs_open_fn (ops tok) ((v_k v)\<lparr>k_heap := h1\<rparr>) [part] mode = Some (Inr q, s')"
    "P q s'" "heap_slack (k_heap s') (Suc j)" "grown heap_live h1 (owned q) (k_heap s')" by blast
  let ?v2 = "v\<lparr>v_k := s'\<rparr>"
  have "heap_live (k_heap (v_k v)) \<subseteq> heap_live (k_heap (v_k ?v2))" using r(6) q(4) by (auto simp: grown_def)
  then have inv2: "fds_inv owned ?v2" by (intro fds_inv_same [OF inv]) simp_all
  have pre: "v_fds ?v2 ! i = None" "heap_slack (k_heap (v_k ?v2)) (Suc j)" using free(2) q(3) by simp_all
  obtain n a h where n: "file_new_descriptor ?v2 =
       Some (0, Some (blank_desc a n), put_heap (?v2\<lparr>v_fds := (v_fds ?v2)[n := Some (blank_desc a n)]\<rparr>) h)"
    "n \<le> i" "v_fds ?v2 ! n = None" "heap_slack h j" "grown heap_live (k_heap (v_k ?v2)) [a] h"
    by (rule new_descriptor_run [OF inv2 free(1) pre])
  let ?d = "\<lparr>fo_addr = a, fo_index = int n + 1, fo_filesystem = Some tok, fo_private = Some q, fo_disk = Some 0\<rparr>"
  have run: "fopen ops v path m = Some (int n + 1, v\<lparr>v_k := s'\<lparr>k_heap := h\<rparr>, v_fds := (v_fds v)[n := Some ?d]\<rparr>)"
    using r(1-3) q(1) n(1) fs mode
    by (simp add: fopen_def fopen_body_def disk_get_def put_heap_def)
  have "grown heap_live (k_heap (v_k v)) (root_addrs root @ owned q @ [a]) h"
    using grown_trans [OF grown_trans [OF r(6) q(4)]] n(5) by simp
  with run n(2-4) q(2) r(7) show ?thesis
    by (intro exI [of _ n] exI [of _ root] exI [of _ q] exI [of _ s'] exI [of _ h] exI [of _ a]) simp
qed

section \<open>Open files\<close>

text \<open>
  \<open>handle opened tok v fd w k p\<close>: \<open>fd\<close> is open on the file \<open>k\<close> at position \<open>p\<close>.
  \<open>mounted rep owned tok v M\<close>: the disk stores the files \<open>M\<close> and the tables are in order.
\<close>

definition handle ::
    "(kstate \<Rightarrow> 'd \<Rightarrow> bool \<Rightarrow> byte list \<Rightarrow> nat \<Rightarrow> bool) \<Rightarrow> filesystem \<Rightarrow> 'd vfs \<Rightarrow> int \<Rightarrow> bool \<Rightarrow> byte list \<Rightarrow> nat \<Rightarrow> bool" where
  "handle opened tok v fd w k p \<longleftrightarrow> 1 \<le> fd \<and> fd < int PEACHOS_MAX_FILE_DESCRIPTORS
     \<and> (\<exists>d q. v_fds v ! nat (fd - 1) = Some d \<and> fo_filesystem d = Some tok \<and> fo_private d = Some q
            \<and> opened (v_k v) q w k p)"

definition mounted ::
    "(kstate \<Rightarrow> (byte list \<rightharpoonup> byte list) \<Rightarrow> bool) \<Rightarrow> ('d \<Rightarrow> u32 list) \<Rightarrow> filesystem \<Rightarrow> 'd vfs \<Rightarrow> (byte list \<rightharpoonup> byte list) \<Rightarrow> bool" where
  "mounted rep owned tok v M \<longleftrightarrow> rep (v_k v) M \<and> fds_inv owned v \<and> dk_filesystem (k_disk (v_k v)) = Some tok"

lemma mountedD:
  assumes "mounted rep owned tok v M"
  shows "rep (v_k v) M" "fds_inv owned v" "dk_filesystem (k_disk (v_k v)) = Some tok"
  using assms by (simp_all add: mounted_def)

lemma handleE:
  assumes "handle opened tok v fd w k p" and "fds_inv owned v"
  obtains d q where "v_fds v ! nat (fd - 1) = Some d" "fo_filesystem d = Some tok" "fo_private d = Some q"
    "opened (v_k v) q w k p" "1 \<le> fd" "nat (fd - 1) < PEACHOS_MAX_FILE_DESCRIPTORS"
    "file_get_descriptor v fd = Some (Some d)" "fo_index d = fd" "desc_objects owned d = owned q @ [fo_addr d]"
proof -
  from assms(1) obtain d q where d: "v_fds v ! nat (fd - 1) = Some d" "fo_filesystem d = Some tok" "fo_private d = Some q"
    "opened (v_k v) q w k p" and fd: "1 \<le> fd" "fd < int PEACHOS_MAX_FILE_DESCRIPTORS"
    by (auto simp: handle_def)
  have n: "nat (fd - 1) < PEACHOS_MAX_FILE_DESCRIPTORS" using fd by simp
  note I = fds_invD [OF assms(2)]
  have "file_get_descriptor v fd = Some (Some d)" using fd n d(1) I(1) by (simp add: file_get_descriptor_def)
  moreover have "fo_index d = fd" using I(2) [OF n d(1)] fd by simp
  moreover have "desc_objects owned d = owned q @ [fo_addr d]" using d(3) by (simp add: desc_objects_def)
  ultimately show thesis using that d fd(1) n by blast
qed

lemma handle_other:
  assumes "handle opened tok v fd w k p" and "v_fds v' ! nat (fd - 1) = v_fds v ! nat (fd - 1)"
    and "\<And>q. opened (v_k v) q w k p \<Longrightarrow> opened (v_k v') q w k p"
  shows "handle opened tok v' fd w k p"
  using assms by (auto simp: handle_def)

lemma fds_inv_opened:
  assumes "fds_inv owned v" and "n < PEACHOS_MAX_FILE_DESCRIPTORS" and "v_fds v ! n = None"
    and "v_fds v' = (v_fds v)[n := Some d]" and "fo_index d = int n + 1"
    and "grown heap_live (k_heap (v_k v)) (R @ desc_objects owned d) (k_heap (v_k v'))"
  shows "fds_inv owned v'"
proof (rule fds_inv_put [OF assms(1,2,4,5)])
  show "distinct (desc_objects owned d)" using assms(6) by (simp add: grown_def)
  show "(a, 1) \<in> heap_live (k_heap (v_k v'))" if "a \<in> set (desc_objects owned d)" for a
    using that assms(6) by (auto simp: grown_def)
  show "(a, 1) \<in> heap_live (k_heap (v_k v')) \<and> a \<notin> set (desc_objects owned d)"
    if "j < PEACHOS_MAX_FILE_DESCRIPTORS" "v_fds v ! j = Some e" "a \<in> set (desc_objects owned e)" for a j e
    using fds_invD(4) [OF assms(1) that] assms(6) by (auto simp: grown_def)
qed

text \<open>
  What holds of the tables after a successful \<^verbatim>\<open>fopen\<close> of the file \<open>k\<close>: a free descriptor is
  taken, the descriptors of other files stay open, and the heap has the objects of the
  descriptor and three more, those of the parsed path.
\<close>

definition fopen_ok ::
    "(kstate \<Rightarrow> 'd \<Rightarrow> bool \<Rightarrow> byte list \<Rightarrow> nat \<Rightarrow> bool) \<Rightarrow> (kstate \<Rightarrow> nat list \<Rightarrow> bool) \<Rightarrow> ('d \<Rightarrow> u32 list) \<Rightarrow> filesystem \<Rightarrow>
     'd vfs \<Rightarrow> byte list \<Rightarrow> bool \<Rightarrow> int \<Rightarrow> 'd vfs \<Rightarrow> bool" where
  "fopen_ok opened room owned tok v k w fd v' \<longleftrightarrow> handle opened tok v' fd w k 0
     \<and> (\<forall>ns. room (v_k v) ns \<longrightarrow> room (v_k v') ns)
     \<and> (\<forall>fd' w' k' p. handle opened tok v fd' w' k' p \<longrightarrow> k' \<noteq> k \<longrightarrow> fd' \<noteq> fd \<and> handle opened tok v' fd' w' k' p)
     \<and> (\<exists>d leak. v_fds v' ! nat (fd - 1) = Some d \<and> length leak = 3
            \<and> grown heap_live (k_heap (v_k v)) (leak @ desc_objects owned d) (k_heap (v_k v')))
     \<and> (\<forall>n. n \<noteq> nat (fd - 1) \<longrightarrow> v_fds v' ! n = v_fds v ! n) \<and> v_fds v ! nat (fd - 1) = None"

lemma fds_inv_replace:
  assumes "fds_inv owned v" and "i < PEACHOS_MAX_FILE_DESCRIPTORS" and "v_fds v ! i = Some d"
    and "v_fds v' = (v_fds v)[i := Some d']" and "desc_objects owned d' = desc_objects owned d" and "fo_index d' = fo_index d"
    and "k_heap (v_k v') = k_heap (v_k v)"
  shows "fds_inv owned v'"
proof (rule fds_inv_put [OF assms(1,2,4)])
  note I = fds_invD [OF assms(1)]
  show "fo_index d' = int i + 1" using I(2) [OF assms(2,3)] assms(6) by simp
  show "distinct (desc_objects owned d')" unfolding assms(5) by (rule I(3) [OF assms(2,3)])
  show "(a, 1) \<in> heap_live (k_heap (v_k v'))" if "a \<in> set (desc_objects owned d')" for a
    using I(4) [OF assms(2,3)] that assms(5,7) by simp
  show "(a, 1) \<in> heap_live (k_heap (v_k v')) \<and> a \<notin> set (desc_objects owned d')"
    if j: "j < PEACHOS_MAX_FILE_DESCRIPTORS" "j \<noteq> i" "v_fds v ! j = Some e" "a \<in> set (desc_objects owned e)" for a j e
    using I(4) [OF j(1,3,4)] I(5) [OF j(1) assms(2) j(2,3) assms(3)] j(4) assms(5,7) by auto
qed

context file_store
begin

text \<open>What holds after a successful \<^verbatim>\<open>fopen\<close>, for either mode.\<close>

lemma fopen_handle:
  assumes tok: "ops tok = fs" and M: "mounted rep owned tok v M" and xs: "good xs"
    and path: "cstr_of path (0x30 # chr_colon # chr_slash # xs)"
    and mode: "file_get_mode_by_string m = Some mode" "mode \<noteq> FILE_MODE_INVALID"
    and free: "i < 511" "v_fds v ! i = None" and slack: "heap_slack (k_heap (v_k v)) (4 + k)"
    and "open": "\<And>part h. cstr_of (pp_part part) xs \<Longrightarrow> heap_slack h (Suc k) \<Longrightarrow>
       \<exists>q s'. fs_open_fn fs ((v_k v)\<lparr>k_heap := h\<rparr>) [part] mode = Some (Inr q, s')
         \<and> (rep s' M' \<and> opened s' q w (canon xs) 0 \<and> undisturbed opened (v_k v) (canon xs) s'
            \<and> (\<forall>ns. data_room (v_k v) ns \<longrightarrow> data_room s' ns) \<and> entry_room s' en)
         \<and> heap_slack (k_heap s') (Suc j) \<and> grown heap_live h (owned q) (k_heap s')"
  shows "\<exists>fd v'. fopen ops v path m = Some (fd, v') \<and> mounted rep owned tok v' M'
     \<and> heap_slack (k_heap (v_k v')) j \<and> entry_room (v_k v') en
     \<and> fopen_ok opened data_room owned tok v (canon xs) w fd v'"
proof -
  note D = mountedD [OF M]
  have x: "xs \<noteq> []" "chr_slash \<notin> set xs" "length xs \<le> 12" using good_name [OF xs] by simp_all
  let ?P = "\<lambda>q s'. rep s' M' \<and> opened s' q w (canon xs) 0 \<and> undisturbed opened (v_k v) (canon xs) s'
      \<and> (\<forall>ns. data_room (v_k v) ns \<longrightarrow> data_room s' ns) \<and> entry_room s' en"
  have i: "i < PEACHOS_MAX_FILE_DESCRIPTORS" using free(1) by simp
  from fopen_run [where P = ?P and ops = ops, OF D(2) path x D(3) mode i free(2) slack] "open" obtain n root q s' h a where
    r: "n \<le> i" "v_fds v ! n = None" "rep s' M'" "opened s' q w (canon xs) 0" "undisturbed opened (v_k v) (canon xs) s'"
    "(\<forall>ns. data_room (v_k v) ns \<longrightarrow> data_room s' ns) \<and> entry_room s' en"
    "fopen ops v path m = Some (int n + 1, v\<lparr>v_k := s'\<lparr>k_heap := h\<rparr>, v_fds := (v_fds v)[n := Some
         \<lparr>fo_addr = a, fo_index = int n + 1, fo_filesystem = Some tok, fo_private = Some q, fo_disk = Some 0\<rparr>]\<rparr>)"
    "heap_slack h j" "grown heap_live (k_heap (v_k v)) (root_addrs root @ owned q @ [a]) h" "length (root_addrs root) = 3"
    unfolding tok by blast
  let ?d = "\<lparr>fo_addr = a, fo_index = int n + 1, fo_filesystem = Some tok, fo_private = Some q, fo_disk = Some 0\<rparr>"
  let ?v' = "v\<lparr>v_k := s'\<lparr>k_heap := h\<rparr>, v_fds := (v_fds v)[n := Some ?d]\<rparr>"
  have n: "n < PEACHOS_MAX_FILE_DESCRIPTORS" "n < 511" using r(1) free(1) by simp_all
  have len: "length (v_fds v) = PEACHOS_MAX_FILE_DESCRIPTORS" by (rule fds_invD(1) [OF D(2)])
  have ob: "desc_objects owned ?d = owned q @ [a]" by (simp add: desc_objects_def)
  then have gr: "grown heap_live (k_heap (v_k v)) (root_addrs root @ desc_objects owned ?d) (k_heap (v_k ?v'))" using r(9) by simp
  have "fds_inv owned ?v'" by (rule fds_inv_opened [OF D(2) n(1) r(2) _ _ gr]) simp_all
  then have mt: "mounted rep owned tok ?v' M'"
    using rep_heap [OF r(3)] r(5) D(3) by (simp add: mounted_def undisturbed_def)
  have hd: "handle opened tok ?v' (int n + 1) w (canon xs) 0"
    using n len opened_heap [OF r(4)] by (simp add: handle_def)
  have other: "fd' \<noteq> int n + 1 \<and> handle opened tok ?v' fd' w' k' p"
    if h: "handle opened tok v fd' w' k' p" "k' \<noteq> canon xs" for fd' w' k' p
  proof -
    obtain e where e: "v_fds v ! nat (fd' - 1) = Some e" "1 \<le> fd'" using h(1) by (auto simp: handle_def)
    then have ne: "nat (fd' - 1) \<noteq> n" using r(2) by auto
    have "handle opened tok ?v' fd' w' k' p"
      using r(5) opened_heap h(2) ne by (intro handle_other [OF h(1)]) (auto simp: undisturbed_def)
    with ne show ?thesis by auto
  qed
  have room: "\<forall>ns. data_room (v_k v) ns \<longrightarrow> data_room (v_k ?v') ns" using r(6) room_heap(1) by simp
  have "fopen_ok opened data_room owned tok v (canon xs) w (int n + 1) ?v'"
    unfolding fopen_ok_def
  proof (intro conjI exI)
    show "v_fds ?v' ! nat (int n + 1 - 1) = Some ?d" using n len by simp
    show "grown heap_live (k_heap (v_k v)) (root_addrs root @ desc_objects owned ?d) (k_heap (v_k ?v'))" by (rule gr)
  qed (use hd room other r(2,10) in auto)
  with r(6-8) mt room_heap(2) show ?thesis by (intro exI [of _ "int n + 1"] exI [of _ ?v']) simp
qed

lemma fopen_write:
  assumes "ops tok = fs" and M: "mounted rep owned tok v M" and "good xs"
    and "cstr_of path (0x30 # chr_colon # chr_slash # xs)" and "file_get_mode_by_string m = Some FILE_MODE_WRITE"
    and "entry_room (v_k v) (if M (canon xs) = None then Suc en else en)"
    and "i < 511" "v_fds v ! i = None" and slack: "heap_slack (k_heap (v_k v)) (4 + (j + cost))"
  shows "\<exists>fd v'. fopen ops v path m = Some (fd, v') \<and> mounted rep owned tok v' (M(canon xs \<mapsto> []))
     \<and> heap_slack (k_heap (v_k v')) j \<and> entry_room (v_k v') en
     \<and> fopen_ok opened data_room owned tok v (canon xs) True fd v'"
proof (rule fopen_handle [where ops = ops and tok = tok, OF assms(1-5) _ assms(7,8) slack])
  fix part :: path_part and h
  assume p: "cstr_of (pp_part part) xs" "heap_slack h (Suc (j + cost))"
  let ?s = "(v_k v)\<lparr>k_heap := h\<rparr>"
  have "heap_slack (k_heap ?s) (Suc j + cost)" using p(2) by simp
  moreover have "entry_room ?s (if M (canon xs) = None then Suc en else en)" using assms(6) room_heap(2) by blast
  ultimately obtain q s' where q: "fs_open_fn fs ?s [part] FILE_MODE_WRITE = Some (Inr q, s')" "rep s' (M(canon xs \<mapsto> []))"
    "opened s' q True (canon xs) 0" "undisturbed opened ?s (canon xs) s'" "\<forall>ns. data_room ?s ns \<longrightarrow> data_room s' ns"
    "heap_slack (k_heap s') (Suc j)" "entry_room s' en" "grown heap_live (k_heap ?s) (owned q) (k_heap s')"
    using open_write [OF rep_heap [OF mountedD(1) [OF M]] assms(3) p(1)] by blast
  moreover have "undisturbed opened (v_k v) (canon xs) s'" using q(4) opened_heap by (auto simp: undisturbed_def)
  moreover have "\<forall>ns. data_room (v_k v) ns \<longrightarrow> data_room s' ns" using q(5) room_heap(1) by blast
  ultimately show "\<exists>q s'. fs_open_fn fs ?s [part] FILE_MODE_WRITE = Some (Inr q, s')
      \<and> (rep s' (M(canon xs \<mapsto> [])) \<and> opened s' q True (canon xs) 0 \<and> undisturbed opened (v_k v) (canon xs) s'
         \<and> (\<forall>ns. data_room (v_k v) ns \<longrightarrow> data_room s' ns) \<and> entry_room s' en)
      \<and> heap_slack (k_heap s') (Suc j) \<and> grown heap_live h (owned q) (k_heap s')"
    by auto
qed simp

lemma fopen_read:
  assumes "ops tok = fs" and M: "mounted rep owned tok v M" and "good xs"
    and "cstr_of path (0x30 # chr_colon # chr_slash # xs)" and "file_get_mode_by_string m = Some FILE_MODE_READ"
    and "M (canon xs) \<noteq> None" and en: "entry_room (v_k v) en"
    and "i < 511" "v_fds v ! i = None" and slack: "heap_slack (k_heap (v_k v)) (4 + (j + cost))"
  shows "\<exists>fd v'. fopen ops v path m = Some (fd, v') \<and> mounted rep owned tok v' M
     \<and> heap_slack (k_heap (v_k v')) j \<and> entry_room (v_k v') en
     \<and> fopen_ok opened data_room owned tok v (canon xs) False fd v'"
proof (rule fopen_handle [where ops = ops and tok = tok, OF assms(1-5) _ assms(8,9) slack])
  fix part :: path_part and h
  assume p: "cstr_of (pp_part part) xs" "heap_slack h (Suc (j + cost))"
  let ?s = "(v_k v)\<lparr>k_heap := h\<rparr>"
  have "heap_slack (k_heap ?s) (Suc j + cost)" using p(2) by simp
  then obtain q h' where q: "fs_open_fn fs ?s [part] FILE_MODE_READ = Some (Inr q, ?s\<lparr>k_heap := h'\<rparr>)"
    "opened (?s\<lparr>k_heap := h'\<rparr>) q False (canon xs) 0" "heap_slack h' (Suc j)" "grown heap_live (k_heap ?s) (owned q) h'"
    using open_read [OF rep_heap [OF mountedD(1) [OF M]] assms(3) p(1) assms(6)] by blast
  have eq: "?s\<lparr>k_heap := h'\<rparr> = (v_k v)\<lparr>k_heap := h'\<rparr>" by simp
  have "undisturbed opened (v_k v) (canon xs) ((v_k v)\<lparr>k_heap := h'\<rparr>)" using opened_heap by (simp add: undisturbed_def)
  then show "\<exists>q s'. fs_open_fn fs ?s [part] FILE_MODE_READ = Some (Inr q, s')
      \<and> (rep s' M \<and> opened s' q False (canon xs) 0 \<and> undisturbed opened (v_k v) (canon xs) s'
         \<and> (\<forall>ns. data_room (v_k v) ns \<longrightarrow> data_room s' ns) \<and> entry_room s' en)
      \<and> heap_slack (k_heap s') (Suc j) \<and> grown heap_live h (owned q) (k_heap s')"
    using q rep_heap [OF mountedD(1) [OF M], of h'] room_heap(1) room_heap(2) [OF en] unfolding eq
    by (intro exI [of _ q] exI [of _ "(v_k v)\<lparr>k_heap := h'\<rparr>"]) simp
qed simp

lemma fwrite_handle:
  assumes "ops tok = fs" and M: "mounted rep owned tok v M" and h: "handle opened tok v fd True k p" and "M k = Some bs"
    and "p \<le> length bs" and "buf \<noteq> []" and "unat sz * unat nmemb = length buf" and "p + length buf < 2 ^ 31"
    and "data_room (v_k v) (length buf # ns)"
  shows "\<exists>v'. fwrite ops v buf sz nmemb fd = Some (sint nmemb, v') \<and> mounted rep owned tok v' (M(k \<mapsto> patch bs p buf))
     \<and> handle opened tok v' fd True k (p + length buf) \<and> k_heap (v_k v') = k_heap (v_k v)
     \<and> data_room (v_k v') ns \<and> (\<forall>n. entry_room (v_k v) n \<longrightarrow> entry_room (v_k v') n)
     \<and> (\<forall>fd' w' k' p'. handle opened tok v fd' w' k' p' \<longrightarrow> fd' \<noteq> fd \<longrightarrow> k' \<noteq> k \<longrightarrow> handle opened tok v' fd' w' k' p')
     \<and> (\<forall>n. v_fds v' ! n = None \<longleftrightarrow> v_fds v ! n = None)
     \<and> map_option (desc_objects owned) (v_fds v' ! nat (fd - 1)) = map_option (desc_objects owned) (v_fds v ! nat (fd - 1))"
proof -
  note D = mountedD [OF M]
  obtain d q where d: "v_fds v ! nat (fd - 1) = Some d" "fo_filesystem d = Some tok" "fo_private d = Some q"
    "opened (v_k v) q True k p" "1 \<le> fd" "nat (fd - 1) < PEACHOS_MAX_FILE_DESCRIPTORS"
    "file_get_descriptor v fd = Some (Some d)" "fo_index d = fd" "desc_objects owned d = owned q @ [fo_addr d]"
    by (rule handleE [OF h D(2)])
  from write_ok [OF D(1) assms(4) d(4) assms(5-9)] obtain wr q' s' where
    w: "fs_write_fn fs = Some wr" "wr (v_k v) q sz nmemb buf = Some (sint nmemb, q', s')"
    "rep s' (M(k \<mapsto> patch bs p buf))" "opened s' q' True k (p + length buf)" "owned q' = owned q"
    "undisturbed opened (v_k v) k s'" "k_heap s' = k_heap (v_k v)"
    "data_room s' ns" "\<forall>n. entry_room (v_k v) n \<longrightarrow> entry_room s' n" by blast
  have nz: "sz \<noteq> 0" "nmemb \<noteq> 0" using assms(6,7) by auto
  let ?d = "d\<lparr>fo_private := Some q'\<rparr>"
  let ?v' = "put_fo_private (v\<lparr>v_k := s'\<rparr>) fd d q'"
  have run: "fwrite ops v buf sz nmemb fd = Some (sint nmemb, ?v')"
    using nz d(2,3,5,7) w(1,2) assms(1) by (simp add: fwrite_def)
  have k: "v_k ?v' = s'" "v_fds ?v' = (v_fds v)[nat (fd - 1) := Some ?d]" by (simp_all add: put_fo_private_def)
  have len: "length (v_fds v) = PEACHOS_MAX_FILE_DESCRIPTORS" by (rule fds_invD(1) [OF D(2)])
  have ob: "desc_objects owned ?d = desc_objects owned d" using d(3) w(5) by (simp add: desc_objects_def)
  have "fds_inv owned ?v'" by (rule fds_inv_replace [OF D(2) d(6,1) k(2) ob]) (simp_all add: k(1) w(7))
  then have mt: "mounted rep owned tok ?v' (M(k \<mapsto> patch bs p buf))"
    using w(3,6) D(3) k(1) by (simp add: mounted_def undisturbed_def)
  have hd: "handle opened tok ?v' fd True k (p + length buf)"
    using h d(2,6) len w(4) k by (simp add: handle_def)
  have "handle opened tok ?v' fd' w' k' p'" if "handle opened tok v fd' w' k' p'" "fd' \<noteq> fd" "k' \<noteq> k" for fd' w' k' p'
  proof (rule handle_other [OF that(1)])
    have "nat (fd' - 1) \<noteq> nat (fd - 1)" using that(1,2) d(5) by (auto simp: handle_def)
    then show "v_fds ?v' ! nat (fd' - 1) = v_fds v ! nat (fd' - 1)" by (simp add: k(2))
  qed (use w(6) that(3) k(1) in \<open>auto simp: undisturbed_def\<close>)
  moreover have "v_fds ?v' ! n = None \<longleftrightarrow> v_fds v ! n = None" for n
    using d(1,6) len k(2) by (cases "n = nat (fd - 1)") auto
  moreover have "map_option (desc_objects owned) (v_fds ?v' ! nat (fd - 1)) = map_option (desc_objects owned) (v_fds v ! nat (fd - 1))"
    using d(1,6) len k(2) ob by simp
  ultimately show ?thesis using run mt hd w(7-9) k(1) by (intro exI [of _ ?v']) simp
qed

lemma fread_run:
  assumes "ops tok = fs" and M: "mounted rep owned tok v M" and h: "handle opened tok v fd w k p" and "0 < z" and "0 < n" and "n < 2 ^ 31" and "z < 2 ^ 31"
    and rd: "\<And>q. opened (v_k v) q w k p \<Longrightarrow> \<exists>out s'. fs_read_fn fs (v_k v) q (word_of_nat z) (word_of_nat n) = Some (int n, out, s') \<and> P out
       \<and> rep s' M \<and> opened s' q w k p \<and> undisturbed opened (v_k v) k s' \<and> k_heap s' = k_heap (v_k v)
       \<and> (\<forall>ns. data_room (v_k v) ns \<longrightarrow> data_room s' ns) \<and> (\<forall>n. entry_room (v_k v) n \<longrightarrow> entry_room s' n)"
  shows "\<exists>out v'. fread ops v (word_of_nat z) (word_of_nat n) fd = Some (int n, out, v') \<and> P out \<and> mounted rep owned tok v' M
     \<and> handle opened tok v' fd w k p \<and> k_heap (v_k v') = k_heap (v_k v) \<and> v_fds v' = v_fds v
     \<and> (\<forall>ns. data_room (v_k v) ns \<longrightarrow> data_room (v_k v') ns) \<and> (\<forall>n. entry_room (v_k v) n \<longrightarrow> entry_room (v_k v') n)
     \<and> (\<forall>fd' w' k' p'. handle opened tok v fd' w' k' p' \<longrightarrow> k' \<noteq> k \<longrightarrow> handle opened tok v' fd' w' k' p')"
proof -
  note D = mountedD [OF M]
  obtain d q where d: "v_fds v ! nat (fd - 1) = Some d" "fo_filesystem d = Some tok" "fo_private d = Some q"
    "opened (v_k v) q w k p" "1 \<le> fd" "nat (fd - 1) < PEACHOS_MAX_FILE_DESCRIPTORS"
    "file_get_descriptor v fd = Some (Some d)" "fo_index d = fd" "desc_objects owned d = owned q @ [fo_addr d]"
    by (rule handleE [OF h D(2)])
  from rd [OF d(4)] obtain out s' where out: "P out" and
    r: "fs_read_fn fs (v_k v) q (word_of_nat z) (word_of_nat n) = Some (int n, out, s')" "rep s' M" "opened s' q w k p"
    "undisturbed opened (v_k v) k s'" "k_heap s' = k_heap (v_k v)"
    "(\<forall>ns. data_room (v_k v) ns \<longrightarrow> data_room s' ns) \<and> (\<forall>n. entry_room (v_k v) n \<longrightarrow> entry_room s' n)" by blast
  have "unat (word_of_nat n :: u32) = n" "unat (word_of_nat z :: u32) = z" using assms(6,7) by (simp_all add: unsigned_of_nat take_bit_nat_eq_self_iff)
  then have "(word_of_nat n :: u32) \<noteq> 0" "(word_of_nat z :: u32) \<noteq> 0" using assms(4,5) by auto
  then have run: "fread ops v (word_of_nat z) (word_of_nat n) fd = Some (int n, out, v\<lparr>v_k := s'\<rparr>)"
    using d(2,3,5,7) r(1) assms(1) by (simp add: fread_def)
  have "fds_inv owned (v\<lparr>v_k := s'\<rparr>)" by (rule fds_inv_same [OF D(2)]) (simp_all add: r(5))
  then have "mounted rep owned tok (v\<lparr>v_k := s'\<rparr>) M" using r(2,4) D(3) by (simp add: mounted_def undisturbed_def)
  moreover have "handle opened tok (v\<lparr>v_k := s'\<rparr>) fd w k p" using h d(1-3) r(3) by (simp add: handle_def)
  moreover have "handle opened tok (v\<lparr>v_k := s'\<rparr>) fd' w' k' p'" if "handle opened tok v fd' w' k' p'" "k' \<noteq> k" for fd' w' k' p'
    using r(4) that(2) by (intro handle_other [OF that(1)]) (auto simp: undisturbed_def)
  ultimately show ?thesis using run out r(5,6) by (intro exI [of _ out] exI [of _ "v\<lparr>v_k := s'\<rparr>"]) simp
qed

lemma fread_sector:
  assumes "ops tok = fs" and M: "mounted rep owned tok v M" and h: "handle opened tok v fd w k p" and bs: "M k = Some bs" "bs \<noteq> []"
    and "0 < z" and "0 < n" and "p + n * z \<le> max 512 (length bs)" and "n < 2 ^ 31" and "z < 2 ^ 31" and "z = 1 \<or> p = 0 \<and> n = 1"
  shows "\<exists>out v'. fread ops v (word_of_nat z) (word_of_nat n) fd = Some (int n, out, v') \<and> length out = n * z
     \<and> take (length bs - p) out = take (n * z) (drop p bs) \<and> mounted rep owned tok v' M
     \<and> handle opened tok v' fd w k p \<and> k_heap (v_k v') = k_heap (v_k v) \<and> v_fds v' = v_fds v
     \<and> (\<forall>ns. data_room (v_k v) ns \<longrightarrow> data_room (v_k v') ns) \<and> (\<forall>n. entry_room (v_k v) n \<longrightarrow> entry_room (v_k v') n)
     \<and> (\<forall>fd' w' k' p'. handle opened tok v fd' w' k' p' \<longrightarrow> k' \<noteq> k \<longrightarrow> handle opened tok v' fd' w' k' p')"
  using fread_run [where ops = ops and P = "\<lambda>out. length out = n * z \<and> take (length bs - p) out = take (n * z) (drop p bs)", OF assms(1-3,6,7,9,10)]
    read_ok [OF mountedD(1) [OF M] bs _ assms(6-8,11)] by (simp only: conj_assoc)

lemma fread_members:
  assumes "ops tok = fs" and "mounted rep owned tok v M" and "handle opened tok v fd w k p" and "M k = Some bs"
    and "0 < z" and "0 < n" and "p + n * z \<le> length bs" and "n < 2 ^ 31" and "z < 2 ^ 31" and "z = 1 \<or> p = 0 \<and> n = 1"
  shows "\<exists>v'. fread ops v (word_of_nat z) (word_of_nat n) fd = Some (int n, take (n * z) (drop p bs), v') \<and> mounted rep owned tok v' M
     \<and> handle opened tok v' fd w k p \<and> k_heap (v_k v') = k_heap (v_k v) \<and> v_fds v' = v_fds v
     \<and> (\<forall>ns. data_room (v_k v) ns \<longrightarrow> data_room (v_k v') ns) \<and> (\<forall>n. entry_room (v_k v) n \<longrightarrow> entry_room (v_k v') n)
     \<and> (\<forall>fd' w' k' p'. handle opened tok v fd' w' k' p' \<longrightarrow> k' \<noteq> k \<longrightarrow> handle opened tok v' fd' w' k' p')"
proof -
  have "0 < n * z" using assms(5,6) by simp
  then have "bs \<noteq> []" "p + n * z \<le> max 512 (length bs)" "n * z \<le> length bs - p" using assms(7) by auto
  with fread_sector [where ops = ops and tok = tok, OF assms(1-4) _ assms(5,6) _ assms(8-10)] show ?thesis by (metis take_all)
qed

lemma fread_handle:
  assumes "ops tok = fs" and "mounted rep owned tok v M" and "handle opened tok v fd w k p" and "M k = Some bs"
    and "0 < n" and "p + n \<le> length bs" and "n < 2 ^ 31"
  shows "\<exists>v'. fread ops v 1 (word_of_nat n) fd = Some (int n, take n (drop p bs), v') \<and> mounted rep owned tok v' M
     \<and> handle opened tok v' fd w k p \<and> k_heap (v_k v') = k_heap (v_k v) \<and> v_fds v' = v_fds v
     \<and> (\<forall>ns. data_room (v_k v) ns \<longrightarrow> data_room (v_k v') ns) \<and> (\<forall>n. entry_room (v_k v) n \<longrightarrow> entry_room (v_k v') n)
     \<and> (\<forall>fd' w' k' p'. handle opened tok v fd' w' k' p' \<longrightarrow> k' \<noteq> k \<longrightarrow> handle opened tok v' fd' w' k' p')"
  using fread_members [where ops = ops and tok = tok and z = 1 and n = n, OF assms(1-4)] assms(5-7) by simp

lemma fstat_handle:
  assumes "ops tok = fs" and M: "mounted rep owned tok v M" and h: "handle opened tok v fd w k p" and "M k = Some bs"
  shows "\<exists>st'. fstat ops v fd st = Some (0, st') \<and> unat (st_filesize st') = length bs"
proof -
  note D = mountedD [OF M]
  obtain d q where "fo_filesystem d = Some tok" "fo_private d = Some q" "opened (v_k v) q w k p"
    "file_get_descriptor v fd = Some (Some d)"
    by (rule handleE [OF h D(2)])
  with stat_ok [OF D(1) assms(4)] assms(1) show ?thesis by (fastforce simp: fstat_def)
qed

lemma fclose_handle:
  assumes "ops tok = fs" and M: "mounted rep owned tok v M" and h: "handle opened tok v fd w k p"
    and "heap_slack (k_heap (v_k v)) j"
  shows "\<exists>d h v'. fclose ops v fd = Some (0, v') \<and> mounted rep owned tok v' M
     \<and> v_fds v ! nat (fd - 1) = Some d \<and> v_fds v' = (v_fds v)[nat (fd - 1) := None] \<and> v_k v' = (v_k v)\<lparr>k_heap := h\<rparr>
     \<and> heap_slack h j \<and> heap_live h = heap_live (k_heap (v_k v)) - (\<lambda>a. (a, 1)) ` set (desc_objects owned d)
     \<and> (\<forall>fd' w' k' p'. handle opened tok v fd' w' k' p' \<longrightarrow> fd' \<noteq> fd \<longrightarrow> handle opened tok v' fd' w' k' p')"
proof -
  note D = mountedD [OF M]
  obtain d q where d: "v_fds v ! nat (fd - 1) = Some d" "fo_filesystem d = Some tok" "fo_private d = Some q"
    "opened (v_k v) q w k p" "1 \<le> fd" "nat (fd - 1) < PEACHOS_MAX_FILE_DESCRIPTORS"
    "file_get_descriptor v fd = Some (Some d)" "fo_index d = fd" "desc_objects owned d = owned q @ [fo_addr d]"
    by (rule handleE [OF h D(2)])
  note I = fds_invD [OF D(2)]
  have ds: "distinct (owned q)" "fo_addr d \<notin> set (owned q)" using I(3) [OF d(6,1)] d(9) by auto
  have lv: "(a, 1) \<in> heap_live (k_heap (v_k v))" if "a \<in> set (owned q) \<or> a = fo_addr d" for a
    using I(4) [OF d(6,1)] d(9) that by auto
  obtain h1 where h1: "fs_close_fn fs (v_k v) q = Some (0, (v_k v)\<lparr>k_heap := h1\<rparr>)" "heap_slack h1 (j + length (owned q))"
    "heap_live h1 = heap_live (k_heap (v_k v)) - (\<lambda>a. (a, 1)) ` set (owned q)"
    by (rule close_live [OF d(4) assms(4) ds(1)]) (use lv in auto)
  have "(fo_addr d, 1) \<in> heap_live h1" using h1(3) lv ds(2) by auto
  from ko.releaseE [OF h1(2) this] obtain h2 where
    h2: "kfree h1 (fo_addr d) = Some h2" "heap_slack h2 (j + length (owned q) + 1)" "heap_live h2 = heap_live h1 - {(fo_addr d, 1)}"
    by blast
  let ?n = "nat (fd - 1)" and ?v' = "put_heap (v\<lparr>v_fds := (v_fds v)[nat (fd - 1) := None]\<rparr>) h2"
  have run: "fclose ops v fd = Some (0, ?v')"
    using d(2,3,5-8) h1(1) h2(1) assms(1) I(1) by (simp add: fclose_def file_free_descriptor_def put_heap_def)
  have live: "heap_live h2 = heap_live (k_heap (v_k v)) - (\<lambda>a. (a, 1)) ` set (desc_objects owned d)"
    using h1(3) h2(3) d(9) by auto
  have "fds_inv owned ?v'"
  proof (rule fds_inv_drop [OF D(2) d(6)])
    fix a i e
    assume a: "i < PEACHOS_MAX_FILE_DESCRIPTORS" "i \<noteq> ?n" "v_fds v ! i = Some e" "a \<in> set (desc_objects owned e)"
    show "(a, 1) \<in> heap_live (k_heap (v_k ?v'))"
      using I(4) [OF a(1,3,4)] I(5) [OF a(1) d(6) a(2,3) d(1)] a(4) live by auto
  qed simp
  then have "mounted rep owned tok ?v' M" using rep_heap [OF D(1)] D(3) by (simp add: mounted_def)
  moreover have "handle opened tok ?v' fd' w' k' p'" if "handle opened tok v fd' w' k' p'" "fd' \<noteq> fd" for fd' w' k' p'
  proof (rule handle_other [OF that(1)])
    have "nat (fd' - 1) \<noteq> ?n" using that d(5) by (auto simp: handle_def)
    then show "v_fds ?v' ! nat (fd' - 1) = v_fds v ! nat (fd' - 1)" by simp
  qed (use opened_heap in simp)
  moreover have "heap_slack h2 j" using ko.slack_mono [OF h2(2)] by simp
  ultimately show ?thesis using run d(1) live by (intro exI [of _ d] exI [of _ h2] exI [of _ ?v']) simp
qed

lemma fdelete_present:
  assumes "ops tok = fs" and M: "mounted rep owned tok v M" and "good xs"
    and "cstr_of path (0x30 # chr_colon # chr_slash # xs)" and "M (canon xs) \<noteq> None" and "entry_room (v_k v) n"
    and slack: "heap_slack (k_heap (v_k v)) (4 + j)"
  shows "\<exists>v'. fdelete ops v path = Some (0, v') \<and> mounted rep owned tok v' (M(canon xs := None)) \<and> v_fds v' = v_fds v
     \<and> heap_live (k_heap (v_k v')) = heap_live (k_heap (v_k v)) \<and> heap_slack (k_heap (v_k v')) (4 + j) \<and> entry_room (v_k v') (Suc n)
     \<and> (\<forall>fd w k p. handle opened tok v fd w k p \<longrightarrow> k \<noteq> canon xs \<longrightarrow> handle opened tok v' fd w k p)"
proof -
  note D = mountedD [OF M]
  have x: "xs \<noteq> []" "chr_slash \<notin> set xs" "length xs \<le> 12" using good_name [OF assms(3)] by simp_all
  obtain root part h1 where r: "pathparser_parse (k_heap (v_k v)) path = Some (Some root, h1)" "pr_drive_no root = 0"
    "pr_first root = [part]" "cstr_of (pp_part part) xs" "heap_slack h1 (Suc j)"
    "grown heap_live (k_heap (v_k v)) (root_addrs root) h1" "length (root_addrs root) = 3"
    by (rule parse_single [OF assms(4) x slack])
  let ?s = "(v_k v)\<lparr>k_heap := h1\<rparr>"
  from delete_ok [OF rep_heap [OF D(1)] assms(3) r(4) assms(5) room_heap(2) [OF assms(6)], of h1 "[]"] obtain del s' where
    del: "fs_delete_fn fs = Some del" "del ?s [part] = Some (0, s')" "rep s' (M(canon xs := None))" "entry_room s' (Suc n)"
    "undisturbed opened ?s (canon xs) s'" "k_heap s' = h1" by auto
  from pathparser_free_run [OF r(5,6)] obtain h2 where
    h2: "pathparser_free h1 root = Some h2" "heap_live h2 = heap_live (k_heap (v_k v))" "heap_slack h2 (4 + j)"
    unfolding r(7) by (auto simp: eval_nat_numeral)
  let ?v' = "put_heap (v\<lparr>v_k := s'\<rparr>) h2"
  have run: "fdelete ops v path = Some (0, ?v')"
    using r(1-3) del(1,2,6) h2(1) D(3) assms(1) by (simp add: fdelete_def fdelete_root_def disk_get_def put_heap_def)
  have un: "undisturbed opened (v_k v) (canon xs) s'" using del(5) opened_heap by (auto simp: undisturbed_def)
  have "fds_inv owned ?v'" by (rule fds_inv_same [OF D(2)]) (simp_all add: h2(2))
  then have "mounted rep owned tok ?v' (M(canon xs := None))"
    using rep_heap [OF del(3)] un D(3) by (simp add: mounted_def undisturbed_def)
  moreover have "handle opened tok ?v' fd w k p" if "handle opened tok v fd w k p" "k \<noteq> canon xs" for fd w k p
    using un that(2) opened_heap by (intro handle_other [OF that(1)]) (auto simp: undisturbed_def)
  ultimately show ?thesis using run h2(2,3) room_heap(2) [OF del(4)] by (intro exI [of _ ?v']) simp
qed

text \<open>Opening a name for reading that no file has gives 0.\<close>

lemma fopen_missing:
  assumes "ops tok = fs" and M: "mounted rep owned tok v M" and "good xs"
    and "cstr_of path (0x30 # chr_colon # chr_slash # xs)" and mode: "file_get_mode_by_string m = Some FILE_MODE_READ"
    and "M (canon xs) = None" and slack: "heap_slack (k_heap (v_k v)) (4 + j)"
  shows "\<exists>v' leak. fopen ops v path m = Some (0, v') \<and> mounted rep owned tok v' M \<and> v_fds v' = v_fds v
     \<and> heap_slack (k_heap (v_k v')) j \<and> length leak = 3 \<and> grown heap_live (k_heap (v_k v)) leak (k_heap (v_k v'))"
proof -
  note D = mountedD [OF M]
  have x: "xs \<noteq> []" "chr_slash \<notin> set xs" "length xs \<le> 12" using good_name [OF assms(3)] by simp_all
  obtain root part h1 where r: "pathparser_parse (k_heap (v_k v)) path = Some (Some root, h1)" "pr_drive_no root = 0"
    "pr_first root = [part]" "cstr_of (pp_part part) xs" "heap_slack h1 (Suc j)"
    "grown heap_live (k_heap (v_k v)) (root_addrs root) h1" "length (root_addrs root) = 3"
    by (rule parse_single [OF assms(4) x slack])
  have "heap_slack (k_heap ((v_k v)\<lparr>k_heap := h1\<rparr>)) (Suc j)" using r(5) by simp
  from open_missing [OF rep_heap [OF D(1)] assms(3) r(4) assms(6) this] obtain e h where
    o: "fs_open_fn fs ((v_k v)\<lparr>k_heap := h1\<rparr>) [part] FILE_MODE_READ = Some (Inl e, (v_k v)\<lparr>k_heap := h\<rparr>)" "e < 0"
    "heap_live h = heap_live h1" "heap_slack h (Suc j)" by auto
  have run: "fopen ops v path m = Some (0, put_heap v h)"
    using r(1-3) o(1,2) D(3) mode assms(1) by (simp add: fopen_def fopen_body_def disk_get_def put_heap_def)
  have "fds_inv owned (put_heap v h)"
    using r(6) o(3) by (intro fds_inv_same [OF D(2)]) (auto simp: grown_def)
  then have "mounted rep owned tok (put_heap v h) M" using rep_heap [OF D(1)] D(3) by (simp add: mounted_def)
  moreover have "heap_slack h j" by (rule ko.slack_mono [OF o(4)]) simp
  moreover have "grown heap_live (k_heap (v_k v)) (root_addrs root) h" using r(6) o(3) by (simp add: grown_def)
  ultimately show ?thesis using run r(7) by (intro exI [of _ "put_heap v h"] exI [of _ "root_addrs root"]) simp
qed

end

end
