(* ===== verification/File_Runs.thy ===== *)
theory File_Runs
  imports File_Layer
begin

text \<open>
  Runs of the file operations of \<^verbatim>\<open>src/src/fs/file.c\<close> on a mounted FAT16 volume: what is
  written to a file is what is read back after closing and opening it again, writes through
  one descriptor do not reach other files, deletion, the descriptors that every operation
  refuses, and the blocks that \<^verbatim>\<open>fopen\<close> leaks. The facts come from the client lemmas of
  \<open>file_store\<close>, interpreted on the FAT16 model (\<open>fatfs\<close>).
\<close>

section \<open>Mounted FAT16 volumes\<close>

abbreviation fat_mounted :: "fat_file_descriptor vfs \<Rightarrow> (byte list \<rightharpoonup> byte list) \<Rightarrow> bool" where
  "fat_mounted \<equiv> mounted stores fat_owned FAT16"

abbreviation fat_handle :: "fat_file_descriptor vfs \<Rightarrow> int \<Rightarrow> bool \<Rightarrow> byte list \<Rightarrow> nat \<Rightarrow> bool" where
  "fat_handle \<equiv> handle fat_opened FAT16"

lemmas fat_fopen_write = fatfs.fopen_write [where ops = kernel_ops and tok = FAT16, OF kernel_ops.simps]
lemmas fat_fopen_read = fatfs.fopen_read [where ops = kernel_ops and tok = FAT16, OF kernel_ops.simps]
lemmas fat_fopen_missing = fatfs.fopen_missing [where ops = kernel_ops and tok = FAT16, OF kernel_ops.simps]
lemmas fat_fwrite = fatfs.fwrite_handle [where ops = kernel_ops and tok = FAT16, OF kernel_ops.simps]
lemmas fat_fread = fatfs.fread_handle [where ops = kernel_ops and tok = FAT16, OF kernel_ops.simps]
lemmas fat_fread_run = fatfs.fread_run [where ops = kernel_ops and tok = FAT16, OF kernel_ops.simps]
lemmas fat_fread_sector = fatfs.fread_sector [where ops = kernel_ops and tok = FAT16, OF kernel_ops.simps]
lemmas fat_fread_members = fatfs.fread_members [where ops = kernel_ops and tok = FAT16, OF kernel_ops.simps]
lemmas fat_fstat = fatfs.fstat_handle [where ops = kernel_ops and tok = FAT16, OF kernel_ops.simps]
lemmas fat_fclose = fatfs.fclose_handle [where ops = kernel_ops and tok = FAT16, OF kernel_ops.simps]
lemmas fat_fdelete = fatfs.fdelete_present [where ops = kernel_ops and tok = FAT16, OF kernel_ops.simps]

text \<open>The path \<^verbatim>\<open>0:/xs\<close> and the mode strings.\<close>

definition path_of :: "byte list \<Rightarrow> byte list" where
  "path_of xs = 0x30 # chr_colon # chr_slash # xs @ [0]"

definition mode_w :: "byte list" where "mode_w = [0x77, 0]"
definition mode_r :: "byte list" where "mode_r = [0x72, 0]"

lemma mode_simps [simp]:
  "file_get_mode_by_string mode_w = Some FILE_MODE_WRITE" "file_get_mode_by_string mode_r = Some FILE_MODE_READ"
  by (simp_all add: mode_w_def mode_r_def file_get_mode_by_string_def)

lemma good_name_zero: "good_name xs \<Longrightarrow> 0 \<notin> set xs"
  by (fastforce simp: good_name_def name83_def dotted_def name_char_def list_all_iff split: if_splits)

lemma path_of_cstr: "good_name xs \<Longrightarrow> cstr_of (path_of xs) (0x30 # chr_colon # chr_slash # xs)"
  using good_name_zero [of xs] by (simp add: path_of_def cstr_of_def)

lemma sint_length: "length (buf :: byte list) < 2 ^ 31 \<Longrightarrow> sint (word_of_nat (length buf) :: u32) = int (length buf)"
  by (rule sint_of_nat_u32)

lemma unat_length: "length (buf :: byte list) < 2 ^ 31 \<Longrightarrow> unat (1 :: u32) * unat (word_of_nat (length buf) :: u32) = length buf"
  by (simp add: unsigned_of_nat take_bit_nat_eq_self_iff)

section \<open>A kernel with an empty volume\<close>

definition demo_vfs :: "fat_file_descriptor vfs" where
  "demo_vfs = \<lparr>v_k = demo_volume, v_filesystems = Some FAT16 # replicate 11 None,
     v_fds = replicate PEACHOS_MAX_FILE_DESCRIPTORS None, v_fs_name = replicate 20 0\<rparr>"

definition demo_text :: "byte list" where
  "demo_text = [0x61, 0x2E, 0x74, 0x78, 0x74]"

lemma demo_good: "good_name demo_text"
proof -
  have "demo_text = dotted [0x61] [0x74, 0x78, 0x74]" by (simp add: demo_text_def dotted_def)
  moreover have "name83 [0x61] [0x74, 0x78, 0x74]" by (rule demo_name(2))
  moreover have "hd [0x61 :: byte] \<noteq> 0xE5" "0x2F \<notin> set demo_text" by (simp_all add: demo_text_def)
  ultimately show ?thesis unfolding good_name_def by blast
qed

lemma demo_free_slots: "i < ents demo_volume \<Longrightarrow> free_slot (items_of demo_volume ! i)"
  using zero_item(3) by (simp add: demo_items demo_geometry)

lemma demo_stores: "stores demo_volume (\<lambda>_. None)"
proof -
  have "fd_total (root_of demo_volume) = 0" by (simp add: priv_def demo_state_def demo_private_def)
  moreover have "di_filename (items_of demo_volume ! i) ! 0 = 0" if "i < ents demo_volume" for i
    using that by (simp add: demo_items demo_geometry decode_item_def)
  ultimately have "dir_ok demo_volume" using demo_free_slots by (simp add: dir_ok_def)
  then have "volume demo_volume (\<lambda>i. [])" using demo_layout demo_free_slots by (simp add: volume_def)
  moreover have "files demo_volume (\<lambda>i. []) = (\<lambda>_. None)"
    using slot_of_None demo_free_slots by (auto simp: files_def fun_eq_iff)
  ultimately show ?thesis unfolding stores_def by blast
qed

lemma demo_mounted: "fat_mounted demo_vfs (\<lambda>_. None)"
proof -
  have "fds_inv fat_owned demo_vfs" by (simp add: fds_inv_def demo_vfs_def)
  moreover have "dk_filesystem (k_disk demo_volume) = Some FAT16" by (simp add: demo_state_def)
  ultimately show ?thesis using demo_stores by (simp add: mounted_def demo_vfs_def)
qed

lemma demo_rooms: "n \<le> 64 \<Longrightarrow> entry_room (v_k demo_vfs) n" "v_fds demo_vfs ! 0 = None" "heap_slack (k_heap (v_k demo_vfs)) 100"
  "list_all (\<lambda>n. 0 < n \<and> n \<le> 65536) ns \<Longrightarrow> length ns \<le> 10 \<Longrightarrow> data_room (v_k demo_vfs) ns"
proof -
  have "free_slots demo_volume = {..<64}" using demo_free_slots by (auto simp: free_slots_def demo_geometry)
  then show "entry_room (v_k demo_vfs) n" if "n \<le> 64" using that by (simp add: entry_room_def demo_vfs_def)
  show "v_fds demo_vfs ! 0 = None" by (simp add: demo_vfs_def)
  show "heap_slack (k_heap (v_k demo_vfs)) 100" using demo_heap_room by (simp add: demo_vfs_def)
  show "data_room (v_k demo_vfs) ns" if ns: "list_all (\<lambda>n. 0 < n \<and> n \<le> 65536) ns" "length ns \<le> 10"
  proof -
    have "units demo_volume ns = length ns"
      using ns(1) by (induction ns) (simp_all add: units_def clusters_for_def demo_csize div_nat_eqI)
    moreover have "usable demo_volume c" if "c \<in> set (take (length ns) [2..<61031])" for c
    proof -
      have "c \<in> set (take 10 [2..<61031])" by (rule subsetD [OF set_take_subset_set_take [OF ns(2)] that])
      then have "2 \<le> c" "c < 12" by (auto simp: take_upt simp del: upt_rec_numeral)
      then show ?thesis using demo_reach [of c] by (simp add: usable_def marks12_def)
    qed
    moreover have "length ns \<le> length [2..<61031]" using ns(2) by (simp del: upt_rec_numeral)
    ultimately show ?thesis unfolding data_room_def demo_vfs_def by (simp add: demo_free_all del: upt_rec_numeral)
  qed
qed

lemma good_b: "good_name [0x62]"
proof -
  have "[0x62] = dotted [0x62] []" "name83 [0x62] []" "hd [0x62 :: byte] \<noteq> 0xE5" "0x2F \<notin> set [0x62 :: byte]"
    by (simp_all add: dotted_def name83_def name_char_def)
  then show ?thesis unfolding good_name_def by blast
qed

section \<open>Creating a file\<close>

lemma write_new_file:
  assumes "fat_mounted v M" and "good_name xs" and "entry_room (v_k v) (if M (canon xs) = None then Suc en else en)"
    and "buf \<noteq> []" and "length buf < 2 ^ 31" and "data_room (v_k v) (length buf # ns)"
    and "i < 511" and "v_fds v ! i = None" and "heap_slack (k_heap (v_k v)) (4 + (j + 3))"
  shows "\<exists>fd v1 v2. fopen kernel_ops v (path_of xs) mode_w = Some (fd, v1)
     \<and> fwrite kernel_ops v1 buf 1 (word_of_nat (length buf)) fd = Some (int (length buf), v2)
     \<and> fat_mounted v2 (M(canon xs \<mapsto> buf)) \<and> fat_handle v2 fd True (canon xs) (length buf)
     \<and> heap_slack (k_heap (v_k v2)) j \<and> entry_room (v_k v2) en \<and> data_room (v_k v2) ns
     \<and> (\<forall>fd' w' k' p. fat_handle v fd' w' k' p \<longrightarrow> k' \<noteq> canon xs \<longrightarrow> fd' \<noteq> fd \<and> fat_handle v2 fd' w' k' p)
     \<and> (\<forall>n. n \<noteq> nat (fd - 1) \<longrightarrow> v_fds v2 ! n = None \<longleftrightarrow> v_fds v ! n = None)"
proof -
  let ?k = "canon xs"
  from fat_fopen_write [OF assms(1,2) path_of_cstr [OF assms(2)] mode_simps(1) assms(3,7-9)] obtain fd v1 where
    o: "fopen kernel_ops v (path_of xs) mode_w = Some (fd, v1)" "fat_mounted v1 (M(?k \<mapsto> []))"
    "heap_slack (k_heap (v_k v1)) j" "fopen_ok fat_opened data_room fat_owned FAT16 v ?k True fd v1" "entry_room (v_k v1) en" by blast
  have h1: "fat_handle v1 fd True ?k 0" and rm: "data_room (v_k v1) (length buf # ns)"
    and ot: "\<forall>fd' w' k' p. fat_handle v fd' w' k' p \<longrightarrow> k' \<noteq> ?k \<longrightarrow> fd' \<noteq> fd \<and> fat_handle v1 fd' w' k' p"
    and sl: "\<forall>n. n \<noteq> nat (fd - 1) \<longrightarrow> v_fds v1 ! n = v_fds v ! n"
    using o(4) assms(6) by (simp_all add: fopen_ok_def)
  have e: "(M(?k \<mapsto> [])) ?k = Some []" "(0::nat) \<le> length []" "0 + length buf < 2 ^ 31" using assms(5) by simp_all
  have upd: "(M(?k \<mapsto> []))(?k \<mapsto> patch [] 0 buf) = M(?k \<mapsto> buf)" by (simp add: patch_def)
  from fat_fwrite [OF o(2) h1 e(1,2) assms(4) unat_length [OF assms(5)] e(3) rm] obtain v2 where
    "fwrite kernel_ops v1 buf 1 (word_of_nat (length buf)) fd = Some (int (length buf), v2)" "fat_mounted v2 (M(?k \<mapsto> buf))"
    "fat_handle v2 fd True ?k (length buf)" "heap_slack (k_heap (v_k v2)) j" "data_room (v_k v2) ns" "entry_room (v_k v2) en"
    "\<forall>fd' w' k' p'. fat_handle v1 fd' w' k' p' \<longrightarrow> fd' \<noteq> fd \<longrightarrow> k' \<noteq> ?k \<longrightarrow> fat_handle v2 fd' w' k' p'"
    "\<forall>n. (v_fds v2 ! n = None) = (v_fds v1 ! n = None)"
    using o(3,5) sint_length [OF assms(5)] unfolding upd by auto
  with o(1) ot sl show ?thesis by metis
qed

lemma write_close_open:
  assumes "fat_mounted v M" and "good_name xs" and "entry_room (v_k v) (if M (canon xs) = None then Suc en else en)"
    and "buf \<noteq> []" and "length buf < 2 ^ 31" and "data_room (v_k v) (length buf # ns)"
    and "i < 511" and "v_fds v ! i = None" and "heap_slack (k_heap (v_k v)) (j + 14)"
  shows "\<exists>fd v1 v2 v3 fd' v4. fopen kernel_ops v (path_of xs) mode_w = Some (fd, v1)
     \<and> fwrite kernel_ops v1 buf 1 (word_of_nat (length buf)) fd = Some (int (length buf), v2)
     \<and> fclose kernel_ops v2 fd = Some (0, v3) \<and> fopen kernel_ops v3 (path_of xs) mode_r = Some (fd', v4)
     \<and> fat_mounted v4 (M(canon xs \<mapsto> buf)) \<and> fat_handle v4 fd' False (canon xs) 0
     \<and> heap_slack (k_heap (v_k v4)) j \<and> entry_room (v_k v4) en \<and> data_room (v_k v4) ns
     \<and> (\<forall>n. n \<noteq> nat (fd - 1) \<longrightarrow> n \<noteq> nat (fd' - 1) \<longrightarrow> v_fds v4 ! n = None \<longleftrightarrow> v_fds v ! n = None)"
proof -
  let ?k = "canon xs" and ?n = "length buf"
  have "heap_slack (k_heap (v_k v)) (4 + ((j + 7) + 3))" using assms(9) by (simp add: numeral_eq_Suc)
  from write_new_file [OF assms(1-8) this] obtain fd v1 v2 where
    w: "fopen kernel_ops v (path_of xs) mode_w = Some (fd, v1)"
    "fwrite kernel_ops v1 buf 1 (word_of_nat ?n) fd = Some (int ?n, v2)" "fat_mounted v2 (M(?k \<mapsto> buf))"
    "fat_handle v2 fd True ?k ?n" "heap_slack (k_heap (v_k v2)) (j + 7)" "entry_room (v_k v2) en" "data_room (v_k v2) ns"
    "\<forall>n. n \<noteq> nat (fd - 1) \<longrightarrow> v_fds v2 ! n = None \<longleftrightarrow> v_fds v ! n = None" by blast
  from fat_fclose [OF w(3-5)] obtain h v3 where
    c: "fclose kernel_ops v2 fd = Some (0, v3)" "fat_mounted v3 (M(?k \<mapsto> buf))" "heap_slack h (j + 7)"
    "v_fds v3 = (v_fds v2)[nat (fd - 1) := None]" "v_k v3 = (v_k v2)\<lparr>k_heap := h\<rparr>" by auto
  have sl: "heap_slack (k_heap (v_k v3)) (4 + (j + 3))" using c(3,5) by (simp add: numeral_eq_Suc)
  have rm: "entry_room (v_k v3) en" "data_room (v_k v3) ns"
    using fatfs.room_heap(2) [OF w(6)] fatfs.room_heap(1) [OF w(7)] by (simp_all add: c(5))
  have fr: "nat (fd - 1) < 511" "v_fds v3 ! nat (fd - 1) = None"
    using w(4) fds_invD(1) [OF mountedD(2) [OF w(3)]] c(4) by (auto simp: handle_def)
  have s: "(M(?k \<mapsto> buf)) ?k \<noteq> None" by simp
  from fat_fopen_read [OF c(2) assms(2) path_of_cstr [OF assms(2)] mode_simps(2) s rm(1) fr sl] obtain fd' v4 where
    r: "fopen kernel_ops v3 (path_of xs) mode_r = Some (fd', v4)" "fat_mounted v4 (M(?k \<mapsto> buf))"
    "fopen_ok fat_opened data_room fat_owned FAT16 v3 ?k False fd' v4" "heap_slack (k_heap (v_k v4)) j" "entry_room (v_k v4) en" by blast
  have "fat_handle v4 fd' False ?k 0" "data_room (v_k v4) ns" using r(3) rm(2) by (simp_all add: fopen_ok_def)
  moreover have "v_fds v4 ! n = None \<longleftrightarrow> v_fds v ! n = None" if "n \<noteq> nat (fd - 1)" "n \<noteq> nat (fd' - 1)" for n
    using that r(3) c(4) w(8) by (simp add: fopen_ok_def)
  ultimately show ?thesis using w(1,2) c(1) r(1,2,4,5) by blast
qed

lemma entry_need: "M k \<noteq> None \<or> entry_room s 1 \<Longrightarrow> entry_room s (if M k = None then Suc 0 else 0)"
  by (auto simp: entry_room_def)

section \<open>Properties\<close>

text \<open>
  C1: files keep their bytes. On a mounted FAT16 volume with room, opening \<^verbatim>\<open>0:/name\<close> for
  writing, writing a buffer, closing, opening the name for reading and reading as many bytes
  returns exactly the buffer; every call succeeds, and at the end the volume stores the same
  files as before but for this one.
\<close>

theorem file_roundtrip:
  assumes "fat_mounted v M" and "good_name xs" and "M (canon xs) \<noteq> None \<or> entry_room (v_k v) 1"
    and "buf \<noteq> []" and "length buf < 2 ^ 31" and "data_room (v_k v) [length buf]"
    and "i < 511" and "v_fds v ! i = None" and "heap_slack (k_heap (v_k v)) 18"
  shows "\<exists>fd v1 v2 v3 fd' v4 v5. fopen kernel_ops v (path_of xs) mode_w = Some (fd, v1)
     \<and> fwrite kernel_ops v1 buf 1 (word_of_nat (length buf)) fd = Some (int (length buf), v2)
     \<and> fclose kernel_ops v2 fd = Some (0, v3)
     \<and> fopen kernel_ops v3 (path_of xs) mode_r = Some (fd', v4)
     \<and> fread kernel_ops v4 1 (word_of_nat (length buf)) fd' = Some (int (length buf), buf, v5)
     \<and> fat_mounted v5 (M(canon xs \<mapsto> buf))"
proof -
  let ?k = "canon xs" and ?n = "length buf"
  have "heap_slack (k_heap (v_k v)) (4 + 14)" using assms(9) by simp
  from write_close_open [OF assms(1,2) entry_need [where M = M and k = ?k, OF assms(3)] assms(4-8) this] obtain fd v1 v2 v3 fd' v4 where
    w: "fopen kernel_ops v (path_of xs) mode_w = Some (fd, v1)"
    "fwrite kernel_ops v1 buf 1 (word_of_nat ?n) fd = Some (int ?n, v2)"
    "fclose kernel_ops v2 fd = Some (0, v3)" "fopen kernel_ops v3 (path_of xs) mode_r = Some (fd', v4)"
    "fat_mounted v4 (M(?k \<mapsto> buf))" "fat_handle v4 fd' False ?k 0" by blast
  have tk: "take ?n (drop 0 buf) = buf" by simp
  have "(M(?k \<mapsto> buf)) ?k = Some buf" "0 < ?n" "0 + ?n \<le> length buf" using assms(4) by simp_all
  from fat_fread [OF w(5,6) this assms(5)] obtain v5 where
    "fread kernel_ops v4 1 (word_of_nat ?n) fd' = Some (int ?n, buf, v5)" "fat_mounted v5 (M(?k \<mapsto> buf))"
    unfolding tk by blast
  with w(1-4) show ?thesis by blast
qed

theorem file_roundtrip_witness:
  "\<exists>fd v1 v2 v3 fd' v4 v5. fopen kernel_ops demo_vfs (path_of demo_text) mode_w = Some (fd, v1)
     \<and> fwrite kernel_ops v1 [7, 8, 9] 1 3 fd = Some (3, v2) \<and> fclose kernel_ops v2 fd = Some (0, v3)
     \<and> fopen kernel_ops v3 (path_of demo_text) mode_r = Some (fd', v4)
     \<and> fread kernel_ops v4 1 3 fd' = Some (3, [7, 8, 9], v5)"
proof -
  have s: "heap_slack (k_heap (v_k demo_vfs)) 18" by (rule ko.slack_mono [OF demo_rooms(3)]) simp
  have r: "data_room (v_k demo_vfs) [length [7, 8, 9 :: byte]]" by (rule demo_rooms(4)) simp_all
  have "(0 :: nat) < 511" by simp
  from file_roundtrip [OF demo_mounted demo_good _ _ _ r this demo_rooms(2) s] demo_rooms(1) [of 1] show ?thesis
    by fastforce
qed

text \<open>
  C3: descriptors of different files do not interfere. A write through one descriptor changes
  the bytes of its file and no others: another descriptor, open on a file with a different
  name, still reads the bytes that file had.
\<close>

theorem file_isolation:
  assumes "fat_mounted v M" and "fat_handle v fd True k p" and "M k = Some bs" and "p \<le> length bs"
    and "fat_handle v fd' w k' p'" and "k' \<noteq> k" and "fd' \<noteq> fd" and "M k' = Some bs'" and "p' + n \<le> length bs'" and "0 < n" and "n < 2 ^ 31"
    and "buf \<noteq> []" and "p + length buf < 2 ^ 31" and "data_room (v_k v) [length buf]"
  shows "\<exists>v1 v2. fwrite kernel_ops v buf 1 (word_of_nat (length buf)) fd = Some (int (length buf), v1)
     \<and> fat_mounted v1 (M(k \<mapsto> patch bs p buf))
     \<and> fread kernel_ops v1 1 (word_of_nat n) fd' = Some (int n, take n (drop p' bs'), v2)
     \<and> fat_mounted v2 (M(k \<mapsto> patch bs p buf))"
proof -
  have len: "length buf < 2 ^ 31" using assms(13) by simp
  from fat_fwrite [OF assms(1-4,12) unat_length [OF len] assms(13,14)] obtain v1 where
    w: "fwrite kernel_ops v buf 1 (word_of_nat (length buf)) fd = Some (int (length buf), v1)"
    "fat_mounted v1 (M(k \<mapsto> patch bs p buf))"
    "\<forall>fd' w' k' p'. fat_handle v fd' w' k' p' \<longrightarrow> fd' \<noteq> fd \<longrightarrow> k' \<noteq> k \<longrightarrow> fat_handle v1 fd' w' k' p'"
    using sint_length [OF len] by auto
  have "fat_handle v1 fd' w k' p'" "(M(k \<mapsto> patch bs p buf)) k' = Some bs'" using w(3) assms(5-8) by simp_all
  from fat_fread [OF w(2) this assms(10,9,11)] w(1,2) show ?thesis by blast
qed

text \<open>
  A state with two open files: \<^verbatim>\<open>b\<close>, with two bytes, open for reading, and \<^verbatim>\<open>a.txt\<close>, with three
  bytes, open for writing.
\<close>

definition demo_files :: "byte list \<rightharpoonup> byte list" where
  "demo_files = [canon [0x62] \<mapsto> [1, 2], canon demo_text \<mapsto> [3, 4, 5]]"

lemma demo_names: "canon [0x62] \<noteq> canon demo_text"
  by (simp add: canon_def demo_text_def)

lemma third_index:
  obtains i :: nat where "i < 3" "i \<noteq> a" "i \<noteq> b"
proof -
  have "\<exists>i < (3 :: nat). i \<noteq> a \<and> i \<noteq> b" by presburger
  then show thesis using that by blast
qed

lemma demo_one:
  obtains v fb i where "fat_mounted v [canon [0x62] \<mapsto> [1, 2]]" "fat_handle v fb False (canon [0x62]) 0"
    "heap_slack (k_heap (v_k v)) 40" "entry_room (v_k v) 2" "data_room (v_k v) [3, 1]" "i < 511" "v_fds v ! i = None"
proof -
  have e: "entry_room (v_k demo_vfs) (if Map.empty (canon [0x62]) = None then Suc 2 else 2)"
    using demo_rooms(1) [of 3] by simp
  have r: "data_room (v_k demo_vfs) (length [1 :: byte, 2] # [3, 1])" by (rule demo_rooms(4)) simp_all
  have s: "heap_slack (k_heap (v_k demo_vfs)) (40 + 14)" by (rule ko.slack_mono [OF demo_rooms(3)]) simp
  have p: "[1 :: byte, 2] \<noteq> []" "length [1 :: byte, 2] < 2 ^ 31" "(0 :: nat) < 511" by simp_all
  from write_close_open [OF demo_mounted good_b e p(1,2) r p(3) demo_rooms(2) s] obtain fd fb v where
    v: "fat_mounted v [canon [0x62] \<mapsto> [1, 2]]" "fat_handle v fb False (canon [0x62]) 0" "heap_slack (k_heap (v_k v)) 40"
    "entry_room (v_k v) 2" "data_room (v_k v) [3, 1]"
    "\<forall>n. n \<noteq> nat (fd - 1) \<longrightarrow> n \<noteq> nat (fb - 1) \<longrightarrow> v_fds v ! n = None \<longleftrightarrow> v_fds demo_vfs ! n = None" by blast
  obtain i where i: "i < 3" "i \<noteq> nat (fd - 1)" "i \<noteq> nat (fb - 1)" by (rule third_index)
  have "v_fds demo_vfs ! i = None" using i(1) by (simp add: demo_vfs_def)
  with v(6) i have "i < 511" "v_fds v ! i = None" by simp_all
  with v(1-5) show thesis by (rule that)
qed

lemma demo_two:
  obtains v fb fa where "fat_mounted v demo_files" "fat_handle v fb False (canon [0x62]) 0" "fat_handle v fa True (canon demo_text) 3"
     "fb \<noteq> fa" "data_room (v_k v) [1]"
proof -
  obtain v fb i where v: "fat_mounted v [canon [0x62] \<mapsto> [1, 2]]" "fat_handle v fb False (canon [0x62]) 0"
    "heap_slack (k_heap (v_k v)) 40" "entry_room (v_k v) 2" "data_room (v_k v) [3, 1]" "i < 511" "v_fds v ! i = None"
    by (rule demo_one)
  have e: "entry_room (v_k v) (if [canon [0x62] \<mapsto> [1 :: byte, 2]] (canon demo_text) = None then Suc 1 else 1)"
    using v(4) demo_names by (simp add: numeral_2_eq_2)
  have r: "data_room (v_k v) (length [3 :: byte, 4, 5] # [1])" using v(5) by (simp add: numeral_3_eq_3)
  have s: "heap_slack (k_heap (v_k v)) (4 + (18 + 3))" by (rule ko.slack_mono [OF v(3)]) simp
  have p: "[3 :: byte, 4, 5] \<noteq> []" "length [3 :: byte, 4, 5] < 2 ^ 31" by simp_all
  have l: "length [3 :: byte, 4, 5] = 3" by simp
  from write_new_file [OF v(1) demo_good e p r v(6,7) s] obtain fa u where
    u: "fat_mounted u demo_files" "fat_handle u fa True (canon demo_text) 3" "data_room (v_k u) [1]"
    "\<forall>fd' w' k' p. fat_handle v fd' w' k' p \<longrightarrow> k' \<noteq> canon demo_text \<longrightarrow> fd' \<noteq> fa \<and> fat_handle u fd' w' k' p"
    unfolding demo_files_def l by blast
  from u(4) v(2) demo_names have "fb \<noteq> fa" "fat_handle u fb False (canon [0x62]) 0" by blast+
  with u(1-3) that show thesis by blast
qed

theorem file_isolation_witness:
  "\<exists>v fa fb v1 v2. fat_mounted v demo_files \<and> fwrite kernel_ops v [9] 1 1 fa = Some (1, v1)
     \<and> fread kernel_ops v1 1 2 fb = Some (2, [1, 2], v2) \<and> fat_mounted v2 (demo_files(canon demo_text \<mapsto> [3, 4, 5, 9]))"
proof -
  obtain v fb fa where v: "fat_mounted v demo_files" "fat_handle v fb False (canon [0x62]) 0" "fat_handle v fa True (canon demo_text) 3"
     "fb \<noteq> fa" "data_room (v_k v) [length [9 :: byte]]" by (rule demo_two) simp
  have f: "demo_files (canon [0x62]) = Some [1, 2]" "demo_files (canon demo_text) = Some [3, 4, 5]"
    using demo_names by (simp_all add: demo_files_def)
  have n: "3 \<le> length [3 :: byte, 4, 5]" "0 + 2 \<le> length [1 :: byte, 2]" "0 < (2 :: nat)" "(2 :: nat) < 2 ^ 31" "[9 :: byte] \<noteq> []"
    "3 + length [9 :: byte] < 2 ^ 31" by simp_all
  have p: "patch [3, 4, 5] 3 [9 :: byte] = [3, 4, 5, 9]" by (simp add: patch_def)
  from file_isolation [OF v(1,3) f(2) n(1) v(2) demo_names v(4) f(1) n(2-6) v(5)] v(1) show ?thesis
    unfolding p by fastforce
qed

text \<open>
  C4: deletion. Deleting a file succeeds and gives back its directory entry; the other files
  keep their bytes, the heap is as before, and opening the name for reading afterwards
  returns 0.
\<close>

theorem file_deleted:
  assumes "fat_mounted v M" and "good_name xs" and "M (canon xs) \<noteq> None" and "entry_room (v_k v) n"
    and "heap_slack (k_heap (v_k v)) 4"
  shows "\<exists>v1 v2. fdelete kernel_ops v (path_of xs) = Some (0, v1) \<and> fat_mounted v1 (M(canon xs := None))
     \<and> entry_room (v_k v1) (Suc n) \<and> heap_live (k_heap (v_k v1)) = heap_live (k_heap (v_k v))
     \<and> fopen kernel_ops v1 (path_of xs) mode_r = Some (0, v2) \<and> fat_mounted v2 (M(canon xs := None))"
proof -
  have sl: "heap_slack (k_heap (v_k v)) (4 + 0)" using assms(5) by simp
  from fat_fdelete [OF assms(1,2) path_of_cstr [OF assms(2)] assms(3,4) sl] obtain v1 where
    d: "fdelete kernel_ops v (path_of xs) = Some (0, v1)" "fat_mounted v1 (M(canon xs := None))"
    "heap_live (k_heap (v_k v1)) = heap_live (k_heap (v_k v))" "heap_slack (k_heap (v_k v1)) (4 + 0)" "entry_room (v_k v1) (Suc n)"
    by blast
  have "(M(canon xs := None)) (canon xs) = None" by simp
  from fat_fopen_missing [OF d(2) assms(2) path_of_cstr [OF assms(2)] mode_simps(2) this d(4)] d(1-3,5) show ?thesis by blast
qed

theorem file_deleted_witness:
  "\<exists>v v1 v2. fat_mounted v [canon [0x62] \<mapsto> [1, 2]] \<and> fdelete kernel_ops v (path_of [0x62]) = Some (0, v1)
     \<and> fat_mounted v1 Map.empty \<and> fopen kernel_ops v1 (path_of [0x62]) mode_r = Some (0, v2)"
proof -
  obtain v fb i where v: "fat_mounted v [canon [0x62] \<mapsto> [1, 2]]" "fat_handle v fb False (canon [0x62]) 0"
    "heap_slack (k_heap (v_k v)) 40" "entry_room (v_k v) 2" "data_room (v_k v) [3, 1]" "i < 511" "v_fds v ! i = None"
    by (rule demo_one)
  have "heap_slack (k_heap (v_k v)) 4" "[canon [0x62] \<mapsto> [1 :: byte, 2]] (canon [0x62]) \<noteq> None"
    using ko.slack_mono [OF v(3), of 4] by simp_all
  moreover have "[canon [0x62] \<mapsto> [1 :: byte, 2]](canon [0x62] := None) = Map.empty" by (simp add: fun_eq_iff)
  ultimately show ?thesis using file_deleted [OF v(1) good_b _ v(4)] v(1) by metis
qed



lemma fat_fread_past:
  assumes "fat_mounted v M" and "fat_handle v fd w k p" and "M k = Some bs" and "bs \<noteq> []" and "0 < n" and "p + n \<le> 512"
  obtains out v' where "fread kernel_ops v 1 (word_of_nat n) fd = Some (int n, out, v')" "length out = n" "take (length bs - p) out = take n (drop p bs)"
    "fat_handle v' fd w k p" "fat_mounted v' M" "k_heap (v_k v') = k_heap (v_k v)" "v_fds v' = v_fds v"
proof -
  have "0 < (1 :: nat)" "p + n * 1 \<le> max 512 (length bs)" "n < 2 ^ 31" "(1 :: nat) < 2 ^ 31" "(1 :: nat) = 1 \<or> p = 0 \<and> n = 1" using assms(6) by simp_all
  from fat_fread_sector [OF assms(1-4) this(1) assms(5) this(2-5)] that show thesis by auto
qed

text \<open>
  C34: reading past the end, and reading twice. A file that is not empty has the chain \<open>cs\<close> of clusters on the drive, and its bytes are the first ones of
  what the clusters hold. A byte-wise read of any number of bytes that ends in these clusters returns the full count even when the file ends earlier, and gives
  exactly the bytes that the clusters hold from the position on: behind the bytes of the file those that happen to be on the drive. The position of the
  descriptor does not move, so that the next read starts at the same place.
\<close>

theorem fread_ignores_end:
  assumes "fat_mounted v M" and "fat_handle v fd w k p" and "M k = Some bs" and "bs \<noteq> []"
  shows "\<exists>cs. file_clusters (v_k v) k cs \<and> take (length bs) (contents (v_k v) cs) = bs \<and> length bs \<le> length cs * csize (v_k v)
     \<and> (\<forall>n > 0. p + n \<le> length cs * csize (v_k v) \<longrightarrow> p + n < 2 ^ 31 \<longrightarrow>
          (\<exists>v'. fread kernel_ops v 1 (word_of_nat n) fd = Some (int n, take n (drop p (contents (v_k v) cs)), v')
             \<and> fat_handle v' fd w k p \<and> fat_mounted v' M))"
proof -
  let ?s = "v_k v"
  obtain cs where cs: "file_clusters ?s k cs" "take (length bs) (contents ?s cs) = bs" "length bs \<le> length cs * csize ?s"
    "\<And>d w p z n. fat_opened ?s d w k p \<Longrightarrow> 0 < z \<Longrightarrow> 0 < n \<Longrightarrow> p + n * z \<le> length cs * csize ?s \<Longrightarrow> p + n * z < 2 ^ 31 \<Longrightarrow> z = 1 \<or> p = 0 \<and> n = 1 \<Longrightarrow>
       \<exists>s'. fat16_read ?s d (word_of_nat z) (word_of_nat n) = Some (int n, take (n * z) (drop p (contents ?s cs)), s') \<and> read_result ?s M d w k p s'"
    by (rule file_read [OF mountedD(1) [OF assms(1)] assms(3,4)]) blast
  have "\<exists>v'. fread kernel_ops v 1 (word_of_nat n) fd = Some (int n, take n (drop p (contents ?s cs)), v') \<and> fat_handle v' fd w k p \<and> fat_mounted v' M"
    if n: "0 < n" "p + n \<le> length cs * csize ?s" "p + n < 2 ^ 31" for n
  proof -
    have one: "0 < (1 :: nat)" "n < 2 ^ 31" "(1 :: nat) < 2 ^ 31" using n(3) by simp_all
    have "\<exists>out s'. fs_read_fn fat16_fs ?s q (word_of_nat 1) (word_of_nat n) = Some (int n, out, s') \<and> out = take n (drop p (contents ?s cs))
       \<and> stores s' M \<and> fat_opened s' q w k p \<and> undisturbed fat_opened ?s k s' \<and> k_heap s' = k_heap ?s
       \<and> (\<forall>ns. data_room ?s ns \<longrightarrow> data_room s' ns) \<and> (\<forall>n. entry_room ?s n \<longrightarrow> entry_room s' n)" if "fat_opened ?s q w k p" for q
      using cs(4) [OF that one(1) n(1), unfolded mult_1_right, OF n(2,3)] by (auto simp: read_result_def fat16_fs_def)
    from fat_fread_run [OF assms(1,2) one(1) n(1) one(2,3) this] show ?thesis by auto
  qed
  then show ?thesis using cs(1-3) by (intro exI [of _ cs]) blast
qed

theorem fread_ignores_end_witness:
  "\<exists>v fd cs v'. fat_mounted v [canon [0x62] \<mapsto> [1, 2]] \<and> file_clusters (v_k v) (canon [0x62]) cs
     \<and> fread kernel_ops v 1 (word_of_nat 100) fd = Some (100, take 100 (contents (v_k v) cs), v') \<and> take 2 (contents (v_k v) cs) = [1, 2]"
proof -
  obtain v fb i where v: "fat_mounted v [canon [0x62] \<mapsto> [1, 2]]" "fat_handle v fb False (canon [0x62]) 0"
    "heap_slack (k_heap (v_k v)) 40" "entry_room (v_k v) 2" "data_room (v_k v) [3, 1]" "i < 511" "v_fds v ! i = None"
    by (rule demo_one)
  have b: "[canon [0x62] \<mapsto> [1 :: byte, 2]] (canon [0x62]) = Some [1, 2]" "[1 :: byte, 2] \<noteq> []" by simp_all
  from fread_ignores_end [OF v(1,2) b] obtain cs where cs: "file_clusters (v_k v) (canon [0x62]) cs" "take (length [1 :: byte, 2]) (contents (v_k v) cs) = [1, 2]"
    "length [1 :: byte, 2] \<le> length cs * csize (v_k v)"
    "\<forall>n > 0. 0 + n \<le> length cs * csize (v_k v) \<longrightarrow> 0 + n < 2 ^ 31 \<longrightarrow> (\<exists>v'. fread kernel_ops v 1 (word_of_nat n) fb = Some (int n, take n (drop 0 (contents (v_k v) cs)), v')
       \<and> fat_handle v' fb False (canon [0x62]) 0 \<and> fat_mounted v' [canon [0x62] \<mapsto> [1, 2]])" by metis
  have "length cs * csize (v_k v) \<noteq> 0" using cs(3) by (intro notI) simp
  then have "0 < length cs" "512 \<le> csize (v_k v)" by (auto simp: csize_def)
  then have "100 \<le> length cs * csize (v_k v)" using mult_le_mono [of 1 "length cs" 512 "csize (v_k v)"] by linarith
  with cs(4) [rule_format, of 100] obtain v' where "fread kernel_ops v 1 (word_of_nat 100) fb = Some (100, take 100 (contents (v_k v) cs), v')" by auto
  moreover have "take 2 (contents (v_k v) cs) = [1, 2]" using cs(2) by (simp add: numeral_2_eq_2)
  ultimately show ?thesis using v(1) cs(1) by blast
qed

text \<open>
  C35: the descriptors that the operations refuse. For a number outside 1..511, and for one
  whose entry of the table is null, every operation returns its error code and changes
  nothing.
\<close>

theorem bad_descriptor:
  assumes "length (v_fds v) = PEACHOS_MAX_FILE_DESCRIPTORS"
    and "fd \<le> 0 \<or> fd \<ge> 512 \<or> v_fds v ! nat (fd - 1) = None"
  shows "fread ops v sz nmemb fd = Some (- EINVARG, [], v) \<and> fwrite ops v ptr sz nmemb fd = Some (- EINVARG, v)
     \<and> fseek ops v fd off whence = Some (- EIO, v) \<and> fstat ops v fd st = Some (- EIO, st)
     \<and> fclose ops v fd = Some (- EIO, v)"
proof -
  have "file_get_descriptor v fd = Some None" using assms by (auto simp: file_get_descriptor_def)
  then show ?thesis by (simp add: fread_def fwrite_def fseek_def fstat_def fclose_def)
qed

theorem bad_descriptor_witness:
  "fread kernel_ops demo_vfs 1 1 7 = Some (- EINVARG, [], demo_vfs) \<and> fclose kernel_ops demo_vfs 512 = Some (- EIO, demo_vfs)"
  using bad_descriptor [where v = demo_vfs and ops = kernel_ops and sz = 1 and nmemb = 1 and fd = 7]
    bad_descriptor [where v = demo_vfs and ops = kernel_ops and fd = 512] by (simp add: demo_vfs_def)

text \<open>
  C36: the last descriptor is lost. When the first 511 entries of the table are in use,
  \<^verbatim>\<open>fopen\<close> answers with descriptor 512, which \<^verbatim>\<open>file_get_descriptor\<close> rejects: reading, writing, seeking, the
  question for the size and closing all fail with their error code, whatever their other arguments are, and change nothing, so that the entry and its
  heap blocks are never given back.
\<close>

theorem fopen_last_descriptor:
  assumes "fat_mounted v M" and "good_name xs" and "M (canon xs) \<noteq> None \<or> entry_room (v_k v) 1"
    and "\<forall>i < 511. v_fds v ! i \<noteq> None" and "v_fds v ! 511 = None" and "heap_slack (k_heap (v_k v)) 8"
  shows "\<exists>v1. fopen kernel_ops v (path_of xs) mode_w = Some (512, v1) \<and> None \<notin> set (v_fds v1)
     \<and> (\<forall>sz nmemb. fread kernel_ops v1 sz nmemb 512 = Some (- EINVARG, [], v1))
     \<and> (\<forall>ptr sz nmemb. fwrite kernel_ops v1 ptr sz nmemb 512 = Some (- EINVARG, v1))
     \<and> (\<forall>off whence. fseek kernel_ops v1 512 off whence = Some (- EIO, v1))
     \<and> (\<forall>st. fstat kernel_ops v1 512 st = Some (- EIO, st)) \<and> fclose kernel_ops v1 512 = Some (- EIO, v1)"
proof -
  note D = mountedD [OF assms(1)]
  have x: "xs \<noteq> []" "chr_slash \<notin> set xs" "length xs \<le> 12" using fatfs.good_name [OF assms(2)] by simp_all
  have en: "entry_room ((v_k v)\<lparr>k_heap := h\<rparr>) (if M (canon xs) = None then Suc 0 else 0)" for h
    using fatfs.room_heap(2) [OF entry_need [where M = M and k = "canon xs", OF assms(3)]] .
  have op: "\<exists>q s'. fs_open_fn (kernel_ops FAT16) ((v_k v)\<lparr>k_heap := h\<rparr>) [part] FILE_MODE_WRITE = Some (Inr q, s') \<and> True
         \<and> heap_slack (k_heap s') (Suc 0) \<and> grown heap_live h (fat_owned q) (k_heap s')"
    if "cstr_of (pp_part part) xs" "heap_slack h (Suc 3)" for h and part :: path_part
  proof -
    have "heap_slack (k_heap ((v_k v)\<lparr>k_heap := h\<rparr>)) (1 + 3)" using that(2) by simp
    from fatfs.open_write [OF fatfs.rep_heap [OF D(1)] assms(2) that(1) en this, of "[]"] show ?thesis by auto
  qed
  have i: "(511 :: nat) < PEACHOS_MAX_FILE_DESCRIPTORS" "FILE_MODE_WRITE \<noteq> FILE_MODE_INVALID" "heap_slack (k_heap (v_k v)) (4 + 3)"
    using ko.slack_mono [OF assms(6), of 7] by simp_all
  from fopen_run [OF D(2) path_of_cstr [OF assms(2)] x D(3) mode_simps(1) i(2,1) assms(5) i(3), where ops = kernel_ops and P = "\<lambda>_ _. True" and j = 0, OF op] obtain n q s' h a where
    n: "n \<le> 511" "v_fds v ! n = None" "fopen kernel_ops v (path_of xs) mode_w = Some (int n + 1,
       v\<lparr>v_k := s'\<lparr>k_heap := h\<rparr>, v_fds := (v_fds v)[n := Some
         \<lparr>fo_addr = a, fo_index = int n + 1, fo_filesystem = Some FAT16, fo_private = Some q, fo_disk = Some 0\<rparr>]\<rparr>)" by blast
  have "n = 511" using n(1,2) assms(4) by (cases "n < 511") auto
  have len: "length (v_fds v) = 512" using fds_invD(1) [OF D(2)] by simp
  let ?d = "\<lparr>fo_addr = a, fo_index = 512, fo_filesystem = Some FAT16, fo_private = Some q, fo_disk = Some 0\<rparr>"
  let ?v1 = "v\<lparr>v_k := s'\<lparr>k_heap := h\<rparr>, v_fds := (v_fds v)[511 := Some ?d]\<rparr>"
  have run: "fopen kernel_ops v (path_of xs) mode_w = Some (512, ?v1)" using n(3) \<open>n = 511\<close> by simp
  have "v_fds ?v1 ! j \<noteq> None" if "j < 512" for j using that assms(4) len by (cases "j = 511") simp_all
  then have full: "None \<notin> set (v_fds ?v1)" using len by (fastforce simp: in_set_conv_nth)
  have "file_get_descriptor ?v1 512 = Some None" by (simp add: file_get_descriptor_def)
  then have "\<forall>sz nmemb. fread kernel_ops ?v1 sz nmemb 512 = Some (- EINVARG, [], ?v1)"
    "\<forall>ptr sz nmemb. fwrite kernel_ops ?v1 ptr sz nmemb 512 = Some (- EINVARG, ?v1)"
    "\<forall>off whence. fseek kernel_ops ?v1 512 off whence = Some (- EIO, ?v1)" "\<forall>st. fstat kernel_ops ?v1 512 st = Some (- EIO, st)"
    "fclose kernel_ops ?v1 512 = Some (- EIO, ?v1)" by (simp_all add: fclose_def fread_def fwrite_def fseek_def fstat_def)
  with run full show ?thesis by blast
qed

text \<open>The witness: \<^verbatim>\<open>file_new_descriptor\<close> takes the first 511 entries of an empty table.\<close>

definition demo_vfs_wide :: "fat_file_descriptor vfs" where
  "demo_vfs_wide = put_heap demo_vfs (demo_heap (replicate 1000 0))"

lemma demo_taken:
  "n \<le> 511 \<Longrightarrow> \<exists>v. fat_mounted v Map.empty \<and> (\<forall>i < n. v_fds v ! i \<noteq> None) \<and> (\<forall>i < 512. n \<le> i \<longrightarrow> v_fds v ! i = None)
     \<and> heap_slack (k_heap (v_k v)) (1000 - n) \<and> entry_room (v_k v) 1"
proof (induction n)
  case 0
  have "fat_mounted demo_vfs_wide Map.empty"
    using demo_mounted fatfs.rep_heap [of "v_k demo_vfs" Map.empty]
    by (simp add: mounted_def demo_vfs_wide_def fds_inv_def demo_vfs_def)
  moreover have "entry_room (v_k demo_vfs_wide) 1"
    using fatfs.room_heap(2) [OF demo_rooms(1) [of 1]] by (simp add: demo_vfs_wide_def)
  ultimately show ?case using demo_heap_slack [of 1000]
    by (intro exI [of _ demo_vfs_wide]) (simp add: demo_vfs_wide_def demo_vfs_def)
next
  case (Suc n)
  then obtain v where v: "fat_mounted v Map.empty" "\<forall>i < n. v_fds v ! i \<noteq> None" "\<forall>i < 512. n \<le> i \<longrightarrow> v_fds v ! i = None"
     "heap_slack (k_heap (v_k v)) (1000 - n)" "entry_room (v_k v) 1" by auto
  note D = mountedD [OF v(1)]
  have n: "n < PEACHOS_MAX_FILE_DESCRIPTORS" "v_fds v ! n = None" "heap_slack (k_heap (v_k v)) (Suc (1000 - Suc n))"
    using v(3,4) Suc.prems Suc_diff_Suc [of n 1000] by simp_all
  obtain j a h where j: "j \<le> n" "v_fds v ! j = None" "heap_slack h (1000 - Suc n)" "grown heap_live (k_heap (v_k v)) [a] h"
    by (rule new_descriptor_run [OF D(2) n])
  have "j = n" using j(1,2) v(2) by (cases "j < n") auto
  let ?d = "blank_desc a n" and ?v = "put_heap (v\<lparr>v_fds := (v_fds v)[n := Some (blank_desc a n)]\<rparr>) h"
  have "fds_inv fat_owned ?v"
    by (rule fds_inv_opened [OF D(2) n(1,2), where R = "[]" and d = ?d]) (simp_all add: desc_objects_def j(4))
  then have "fat_mounted ?v Map.empty" using fatfs.rep_heap [OF D(1), of h] D(3) by (simp add: mounted_def)
  moreover have "entry_room (v_k ?v) 1" using fatfs.room_heap(2) [OF v(5)] by simp
  moreover have "v_fds ?v ! i \<noteq> None" if "i < Suc n" for i
    using that v(2) n(1) fds_invD(1) [OF D(2)] by (cases "i = n") auto
  ultimately show ?case using j(3) v(3) by (intro exI [of _ ?v]) simp
qed

theorem fopen_last_descriptor_witness:
  "\<exists>v v1. fat_mounted v Map.empty \<and> fopen kernel_ops v (path_of demo_text) mode_w = Some (512, v1)
     \<and> fclose kernel_ops v1 512 = Some (- EIO, v1)"
proof -
  obtain v where v: "fat_mounted v Map.empty" "\<forall>i < 511. v_fds v ! i \<noteq> None" "v_fds v ! 511 = None"
     "heap_slack (k_heap (v_k v)) (1000 - 511)" "entry_room (v_k v) 1" using demo_taken [of 511] by auto
  have "heap_slack (k_heap (v_k v)) 8" by (rule ko.slack_mono [OF v(4)]) simp
  with fopen_last_descriptor [OF v(1) demo_good _ v(2,3)] v(1,5) show ?thesis by blast
qed

text \<open>
  Start-up of the file layer. \<^verbatim>\<open>fs_init\<close> succeeds whatever the tables held: afterwards the
  FAT16 driver is in the first entry of the table of file systems under its name, the other
  entries and all descriptors are null.
\<close>

lemma fs_init_tables:
  assumes "length (v_fs_name v) = 20"
  shows "\<exists>v'. fs_init v = Some v' \<and> v_filesystems v' = Some FAT16 # replicate 11 None
     \<and> v_fds v' = replicate PEACHOS_MAX_FILE_DESCRIPTORS None \<and> cstr_of (v_fs_name v') [0x46, 0x41, 0x54, 0x31, 0x36]
     \<and> v_k v' = v_k v \<and> fds_inv owned v'"
proof -
  have "cstr_of [0x46, 0x41, 0x54, 0x31, 0x36, 0] [0x46, 0x41, 0x54, 0x31, 0x36]" by (simp add: cstr_of_def)
  from strcpy_cstr [OF this, of "v_fs_name v"] assms have "fat16_init (v_fs_name v) =
      Some (FAT16, [0x46, 0x41, 0x54, 0x31, 0x36] @ 0 # drop 6 (v_fs_name v))" by (simp add: fat16_init_def numeral_eq_Suc)
  moreover have "replicate 12 None = None # replicate 11 (None :: filesystem option)" by (simp add: numeral_eq_Suc)
  ultimately show ?thesis
    by (simp add: fs_init_def fs_load_def fs_static_load_def fs_insert_filesystem_def fs_get_free_filesystem_def
        cstr_of_def fds_inv_def)
qed

end
