(* ===== verification/Ram.thy ===== *)
theory Ram
  imports Bytes Kheap
begin

text \<open>
  The physical memory: a function from addresses to bytes. Page tables, program images,
  stacks and the buffers that system calls copy are in it; the structures that the model
  gives as records are not. The kernel runs with every address mapped to itself, so that a
  kernel pointer is a physical address.
\<close>

section \<open>Memory\<close>

type_synonym ram = "nat \<Rightarrow> byte"

definition load_bytes :: "ram \<Rightarrow> u32 \<Rightarrow> nat \<Rightarrow> byte list" where
  "load_bytes m a n = map m [unat a..<unat a + n]"

definition store_bytes :: "ram \<Rightarrow> u32 \<Rightarrow> byte list \<Rightarrow> ram" where
  "store_bytes m a bs = (\<lambda>x. if unat a \<le> x \<and> x < unat a + length bs then bs ! (x - unat a) else m x)"

definition load32 :: "ram \<Rightarrow> u32 \<Rightarrow> u32" where
  "load32 m a = le32 (load_bytes m a 4)"

definition store32 :: "ram \<Rightarrow> u32 \<Rightarrow> u32 \<Rightarrow> ram" where
  "store32 m a v = store_bytes m a (bytes32 v)"

text \<open>\<^verbatim>\<open>kzalloc\<close> with the memory that it clears.\<close>

definition kzalloc_ram :: "heap \<Rightarrow> ram \<Rightarrow> u32 \<Rightarrow> (u32 \<times> heap \<times> ram) option" where
  "kzalloc_ram h m sz = do {
     (a, h') \<leftarrow> kzalloc h sz;
     Some (a, h', if a = 0 then m else store_bytes m a (replicate (unat sz) 0))
   }"

section \<open>Loads and stores\<close>

lemma length_load_bytes [simp]: "length (load_bytes m a n) = n"
  by (simp add: load_bytes_def)

lemma length_bytes32 [simp]: "length (bytes32 w) = 4"
  by (simp add: bytes32_def)

text \<open>\<open>unchanged m m' A\<close>: the two memories agree outside of the addresses \<open>A\<close>.\<close>

definition unchanged :: "ram \<Rightarrow> ram \<Rightarrow> nat set \<Rightarrow> bool" where
  "unchanged m m' A \<longleftrightarrow> (\<forall>x. x \<notin> A \<longrightarrow> m' x = m x)"

lemma unchanged_refl [simp]: "unchanged m m A"
  by (simp add: unchanged_def)

lemma unchanged_trans: "unchanged m m1 A \<Longrightarrow> unchanged m1 m2 B \<Longrightarrow> A \<subseteq> C \<Longrightarrow> B \<subseteq> C \<Longrightarrow> unchanged m m2 C"
  unfolding unchanged_def by (metis subsetD)

lemma unchanged_mono: "unchanged m m' A \<Longrightarrow> A \<subseteq> B \<Longrightarrow> unchanged m m' B"
  unfolding unchanged_def by blast

lemma unchanged_store: "unchanged m (store_bytes m a bs) {unat a..<unat a + length bs}"
  by (auto simp: unchanged_def store_bytes_def)

lemma unchanged_load: "unchanged m m' A \<Longrightarrow> A \<inter> {unat a..<unat a + n} = {} \<Longrightarrow> load_bytes m' a n = load_bytes m a n"
  by (auto simp: unchanged_def load_bytes_def)

lemma unchanged_load32: "unchanged m m' A \<Longrightarrow> A \<inter> {unat a..<unat a + 4} = {} \<Longrightarrow> load32 m' a = load32 m a"
  by (simp add: load32_def unchanged_load)

lemma load_store_bytes [simp]: "load_bytes (store_bytes m a bs) a (length bs) = bs"
  by (rule nth_equalityI) (simp_all add: load_bytes_def store_bytes_def)

lemma load_store32 [simp]: "load32 (store32 m a v) a = v"
  using load_store_bytes [of m a "bytes32 v"] by (simp add: load32_def store32_def le32_singleton)

lemma unchanged_store32: "unchanged m (store32 m a v) {unat a..<unat a + 4}"
  using unchanged_store [of m a "bytes32 v"] by (simp add: store32_def)

section \<open>Pages\<close>

text \<open>The page at an address, and arrays of 1024 words in a page.\<close>

definition page :: "u32 \<Rightarrow> nat set" where
  "page a = {unat a..<unat a + 4096}"

definition word_at :: "ram \<Rightarrow> u32 \<Rightarrow> nat \<Rightarrow> u32" where
  "word_at m a i = load32 m (a + 4 * of_nat i)"

abbreviation aligned :: "u32 \<Rightarrow> bool" where
  "aligned a \<equiv> 4096 dvd unat a"

lemma page_disjoint:
  assumes "aligned a" and "aligned b" and "a \<noteq> b"
  shows "page a \<inter> page b = {}"
proof -
  from assms(1,2) obtain i j where ij: "unat a = 4096 * i" "unat b = 4096 * j" by (auto elim!: dvdE)
  moreover have "i \<noteq> j" using assms(3) ij by (metis word_unat_eq_iff)
  ultimately show ?thesis by (auto simp: page_def)
qed

lemma aligned_room: "aligned a \<Longrightarrow> unat a + 4096 \<le> 2 ^ 32"
proof -
  assume "aligned a"
  then obtain i where i: "unat a = 4096 * i" by (auto elim!: dvdE)
  moreover have "unat a < 2 ^ 32" using unsigned_less [of a] by simp
  ultimately show ?thesis by simp
qed

lemma unat_index: "aligned a \<Longrightarrow> i < 1024 \<Longrightarrow> unat (a + 4 * of_nat i) = unat a + 4 * i"
proof -
  assume a: "aligned a" "i < 1024"
  have "unat (4 * of_nat i :: u32) = 4 * i" using a(2) by (simp add: unat_word_ariths unsigned_of_nat take_bit_nat_eq_self)
  then show ?thesis using aligned_room [OF a(1)] a(2) by (subst unat_add_lem [THEN iffD1]) simp_all
qed

lemma word_at_unchanged:
  assumes "unchanged m m' A" and "A \<inter> page a = {}" and "aligned a" and "i < 1024"
  shows "word_at m' a i = word_at m a i"
proof -
  have "{unat a + 4 * i..<unat a + 4 * i + 4} \<subseteq> page a" using assms(4) by (auto simp: page_def)
  then have "A \<inter> {unat a + 4 * i..<unat a + 4 * i + 4} = {}" using assms(2) by blast
  then show ?thesis unfolding word_at_def by (intro unchanged_load32 [OF assms(1)]) (simp add: unat_index [OF assms(3,4)])
qed

lemma word_at_store:
  assumes "aligned a" and "i < 1024" and "j < 1024"
  shows "word_at (store32 m (a + 4 * of_nat i) v) a j = (if j = i then v else word_at m a j)"
proof (cases "j = i")
  case False
  then have "{unat a + 4 * i..<unat a + 4 * i + 4} \<inter> {unat a + 4 * j..<unat a + 4 * j + 4} = {}" by auto
  then have "load32 (store32 m (a + 4 * of_nat i) v) (a + 4 * of_nat j) = load32 m (a + 4 * of_nat j)"
    by (intro unchanged_load32 [OF unchanged_store32]) (simp add: unat_index assms)
  with False show ?thesis by (simp add: word_at_def)
qed (simp add: word_at_def)

lemma unchanged_store_word:
  assumes "aligned a" and "i < 1024"
  shows "unchanged m (store32 m (a + 4 * of_nat i) v) (page a)"
proof -
  have "{unat (a + 4 * of_nat i)..<unat (a + 4 * of_nat i) + 4} \<subseteq> page a"
    using assms by (auto simp: unat_index page_def)
  with unchanged_store32 show ?thesis by (rule unchanged_mono)
qed

text \<open>A loop that stores the 1024 words of a page.\<close>

definition fill_words :: "ram \<Rightarrow> u32 \<Rightarrow> (nat \<Rightarrow> u32) \<Rightarrow> nat \<Rightarrow> ram" where
  "fill_words m a f n = fold (\<lambda>b m. store32 m (a + 4 * of_nat b) (f b)) [0..<n] m"

lemma fill_words:
  assumes "aligned a" and "n \<le> 1024"
  shows "unchanged m (fill_words m a f n) (page a)" "j < n \<Longrightarrow> word_at (fill_words m a f n) a j = f j"
proof -
  have "unchanged m (fill_words m a f n) (page a) \<and> (\<forall>j < n. word_at (fill_words m a f n) a j = f j)"
    using assms(2)
  proof (induction n)
    case (Suc n)
    have eq: "fill_words m a f (Suc n) = store32 (fill_words m a f n) (a + 4 * of_nat n) (f n)" by (simp add: fill_words_def)
    have n: "n < 1024" using Suc.prems by simp
    have "unchanged m (fill_words m a f (Suc n)) (page a)"
      unfolding eq by (rule unchanged_trans [OF _ unchanged_store_word [OF assms(1) n]]) (use Suc in auto)
    with Suc n show ?case unfolding eq by (auto simp: word_at_store [OF assms(1)] less_Suc_eq)
  qed (simp add: fill_words_def)
  then show "unchanged m (fill_words m a f n) (page a)" "j < n \<Longrightarrow> word_at (fill_words m a f n) a j = f j" by blast+
qed

section \<open>Pages of the heap\<close>

text \<open>
  A heap whose pool starts at a page boundary gives every object of up to 4096 bytes a page
  of its own.
\<close>

text \<open>The addresses of an object of \<open>n\<close> blocks.\<close>

definition extent :: "u32 \<Rightarrow> nat \<Rightarrow> nat set" where
  "extent a n = {unat a..<unat a + 4096 * n}"

lemma extent_one [simp]: "extent a 1 = page a" "extent a (Suc 0) = page a"
  by (simp_all add: extent_def page_def)

locale page_heap = object_heap slack live small zalloc release
  for slack :: "'h \<Rightarrow> nat \<Rightarrow> bool" and live :: "'h \<Rightarrow> (u32 \<times> nat) set" and small :: "'s \<Rightarrow> bool"
    and zalloc :: "'h \<Rightarrow> 's \<Rightarrow> (u32 \<times> 'h) option" and release :: "'h \<Rightarrow> u32 \<Rightarrow> 'h option" +
  assumes live_aligned: "slack h k \<Longrightarrow> (a, n) \<in> live h \<Longrightarrow> aligned a \<and> a \<noteq> 0"
    and live_disjoint: "slack h k \<Longrightarrow> (a, n) \<in> live h \<Longrightarrow> (b, j) \<in> live h \<Longrightarrow> a \<noteq> b \<Longrightarrow> extent a n \<inter> extent b j = {}"
begin

lemma page_fresh:
  assumes "slack h (Suc k)" and "small sz"
  obtains a h' where "zalloc h sz = Some (a, h')" and "a \<noteq> 0" and "aligned a" and "slack h' k" and "grown live h [a] h'"
    and "\<And>b n. (b, n) \<in> live h \<Longrightarrow> page a \<inter> extent b n = {}"
proof -
  obtain a h' where a: "zalloc h sz = Some (a, h')" "a \<noteq> 0" "slack h' k" "grown live h [a] h'"
    by (rule zalloc_grown [OF assms])
  have al: "aligned a" using live_aligned [OF a(3), of a 1] a(4) by (auto simp: grown_def)
  have "page a \<inter> extent b n = {}" if "(b, n) \<in> live h" for b n
  proof -
    have "(a, 1) \<in> live h'" "(b, n) \<in> live h'" "a \<noteq> b" using a(4) that by (auto simp: grown_def)
    from live_disjoint [OF a(3) this] show ?thesis by simp
  qed
  with a al that show thesis by blast
qed

end

definition page_slack :: "heap \<Rightarrow> nat \<Rightarrow> bool" where
  "page_slack h k \<longleftrightarrow> heap_slack h k \<and> aligned (h_saddr h)"

lemma unat_block_address:
  assumes "heap_inv h" and "s < ht_total (h_table h)"
  shows "unat (heap_block_to_address h (int s)) = unat (h_saddr h) + 4096 * s"
proof -
  have "int (unat (heap_block_to_address h (int s))) = int (unat (h_saddr h)) + 4096 * int s"
    using block_address_range [OF assms] by simp
  then show ?thesis by linarith
qed

lemma kzalloc_saddr: "kzalloc h sz = Some (a, h') \<Longrightarrow> h_saddr h' = h_saddr h"
  by (auto simp: kzalloc_def kmalloc_def heap_malloc_def heap_malloc_blocks_def heap_mark_blocks_taken_def Let_def run_iff
      split: if_splits)

lemma kfree_saddr: "kfree h a = Some h' \<Longrightarrow> h_saddr h' = h_saddr h"
  by (auto simp: kfree_def heap_free_def heap_mark_blocks_free_def run_iff)

lemma live_block:
  assumes "heap_inv h" and "(a, n) \<in> heap_live h"
  obtains s where "(s, n) \<in> allocs (ht_entries (h_table h))" "a = heap_block_to_address h (int s)" "unat a = unat (h_saddr h) + 4096 * s"
    "a \<noteq> 0"
proof -
  from assms(2) obtain s where s: "(s, n) \<in> allocs (ht_entries (h_table h))" "a = heap_block_to_address h (int s)"
    by (auto simp: heap_live_def)
  from alloc_block_less [OF assms(1) s(1)] unat_block_address [OF assms(1)] block_address_nonzero [OF assms(1)] s that
  show thesis by blast
qed

lemma extents_disjoint:
  assumes "heap_inv h" and "(a, n) \<in> heap_live h" and "(b, j) \<in> heap_live h" and "a \<noteq> b"
  shows "extent a n \<inter> extent b j = {}"
proof -
  obtain s where s: "(s, n) \<in> allocs (ht_entries (h_table h))" "a = heap_block_to_address h (int s)" "unat a = unat (h_saddr h) + 4096 * s"
    by (rule live_block [OF assms(1,2)])
  obtain t where t: "(t, j) \<in> allocs (ht_entries (h_table h))" "b = heap_block_to_address h (int t)" "unat b = unat (h_saddr h) + 4096 * t"
    by (rule live_block [OF assms(1,3)])
  have "x \<notin> extent b j" if "x \<in> extent a n" for x
  proof
    assume "x \<in> extent b j"
    with that s(3) t(3) obtain y where y: "x = unat (h_saddr h) + y" "4096 * s \<le> y" "y < 4096 * (s + n)" "4096 * t \<le> y" "y < 4096 * (t + j)"
      by (auto simp: extent_def algebra_simps dest!: le_Suc_ex)
    then have "s \<le> y div 4096" "y div 4096 < s + n" "t \<le> y div 4096" "y div 4096 < t + j" by auto
    from allocs_disjoint [OF s(1) t(1) this] s(2) t(2) assms(4) show False by simp
  qed
  then show ?thesis by blast
qed

interpretation ph: page_heap page_slack heap_live small_size kzalloc kfree
proof
  fix h k a n b j sz
  show "page_slack h (Suc k) \<Longrightarrow> small_size sz \<Longrightarrow> \<exists>a h'. kzalloc h sz = Some (a, h') \<and> a \<noteq> 0 \<and> page_slack h' k
      \<and> heap_live h' = insert (a, 1) (heap_live h) \<and> (\<forall>n. (a, n) \<notin> heap_live h)"
    using ko.zalloc_slack [of h k sz] kzalloc_saddr by (fastforce simp: page_slack_def)
  show "page_slack h k \<Longrightarrow> (a, n) \<in> heap_live h \<Longrightarrow> \<exists>h'. kfree h a = Some h' \<and> page_slack h' (k + n) \<and> heap_live h' = heap_live h - {(a, n)}"
    using ko.release_slack [of h k a n] kfree_saddr by (fastforce simp: page_slack_def)
  show "page_slack h k \<Longrightarrow> j \<le> k \<Longrightarrow> page_slack h j" using ko.slack_mono by (auto simp: page_slack_def)
  show "page_slack h k \<Longrightarrow> (a, n) \<in> heap_live h \<Longrightarrow> aligned a \<and> a \<noteq> 0"
    by (auto simp: page_slack_def heap_slack_def elim: live_block)
  show "page_slack h k \<Longrightarrow> (a, n) \<in> heap_live h \<Longrightarrow> (b, j) \<in> heap_live h \<Longrightarrow> a \<noteq> b \<Longrightarrow> extent a n \<inter> extent b j = {}"
    using extents_disjoint unfolding page_slack_def heap_slack_def by blast
qed

text \<open>The page of a fresh object: its address, the heap and the cleared memory.\<close>

lemma kzalloc_ram_page:
  assumes "page_slack h (Suc k)" and "small_size sz"
  obtains a h' m' where "kzalloc_ram h m sz = Some (a, h', m')" "a \<noteq> 0" "aligned a" "page_slack h' k" "grown heap_live h [a] h'"
    "unchanged m m' (page a)" "\<And>b n. (b, n) \<in> heap_live h \<Longrightarrow> page a \<inter> extent b n = {}"
proof -
  obtain a h' where a: "kzalloc h sz = Some (a, h')" "a \<noteq> 0" "aligned a" "page_slack h' k" "grown heap_live h [a] h'"
    "\<And>b n. (b, n) \<in> heap_live h \<Longrightarrow> page a \<inter> extent b n = {}"
    using ph.page_fresh [OF assms] by metis
  let ?m' = "store_bytes m a (replicate (unat sz) 0)"
  have "{unat a..<unat a + length (replicate (unat sz) (0 :: byte))} \<subseteq> page a" using assms(2) by (auto simp: page_def small_size_def)
  with unchanged_store have "unchanged m ?m' (page a)" by (rule unchanged_mono)
  with a that show thesis by (auto simp: kzalloc_ram_def)
qed

end
