(* ===== verification/Paging.thy ===== *)
theory Paging
  imports Ram Loops
begin

text \<open>
  Page tables, \<^verbatim>\<open>src/src/memory/paging/paging.c\<close>: a directory of 1024 tables of 1024 entries maps
  the 4 GB of virtual addresses in pages of 4096 bytes. The directory and the tables are
  words in memory, allocated from the kernel heap; \<^verbatim>\<open>struct paging_4gb_chunk\<close> is one word, the
  address of the directory. The model works on the heap \<open>h\<close> and the memory \<open>m\<close>.
\<close>

section \<open>Operations\<close>

abbreviation (input) PAGING_ACCESS_FROM_ALL :: u32 where "PAGING_ACCESS_FROM_ALL \<equiv> 4"
abbreviation (input) PAGING_IS_WRITEABLE :: u32 where "PAGING_IS_WRITEABLE \<equiv> 2"
abbreviation (input) PAGING_IS_PRESENT :: u32 where "PAGING_IS_PRESENT \<equiv> 1"
abbreviation (input) PAGING_TOTAL_ENTRIES_PER_TABLE :: nat where "PAGING_TOTAL_ENTRIES_PER_TABLE \<equiv> 1024"
abbreviation (input) PAGING_PAGE_SIZE :: u32 where "PAGING_PAGE_SIZE \<equiv> 4096"

text \<open>
  One turn of the loop of \<^verbatim>\<open>paging_new_4gb\<close>. Nothing checks the result of \<^verbatim>\<open>kzalloc\<close>. \<^verbatim>\<open>offset\<close> is
  an \<^verbatim>\<open>int\<close> that passes \<open>2\<^sup>3\<^sup>1\<close> half-way; it is taken to wrap around.
\<close>

definition new_4gb_step :: "u32 \<Rightarrow> u32 \<Rightarrow> nat \<Rightarrow> heap \<times> ram \<times> u32 \<Rightarrow> (heap \<times> ram \<times> u32) option" where
  "new_4gb_step flags directory i = (\<lambda>(h, m, offset). do {
     (entry, h1, m1) \<leftarrow> kzalloc_ram h m 4096;
     if entry = 0 then None
     else do {
       let m2 = fill_words m1 entry (\<lambda>b. (offset + of_nat b * PAGING_PAGE_SIZE) OR flags) PAGING_TOTAL_ENTRIES_PER_TABLE;
       let m3 = store32 m2 (directory + 4 * of_nat i) (entry OR flags OR PAGING_IS_WRITEABLE);
       Some (h1, m3, offset + of_nat PAGING_TOTAL_ENTRIES_PER_TABLE * PAGING_PAGE_SIZE)
     }
   })"

definition paging_new_4gb :: "heap \<Rightarrow> ram \<Rightarrow> byte \<Rightarrow> (u32 \<times> heap \<times> ram) option" where
  "paging_new_4gb h m flags = do {
     (directory, h1, m1) \<leftarrow> kzalloc_ram h m 4096;
     if directory = 0 then None
     else do {
       (h2, m2, offset) \<leftarrow> for_loop 0 PAGING_TOTAL_ENTRIES_PER_TABLE (new_4gb_step (ucast flags) directory) (h1, m1, 0);
       (chunk_4gb, h3, m3) \<leftarrow> kzalloc_ram h2 m2 4;
       if chunk_4gb = 0 then None
       else Some (chunk_4gb, h3, store32 m3 chunk_4gb directory)
     }
   }"

text \<open>The directory that \<^verbatim>\<open>paging_switch\<close> loads and remembers.\<close>

definition paging_switch :: "ram \<Rightarrow> u32 \<Rightarrow> u32" where
  "paging_switch m directory = load32 m directory"

definition paging_free_4gb :: "heap \<Rightarrow> ram \<Rightarrow> u32 \<Rightarrow> heap option" where
  "paging_free_4gb h m chunk = do {
     h1 \<leftarrow> for_loop 0 PAGING_TOTAL_ENTRIES_PER_TABLE (\<lambda>i h. do {
             let entry = word_at m (load32 m chunk) i;
             kfree h (entry AND 0xfffff000)
           }) h;
     h2 \<leftarrow> kfree h1 (load32 m chunk);
     kfree h2 chunk
   }"

definition paging_4gb_chunk_get_directory :: "ram \<Rightarrow> u32 \<Rightarrow> u32" where
  "paging_4gb_chunk_get_directory m chunk = load32 m chunk"

definition paging_is_aligned :: "u32 \<Rightarrow> bool" where
  "paging_is_aligned addr \<longleftrightarrow> addr mod PAGING_PAGE_SIZE = 0"

text \<open>The results through pointers keep what they held, \<open>d\<close> and \<open>t\<close>, when the address is not aligned.\<close>

definition paging_get_indexes :: "u32 \<Rightarrow> u32 \<Rightarrow> u32 \<Rightarrow> int \<times> u32 \<times> u32" where
  "paging_get_indexes virtual_address d t =
     (if \<not> paging_is_aligned virtual_address then (- EINVARG, d, t)
      else (0, virtual_address div (of_nat PAGING_TOTAL_ENTRIES_PER_TABLE * PAGING_PAGE_SIZE),
               virtual_address mod (of_nat PAGING_TOTAL_ENTRIES_PER_TABLE * PAGING_PAGE_SIZE) div PAGING_PAGE_SIZE))"

definition paging_align_address :: "u32 \<Rightarrow> u32" where
  "paging_align_address ptr =
     (if ptr mod PAGING_PAGE_SIZE \<noteq> 0 then ptr + PAGING_PAGE_SIZE - ptr mod PAGING_PAGE_SIZE else ptr)"

definition paging_set :: "ram \<Rightarrow> u32 \<Rightarrow> u32 \<Rightarrow> u32 \<Rightarrow> int \<times> ram" where
  "paging_set m directory virt val =
     (if \<not> paging_is_aligned virt then (- EINVARG, m)
      else (case paging_get_indexes virt 0 0 of (res, directory_index, table_index) \<Rightarrow>
        if res < 0 then (res, m)
        else (let entry = load32 m (directory + 4 * directory_index);
                  table = entry AND 0xfffff000
              in (0, store32 m (table + 4 * table_index) val))))"

definition paging_map :: "ram \<Rightarrow> u32 \<Rightarrow> u32 \<Rightarrow> u32 \<Rightarrow> u32 \<Rightarrow> int \<times> ram" where
  "paging_map m directory virt phys flags =
     (if virt mod PAGING_PAGE_SIZE \<noteq> 0 \<or> phys mod PAGING_PAGE_SIZE \<noteq> 0 then (- EINVARG, m)
      else paging_set m (load32 m directory) virt (phys OR flags))"

text \<open>The loop with \<open>n\<close> pages left; \<open>res\<close> is the result of the page before.\<close>

fun map_range_loop :: "ram \<Rightarrow> u32 \<Rightarrow> u32 \<Rightarrow> u32 \<Rightarrow> nat \<Rightarrow> u32 \<Rightarrow> int \<Rightarrow> int \<times> ram" where
  "map_range_loop m directory virt phys 0 flags res = (res, m)"
| "map_range_loop m directory virt phys (Suc n) flags res = (
     case paging_map m directory virt phys flags of (res1, m1) \<Rightarrow>
       if res1 < 0 then (res1, m1)
       else map_range_loop m1 directory (virt + PAGING_PAGE_SIZE) (phys + PAGING_PAGE_SIZE) n flags res1)"

definition paging_map_range :: "ram \<Rightarrow> u32 \<Rightarrow> u32 \<Rightarrow> u32 \<Rightarrow> int \<Rightarrow> u32 \<Rightarrow> int \<times> ram" where
  "paging_map_range m directory virt phys cnt flags = map_range_loop m directory virt phys (nat cnt) flags 0"

definition paging_map_to :: "ram \<Rightarrow> u32 \<Rightarrow> u32 \<Rightarrow> u32 \<Rightarrow> u32 \<Rightarrow> u32 \<Rightarrow> int \<times> ram" where
  "paging_map_to m directory virt phys phys_end flags =
     (if virt mod PAGING_PAGE_SIZE \<noteq> 0 then (- EINVARG, m)
      else if phys mod PAGING_PAGE_SIZE \<noteq> 0 then (- EINVARG, m)
      else if phys_end mod PAGING_PAGE_SIZE \<noteq> 0 then (- EINVARG, m)
      else if phys_end < phys then (- EINVARG, m)
      else (let total_bytes = phys_end - phys; total_pages = sint (total_bytes div PAGING_PAGE_SIZE) in
            paging_map_range m directory virt phys total_pages flags))"

definition paging_get :: "ram \<Rightarrow> u32 \<Rightarrow> u32 \<Rightarrow> u32" where
  "paging_get m directory virt =
     (case paging_get_indexes virt 0 0 of (res, directory_index, table_index) \<Rightarrow>
        let entry = load32 m (directory + 4 * directory_index);
            table = entry AND 0xfffff000
        in load32 m (table + 4 * table_index))"

text \<open>
  The loop of \<^verbatim>\<open>paging_copy_4gb\<close> from table \<open>i\<close>, with \<open>n\<close> tables left. A table that cannot be
  allocated ends the copy with a null pointer; what was allocated stays allocated.
\<close>

fun copy_4gb_loop :: "heap \<Rightarrow> ram \<Rightarrow> u32 \<Rightarrow> u32 \<Rightarrow> nat \<Rightarrow> nat \<Rightarrow> (bool \<times> heap \<times> ram) option" where
  "copy_4gb_loop h m src new_dir i 0 = Some (True, h, m)"
| "copy_4gb_loop h m src new_dir i (Suc n) = do {
     let src_entry = word_at m (load32 m src) i;
     let src_table = src_entry AND 0xfffff000;
     (new_table, h1, m1) \<leftarrow> kzalloc_ram h m 4096;
     if new_table = 0 then Some (False, h1, m1)
     else do {
       let m2 = store_bytes m1 new_table (load_bytes m1 src_table 4096);
       let m3 = store32 m2 (new_dir + 4 * of_nat i) (new_table OR (src_entry AND 0x00000fff));
       copy_4gb_loop h1 m3 src new_dir (Suc i) n
     }
   }"

definition paging_copy_4gb :: "heap \<Rightarrow> ram \<Rightarrow> u32 \<Rightarrow> (u32 \<times> heap \<times> ram) option" where
  "paging_copy_4gb h m src = do {
     (chunk, h1, m1) \<leftarrow> kzalloc_ram h m 4;
     if chunk = 0 then Some (0, h1, m1)
     else do {
       (new_dir, h2, m2) \<leftarrow> kzalloc_ram h1 m1 4096;
       if new_dir = 0 then do { h3 \<leftarrow> kfree h2 chunk; Some (0, h3, m2) }
       else do {
         let m3 = store32 m2 chunk new_dir;
         (done, h4, m4) \<leftarrow> copy_4gb_loop h2 m3 src new_dir 0 PAGING_TOTAL_ENTRIES_PER_TABLE;
         Some (if done then chunk else 0, h4, m4)
       }
     }
   }"

section \<open>The mapping of a chunk\<close>

text \<open>
  The tables of a chunk, the entry of a virtual page, and the translation that the processor
  makes with them: none if the page or its table is not present.
\<close>

definition table_of :: "ram \<Rightarrow> u32 \<Rightarrow> nat \<Rightarrow> u32" where
  "table_of m c i = word_at m (load32 m c) i AND 0xfffff000"

definition page_entry :: "ram \<Rightarrow> u32 \<Rightarrow> nat \<Rightarrow> u32" where
  "page_entry m c p = word_at m (table_of m c (p div 1024)) (p mod 1024)"

definition translate :: "ram \<Rightarrow> u32 \<Rightarrow> u32 \<Rightarrow> u32 option" where
  "translate m c va = (
     let p = unat va div 4096; pde = word_at m (load32 m c) (p div 1024); pte = page_entry m c p in
     if bit pde 0 \<and> bit pte 0 then Some ((pte AND 0xfffff000) OR (va AND 0xfff)) else None)"

text \<open>The pages that a chunk consists of; in order, they are different live objects of the heap.\<close>

definition chunk_pages :: "ram \<Rightarrow> u32 \<Rightarrow> u32 list" where
  "chunk_pages m c = c # load32 m c # map (table_of m c) [0..<1024]"

definition chunk_ok :: "heap \<Rightarrow> ram \<Rightarrow> u32 \<Rightarrow> bool" where
  "chunk_ok h m c \<longleftrightarrow> distinct (chunk_pages m c) \<and> (\<forall>a \<in> set (chunk_pages m c). (a, 1) \<in> heap_live h)"

text \<open>The same without the heap: the pages are different and aligned.\<close>

definition chunk_shape :: "ram \<Rightarrow> u32 \<Rightarrow> bool" where
  "chunk_shape m c \<longleftrightarrow> distinct (chunk_pages m c) \<and> (\<forall>a \<in> set (chunk_pages m c). aligned a)"

lemma chunk_ok_shape: "page_slack h k \<Longrightarrow> chunk_ok h m c \<Longrightarrow> chunk_shape m c"
  using ph.live_aligned by (fastforce simp: chunk_ok_def chunk_shape_def)

lemma chunk_members:
  "c \<in> set (chunk_pages m c)" "load32 m c \<in> set (chunk_pages m c)" "i < 1024 \<Longrightarrow> table_of m c i \<in> set (chunk_pages m c)"
  by (auto simp: chunk_pages_def)

lemma chunk_shapeD:
  assumes "chunk_shape m c"
  shows "aligned c" "aligned (load32 m c)" "i < 1024 \<Longrightarrow> aligned (table_of m c i)" "c \<noteq> load32 m c"
    "i < 1024 \<Longrightarrow> table_of m c i \<noteq> c" "i < 1024 \<Longrightarrow> table_of m c i \<noteq> load32 m c"
    "i < 1024 \<Longrightarrow> j < 1024 \<Longrightarrow> table_of m c i = table_of m c j \<Longrightarrow> i = j"
proof -
  have d: "distinct (c # load32 m c # map (table_of m c) [0..<1024])" and al: "\<forall>a \<in> set (chunk_pages m c). aligned a"
    using assms unfolding chunk_shape_def chunk_pages_def by blast+
  show "aligned c" "aligned (load32 m c)" "i < 1024 \<Longrightarrow> aligned (table_of m c i)" using al chunk_members by blast+
  have t: "table_of m c i \<in> set (map (table_of m c) [0..<1024])" if "i < 1024" for i using that by simp
  show "c \<noteq> load32 m c" using d by simp
  show "i < 1024 \<Longrightarrow> table_of m c i \<noteq> c" "i < 1024 \<Longrightarrow> table_of m c i \<noteq> load32 m c"
    using d t by (metis distinct.simps(2) list.set_intros(2))+
  show "i < 1024 \<Longrightarrow> j < 1024 \<Longrightarrow> table_of m c i = table_of m c j \<Longrightarrow> i = j" using d by (auto simp: distinct_map inj_on_def)
qed

lemma page_index: "p < 2 ^ 20 \<Longrightarrow> p div 1024 < 1024" "p mod 1024 < (1024 :: nat)"
  by (simp_all add: div_less_iff_less_mult)

text \<open>A write outside the pages of a chunk leaves its mapping.\<close>

lemma chunk_frame_dir:
  assumes "chunk_shape m c" and "unchanged m m' A" and "A \<inter> page c = {}" and "A \<inter> page (load32 m c) = {}"
  shows "load32 m' c = load32 m c" "i < 1024 \<Longrightarrow> word_at m' (load32 m c) i = word_at m (load32 m c) i"
    "i < 1024 \<Longrightarrow> table_of m' c i = table_of m c i" "chunk_pages m' c = chunk_pages m c" "chunk_shape m' c"
proof -
  note D = chunk_shapeD [OF assms(1)]
  show l: "load32 m' c = load32 m c" using word_at_unchanged [OF assms(2,3) D(1), of 0] by (simp add: word_at_def)
  show w: "word_at m' (load32 m c) i = word_at m (load32 m c) i" if "i < 1024" for i
    by (rule word_at_unchanged [OF assms(2,4) D(2) that])
  show t: "table_of m' c i = table_of m c i" if "i < 1024" for i using w [OF that] by (simp add: table_of_def l)
  show pg: "chunk_pages m' c = chunk_pages m c" using t by (simp add: chunk_pages_def l)
  show "chunk_shape m' c" using assms(1) unfolding chunk_shape_def pg .
qed

lemma chunk_frame:
  assumes "chunk_shape m c" and "unchanged m m' A" and "\<And>a. a \<in> set (chunk_pages m c) \<Longrightarrow> A \<inter> page a = {}" and "p < 2 ^ 20"
  shows "page_entry m' c p = page_entry m c p"
proof -
  note F = chunk_frame_dir [OF assms(1,2) assms(3) [OF chunk_members(1)] assms(3) [OF chunk_members(2)]]
  let ?i = "p div 1024"
  have "word_at m' (table_of m c ?i) (p mod 1024) = word_at m (table_of m c ?i) (p mod 1024)"
    by (rule word_at_unchanged [OF assms(2) assms(3) [OF chunk_members(3)] chunk_shapeD(3) [OF assms(1)] page_index(2)])
      (rule page_index(1) [OF assms(4)])+
  then show ?thesis using F(3) page_index(1) [OF assms(4)] by (simp add: page_entry_def)
qed

section \<open>Setting entries\<close>

abbreviation vpage :: "u32 \<Rightarrow> nat" where
  "vpage va \<equiv> unat va div 4096"

lemma aligned_mod: "(a :: u32) mod 4096 = 0 \<longleftrightarrow> aligned a"
proof -
  have "a mod 4096 = 0 \<longleftrightarrow> unat (a mod 4096) = 0" by (simp add: unat_eq_0)
  then show ?thesis by (simp add: unat_mod dvd_eq_mod_eq_0)
qed

lemma vpage_less [simp]: "vpage va < 2 ^ 20"
  using unsigned_less [of va] by (simp add: div_less_iff_less_mult)

lemma of_nat_eqI: "unat (w :: u32) = n \<Longrightarrow> w = of_nat n"
  by auto

lemma indexes:
  assumes "aligned va"
  shows "paging_get_indexes va d t = (0, of_nat (vpage va div 1024), of_nat (vpage va mod 1024))"
proof -
  have "unat (va div 4194304) = vpage va div 1024" by (simp add: unat_div flip: div_mult2_eq)
  then have d: "va div 4194304 = of_nat (vpage va div 1024)" by (rule of_nat_eqI)
  have "unat va mod (4096 * 1024) div 4096 = vpage va mod 1024" by (simp only: mod_mult2_eq)
  then have "unat (va mod 4194304 div 4096) = vpage va mod 1024" by (simp add: unat_div unat_mod)
  then have "va mod 4194304 div 4096 = of_nat (vpage va mod 1024)" by (rule of_nat_eqI)
  with d assms show ?thesis by (simp add: paging_get_indexes_def paging_is_aligned_def aligned_mod)
qed

text \<open>What holds after the entry of one page is set.\<close>

definition entry_set :: "ram \<Rightarrow> u32 \<Rightarrow> nat \<Rightarrow> u32 \<Rightarrow> ram \<Rightarrow> bool" where
  "entry_set m c p v m' \<longleftrightarrow> m' = store32 m (table_of m c (p div 1024) + 4 * of_nat (p mod 1024)) v"

lemma entry_set:
  assumes "entry_set m c p v m'" and "chunk_shape m c" and "p < 2 ^ 20"
  shows "chunk_pages m' c = chunk_pages m c" "chunk_shape m' c" "load32 m' c = load32 m c"
    "i < 1024 \<Longrightarrow> word_at m' (load32 m c) i = word_at m (load32 m c) i"
    "q < 2 ^ 20 \<Longrightarrow> page_entry m' c q = (if q = p then v else page_entry m c q)"
    "unchanged m m' (page (table_of m c (p div 1024)))"
proof -
  let ?i = "p div 1024" and ?j = "p mod 1024"
  note D = chunk_shapeD [OF assms(2)] and I = page_index(1) [OF assms(3)] page_index(2) [of p]
  have m': "m' = store32 m (table_of m c ?i + 4 * of_nat ?j) v" using assms(1) by (simp add: entry_set_def)
  show u: "unchanged m m' (page (table_of m c ?i))" unfolding m' by (rule unchanged_store_word [OF D(3) [OF I(1)] I(2)])
  have dj: "page (table_of m c ?i) \<inter> page c = {}" "page (table_of m c ?i) \<inter> page (load32 m c) = {}"
    by (rule page_disjoint; use D I in blast)+
  note F = chunk_frame_dir [OF assms(2) u dj]
  show "chunk_pages m' c = chunk_pages m c" "chunk_shape m' c" "load32 m' c = load32 m c"
    "i < 1024 \<Longrightarrow> word_at m' (load32 m c) i = word_at m (load32 m c) i" by (rule F)+
  show "page_entry m' c q = (if q = p then v else page_entry m c q)" if q: "q < 2 ^ 20"
  proof (cases "q div 1024 = ?i")
    case True
    have "q = p \<longleftrightarrow> q mod 1024 = ?j" using True by (metis div_mult_mod_eq)
    then show ?thesis using True F(3) [OF I(1)] word_at_store [OF D(3) [OF I(1)] I(2) page_index(2) [of q], of m v]
      by (simp add: page_entry_def m')
  next
    case False
    then have "page (table_of m c ?i) \<inter> page (table_of m c (q div 1024)) = {}"
      using D(7) [OF I(1) page_index(1) [OF q]] D(3) I page_index(1) [OF q] by (intro page_disjoint) auto
    from word_at_unchanged [OF u this D(3) [OF page_index(1) [OF q]] page_index(2)] False show ?thesis
      using F(3) [OF page_index(1) [OF q]] by (auto simp: page_entry_def)
  qed
qed

lemma paging_set_run:
  assumes "aligned virt"
  obtains m' where "paging_set m (load32 m c) virt v = (0, m')" "entry_set m c (vpage virt) v m'"
proof -
  have "paging_is_aligned virt" using assms by (simp add: paging_is_aligned_def aligned_mod)
  then show thesis using that indexes [OF assms, of 0 0] by (simp add: paging_set_def entry_set_def table_of_def word_at_def)
qed

lemma paging_get_run: "aligned virt \<Longrightarrow> paging_get m (load32 m c) virt = page_entry m c (vpage virt)"
  using indexes [of virt 0 0] by (simp add: paging_get_def page_entry_def table_of_def word_at_def)

lemma paging_map_run:
  assumes "aligned virt" and "aligned phys"
  obtains m' where "paging_map m c virt phys flags = (0, m')" "entry_set m c (vpage virt) (phys OR flags) m'"
  using paging_set_run [OF assms(1), of m c "phys OR flags"] assms that by (auto simp: paging_map_def aligned_mod)

text \<open>A range of \<open>n\<close> pages from virtual page \<open>vp\<close> is mapped to consecutive physical pages.\<close>

definition range_set :: "ram \<Rightarrow> u32 \<Rightarrow> nat \<Rightarrow> nat \<Rightarrow> (nat \<Rightarrow> u32) \<Rightarrow> ram \<Rightarrow> bool" where
  "range_set m c vp n f m' \<longleftrightarrow> chunk_pages m' c = chunk_pages m c \<and> chunk_shape m' c \<and> load32 m' c = load32 m c
     \<and> (\<forall>i < 1024. word_at m' (load32 m c) i = word_at m (load32 m c) i)
     \<and> (\<forall>q < 2 ^ 20. page_entry m' c q = (if vp \<le> q \<and> q < vp + n then f (q - vp) else page_entry m c q))
     \<and> unchanged m m' (\<Union>i \<in> {..<1024}. page (table_of m c i))"

lemma next_page:
  assumes "aligned a" and "unat a + 4096 < 2 ^ 32"
  shows "aligned (a + 4096)" "vpage (a + 4096) = Suc (vpage a)"
proof -
  have "unat (a + 4096) = unat a + 4096" using assms(2) by (subst unat_add_lem [THEN iffD1]) simp_all
  then show "aligned (a + 4096)" "vpage (a + 4096) = Suc (vpage a)" using assms(1) by (auto elim!: dvdE)
qed

lemma map_range_loop_run:
  assumes "chunk_shape m c" and "aligned virt" and "aligned phys" and "vpage virt + n \<le> 2 ^ 20" and "vpage phys + n \<le> 2 ^ 20"
  shows "\<exists>m'. map_range_loop m c virt phys n flags 0 = (0, m')
     \<and> range_set m c (vpage virt) n (\<lambda>i. (phys + of_nat i * 4096) OR flags) m'"
  using assms
proof (induction n arbitrary: m virt phys)
  case 0
  then show ?case by (auto simp: range_set_def)
next
  case (Suc n)
  obtain m1 where m1: "paging_map m c virt phys flags = (0, m1)" "entry_set m c (vpage virt) (phys OR flags) m1"
    by (rule paging_map_run [OF Suc.prems(2,3)])
  note E = entry_set [OF m1(2) Suc.prems(1) vpage_less]
  have tb: "table_of m1 c i = table_of m c i" if "i < 1024" for i using E(3,4) that by (simp add: table_of_def)
  show ?case
  proof (cases "n = 0")
    case True
    have "unchanged m m1 (\<Union>i \<in> {..<1024}. page (table_of m c i))"
      by (rule unchanged_mono [OF E(6)]) (use page_index(1) [OF vpage_less] in blast)
    then have "range_set m c (vpage virt) 1 (\<lambda>i. (phys + of_nat i * 4096) OR flags) m1"
      unfolding range_set_def using E(1-5) by auto
    with True m1(1) show ?thesis by auto
  next
    case False
    have lt: "unat virt + 4096 < 2 ^ 32" "unat phys + 4096 < 2 ^ 32"
      using Suc.prems(2-5) False by (auto elim!: dvdE)
    note V = next_page [OF Suc.prems(2) lt(1)] and P = next_page [OF Suc.prems(3) lt(2)]
    obtain m2 where m2: "map_range_loop m1 c (virt + 4096) (phys + 4096) n flags 0 = (0, m2)"
      "range_set m1 c (Suc (vpage virt)) n (\<lambda>i. (phys + 4096 + of_nat i * 4096) OR flags) m2"
      using Suc.IH [OF E(2) V(1) P(1)] Suc.prems(4,5) unfolding V(2) P(2) by auto
    have "unchanged m m2 (\<Union>i \<in> {..<1024}. page (table_of m c i))"
      by (rule unchanged_trans [OF E(6)]) (use m2(2) tb page_index(1) [OF vpage_less] in \<open>auto simp: range_set_def\<close>)
    moreover have "page_entry m2 c q = (if vpage virt \<le> q \<and> q < vpage virt + Suc n then (phys + of_nat (q - vpage virt) * 4096) OR flags else page_entry m c q)"
      if "q < 2 ^ 20" for q
    proof -
      have "page_entry m2 c q = (if Suc (vpage virt) \<le> q \<and> q < Suc (vpage virt) + n then (phys + 4096 + of_nat (q - Suc (vpage virt)) * 4096) OR flags else page_entry m1 c q)"
        using m2(2) that by (simp add: range_set_def)
      moreover have "phys + 4096 + of_nat (q - Suc (vpage virt)) * 4096 = phys + of_nat (q - vpage virt) * 4096" if "Suc (vpage virt) \<le> q"
      proof -
        have "q - vpage virt = Suc (q - Suc (vpage virt))" using that by simp
        then show ?thesis by (simp add: algebra_simps)
      qed
      ultimately show ?thesis using E(5) [OF that] by auto
    qed
    moreover have "chunk_pages m2 c = chunk_pages m c" "chunk_shape m2 c" "load32 m2 c = load32 m c"
      "\<forall>i < 1024. word_at m2 (load32 m c) i = word_at m (load32 m c) i"
      using m2(2) E(1,3,4) by (simp_all add: range_set_def)
    ultimately show ?thesis using m1(1) m2(1) by (simp add: range_set_def)
  qed
qed

lemma paging_map_to_run:
  assumes "chunk_shape m c" and "aligned virt" and "aligned phys" and "aligned phys_end" and "phys \<le> phys_end"
    and n: "n = vpage phys_end - vpage phys" and "vpage virt + n \<le> 2 ^ 20"
  shows "\<exists>m'. paging_map_to m c virt phys phys_end flags = (0, m')
     \<and> range_set m c (vpage virt) n (\<lambda>i. (phys + of_nat i * 4096) OR flags) m'"
proof -
  have le: "unat phys \<le> unat phys_end" using assms(5) by (simp add: word_le_nat_alt)
  have "unat (phys_end - phys) = unat phys_end - unat phys" using assms(5) by (simp add: unat_sub)
  then have pg: "unat ((phys_end - phys) div 4096) = n" using assms(3,4) le n by (auto simp: unat_div elim!: dvdE)
  have n20: "n < 2 ^ 20" "vpage phys + n \<le> 2 ^ 20" using n vpage_less [of phys_end] div_le_mono [OF le, of 4096] by linarith+
  have "(phys_end - phys) div 4096 = of_nat n" by (rule of_nat_eqI [OF pg])
  then have "sint ((phys_end - phys) div 4096) = int n" using sint_of_nat_u32 [of n] n20(1) by simp
  then have "paging_map_to m c virt phys phys_end flags = map_range_loop m c virt phys n flags 0"
    using assms(2-4) leD [OF assms(5)] by (simp add: paging_map_to_def paging_map_range_def Let_def aligned_mod)
  with map_range_loop_run [OF assms(1-3,7) n20(2)] show ?thesis by simp
qed

section \<open>Building a chunk\<close>

lemma mask_entry:
  assumes "aligned t" and "f < 4096"
  shows "(t OR f) AND 0xfffff000 = t"
proof (rule bit_word_eqI)
  fix n :: nat assume "n < LENGTH(32)"
  then have n: "n < 32" by simp
  have lo: "\<not> bit t n" if "n < 12"
  proof -
    from assms(1) obtain i where "unat t = 4096 * i" by (auto elim!: dvdE)
    then have "unat t = push_bit 12 i" by (simp add: push_bit_eq_mult)
    then have "\<not> bit (unat t) n" using that by (simp add: bit_push_bit_iff)
    then show ?thesis by (simp add: bit_unsigned_iff)
  qed
  have hi: "\<not> bit f n" if "12 \<le> n"
  proof -
    have "unat f < 2 ^ 12" using assms(2) by (simp add: word_less_nat_alt)
    also have "(2 :: nat) ^ 12 \<le> 2 ^ n" using that by (rule power_increasing) simp
    finally have "unat f div 2 ^ n = 0" by simp
    then have "\<not> bit (unat f) n" by (simp add: bit_iff_odd)
    then show ?thesis by (simp add: bit_unsigned_iff)
  qed
  have msk: "(0xfffff000 :: u32) = push_bit 12 (mask 20)" by (simp add: mask_eq_exp_minus_1 push_bit_eq_mult)
  have "bit (0xfffff000 :: u32) n \<longleftrightarrow> 12 \<le> n" unfolding msk using n by (auto simp: bit_simps)
  then show "bit ((t OR f) AND 0xfffff000) n = bit t n" using lo hi by (auto simp: bit_and_iff bit_or_iff)
qed

text \<open>\<open>keeps h m m'\<close>: the memory of the live objects of \<open>h\<close> is the same in \<open>m\<close> and \<open>m'\<close>.\<close>

definition keeps :: "heap \<Rightarrow> ram \<Rightarrow> ram \<Rightarrow> bool" where
  "keeps h m m' \<longleftrightarrow> (\<forall>b n. (b, n) \<in> heap_live h \<longrightarrow> (\<forall>x \<in> extent b n. m' x = m x))"

lemma keeps_refl [simp]: "keeps h m m"
  by (simp add: keeps_def)

lemma keeps_trans: "keeps h m m1 \<Longrightarrow> keeps h m1 m2 \<Longrightarrow> keeps h m m2"
  unfolding keeps_def by metis

lemma keeps_older: "keeps h' m m' \<Longrightarrow> heap_live h \<subseteq> heap_live h' \<Longrightarrow> keeps h m m'"
  unfolding keeps_def by blast

lemma keeps_unchanged: "unchanged m m' A \<Longrightarrow> (\<And>b n. (b, n) \<in> heap_live h \<Longrightarrow> A \<inter> extent b n = {}) \<Longrightarrow> keeps h m m'"
  unfolding keeps_def unchanged_def by blast

lemma keeps_chunk:
  assumes "page_slack h k" and "chunk_ok h m c" and "keeps h m m'"
  shows "chunk_pages m' c = chunk_pages m c" "load32 m' c = load32 m c"
    "i < 1024 \<Longrightarrow> word_at m' (load32 m c) i = word_at m (load32 m c) i" "p < 2 ^ 20 \<Longrightarrow> page_entry m' c p = page_entry m c p"
proof -
  let ?A = "{x. m' x \<noteq> m x}"
  note S = chunk_ok_shape [OF assms(1,2)]
  have u: "unchanged m m' ?A" by (auto simp: unchanged_def)
  have d: "?A \<inter> page a = {}" if "a \<in> set (chunk_pages m c)" for a
  proof -
    have "(a, 1) \<in> heap_live h" using assms(2) that by (simp add: chunk_ok_def)
    with assms(3) have "\<forall>x \<in> extent a 1. m' x = m x" unfolding keeps_def by blast
    then show ?thesis by auto
  qed
  note F = chunk_frame_dir [OF S u d [OF chunk_members(1)] d [OF chunk_members(2)]]
  show "chunk_pages m' c = chunk_pages m c" "load32 m' c = load32 m c"
    "i < 1024 \<Longrightarrow> word_at m' (load32 m c) i = word_at m (load32 m c) i" by (rule F)+
  show "p < 2 ^ 20 \<Longrightarrow> page_entry m' c p = page_entry m c p" by (rule chunk_frame [OF S u d])
qed

lemma small_4096 [simp]: "small_size 4096" "small_size 4"
  by (simp_all add: small_size_def)

text \<open>
  A table \<open>t\<close> was allocated and filled with the entries \<open>v\<close>, and entry \<open>i\<close> of the directory set to \<open>e\<close>.
\<close>

definition table_added :: "heap \<Rightarrow> ram \<Rightarrow> u32 \<Rightarrow> nat \<Rightarrow> u32 \<Rightarrow> (nat \<Rightarrow> u32) \<Rightarrow> u32 \<Rightarrow> heap \<Rightarrow> ram \<Rightarrow> bool" where
  "table_added h m d i e v t h' m' \<longleftrightarrow> aligned t \<and> grown heap_live h [t] h' \<and> unchanged m m' (page t \<union> page d)
     \<and> (\<forall>j < 1024. word_at m' d j = (if j = i then e else word_at m d j)) \<and> (\<forall>b < 1024. word_at m' t b = v b)
     \<and> (\<forall>b n. (b, n) \<in> heap_live h \<longrightarrow> page t \<inter> extent b n = {})"

lemma table_addedI:
  assumes "page_slack h (Suc k)" and "(d, 1) \<in> heap_live h" and "i < 1024"
    and t: "aligned t" "grown heap_live h [t] h1" "unchanged m m1 (page t)" "\<And>b n. (b, n) \<in> heap_live h \<Longrightarrow> page t \<inter> extent b n = {}"
    and f: "unchanged m1 m2 (page t)" "\<And>b. b < 1024 \<Longrightarrow> word_at m2 t b = v b"
  shows "table_added h m d i e v t h1 (store32 m2 (d + 4 * of_nat i) e)"
proof -
  let ?m3 = "store32 m2 (d + 4 * of_nat i) e"
  have al: "aligned d" using ph.live_aligned [OF assms(1,2)] by simp
  have dj: "page t \<inter> page d = {}" "page d \<inter> page t = {}" using t(4) [OF assms(2)] by auto
  have u: "unchanged m2 ?m3 (page d)" by (rule unchanged_store_word [OF al assms(3)])
  have um2: "unchanged m m2 (page t)" by (rule unchanged_trans [OF t(3) f(1)]) simp_all
  have "unchanged m ?m3 (page t \<union> page d)" by (rule unchanged_trans [OF um2 u]) auto
  moreover have "word_at ?m3 d j = (if j = i then e else word_at m d j)" if "j < 1024" for j
    using word_at_store [OF al assms(3) that, of m2] word_at_unchanged [OF um2 dj(1) al that] by simp
  moreover have "word_at ?m3 t b = v b" if "b < 1024" for b
    using word_at_unchanged [OF u dj(2) t(1) that] f(2) [OF that] by simp
  ultimately show ?thesis using t(1,2,4) by (simp add: table_added_def)
qed

lemma new_step:
  assumes "page_slack h (Suc k)" and "(d, 1) \<in> heap_live h" and "i < 1024"
  shows "\<exists>t h' m'. new_4gb_step flags d i (h, m, off) = Some (h', m', off + 4194304) \<and> page_slack h' k
     \<and> table_added h m d i (t OR flags OR 2) (\<lambda>b. (off + of_nat b * 4096) OR flags) t h' m'"
proof -
  obtain t h1 m1 where t: "kzalloc_ram h m 4096 = Some (t, h1, m1)" "t \<noteq> 0" "aligned t" "page_slack h1 k" "grown heap_live h [t] h1"
    "unchanged m m1 (page t)" "\<And>b n. (b, n) \<in> heap_live h \<Longrightarrow> page t \<inter> extent b n = {}"
    by (rule kzalloc_ram_page [OF assms(1) small_4096(1)]) blast
  let ?f = "\<lambda>b. (off + of_nat b * 4096) OR flags"
  let ?m3 = "store32 (fill_words m1 t ?f 1024) (d + 4 * of_nat i) (t OR flags OR 2)"
  have "new_4gb_step flags d i (h, m, off) = Some (h1, ?m3, off + 4194304)" using t(1,2) by (simp add: new_4gb_step_def Let_def)
  moreover have "table_added h m d i (t OR flags OR 2) ?f t h1 ?m3"
    by (rule table_addedI [OF assms t(3,5-7)]) (simp_all add: fill_words [OF t(3)])
  ultimately show ?thesis using t(4) by blast
qed

text \<open>
  \<open>tabs\<close> are the tables that were allocated so far: entry \<open>j\<close> of the directory is table \<open>j\<close> with
  the flags \<open>g j\<close>, and its entries are \<open>v j\<close>.
\<close>

definition built :: "heap \<Rightarrow> ram \<Rightarrow> u32 \<Rightarrow> (nat \<Rightarrow> u32) \<Rightarrow> (nat \<Rightarrow> nat \<Rightarrow> u32) \<Rightarrow> u32 list \<Rightarrow> heap \<Rightarrow> ram \<Rightarrow> bool" where
  "built h m d g v tabs h' m' \<longleftrightarrow> grown heap_live h tabs h' \<and> (\<forall>t \<in> set tabs. aligned t)
     \<and> unchanged m m' (page d \<union> (\<Union>t \<in> set tabs. page t))
     \<and> (\<forall>j < length tabs. word_at m' d j = tabs ! j OR g j)
     \<and> (\<forall>j < length tabs. \<forall>b < 1024. word_at m' (tabs ! j) b = v j b)"

lemma built_extend:
  assumes "built h m d g v tabs h1 m1" and "page_slack h1 k" and "(d, 1) \<in> heap_live h" and "length tabs < 1024"
    and "table_added h1 m1 d (length tabs) (t OR g (length tabs)) (v (length tabs)) t h2 m2"
  shows "built h m d g v (tabs @ [t]) h2 m2"
proof -
  let ?i = "length tabs"
  have B: "grown heap_live h tabs h1" "\<forall>t \<in> set tabs. aligned t" "unchanged m m1 (page d \<union> (\<Union>t \<in> set tabs. page t))"
    "\<forall>j < ?i. word_at m1 d j = tabs ! j OR g j" "\<forall>j < ?i. \<forall>b < 1024. word_at m1 (tabs ! j) b = v j b"
    using assms(1) by (simp_all add: built_def)
  have d: "(d, 1) \<in> heap_live h1" using B(1) assms(3) by (simp add: grown_def)
  have s: "aligned t" "grown heap_live h1 [t] h2" "unchanged m1 m2 (page t \<union> page d)"
    "\<forall>j < 1024. word_at m2 d j = (if j = ?i then t OR g ?i else word_at m1 d j)" "\<forall>b < 1024. word_at m2 t b = v ?i b"
    "\<forall>b n. (b, n) \<in> heap_live h1 \<longrightarrow> page t \<inter> extent b n = {}" using assms(5) unfolding table_added_def by blast+
  have tab: "word_at m2 (tabs ! j) b = word_at m1 (tabs ! j) b" if "j < ?i" "b < 1024" for j b
  proof (rule word_at_unchanged [OF s(3) _ _ that(2)])
    have lv: "(tabs ! j, 1) \<in> heap_live h1" using B(1) that(1) by (auto simp: grown_def)
    have "tabs ! j \<noteq> d" using B(1) assms(3) that(1) by (metis grown_def nth_mem)
    then have "page d \<inter> page (tabs ! j) = {}" using ph.live_disjoint [OF assms(2) d lv] by simp
    then show "(page t \<union> page d) \<inter> page (tabs ! j) = {}" using s(6) lv by (metis Int_Un_distrib2 Un_empty extent_one(1))
    show "aligned (tabs ! j)" using B(2) that(1) by simp
  qed
  have "unchanged m m2 (page d \<union> (\<Union>t \<in> set (tabs @ [t]). page t))" by (rule unchanged_trans [OF B(3) s(3)]) auto
  then show ?thesis
    unfolding built_def using grown_trans [OF B(1) s(2)] B(2,4,5) s(1,4,5) tab assms(4) by (auto simp: nth_append less_Suc_eq)
qed

abbreviation identity_entry :: "u32 \<Rightarrow> nat \<Rightarrow> nat \<Rightarrow> u32" where
  "identity_entry flags j b \<equiv> of_nat (j * 1024 + b) * 4096 OR flags"

lemma build_loop:
  assumes "page_slack h (1024 + k)" and "(d, 1) \<in> heap_live h"
  obtains tabs h' m' off where "for_loop 0 1024 (new_4gb_step flags d) (h, m, 0) = Some (h', m', off)" "page_slack h' k"
    "length tabs = 1024" "built h m d (\<lambda>_. flags OR 2) (identity_entry flags) tabs h' m'"
proof -
  let ?built = "built h m d (\<lambda>_. flags OR 2) (identity_entry flags)"
  let ?I = "\<lambda>i (h', m', off). \<exists>tabs. length tabs = i \<and> off = of_nat i * (4194304 :: u32) \<and> page_slack h' (1024 + k - i) \<and> ?built tabs h' m'"
  have "\<exists>s'. for_loop 0 1024 (new_4gb_step flags d) (h, m, 0) = Some s' \<and> ?I (0 + 1024) s'"
  proof (rule for_loop_inv)
    show "?I 0 (h, m, 0)" using assms(1) by (auto simp: built_def)
    fix i s assume i: "i < 0 + 1024" "?I i s"
    obtain h1 m1 off where s: "s = (h1, m1, off)" by (cases s)
    have n: "1024 + k - i = Suc (1024 + k - Suc i)" using i(1) by simp
    from i(2) s obtain tabs where t: "length tabs = i" "off = of_nat i * 4194304" "page_slack h1 (Suc (1024 + k - Suc i))"
      "?built tabs h1 m1" by (auto simp: n)
    have lt: "length tabs < 1024" "i < 1024" and d: "(d, 1) \<in> heap_live h1" using t(1,4) i(1) assms(2) by (simp_all add: built_def grown_def)
    from new_step [OF t(3) d lt(2), of flags m1 off] obtain x h2 m2 where
      x: "new_4gb_step flags d i s = Some (h2, m2, off + 4194304)" "page_slack h2 (1024 + k - Suc i)"
      "table_added h1 m1 d i (x OR flags OR 2) (\<lambda>b. (off + of_nat b * 4096) OR flags) x h2 m2" unfolding s by blast
    have off: "(\<lambda>b. (off + of_nat b * 4096) OR flags) = identity_entry flags i" "off + 4194304 = of_nat (Suc i) * 4194304"
      by (simp_all add: t(2) algebra_simps)
    have "?built (tabs @ [x]) h2 m2"
      by (rule built_extend [OF t(4,3) assms(2) lt(1)]) (use x(3) t(1) off(1) in \<open>simp add: or.assoc\<close>)
    note x = x(1) [unfolded off(2)] x(2) this
    moreover have "?I (Suc i) (h2, m2, of_nat (Suc i) * 4194304)" using x(2,3) t(1) by (auto intro!: exI [of _ "tabs @ [x]"])
    ultimately show "\<exists>s'. new_4gb_step flags d i s = Some s' \<and> ?I (Suc i) s'" by blast
  qed
  then show thesis using that by auto
qed

lemma chunk_of_tables:
  assumes "load32 m c = d" and "length tabs = 1024" and "\<forall>t \<in> set tabs. aligned t"
    and "\<And>j. j < 1024 \<Longrightarrow> word_at m d j = tabs ! j OR f j" and "\<And>j. j < 1024 \<Longrightarrow> f j < 4096"
  shows "j < 1024 \<Longrightarrow> table_of m c j = tabs ! j" "chunk_pages m c = c # d # tabs"
proof -
  show t: "table_of m c j = tabs ! j" if "j < 1024" for j
    using mask_entry [OF _ assms(5) [OF that], of "tabs ! j"] assms(1-4) that by (simp add: table_of_def)
  then have "map (table_of m c) [0..<1024] = tabs" using assms(2) by (intro nth_equalityI) simp_all
  then show "chunk_pages m c = c # d # tabs" by (simp only: chunk_pages_def assms(1))
qed

lemma flags_small: "ucast (flags :: byte) OR 2 < (4096 :: u32)"
proof -
  have "uint flags < 2 ^ 8" using uint_lt2p [of flags] by simp
  then have "uint flags OR 2 < 2 ^ 8" by (intro OR_upper) simp_all
  moreover have "take_bit 32 (uint flags) = uint flags"
    using \<open>uint flags < 2 ^ 8\<close> by (simp add: take_bit_int_eq_self_iff)
  ultimately show ?thesis by (simp add: word_less_alt unsigned_or_eq unsigned_ucast_eq)
qed

lemma grown_keeps:
  assumes "page_slack h' k" and "grown heap_live h as h'" and "unchanged m m' (\<Union>a \<in> set as. page a)"
  shows "keeps h m m'"
proof (rule keeps_unchanged [OF assms(3)])
  fix b n assume b: "(b, n) \<in> heap_live h"
  have "page a \<inter> extent b n = {}" if "a \<in> set as" for a
    using ph.live_disjoint [OF assms(1), of a 1 b n] assms(2) that b by (auto simp: grown_def)
  then show "(\<Union>a \<in> set as. page a) \<inter> extent b n = {}" by blast
qed

lemma paging_new_4gb_run:
  assumes "page_slack h (1026 + k)"
  obtains c h' m' where "paging_new_4gb h m flags = Some (c, h', m')" "c \<noteq> 0" "page_slack h' k" "chunk_ok h' m' c"
    "heap_live h' = heap_live h \<union> (\<lambda>a. (a, 1)) ` set (chunk_pages m' c)" "\<And>a n. a \<in> set (chunk_pages m' c) \<Longrightarrow> (a, n) \<notin> heap_live h"
    "keeps h m m'" "\<And>i. i < 1024 \<Longrightarrow> word_at m' (load32 m' c) i = table_of m' c i OR ucast flags OR 2"
    "\<And>p. p < 2 ^ 20 \<Longrightarrow> page_entry m' c p = of_nat p * 4096 OR ucast flags"
proof -
  let ?f = "ucast flags :: u32"
  have "page_slack h (Suc (1025 + k))" using assms by simp
  then obtain d h1 m1 where
    d: "kzalloc_ram h m 4096 = Some (d, h1, m1)" "d \<noteq> 0" "aligned d" "page_slack h1 (1025 + k)" "grown heap_live h [d] h1"
    "unchanged m m1 (page d)" "\<And>b n. (b, n) \<in> heap_live h \<Longrightarrow> page d \<inter> extent b n = {}"
    by (rule kzalloc_ram_page [OF _ small_4096(1)]) blast
  have sd: "page_slack h1 (1024 + Suc k)" "(d, 1) \<in> heap_live h1" using d(4,5) by (simp_all add: grown_def)
  obtain tabs h2 m2 off where
    b: "for_loop 0 1024 (new_4gb_step ?f d) (h1, m1, 0) = Some (h2, m2, off)" "page_slack h2 (Suc k)" "length tabs = 1024"
    "built h1 m1 d (\<lambda>_. ?f OR 2) (identity_entry ?f) tabs h2 m2" by (rule build_loop [OF sd])
  obtain c h3 m3 where
    c: "kzalloc_ram h2 m2 4 = Some (c, h3, m3)" "c \<noteq> 0" "aligned c" "page_slack h3 k" "grown heap_live h2 [c] h3"
    "unchanged m2 m3 (page c)" "\<And>b n. (b, n) \<in> heap_live h2 \<Longrightarrow> page c \<inter> extent b n = {}"
    by (rule kzalloc_ram_page [OF b(2) small_4096(2)]) blast
  let ?m' = "store32 m3 c d"
  have B: "grown heap_live h1 tabs h2" "\<forall>t \<in> set tabs. aligned t" "unchanged m1 m2 (page d \<union> (\<Union>t \<in> set tabs. page t))"
    "\<forall>j < 1024. word_at m2 d j = tabs ! j OR (?f OR 2)"
    "\<forall>j < 1024. \<forall>b < 1024. word_at m2 (tabs ! j) b = of_nat (j * 1024 + b) * 4096 OR ?f"
    using b(4) unfolding built_def b(3) by blast+
  have gr: "grown heap_live h (([d] @ tabs) @ [c]) h3" using grown_trans [OF grown_trans [OF d(5) B(1)] c(5)] .
  have u3: "unchanged m3 ?m' (page c)" using unchanged_store_word [OF c(3), of 0 m3 d] by simp
  have uc: "unchanged m2 ?m' (page c)" by (rule unchanged_trans [OF c(6) u3]) simp_all
  have lv: "(a, 1) \<in> heap_live h2" if "a = d \<or> a \<in> set tabs" for a using that d(5) B(1) by (auto simp: grown_def)
  have dj: "page c \<inter> page a = {}" if "a = d \<or> a \<in> set tabs" for a using c(7) [OF lv [OF that]] by simp
  have wd: "word_at ?m' d j = tabs ! j OR (?f OR 2)" if "j < 1024" for j
    using word_at_unchanged [OF uc dj d(3) that] B(4) that by simp
  have wt: "word_at ?m' (tabs ! j) i = of_nat (j * 1024 + i) * 4096 OR ?f" if "j < 1024" "i < 1024" for i j
  proof -
    have "tabs ! j \<in> set tabs" using that(1) b(3) by simp
    then show ?thesis using word_at_unchanged [OF uc dj _ that(2), of "tabs ! j"] B(2,5) that by auto
  qed
  have T: "\<And>j. j < 1024 \<Longrightarrow> table_of ?m' c j = tabs ! j" "chunk_pages ?m' c = c # d # tabs"
    by (rule chunk_of_tables [where f = "\<lambda>_. ?f OR 2", OF load_store32 b(3) B(2) wd flags_small]; assumption)+
  have set: "set (chunk_pages ?m' c) = set (([d] @ tabs) @ [c])" unfolding T(2) by auto
  have ok: "chunk_ok h3 ?m' c" using gr unfolding chunk_ok_def set T(2) by (auto simp: grown_def)
  have lvs: "heap_live h3 = heap_live h \<union> (\<lambda>a. (a, 1)) ` set (chunk_pages ?m' c)" using gr unfolding set grown_def by blast
  have fr: "(a, n) \<notin> heap_live h" if "a \<in> set (chunk_pages ?m' c)" for a n using gr that unfolding set grown_def by blast
  have "unchanged m ?m' (\<Union>a \<in> set (([d] @ tabs) @ [c]). page a)"
  proof (rule unchanged_trans [OF _ uc])
    show "unchanged m m2 (\<Union>a \<in> set ([d] @ tabs). page a)" by (rule unchanged_trans [OF d(6) B(3)]) auto
  qed auto
  then have ke: "keeps h m ?m'" by (rule grown_keeps [OF c(4) gr])
  have pde: "word_at ?m' (load32 ?m' c) i = table_of ?m' c i OR ?f OR 2" if "i < 1024" for i
    using wd [OF that] T(1) [OF that] by (simp add: or.assoc)
  have pte: "page_entry ?m' c p = of_nat p * 4096 OR ?f" if "p < 2 ^ 20" for p
  proof -
    have "page_entry ?m' c p = of_nat (p div 1024 * 1024 + p mod 1024) * 4096 OR ?f"
      unfolding page_entry_def T(1) [OF page_index(1) [OF that]] by (rule wt [OF page_index(1) [OF that] page_index(2)])
    then show ?thesis by simp
  qed
  have run: "paging_new_4gb h m flags = Some (c, h3, ?m')" using d(1,2) b(1) c(1,2) by (simp add: paging_new_4gb_def)
  show thesis by (rule that [OF run c(2,4) ok lvs fr ke pde pte])
qed

section \<open>Freeing a chunk\<close>

lemma for_loop_release: "for_loop a n (\<lambda>i h. rel h (f i)) h = release_all rel h (map f [a..<a + n])"
proof (induction n arbitrary: a h)
  case (Suc n)
  have "[a..<a + Suc n] = a # [Suc a..<Suc a + n]" by (simp add: upt_rec)
  with Suc show ?case by (cases "rel h (f a)") simp_all
qed simp

lemma distinct_rotate: "distinct (c # d # ts) \<Longrightarrow> distinct (ts @ [d, c])"
  by auto

lemma paging_free_4gb_run:
  assumes "page_slack h k" and "chunk_ok h m c"
  obtains h' where "paging_free_4gb h m c = Some h'" "page_slack h' (k + 1026)"
    "heap_live h' = heap_live h - (\<lambda>a. (a, 1)) ` set (chunk_pages m c)"
proof -
  let ?as = "map (table_of m c) [0..<1024] @ [load32 m c, c]"
  have set: "set ?as = set (chunk_pages m c)" by (auto simp: chunk_pages_def)
  have "distinct (chunk_pages m c)" using assms(2) by (simp add: chunk_ok_def)
  then have ds: "distinct ?as" unfolding chunk_pages_def by (rule distinct_rotate)
  have "\<exists>h'. release_all kfree h ?as = Some h' \<and> page_slack h' (k + length ?as) \<and> heap_live h' = heap_live h - (\<lambda>a. (a, 1)) ` set ?as"
    by (rule ph.release_all_live [OF assms(1) ds]) (use assms(2) in \<open>simp only: set chunk_ok_def\<close>)
  moreover have "paging_free_4gb h m c = release_all kfree h ?as"
    unfolding paging_free_4gb_def release_all_append Let_def table_of_def [symmetric] for_loop_release by (simp add: table_of_def)
  ultimately show thesis using that unfolding set by auto
qed

section \<open>Copying a chunk\<close>

lemma word_at_copy:
  assumes "aligned t" and "aligned s" and "b < 1024"
  shows "word_at (store_bytes m t (load_bytes m s 4096)) t b = word_at m s b"
proof -
  have "load_bytes (store_bytes m t (load_bytes m s 4096)) (t + 4 * of_nat b) 4 = load_bytes m (s + 4 * of_nat b) 4"
    by (rule nth_equalityI) (use assms in \<open>simp_all add: load_bytes_def store_bytes_def unat_index add.assoc\<close>)
  then show ?thesis by (simp add: word_at_def load32_def)
qed

lemma unchanged_copy: "unchanged m (store_bytes m t (load_bytes m s 4096)) (page t)"
  using unchanged_store [of m t "load_bytes m s 4096"] by (simp add: page_def)

abbreviation copied_flags :: "ram \<Rightarrow> u32 \<Rightarrow> nat \<Rightarrow> u32" where
  "copied_flags m src j \<equiv> word_at m (load32 m src) j AND 0xfff"

abbreviation copied_entry :: "ram \<Rightarrow> u32 \<Rightarrow> nat \<Rightarrow> nat \<Rightarrow> u32" where
  "copied_entry m src j b \<equiv> word_at m (table_of m src j) b"

text \<open>
  From a state in which the first tables are copied, the loop copies the rest. The source and
  the new directory are live; the writes go to the new directory and to fresh tables.
\<close>

lemma copy_loop:
  assumes "chunk_ok h m src" and "(d, 1) \<in> heap_live h" and "d \<notin> set (chunk_pages m src)"
    and "built h m d (copied_flags m src) (copied_entry m src) tabs h1 m1" and "page_slack h1 (k + n)" and "length tabs + n = 1024"
  shows "\<exists>tabs' h' m'. copy_4gb_loop h1 m1 src d (length tabs) n = Some (True, h', m') \<and> page_slack h' k
     \<and> length tabs' = 1024 \<and> built h m d (copied_flags m src) (copied_entry m src) tabs' h' m'"
  using assms(4-6)
proof (induction n arbitrary: tabs h1 m1)
  case 0
  then show ?case by auto
next
  case (Suc n)
  let ?i = "length tabs"
  have gr: "grown heap_live h tabs h1" "unchanged m m1 (page d \<union> (\<Union>t \<in> set tabs. page t))" using Suc.prems(1) by (simp_all add: built_def)
  have d: "(d, 1) \<in> heap_live h1" using gr(1) assms(2) by (simp add: grown_def)
  have ok1: "chunk_ok h1 m src" using assms(1) gr(1) by (auto simp: chunk_ok_def grown_def)
  have i: "?i < 1024" using Suc.prems(3) by simp
  have sl: "page_slack h1 (Suc (k + n))" using Suc.prems(2) by simp
  have S: "chunk_shape m src" by (rule chunk_ok_shape [OF sl ok1])
  have dj: "(page d \<union> (\<Union>t \<in> set tabs. page t)) \<inter> page a = {}" if "a \<in> set (chunk_pages m src)" for a
  proof -
    have a: "(a, 1) \<in> heap_live h" "a \<noteq> d" using assms(1,3) that by (auto simp: chunk_ok_def)
    then have a1: "(a, 1) \<in> heap_live h1" using gr(1) by (simp add: grown_def)
    have "page t \<inter> page a = {}" if "t \<in> set tabs" for t
      using ph.live_disjoint [OF sl, of t 1 a 1] gr(1) that a(1) a1 by (auto simp: grown_def)
    with ph.live_disjoint [OF sl d a1] a(2) show ?thesis by auto
  qed
  note F = chunk_frame_dir [OF S gr(2) dj [OF chunk_members(1)] dj [OF chunk_members(2)]]
  let ?s = "table_of m src ?i"
  have se: "word_at m1 (load32 m1 src) ?i = word_at m (load32 m src) ?i" "word_at m (load32 m src) ?i AND 0xfffff000 = ?s"
    using F(1,2) i by (simp_all add: table_of_def)
  have als: "aligned ?s" by (rule chunk_shapeD(3) [OF S i])
  have sw: "word_at m1 ?s b = word_at m ?s b" if "b < 1024" for b
    by (rule word_at_unchanged [OF gr(2) dj [OF chunk_members(3) [OF i]] als that])
  obtain t h2 m2 where t: "kzalloc_ram h1 m1 4096 = Some (t, h2, m2)" "t \<noteq> 0" "aligned t" "page_slack h2 (k + n)" "grown heap_live h1 [t] h2"
    "unchanged m1 m2 (page t)" "\<And>b n. (b, n) \<in> heap_live h1 \<Longrightarrow> page t \<inter> extent b n = {}"
    by (rule kzalloc_ram_page [OF sl small_4096(1)]) blast
  let ?m3 = "store_bytes m2 t (load_bytes m2 ?s 4096)" and ?e = "t OR copied_flags m src ?i"
  have "(?s, 1) \<in> heap_live h1" using ok1 chunk_members(3) [OF i] unfolding chunk_ok_def by blast
  then have "page t \<inter> page ?s = {}" using t(7) by fastforce
  then have "word_at ?m3 t b = copied_entry m src ?i b" if "b < 1024" for b
    using word_at_copy [OF t(3) als that, of m2] word_at_unchanged [OF t(6) _ als that] sw [OF that] by simp
  then have "table_added h1 m1 d ?i ?e (copied_entry m src ?i) t h2 (store32 ?m3 (d + 4 * of_nat ?i) ?e)"
    by (intro table_addedI [OF sl d i t(3,5-7) unchanged_copy])
  from built_extend [OF Suc.prems(1) sl assms(2) i this]
  have "built h m d (copied_flags m src) (copied_entry m src) (tabs @ [t]) h2 (store32 ?m3 (d + 4 * of_nat ?i) ?e)" .
  from Suc.IH [OF this t(4)] Suc.prems(3) t(1,2) se show ?case by (simp add: Let_def)
qed

lemma low_flags: "(x :: u32) AND 0xfff < 4096"
  by (simp add: word_less_alt unsigned_and_eq AND_upper2 [THEN le_less_trans])

lemma paging_copy_4gb_run:
  assumes "page_slack h (1026 + k)" and "chunk_ok h m src"
  obtains c h' m' where "paging_copy_4gb h m src = Some (c, h', m')" "c \<noteq> 0" "page_slack h' k" "chunk_ok h' m' c"
    "heap_live h' = heap_live h \<union> (\<lambda>a. (a, 1)) ` set (chunk_pages m' c)" "\<And>a n. a \<in> set (chunk_pages m' c) \<Longrightarrow> (a, n) \<notin> heap_live h"
    "keeps h m m'" "\<And>i. i < 1024 \<Longrightarrow> word_at m' (load32 m' c) i = table_of m' c i OR copied_flags m src i"
    "\<And>p. p < 2 ^ 20 \<Longrightarrow> page_entry m' c p = page_entry m src p"
proof -
  have s1: "page_slack h (Suc (1025 + k))" using assms(1) by simp
  obtain c h1 m1 where
    c: "kzalloc_ram h m 4 = Some (c, h1, m1)" "c \<noteq> 0" "aligned c" "page_slack h1 (1025 + k)" "grown heap_live h [c] h1"
    "unchanged m m1 (page c)" by (rule kzalloc_ram_page [OF s1 small_4096(2)]) blast
  have s2: "page_slack h1 (Suc (k + 1024))" using c(4) by (simp add: add.commute)
  obtain d h2 m2 where
    d: "kzalloc_ram h1 m1 4096 = Some (d, h2, m2)" "d \<noteq> 0" "aligned d" "page_slack h2 (k + 1024)" "grown heap_live h1 [d] h2"
    "unchanged m1 m2 (page d)" by (rule kzalloc_ram_page [OF s2 small_4096(1)]) blast
  let ?m3 = "store32 m2 c d"
  have g2: "grown heap_live h ([c] @ [d]) h2" by (rule grown_trans [OF c(5) d(5)])
  have u3: "unchanged m2 ?m3 (page c)" using unchanged_store_word [OF c(3), of 0 m2 d] by simp
  have um3: "unchanged m ?m3 (\<Union>a \<in> set ([c] @ [d]). page a)"
    by (rule unchanged_trans [OF unchanged_trans [OF c(6) d(6), of "page c \<union> page d"] u3]) auto
  have k3: "keeps h m ?m3" by (rule grown_keeps [OF d(4) g2 um3])
  note K = keeps_chunk [OF assms(1,2) k3]
  have ok3: "chunk_ok h2 ?m3 src" using assms(2) g2 unfolding chunk_ok_def K(1) by (auto simp: grown_def)
  have d2: "(d, 1) \<in> heap_live h2" "d \<notin> set (chunk_pages ?m3 src)"
    using g2 assms(2) unfolding K(1) by (auto simp: grown_def chunk_ok_def)
  have b0: "built h2 ?m3 d (copied_flags ?m3 src) (copied_entry ?m3 src) [] h2 ?m3" by (simp add: built_def)
  from copy_loop [OF ok3 d2 b0 d(4)] obtain tabs h4 m4 where
    l: "copy_4gb_loop h2 ?m3 src d 0 1024 = Some (True, h4, m4)" "page_slack h4 k" "length tabs = 1024"
    "built h2 ?m3 d (copied_flags ?m3 src) (copied_entry ?m3 src) tabs h4 m4" by auto
  have B: "grown heap_live h2 tabs h4" "\<forall>t \<in> set tabs. aligned t" "unchanged ?m3 m4 (page d \<union> (\<Union>t \<in> set tabs. page t))"
    "\<forall>j < 1024. word_at m4 d j = tabs ! j OR copied_flags ?m3 src j" "\<forall>j < 1024. \<forall>b < 1024. word_at m4 (tabs ! j) b = copied_entry ?m3 src j b"
    using l(4) unfolding built_def l(3) by blast+
  have gr: "grown heap_live h (([c] @ [d]) @ tabs) h4" by (rule grown_trans [OF g2 B(1)])
  have dj: "page a \<inter> page c = {}" if "a = d \<or> a \<in> set tabs" for a
    using ph.live_disjoint [OF l(2), of a 1 c 1] gr that by (auto simp: grown_def)
  have ld: "load32 m4 c = d"
    using word_at_unchanged [OF B(3) _ c(3), of 0] dj by (auto simp: word_at_def)
  have wd: "word_at m4 d j = tabs ! j OR copied_flags m src j" if "j < 1024" for j using B(4) K(2,3) that by simp
  have T: "\<And>j. j < 1024 \<Longrightarrow> table_of m4 c j = tabs ! j" "chunk_pages m4 c = c # d # tabs"
    by (rule chunk_of_tables [where f = "copied_flags m src", OF ld l(3) B(2) wd low_flags]; assumption)+
  have set: "set (chunk_pages m4 c) = set (([c] @ [d]) @ tabs)" unfolding T(2) by auto
  have ok: "chunk_ok h4 m4 c" using gr unfolding chunk_ok_def set T(2) by (auto simp: grown_def)
  have lvs: "heap_live h4 = heap_live h \<union> (\<lambda>a. (a, 1)) ` set (chunk_pages m4 c)" using gr unfolding set grown_def by blast
  have fr: "(a, n) \<notin> heap_live h" if "a \<in> set (chunk_pages m4 c)" for a n using gr that unfolding set grown_def by blast
  have "unchanged m m4 (\<Union>a \<in> set (([c] @ [d]) @ tabs). page a)" by (rule unchanged_trans [OF um3 B(3)]) auto
  then have ke: "keeps h m m4" by (rule grown_keeps [OF l(2) gr])
  have pde: "word_at m4 (load32 m4 c) i = table_of m4 c i OR copied_flags m src i" if "i < 1024" for i
    using wd [OF that] T(1) [OF that] by (simp add: ld)
  have pte: "page_entry m4 c p = page_entry m src p" if "p < 2 ^ 20" for p
  proof -
    have "page_entry m4 c p = page_entry ?m3 src p"
      unfolding page_entry_def T(1) [OF page_index(1) [OF that]] using B(5) page_index(1) [OF that] page_index(2) by blast
    then show ?thesis using K(4) [OF that] by simp
  qed
  have run: "paging_copy_4gb h m src = Some (c, h4, m4)" using c(1,2) d(1,2) l(1) by (simp add: paging_copy_4gb_def Let_def)
  show thesis by (rule that [OF run c(2) l(2) ok lvs fr ke pde pte])
qed

section \<open>Translation\<close>

lemma page_offset: "of_nat (vpage va) * 4096 OR (va AND 0xfff) = va" "aligned (of_nat (vpage va) * 4096)"
proof -
  have u: "unat (of_nat (vpage va) * 4096 :: u32) = vpage va * 4096"
    using vpage_less [of va] by (simp add: unat_word_ariths unsigned_of_nat take_bit_nat_eq_self)
  then show "aligned (of_nat (vpage va) * 4096)" by simp
  have "drop_bit 12 va = of_nat (vpage va)" by (rule of_nat_eqI) (simp add: drop_bit_eq_div unat_div)
  then have "of_nat (vpage va) * 4096 = push_bit 12 (drop_bit 12 va)" by (simp add: push_bit_eq_mult)
  moreover have "va AND 0xfff = take_bit 12 va" by (simp add: take_bit_eq_mask mask_eq_exp_minus_1)
  moreover have "push_bit 12 (drop_bit 12 va) OR take_bit 12 va = va" by (rule bit_word_eqI) (auto simp: bit_simps)
  ultimately show "of_nat (vpage va) * 4096 OR (va AND 0xfff) = va" by simp
qed

text \<open>All tables of a chunk are present.\<close>

definition all_present :: "ram \<Rightarrow> u32 \<Rightarrow> bool" where
  "all_present m c \<longleftrightarrow> (\<forall>i < 1024. bit (word_at m (load32 m c) i) 0)"

lemma translate_present:
  assumes "all_present m c"
  shows "translate m c va = (if bit (page_entry m c (vpage va)) 0 then Some ((page_entry m c (vpage va) AND 0xfffff000) OR (va AND 0xfff)) else None)"
  using assms page_index(1) [OF vpage_less, of va] by (simp add: translate_def all_present_def Let_def)

lemma translate_cong:
  assumes "\<And>i. i < 1024 \<Longrightarrow> bit (word_at m' (load32 m' c') i) 0 = bit (word_at m (load32 m c) i) 0"
    and "\<And>p. p < 2 ^ 20 \<Longrightarrow> page_entry m' c' p = page_entry m c p"
  shows "translate m' c' va = translate m c va"
  using assms(1) [OF page_index(1) [OF vpage_less], of va] assms(2) [OF vpage_less, of va] by (simp add: translate_def Let_def)

lemma keeps_translate:
  assumes "page_slack h k" and "chunk_ok h m c" and "keeps h m m'"
  shows "translate m' c va = translate m c va"
  by (rule translate_cong) (simp_all add: keeps_chunk [OF assms])

lemma or_byte_small: "ucast (flags :: byte) < (4096 :: u32)"
proof -
  have "uint flags < 2 ^ 8" using uint_lt2p [of flags] by simp
  moreover from this have "take_bit 32 (uint flags) = uint flags" by (simp add: take_bit_int_eq_self_iff)
  ultimately show ?thesis by (simp add: word_less_alt unsigned_ucast_eq)
qed

lemma identity_translate:
  assumes "\<And>i. i < 1024 \<Longrightarrow> word_at m (load32 m c) i = table_of m c i OR ucast flags OR 2"
    and "\<And>p. p < 2 ^ 20 \<Longrightarrow> page_entry m c p = of_nat p * 4096 OR ucast (flags :: byte)" and "bit flags 0"
  shows "translate m c va = Some va"
proof -
  have "all_present m c" using assms(1,3) by (simp add: all_present_def bit_or_iff bit_ucast_iff)
  moreover have e: "page_entry m c (vpage va) = of_nat (vpage va) * 4096 OR ucast flags" by (rule assms(2) [OF vpage_less])
  moreover have "bit (page_entry m c (vpage va)) 0" unfolding e using assms(3) by (simp add: bit_or_iff bit_ucast_iff)
  ultimately show ?thesis
    by (simp add: translate_present mask_entry [OF page_offset(2) or_byte_small] page_offset(1))
qed

lemma aligned_add:
  assumes "aligned a"
  shows "aligned (a + of_nat i * 4096)"
proof -
  have "unat (a + of_nat i * 4096) = (unat a + unat (of_nat i :: u32) * 4096 mod 2 ^ 32) mod 2 ^ 32"
    by (simp add: unat_word_ariths)
  moreover have "4096 dvd (unat a + unat (of_nat i :: u32) * 4096 mod 2 ^ 32) mod 2 ^ 32"
    using assms by (intro dvd_mod dvd_add) simp_all
  ultimately show ?thesis by simp
qed

lemma aligned_low_bit: "aligned a \<Longrightarrow> \<not> bit a 0"
proof -
  assume "aligned a"
  then have "a AND 0xfffff000 = a" using mask_entry [of a 0] by simp
  then have "bit a 0 \<longleftrightarrow> bit (a AND 0xfffff000) 0" by simp
  then show ?thesis by (simp add: bit_and_iff)
qed

text \<open>Setting an entry of one chunk does not change a chunk with other pages.\<close>

lemma set_other:
  assumes "page_slack h k" and "chunk_ok h m c" and "chunk_ok h m c'" and "set (chunk_pages m c) \<inter> set (chunk_pages m c') = {}"
  shows "translate (snd (paging_set m (load32 m c) virt v)) c' va = translate m c' va"
proof (cases "aligned virt")
  case True
  note S = chunk_ok_shape [OF assms(1,2)] and S' = chunk_ok_shape [OF assms(1,3)]
  obtain m' where m': "paging_set m (load32 m c) virt v = (0, m')" "entry_set m c (vpage virt) v m'" by (rule paging_set_run [OF True])
  note E = entry_set(6) [OF m'(2) S vpage_less]
  let ?t = "table_of m c (vpage virt div 1024)"
  have t: "?t \<in> set (chunk_pages m c)" by (rule chunk_members(3) [OF page_index(1) [OF vpage_less]])
  have dj: "page ?t \<inter> page a = {}" if "a \<in> set (chunk_pages m c')" for a
    using page_disjoint [of ?t a] S S' t that assms(4) unfolding chunk_shape_def by blast
  note F = chunk_frame_dir [OF S' E dj [OF chunk_members(1)] dj [OF chunk_members(2)]]
  have "translate m' c' va = translate m c' va"
    by (rule translate_cong) (simp_all add: F chunk_frame [OF S' E dj])
  with m'(1) show ?thesis by simp
qed (simp add: paging_set_def paging_is_aligned_def aligned_mod)

text \<open>What a mapped range translates to; the pages of the tables stay what they are.\<close>

lemma map_to_space:
  assumes "chunk_shape m c" and "all_present m c" and "aligned virt" and "aligned phys" and "aligned phys_end" and "phys \<le> phys_end"
    and "vpage virt + (vpage phys_end - vpage phys) \<le> 2 ^ 20" and "flags < 4096" and "bit flags 0"
  obtains m' where "paging_map_to m c virt phys phys_end flags = (0, m')" "unchanged m m' (\<Union>i \<in> {..<1024}. page (table_of m c i))"
    "\<And>va. translate m' c va =
          (if vpage virt \<le> vpage va \<and> vpage va < vpage virt + (vpage phys_end - vpage phys)
           then Some ((phys + of_nat (vpage va - vpage virt) * 4096) OR (va AND 0xfff)) else translate m c va)"
    "chunk_shape m' c" "all_present m' c" "chunk_pages m' c = chunk_pages m c"
proof -
  let ?n = "vpage phys_end - vpage phys" and ?f = "\<lambda>i. (phys + of_nat i * 4096) OR flags"
  from paging_map_to_run [OF assms(1,3-6) refl assms(7), of flags] obtain m' where
    m': "paging_map_to m c virt phys phys_end flags = (0, m')" "range_set m c (vpage virt) ?n ?f m'" by blast
  have R: "load32 m' c = load32 m c" "\<And>i. i < 1024 \<Longrightarrow> word_at m' (load32 m c) i = word_at m (load32 m c) i"
    "\<And>q. q < 2 ^ 20 \<Longrightarrow> page_entry m' c q = (if vpage virt \<le> q \<and> q < vpage virt + ?n then ?f (q - vpage virt) else page_entry m c q)"
    "unchanged m m' (\<Union>i \<in> {..<1024}. page (table_of m c i))" using m'(2) unfolding range_set_def by blast+
  have pr: "all_present m' c" using assms(2) R(1,2) by (simp add: all_present_def)
  have "translate m' c va = (if vpage virt \<le> vpage va \<and> vpage va < vpage virt + ?n
      then Some ((phys + of_nat (vpage va - vpage virt) * 4096) OR (va AND 0xfff)) else translate m c va)" for va
  proof (cases "vpage virt \<le> vpage va \<and> vpage va < vpage virt + ?n")
    case True
    let ?p = "phys + of_nat (vpage va - vpage virt) * 4096 :: u32"
    have "aligned ?p" by (rule aligned_add) (rule assms(4))
    then have "(?p OR flags) AND 0xfffff000 = ?p" by (rule mask_entry [OF _ assms(8)])
    moreover have "page_entry m' c (vpage va) = ?p OR flags" using R(3) [OF vpage_less, of va] True by simp
    moreover have "bit (?p OR flags) 0" using assms(9) by (simp add: bit_or_iff)
    ultimately show ?thesis using True by (simp add: translate_present [OF pr])
  next
    case False
    then have "page_entry m' c (vpage va) = page_entry m c (vpage va)" using R(3) [OF vpage_less, of va] by auto
    then show ?thesis unfolding if_not_P [OF False] by (simp add: translate_present pr assms(2))
  qed
  then show thesis using that m' R(4) pr unfolding range_set_def by blast
qed

section \<open>Properties\<close>

text \<open>
  C7: a new address space is the identity. With 1026 free blocks, \<^verbatim>\<open>paging_new_4gb\<close> returns a
  chunk in which every virtual address is mapped to itself, made of 1026 pages of their
  own; the memory of all live objects is as before, and \<^verbatim>\<open>paging_free_4gb\<close> gives back every
  page.
\<close>

theorem paging_new_identity:
  assumes "page_slack h 1026" and "bit flags 0"
  shows "\<exists>c h1 m1 h2. paging_new_4gb h m flags = Some (c, h1, m1) \<and> chunk_ok h1 m1 c
     \<and> (\<forall>va. translate m1 c va = Some va) \<and> keeps h m m1
     \<and> paging_free_4gb h1 m1 c = Some h2 \<and> heap_live h2 = heap_live h"
proof -
  have s: "page_slack h (1026 + 0)" using assms(1) by simp
  obtain c h1 m1 where c: "paging_new_4gb h m flags = Some (c, h1, m1)" "page_slack h1 0" "chunk_ok h1 m1 c"
    "heap_live h1 = heap_live h \<union> (\<lambda>a. (a, 1)) ` set (chunk_pages m1 c)" "\<And>a n. a \<in> set (chunk_pages m1 c) \<Longrightarrow> (a, n) \<notin> heap_live h"
    "keeps h m m1" "\<And>i. i < 1024 \<Longrightarrow> word_at m1 (load32 m1 c) i = table_of m1 c i OR ucast flags OR 2"
    "\<And>p. p < 2 ^ 20 \<Longrightarrow> page_entry m1 c p = of_nat p * 4096 OR ucast flags"
    by (rule paging_new_4gb_run [OF s]) blast
  have "translate m1 c va = Some va" for va by (rule identity_translate [OF c(7,8) assms(2)])
  moreover obtain h2 where "paging_free_4gb h1 m1 c = Some h2"
    "heap_live h2 = heap_live h1 - (\<lambda>a. (a, 1)) ` set (chunk_pages m1 c)" by (rule paging_free_4gb_run [OF c(2,3)])
  moreover have "heap_live h1 - (\<lambda>a. (a, 1)) ` set (chunk_pages m1 c) = heap_live h" using c(4,5) by auto
  ultimately show ?thesis using c(1,3,6) by metis
qed

definition page_demo :: heap where
  "page_demo = \<lparr>h_table = \<lparr>ht_entries = replicate 3000 0, ht_total = 3000\<rparr>, h_saddr = 0x01000000\<rparr>"

lemma page_demo_slack: "page_slack page_demo 3000"
  using fresh_heap(3) [of "0x01000000" 3000 page_demo] by (simp add: page_slack_def page_demo_def)

theorem paging_new_identity_witness:
  "\<exists>c h1 m1. paging_new_4gb page_demo (\<lambda>_. 0) 7 = Some (c, h1, m1) \<and> translate m1 c 0x00400123 = Some 0x00400123"
  using paging_new_identity [OF ph.slack_mono [OF page_demo_slack], of 7 "\<lambda>_. 0"] by fastforce

text \<open>
  C8: mapping a range. In a chunk in order with all tables present, \<^verbatim>\<open>paging_map_to\<close> with aligned
  addresses and present flags maps every address of the range to the address at the same
  distance from \<open>phys\<close>, and leaves every other address as it was; outside the tables of the
  chunk no memory changes.
\<close>

theorem paging_map_to_translates:
  assumes "chunk_shape m c" and "all_present m c" and "aligned virt" and "aligned phys" and "aligned phys_end" and "phys \<le> phys_end"
    and "vpage virt + (vpage phys_end - vpage phys) \<le> 2 ^ 20" and "flags < 4096" and "bit flags 0"
  shows "\<exists>m'. paging_map_to m c virt phys phys_end flags = (0, m') \<and> unchanged m m' (\<Union>i \<in> {..<1024}. page (table_of m c i))
     \<and> (\<forall>va. translate m' c va =
          (if vpage virt \<le> vpage va \<and> vpage va < vpage virt + (vpage phys_end - vpage phys)
           then Some ((phys + of_nat (vpage va - vpage virt) * 4096) OR (va AND 0xfff)) else translate m c va))"
  using map_to_space [OF assms] by metis

text \<open>
  C9: copies of an address space are independent. \<^verbatim>\<open>paging_copy_4gb\<close> of a chunk in order gives a
  chunk with the same translation, made of fresh pages; after any entry of the copy is
  set, the source translates as before, and after any entry of the source is set, the copy
  does.
\<close>

theorem paging_copy_independent:
  assumes "page_slack h 1026" and "chunk_ok h m src"
  shows "\<exists>c h1 m1. paging_copy_4gb h m src = Some (c, h1, m1) \<and> chunk_ok h1 m1 c \<and> chunk_ok h1 m1 src
     \<and> (\<forall>va. translate m1 c va = translate m src va) \<and> (\<forall>va. translate m1 src va = translate m src va)
     \<and> (\<forall>virt v va. translate (snd (paging_set m1 (load32 m1 c) virt v)) src va = translate m src va)
     \<and> (\<forall>virt v va. translate (snd (paging_set m1 (load32 m1 src) virt v)) c va = translate m src va)"
proof -
  have s: "page_slack h (1026 + 0)" using assms(1) by simp
  obtain c h1 m1 where c: "paging_copy_4gb h m src = Some (c, h1, m1)" "page_slack h1 0" "chunk_ok h1 m1 c"
    "heap_live h1 = heap_live h \<union> (\<lambda>a. (a, 1)) ` set (chunk_pages m1 c)" "\<And>a n. a \<in> set (chunk_pages m1 c) \<Longrightarrow> (a, n) \<notin> heap_live h"
    "keeps h m m1" "\<And>i. i < 1024 \<Longrightarrow> word_at m1 (load32 m1 c) i = table_of m1 c i OR copied_flags m src i"
    "\<And>p. p < 2 ^ 20 \<Longrightarrow> page_entry m1 c p = page_entry m src p"
    by (rule paging_copy_4gb_run [OF s assms(2)]) blast
  note K = keeps_chunk [OF assms c(6)]
  have src: "chunk_ok h1 m1 src" using assms(2) c(4) unfolding chunk_ok_def K(1) by auto
  have ts: "translate m1 src va = translate m src va" for va by (rule keeps_translate [OF assms c(6)])
  have "bit (word_at m1 (load32 m1 c) i) 0 = bit (word_at m (load32 m src) i) 0" if "i < 1024" for i
    using c(7) [OF that] chunk_shapeD(3) [OF chunk_ok_shape [OF c(2,3)] that] by (simp add: bit_or_iff bit_and_iff aligned_low_bit)
  then have tc: "translate m1 c va = translate m src va" for va by (rule translate_cong [OF _ c(8)])
  have dj: "set (chunk_pages m1 c) \<inter> set (chunk_pages m1 src) = {}"
    using c(5) assms(2) unfolding K(1) chunk_ok_def by blast
  have "translate (snd (paging_set m1 (load32 m1 c) virt v)) src va = translate m1 src va" for virt v va
    by (rule set_other [OF c(2,3) src dj])
  moreover have "translate (snd (paging_set m1 (load32 m1 src) virt v)) c va = translate m1 c va" for virt v va
    by (rule set_other [OF c(2) src c(3)]) (use dj in blast)
  ultimately show ?thesis using c(1,3) src ts tc by metis
qed

text \<open>An address space to map in and to copy.\<close>

lemma demo_chunk:
  obtains c h m where "paging_new_4gb page_demo (\<lambda>_. 0) 5 = Some (c, h, m)" "page_slack h 1026" "chunk_ok h m c" "all_present m c"
    "\<forall>va. translate m c va = Some va"
proof -
  have s: "page_slack page_demo (1026 + 1026)" by (rule ph.slack_mono [OF page_demo_slack]) simp
  obtain c h m where c: "paging_new_4gb page_demo (\<lambda>_. 0) 5 = Some (c, h, m)" "page_slack h 1026" "chunk_ok h m c"
    "\<And>i. i < 1024 \<Longrightarrow> word_at m (load32 m c) i = table_of m c i OR ucast (5 :: byte) OR 2"
    "\<And>p. p < 2 ^ 20 \<Longrightarrow> page_entry m c p = of_nat p * 4096 OR ucast (5 :: byte)"
    by (rule paging_new_4gb_run [OF s]) blast
  have "all_present m c" using c(4) by (simp add: all_present_def bit_or_iff)
  moreover have "translate m c va = Some va" for va by (rule identity_translate [where flags = 5, OF c(4,5)]) (simp_all add: bit_0)
  ultimately show thesis using c(1-3) that by blast
qed

theorem paging_map_to_translates_witness:
  "\<exists>m c m'. paging_map_to m c 0x00400000 0x01800000 0x01802000 7 = (0, m') \<and> translate m' c 0x00401234 = Some 0x01801234
     \<and> translate m' c 0x00402000 = Some 0x00402000"
proof -
  obtain c h m where c: "page_slack h 1026" "chunk_ok h m c" "all_present m c" "\<forall>va. translate m c va = Some va"
    by (rule demo_chunk)
  have a: "aligned 0x00400000" "aligned 0x01800000" "aligned 0x01802000" "(0x01800000 :: u32) \<le> 0x01802000"
    "vpage 0x00400000 + (vpage 0x01802000 - vpage 0x01800000) \<le> 2 ^ 20" "(7 :: u32) < 4096" "bit (7 :: u32) 0" by simp_all
  from paging_map_to_translates [OF chunk_ok_shape [OF c(1,2)] c(3) a] c(4) show ?thesis by fastforce
qed

theorem paging_copy_independent_witness:
  "\<exists>h m src c h1 m1. paging_copy_4gb h m src = Some (c, h1, m1) \<and> translate m1 c 0x00400000 = Some 0x00400000
     \<and> translate (snd (paging_set m1 (load32 m1 c) 0x00400000 0)) src 0x00400000 = Some 0x00400000"
proof -
  obtain c h m where c: "page_slack h 1026" "chunk_ok h m c" "\<forall>va. translate m c va = Some va" by (rule demo_chunk)
  from paging_copy_independent [OF c(1,2)] c(3) show ?thesis by metis
qed

end
