(* ===== verification/Terminal.thy ===== *)
theory Terminal
  imports Loops Cstring
begin

text \<open>
  The text terminal, \<^verbatim>\<open>src/src/kernel.c\<close>: a screen of 20 rows of 80 cells in video memory, the
  position of the next character, and the hardware cursor, which is moved through the ports
  of the video controller. A cell holds the character in its low byte and the colour in its
  high byte. The terminal refines a screen that is a list of rows.
\<close>

section \<open>State\<close>

abbreviation (input) VGA_WIDTH :: nat where "VGA_WIDTH \<equiv> 80"
abbreviation (input) VGA_HEIGHT :: nat where "VGA_HEIGHT \<equiv> 20"

text \<open>
  \<open>t_video_mem\<close> is the pointer, null before \<^verbatim>\<open>terminal_initialize\<close>; \<open>t_vga\<close> are the cells of the
  video memory, which is at \<^verbatim>\<open>0xB8000\<close>; \<open>t_ports\<close> is the log of the port writes.
\<close>

record terminal =
  t_video_mem :: u32
  t_vga :: "u16 list"
  t_row :: u16
  t_col :: u16
  t_ports :: port_log

section \<open>Operations\<close>

definition outb :: "terminal \<Rightarrow> u16 \<Rightarrow> byte \<Rightarrow> terminal" where
  "outb t port val = t\<lparr>t_ports := t_ports t @ [(port, val)]\<rparr>"

text \<open>\<^verbatim>\<open>char\<close> is signed: both operands are extended to \<^verbatim>\<open>int\<close> with their sign.\<close>

definition terminal_make_char :: "byte \<Rightarrow> byte \<Rightarrow> u16" where
  "terminal_make_char c colour = word_of_int (push_bit 8 (sint colour) OR sint c)"

text \<open>A load from and a store to \<^verbatim>\<open>video_mem[i]\<close>.\<close>

definition video_get :: "terminal \<Rightarrow> int \<Rightarrow> u16 option" where
  "video_get t i = (if t_video_mem t = 0xB8000 \<and> 0 \<le> i \<and> nat i < length (t_vga t) then Some (t_vga t ! nat i) else None)"

definition video_put :: "terminal \<Rightarrow> int \<Rightarrow> u16 \<Rightarrow> terminal option" where
  "video_put t i w =
     (if t_video_mem t = 0xB8000 \<and> 0 \<le> i \<and> nat i < length (t_vga t)
      then Some (t\<lparr>t_vga := (t_vga t)[nat i := w]\<rparr>) else None)"

definition terminal_putchar :: "terminal \<Rightarrow> int \<Rightarrow> int \<Rightarrow> byte \<Rightarrow> byte \<Rightarrow> terminal option" where
  "terminal_putchar t x y c colour = video_put t (y * int VGA_WIDTH + x) (terminal_make_char c colour)"

definition terminal_scroll :: "terminal \<Rightarrow> terminal option" where
  "terminal_scroll t = do {
     t1 \<leftarrow> for_loop 1 (VGA_HEIGHT - 1) (\<lambda>y. for_loop 0 VGA_WIDTH (\<lambda>x t. do {
             w \<leftarrow> video_get t (int y * int VGA_WIDTH + int x);
             video_put t ((int y - 1) * int VGA_WIDTH + int x) w
           })) t;
     for_loop 0 VGA_WIDTH (\<lambda>x t. video_put t ((int VGA_HEIGHT - 1) * int VGA_WIDTH + int x) (terminal_make_char 0x20 0)) t1
   }"

definition terminal_update_cursor :: "terminal \<Rightarrow> u16 \<Rightarrow> u16 \<Rightarrow> terminal" where
  "terminal_update_cursor t row col = (
     let pos = row * of_nat VGA_WIDTH + col in
     outb (outb (outb (outb t 0x3D4 14) 0x3D5 (ucast (drop_bit 8 pos))) 0x3D4 15) 0x3D5 (ucast (pos AND 0xFF)))"

definition terminal_writechar :: "terminal \<Rightarrow> byte \<Rightarrow> byte \<Rightarrow> terminal option" where
  "terminal_writechar t c colour =
     (if c = 0x08 then do {
        let t1 = (if t_col t > 0 then t\<lparr>t_col := t_col t - 1\<rparr> else t);
        t2 \<leftarrow> terminal_putchar t1 (uint (t_col t1)) (uint (t_row t1)) 0x20 colour;
        Some (terminal_update_cursor t2 (t_row t2) (t_col t2))
      }
      else if c = 0x0A then do {
        let t1 = t\<lparr>t_row := t_row t + 1, t_col := 0\<rparr>;
        t2 \<leftarrow> (if unat (t_row t1) \<ge> VGA_HEIGHT
               then do { t' \<leftarrow> terminal_scroll t1; Some (t'\<lparr>t_row := of_nat VGA_HEIGHT - 1\<rparr>) }
               else Some t1);
        Some (terminal_update_cursor t2 (t_row t2) (t_col t2))
      }
      else do {
        t1 \<leftarrow> terminal_putchar t (uint (t_col t)) (uint (t_row t)) c colour;
        let t2 = t1\<lparr>t_col := t_col t1 + 1\<rparr>;
        t3 \<leftarrow> (if unat (t_col t2) \<ge> VGA_WIDTH
               then do {
                 let t' = t2\<lparr>t_col := 0, t_row := t_row t2 + 1\<rparr>;
                 if unat (t_row t') \<ge> VGA_HEIGHT
                 then do { t'' \<leftarrow> terminal_scroll t'; Some (t''\<lparr>t_row := of_nat VGA_HEIGHT - 1\<rparr>) }
                 else Some t'
               }
               else Some t2);
        Some (terminal_update_cursor t3 (t_row t3) (t_col t3))
      })"

definition terminal_initialize :: "terminal \<Rightarrow> terminal option" where
  "terminal_initialize t = do {
     let t1 = t\<lparr>t_video_mem := 0xB8000, t_row := 0, t_col := 0\<rparr>;
     t2 \<leftarrow> for_loop 0 VGA_HEIGHT (\<lambda>y. for_loop 0 VGA_WIDTH (\<lambda>x t. terminal_putchar t (int x) (int y) 0x20 0)) t1;
     Some (terminal_update_cursor (outb (outb (outb (outb t2 0x3D4 0x0A) 0x3D5 13) 0x3D4 0x0B) 0x3D5 15) 0 0)
   }"

text \<open>The string is read again in every iteration; \<open>len\<close> is computed once.\<close>

definition print :: "terminal \<Rightarrow> byte list \<Rightarrow> terminal option" where
  "print t str = do {
     len \<leftarrow> strlen str;
     for_loop 0 len (\<lambda>i t. terminal_writechar t (str ! i) 15) t
   }"

section \<open>The screen\<close>

text \<open>The abstract screen: its rows, and the row and the column of the next character.\<close>

record screen =
  sc_rows :: "u16 list list"
  sc_row :: nat
  sc_col :: nat

definition blank_row :: "u16 list" where
  "blank_row = replicate VGA_WIDTH 0x20"

definition sc_newline :: "screen \<Rightarrow> screen" where
  "sc_newline s =
     (if Suc (sc_row s) < VGA_HEIGHT then s\<lparr>sc_row := Suc (sc_row s), sc_col := 0\<rparr>
      else s\<lparr>sc_rows := tl (sc_rows s) @ [blank_row], sc_col := 0\<rparr>)"

definition sc_put :: "screen \<Rightarrow> u16 \<Rightarrow> screen" where
  "sc_put s w = s\<lparr>sc_rows := (sc_rows s)[sc_row s := (sc_rows s ! sc_row s)[sc_col s := w]]\<rparr>"

definition sc_write :: "screen \<Rightarrow> byte \<Rightarrow> byte \<Rightarrow> screen" where
  "sc_write s c colour =
     (if c = 0x08 then sc_put (s\<lparr>sc_col := sc_col s - 1\<rparr>) (terminal_make_char 0x20 colour)
      else if c = 0x0A then sc_newline s
      else let s1 = sc_put s (terminal_make_char c colour) in
        if Suc (sc_col s) < VGA_WIDTH then s1\<lparr>sc_col := Suc (sc_col s)\<rparr> else sc_newline s1)"

text \<open>The screen of a terminal, and the states of the terminal after its initialisation.\<close>

definition rows_of :: "u16 list \<Rightarrow> u16 list list" where
  "rows_of vga = map (\<lambda>y. map (\<lambda>x. vga ! (y * VGA_WIDTH + x)) [0..<VGA_WIDTH]) [0..<VGA_HEIGHT]"

definition screen_of :: "terminal \<Rightarrow> screen" where
  "screen_of t = \<lparr>sc_rows = rows_of (t_vga t), sc_row = unat (t_row t), sc_col = unat (t_col t)\<rparr>"

definition terminal_ok :: "terminal \<Rightarrow> bool" where
  "terminal_ok t \<longleftrightarrow> t_video_mem t = 0xB8000 \<and> VGA_HEIGHT * VGA_WIDTH \<le> length (t_vga t)
     \<and> unat (t_row t) < VGA_HEIGHT \<and> unat (t_col t) < VGA_WIDTH"

section \<open>Cells\<close>

lemma video_simps:
  assumes "t_video_mem t = 0xB8000" and "i < length (t_vga t)"
  shows "video_get t (int i) = Some (t_vga t ! i)" "video_put t (int i) w = Some (t\<lparr>t_vga := (t_vga t)[i := w]\<rparr>)"
  using assms by (simp_all add: video_get_def video_put_def)

lemma length_rows_of [simp]: "length (rows_of vga) = VGA_HEIGHT" "y < VGA_HEIGHT \<Longrightarrow> length (rows_of vga ! y) = VGA_WIDTH"
  by (simp_all add: rows_of_def)

lemma nth_rows_of: "y < VGA_HEIGHT \<Longrightarrow> x < VGA_WIDTH \<Longrightarrow> rows_of vga ! y ! x = vga ! (y * VGA_WIDTH + x)"
  by (simp add: rows_of_def)

lemma rows_eqI:
  assumes "length rs = VGA_HEIGHT" and "\<And>y. y < VGA_HEIGHT \<Longrightarrow> length (rs ! y) = VGA_WIDTH"
    and "\<And>y x. y < VGA_HEIGHT \<Longrightarrow> x < VGA_WIDTH \<Longrightarrow> vga ! (y * VGA_WIDTH + x) = rs ! y ! x"
  shows "rows_of vga = rs"
proof (rule nth_equalityI)
  show "length (rows_of vga) = length rs" using assms(1) by simp
  fix y assume "y < length (rows_of vga)"
  then have "y < VGA_HEIGHT" by simp
  then show "rows_of vga ! y = rs ! y" using assms(2,3) by (intro nth_equalityI) (simp_all add: nth_rows_of)
qed

lemma rows_of_update:
  assumes "y < VGA_HEIGHT" and "x < VGA_WIDTH" and "VGA_HEIGHT * VGA_WIDTH \<le> length vga"
  shows "rows_of (vga[y * VGA_WIDTH + x := w]) = (rows_of vga)[y := (rows_of vga ! y)[x := w]]"
proof (rule rows_eqI)
  fix y' x' assume a: "y' < VGA_HEIGHT" "x' < VGA_WIDTH"
  have "y' * VGA_WIDTH + x' < length vga" using a assms(3) block_index_less [OF a] by simp
  moreover have "y' * VGA_WIDTH + x' = y * VGA_WIDTH + x \<longleftrightarrow> y' = y \<and> x' = x"
    using block_index_inj [OF a(2) assms(2), of y' y] by auto
  ultimately show "vga[y * VGA_WIDTH + x := w] ! (y' * VGA_WIDTH + x') = (rows_of vga)[y := (rows_of vga ! y)[x := w]] ! y' ! x'"
    using a assms(1,2) by (auto simp: nth_list_update nth_rows_of)
qed (use assms in \<open>auto simp: nth_list_update\<close>)

lemma putchar_run:
  assumes "t_video_mem t = 0xB8000" and "VGA_HEIGHT * VGA_WIDTH \<le> length (t_vga t)" and "x < VGA_WIDTH" and "y < VGA_HEIGHT"
  shows "terminal_putchar t (int x) (int y) c colour =
    Some (t\<lparr>t_vga := (t_vga t)[y * VGA_WIDTH + x := terminal_make_char c colour]\<rparr>)"
proof -
  have "y * VGA_WIDTH + x < length (t_vga t)" using block_index_less [OF assms(4,3)] assms(2) by simp
  from video_simps(2) [OF assms(1) this] show ?thesis by (simp add: terminal_putchar_def)
qed

text \<open>\<open>painted t P f t'\<close>: from \<open>t\<close> to \<open>t'\<close> only cells change; those with \<open>P i\<close> hold \<open>f i\<close>, the others what they held.\<close>

definition painted :: "terminal \<Rightarrow> (nat \<Rightarrow> bool) \<Rightarrow> (nat \<Rightarrow> u16) \<Rightarrow> terminal \<Rightarrow> bool" where
  "painted t P f t' \<longleftrightarrow> (\<exists>vga. t' = t\<lparr>t_vga := vga\<rparr> \<and> length vga = length (t_vga t)
     \<and> (\<forall>i < length vga. vga ! i = (if P i then f i else t_vga t ! i)))"

lemma painted_refl: "(\<And>i. \<not> P i) \<Longrightarrow> painted t P f t"
  by (auto simp: painted_def intro: exI [of _ "t_vga t"])

lemma painted_put:
  assumes "painted t P f t'" and "t_video_mem t = 0xB8000" and "k < length (t_vga t)"
    and "\<And>i. Q i \<longleftrightarrow> P i \<or> i = k"
  shows "\<exists>t''. video_put t' (int k) (f k) = Some t'' \<and> painted t Q f t''"
proof -
  from assms(1) obtain vga where v: "t' = t\<lparr>t_vga := vga\<rparr>" "length vga = length (t_vga t)"
    "\<forall>i < length vga. vga ! i = (if P i then f i else t_vga t ! i)" by (auto simp: painted_def)
  have "video_put t' (int k) (f k) = Some (t\<lparr>t_vga := vga[k := f k]\<rparr>)"
    using v(1,2) assms(2,3) by (simp add: video_put_def)
  moreover have "vga[k := f k] ! i = (if Q i then f i else t_vga t ! i)" if "i < length vga" for i
    using that v(3) assms(4) by (cases "i = k") auto
  then have "painted t Q f (t\<lparr>t_vga := vga[k := f k]\<rparr>)"
    unfolding painted_def using v(2) by (intro exI [of _ "vga[k := f k]"]) simp
  ultimately show ?thesis by blast
qed

lemma painted_nth:
  assumes "painted t P f t'" and "t_video_mem t = 0xB8000" and "k < length (t_vga t)" and "\<not> P k"
  shows "video_get t' (int k) = Some (t_vga t ! k)"
  using assms by (auto simp: painted_def video_get_def)

text \<open>A loop over a row that paints its cells from the left.\<close>

lemma row_loop:
  assumes "painted t (\<lambda>i. i < b) f t'" and "t_video_mem t = 0xB8000" and "b + n \<le> length (t_vga t)"
    and "\<And>x s. x < n \<Longrightarrow> painted t (\<lambda>i. i < b + x) f s \<Longrightarrow> body x s = video_put s (int (b + x)) (f (b + x))"
  shows "\<exists>t''. for_loop 0 n body t' = Some t'' \<and> painted t (\<lambda>i. i < b + n) f t''"
proof -
  have "\<exists>t''. for_loop 0 n body t' = Some t'' \<and> painted t (\<lambda>i. i < b + (0 + n)) f t''"
  proof (rule for_loop_inv)
    show "painted t (\<lambda>i. i < b + 0) f t'" using assms(1) by simp
    fix x s assume x: "x < 0 + n" "painted t (\<lambda>i. i < b + x) f s"
    have "\<exists>s'. video_put s (int (b + x)) (f (b + x)) = Some s' \<and> painted t (\<lambda>i. i < b + Suc x) f s'"
      by (rule painted_put [OF x(2) assms(2)]) (use x(1) assms(3) in auto)
    then show "\<exists>s'. body x s = Some s' \<and> painted t (\<lambda>i. i < b + Suc x) f s'" using assms(4) [OF _ x(2)] x(1) by simp
  qed
  then show ?thesis by simp
qed

lemma scroll_run:
  assumes "t_video_mem t = 0xB8000" and "VGA_HEIGHT * VGA_WIDTH \<le> length (t_vga t)"
  obtains vga where "terminal_scroll t = Some (t\<lparr>t_vga := vga\<rparr>)" "length vga = length (t_vga t)"
    "rows_of vga = tl (rows_of (t_vga t)) @ [blank_row]" "drop (VGA_HEIGHT * VGA_WIDTH) vga = drop (VGA_HEIGHT * VGA_WIDTH) (t_vga t)"
proof -
  let ?f = "\<lambda>i. if i < 1520 then t_vga t ! (i + VGA_WIDTH) else 0x20"
  let ?copy = "\<lambda>y x s. Option.bind (video_get s (int y * int VGA_WIDTH + int x)) (video_put s ((int y - 1) * int VGA_WIDTH + int x))"
  have len: "1600 \<le> length (t_vga t)" using assms(2) by simp
  have row: "?copy y x s = video_put s (int ((y - 1) * VGA_WIDTH + x)) (?f ((y - 1) * VGA_WIDTH + x))"
    if "1 \<le> y" "y < 20" "x < VGA_WIDTH" "painted t (\<lambda>i. i < (y - 1) * VGA_WIDTH + x) ?f s" for y x s
  proof -
    have "y * VGA_WIDTH + x < length (t_vga t)" "\<not> y * VGA_WIDTH + x < (y - 1) * VGA_WIDTH + x"
      using that len by simp_all
    from painted_nth [OF that(4) assms(1) this] have "video_get s (int y * int VGA_WIDTH + int x) = Some (t_vga t ! (y * VGA_WIDTH + x))"
      by simp
    moreover obtain z where "y = Suc z" using \<open>1 \<le> y\<close> by (cases y) simp_all
    ultimately show ?thesis using that(2,3) by (simp add: algebra_simps)
  qed
  have "\<exists>t1. for_loop 1 19 (\<lambda>y. for_loop 0 VGA_WIDTH (?copy y)) t = Some t1 \<and> painted t (\<lambda>i. i < (1 + 19 - 1) * VGA_WIDTH) ?f t1"
  proof (rule for_loop_inv)
    show "painted t (\<lambda>i. i < (1 - 1) * VGA_WIDTH) ?f t" by (rule painted_refl) simp
    fix y s assume y: "1 \<le> y" "y < 1 + 19" "painted t (\<lambda>i. i < (y - 1) * VGA_WIDTH) ?f s"
    have "(y - 1) * VGA_WIDTH + VGA_WIDTH = (Suc y - 1) * VGA_WIDTH" using y(1) by (cases y) simp_all
    moreover have "\<exists>s'. for_loop 0 VGA_WIDTH (?copy y) s = Some s' \<and> painted t (\<lambda>i. i < (y - 1) * VGA_WIDTH + VGA_WIDTH) ?f s'"
      by (rule row_loop [OF y(3) assms(1)]) (use y len row in auto)
    ultimately show "\<exists>s'. for_loop 0 VGA_WIDTH (?copy y) s = Some s' \<and> painted t (\<lambda>i. i < (Suc y - 1) * VGA_WIDTH) ?f s'" by simp
  qed
  then obtain t1 where t1: "for_loop 1 19 (\<lambda>y. for_loop 0 VGA_WIDTH (?copy y)) t = Some t1" "painted t (\<lambda>i. i < 1520) ?f t1" by auto
  have bl: "terminal_make_char 0x20 0 = 0x20" by (simp add: terminal_make_char_def)
  have "\<exists>t2. for_loop 0 VGA_WIDTH (\<lambda>x s. video_put s (19 * 80 + int x) 0x20) t1 = Some t2 \<and> painted t (\<lambda>i. i < 1520 + VGA_WIDTH) ?f t2"
    by (rule row_loop [OF t1(2) assms(1)]) (use len in auto)
  then obtain t2 where t2: "for_loop 0 VGA_WIDTH (\<lambda>x s. video_put s (19 * 80 + int x) 0x20) t1 = Some t2" "painted t (\<lambda>i. i < 1600) ?f t2" by auto
  from t2(2) obtain vga where v: "t2 = t\<lparr>t_vga := vga\<rparr>" "length vga = length (t_vga t)"
    "\<forall>i < length vga. vga ! i = (if i < 1600 then ?f i else t_vga t ! i)" by (auto simp: painted_def)
  have "terminal_scroll t = Some (t\<lparr>t_vga := vga\<rparr>)" using t1(1) t2(1) v(1) bl by (simp add: terminal_scroll_def)
  moreover have "rows_of vga = tl (rows_of (t_vga t)) @ [blank_row]"
  proof (rule rows_eqI)
    fix y x assume a: "y < VGA_HEIGHT" "x < VGA_WIDTH"
    then have "vga ! (y * VGA_WIDTH + x) = ?f (y * VGA_WIDTH + x)" using v(2,3) len by simp
    also have "\<dots> = (tl (rows_of (t_vga t)) @ [blank_row]) ! y ! x"
    proof (cases "y < 19")
      case True
      then show ?thesis using a by (simp add: nth_append nth_tl nth_rows_of ac_simps)
    next
      case False
      then have "y = 19" using a by simp
      then show ?thesis using a by (simp add: nth_append blank_row_def)
    qed
    finally show "vga ! (y * VGA_WIDTH + x) = (tl (rows_of (t_vga t)) @ [blank_row]) ! y ! x" .
  qed (simp_all add: nth_append nth_tl blank_row_def)
  moreover have "drop (VGA_HEIGHT * VGA_WIDTH) vga = drop (VGA_HEIGHT * VGA_WIDTH) (t_vga t)"
    by (rule nth_equalityI) (use v(2,3) in auto)
  ultimately show thesis using that v(2) by blast
qed

section \<open>The terminal refines the screen\<close>

lemma cursor_simps [simp]:
  "t_vga (terminal_update_cursor t r c) = t_vga t" "t_row (terminal_update_cursor t r c) = t_row t"
  "t_col (terminal_update_cursor t r c) = t_col t" "t_video_mem (terminal_update_cursor t r c) = t_video_mem t"
  "screen_of (terminal_update_cursor t r c) = screen_of t" "terminal_ok (terminal_update_cursor t r c) = terminal_ok t"
  by (simp_all add: terminal_update_cursor_def outb_def Let_def screen_of_def terminal_ok_def)

lemma unat_succ: "unat (w :: u16) < 100 \<Longrightarrow> unat (w + 1) = Suc (unat w)"
  by (subst unat_add_lem [THEN iffD1]) simp_all

text \<open>
  \<open>shows_screen t s t'\<close>: \<open>t'\<close> is a terminal in order whose screen is \<open>s\<close>, and outside the screen the
  video memory is that of \<open>t\<close>.
\<close>

definition shows_screen :: "terminal \<Rightarrow> screen \<Rightarrow> terminal \<Rightarrow> bool" where
  "shows_screen t s t' \<longleftrightarrow> terminal_ok t' \<and> screen_of t' = s \<and> length (t_vga t') = length (t_vga t)
     \<and> drop (VGA_HEIGHT * VGA_WIDTH) (t_vga t') = drop (VGA_HEIGHT * VGA_WIDTH) (t_vga t)"

lemma put_shows:
  assumes "terminal_ok t"
  obtains t' where "terminal_putchar t (uint (t_col t)) (uint (t_row t)) c colour = Some t'"
    "shows_screen t (sc_put (screen_of t) (terminal_make_char c colour)) t'" "t_row t' = t_row t" "t_col t' = t_col t"
proof -
  let ?i = "unat (t_row t) * VGA_WIDTH + unat (t_col t)" and ?w = "terminal_make_char c colour"
  have b: "unat (t_row t) < VGA_HEIGHT" "unat (t_col t) < VGA_WIDTH" "t_video_mem t = 0xB8000"
    "VGA_HEIGHT * VGA_WIDTH \<le> length (t_vga t)" using assms by (simp_all add: terminal_ok_def)
  have "?i < VGA_HEIGHT * VGA_WIDTH" by (rule block_index_less [OF b(1,2)])
  then have "drop (VGA_HEIGHT * VGA_WIDTH) ((t_vga t)[?i := ?w]) = drop (VGA_HEIGHT * VGA_WIDTH) (t_vga t)"
    by (simp add: drop_update_cancel)
  then have "shows_screen t (sc_put (screen_of t) ?w) (t\<lparr>t_vga := (t_vga t)[?i := ?w]\<rparr>)"
    using b rows_of_update [OF b(1,2,4)] by (simp add: shows_screen_def terminal_ok_def screen_of_def sc_put_def)
  with putchar_run [OF b(3,4,2,1)] that show thesis by simp
qed

lemma newline_shows:
  assumes "terminal_ok t"
  obtains t' where "(if unat (t_row t + 1) \<ge> VGA_HEIGHT
       then do { u \<leftarrow> terminal_scroll (t\<lparr>t_row := t_row t + 1, t_col := 0\<rparr>); Some (u\<lparr>t_row := of_nat VGA_HEIGHT - 1\<rparr>) }
       else Some (t\<lparr>t_row := t_row t + 1, t_col := 0\<rparr>)) = Some t'"
    "shows_screen t (sc_newline (screen_of t)) t'"
proof -
  have b: "unat (t_row t) < VGA_HEIGHT" "t_video_mem t = 0xB8000" "VGA_HEIGHT * VGA_WIDTH \<le> length (t_vga t)"
    using assms by (simp_all add: terminal_ok_def)
  have r: "unat (t_row t + 1) = Suc (unat (t_row t))" using b(1) by (simp add: unat_succ)
  let ?t = "t\<lparr>t_row := t_row t + 1, t_col := 0\<rparr>"
  show thesis
  proof (cases "Suc (unat (t_row t)) < VGA_HEIGHT")
    case True
    then have "shows_screen t (sc_newline (screen_of t)) ?t"
      using b r by (simp add: shows_screen_def terminal_ok_def screen_of_def sc_newline_def)
    with that r True show thesis by simp
  next
    case False
    have "t_video_mem ?t = 0xB8000" "VGA_HEIGHT * VGA_WIDTH \<le> length (t_vga ?t)" using b by simp_all
    from scroll_run [OF this] obtain vga where v: "terminal_scroll ?t = Some (?t\<lparr>t_vga := vga\<rparr>)" "length vga = length (t_vga t)"
      "rows_of vga = tl (rows_of (t_vga t)) @ [blank_row]" "drop (VGA_HEIGHT * VGA_WIDTH) vga = drop (VGA_HEIGHT * VGA_WIDTH) (t_vga t)"
      by auto
    from False b(1) have "unat (t_row t) = 19" by simp
    then have "shows_screen t (sc_newline (screen_of t)) (?t\<lparr>t_vga := vga, t_row := 19\<rparr>)"
      using b v(2-4) by (simp add: shows_screen_def terminal_ok_def screen_of_def sc_newline_def)
    with that r v(1) False show thesis by simp
  qed
qed

lemma shows_trans: "shows_screen t s t1 \<Longrightarrow> shows_screen t1 s' t2 \<Longrightarrow> shows_screen t s' t2"
  by (simp add: shows_screen_def)

lemma shows_screenD: "shows_screen t s t' \<Longrightarrow> terminal_ok t'" "shows_screen t s t' \<Longrightarrow> screen_of t' = s"
  by (simp_all add: shows_screen_def)

lemma shows_col:
  assumes "shows_screen t s t'" and "unat c < VGA_WIDTH"
  shows "shows_screen t (s\<lparr>sc_col := unat c\<rparr>) (t'\<lparr>t_col := c\<rparr>)"
proof -
  have "screen_of (t'\<lparr>t_col := c\<rparr>) = (screen_of t')\<lparr>sc_col := unat c\<rparr>" by (simp add: screen_of_def)
  with assms show ?thesis by (simp add: shows_screen_def terminal_ok_def)
qed

lemma writechar_backspace:
  assumes "terminal_ok t"
  shows "\<exists>t'. terminal_writechar t 0x08 colour = Some (terminal_update_cursor t' (t_row t') (t_col t'))
     \<and> shows_screen t (sc_write (screen_of t) 0x08 colour) t'"
proof -
  let ?t1 = "if t_col t > 0 then t\<lparr>t_col := t_col t - 1\<rparr> else t" and ?w = "terminal_make_char 0x20 colour"
  let ?s1 = "(screen_of t)\<lparr>sc_col := sc_col (screen_of t) - 1\<rparr>"
  have "shows_screen t (screen_of t) t" using assms by (simp add: shows_screen_def)
  then have s1: "shows_screen t ?s1 ?t1"
  proof (cases "t_col t = 0")
    case False
    then have "unat (t_col t - 1) = unat (t_col t) - 1" by (simp add: unat_minus_one)
    with shows_col [OF \<open>shows_screen t (screen_of t) t\<close>, of "t_col t - 1"] assms False show ?thesis
      by (auto simp: screen_of_def terminal_ok_def word_gt_0)
  qed (simp add: screen_of_def)
  obtain t' where t': "terminal_putchar ?t1 (uint (t_col ?t1)) (uint (t_row ?t1)) 0x20 colour = Some t'"
    "shows_screen ?t1 (sc_put (screen_of ?t1) ?w) t'" by (rule put_shows [OF shows_screenD(1) [OF s1]])
  have "terminal_writechar t 0x08 colour = Some (terminal_update_cursor t' (t_row t') (t_col t'))"
    using t'(1) by (simp add: terminal_writechar_def Let_def)
  moreover have "shows_screen t (sc_write (screen_of t) 0x08 colour) t'"
    using shows_trans [OF s1 t'(2)] unfolding shows_screenD(2) [OF s1] by (simp add: sc_write_def)
  ultimately show ?thesis by blast
qed

lemma writechar_newline:
  assumes "terminal_ok t"
  shows "\<exists>t'. terminal_writechar t 0x0A colour = Some (terminal_update_cursor t' (t_row t') (t_col t'))
     \<and> shows_screen t (sc_write (screen_of t) 0x0A colour) t'"
  by (rule newline_shows [OF assms]) (auto simp: terminal_writechar_def Let_def sc_write_def)

lemma writechar_plain:
  assumes "terminal_ok t" and "c \<noteq> 0x08" and "c \<noteq> 0x0A"
  shows "\<exists>t'. terminal_writechar t c colour = Some (terminal_update_cursor t' (t_row t') (t_col t'))
     \<and> shows_screen t (sc_write (screen_of t) c colour) t'"
proof -
  let ?s1 = "sc_put (screen_of t) (terminal_make_char c colour)"
  obtain t1 where t1: "terminal_putchar t (uint (t_col t)) (uint (t_row t)) c colour = Some t1"
    "shows_screen t ?s1 t1" "t_row t1 = t_row t" "t_col t1 = t_col t" by (rule put_shows [OF assms(1)])
  have col: "unat (t_col t1) < VGA_WIDTH" "unat (t_col t1 + 1) = Suc (unat (t_col t1))"
    using shows_screenD(1) [OF t1(2)] by (simp_all add: terminal_ok_def unat_succ)
  have sc: "sc_col (screen_of t) = unat (t_col t1)" by (simp add: screen_of_def t1(4))
  show ?thesis
  proof (cases "Suc (unat (t_col t1)) < VGA_WIDTH")
    case True
    let ?t2 = "t1\<lparr>t_col := t_col t1 + 1\<rparr>"
    have "shows_screen t (?s1\<lparr>sc_col := Suc (sc_col (screen_of t))\<rparr>) ?t2"
      using shows_col [OF t1(2), of "t_col t1 + 1"] col True unfolding sc by simp
    with t1(1) assms(2,3) True col sc show ?thesis
      by (intro exI [of _ ?t2]) (simp add: terminal_writechar_def Let_def sc_write_def)
  next
    case False
    have eq: "t1\<lparr>t_col := 0, t_row := t_row t1 + 1\<rparr> = t1\<lparr>t_row := t_row t1 + 1, t_col := 0\<rparr>" by simp
    obtain t' where t': "(if unat (t_row t1 + 1) \<ge> VGA_HEIGHT
       then do { u \<leftarrow> terminal_scroll (t1\<lparr>t_row := t_row t1 + 1, t_col := 0\<rparr>); Some (u\<lparr>t_row := of_nat VGA_HEIGHT - 1\<rparr>) }
       else Some (t1\<lparr>t_row := t_row t1 + 1, t_col := 0\<rparr>)) = Some t'"
      "shows_screen t1 (sc_newline (screen_of t1)) t'" by (rule newline_shows [OF shows_screenD(1) [OF t1(2)]])
    have "terminal_writechar t c colour = Some (terminal_update_cursor t' (t_row t') (t_col t'))"
      using t1(1) t'(1) assms(2,3) False col by (simp add: terminal_writechar_def Let_def eq)
    moreover have "shows_screen t (sc_write (screen_of t) c colour) t'"
      using shows_trans [OF t1(2) t'(2)] assms(2,3) False sc shows_screenD(2) [OF t1(2)] by (simp add: sc_write_def Let_def)
    ultimately show ?thesis by blast
  qed
qed

lemma writechar_shows:
  assumes "terminal_ok t"
  shows "\<exists>t'. terminal_writechar t c colour = Some t' \<and> shows_screen t (sc_write (screen_of t) c colour) t'"
proof -
  have "\<exists>t'. terminal_writechar t c colour = Some (terminal_update_cursor t' (t_row t') (t_col t'))
     \<and> shows_screen t (sc_write (screen_of t) c colour) t'"
    using writechar_backspace [OF assms] writechar_newline [OF assms] writechar_plain [OF assms]
    by (cases "c = 0x08 \<or> c = 0x0A") blast+
  then show ?thesis by (auto simp: shows_screen_def)
qed

lemma print_shows:
  assumes "terminal_ok t" and "cstr_of str xs"
  shows "\<exists>t'. print t str = Some t' \<and> shows_screen t (fold (\<lambda>c s. sc_write s c 15) xs (screen_of t)) t'"
proof -
  have len: "strlen str = Some (length xs)" and nth: "\<And>i. i < length xs \<Longrightarrow> str ! i = xs ! i"
    using assms(2) strlen_cstr by (auto simp: cstr_of_def nth_append)
  let ?S = "\<lambda>i. fold (\<lambda>c s. sc_write s c 15) (take i xs) (screen_of t)"
  have "\<exists>t'. for_loop 0 (length xs) (\<lambda>i t. terminal_writechar t (str ! i) 15) t = Some t' \<and> shows_screen t (?S (0 + length xs)) t'"
  proof (rule for_loop_inv)
    show "shows_screen t (?S 0) t" using assms(1) by (simp add: shows_screen_def)
    fix i u assume i: "i < 0 + length xs" "shows_screen t (?S i) u"
    from writechar_shows [OF shows_screenD(1) [OF i(2)]] obtain u' where
      u: "terminal_writechar u (str ! i) 15 = Some u'" "shows_screen u (sc_write (screen_of u) (str ! i) 15) u'" by blast
    have "sc_write (screen_of u) (str ! i) 15 = ?S (Suc i)"
      using i nth shows_screenD(2) [OF i(2)] by (simp add: take_Suc_conv_app_nth)
    with shows_trans [OF i(2) u(2)] u(1) show "\<exists>u'. terminal_writechar u (str ! i) 15 = Some u' \<and> shows_screen t (?S (Suc i)) u'"
      by simp
  qed
  then show ?thesis by (simp add: print_def len)
qed

lemma initialize_shows:
  assumes "VGA_HEIGHT * VGA_WIDTH \<le> length (t_vga t)"
  shows "\<exists>t'. terminal_initialize t = Some t' \<and> terminal_ok t'
     \<and> screen_of t' = \<lparr>sc_rows = replicate VGA_HEIGHT blank_row, sc_row = 0, sc_col = 0\<rparr> \<and> length (t_vga t') = length (t_vga t)"
proof -
  let ?t = "t\<lparr>t_video_mem := 0xB8000, t_row := 0, t_col := 0\<rparr>" and ?f = "\<lambda>_ :: nat. 0x20 :: u16"
  let ?row = "\<lambda>y. for_loop 0 VGA_WIDTH (\<lambda>x t. terminal_putchar t (int x) (int y) 0x20 0)"
  have bl: "terminal_make_char 0x20 0 = 0x20" by (simp add: terminal_make_char_def)
  have vm: "t_video_mem ?t = 0xB8000" and len: "1600 \<le> length (t_vga ?t)" using assms by simp_all
  have "\<exists>t1. for_loop 0 VGA_HEIGHT ?row ?t = Some t1 \<and> painted ?t (\<lambda>i. i < (0 + VGA_HEIGHT) * VGA_WIDTH) ?f t1"
  proof (rule for_loop_inv)
    show "painted ?t (\<lambda>i. i < 0 * VGA_WIDTH) ?f ?t" by (rule painted_refl) simp
    fix y s assume y: "y < 0 + VGA_HEIGHT" "painted ?t (\<lambda>i. i < y * VGA_WIDTH) ?f s"
    have "\<exists>s'. ?row y s = Some s' \<and> painted ?t (\<lambda>i. i < y * VGA_WIDTH + VGA_WIDTH) ?f s'"
      by (rule row_loop [OF y(2) vm]) (use y(1) len in \<open>auto simp: terminal_putchar_def bl\<close>)
    moreover have "y * VGA_WIDTH + VGA_WIDTH = Suc y * VGA_WIDTH" by simp
    ultimately show "\<exists>s'. ?row y s = Some s' \<and> painted ?t (\<lambda>i. i < Suc y * VGA_WIDTH) ?f s'" by (simp only:)
  qed
  then obtain vga where v: "for_loop 0 VGA_HEIGHT ?row ?t = Some (?t\<lparr>t_vga := vga\<rparr>)" "length vga = length (t_vga t)"
    "\<forall>i < length vga. vga ! i = (if i < 1600 then 0x20 else t_vga t ! i)" by (auto simp: painted_def)
  have "rows_of vga = replicate VGA_HEIGHT blank_row"
    by (rule rows_eqI) (use v(2,3) len in \<open>auto simp: blank_row_def\<close>)
  with v(1,2) len show ?thesis
    by (simp add: terminal_initialize_def terminal_update_cursor_def outb_def Let_def terminal_ok_def screen_of_def)
qed

lemma sign_bit_byte: "(c :: byte) < 0x80 \<longleftrightarrow> \<not> bit c 7"
proof -
  have "uint c < 256" using uint_lt2p [of c] by simp
  then have "uint c div 128 = (if uint c < 128 then 0 else 1)" by auto
  then have "bit (uint c) 7 \<longleftrightarrow> \<not> uint c < 128" by (simp add: bit_iff_odd)
  then show ?thesis by (simp add: word_less_alt bit_uint_iff)
qed

lemma high_byte_mask: "(0xFF00 :: u16) = push_bit 8 (mask 8)"
  by (simp add: mask_eq_exp_minus_1 push_bit_eq_mult)

section \<open>Properties\<close>

text \<open>
  C19: the terminal refines the screen. From a terminal in order, printing any string succeeds;
  the screen afterwards is the one that writing the characters to the rows one after the other
  gives, with wrapping at the end of a row, scrolling at the end of the screen and
  backspace; the position stays inside the screen and no cell outside of it changes.
\<close>

theorem print_refines:
  assumes "terminal_ok t" and "cstr_of str xs"
  shows "\<exists>t'. print t str = Some t' \<and> terminal_ok t' \<and> screen_of t' = fold (\<lambda>c s. sc_write s c 15) xs (screen_of t)
     \<and> drop (VGA_HEIGHT * VGA_WIDTH) (t_vga t') = drop (VGA_HEIGHT * VGA_WIDTH) (t_vga t)"
  using print_shows [OF assms] by (auto simp: shows_screen_def)

definition demo_terminal :: terminal where
  "demo_terminal = \<lparr>t_video_mem = 0xB8000, t_vga = replicate 2000 0x20, t_row = 19, t_col = 79, t_ports = []\<rparr>"

theorem print_refines_witness:
  "terminal_ok demo_terminal \<and> (\<exists>t'. print demo_terminal [0x41, 0x0A, 0] = Some t' \<and> terminal_ok t')"
proof -
  have "terminal_ok demo_terminal" "cstr_of [0x41, 0x0A, 0] [0x41, 0x0A]"
    by (simp_all add: terminal_ok_def demo_terminal_def cstr_of_def)
  with print_refines show ?thesis by blast
qed

text \<open>
  start-up of the terminal, and every state it can reach. After \<^verbatim>\<open>terminal_initialize\<close> on a
  video memory of at least 1600 cells the screen is blank, and after any sequence of
  characters in any colours the row is below 20 and the column below 80.
\<close>

lemma terminal_always_ok:
  assumes "VGA_HEIGHT * VGA_WIDTH \<le> length (t_vga t)"
  shows "\<exists>t1 t2. terminal_initialize t = Some t1
     \<and> screen_of t1 = \<lparr>sc_rows = replicate VGA_HEIGHT blank_row, sc_row = 0, sc_col = 0\<rparr>
     \<and> for_loop 0 (length cs) (\<lambda>i t. terminal_writechar t (fst (cs ! i)) (snd (cs ! i))) t1 = Some t2
     \<and> unat (t_row t2) < VGA_HEIGHT \<and> unat (t_col t2) < VGA_WIDTH"
proof -
  from initialize_shows [OF assms] obtain t1 where t1: "terminal_initialize t = Some t1" "terminal_ok t1"
    "screen_of t1 = \<lparr>sc_rows = replicate VGA_HEIGHT blank_row, sc_row = 0, sc_col = 0\<rparr>" by blast
  have "\<exists>t2. for_loop 0 (length cs) (\<lambda>i t. terminal_writechar t (fst (cs ! i)) (snd (cs ! i))) t1 = Some t2 \<and> terminal_ok t2"
  proof (rule for_loop_inv [where I = "\<lambda>_. terminal_ok"])
    fix i t assume "terminal_ok t"
    from writechar_shows [OF this] show "\<exists>t'. terminal_writechar t (fst (cs ! i)) (snd (cs ! i)) = Some t' \<and> terminal_ok t'"
      using shows_screenD(1) by blast
  qed (rule t1(2))
  with t1(1,3) show ?thesis by (auto simp: terminal_ok_def)
qed

text \<open>
  the colour of a cell. A cell written with an ASCII character has the character in its low
  byte and the colour in its high byte; a character from \<^verbatim>\<open>0x80\<close> on, which is negative as a
  \<^verbatim>\<open>char\<close>, sets all bits of the colour.
\<close>

theorem terminal_make_char_bytes:
  "terminal_make_char c colour =
     (if c < 0x80 then push_bit 8 (ucast colour) OR ucast c else 0xFF00 OR ucast c)"
proof (rule bit_word_eqI)
  fix n :: nat assume "n < LENGTH(16)"
  then have n: "n < 16" by simp
  have hi: "bit (0xFF00 :: u16) n \<longleftrightarrow> 8 \<le> n" using n by (auto simp: high_byte_mask bit_simps)
  have c: "bit c n \<Longrightarrow> n < 8" by (drule bit_imp_le_length) simp
  have mins: "min (n - 8) 7 = n - 8" "min n 7 = (if n < 8 then n else 7)" using n by (auto simp: min_def)
  have "bit (terminal_make_char c colour) n = (8 \<le> n \<and> bit colour (n - 8) \<or> bit c (if n < 8 then n else 7))"
    using n by (simp add: terminal_make_char_def bit_simps mins)
  also have "\<dots> = bit (if c < 0x80 then push_bit 8 (ucast colour) OR ucast c else 0xFF00 OR ucast c :: u16) n"
    using n hi c by (auto simp: bit_simps sign_bit_byte)
  finally show "bit (terminal_make_char c colour) n = bit (if c < 0x80 then push_bit 8 (ucast colour) OR ucast c else 0xFF00 OR ucast c :: u16) n" .
qed

end
