(* ===== verification/Gdt.thy ===== *)
theory Gdt
  imports Loops
begin

text \<open>
  The global descriptor table, \<^verbatim>\<open>src/src/gdt/gdt.c\<close>, and the table of segments of
  \<^verbatim>\<open>src/src/kernel.c\<close>. A descriptor is the eight bytes of \<^verbatim>\<open>struct gdt\<close>; the reference is the
  decoding of a descriptor by the processor.
\<close>

section \<open>Data\<close>

record gdt_structured =
  gs_base :: u32
  gs_limit :: u32
  gs_type :: byte

section \<open>Operations\<close>

text \<open>An argument that cannot be encoded makes the kernel panic, which does not return.\<close>

definition encodeGdtEntry :: "byte list \<Rightarrow> gdt_structured \<Rightarrow> byte list option" where
  "encodeGdtEntry target source =
     (if gs_limit source > 65536 \<and> gs_limit source AND 0xFFF \<noteq> 0xFFF then None
      else if length target < 8 then None
      else do {
        let big = gs_limit source > 65536;
        let limit = (if big then drop_bit 12 (gs_limit source) else gs_limit source);
        let t6 = (if big then 0xC0 else 0x40 :: byte);
        let target = target[6 := t6];
        let target = target[0 := ucast (limit AND 0xFF)];
        let target = target[1 := ucast (drop_bit 8 limit AND 0xFF)];
        let target = target[6 := t6 OR ucast (drop_bit 16 limit AND 0x0F)];
        let target = target[2 := ucast (gs_base source AND 0xFF)];
        let target = target[3 := ucast (drop_bit 8 (gs_base source) AND 0xFF)];
        let target = target[4 := ucast (drop_bit 16 (gs_base source) AND 0xFF)];
        let target = target[7 := ucast (drop_bit 24 (gs_base source) AND 0xFF)];
        Some (target[5 := gs_type source])
      })"

text \<open>The array of descriptors is an array of entries of eight bytes.\<close>

definition gdt_structured_to_gdt :: "byte list list \<Rightarrow> gdt_structured list \<Rightarrow> nat \<Rightarrow> byte list list option" where
  "gdt_structured_to_gdt gdt structured_gdt total_entries =
     for_loop 0 total_entries (\<lambda>i gdt.
       if i < length gdt \<and> i < length structured_gdt
       then do { e \<leftarrow> encodeGdtEntry (gdt ! i) (structured_gdt ! i); Some (gdt[i := e]) }
       else None) gdt"

text \<open>The table of the kernel; \<open>tss\<close> is the address of the task state segment, of 100 bytes.\<close>

definition kernel_gdt :: "u32 \<Rightarrow> gdt_structured list" where
  "kernel_gdt tss = [
     \<lparr>gs_base = 0, gs_limit = 0, gs_type = 0\<rparr>,
     \<lparr>gs_base = 0, gs_limit = 0xffffffff, gs_type = 0x9a\<rparr>,
     \<lparr>gs_base = 0, gs_limit = 0xffffffff, gs_type = 0x92\<rparr>,
     \<lparr>gs_base = 0, gs_limit = 0xffffffff, gs_type = 0xf8\<rparr>,
     \<lparr>gs_base = 0, gs_limit = 0xffffffff, gs_type = 0xf2\<rparr>,
     \<lparr>gs_base = tss, gs_limit = 100, gs_type = 0xE9\<rparr>]"

section \<open>Decoding\<close>

text \<open>
  What the processor reads from a descriptor: the base from bytes 2, 3, 4 and 7, twenty bits
  of limit from bytes 0, 1 and 6, in units of 4096 bytes if the granularity bit is set.
\<close>

definition gdt_base :: "byte list \<Rightarrow> u32" where
  "gdt_base t = ucast (t ! 2) OR push_bit 8 (ucast (t ! 3)) OR push_bit 16 (ucast (t ! 4)) OR push_bit 24 (ucast (t ! 7))"

definition gdt_limit :: "byte list \<Rightarrow> u32" where
  "gdt_limit t = (
     let l = ucast (t ! 0) OR push_bit 8 (ucast (t ! 1)) OR push_bit 16 (ucast (t ! 6 AND 0x0F)) in
     if bit (t ! 6) 7 then push_bit 12 l OR 0xFFF else l)"

definition gdt_decode :: "byte list \<Rightarrow> gdt_structured" where
  "gdt_decode t = \<lparr>gs_base = gdt_base t, gs_limit = gdt_limit t, gs_type = t ! 5\<rparr>"

lemma masks: "(0xFF :: u32) = mask 8" "(0x0F :: u32) = mask 4" "(0x0F :: byte) = mask 4" "(0xFFF :: u32) = mask 12"
  by (simp_all add: mask_eq_exp_minus_1)

text \<open>The four low bits of a byte and a whole byte, widened again.\<close>

lemma byte_of: "ucast (ucast (w AND 0xFF) :: byte) = take_bit 8 (w :: u32)"
  by (rule bit_word_eqI) (auto simp: masks bit_simps)

lemma nibble_of:
  assumes "t6 AND 0x0F = (0 :: byte)"
  shows "ucast ((t6 OR ucast (w AND 0x0F)) AND 0x0F) = take_bit 4 (w :: u32)"
proof -
  have "(t6 OR ucast (w AND 0x0F)) AND 0x0F = (ucast (w AND 0x0F) AND 0x0F :: byte)"
    using assms by (simp add: bit.conj_disj_distrib2)
  also have "\<dots> = ucast (take_bit 4 w)" by (rule bit_word_eqI) (auto simp: masks bit_simps)
  finally show ?thesis by (simp only:) (rule bit_word_eqI, auto simp: bit_simps)
qed

lemma base_bytes:
  "take_bit 8 w OR push_bit 8 (take_bit 8 (drop_bit 8 w)) OR push_bit 16 (take_bit 8 (drop_bit 16 w))
     OR push_bit 24 (take_bit 8 (drop_bit 24 w)) = (w :: u32)" (is "?l = w")
proof (rule bit_word_eqI)
  fix n :: nat assume n: "n < LENGTH(32)"
  consider "n < 8" | "8 \<le> n" "n < 16" | "16 \<le> n" "n < 24" | "24 \<le> n" by linarith
  then show "bit ?l n = bit w n" using n by cases (auto simp: bit_simps)
qed

text \<open>A limit of at most twenty bits is the union of its two low bytes and the next four bits.\<close>

lemma limit_bytes:
  assumes "drop_bit 20 (l :: u32) = 0"
  shows "take_bit 8 l OR push_bit 8 (take_bit 8 (drop_bit 8 l)) OR push_bit 16 (take_bit 4 (drop_bit 16 l)) = l" (is "?l = l")
proof (rule bit_word_eqI)
  fix n :: nat assume n: "n < LENGTH(32)"
  have hi: "\<not> bit l n" if "20 \<le> n"
  proof -
    have "bit (drop_bit 20 l) (n - 20) = bit l n" using that by (simp add: bit_drop_bit_eq)
    with assms show ?thesis by simp
  qed
  consider "n < 8" | "8 \<le> n" "n < 16" | "16 \<le> n" "n < 20" | "20 \<le> n" by linarith
  then show "bit ?l n = bit l n" using n hi by cases (auto simp: bit_simps)
qed

lemma small_limit:
  assumes "\<not> (l :: u32) > 65536"
  shows "drop_bit 20 l = 0"
proof -
  have "unat l \<le> 65536" using assms by (simp add: word_less_nat_alt word_le_nat_alt not_less)
  then have "unat (drop_bit 20 l) = 0" by (simp add: unat_div drop_bit_eq_div)
  then show ?thesis by (simp add: unat_eq_0)
qed

lemma page_limit:
  assumes "(l :: u32) AND 0xFFF = 0xFFF"
  shows "push_bit 12 (drop_bit 12 l) OR 0xFFF = l"
proof -
  have "push_bit 12 (drop_bit 12 l) OR take_bit 12 l = l" by (rule bit_word_eqI) (auto simp: bit_simps)
  moreover have "take_bit 12 l = 0xFFF" using assms by (simp add: masks take_bit_eq_mask)
  ultimately show ?thesis by simp
qed

lemma flag_bits: "(0x40 :: byte) AND 0x0F = 0" "(0xC0 :: byte) AND 0x0F = 0"
  "\<not> bit ((0x40 :: byte) OR ucast (w AND 0x0F :: u32)) 7" "bit ((0xC0 :: byte) OR ucast (w AND 0x0F :: u32)) 7"
  by (simp_all add: masks(2) bit_simps)

lemma drop_bit_32: "drop_bit 20 (drop_bit 12 (l :: u32)) = 0"
  by (rule bit_word_eqI) (simp add: bit_simps bit_imp_le_length)

text \<open>The limits that do not make the encoder panic.\<close>

definition encodable :: "gdt_structured \<Rightarrow> bool" where
  "encodable source \<longleftrightarrow> gs_limit source \<le> 65536 \<or> gs_limit source AND 0xFFF = 0xFFF"

lemma encode_roundtrip:
  assumes "length target = 8" and "encodable source"
  shows "\<exists>target'. encodeGdtEntry target source = Some target' \<and> length target' = 8 \<and> gdt_decode target' = source"
proof -
  obtain a b c d e f g h where t: "target = [a, b, c, d, e, f, g, h]"
    using assms(1) by (auto simp: length_Suc_conv numeral_eq_Suc)
  show ?thesis
  proof (cases "gs_limit source > 65536")
    case True
    with assms(2) have "gs_limit source AND 0xFFF = 0xFFF" unfolding encodable_def by (metis leD)
    define l where "l = drop_bit 12 (gs_limit source)"
    have l: "drop_bit 20 l = 0" "push_bit 12 l OR 0xFFF = gs_limit source"
      using page_limit [OF \<open>gs_limit source AND 0xFFF = 0xFFF\<close>] by (simp_all add: l_def drop_bit_32 del: drop_bit_drop_bit)
    show ?thesis using True \<open>gs_limit source AND 0xFFF = 0xFFF\<close> l unfolding encodeGdtEntry_def t
      by (simp add: l_def [symmetric] gdt_decode_def gdt_base_def gdt_limit_def Let_def byte_of nibble_of flag_bits base_bytes limit_bytes)
  next
    case False
    then show ?thesis unfolding encodeGdtEntry_def t
      by (simp add: gdt_decode_def gdt_base_def gdt_limit_def Let_def byte_of nibble_of flag_bits base_bytes limit_bytes small_limit)
  qed
qed

lemma gdt_table_run:
  assumes "length gdt = length segs" and "list_all (\<lambda>e. length e = 8) gdt" and "list_all encodable segs"
  shows "\<exists>gdt'. gdt_structured_to_gdt gdt segs (length segs) = Some gdt' \<and> map gdt_decode gdt' = segs"
proof -
  let ?f = "\<lambda>i gdt. if i < length gdt \<and> i < length segs
       then do { e \<leftarrow> encodeGdtEntry (gdt ! i) (segs ! i); Some (gdt[i := e]) } else None"
  let ?I = "\<lambda>i g. length g = length segs \<and> (\<forall>j < length segs. length (g ! j) = 8) \<and> (\<forall>j < i. gdt_decode (g ! j) = segs ! j)"
  have "\<exists>gdt'. for_loop 0 (length segs) ?f gdt = Some gdt' \<and> ?I (0 + length segs) gdt'"
  proof (rule for_loop_inv)
    show "?I 0 gdt" using assms(1,2) by (simp add: list_all_length)
    fix i g assume i: "i < 0 + length segs" "?I i g"
    then have "length (g ! i) = 8" "encodable (segs ! i)" using assms(3) by (simp_all add: list_all_length)
    from encode_roundtrip [OF this] obtain e where
      "encodeGdtEntry (g ! i) (segs ! i) = Some e" "length e = 8" "gdt_decode e = segs ! i" by blast
    with i show "\<exists>g'. ?f i g = Some g' \<and> ?I (Suc i) g'"
      by (intro exI [of _ "g[i := e]"]) (auto simp: nth_list_update less_Suc_eq)
  qed
  then obtain gdt' where g: "for_loop 0 (length segs) ?f gdt = Some gdt'" "?I (length segs) gdt'" by auto
  then have "map gdt_decode gdt' = segs" by (intro nth_equalityI) simp_all
  with g(1) show ?thesis by (simp add: gdt_structured_to_gdt_def)
qed

end
