(* ===== verification/Keyboard_Buffer.thy ===== *)
theory Keyboard_Buffer
  imports Loops
begin

text \<open>
  The keyboard: the scan codes of \<^verbatim>\<open>src/src/keyboard/classic.c\<close>, the list of keyboards and the
  ring buffer that every process has, \<^verbatim>\<open>src/src/keyboard/keyboard.c\<close>. The operations on the
  buffer are given on the buffer; which process they apply to is in the theory of processes.
  The ring buffer refines a queue, whose contract is the locale \<open>fifo\<close>.
\<close>

section \<open>Data\<close>

abbreviation (input) PEACHOS_KEYBOARD_BUFFER_SIZE :: nat where "PEACHOS_KEYBOARD_BUFFER_SIZE \<equiv> 1024"

text \<open>
  \<^verbatim>\<open>struct keyboard_buffer\<close>. The counters are \<^verbatim>\<open>int\<close>s that only grow; the remainder by the
  unsigned size of the buffer converts them to 32-bit unsigned numbers.
\<close>

record keyboard_buffer =
  kb_buffer :: "byte list"
  kb_tail :: u32
  kb_head :: u32

text \<open>\<^verbatim>\<open>struct keyboard\<close>: the function \<^verbatim>\<open>init\<close>, null or what it does to the ports and returns.\<close>

record keyboard =
  ky_init :: "(port_log \<Rightarrow> int \<times> port_log) option"
  ky_name :: "byte list"

text \<open>The list from \<^verbatim>\<open>keyboard_list_head\<close> along \<^verbatim>\<open>next\<close>; its last element is \<^verbatim>\<open>keyboard_list_last\<close>.\<close>

record keyboards =
  kl_list :: "keyboard list"
  kl_ports :: port_log

section \<open>Operations\<close>

definition keyboard_insert :: "keyboards \<Rightarrow> keyboard \<Rightarrow> int \<times> keyboards" where
  "keyboard_insert s keyboard =
     (case ky_init keyboard of
        None \<Rightarrow> (- EINVARG, s)
      | Some init \<Rightarrow> (
          let s1 = s\<lparr>kl_list := kl_list s @ [keyboard]\<rparr>; (res, ports) = init (kl_ports s1) in
          (res, s1\<lparr>kl_ports := ports\<rparr>)))"

text \<open>\<^verbatim>\<open>classic_keyboard_init\<close> enables the first port of the controller.\<close>

definition classic_keyboard_init :: "port_log \<Rightarrow> int \<times> port_log" where
  "classic_keyboard_init ports = (0, ports @ [(0x64, 0xAE)])"

definition classic_init :: keyboard where
  "classic_init = \<lparr>ky_init = Some classic_keyboard_init, ky_name = [0x43, 0x6C, 0x61, 0x73, 0x73, 0x69, 0x63] @ replicate 13 0\<rparr>"

definition keyboard_init :: "keyboards \<Rightarrow> keyboards" where
  "keyboard_init s = snd (keyboard_insert s classic_init)"

definition keyboard_scan_set_one :: "byte list" where
  "keyboard_scan_set_one = [
     0x00, 0x1B, 0x31, 0x32, 0x33, 0x34, 0x35,
     0x36, 0x37, 0x38, 0x39, 0x30, 0x2D, 0x3D,
     0x08, 0x09, 0x51, 0x57, 0x45, 0x52, 0x54,
     0x59, 0x55, 0x49, 0x4F, 0x50, 0x5B, 0x5D,
     0x0D, 0x00, 0x41, 0x53, 0x44, 0x46, 0x47,
     0x48, 0x4A, 0x4B, 0x4C, 0x3B, 0x27, 0x60,
     0x00, 0x5C, 0x5A, 0x58, 0x43, 0x56, 0x42,
     0x4E, 0x4D, 0x2C, 0x2E, 0x2F, 0x00, 0x2A,
     0x00, 0x20, 0x00, 0x00, 0x00, 0x00,
     0x00, 0x00, 0x00, 0x00, 0x00, 0x00,
     0x00, 0x37, 0x38, 0x39, 0x2D, 0x34, 0x35,
     0x36, 0x2B, 0x31, 0x32, 0x33, 0x30, 0x2E]"

text \<open>The guard lets the index one past the end of the table through.\<close>

definition classic_keyboard_scancode_to_char :: "byte \<Rightarrow> byte option" where
  "classic_keyboard_scancode_to_char scancode = (
     let size_of_keyboard_set_one = length keyboard_scan_set_one in
     if unat scancode > size_of_keyboard_set_one then Some 0
     else if unat scancode < length keyboard_scan_set_one then Some (keyboard_scan_set_one ! unat scancode)
     else None)"

text \<open>
  The handler up to the call of \<^verbatim>\<open>keyboard_push\<close>: the character it pushes, or none. The
  comparisons with the letters are of signed \<^verbatim>\<open>char\<close>s.
\<close>

definition classic_key :: "byte \<Rightarrow> byte option option" where
  "classic_key scancode =
     (if scancode AND 0x80 \<noteq> 0 then Some None
      else do {
        c \<leftarrow> classic_keyboard_scancode_to_char scancode;
        Some (if c = 0 then None
              else if sint c \<ge> 0x41 \<and> sint c \<le> 0x5A then Some (c + 32) else Some c)
      })"

definition keyboard_get_tail_index :: "keyboard_buffer \<Rightarrow> nat" where
  "keyboard_get_tail_index k = unat (kb_tail k) mod PEACHOS_KEYBOARD_BUFFER_SIZE"

definition kb_backspace :: "keyboard_buffer \<Rightarrow> keyboard_buffer" where
  "kb_backspace k = (
     let k1 = k\<lparr>kb_tail := kb_tail k - 1\<rparr>; real_index = keyboard_get_tail_index k1 in
     k1\<lparr>kb_buffer := (kb_buffer k1)[real_index := 0]\<rparr>)"

definition kb_push :: "keyboard_buffer \<Rightarrow> byte \<Rightarrow> keyboard_buffer" where
  "kb_push k c = (
     let real_index = keyboard_get_tail_index k in
     k\<lparr>kb_buffer := (kb_buffer k)[real_index := c], kb_tail := kb_tail k + 1\<rparr>)"

definition kb_pop :: "keyboard_buffer \<Rightarrow> byte \<times> keyboard_buffer" where
  "kb_pop k = (
     let real_index = unat (kb_head k) mod PEACHOS_KEYBOARD_BUFFER_SIZE; c = kb_buffer k ! real_index in
     if c = 0 then (0, k)
     else (c, k\<lparr>kb_buffer := (kb_buffer k)[real_index := 0], kb_head := kb_head k + 1\<rparr>))"

section \<open>Queues\<close>

text \<open>
  The contract of a bounded queue: \<open>content\<close> are its elements, the oldest first; \<open>get\<close> of an
  empty queue answers \<open>none\<close>. Only elements with \<open>ok\<close> are put.
\<close>

locale fifo =
  fixes inv :: "'s \<Rightarrow> bool" and content :: "'s \<Rightarrow> 'a list" and cap :: nat and ok :: "'a \<Rightarrow> bool" and none :: 'a
    and put :: "'s \<Rightarrow> 'a \<Rightarrow> 's" and get :: "'s \<Rightarrow> 'a \<times> 's"
  assumes put_inv: "inv s \<Longrightarrow> ok a \<Longrightarrow> length (content s) < cap \<Longrightarrow> inv (put s a)"
    and put_content: "inv s \<Longrightarrow> ok a \<Longrightarrow> length (content s) < cap \<Longrightarrow> content (put s a) = content s @ [a]"
    and get_empty: "inv s \<Longrightarrow> content s = [] \<Longrightarrow> get s = (none, s)"
    and get_inv: "inv s \<Longrightarrow> content s = a # as \<Longrightarrow> inv (snd (get s))"
    and get_content: "inv s \<Longrightarrow> content s = a # as \<Longrightarrow> fst (get s) = a \<and> content (snd (get s)) = as"

text \<open>
  A history of a queue: \<open>Some a\<close> puts \<open>a\<close>, \<open>None\<close> gets an element. The answers of a history to
  the gets, on an implementation and on a list.
\<close>

fun impl_answers :: "('s \<Rightarrow> 'a \<Rightarrow> 's) \<Rightarrow> ('s \<Rightarrow> 'a \<times> 's) \<Rightarrow> 's \<Rightarrow> 'a option list \<Rightarrow> 'a list" where
  "impl_answers put get s [] = []"
| "impl_answers put get s (Some a # es) = impl_answers put get (put s a) es"
| "impl_answers put get s (None # es) = fst (get s) # impl_answers put get (snd (get s)) es"

fun queue_answers :: "'a \<Rightarrow> 'a list \<Rightarrow> 'a option list \<Rightarrow> 'a list" where
  "queue_answers none q [] = []"
| "queue_answers none q (Some a # es) = queue_answers none (q @ [a]) es"
| "queue_answers none [] (None # es) = none # queue_answers none [] es"
| "queue_answers none (a # q) (None # es) = a # queue_answers none q es"

text \<open>\<open>fits cap n es\<close>: the history, from a queue with \<open>n\<close> elements, never has more than \<open>cap\<close>.\<close>

fun fits :: "nat \<Rightarrow> nat \<Rightarrow> 'a option list \<Rightarrow> bool" where
  "fits cap n [] = True"
| "fits cap n (Some a # es) = (n < cap \<and> fits cap (Suc n) es)"
| "fits cap n (None # es) = fits cap (n - 1) es"

context fifo
begin

text \<open>Every history that fits is answered as a queue answers it.\<close>

lemma answers_refine:
  assumes "inv s" and "fits cap (length (content s)) es" and "\<forall>a. Some a \<in> set es \<longrightarrow> ok a"
  shows "impl_answers put get s es = queue_answers none (content s) es"
  using assms
proof (induction es arbitrary: s)
  case (Cons e es)
  show ?case
  proof (cases e)
    case None
    show ?thesis
    proof (cases "content s")
      case Nil
      with Cons None get_empty [OF Cons.prems(1)] show ?thesis by simp
    next
      case c: (Cons a as)
      with Cons None get_inv [OF Cons.prems(1) c] get_content [OF Cons.prems(1) c] show ?thesis by simp
    qed
  next
    case (Some a)
    with Cons.prems have ok: "ok a" "length (content s) < cap" by simp_all
    with Cons Some put_inv [OF Cons.prems(1) ok] put_content [OF Cons.prems(1) ok] show ?thesis by simp
  qed
qed simp

end

section \<open>The ring buffer\<close>

text \<open>The number of characters in the buffer, the characters, and the invariant: unused slots are 0.\<close>

definition kb_count :: "keyboard_buffer \<Rightarrow> nat" where
  "kb_count k = unat (kb_tail k - kb_head k)"

definition kb_slot :: "keyboard_buffer \<Rightarrow> nat \<Rightarrow> nat" where
  "kb_slot k i = (unat (kb_head k) + i) mod PEACHOS_KEYBOARD_BUFFER_SIZE"

definition kb_content :: "keyboard_buffer \<Rightarrow> byte list" where
  "kb_content k = map (\<lambda>i. kb_buffer k ! kb_slot k i) [0..<kb_count k]"

definition kb_inv :: "keyboard_buffer \<Rightarrow> bool" where
  "kb_inv k \<longleftrightarrow> length (kb_buffer k) = PEACHOS_KEYBOARD_BUFFER_SIZE \<and> kb_count k \<le> PEACHOS_KEYBOARD_BUFFER_SIZE
     \<and> (\<forall>i < PEACHOS_KEYBOARD_BUFFER_SIZE. kb_buffer k ! kb_slot k i = 0 \<longleftrightarrow> kb_count k \<le> i)"

lemma unat_add_mod: "unat ((w :: u32) + v) mod 1024 = (unat w + unat v) mod 1024"
  by (simp add: unat_word_ariths mod_mod_cancel)

lemma slot_less [simp]: "kb_slot k i < 1024"
  by (simp add: kb_slot_def)

lemma slot_inj_le: "i \<le> j \<Longrightarrow> j < 1024 \<Longrightarrow> kb_slot k i = kb_slot k j \<Longrightarrow> i = j"
proof -
  assume a: "i \<le> j" "j < 1024" "kb_slot k i = kb_slot k j"
  then have "1024 dvd (unat (kb_head k) + j) - (unat (kb_head k) + i)"
    unfolding kb_slot_def by (subst mod_eq_dvd_iff_nat [symmetric]) simp_all
  then have "1024 dvd j - i" by simp
  moreover have "j - i < 1024" using a by simp
  ultimately show "i = j" using a(1) by (auto dest: dvd_imp_le)
qed

lemma slot_inj: "i < 1024 \<Longrightarrow> j < 1024 \<Longrightarrow> kb_slot k i = kb_slot k j \<longleftrightarrow> i = j"
  using slot_inj_le [of i j k] slot_inj_le [of j i k] by (cases "i \<le> j") auto

lemma tail_slot: "keyboard_get_tail_index k = kb_slot k (kb_count k)"
proof -
  have "kb_tail k = kb_head k + (kb_tail k - kb_head k)" by simp
  then have "unat (kb_tail k) mod 1024 = (unat (kb_head k) + unat (kb_tail k - kb_head k)) mod 1024"
    using unat_add_mod [of "kb_head k" "kb_tail k - kb_head k"] by simp
  then show ?thesis by (simp add: keyboard_get_tail_index_def kb_slot_def kb_count_def)
qed

lemma head_slot: "unat (kb_head k) mod 1024 = kb_slot k 0"
  by (simp add: kb_slot_def)

lemma push_facts:
  assumes "kb_inv k" and "kb_count k < 1024"
  shows "kb_count (kb_push k c) = Suc (kb_count k)" "kb_slot (kb_push k c) i = kb_slot k i"
    "i < 1024 \<Longrightarrow> kb_buffer (kb_push k c) ! kb_slot k i = (if i = kb_count k then c else kb_buffer k ! kb_slot k i)"
proof -
  have eq: "kb_tail k + 1 - kb_head k = (kb_tail k - kb_head k) + 1" by simp
  have "unat ((kb_tail k - kb_head k) + 1) = Suc (unat (kb_tail k - kb_head k))"
    using assms(2) unfolding kb_count_def by (subst unat_add_lem [THEN iffD1]) simp_all
  then show "kb_count (kb_push k c) = Suc (kb_count k)" unfolding kb_count_def kb_push_def Let_def by (simp add: eq)
  show "kb_slot (kb_push k c) i = kb_slot k i" by (simp add: kb_slot_def kb_push_def Let_def)
  show "kb_buffer (kb_push k c) ! kb_slot k i = (if i = kb_count k then c else kb_buffer k ! kb_slot k i)" if "i < 1024"
    using that assms slot_inj [of i "kb_count k" k]
    by (auto simp: kb_push_def Let_def tail_slot kb_inv_def nth_list_update)
qed

lemma push_inv: "kb_inv k \<Longrightarrow> c \<noteq> 0 \<Longrightarrow> kb_count k < 1024 \<Longrightarrow> kb_inv (kb_push k c)"
  using push_facts [of k] by (auto simp: kb_inv_def) (simp_all add: kb_push_def Let_def)

lemma push_content: "kb_inv k \<Longrightarrow> kb_count k < 1024 \<Longrightarrow> kb_content (kb_push k c) = kb_content k @ [c]"
  by (simp add: kb_content_def push_facts)

lemma pop_empty: "kb_inv k \<Longrightarrow> kb_count k = 0 \<Longrightarrow> kb_pop k = (0, k)"
  by (simp add: kb_pop_def kb_inv_def head_slot)

lemma pop_facts:
  assumes "kb_inv k" and "0 < kb_count k"
  shows "fst (kb_pop k) = kb_buffer k ! kb_slot k 0" "kb_count (snd (kb_pop k)) = kb_count k - 1"
    "kb_slot (snd (kb_pop k)) i = kb_slot k (Suc i)" "length (kb_buffer (snd (kb_pop k))) = length (kb_buffer k)"
    "i < 1024 \<Longrightarrow> kb_buffer (snd (kb_pop k)) ! kb_slot k i = (if i = 0 then 0 else kb_buffer k ! kb_slot k i)"
proof -
  have nz: "kb_buffer k ! kb_slot k 0 \<noteq> 0" using assms by (simp add: kb_inv_def)
  then have eq: "kb_pop k = (kb_buffer k ! kb_slot k 0, k\<lparr>kb_buffer := (kb_buffer k)[kb_slot k 0 := 0], kb_head := kb_head k + 1\<rparr>)"
    by (simp add: kb_pop_def head_slot Let_def)
  show "fst (kb_pop k) = kb_buffer k ! kb_slot k 0" "length (kb_buffer (snd (kb_pop k))) = length (kb_buffer k)" by (simp_all add: eq)
  have d: "kb_tail k - (kb_head k + 1) = (kb_tail k - kb_head k) - 1" by simp
  have "kb_tail k - kb_head k \<noteq> 0" using assms(2) by (auto simp: kb_count_def)
  from unat_minus_one [OF this] show "kb_count (snd (kb_pop k)) = kb_count k - 1" unfolding eq kb_count_def by (simp add: d)
  show "kb_slot (snd (kb_pop k)) i = kb_slot k (Suc i)"
    using unat_add_mod [of "kb_head k" 1] by (simp add: eq kb_slot_def) (metis add.commute add_Suc_right mod_add_left_eq plus_1_eq_Suc)
  show "kb_buffer (snd (kb_pop k)) ! kb_slot k i = (if i = 0 then 0 else kb_buffer k ! kb_slot k i)" if "i < 1024"
    using that assms(1) slot_inj [of i 0 k] by (auto simp: eq kb_inv_def nth_list_update)
qed

lemma pop_inv:
  assumes "kb_inv k" and "0 < kb_count k"
  shows "kb_inv (snd (kb_pop k))"
proof -
  note F = pop_facts [OF assms]
  have "kb_buffer (snd (kb_pop k)) ! kb_slot k (Suc i) = 0 \<longleftrightarrow> kb_count k - 1 \<le> i" if "i < 1024" for i
  proof (cases "i = 1023")
    case True
    then have "kb_slot k (Suc i) = kb_slot k 0" by (simp add: kb_slot_def)
    with F(5) [of 0] assms(1) True show ?thesis by (auto simp: kb_inv_def)
  next
    case False
    with that F(5) [of "Suc i"] assms show ?thesis by (auto simp: kb_inv_def)
  qed
  with F(2-4) assms(1) show ?thesis by (auto simp: kb_inv_def)
qed

lemma pop_content:
  assumes "kb_inv k" and "kb_content k = a # as"
  shows "fst (kb_pop k) = a" "kb_content (snd (kb_pop k)) = as"
proof -
  have n: "0 < kb_count k" using assms(2) by (cases "kb_count k") (simp_all add: kb_content_def)
  note F = pop_facts [OF assms(1) n]
  have up: "[0..<kb_count k] = 0 # map Suc [0..<kb_count k - 1]" using n by (simp add: map_Suc_upt upt_conv_Cons)
  then have "kb_content k = kb_buffer k ! kb_slot k 0 # map (\<lambda>i. kb_buffer k ! kb_slot k (Suc i)) [0..<kb_count k - 1]"
    by (simp add: kb_content_def comp_def)
  moreover have "kb_buffer (snd (kb_pop k)) ! kb_slot k (Suc i) = kb_buffer k ! kb_slot k (Suc i)" if "i < kb_count k - 1" for i
    using that F(5) [of "Suc i"] assms(1) by (auto simp: kb_inv_def)
  then have "kb_content (snd (kb_pop k)) = map (\<lambda>i. kb_buffer k ! kb_slot k (Suc i)) [0..<kb_count k - 1]"
    by (simp add: kb_content_def F)
  ultimately show "fst (kb_pop k) = a" "kb_content (snd (kb_pop k)) = as" using assms(2) F(1) by simp_all
qed

lemma length_content [simp]: "length (kb_content k) = kb_count k"
  by (simp add: kb_content_def)

interpretation ring: fifo kb_inv kb_content 1024 "\<lambda>c. c \<noteq> 0" 0 kb_push kb_pop
proof unfold_locales
  fix k :: keyboard_buffer and a :: byte and as
  show "kb_inv k \<Longrightarrow> a \<noteq> 0 \<Longrightarrow> length (kb_content k) < 1024 \<Longrightarrow> kb_inv (kb_push k a)" by (simp add: push_inv)
  show "kb_inv k \<Longrightarrow> a \<noteq> 0 \<Longrightarrow> length (kb_content k) < 1024 \<Longrightarrow> kb_content (kb_push k a) = kb_content k @ [a]"
    by (simp add: push_content)
  show "kb_inv k \<Longrightarrow> kb_content k = [] \<Longrightarrow> kb_pop k = (0, k)" by (metis length_content list.size(3) pop_empty)
  show "kb_inv k \<Longrightarrow> kb_content k = a # as \<Longrightarrow> kb_inv (snd (kb_pop k))"
    by (metis length_content length_greater_0_conv list.distinct(1) pop_inv)
  show "kb_inv k \<Longrightarrow> kb_content k = a # as \<Longrightarrow> fst (kb_pop k) = a \<and> kb_content (snd (kb_pop k)) = as"
    using pop_content by blast
qed

definition kb_new :: keyboard_buffer where
  "kb_new = \<lparr>kb_buffer = replicate 1024 0, kb_tail = 0, kb_head = 0\<rparr>"

lemma kb_new_facts: "kb_inv kb_new" "kb_content kb_new = []"
  by (simp_all add: kb_new_def kb_inv_def kb_content_def kb_count_def)

section \<open>The table of characters\<close>

definition key_of :: "byte \<Rightarrow> byte option" where
  "key_of c = (if c = 0 then None else if sint c \<ge> 0x41 \<and> sint c \<le> 0x5A then Some (c + 32) else Some c)"

lemma scan_set_length: "length keyboard_scan_set_one = 82"
  by (simp add: keyboard_scan_set_one_def)

text \<open>
  The keys of an American keyboard in scan code set 1: a scan code and the characters, without shift, of the keys from there on. The last row is
  the number pad.
\<close>

definition us_rows :: "(nat \<times> string) list" where
  "us_rows = [(0x01, [CHR 0x1B]), (0x02, ''1234567890-=''), (0x0E, [CHR 0x08, CHR 0x09]), (0x10, ''qwertyuiop[]''), (0x1C, [CHR 0x0D]),
     (0x1E, ''asdfghjkl;'' @ [CHR 0x27, CHR 0x60]), (0x2B, CHR 0x5C # ''zxcvbnm,./''), (0x37, ''*''), (0x39, '' ''), (0x47, ''789-456+1230.'')]"

definition us_key :: "nat \<Rightarrow> byte option" where
  "us_key n = map_of (concat (map (\<lambda>(i, cs). zip [i..<i + length cs] (map of_char cs)) us_rows)) n"

text \<open>The character at a scan code by the table of the code, which leaves out two keys in front of the number pad.\<close>

definition table_key :: "nat \<Rightarrow> byte option" where
  "table_key n = us_key (if n < 0x45 then n else n + 2)"

lemma scan_set_keys: "list_all (\<lambda>n. key_of (keyboard_scan_set_one ! n) = table_key n) [0..<82]"
  by code_simp

lemma scan_set_nonzero: "list_all (\<lambda>c. key_of c \<noteq> Some 0) keyboard_scan_set_one"
  by (simp add: keyboard_scan_set_one_def key_of_def)

lemma table_key_end: "82 \<le> n \<Longrightarrow> table_key n = None"
  by (auto simp: table_key_def us_key_def us_rows_def map_of_eq_None_iff)

section \<open>Properties\<close>

text \<open>
  C18: the ring buffer refines a queue. From a buffer in order, every history of key presses and
  reads in which at most 1024 characters wait at a time is answered as a first-in-first-out
  queue answers it, and a read of an empty buffer gives 0; the counters may wrap around.
\<close>

theorem keyboard_refines_queue:
  assumes "kb_inv k" and "fits 1024 (length (kb_content k)) es" and "\<forall>c. Some c \<in> set es \<longrightarrow> c \<noteq> 0"
  shows "impl_answers kb_push kb_pop k es = queue_answers 0 (kb_content k) es"
  by (rule ring.answers_refine [OF assms])

theorem keyboard_refines_queue_witness:
  "impl_answers kb_push kb_pop kb_new [Some 0x61, Some 0x62, None, None, None] = [0x61, 0x62, 0]"
  using keyboard_refines_queue [OF kb_new_facts(1), of "[Some 0x61, Some 0x62, None, None, None]"]
  by (simp add: kb_new_facts(2))

text \<open>
  C37: the buffer has no overflow check. When 1024 characters wait, the next key press overwrites
  the oldest one, and the next read returns the newest character, ahead of the 1023 older
  ones.
\<close>

theorem keyboard_overrun:
  assumes "kb_inv k" and "length (kb_content k) = 1024" and "c \<noteq> 0"
  shows "fst (kb_pop (kb_push k c)) = c"
proof -
  have "kb_count k = 1024" using assms(2) by simp
  then have "keyboard_get_tail_index k = kb_slot k 0" by (simp add: tail_slot kb_slot_def)
  moreover have "unat (kb_head (kb_push k c)) mod 1024 = kb_slot k 0" by (simp add: kb_push_def Let_def head_slot)
  ultimately have "kb_buffer (kb_push k c) ! (unat (kb_head (kb_push k c)) mod 1024) = c"
    using assms(1) by (simp add: kb_push_def Let_def kb_inv_def)
  then show ?thesis using assms(3) by (simp add: kb_pop_def Let_def)
qed

theorem keyboard_overrun_witness:
  "fst (kb_pop (kb_push \<lparr>kb_buffer = replicate 1024 0x61, kb_tail = 1024, kb_head = 0\<rparr> 0x62)) = 0x62"
proof -
  let ?k = "\<lparr>kb_buffer = replicate 1024 0x61, kb_tail = 1024, kb_head = 0\<rparr>"
  have "kb_inv ?k" "length (kb_content ?k) = 1024" by (simp_all add: kb_inv_def kb_count_def kb_slot_def)
  from keyboard_overrun [OF this, of "0x62"] show ?thesis by simp
qed

text \<open>
  C38: the keys. Up to scan code 0x44 the handler of the keyboard pushes exactly the character that an American keyboard has at the key, in
  lower case, and nothing for a key without a character. From 0x45 on it pushes the character of the key two places further on: the table has no
  entries for the two lock keys in front of the number pad, so that the key 7 of the pad types 9, the key 8 types - and the lock key 0x45 types 7. Codes behind the table and the
  release of a key push nothing, but for scan code 82, just past the table, the guard lets an access past its end through.
\<close>

theorem classic_key_cases:
  "classic_key scancode = (if unat scancode = 82 then None
     else Some (us_key (if unat scancode < 0x45 then unat scancode else unat scancode + 2)))"
proof -
  note defs = classic_key_def classic_keyboard_scancode_to_char_def scan_set_length
  consider "unat scancode < 82" | "unat scancode = 82" | "82 < unat scancode" by linarith
  then have "classic_key scancode = (if unat scancode = 82 then None else Some (table_key (unat scancode)))"
  proof cases
    case 1
    then have "take_bit 7 scancode = scancode" by (simp add: word_unat_eq_iff unsigned_take_bit_eq take_bit_nat_eq_self_iff)
    moreover have "take_bit 7 scancode AND 0x80 = 0" by (simp add: take_bit_eq_mask and.assoc mask_numeral)
    ultimately have "scancode AND 0x80 = 0" by simp
    moreover have "key_of (keyboard_scan_set_one ! unat scancode) = table_key (unat scancode)" using 1 scan_set_keys by (simp add: list_all_length)
    ultimately show ?thesis using 1 by (simp add: defs key_of_def)
  next
    case 2
    then have "scancode = 82" by (simp add: word_unat_eq_iff)
    then show ?thesis by (simp add: defs)
  next
    case 3
    then show ?thesis using table_key_end [of "unat scancode"] by (simp add: defs)
  qed
  then show ?thesis by (simp add: table_key_def)
qed

end
