(* ===== verification/Kernel_State.thy ===== *)
theory Kernel_State
  imports File_Layer Paging Terminal Keyboard_Buffer
begin

text \<open>
  The state of the running kernel: the tasks of \<^verbatim>\<open>src/src/task/task.h\<close>, the processes of
  \<^verbatim>\<open>src/src/task/process.h\<close>, the globals that hold them, and the parts that the other theories
  model: files, heap and disk, physical memory, and the terminal. Tasks and processes are
  stores from addresses to structures; an address outside of its store is a pointer to memory
  that was never allocated or was released, and following it is \<open>None\<close>.
\<close>

section \<open>Structures\<close>

record registers =
  r_edi :: u32
  r_esi :: u32
  r_ebp :: u32
  r_ebx :: u32
  r_edx :: u32
  r_ecx :: u32
  r_eax :: u32
  r_ip :: u32
  r_cs :: u32
  r_flags :: u32
  r_esp :: u32
  r_ss :: u32

record interrupt_frame =
  f_edi :: u32
  f_esi :: u32
  f_ebp :: u32
  f_reserved :: u32
  f_ebx :: u32
  f_edx :: u32
  f_ecx :: u32
  f_eax :: u32
  f_ip :: u32
  f_cs :: u32
  f_flags :: u32
  f_esp :: u32
  f_ss :: u32

record task =
  tk_page_directory :: u32
  tk_registers :: registers
  tk_process :: u32
  tk_next :: u32
  tk_prev :: u32

text \<open>The array \<^verbatim>\<open>allocations\<close> is not used by any code and left out.\<close>

record process =
  p_id :: u16
  p_filename :: "byte list"
  p_task :: u32
  p_ptr :: u32
  p_stack :: u32
  p_size :: u32
  p_keyboard :: keyboard_buffer

text \<open>The functions that system calls are registered with.\<close>

datatype isr80h_command =
    Command0_sum | Command1_print | Command2_open | Command3_read | Command4_fork | Command5_exit
  | Command6_readline | Command7_write | Command8_delete | Command9_close | Command10_readdir | Command11_wait

text \<open>
  The interrupts that the hardware raises: the timer, a key with its scan code, and the lines without
  a handler of their own.
\<close>

datatype irq = Irq_timer | Irq_key byte | Irq_other

text \<open>
  \<open>y_directory\<close> is the directory that is loaded, \<open>y_irqs\<close> are the interrupts that arrive each
  time the kernel waits for one, in order, and \<open>y_ports\<close> are the bytes that were written to ports. The structures
  that the records hold are not read from \<open>y_ram\<close>, which has the pages of address spaces, programs, stacks
  and buffers.
\<close>

record sys =
  y_vfs :: "fat_file_descriptor vfs"
  y_ram :: ram
  y_tasks :: "u32 \<rightharpoonup> task"
  y_procs :: "u32 \<rightharpoonup> process"
  y_processes :: "u32 list"
  y_current_process :: u32
  y_current_task :: u32
  y_task_head :: u32
  y_task_tail :: u32
  y_directory :: u32
  y_kernel_chunk :: u32
  y_term :: terminal
  y_commands :: "isr80h_command option list"
  y_ports :: port_log
  y_irqs :: "irq list list"

abbreviation (input) PEACHOS_MAX_PROCESSES :: nat where "PEACHOS_MAX_PROCESSES \<equiv> 12"
abbreviation (input) PEACHOS_PROGRAM_VIRTUAL_ADDRESS :: u32 where "PEACHOS_PROGRAM_VIRTUAL_ADDRESS \<equiv> 0x400000"
abbreviation (input) PEACHOS_USER_PROGRAM_STACK_SIZE :: u32 where "PEACHOS_USER_PROGRAM_STACK_SIZE \<equiv> 16384"
abbreviation (input) PEACHOS_PROGRAM_VIRTUAL_STACK_ADDRESS_START :: u32 where "PEACHOS_PROGRAM_VIRTUAL_STACK_ADDRESS_START \<equiv> 0x3FF000"
abbreviation (input) PEACHOS_PROGRAM_VIRTUAL_STACK_ADDRESS_END :: u32 where "PEACHOS_PROGRAM_VIRTUAL_STACK_ADDRESS_END \<equiv> 0x3FF000 - 16384"
abbreviation (input) USER_DATA_SEGMENT :: u32 where "USER_DATA_SEGMENT \<equiv> 0x23"
abbreviation (input) USER_CODE_SEGMENT :: u32 where "USER_CODE_SEGMENT \<equiv> 0x1b"

section \<open>Heap and memory of the kernel\<close>

definition y_heap :: "sys \<Rightarrow> heap" where
  "y_heap s = k_heap (v_k (y_vfs s))"

definition put_y_heap :: "sys \<Rightarrow> heap \<Rightarrow> sys" where
  "put_y_heap s h = s\<lparr>y_vfs := put_heap (y_vfs s) h\<rparr>"

definition sys_kzalloc :: "sys \<Rightarrow> u32 \<Rightarrow> (u32 \<times> sys) option" where
  "sys_kzalloc s sz = do {
     (a, h, m) \<leftarrow> kzalloc_ram (y_heap s) (y_ram s) sz;
     Some (a, (put_y_heap s h)\<lparr>y_ram := m\<rparr>)
   }"

definition sys_kfree :: "sys \<Rightarrow> u32 \<Rightarrow> sys option" where
  "sys_kfree s a = map_option (put_y_heap s) (kfree (y_heap s) a)"

definition put_task :: "sys \<Rightarrow> u32 \<Rightarrow> task \<Rightarrow> sys" where
  "put_task s a t = s\<lparr>y_tasks := (y_tasks s)(a \<mapsto> t)\<rparr>"

definition put_proc :: "sys \<Rightarrow> u32 \<Rightarrow> process \<Rightarrow> sys" where
  "put_proc s a p = s\<lparr>y_procs := (y_procs s)(a \<mapsto> p)\<rparr>"

text \<open>
  \<^verbatim>\<open>kernel_page\<close> of \<^verbatim>\<open>src/src/kernel.c\<close> goes back to the address space of the kernel; the segment
  registers that \<^verbatim>\<open>kernel_registers\<close> and \<^verbatim>\<open>user_registers\<close> load are not in the model.
\<close>

definition kernel_page :: "sys \<Rightarrow> sys" where
  "kernel_page s = s\<lparr>y_directory := paging_switch (y_ram s) (y_kernel_chunk s)\<rparr>"

definition sys_print :: "sys \<Rightarrow> byte list \<Rightarrow> sys option" where
  "sys_print s str = map_option (\<lambda>t. s\<lparr>y_term := t\<rparr>) (print (y_term s) str)"

section \<open>Access through an address space\<close>

text \<open>
  Loads and stores at virtual addresses of the address space of chunk \<open>c\<close>. A page that is not
  present raises a fault, whose handler returns to the same instruction for ever.
\<close>

definition vload :: "ram \<Rightarrow> u32 \<Rightarrow> u32 \<Rightarrow> byte option" where
  "vload m c va = map_option (\<lambda>pa. m (unat pa)) (translate m c va)"

definition vstore :: "ram \<Rightarrow> u32 \<Rightarrow> u32 \<Rightarrow> byte \<Rightarrow> ram option" where
  "vstore m c va b = map_option (\<lambda>pa. m(unat pa := b)) (translate m c va)"

definition vload32 :: "ram \<Rightarrow> u32 \<Rightarrow> u32 \<Rightarrow> u32 option" where
  "vload32 m c va = do {
     b0 \<leftarrow> vload m c va; b1 \<leftarrow> vload m c (va + 1); b2 \<leftarrow> vload m c (va + 2); b3 \<leftarrow> vload m c (va + 3);
     Some (le32 [b0, b1, b2, b3])
   }"

text \<open>The loop of \<^verbatim>\<open>strncpy\<close> with \<open>n\<close> characters left, and that of \<^verbatim>\<open>memcpy\<close>, at virtual addresses.\<close>

fun user_strncpy :: "ram \<Rightarrow> u32 \<Rightarrow> u32 \<Rightarrow> u32 \<Rightarrow> nat \<Rightarrow> ram option" where
  "user_strncpy m c dest src 0 = vstore m c dest 0"
| "user_strncpy m c dest src (Suc n) = do {
     b \<leftarrow> vload m c src;
     if b = 0 then vstore m c dest 0
     else do { m1 \<leftarrow> vstore m c dest b; user_strncpy m1 c (dest + 1) (src + 1) n }
   }"

fun user_memcpy :: "ram \<Rightarrow> u32 \<Rightarrow> u32 \<Rightarrow> u32 \<Rightarrow> nat \<Rightarrow> ram option" where
  "user_memcpy m c dest src 0 = Some m"
| "user_memcpy m c dest src (Suc n) = do {
     b \<leftarrow> vload m c src;
     m1 \<leftarrow> vstore m c dest b;
     user_memcpy m1 c (dest + 1) (src + 1) n
   }"

end
