(* ===== verification/Task.thy ===== *)
theory Task
  imports Kernel_State
begin

text \<open>
  Tasks, \<^verbatim>\<open>src/src/task/task.c\<close>: the doubly linked list of tasks, switching between them in turn,
  saving registers, and the copies between the kernel and the address space of a task.
\<close>

section \<open>Operations\<close>

definition task_current :: "sys \<Rightarrow> u32" where
  "task_current s = y_current_task s"

definition task_has_any :: "sys \<Rightarrow> bool" where
  "task_has_any s \<longleftrightarrow> y_task_head s \<noteq> 0"

definition zero_registers :: registers where
  "zero_registers = \<lparr>r_edi = 0, r_esi = 0, r_ebp = 0, r_ebx = 0, r_edx = 0, r_ecx = 0, r_eax = 0, r_ip = 0, r_cs = 0,
     r_flags = 0, r_esp = 0, r_ss = 0\<rparr>"

definition zero_task :: task where
  "zero_task = \<lparr>tk_page_directory = 0, tk_registers = zero_registers, tk_process = 0, tk_next = 0, tk_prev = 0\<rparr>"

text \<open>\<^verbatim>\<open>paging_new_4gb\<close> stores through the results of \<^verbatim>\<open>kzalloc\<close>, so that it never returns null.\<close>

definition task_init :: "sys \<Rightarrow> u32 \<Rightarrow> u32 \<Rightarrow> (int \<times> sys) option" where
  "task_init s task process = do {
     let s1 = put_task s task zero_task;
     (pd, h, m) \<leftarrow> paging_new_4gb (y_heap s1) (y_ram s1) 5;
     let s2 = (put_y_heap s1 h)\<lparr>y_ram := m\<rparr>;
     if pd = 0 then Some (- EIO, s2)
     else Some (0, put_task s2 task (zero_task\<lparr>tk_page_directory := pd,
            tk_registers := zero_registers\<lparr>r_ip := PEACHOS_PROGRAM_VIRTUAL_ADDRESS, r_ss := USER_DATA_SEGMENT,
              r_cs := USER_CODE_SEGMENT, r_esp := PEACHOS_PROGRAM_VIRTUAL_STACK_ADDRESS_START\<rparr>,
            tk_process := process\<rparr>))
   }"

definition task_get_next :: "sys \<Rightarrow> u32 option" where
  "task_get_next s = do {
     t \<leftarrow> y_tasks s (y_current_task s);
     Some (if tk_next t = 0 then y_task_head s else tk_next t)
   }"

text \<open>The successor of the removed task keeps its pointer \<^verbatim>\<open>prev\<close>.\<close>

definition task_list_remove :: "sys \<Rightarrow> u32 \<Rightarrow> sys option" where
  "task_list_remove s task = do {
     t \<leftarrow> y_tasks s task;
     s1 \<leftarrow> (if tk_prev t \<noteq> 0
            then do { p \<leftarrow> y_tasks s (tk_prev t); Some (put_task s (tk_prev t) (p\<lparr>tk_next := tk_next t\<rparr>)) }
            else Some s);
     t1 \<leftarrow> y_tasks s1 task;
     let s2 = (if task = y_task_head s1 then s1\<lparr>y_task_head := tk_next t1\<rparr> else s1);
     let s3 = (if task = y_task_tail s2 then s2\<lparr>y_task_tail := tk_prev t1\<rparr> else s2);
     if task = y_current_task s3
     then do { n \<leftarrow> task_get_next s3; Some (s3\<lparr>y_current_task := n\<rparr>) }
     else Some s3
   }"

definition task_free :: "sys \<Rightarrow> u32 \<Rightarrow> (int \<times> sys) option" where
  "task_free s task = do {
     t \<leftarrow> y_tasks s task;
     if tk_page_directory t = 0 then None
     else do {
       h \<leftarrow> paging_free_4gb (y_heap s) (y_ram s) (tk_page_directory t);
       s1 \<leftarrow> task_list_remove (put_y_heap s h) task;
       s2 \<leftarrow> sys_kfree s1 task;
       Some (0, s2\<lparr>y_tasks := (y_tasks s2)(task := None)\<rparr>)
     }
   }"

text \<open>
  The result is a pointer or, below 0 as an \<^verbatim>\<open>int\<close>, an error. Without memory for the task the
  code goes on to \<^verbatim>\<open>task_free\<close> of a null pointer.
\<close>

definition task_new :: "sys \<Rightarrow> u32 \<Rightarrow> ((int + u32) \<times> sys) option" where
  "task_new s process = do {
     (task, s1) \<leftarrow> sys_kzalloc s 64;
     if task = 0 then None
     else do {
       (res, s2) \<leftarrow> task_init s1 task process;
       if res \<noteq> PEACHOS_ALL_OK then do { (r, s3) \<leftarrow> task_free s2 task; Some (Inl res, s3) }
       else if y_task_head s2 = 0
       then Some (Inr task, s2\<lparr>y_task_head := task, y_task_tail := task, y_current_task := task\<rparr>)
       else do {
         tl \<leftarrow> y_tasks s2 (y_task_tail s2);
         let s3 = put_task s2 (y_task_tail s2) (tl\<lparr>tk_next := task\<rparr>);
         t \<leftarrow> y_tasks s3 task;
         Some (Inr task, (put_task s3 task (t\<lparr>tk_prev := y_task_tail s3\<rparr>))\<lparr>y_task_tail := task\<rparr>)
       }
     }
   }"

definition task_switch :: "sys \<Rightarrow> u32 \<Rightarrow> (int \<times> sys) option" where
  "task_switch s task = do {
     t \<leftarrow> y_tasks s task;
     Some (0, s\<lparr>y_current_task := task, y_current_process := tk_process t,
                y_directory := paging_switch (y_ram s) (tk_page_directory t)\<rparr>)
   }"

definition saved :: "interrupt_frame \<Rightarrow> registers \<Rightarrow> registers" where
  "saved frame r = r\<lparr>r_ip := f_ip frame, r_cs := f_cs frame, r_flags := f_flags frame, r_esp := f_esp frame,
     r_ss := f_ss frame, r_eax := f_eax frame, r_ebp := f_ebp frame, r_ebx := f_ebx frame, r_ecx := f_ecx frame,
     r_edi := f_edi frame, r_edx := f_edx frame, r_esi := f_esi frame\<rparr>"

definition task_save_state :: "sys \<Rightarrow> u32 \<Rightarrow> interrupt_frame \<Rightarrow> sys option" where
  "task_save_state s task frame = do {
     t \<leftarrow> y_tasks s task;
     Some (put_task s task (t\<lparr>tk_registers := saved frame (tk_registers t)\<rparr>))
   }"

text \<open>The kernel panics, and does not return, without a current task.\<close>

definition task_current_save_state :: "sys \<Rightarrow> interrupt_frame \<Rightarrow> sys option" where
  "task_current_save_state s frame =
     (if task_current s = 0 then None else task_save_state s (task_current s) frame)"

definition task_page :: "sys \<Rightarrow> (int \<times> sys) option" where
  "task_page s = do { (_, s1) \<leftarrow> task_switch s (y_current_task s); Some (0, s1) }"

definition task_page_task :: "sys \<Rightarrow> u32 \<Rightarrow> (int \<times> sys) option" where
  "task_page_task s task = do {
     t \<leftarrow> y_tasks s task;
     Some (0, s\<lparr>y_directory := paging_switch (y_ram s) (tk_page_directory t)\<rparr>)
   }"

text \<open>The registers with which \<^verbatim>\<open>task_return\<close> enters the first task.\<close>

definition task_run_first_ever_task :: "sys \<Rightarrow> (registers \<times> sys) option" where
  "task_run_first_ever_task s =
     (if y_current_task s = 0 then None
      else do {
        (_, s1) \<leftarrow> task_switch s (y_task_head s);
        t \<leftarrow> y_tasks s1 (y_task_head s1);
        Some (tk_registers t, s1)
      })"

definition task_get_stack_item :: "sys \<Rightarrow> u32 \<Rightarrow> int \<Rightarrow> (u32 \<times> sys) option" where
  "task_get_stack_item s task index = do {
     t \<leftarrow> y_tasks s task;
     let sp_ptr = r_esp (tk_registers t);
     (_, s1) \<leftarrow> task_page_task s task;
     result \<leftarrow> vload32 (y_ram s1) (tk_page_directory t) (sp_ptr + 4 * word_of_int index);
     Some (result, kernel_page s1)
   }"

text \<open>
  The buffer \<open>phys\<close> in the kernel is the list of its bytes; the result has its new contents.
  The flags are \<^verbatim>\<open>PAGING_IS_WRITEABLE | PAGING_IS_PRESENT | PAGING_ACCESS_FROM_ALL\<close>.
\<close>

definition copy_string_from_task :: "sys \<Rightarrow> u32 \<Rightarrow> u32 \<Rightarrow> byte list \<Rightarrow> int \<Rightarrow> (int \<times> byte list \<times> sys) option" where
  "copy_string_from_task s task virtual phys maxlen =
     (if maxlen \<ge> 4096 then Some (- EINVARG, phys, s)
      else do {
        (tmp, s1) \<leftarrow> sys_kzalloc s (word_of_int maxlen);
        if tmp = 0 then Some (- ENOMEM, phys, s1)
        else do {
          t \<leftarrow> y_tasks s1 task;
          let pd = tk_page_directory t;
          let task_directory = load32 (y_ram s1) pd;
          let old_entry = paging_get (y_ram s1) task_directory tmp;
          let (_, m1) = paging_map (y_ram s1) pd tmp tmp 7;
          m2 \<leftarrow> user_strncpy m1 pd tmp virtual (nat (maxlen - 1));
          let s2 = kernel_page (s1\<lparr>y_ram := m2, y_directory := paging_switch m1 pd\<rparr>);
          let (res, m3) = paging_set (y_ram s2) task_directory tmp old_entry;
          let s3 = s2\<lparr>y_ram := m3\<rparr>;
          if res < 0 then do { s4 \<leftarrow> sys_kfree s3 tmp; Some (- EIO, phys, s4) }
          else do {
            phys1 \<leftarrow> strncpy phys (load_bytes (y_ram s3) tmp (nat maxlen)) maxlen;
            s4 \<leftarrow> sys_kfree s3 tmp;
            Some (res, phys1, s4)
          }
        }
      })"

definition copy_to_task :: "sys \<Rightarrow> u32 \<Rightarrow> u32 \<Rightarrow> byte list \<Rightarrow> int \<Rightarrow> (int \<times> sys) option" where
  "copy_to_task s task user_virtual kernel_buf sz =
     (if sz \<ge> 4096 then Some (- EINVARG, s)
      else do {
        (tmp, s1) \<leftarrow> sys_kzalloc s (word_of_int sz);
        if tmp = 0 then Some (- ENOMEM, s1)
        else if sz < 0 \<or> length kernel_buf < nat sz then None
        else do {
          let m0 = store_bytes (y_ram s1) tmp (take (nat sz) kernel_buf);
          t \<leftarrow> y_tasks s1 task;
          let pd = tk_page_directory t;
          let task_directory = load32 m0 pd;
          let old_entry = paging_get m0 task_directory tmp;
          let (_, m1) = paging_map m0 pd tmp tmp 7;
          m2 \<leftarrow> user_memcpy m1 pd user_virtual tmp (nat sz);
          let s2 = kernel_page (s1\<lparr>y_ram := m2, y_directory := paging_switch m1 pd\<rparr>);
          let (res, m3) = paging_set (y_ram s2) task_directory tmp old_entry;
          s4 \<leftarrow> sys_kfree (s2\<lparr>y_ram := m3\<rparr>) tmp;
          Some (if res < 0 then - EIO else res, s4)
        }
      })"

section \<open>The list of tasks\<close>

lemma sys_simps [simp]:
  "y_heap (put_y_heap s h) = h" "y_tasks (put_y_heap s h) = y_tasks s" "y_ram (put_y_heap s h) = y_ram s"
  "y_task_head (put_y_heap s h) = y_task_head s" "y_task_tail (put_y_heap s h) = y_task_tail s"
  "y_current_task (put_y_heap s h) = y_current_task s" "y_heap (put_task s a t) = y_heap s" "y_ram (put_task s a t) = y_ram s"
  "y_tasks (put_task s a t) = (y_tasks s)(a \<mapsto> t)" "y_task_head (put_task s a t) = y_task_head s"
  "y_task_tail (put_task s a t) = y_task_tail s" "y_current_task (put_task s a t) = y_current_task s"
  by (simp_all add: y_heap_def put_y_heap_def put_task_def)

lemma y_heap_update [simp]:
  "y_heap (s\<lparr>y_ram := m\<rparr>) = y_heap s" "y_heap (s\<lparr>y_tasks := ts\<rparr>) = y_heap s" "y_heap (s\<lparr>y_task_head := a\<rparr>) = y_heap s"
  "y_heap (s\<lparr>y_task_tail := a\<rparr>) = y_heap s" "y_heap (s\<lparr>y_current_task := a\<rparr>) = y_heap s"
  "y_heap (s\<lparr>y_current_process := a\<rparr>) = y_heap s" "y_heap (s\<lparr>y_directory := a\<rparr>) = y_heap s"
  by (simp_all add: y_heap_def)

text \<open>
  \<open>task_chain ts a xs\<close>: following \<^verbatim>\<open>next\<close> from \<open>a\<close> visits \<open>xs\<close>. \<open>prevs ts p xs\<close>: the pointers \<^verbatim>\<open>prev\<close> of
  \<open>xs\<close> point to the task before, and the first one to \<open>p\<close>.
\<close>

fun task_chain :: "(u32 \<rightharpoonup> task) \<Rightarrow> u32 \<Rightarrow> u32 list \<Rightarrow> bool" where
  "task_chain ts a [] = (a = 0)"
| "task_chain ts a (x # xs) = (a = x \<and> x \<noteq> 0 \<and> (\<exists>t. ts x = Some t \<and> task_chain ts (tk_next t) xs))"

fun prevs :: "(u32 \<rightharpoonup> task) \<Rightarrow> u32 \<Rightarrow> u32 list \<Rightarrow> bool" where
  "prevs ts p [] = True"
| "prevs ts p (x # xs) = (\<exists>t. ts x = Some t \<and> tk_prev t = p \<and> prevs ts x xs)"

definition task_ring :: "sys \<Rightarrow> u32 list \<Rightarrow> bool" where
  "task_ring s xs \<longleftrightarrow> distinct xs \<and> task_chain (y_tasks s) (y_task_head s) xs
     \<and> (if xs = [] then y_current_task s = 0 else y_task_tail s = last xs \<and> y_current_task s \<in> set xs)"

lemma tchain_cong: "(\<And>x. x \<in> set xs \<Longrightarrow> ts' x = ts x) \<Longrightarrow> task_chain ts' a xs = task_chain ts a xs"
  by (induction xs arbitrary: a) auto

lemma prevs_cong: "(\<And>x. x \<in> set xs \<Longrightarrow> map_option tk_prev (ts' x) = map_option tk_prev (ts x)) \<Longrightarrow> prevs ts' p xs = prevs ts p xs"
proof (induction xs arbitrary: p)
  case (Cons x xs)
  then have "map_option tk_prev (ts' x) = map_option tk_prev (ts x)" by simp
  then have "(\<exists>t. ts' x = Some t \<and> tk_prev t = p) = (\<exists>t. ts x = Some t \<and> tk_prev t = p)"
    by (cases "ts' x"; cases "ts x") auto
  with Cons show ?case by auto
qed simp

lemma tchain_nonzero: "task_chain ts a xs \<Longrightarrow> x \<in> set xs \<Longrightarrow> x \<noteq> 0 \<and> (\<exists>t. ts x = Some t)"
  by (induction xs arbitrary: a) auto

lemma tchain_next:
  "task_chain ts a xs \<Longrightarrow> i < length xs \<Longrightarrow> \<exists>t. ts (xs ! i) = Some t \<and> tk_next t = (if Suc i < length xs then xs ! Suc i else 0)"
proof (induction xs arbitrary: a i)
  case (Cons x xs)
  show ?case
  proof (cases i)
    case 0
    with Cons.prems show ?thesis by (cases xs) auto
  next
    case (Suc j)
    from Cons.prems obtain b where "task_chain ts b xs" by auto
    from Cons.IH [OF this, of j] Cons.prems(2) Suc show ?thesis by (cases "Suc j < length xs") auto
  qed
qed simp

lemma tchain_head: "task_chain ts a xs \<Longrightarrow> a = (if xs = [] then 0 else hd xs)"
  by (cases xs) auto

text \<open>Appending a task, and dropping the last one.\<close>

lemma tchain_append:
  assumes "task_chain ts a xs" and "xs \<noteq> []" and "ts (last xs) = Some l" and "y \<noteq> 0" and "y \<notin> set xs" and "tk_next t = 0" and "distinct xs"
  shows "task_chain (ts(last xs \<mapsto> l\<lparr>tk_next := y\<rparr>, y \<mapsto> t)) a (xs @ [y])"
  using assms
proof (induction xs arbitrary: a)
  case (Cons x xs)
  show ?case
  proof (cases xs)
    case Nil
    with Cons.prems show ?thesis by auto
  next
    case (Cons z zs)
    obtain u where u: "ts x = Some u" "task_chain ts (tk_next u) xs" using Cons.prems(1) by auto
    have "x \<noteq> last xs" using Cons.prems(7) \<open>xs = z # zs\<close> by (metis distinct.simps(2) last_in_set list.distinct(1))
    with Cons.IH [OF u(2)] Cons.prems \<open>xs = z # zs\<close> u(1) show ?thesis by auto
  qed
qed simp

lemma prevs_snoc: "prevs ts p (xs @ [y]) \<longleftrightarrow> prevs ts p xs \<and> (\<exists>t. ts y = Some t \<and> tk_prev t = (if xs = [] then p else last xs))"
  by (induction xs arbitrary: p) auto

lemma tchain_butlast:
  assumes "task_chain ts a (xs @ [y])" and "xs \<noteq> []" and "ts (last xs) = Some l" and "distinct (xs @ [y])"
  shows "task_chain (ts(last xs \<mapsto> l\<lparr>tk_next := 0\<rparr>)) a xs"
  using assms
proof (induction xs arbitrary: a)
  case (Cons x xs)
  show ?case
  proof (cases xs)
    case Nil
    with Cons.prems show ?thesis by auto
  next
    case (Cons z zs)
    obtain u where u: "ts x = Some u" "task_chain ts (tk_next u) (xs @ [y])" using Cons.prems(1) by auto
    have "x \<noteq> last xs" using Cons.prems(4) \<open>xs = z # zs\<close> by (metis append_Cons distinct.simps(2) distinct_append last_in_set list.distinct(1))
    with Cons.IH [OF u(2)] Cons.prems \<open>xs = z # zs\<close> u(1) show ?thesis by auto
  qed
qed simp

text \<open>
  The heap objects of a task: its structure and the pages of its address space. In order, the
  objects of all tasks are different live objects of one page.
\<close>

definition task_objects :: "sys \<Rightarrow> u32 \<Rightarrow> u32 list" where
  "task_objects s x = x # (case y_tasks s x of None \<Rightarrow> [] | Some t \<Rightarrow> chunk_pages (y_ram s) (tk_page_directory t))"

definition tasks_ok :: "sys \<Rightarrow> u32 list \<Rightarrow> bool" where
  "tasks_ok s xs \<longleftrightarrow> task_ring s xs \<and> prevs (y_tasks s) 0 xs \<and> dom (y_tasks s) = set xs
     \<and> distinct (concat (map (task_objects s) xs)) \<and> (\<forall>a \<in> set (concat (map (task_objects s) xs)). (a, 1) \<in> heap_live (y_heap s))"

lemma tasks_okD:
  assumes "tasks_ok s xs"
  shows "task_ring s xs" "prevs (y_tasks s) 0 xs" "dom (y_tasks s) = set xs" "distinct (concat (map (task_objects s) xs))"
    "x \<in> set xs \<Longrightarrow> a \<in> set (task_objects s x) \<Longrightarrow> (a, 1) \<in> heap_live (y_heap s)" "distinct xs"
    "task_chain (y_tasks s) (y_task_head s) xs"
  using assms by (auto simp: tasks_ok_def task_ring_def)

lemma task_chunk_ok:
  assumes "tasks_ok s xs" and "y_tasks s x = Some t"
  shows "chunk_ok (y_heap s) (y_ram s) (tk_page_directory t)" "(x, 1) \<in> heap_live (y_heap s)"
    "x \<notin> set (chunk_pages (y_ram s) (tk_page_directory t))"
proof -
  have x: "x \<in> set xs" using tasks_okD(3) [OF assms(1)] assms(2) by auto
  then have "distinct (task_objects s x)" using tasks_okD(4) [OF assms(1)] by (auto simp: distinct_concat_iff)
  with x tasks_okD(5) [OF assms(1) x] assms(2) show "chunk_ok (y_heap s) (y_ram s) (tk_page_directory t)"
    "(x, 1) \<in> heap_live (y_heap s)" "x \<notin> set (chunk_pages (y_ram s) (tk_page_directory t))"
    unfolding chunk_ok_def task_objects_def by auto
qed

text \<open>What a change of the state does to the objects of the tasks that stay.\<close>

lemma task_objects_cong:
  assumes "map_option tk_page_directory (y_tasks s' x) = map_option tk_page_directory (y_tasks s x)"
    and "\<And>t. y_tasks s x = Some t \<Longrightarrow> chunk_pages (y_ram s') (tk_page_directory t) = chunk_pages (y_ram s) (tk_page_directory t)"
  shows "task_objects s' x = task_objects s x"
proof (cases "y_tasks s x")
  case None
  with assms(1) show ?thesis by (simp add: task_objects_def)
next
  case (Some t)
  with assms(1) obtain t' where "y_tasks s' x = Some t'" "tk_page_directory t' = tk_page_directory t" by (cases "y_tasks s' x") auto
  with Some assms(2) [OF Some] show ?thesis by (simp add: task_objects_def)
qed

section \<open>Creating a task\<close>

lemma sys_kzalloc_page:
  assumes "page_slack (y_heap s) (Suc k)" and "small_size sz"
  obtains a h m where "sys_kzalloc s sz = Some (a, (put_y_heap s h)\<lparr>y_ram := m\<rparr>)" "a \<noteq> 0" "page_slack h k" "grown heap_live (y_heap s) [a] h"
    "keeps (y_heap s) (y_ram s) m" "unchanged (y_ram s) m (page a)" "aligned a"
proof -
  obtain a h m where a: "kzalloc_ram (y_heap s) (y_ram s) sz = Some (a, h, m)" "a \<noteq> 0" "aligned a" "page_slack h k" "grown heap_live (y_heap s) [a] h"
    "unchanged (y_ram s) m (page a)" by (rule kzalloc_ram_page [OF assms]) blast
  then have "unchanged (y_ram s) m (\<Union>b \<in> set [a]. page b)" by simp
  from grown_keeps [OF a(4,5) this] a that show thesis by (simp add: sys_kzalloc_def)
qed

lemma objects_extend:
  assumes "tasks_ok s xs" and eq: "\<And>x. x \<in> set xs \<Longrightarrow> task_objects s' x = task_objects s x" and "distinct (task_objects s' a)"
    and "\<And>b n. b \<in> set (task_objects s' a) \<Longrightarrow> (b, n) \<notin> heap_live (y_heap s)"
    and "heap_live (y_heap s') = heap_live (y_heap s) \<union> (\<lambda>a. (a, 1)) ` set (task_objects s' a)"
  shows "distinct (concat (map (task_objects s') (xs @ [a])))"
    "\<forall>b \<in> set (concat (map (task_objects s') (xs @ [a]))). (b, 1) \<in> heap_live (y_heap s')"
proof -
  have m: "map (task_objects s') xs = map (task_objects s) xs" using eq by simp
  note D = tasks_okD [OF assms(1)]
  have "set (concat (map (task_objects s) xs)) \<inter> set (task_objects s' a) = {}" using D(5) assms(4) by fastforce
  then show "distinct (concat (map (task_objects s') (xs @ [a])))" using D(4) assms(3) by (simp add: m)
  show "\<forall>b \<in> set (concat (map (task_objects s') (xs @ [a]))). (b, 1) \<in> heap_live (y_heap s')"
    using D(5) assms(5) eq by auto
qed

text \<open>The list after a new task is linked in at its end.\<close>

lemma ring_extend:
  assumes "tasks_ok s xs" and "a \<noteq> 0" and "a \<notin> set xs" and t: "tk_next t = 0" "tk_prev t = (if xs = [] then 0 else last xs)"
    and ts: "y_tasks s' = (if xs = [] then [a \<mapsto> t] else (y_tasks s)(last xs \<mapsto> l\<lparr>tk_next := a\<rparr>, a \<mapsto> t))"
    and l: "xs \<noteq> [] \<Longrightarrow> y_tasks s (last xs) = Some l"
    and g: "y_task_head s' = (if xs = [] then a else y_task_head s)" "y_task_tail s' = a"
      "y_current_task s' = (if xs = [] then a else y_current_task s)"
  shows "task_ring s' (xs @ [a])" "prevs (y_tasks s') 0 (xs @ [a])" "dom (y_tasks s') = set (xs @ [a])"
proof -
  note D = tasks_okD [OF assms(1)]
  show "dom (y_tasks s') = set (xs @ [a])" using D(3) ts l by (auto split: if_splits)
  have "task_chain (y_tasks s') (y_task_head s') (xs @ [a])"
    using tchain_append [OF D(7) _ l assms(2,3) t(1) D(6)] ts g(1) t(1) assms(2) by (cases "xs = []") simp_all
  then show "task_ring s' (xs @ [a])" using D(1,6) assms(3) g(2,3) by (auto simp: task_ring_def)
  have "prevs (y_tasks s') 0 xs"
    using D(2) assms(3) ts l by (subst prevs_cong [where ts = "y_tasks s"]) auto
  moreover have "y_tasks s' a = Some t" using ts by simp
  ultimately show "prevs (y_tasks s') 0 (xs @ [a])" using t(2) by (simp add: prevs_snoc)
qed

text \<open>
  The registers with which a task starts, and what stays of the other tasks: only the link of the last one changes.
\<close>

definition start_registers :: registers where
  "start_registers = zero_registers\<lparr>r_ip := PEACHOS_PROGRAM_VIRTUAL_ADDRESS, r_ss := USER_DATA_SEGMENT,
     r_cs := USER_CODE_SEGMENT, r_esp := PEACHOS_PROGRAM_VIRTUAL_STACK_ADDRESS_START\<rparr>"

definition new_tasks :: "sys \<Rightarrow> u32 list \<Rightarrow> u32 \<Rightarrow> task \<Rightarrow> u32 \<rightharpoonup> task" where
  "new_tasks s xs a t = (if xs = [] then [a \<mapsto> t]
     else (y_tasks s)(last xs := map_option (\<lambda>l. l\<lparr>tk_next := a\<rparr>) (y_tasks s (last xs)), a \<mapsto> t))"

definition with_task :: "sys \<Rightarrow> u32 list \<Rightarrow> u32 \<Rightarrow> task \<Rightarrow> heap \<Rightarrow> ram \<Rightarrow> sys" where
  "with_task s xs a t h m = (put_y_heap s h)\<lparr>y_ram := m, y_tasks := new_tasks s xs a t,
      y_task_head := (if xs = [] then a else y_task_head s), y_task_tail := a,
      y_current_task := (if xs = [] then a else y_current_task s)\<rparr>"

lemma with_task_simps [simp]:
  "y_heap (with_task s xs a t h m) = h" "y_ram (with_task s xs a t h m) = m" "y_tasks (with_task s xs a t h m) = new_tasks s xs a t"
  "y_current_task (with_task s xs a t h m) = (if xs = [] then a else y_current_task s)" "y_procs (with_task s xs a t h m) = y_procs s"
  "y_processes (with_task s xs a t h m) = y_processes s" "y_vfs (with_task s xs a t h m) = put_heap (y_vfs s) h"
  "y_task_head (with_task s xs a t h m) = (if xs = [] then a else y_task_head s)" "y_task_tail (with_task s xs a t h m) = a"
  by (simp_all add: with_task_def put_y_heap_def put_heap_def y_heap_def)

lemma new_tasks_simps:
  "new_tasks s xs a t a = Some t"
  "x \<noteq> a \<Longrightarrow> xs \<noteq> [] \<Longrightarrow> new_tasks s xs a t x = (if x = last xs then map_option (\<lambda>l. l\<lparr>tk_next := a\<rparr>) (y_tasks s x) else y_tasks s x)"
  by (simp_all add: new_tasks_def)

text \<open>The objects of the other tasks stay when a task is added.\<close>

lemma new_tasks_objects:
  assumes ok: "tasks_ok s xs" and "page_slack (y_heap s) k" and x: "x \<in> set xs" "a \<notin> set xs" and ts: "y_tasks s' = new_tasks s xs a t"
    and ke: "keeps (y_heap s) (y_ram s) (y_ram s')"
  shows "task_objects s' x = task_objects s x"
proof (rule task_objects_cong)
  obtain l where "xs \<noteq> [] \<Longrightarrow> y_tasks s (last xs) = Some l" using tasks_okD(3) [OF ok] by (metis domD last_in_set)
  moreover have "x \<noteq> a" "xs \<noteq> []" using x by auto
  ultimately show "map_option tk_page_directory (y_tasks s' x) = map_option tk_page_directory (y_tasks s x)" unfolding ts by (simp add: new_tasks_simps)
  fix u assume "y_tasks s x = Some u"
  from keeps_chunk(1) [OF assms(2) task_chunk_ok(1) [OF ok this] ke]
  show "chunk_pages (y_ram s') (tk_page_directory u) = chunk_pages (y_ram s) (tk_page_directory u)" .
qed

text \<open>The list and the objects of the tasks after a task is added.\<close>

lemma with_task_ok:
  assumes ok: "tasks_ok s xs" and sl: "page_slack (y_heap s) k" and a: "a \<noteq> 0" "a \<notin> set xs"
    and t: "tk_next t = 0" "tk_prev t = (if xs = [] then 0 else last xs)" and ke: "keeps (y_heap s) (y_ram s) m"
    and ob: "distinct (a # chunk_pages m (tk_page_directory t))"
      "\<And>b n. b \<in> set (a # chunk_pages m (tk_page_directory t)) \<Longrightarrow> (b, n) \<notin> heap_live (y_heap s)"
      "heap_live h = heap_live (y_heap s) \<union> (\<lambda>a. (a, 1)) ` set (a # chunk_pages m (tk_page_directory t))"
  shows "tasks_ok (with_task s xs a t h m) (xs @ [a])"
proof -
  let ?s' = "with_task s xs a t h m"
  note D = tasks_okD [OF ok]
  obtain l where l: "xs \<noteq> [] \<Longrightarrow> y_tasks s (last xs) = Some l" using D(3) by (metis domD last_in_set)
  have "task_objects ?s' x = task_objects s x" if "x \<in> set xs" for x
    by (rule new_tasks_objects [OF ok sl that a(2)]) (use ke in simp_all)
  moreover have "task_objects ?s' a = a # chunk_pages m (tk_page_directory t)" by (simp add: task_objects_def new_tasks_simps)
  ultimately have objs: "distinct (concat (map (task_objects ?s') (xs @ [a])))"
    "\<forall>b \<in> set (concat (map (task_objects ?s') (xs @ [a]))). (b, 1) \<in> heap_live (y_heap ?s')"
    using objects_extend [OF ok, of ?s' a] ob by simp_all
  have "task_ring ?s' (xs @ [a])" "prevs (y_tasks ?s') 0 (xs @ [a])" "dom (y_tasks ?s') = set (xs @ [a])"
    by (rule ring_extend [where t = t and l = l, OF ok a t]; simp add: new_tasks_def l)+
  with objs show ?thesis unfolding tasks_ok_def by blast
qed

lemma task_new_full:
  assumes ok: "tasks_ok s xs" and "page_slack (y_heap s) (1027 + k)"
  obtains a t h m where "task_new s process = Some (Inr a, with_task s xs a t h m)" "tasks_ok (with_task s xs a t h m) (xs @ [a])" "page_slack h k"
    "tk_process t = process" "tk_registers t = start_registers" "a \<notin> set xs" "a \<noteq> 0" "tk_next t = 0" "tk_prev t = (if xs = [] then 0 else last xs)"
    "\<And>va. translate m (tk_page_directory t) va = Some va" "all_present m (tk_page_directory t)" "keeps (y_heap s) (y_ram s) m"
    "heap_live h = heap_live (y_heap s) \<union> (\<lambda>a. (a, 1)) ` set (a # chunk_pages m (tk_page_directory t))"
    "\<And>b n. b \<in> set (a # chunk_pages m (tk_page_directory t)) \<Longrightarrow> (b, n) \<notin> heap_live (y_heap s)"
proof -
  have "page_slack (y_heap s) (Suc (1026 + k))" using assms(2) by simp
  moreover have "small_size 64" by (simp add: small_size_def)
  ultimately obtain a h1 m1 where a: "sys_kzalloc s 64 = Some (a, (put_y_heap s h1)\<lparr>y_ram := m1\<rparr>)" "a \<noteq> 0" "page_slack h1 (1026 + k)"
    "grown heap_live (y_heap s) [a] h1" "keeps (y_heap s) (y_ram s) m1"
    by (rule sys_kzalloc_page) blast
  obtain c h2 m2 where c: "paging_new_4gb h1 m1 5 = Some (c, h2, m2)" "c \<noteq> 0" "page_slack h2 k" "chunk_ok h2 m2 c"
    "heap_live h2 = heap_live h1 \<union> (\<lambda>a. (a, 1)) ` set (chunk_pages m2 c)" "\<And>a n. a \<in> set (chunk_pages m2 c) \<Longrightarrow> (a, n) \<notin> heap_live h1"
    "keeps h1 m1 m2" "\<And>i. i < 1024 \<Longrightarrow> word_at m2 (load32 m2 c) i = table_of m2 c i OR ucast (5 :: byte) OR 2"
    "\<And>p. p < 2 ^ 20 \<Longrightarrow> page_entry m2 c p = of_nat p * 4096 OR ucast (5 :: byte)"
    by (rule paging_new_4gb_run [OF a(3)]) blast
  let ?t = "zero_task\<lparr>tk_page_directory := c, tk_registers := start_registers, tk_process := process\<rparr>"
  note D = tasks_okD [OF ok]
  have fr: "(a, n) \<notin> heap_live (y_heap s)" for n using a(4) by (simp add: grown_def)
  have fresh: "a \<notin> set xs"
  proof
    assume "a \<in> set xs"
    then obtain u where "y_tasks s a = Some u" using D(3) by auto
    from task_chunk_ok(2) [OF ok this] fr show False by blast
  qed
  have sub: "heap_live (y_heap s) \<subseteq> heap_live h1" using a(4) by (simp add: grown_def) blast
  have ke: "keeps (y_heap s) (y_ram s) m2" by (rule keeps_trans [OF a(5) keeps_older [OF c(7) sub]])
  have lv: "heap_live h2 = heap_live (y_heap s) \<union> (\<lambda>a. (a, 1)) ` set (a # chunk_pages m2 c)" using c(5) a(4) by (auto simp: grown_def)
  have nl: "(b, n) \<notin> heap_live (y_heap s)" if "b \<in> set (a # chunk_pages m2 c)" for b n using that c(6) a(4) sub by (auto simp: grown_def)
  have "a \<notin> set (chunk_pages m2 c)" using c(6) [of a 1] a(4) by (simp add: grown_def) blast
  then have dist: "distinct (a # chunk_pages m2 c)" using c(4) by (simp add: chunk_ok_def)
  have tr: "translate m2 c va = Some va" for va by (rule identity_translate [where flags = 5, OF c(8,9)]) (simp_all add: bit_0)
  have pr: "all_present m2 c" using c(8) by (simp add: all_present_def bit_or_iff)
  obtain l where l: "xs \<noteq> [] \<Longrightarrow> y_tasks s (last xs) = Some l" using D(3) by (metis domD last_in_set)
  define t where "t = ?t\<lparr>tk_prev := if xs = [] then 0 else last xs\<rparr>"
  let ?s' = "with_task s xs a t h2 m2"
  have run: "task_new s process = Some (Inr a, ?s')"
  proof (cases "xs = []")
    case True
    with D(3,7) have "y_tasks s = Map.empty" "y_task_head s = 0" by simp_all
    with True show ?thesis
      by (simp add: task_new_def task_init_def a(1,2) c(1,2) with_task_def new_tasks_def t_def start_registers_def put_task_def put_y_heap_def put_heap_def y_heap_def zero_task_def)
  next
    case False
    with D(1) have "y_task_tail s = last xs" "last xs \<noteq> a" using fresh by (auto simp: task_ring_def)
    moreover have "y_task_head s \<noteq> 0" using False D(7) by (cases xs) auto
    ultimately show ?thesis using False l
      by (simp add: task_new_def task_init_def a(1,2) c(1,2) with_task_def new_tasks_def t_def start_registers_def put_task_def put_y_heap_def put_heap_def y_heap_def zero_task_def fun_upd_twist)
  qed
  have pd: "tk_page_directory t = c" "tk_next t = 0" "tk_prev t = (if xs = [] then 0 else last xs)" "tk_process t = process"
    "tk_registers t = start_registers" by (simp_all add: t_def zero_task_def)
  have tok: "tasks_ok ?s' (xs @ [a])" using with_task_ok [OF ok assms(2) a(2) fresh pd(2,3) ke] dist nl lv unfolding pd(1) by blast
  show thesis by (rule that [OF run tok c(3) pd(4,5) fresh a(2) pd(2,3) tr [folded pd(1)] pr [folded pd(1)] ke lv [folded pd(1)] nl [folded pd(1)]])
qed

lemma task_new_run:
  assumes ok: "tasks_ok s xs" and "page_slack (y_heap s) (1027 + k)"
  shows "\<exists>a s' t. task_new s process = Some (Inr a, s') \<and> tasks_ok s' (xs @ [a]) \<and> page_slack (y_heap s') k
     \<and> y_tasks s' a = Some t \<and> tk_process t = process \<and> (\<forall>va. translate (y_ram s') (tk_page_directory t) va = Some va)
     \<and> all_present (y_ram s') (tk_page_directory t)
     \<and> y_current_task s' = (if xs = [] then a else y_current_task s)"
proof -
  obtain a t h m where "task_new s process = Some (Inr a, with_task s xs a t h m)" "tasks_ok (with_task s xs a t h m) (xs @ [a])" "page_slack h k"
    "tk_process t = process" "\<And>va. translate m (tk_page_directory t) va = Some va" "all_present m (tk_page_directory t)"
    using task_new_full [OF assms, of process] by metis
  then show ?thesis by (intro exI [of _ a] exI [of _ "with_task s xs a t h m"] exI [of _ t]) (simp add: new_tasks_simps)
qed

end
