(* ===== verification/Process.thy ===== *)
theory Process
  imports Task
begin

text \<open>
  Processes, \<^verbatim>\<open>src/src/task/process.c\<close>: the table of processes, loading a program from a file, forking and
  releasing, and the keyboard buffer of the process that runs, \<^verbatim>\<open>src/src/keyboard/keyboard.c\<close>.
\<close>

section \<open>Operations\<close>

definition zero_process :: process where
  "zero_process = \<lparr>p_id = 0, p_filename = replicate PEACHOS_MAX_PATH 0, p_task = 0, p_ptr = 0, p_stack = 0, p_size = 0,
     p_keyboard = kb_new\<rparr>"

definition process_init :: "sys \<Rightarrow> u32 \<Rightarrow> sys" where
  "process_init s process = put_proc s process zero_process"

definition process_current :: "sys \<Rightarrow> u32" where
  "process_current s = y_current_process s"

definition process_get :: "sys \<Rightarrow> int \<Rightarrow> u32" where
  "process_get s process_id =
     (if process_id < 0 \<or> process_id \<ge> int PEACHOS_MAX_PROCESSES then 0 else y_processes s ! nat process_id)"

definition sys_fclose :: "sys \<Rightarrow> int \<Rightarrow> sys option" where
  "sys_fclose s fd = do { (_, v) \<leftarrow> fclose kernel_ops (y_vfs s) fd; Some (s\<lparr>y_vfs := v\<rparr>) }"

text \<open>
  The part before the label \<^verbatim>\<open>out\<close>, with the descriptor that is open; the fields of \<^verbatim>\<open>stat\<close> are not read
  unless \<^verbatim>\<open>fstat\<close> has set them. The program stays allocated when its file cannot be read.
\<close>

definition load_binary_body :: "sys \<Rightarrow> int \<Rightarrow> u32 \<Rightarrow> (int \<times> sys) option" where
  "load_binary_body s fd process = do {
     (res, stat) \<leftarrow> fstat kernel_ops (y_vfs s) fd \<lparr>st_flags = 0, st_filesize = 0\<rparr>;
     if res \<noteq> PEACHOS_ALL_OK then Some (res, s)
     else do {
       (program_data_ptr, s1) \<leftarrow> sys_kzalloc s (st_filesize stat);
       if program_data_ptr = 0 then Some (- ENOMEM, s1)
       else do {
         (n, out, v) \<leftarrow> fread kernel_ops (y_vfs s1) (st_filesize stat) 1 fd;
         let s2 = s1\<lparr>y_vfs := v, y_ram := store_bytes (y_ram s1) program_data_ptr out\<rparr>;
         if n \<noteq> 1 then Some (- EIO, s2)
         else do {
           p \<leftarrow> y_procs s2 process;
           Some (res, put_proc s2 process (p\<lparr>p_ptr := program_data_ptr, p_size := st_filesize stat\<rparr>))
         }
       }
     }
   }"

definition process_load_binary :: "sys \<Rightarrow> byte list \<Rightarrow> u32 \<Rightarrow> (int \<times> sys) option" where
  "process_load_binary s filename process = do {
     (fd, v) \<leftarrow> fopen kernel_ops (y_vfs s) filename [0x72, 0];
     let s1 = s\<lparr>y_vfs := v\<rparr>;
     (res, s2) \<leftarrow> (if fd = 0 then Some (- EIO, s1) else load_binary_body s1 fd process);
     s3 \<leftarrow> sys_fclose s2 fd;
     Some (res, s3)
   }"

definition process_load_data :: "sys \<Rightarrow> byte list \<Rightarrow> u32 \<Rightarrow> (int \<times> sys) option" where
  "process_load_data s filename process = process_load_binary s filename process"

text \<open>The flags 7 are \<^verbatim>\<open>PAGING_IS_PRESENT | PAGING_ACCESS_FROM_ALL | PAGING_IS_WRITEABLE\<close>; the result of the mapping is dropped.\<close>

definition process_map_binary :: "sys \<Rightarrow> u32 \<Rightarrow> (int \<times> sys) option" where
  "process_map_binary s process = do {
     p \<leftarrow> y_procs s process;
     t \<leftarrow> y_tasks s (p_task p);
     let (_, m) = paging_map_to (y_ram s) (tk_page_directory t) PEACHOS_PROGRAM_VIRTUAL_ADDRESS (p_ptr p)
                    (paging_align_address (p_ptr p + p_size p)) 7;
     Some (0, s\<lparr>y_ram := m\<rparr>)
   }"

definition process_map_memory :: "sys \<Rightarrow> u32 \<Rightarrow> (int \<times> sys) option" where
  "process_map_memory s process = do {
     (res, s1) \<leftarrow> process_map_binary s process;
     if res < 0 then Some (res, s1)
     else do {
       p \<leftarrow> y_procs s1 process;
       t \<leftarrow> y_tasks s1 (p_task p);
       let (_, m) = paging_map_to (y_ram s1) (tk_page_directory t) PEACHOS_PROGRAM_VIRTUAL_STACK_ADDRESS_END (p_stack p)
                      (paging_align_address (p_stack p + PEACHOS_USER_PROGRAM_STACK_SIZE)) 7;
       Some (res, s1\<lparr>y_ram := m\<rparr>)
     }
   }"

text \<open>The loop over the slots that are left, from slot \<open>i\<close>.\<close>

fun free_slot_from :: "u32 list \<Rightarrow> int \<Rightarrow> int" where
  "free_slot_from [] i = - EISTKN"
| "free_slot_from (p # ps) i = (if p = 0 then i else free_slot_from ps (i + 1))"

definition process_get_free_slot :: "sys \<Rightarrow> int" where
  "process_get_free_slot s = free_slot_from (y_processes s) 0"

text \<open>
  The part of \<^verbatim>\<open>process_load_for_slot\<close> that makes the task, and the process that it stores through its
  pointer, 0 when it stores none. What \<^verbatim>\<open>task_new\<close> returns is compared with 0 only: an error is taken for a pointer.
\<close>

definition load_task :: "sys \<Rightarrow> u32 \<Rightarrow> int \<Rightarrow> (int \<times> u32 \<times> sys) option" where
  "load_task s process process_slot = do {
     (r, s1) \<leftarrow> task_new s process;
     let task = (case r of Inl e \<Rightarrow> word_of_int e | Inr a \<Rightarrow> a);
     if task = 0 then Some (0, 0, s1)
     else do {
       p \<leftarrow> y_procs s1 process;
       (res, s2) \<leftarrow> process_map_memory (put_proc s1 process (p\<lparr>p_task := task\<rparr>)) process;
       if res < 0 then Some (res, 0, s2)
       else if 0 \<le> process_slot \<and> nat process_slot < length (y_processes s2)
       then Some (res, process, s2\<lparr>y_processes := (y_processes s2)[nat process_slot := process]\<rparr>)
       else None
     }
   }"

text \<open>The part after the label \<^verbatim>\<open>out\<close>, with the process that was allocated.\<close>

definition load_out :: "sys \<Rightarrow> u32 \<Rightarrow> int \<Rightarrow> (int \<times> sys) option" where
  "load_out s process res =
     (if res < 0
      then do {
        p \<leftarrow> y_procs s process;
        if p_task p \<noteq> 0 then do { (_, s1) \<leftarrow> task_free s (p_task p); Some (res, s1) } else Some (res, s)
      }
      else Some (res, s))"

text \<open>
  For a slot that is taken the code reads the pointer \<^verbatim>\<open>_process\<close>, which it has not set.
\<close>

definition process_load_for_slot :: "sys \<Rightarrow> byte list \<Rightarrow> int \<Rightarrow> (int \<times> u32 \<times> sys) option" where
  "process_load_for_slot s filename process_slot =
     (if process_get s process_slot \<noteq> 0 then None
      else do {
        (process, s1) \<leftarrow> sys_kzalloc s 5256;
        if process = 0 then Some (- ENOMEM, 0, s1)
        else do {
          (res, s2) \<leftarrow> process_load_data (process_init s1 process) filename process;
          if res < 0 then do { (r, s3) \<leftarrow> load_out s2 process res; Some (r, 0, s3) }
          else do {
            (program_stack_ptr, s3) \<leftarrow> sys_kzalloc s2 PEACHOS_USER_PROGRAM_STACK_SIZE;
            if program_stack_ptr = 0 then do { (r, s4) \<leftarrow> load_out s3 process (- ENOMEM); Some (r, 0, s4) }
            else do {
              p \<leftarrow> y_procs s3 process;
              name \<leftarrow> strncpy (p_filename p) filename (int PEACHOS_MAX_PATH);
              (res1, out, s4) \<leftarrow> load_task (put_proc s3 process (p\<lparr>p_filename := name, p_stack := program_stack_ptr,
                               p_id := word_of_int process_slot\<rparr>)) process process_slot;
              (r, s5) \<leftarrow> load_out s4 process res1;
              Some (r, out, s5)
            }
          }
        }
      })"

definition process_load :: "sys \<Rightarrow> byte list \<Rightarrow> (int \<times> u32 \<times> sys) option" where
  "process_load s filename = (
     let process_slot = process_get_free_slot s in
     if process_slot < 0 then Some (- EISTKN, 0, s)
     else process_load_for_slot s filename process_slot)"

definition process_free :: "sys \<Rightarrow> u32 \<Rightarrow> sys option" where
  "process_free s process =
     (if process = 0 then Some s
      else do {
        p \<leftarrow> y_procs s process;
        (_, s1) \<leftarrow> task_free s (p_task p);
        s2 \<leftarrow> sys_kfree s1 (p_ptr p);
        s3 \<leftarrow> sys_kfree s2 (p_stack p);
        if unat (p_id p) < length (y_processes s3)
        then do {
          s4 \<leftarrow> sys_kfree (s3\<lparr>y_processes := (y_processes s3)[unat (p_id p) := 0]\<rparr>) process;
          Some (s4\<lparr>y_procs := (y_procs s4)(process := None)\<rparr>)
        }
        else None
      })"

definition copy_ram :: "sys \<Rightarrow> u32 \<Rightarrow> u32 \<Rightarrow> u32 \<Rightarrow> sys" where
  "copy_ram s dest src sz = s\<lparr>y_ram := store_bytes (y_ram s) dest (load_bytes (y_ram s) src (unat sz))\<rparr>"

text \<open>
  The part of \<^verbatim>\<open>process_fork\<close> that makes the task of the child, from \<^verbatim>\<open>task_new\<close> on. The copy of the address space
  of the parent replaces the one that \<^verbatim>\<open>task_new\<close> made.
\<close>

definition fork_task :: "sys \<Rightarrow> process \<Rightarrow> u32 \<Rightarrow> int \<Rightarrow> (int \<times> u32 \<times> sys) option" where
  "fork_task s parent child slot = do {
     (r, s1) \<leftarrow> task_new s child;
     let child_task = (case r of Inl e \<Rightarrow> word_of_int e | Inr a \<Rightarrow> a);
     if child_task = 0 then Some (0, 0, s1)
     else do {
       c \<leftarrow> y_procs s1 child;
       let s2 = put_proc s1 child (c\<lparr>p_task := child_task\<rparr>);
       ct \<leftarrow> y_tasks s2 child_task;
       h \<leftarrow> paging_free_4gb (y_heap s2) (y_ram s2) (tk_page_directory ct);
       pt \<leftarrow> y_tasks s2 (p_task parent);
       (pd, h1, m1) \<leftarrow> paging_copy_4gb h (y_ram s2) (tk_page_directory pt);
       let s3 = put_task ((put_y_heap s2 h1)\<lparr>y_ram := m1\<rparr>) child_task (ct\<lparr>tk_page_directory := pd\<rparr>);
       if pd = 0 then Some (- ENOMEM, 0, s3)
       else Some (0, child,
              (put_task s3 child_task (ct\<lparr>tk_page_directory := pd, tk_registers := (tk_registers pt)\<lparr>r_eax := 0\<rparr>\<rparr>))
                \<lparr>y_processes := (y_processes s3)[nat slot := child]\<rparr>)
     }
   }"

definition process_fork :: "sys \<Rightarrow> u32 \<Rightarrow> (int \<times> u32 \<times> sys) option" where
  "process_fork s parent = (
     let slot = process_get_free_slot s in
     if slot < 0 then Some (- EISTKN, 0, s)
     else do {
       (child, s1) \<leftarrow> sys_kzalloc s 5256;
       if child = 0 then Some (- ENOMEM, 0, s1)
       else do {
         let s2 = process_init s1 child;
         p \<leftarrow> y_procs s2 parent;
         (ptr, s3) \<leftarrow> sys_kzalloc s2 (p_size p);
         let s4 = put_proc s3 child (zero_process\<lparr>p_ptr := ptr\<rparr>);
         if ptr = 0 then Some (- ENOMEM, 0, s4)
         else do {
           let s5 = copy_ram s4 ptr (p_ptr p) (p_size p);
           (stack, s6) \<leftarrow> sys_kzalloc s5 PEACHOS_USER_PROGRAM_STACK_SIZE;
           let s7 = put_proc s6 child (zero_process\<lparr>p_ptr := ptr, p_size := p_size p, p_stack := stack\<rparr>);
           if stack = 0 then Some (- ENOMEM, 0, s7)
           else do {
             let s8 = copy_ram s7 stack (p_stack p) PEACHOS_USER_PROGRAM_STACK_SIZE;
             name \<leftarrow> strncpy (p_filename zero_process) (p_filename p) (int PEACHOS_MAX_PATH);
             fork_task (put_proc s8 child (zero_process\<lparr>p_ptr := ptr, p_size := p_size p, p_stack := stack,
                          p_filename := name, p_id := word_of_int slot\<rparr>)) p child slot
           }
         }
       }
     })"

subsection \<open>The keyboard of the running process\<close>

text \<open>
  A key goes to the process that runs, \<^verbatim>\<open>current_process\<close>; a character is taken from the process of the
  task that runs.
\<close>

definition keyboard_push :: "sys \<Rightarrow> byte \<Rightarrow> sys option" where
  "keyboard_push s c = (
     let process = process_current s in
     if process = 0 then Some s
     else do { p \<leftarrow> y_procs s process; Some (put_proc s process (p\<lparr>p_keyboard := kb_push (p_keyboard p) c\<rparr>)) })"

definition keyboard_backspace :: "sys \<Rightarrow> u32 \<Rightarrow> sys option" where
  "keyboard_backspace s process = do {
     p \<leftarrow> y_procs s process;
     Some (put_proc s process (p\<lparr>p_keyboard := kb_backspace (p_keyboard p)\<rparr>))
   }"

definition keyboard_pop :: "sys \<Rightarrow> (byte \<times> sys) option" where
  "keyboard_pop s =
     (if task_current s = 0 then Some (0, s)
      else do {
        t \<leftarrow> y_tasks s (task_current s);
        p \<leftarrow> y_procs s (tk_process t);
        let (c, k) = kb_pop (p_keyboard p);
        Some (c, put_proc s (tk_process t) (p\<lparr>p_keyboard := k\<rparr>))
      })"

definition clasic_keyboard_handle_interrupt :: "sys \<Rightarrow> byte \<Rightarrow> sys option" where
  "clasic_keyboard_handle_interrupt s scancode = do {
     key \<leftarrow> classic_key scancode;
     case key of None \<Rightarrow> Some s | Some c \<Rightarrow> keyboard_push s c
   }"

end
