(* ===== verification/Idt.thy ===== *)
theory Idt
  imports Process
begin

text \<open>
  Interrupts, \<^verbatim>\<open>src/src/idt/idt.c\<close>: the descriptor table, the handlers of the timer and of the keyboard, and the
  table of system calls. A handler in assembler is its address.
\<close>

section \<open>Data\<close>

abbreviation (input) PEACHOS_TOTAL_INTERRUPTS :: nat where "PEACHOS_TOTAL_INTERRUPTS \<equiv> 512"
abbreviation (input) PEACHOS_MAX_ISR80H_COMMANDS :: nat where "PEACHOS_MAX_ISR80H_COMMANDS \<equiv> 1024"
abbreviation (input) KERNEL_CODE_SELECTOR :: u32 where "KERNEL_CODE_SELECTOR \<equiv> 0x08"
abbreviation (input) KERNEL_DATA_SELECTOR :: u32 where "KERNEL_DATA_SELECTOR \<equiv> 0x10"

record idt_desc =
  d_offset_1 :: u16
  d_selector :: u16
  d_zero :: byte
  d_type_attr :: byte
  d_offset_2 :: u16

record idtr_desc =
  i_limit :: u16
  i_base :: u32

text \<open>The addresses of the entry points in \<^verbatim>\<open>src/src/idt/idt.asm\<close>, of \<^verbatim>\<open>idt_zero\<close> and of the table.\<close>

record idt_symbols =
  a_no_interrupt :: u32
  a_idt_zero :: u32
  a_int20h :: u32
  a_int21h :: u32
  a_isr80h_wrapper :: u32
  a_idt_descriptors :: u32

section \<open>Descriptors\<close>

definition idt_set :: "idt_desc list \<Rightarrow> int \<Rightarrow> u32 \<Rightarrow> idt_desc list option" where
  "idt_set tab interrupt_no address =
     (if 0 \<le> interrupt_no \<and> nat interrupt_no < length tab
      then Some (tab[nat interrupt_no := \<lparr>d_offset_1 = ucast (address AND 0x0000ffff), d_selector = ucast KERNEL_CODE_SELECTOR,
             d_zero = 0, d_type_attr = 0xEE, d_offset_2 = ucast (drop_bit 16 address)\<rparr>])
      else None)"

definition zero_desc :: idt_desc where
  "zero_desc = \<lparr>d_offset_1 = 0, d_selector = 0, d_zero = 0, d_type_attr = 0, d_offset_2 = 0\<rparr>"

text \<open>
  The table, the operand of \<^verbatim>\<open>lidt\<close> and the bytes that are written to the interrupt controllers. A descriptor
  has eight bytes.
\<close>

definition idt_init :: "idt_symbols \<Rightarrow> port_log \<Rightarrow> (idt_desc list \<times> idtr_desc \<times> port_log) option" where
  "idt_init a ports = do {
     let tab = replicate PEACHOS_TOTAL_INTERRUPTS zero_desc;
     let idtr = \<lparr>i_limit = of_nat (8 * PEACHOS_TOTAL_INTERRUPTS - 1), i_base = a_idt_descriptors a\<rparr>;
     tab \<leftarrow> for_loop 0 PEACHOS_TOTAL_INTERRUPTS (\<lambda>i tab. idt_set tab (int i) (a_no_interrupt a)) tab;
     tab \<leftarrow> idt_set tab 0 (a_idt_zero a);
     tab \<leftarrow> idt_set tab 0x20 (a_int20h a);
     tab \<leftarrow> idt_set tab 0x21 (a_int21h a);
     tab \<leftarrow> idt_set tab 0x80 (a_isr80h_wrapper a);
     Some (tab, idtr, ports @ [(0x20, 0x11), (0xA0, 0x11), (0x21, 0x20), (0xA1, 0x28), (0x21, 0x04), (0xA1, 0x02),
       (0x21, 0x01), (0xA1, 0x01), (0x21, 0x00), (0xA1, 0x00)])
   }"

section \<open>Handlers\<close>

definition outb_20 :: "sys \<Rightarrow> sys" where
  "outb_20 s = s\<lparr>y_ports := y_ports s @ [(0x20, 0x20)]\<rparr>"

text \<open>The scan code is what the controller has at port 0x60.\<close>

definition int21h_handler :: "sys \<Rightarrow> byte \<Rightarrow> sys option" where
  "int21h_handler s scancode = clasic_keyboard_handle_interrupt (outb_20 s) scancode"

definition no_interrupt_handler :: "sys \<Rightarrow> sys" where
  "no_interrupt_handler s = outb_20 s"

text \<open>The result is the task whose registers the code returns, or 0.\<close>

definition int20h_handler :: "sys \<Rightarrow> interrupt_frame \<Rightarrow> (u32 \<times> sys) option" where
  "int20h_handler s frame = (
     let s1 = outb_20 s in
     if task_current s1 = 0 then Some (0, s1)
     else if f_cs frame AND 3 \<noteq> 3 then Some (0, s1)
     else do {
       s2 \<leftarrow> task_current_save_state s1 frame;
       next \<leftarrow> task_get_next s2;
       if next = 0 \<or> next = task_current s2 then Some (0, s2)
       else do { (_, s3) \<leftarrow> task_switch s2 next; Some (next, s3) }
     })"

text \<open>``Divide by zero error''\<close>

definition idt_zero :: "sys \<Rightarrow> sys option" where
  "idt_zero s = sys_print s [0x44, 0x69, 0x76, 0x69, 0x64, 0x65, 0x20, 0x62, 0x79, 0x20, 0x7A, 0x65, 0x72, 0x6F, 0x20,
     0x65, 0x72, 0x72, 0x6F, 0x72, 0x0A, 0]"

section \<open>System calls\<close>

text \<open>The kernel panics, and does not return, for a number out of range or taken.\<close>

definition isr80h_register_command :: "sys \<Rightarrow> int \<Rightarrow> isr80h_command \<Rightarrow> sys option" where
  "isr80h_register_command s command_id command =
     (if command_id < 0 \<or> command_id \<ge> int PEACHOS_MAX_ISR80H_COMMANDS then None
      else if y_commands s ! nat command_id \<noteq> None then None
      else Some (s\<lparr>y_commands := (y_commands s)[nat command_id := Some command]\<rparr>))"

text \<open>\<open>call\<close> is the call through a function pointer of the table.\<close>

definition isr80h_handle_command ::
    "(isr80h_command \<Rightarrow> sys \<Rightarrow> (u32 \<times> sys) option) \<Rightarrow> sys \<Rightarrow> int \<Rightarrow> (u32 \<times> sys) option" where
  "isr80h_handle_command call s command =
     (if command < 0 \<or> command \<ge> int PEACHOS_MAX_ISR80H_COMMANDS then Some (0, s)
      else (case y_commands s ! nat command of
          None \<Rightarrow> Some (0, s)
        | Some command_func \<Rightarrow> call command_func s))"

definition isr80h_handler ::
    "(isr80h_command \<Rightarrow> sys \<Rightarrow> (u32 \<times> sys) option) \<Rightarrow> sys \<Rightarrow> int \<Rightarrow> interrupt_frame \<Rightarrow> (u32 \<times> sys) option" where
  "isr80h_handler call s command frame = do {
     let s1 = kernel_page s;
     s2 \<leftarrow> task_current_save_state s1 frame;
     (res, s3) \<leftarrow> isr80h_handle_command call s2 command;
     (_, s4) \<leftarrow> task_page s3;
     Some (res, s4)
   }"

end
