(* ===== verification/Isr80h.thy ===== *)
theory Isr80h
  imports Idt
begin

text \<open>
  The system calls, \<^verbatim>\<open>src/src/isr80h\<close>: files and text (\<^verbatim>\<open>io.c\<close>), processes (\<^verbatim>\<open>process.c\<close>), the sum (\<^verbatim>\<open>misc.c\<close>)
  and the table (\<^verbatim>\<open>isr80h.c\<close>). The arguments are on the stack of the task; the result is what the program finds in
  \<^verbatim>\<open>eax\<close>. No call reads the frame it is given, which is left out.
\<close>

section \<open>Text and files\<close>

abbreviation (input) int_of :: "u32 \<Rightarrow> int" where "int_of \<equiv> sint"

definition isr80h_command0_sum :: "sys \<Rightarrow> (u32 \<times> sys) option" where
  "isr80h_command0_sum s = do {
     (v2, s1) \<leftarrow> task_get_stack_item s (task_current s) 1;
     (v1, s2) \<leftarrow> task_get_stack_item s1 (task_current s1) 0;
     Some (v1 + v2, s2)
   }"

text \<open>When the copy fails the code prints a buffer that it has not set.\<close>

definition isr80h_command1_print :: "sys \<Rightarrow> (u32 \<times> sys) option" where
  "isr80h_command1_print s = do {
     (user_space_msg_buffer, s1) \<leftarrow> task_get_stack_item s (task_current s) 0;
     (res, buf, s2) \<leftarrow> copy_string_from_task s1 (task_current s1) user_space_msg_buffer (replicate 1024 0) 1024;
     if res < 0 then None
     else do { s3 \<leftarrow> sys_print s2 buf; Some (0, s3) }
   }"

definition isr80h_command2_open :: "sys \<Rightarrow> (u32 \<times> sys) option" where
  "isr80h_command2_open s = do {
     let task = task_current s;
     (user_path_ptr, s1) \<leftarrow> task_get_stack_item s task 0;
     (mode, s2) \<leftarrow> task_get_stack_item s1 task 1;
     (res, path, s3) \<leftarrow> copy_string_from_task s2 task user_path_ptr (replicate PEACHOS_MAX_PATH 0) (int PEACHOS_MAX_PATH);
     if res < 0 then Some (word_of_int res, s3)
     else if int_of mode = 0 \<or> int_of mode = 1
     then do {
       (fd, v) \<leftarrow> fopen kernel_ops (y_vfs s3) path (if int_of mode = 0 then [0x72, 0] else [0x77, 0]);
       Some (word_of_int fd, s3\<lparr>y_vfs := v\<rparr>)
     }
     else Some (word_of_int (- EINVARG), s3)
   }"

definition isr80h_command3_read :: "sys \<Rightarrow> (u32 \<times> sys) option" where
  "isr80h_command3_read s = do {
     let task = task_current s;
     (fd, s1) \<leftarrow> task_get_stack_item s task 0;
     (user_buf, s2) \<leftarrow> task_get_stack_item s1 task 1;
     (count, s3) \<leftarrow> task_get_stack_item s2 task 2;
     if int_of count \<le> 0 \<or> int_of count \<ge> 4096 then Some (word_of_int (- EINVARG), s3)
     else do {
       (kernel_buf, s4) \<leftarrow> sys_kzalloc s3 count;
       if kernel_buf = 0 then Some (word_of_int (- ENOMEM), s4)
       else do {
         (bytes_read, out, v) \<leftarrow> fread kernel_ops (y_vfs s4) 1 count (int_of fd);
         let s5 = s4\<lparr>y_vfs := v, y_ram := store_bytes (y_ram s4) kernel_buf out\<rparr>;
         (copy_res, s6) \<leftarrow> (if bytes_read > 0
            then copy_to_task s5 task user_buf (load_bytes (y_ram s5) kernel_buf (unat count)) bytes_read
            else Some (0, s5));
         s7 \<leftarrow> sys_kfree s6 kernel_buf;
         Some (word_of_int (if copy_res < 0 then copy_res else bytes_read), s7)
       }
     }
   }"

definition isr80h_command7_write :: "sys \<Rightarrow> (u32 \<times> sys) option" where
  "isr80h_command7_write s = do {
     let task = task_current s;
     (fd, s1) \<leftarrow> task_get_stack_item s task 0;
     (user_buf, s2) \<leftarrow> task_get_stack_item s1 task 1;
     (count, s3) \<leftarrow> task_get_stack_item s2 task 2;
     if int_of count \<le> 0 \<or> int_of count \<ge> 4096 then Some (word_of_int (- EINVARG), s3)
     else do {
       (kernel_buf, s4) \<leftarrow> sys_kzalloc s3 count;
       if kernel_buf = 0 then Some (word_of_int (- ENOMEM), s4)
       else do {
         (res, buf, s5) \<leftarrow> copy_string_from_task s4 task user_buf (load_bytes (y_ram s4) kernel_buf (unat count)) (int_of count);
         let s6 = s5\<lparr>y_ram := store_bytes (y_ram s5) kernel_buf buf\<rparr>;
         if res < 0 then do { s7 \<leftarrow> sys_kfree s6 kernel_buf; Some (word_of_int res, s7) }
         else do {
           (bytes_written, v) \<leftarrow> fwrite kernel_ops (y_vfs s6) (load_bytes (y_ram s6) kernel_buf (unat count)) 1 count (int_of fd);
           s7 \<leftarrow> sys_kfree (s6\<lparr>y_vfs := v\<rparr>) kernel_buf;
           Some (word_of_int bytes_written, s7)
         }
       }
     }
   }"

definition isr80h_command8_delete :: "sys \<Rightarrow> (u32 \<times> sys) option" where
  "isr80h_command8_delete s = do {
     let task = task_current s;
     (user_path_ptr, s1) \<leftarrow> task_get_stack_item s task 0;
     (res, path, s2) \<leftarrow> copy_string_from_task s1 task user_path_ptr (replicate PEACHOS_MAX_PATH 0) (int PEACHOS_MAX_PATH);
     if res < 0 then Some (word_of_int res, s2)
     else do {
       (res1, v) \<leftarrow> fdelete kernel_ops (y_vfs s2) path;
       Some (word_of_int res1, s2\<lparr>y_vfs := v\<rparr>)
     }
   }"

definition isr80h_command9_close :: "sys \<Rightarrow> (u32 \<times> sys) option" where
  "isr80h_command9_close s = do {
     let task = task_current s;
     (fd, s1) \<leftarrow> task_get_stack_item s task 0;
     (res, v) \<leftarrow> fclose kernel_ops (y_vfs s1) (int_of fd);
     Some (word_of_int res, s1\<lparr>y_vfs := v\<rparr>)
   }"

definition isr80h_command10_readdir :: "sys \<Rightarrow> (u32 \<times> sys) option" where
  "isr80h_command10_readdir s = do {
     let task = task_current s;
     (index, s1) \<leftarrow> task_get_stack_item s task 0;
     (user_buf, s2) \<leftarrow> task_get_stack_item s1 task 1;
     (buf_size, s3) \<leftarrow> task_get_stack_item s2 task 2;
     if int_of index < 0 \<or> int_of buf_size \<le> 0 \<or> int_of buf_size > 256 then Some (word_of_int (- EINVARG), s3)
     else do {
       (kernel_buf, s4) \<leftarrow> sys_kzalloc s3 buf_size;
       if kernel_buf = 0 then Some (word_of_int (- ENOMEM), s4)
       else do {
         (res, buf) \<leftarrow> freaddir kernel_ops (y_vfs s4) (int_of index) (load_bytes (y_ram s4) kernel_buf (unat buf_size)) (int_of buf_size);
         let s5 = s4\<lparr>y_ram := store_bytes (y_ram s4) kernel_buf buf\<rparr>;
         (copy_res, s6) \<leftarrow> (if res > 0
            then copy_to_task s5 task user_buf (load_bytes (y_ram s5) kernel_buf (unat buf_size)) (int_of buf_size)
            else Some (0, s5));
         s7 \<leftarrow> sys_kfree s6 kernel_buf;
         Some (word_of_int (if copy_res < 0 then copy_res else res), s7)
       }
     }
   }"

section \<open>Processes\<close>

definition isr80h_command4_fork :: "sys \<Rightarrow> (u32 \<times> sys) option" where
  "isr80h_command4_fork s = do {
     t \<leftarrow> y_tasks s (task_current s);
     (res, child, s1) \<leftarrow> process_fork s (tk_process t);
     if res < 0 then Some (word_of_int res, s1)
     else do { c \<leftarrow> y_procs s1 child; Some (ucast (p_id c), s1) }
   }"

text \<open>Without a task that is left the kernel prints a message and halts, so that the call does not return.\<close>

definition isr80h_command5_exit :: "sys \<Rightarrow> (u32 \<times> sys) option" where
  "isr80h_command5_exit s = do {
     t \<leftarrow> y_tasks s (task_current s);
     s1 \<leftarrow> process_free s (tk_process t);
     if \<not> task_has_any s1 then None else Some (0, s1)
   }"

definition isr80h_command11_wait :: "sys \<Rightarrow> (u32 \<times> sys) option" where
  "isr80h_command11_wait s = do {
     (pid, s1) \<leftarrow> task_get_stack_item s (task_current s) 0;
     Some (if process_get s1 (int_of pid) \<noteq> 0 then 1 else 0, s1)
   }"

text \<open>
  The kernel enables interrupts, waits with \<^verbatim>\<open>hlt\<close> and disables them. Several interrupts may arrive in the meantime;
  their handlers run with the code segment of the kernel. When none arrives any more it waits for ever.
\<close>

definition kernel_frame :: interrupt_frame where
  "kernel_frame = \<lparr>f_edi = 0, f_esi = 0, f_ebp = 0, f_reserved = 0, f_ebx = 0, f_edx = 0, f_ecx = 0, f_eax = 0, f_ip = 0,
     f_cs = KERNEL_CODE_SELECTOR, f_flags = 0, f_esp = 0, f_ss = 0\<rparr>"

fun deliver :: "sys \<Rightarrow> irq \<Rightarrow> sys option" where
  "deliver s Irq_timer = map_option snd (int20h_handler s kernel_frame)"
| "deliver s (Irq_key scancode) = int21h_handler s scancode"
| "deliver s Irq_other = Some (no_interrupt_handler s)"

fun deliver_all :: "sys \<Rightarrow> irq list \<Rightarrow> sys option" where
  "deliver_all s [] = Some s"
| "deliver_all s (i # is) = do { s1 \<leftarrow> deliver s i; deliver_all s1 is }"

definition hlt :: "sys \<Rightarrow> sys option" where
  "hlt s = (case y_irqs s of [] \<Rightarrow> None | is # iss \<Rightarrow> deliver_all (s\<lparr>y_irqs := iss\<rparr>) is)"

definition sys_writechar :: "sys \<Rightarrow> byte \<Rightarrow> sys option" where
  "sys_writechar s c = map_option (\<lambda>t. s\<lparr>y_term := t\<rparr>) (terminal_writechar (y_term s) c 15)"

text \<open>The loops of \<^verbatim>\<open>isr80h_command6_readline\<close>, which wait \<open>n\<close> times at most.\<close>

fun drain :: "nat \<Rightarrow> sys \<Rightarrow> (byte \<times> sys) option" where
  "drain 0 s = None"
| "drain (Suc n) s = do {
     s1 \<leftarrow> hlt s;
     (c, s2) \<leftarrow> keyboard_pop s1;
     if c = 0x0D \<or> c = 0x0A then drain n s2 else Some (c, s2)
   }"

definition put_kbuf :: "sys \<Rightarrow> u32 \<Rightarrow> nat \<Rightarrow> byte \<Rightarrow> sys" where
  "put_kbuf s kbuf i c = s\<lparr>y_ram := (y_ram s)(unat kbuf + i := c)\<rparr>"

fun readline_loop :: "nat \<Rightarrow> sys \<Rightarrow> u32 \<Rightarrow> nat \<Rightarrow> int \<Rightarrow> (nat \<times> sys) option" where
  "readline_loop n s kbuf i maxlen =
     (if \<not> int i < maxlen - 1 then Some (i, s)
      else case n of 0 \<Rightarrow> None
      | Suc n \<Rightarrow> do {
          s1 \<leftarrow> hlt s;
          (c, s2) \<leftarrow> keyboard_pop s1;
          if c = 0 then readline_loop n s2 kbuf i maxlen
          else if c = 0x08
          then (if i > 0 then do { s3 \<leftarrow> sys_writechar s2 0x08; readline_loop n s3 kbuf (i - 1) maxlen }
                else readline_loop n s2 kbuf i maxlen)
          else do {
            s3 \<leftarrow> sys_writechar s2 (if c = 0x0D then 0x0A else c);
            let s4 = put_kbuf s3 kbuf i c;
            if c = 0x0A \<or> c = 0x0D then Some (i + 1, s4) else readline_loop n s4 kbuf (i + 1) maxlen
          }
        })"

declare readline_loop.simps [simp del]

definition isr80h_command6_readline :: "sys \<Rightarrow> (u32 \<times> sys) option" where
  "isr80h_command6_readline s = do {
     let task = task_current s;
     (user_buf, s1) \<leftarrow> task_get_stack_item s task 0;
     (m, s2) \<leftarrow> task_get_stack_item s1 task 1;
     if int_of m \<le> 0 \<or> int_of m > 512 then Some (- 1, s2)
     else do {
       (kbuf, s3) \<leftarrow> sys_kzalloc s2 m;
       if kbuf = 0 then Some (- 1, s3)
       else do {
         (c, s4) \<leftarrow> drain (length (y_irqs s3)) s3;
         (i, s5) \<leftarrow> (if c \<noteq> 0 \<and> c \<noteq> 0x0D \<and> c \<noteq> 0x0A
            then do { s5 \<leftarrow> sys_writechar s4 c; Some (1, put_kbuf s5 kbuf 0 c) }
            else Some (0, s4));
         (j, s6) \<leftarrow> readline_loop (length (y_irqs s5)) s5 kbuf i (int_of m);
         let s7 = put_kbuf s6 kbuf j 0;
         s8 \<leftarrow> (if j > 0
            then map_option snd (copy_to_task s7 task user_buf (load_bytes (y_ram s7) kbuf (j + 1)) (int j + 1))
            else Some s7);
         s9 \<leftarrow> sys_kfree s8 kbuf;
         Some (of_nat j, s9)
       }
     }
   }"

section \<open>The table\<close>

definition isr80h_register_commands :: "sys \<Rightarrow> sys option" where
  "isr80h_register_commands s = do {
     s \<leftarrow> isr80h_register_command s 0 Command0_sum;
     s \<leftarrow> isr80h_register_command s 1 Command1_print;
     s \<leftarrow> isr80h_register_command s 2 Command2_open;
     s \<leftarrow> isr80h_register_command s 3 Command3_read;
     s \<leftarrow> isr80h_register_command s 4 Command4_fork;
     s \<leftarrow> isr80h_register_command s 5 Command5_exit;
     s \<leftarrow> isr80h_register_command s 6 Command6_readline;
     s \<leftarrow> isr80h_register_command s 7 Command7_write;
     s \<leftarrow> isr80h_register_command s 8 Command8_delete;
     s \<leftarrow> isr80h_register_command s 9 Command9_close;
     s \<leftarrow> isr80h_register_command s 10 Command10_readdir;
     isr80h_register_command s 11 Command11_wait
   }"

text \<open>The call of a command, for the function pointers of the table.\<close>

fun call_command :: "isr80h_command \<Rightarrow> sys \<Rightarrow> (u32 \<times> sys) option" where
  "call_command Command0_sum s = isr80h_command0_sum s"
| "call_command Command1_print s = isr80h_command1_print s"
| "call_command Command2_open s = isr80h_command2_open s"
| "call_command Command3_read s = isr80h_command3_read s"
| "call_command Command4_fork s = isr80h_command4_fork s"
| "call_command Command5_exit s = isr80h_command5_exit s"
| "call_command Command6_readline s = isr80h_command6_readline s"
| "call_command Command7_write s = isr80h_command7_write s"
| "call_command Command8_delete s = isr80h_command8_delete s"
| "call_command Command9_close s = isr80h_command9_close s"
| "call_command Command10_readdir s = isr80h_command10_readdir s"
| "call_command Command11_wait s = isr80h_command11_wait s"

end
