(* ===== verification/Scheduler.thy ===== *)
theory Scheduler
  imports Idt
begin

text \<open>
  The list of tasks while tasks come, end and are scheduled: the invariant of the list under the steps of the kernel,
  and the turns that the timer gives to the tasks.
\<close>

section \<open>Ending the last task\<close>

lemma ring_shrink:
  assumes "tasks_ok s (xs @ [a])" and ts: "y_tasks s' = (if xs = [] then Map.empty else (y_tasks s)(last xs \<mapsto> l\<lparr>tk_next := 0\<rparr>, a := None))"
    and l: "xs \<noteq> [] \<Longrightarrow> y_tasks s (last xs) = Some l"
    and g: "y_task_head s' = (if xs = [] then 0 else y_task_head s)" "xs \<noteq> [] \<Longrightarrow> y_task_tail s' = last xs"
      "y_current_task s' = (if y_current_task s \<noteq> a then y_current_task s else if xs = [] then 0 else hd xs)"
  shows "task_ring s' xs" "prevs (y_tasks s') 0 xs" "dom (y_tasks s') = set xs"
proof -
  note D = tasks_okD [OF assms(1)]
  have a: "a \<notin> set xs" "distinct xs" using D(6) by auto
  show dom: "dom (y_tasks s') = set xs" using D(3) ts l a by (auto split: if_splits)
  have cur: "y_current_task s \<in> set (xs @ [a])" using D(1) by (simp add: task_ring_def)
  have "task_chain (y_tasks s') (y_task_head s') xs"
  proof (cases "xs = []")
    case False
    have "task_chain ((y_tasks s)(last xs \<mapsto> l\<lparr>tk_next := 0\<rparr>)) (y_task_head s) xs"
      by (rule tchain_butlast [OF D(7) False l [OF False] D(6)])
    then show ?thesis using False a(1) g(1) ts by (subst tchain_cong [where ts = "(y_tasks s)(last xs \<mapsto> l\<lparr>tk_next := 0\<rparr>)"]) auto
  qed (use g(1) in simp)
  then show "task_ring s' xs" unfolding task_ring_def using a(2) g cur by auto
  have "prevs (y_tasks s) 0 xs" using D(2) by (simp add: prevs_snoc)
  then show "prevs (y_tasks s') 0 xs" using a(1) ts l by (subst prevs_cong [where ts = "y_tasks s"]) auto
qed

lemma sys_kfree_run:
  assumes "page_slack (y_heap s) k" and "(a, n) \<in> heap_live (y_heap s)"
  obtains h where "sys_kfree s a = Some (put_y_heap s h)" "page_slack h (k + n)" "heap_live h = heap_live (y_heap s) - {(a, n)}"
proof -
  obtain h where "kfree (y_heap s) a = Some h" "page_slack h (k + n)" "heap_live h = heap_live (y_heap s) - {(a, n)}"
    by (rule ph.releaseE [OF assms])
  with that show thesis by (simp add: sys_kfree_def)
qed

lemma task_list_remove_last:
  assumes ok: "task_ring s (xs @ [a])" "prevs (y_tasks s) 0 (xs @ [a])" and l: "xs \<noteq> [] \<Longrightarrow> y_tasks s (last xs) = Some l"
  shows "task_list_remove s a = Some (s\<lparr>y_tasks := (if xs = [] then y_tasks s else (y_tasks s)(last xs \<mapsto> l\<lparr>tk_next := 0\<rparr>)),
     y_task_head := (if xs = [] then 0 else y_task_head s), y_task_tail := (if xs = [] then 0 else last xs),
     y_current_task := (if y_current_task s \<noteq> a then y_current_task s else if xs = [] then 0 else hd xs)\<rparr>)"
proof -
  have D: "distinct (xs @ [a])" "task_chain (y_tasks s) (y_task_head s) (xs @ [a])" using ok(1) by (simp_all add: task_ring_def)
  obtain t where t: "y_tasks s a = Some t" "tk_next t = 0" using tchain_next [OF D(2), of "length xs"] by auto
  have p: "tk_prev t = (if xs = [] then 0 else last xs)" using ok(2) t(1) by (simp add: prevs_snoc)
  have tl: "y_task_tail s = a" using ok(1) by (simp add: task_ring_def)
  show ?thesis
  proof (cases "xs = []")
    case True
    have "y_task_head s = a" using tchain_head [OF D(2)] True by simp
    moreover have "y_current_task s = a" using ok(1) True by (simp add: task_ring_def)
    ultimately show ?thesis using True t p tl by (simp add: task_list_remove_def task_get_next_def)
  next
    case False
    have ne: "last xs \<noteq> a" "hd xs \<noteq> a" using D(1) False by auto
    have h: "y_task_head s = hd xs" using tchain_head [OF D(2)] False by simp
    have "last xs \<noteq> 0" using tchain_nonzero [OF D(2), of "last xs"] False by simp
    with False t p tl ne h l show ?thesis
      by (auto simp: task_list_remove_def task_get_next_def put_task_def split: if_splits)
  qed
qed

lemma task_free_last:
  assumes ok: "tasks_ok s (xs @ [a])" and "page_slack (y_heap s) k"
  shows "\<exists>s'. task_free s a = Some (0, s') \<and> tasks_ok s' xs \<and> page_slack (y_heap s') (k + 1027)
     \<and> heap_live (y_heap s') = heap_live (y_heap s) - (\<lambda>b. (b, 1)) ` set (task_objects s a)
     \<and> y_current_task s' = (if y_current_task s \<noteq> a then y_current_task s else if xs = [] then 0 else hd xs)
     \<and> y_ram s' = y_ram s \<and> y_procs s' = y_procs s \<and> y_processes s' = y_processes s
     \<and> (\<forall>x t. x \<in> set xs \<longrightarrow> y_tasks s x = Some t \<longrightarrow> (\<exists>l. y_tasks s' x = Some (t\<lparr>tk_next := l\<rparr>)))"
proof -
  note D = tasks_okD [OF ok]
  obtain t where t: "y_tasks s a = Some t" using D(3) by auto
  note C = task_chunk_ok [OF ok t]
  obtain h1 where h1: "paging_free_4gb (y_heap s) (y_ram s) (tk_page_directory t) = Some h1" "page_slack h1 (k + 1026)"
    "heap_live h1 = heap_live (y_heap s) - (\<lambda>a. (a, 1)) ` set (chunk_pages (y_ram s) (tk_page_directory t))"
    by (rule paging_free_4gb_run [OF assms(2) C(1)])
  have "(tk_page_directory t, 1) \<in> heap_live (y_heap s)" using C(1) by (simp add: chunk_ok_def chunk_pages_def)
  then have pd: "tk_page_directory t \<noteq> 0" using ph.live_aligned [OF assms(2)] by blast
  obtain l where l: "xs \<noteq> [] \<Longrightarrow> y_tasks s (last xs) = Some l" using D(3) by (metis Un_iff domD last_in_set set_append)
  let ?s1 = "(put_y_heap s h1)\<lparr>y_tasks := (if xs = [] then y_tasks s else (y_tasks s)(last xs \<mapsto> l\<lparr>tk_next := 0\<rparr>)),
     y_task_head := (if xs = [] then 0 else y_task_head s), y_task_tail := (if xs = [] then 0 else last xs),
     y_current_task := (if y_current_task s \<noteq> a then y_current_task s else if xs = [] then 0 else hd xs)\<rparr>"
  have rm: "task_list_remove (put_y_heap s h1) a = Some ?s1"
    by (subst task_list_remove_last [where xs = xs and l = l]) (use D(1,2) l in \<open>simp_all add: task_ring_def\<close>)
  have "(a, 1) \<in> heap_live h1" using C(2,3) h1(3) by auto
  then have "(a, 1) \<in> heap_live (y_heap ?s1)" "page_slack (y_heap ?s1) (k + 1026)" using h1(2) by simp_all
  then obtain h2 where h2: "sys_kfree ?s1 a = Some (put_y_heap ?s1 h2)" "page_slack h2 (k + 1026 + 1)" "heap_live h2 = heap_live h1 - {(a, 1)}"
    using sys_kfree_run [of ?s1 "k + 1026" a 1] by auto
  define s' where "s' = (put_y_heap ?s1 h2)\<lparr>y_tasks := (y_tasks (put_y_heap ?s1 h2))(a := None)\<rparr>"
  have run: "task_free s a = Some (0, s')" using t pd h1(1) rm h2(1) by (simp add: task_free_def s'_def)
  have live: "heap_live (y_heap s') = heap_live (y_heap s) - (\<lambda>b. (b, 1)) ` set (task_objects s a)"
    using h1(3) h2(3) t by (auto simp: s'_def task_objects_def)
  have "dom (y_tasks s) = {a}" if "xs = []" using D(3) that by simp
  then have ts: "y_tasks s' = (if xs = [] then Map.empty else (y_tasks s)(last xs \<mapsto> l\<lparr>tk_next := 0\<rparr>, a := None))"
    using dom_eq_singleton_conv [of "y_tasks s" a] by (auto simp: s'_def)
  have ring: "task_ring s' xs" "prevs (y_tasks s') 0 xs" "dom (y_tasks s') = set xs"
    by (rule ring_shrink [OF ok ts l]; simp add: s'_def)+
  have "task_objects s' x = task_objects s x" if "x \<in> set xs" for x
  proof -
    have "x \<noteq> a" "xs \<noteq> []" using D(6) that by auto
    then show ?thesis by (intro task_objects_cong) (use l in \<open>simp_all add: ts s'_def\<close>)
  qed
  then have m: "map (task_objects s') xs = map (task_objects s) xs" by simp
  have ds: "distinct (concat (map (task_objects s) xs))" "set (concat (map (task_objects s) xs)) \<inter> set (task_objects s a) = {}"
    using D(4) by auto
  have "(b, 1) \<in> heap_live (y_heap s')" if "b \<in> set (concat (map (task_objects s) xs))" for b
    using ds(2) that D(5) live by fastforce
  then have "tasks_ok s' xs" unfolding tasks_ok_def m using ring ds(1) by blast
  moreover have "page_slack (y_heap s') (k + 1027)" using h2(2) by (simp add: s'_def add.commute)
  moreover have "y_current_task s' = (if y_current_task s \<noteq> a then y_current_task s else if xs = [] then 0 else hd xs)" by (simp add: s'_def)
  moreover have "y_ram s' = y_ram s" "y_procs s' = y_procs s" "y_processes s' = y_processes s" by (simp_all add: s'_def put_y_heap_def)
  moreover have "\<exists>j. y_tasks s' x = Some (u\<lparr>tk_next := j\<rparr>)" if x: "x \<in> set xs" "y_tasks s x = Some u" for x u
  proof -
    have "x \<noteq> a" "xs \<noteq> []" using D(6) x(1) by auto
    then show ?thesis using x(2) l by (cases "x = last xs") (auto simp: ts intro: exI [of _ "tk_next u"])
  qed
  ultimately show ?thesis using run live by blast
qed

section \<open>The timer\<close>

lemma tchain_next_cong:
  "(\<And>x. x \<in> set xs \<Longrightarrow> map_option tk_next (ts' x) = map_option tk_next (ts x)) \<Longrightarrow> task_chain ts' a xs = task_chain ts a xs"
proof (induction xs arbitrary: a)
  case (Cons x xs)
  then have "map_option tk_next (ts' x) = map_option tk_next (ts x)" by simp
  then have "(\<exists>t. ts' x = Some t \<and> task_chain ts (tk_next t) xs) = (\<exists>t. ts x = Some t \<and> task_chain ts (tk_next t) xs)"
    by (cases "ts' x"; cases "ts x") auto
  moreover have "task_chain ts' b xs = task_chain ts b xs" for b by (rule Cons.IH) (simp add: Cons.prems)
  ultimately show ?case by simp
qed simp

text \<open>A change of registers and a switch keep the list.\<close>

definition relinked :: "sys \<Rightarrow> sys \<Rightarrow> bool" where
  "relinked s s' \<longleftrightarrow> (\<forall>x. map_option (\<lambda>t. (tk_page_directory t, tk_process t, tk_next t, tk_prev t)) (y_tasks s' x)
       = map_option (\<lambda>t. (tk_page_directory t, tk_process t, tk_next t, tk_prev t)) (y_tasks s x))
     \<and> y_ram s' = y_ram s \<and> y_heap s' = y_heap s \<and> y_task_head s' = y_task_head s \<and> y_task_tail s' = y_task_tail s"

lemma relinked_field:
  assumes "relinked s s'"
  shows "map_option tk_page_directory (y_tasks s' x) = map_option tk_page_directory (y_tasks s x)"
    "map_option tk_next (y_tasks s' x) = map_option tk_next (y_tasks s x)" "map_option tk_prev (y_tasks s' x) = map_option tk_prev (y_tasks s x)"
    "map_option tk_process (y_tasks s' x) = map_option tk_process (y_tasks s x)"
proof -
  have "map_option (\<lambda>t. (tk_page_directory t, tk_process t, tk_next t, tk_prev t)) (y_tasks s' x)
       = map_option (\<lambda>t. (tk_page_directory t, tk_process t, tk_next t, tk_prev t)) (y_tasks s x)" using assms by (simp add: relinked_def)
  then show "map_option tk_page_directory (y_tasks s' x) = map_option tk_page_directory (y_tasks s x)"
    "map_option tk_next (y_tasks s' x) = map_option tk_next (y_tasks s x)" "map_option tk_prev (y_tasks s' x) = map_option tk_prev (y_tasks s x)"
    "map_option tk_process (y_tasks s' x) = map_option tk_process (y_tasks s x)"
    by (cases "y_tasks s' x"; cases "y_tasks s x"; simp)+
qed

lemma relinked_tasks_ok:
  assumes "tasks_ok s xs" and "relinked s s'" and "if xs = [] then y_current_task s' = 0 else y_current_task s' \<in> set xs"
  shows "tasks_ok s' xs"
proof -
  note D = tasks_okD [OF assms(1)] and F = relinked_field [OF assms(2)]
  have r: "y_ram s' = y_ram s" "y_heap s' = y_heap s" "y_task_head s' = y_task_head s" "y_task_tail s' = y_task_tail s"
    using assms(2) by (simp_all add: relinked_def)
  have "task_objects s' x = task_objects s x" for x by (rule task_objects_cong) (simp_all add: F r)
  then have m: "map (task_objects s') xs = map (task_objects s) xs" by simp
  have "task_chain (y_tasks s') (y_task_head s') xs" using D(7) tchain_next_cong [of xs "y_tasks s'" "y_tasks s"] F(2) r(3) by simp
  then have "task_ring s' xs" using D(1) r(4) assms(3) by (simp add: task_ring_def split: if_splits)
  moreover have "prevs (y_tasks s') 0 xs" using D(2) prevs_cong [of xs "y_tasks s'" "y_tasks s"] F(3) by simp
  moreover have "dom (y_tasks s') = set xs"
    using F(1) D(3) by (metis (no_types, lifting) domIff option.map_disc_iff subsetI subset_antisym)
  ultimately show ?thesis using assms(1) unfolding tasks_ok_def m r by blast
qed

text \<open>One tick while a program runs: the registers of the task are saved and the next task runs.\<close>

lemma tick:
  assumes ok: "tasks_ok s xs" and i: "i < length xs" "y_current_task s = xs ! i" and user: "f_cs frame AND 3 = 3"
  shows "\<exists>s' t u. int20h_handler s frame = Some (if length xs = 1 then 0 else y_current_task s', s') \<and> tasks_ok s' xs
     \<and> y_current_task s' = xs ! (Suc i mod length xs) \<and> relinked s s'
     \<and> y_tasks s (xs ! i) = Some t \<and> y_tasks s' = (y_tasks s)(xs ! i \<mapsto> t\<lparr>tk_registers := saved frame (tk_registers t)\<rparr>)
     \<and> (length xs \<noteq> 1 \<longrightarrow> y_tasks s' (y_current_task s') = Some u \<and> y_current_process s' = tk_process u
          \<and> y_directory s' = load32 (y_ram s) (tk_page_directory u))"
proof -
  note D = tasks_okD [OF ok]
  obtain t where t: "y_tasks s (xs ! i) = Some t" "tk_next t = (if Suc i < length xs then xs ! Suc i else 0)"
    using tchain_next [OF D(7) i(1)] by blast
  have nz: "x \<noteq> 0" if "x \<in> set xs" for x using tchain_nonzero [OF D(7) that] by blast
  let ?n = "xs ! (Suc i mod length xs)"
  let ?s = "put_task (outb_20 s) (xs ! i) (t\<lparr>tk_registers := saved frame (tk_registers t)\<rparr>)"
  have n: "?n \<in> set xs" using i(1) by (intro nth_mem mod_less_divisor) linarith
  have wrap: "Suc i < length xs \<or> Suc i = length xs" using i(1) by linarith
  have one: "?n = xs ! i \<longleftrightarrow> length xs = 1"
  proof
    assume "?n = xs ! i"
    moreover have "Suc i mod length xs < length xs" using i(1) by (intro mod_less_divisor) linarith
    ultimately have "Suc i mod length xs = i" using D(6) i(1) by (simp only: nth_eq_iff_index_eq)
    then show "length xs = 1" using wrap by auto
  qed (use i(1) in auto)
  have hd: "y_task_head s = xs ! 0" using tchain_head [OF D(7)] i(1) by (simp add: hd_conv_nth split: if_splits) 
  have nxt: "task_get_next ?s = Some ?n"
    using wrap t i nz [OF nth_mem, of "Suc i"] hd by (auto simp: task_get_next_def outb_20_def put_task_def)
  obtain u where u: "y_tasks ?s ?n = Some u" using n D(3) by (cases "?n = xs ! i") (auto simp: outb_20_def put_task_def)
  define s' where "s' = (if length xs = 1 then ?s
     else ?s\<lparr>y_current_task := ?n, y_current_process := tk_process u, y_directory := paging_switch (y_ram s) (tk_page_directory u)\<rparr>)"
  have run: "int20h_handler s frame = Some (if length xs = 1 then 0 else ?n, s')"
    using i user t(1) nxt u nz [OF nth_mem [OF i(1)]] nz [OF n] one
    by (cases "length xs = 1") (simp_all add: int20h_handler_def task_current_save_state_def task_save_state_def task_switch_def
        task_current_def outb_20_def put_task_def s'_def Let_def)
  have "y_current_task s' = (if length xs = 1 then xs ! i else ?n)" using i(2) by (simp add: s'_def outb_20_def put_task_def)
  then have cur: "y_current_task s' = ?n" using one by argo
  have rel: "relinked s s'" using t(1) by (auto simp: relinked_def s'_def outb_20_def put_task_def y_heap_def)
  have ok': "tasks_ok s' xs" by (rule relinked_tasks_ok [OF ok rel]) (use cur n in auto)
  have ts: "y_tasks s' = (y_tasks s)(xs ! i \<mapsto> t\<lparr>tk_registers := saved frame (tk_registers t)\<rparr>)" by (simp add: s'_def outb_20_def put_task_def)
  have "length xs \<noteq> 1 \<longrightarrow> y_tasks s' ?n = Some u \<and> y_current_process s' = tk_process u \<and> y_directory s' = load32 (y_ram s) (tk_page_directory u)"
    using u by (simp add: s'_def paging_switch_def)
  with run cur rel ok' ts t(1) show ?thesis by (intro exI [of _ s'] exI [of _ t] exI [of _ u]) simp
qed

section \<open>Steps of the kernel on the list\<close>

text \<open>
  A task is made for a process, the last one of the list ends, or the timer interrupts. Memory for the new task is
  assumed: the code does not check for it.
\<close>

inductive task_step :: "sys \<Rightarrow> sys \<Rightarrow> bool" where
  step_new: "page_slack (y_heap s) (1027 + k) \<Longrightarrow> task_new s process = Some (r, s') \<Longrightarrow> task_step s s'"
| step_end: "y_task_head s \<noteq> 0 \<Longrightarrow> task_free s (y_task_tail s) = Some (r, s') \<Longrightarrow> task_step s s'"
| step_tick: "int20h_handler s frame = Some (r, s') \<Longrightarrow> task_step s s'"

inductive_cases task_stepE: "task_step s s'"

definition list_ok :: "sys \<Rightarrow> bool" where
  "list_ok s \<longleftrightarrow> (\<exists>xs. tasks_ok s xs) \<and> page_slack (y_heap s) 0"

lemma page_slack_0: "page_slack h k \<Longrightarrow> page_slack h 0"
  by (rule ph.slack_mono) simp_all

lemma tick_ok:
  assumes "tasks_ok s xs" and "page_slack (y_heap s) 0" and "int20h_handler s frame = Some (r, s')"
  shows "tasks_ok s' xs \<and> page_slack (y_heap s') 0"
proof (cases "xs = [] \<or> f_cs frame AND 3 \<noteq> 3")
  case True
  note D = tasks_okD [OF assms(1)]
  have "y_current_task s = 0" if "xs = []" using D(1) that by (simp add: task_ring_def)
  then have "s' = outb_20 s" using True assms(3) by (auto simp: int20h_handler_def task_current_def outb_20_def Let_def split: if_splits)
  then have "relinked s s'" "y_current_task s' = y_current_task s" by (simp_all add: relinked_def outb_20_def y_heap_def)
  with relinked_tasks_ok [OF assms(1)] D(1) assms(2) show ?thesis by (auto simp: relinked_def task_ring_def)
next
  case False
  then have "y_current_task s \<in> set xs" using tasks_okD(1) [OF assms(1)] by (simp add: task_ring_def)
  then obtain i where i: "i < length xs" "y_current_task s = xs ! i" by (metis in_set_conv_nth)
  from tick [OF assms(1) i, of frame] False assms(2,3) show ?thesis by (auto simp: relinked_def)
qed

lemma step_list_ok: "task_step s s' \<Longrightarrow> list_ok s \<Longrightarrow> list_ok s'"
proof (cases rule: task_step.cases, assumption)
  fix k process r assume "list_ok s" "page_slack (y_heap s) (1027 + k)" "task_new s process = Some (r, s')"
  then obtain xs where "tasks_ok s xs" by (auto simp: list_ok_def)
  from task_new_run [OF this \<open>page_slack (y_heap s) (1027 + k)\<close>, of process] \<open>task_new s process = Some (r, s')\<close>
  show "list_ok s'" by (auto simp: list_ok_def intro: page_slack_0)
next
  fix r assume a: "list_ok s" "y_task_head s \<noteq> 0" "task_free s (y_task_tail s) = Some (r, s')"
  then obtain xs where xs: "tasks_ok s xs" "page_slack (y_heap s) 0" by (auto simp: list_ok_def)
  have "xs \<noteq> []" using tasks_okD(7) [OF xs(1)] a(2) by auto
  then obtain ys y where y: "xs = ys @ [y]" by (metis rev_exhaust)
  then have "y_task_tail s = y" using tasks_okD(1) [OF xs(1)] by (simp add: task_ring_def)
  with task_free_last [OF xs(1) [unfolded y] xs(2)] a(3) have "tasks_ok s' ys" "page_slack (y_heap s') (0 + 1027)" by auto
  then show "list_ok s'" unfolding list_ok_def using page_slack_0 by blast
next
  fix frame r assume a: "list_ok s" "int20h_handler s frame = Some (r, s')"
  then obtain xs where "tasks_ok s xs" "page_slack (y_heap s) 0" by (auto simp: list_ok_def)
  from tick_ok [OF this a(2)] show "list_ok s'" by (auto simp: list_ok_def)
qed

section \<open>Turns\<close>

text \<open>The ticks that interrupt programs, with the frames that the processor pushes.\<close>

fun ticks :: "sys \<Rightarrow> interrupt_frame list \<Rightarrow> sys option" where
  "ticks s [] = Some s"
| "ticks s (frame # frames) = do { (_, s1) \<leftarrow> int20h_handler s frame; ticks s1 frames }"

lemma ticks_run:
  assumes "tasks_ok s xs" and "i < length xs" and "y_current_task s = xs ! i" and "\<forall>f \<in> set frames. f_cs f AND 3 = 3"
  shows "\<exists>s'. ticks s frames = Some s' \<and> tasks_ok s' xs \<and> y_current_task s' = xs ! ((i + length frames) mod length xs)"
  using assms
proof (induction frames arbitrary: s i)
  case (Cons f frames)
  from tick [OF Cons.prems(1-3), of f] Cons.prems(4) obtain r s1 where s1: "int20h_handler s f = Some (r, s1)" "tasks_ok s1 xs"
    "y_current_task s1 = xs ! (Suc i mod length xs)" by auto
  have "Suc i mod length xs < length xs" using Cons.prems(2) by (intro mod_less_divisor) linarith
  from Cons.IH [OF s1(2) this s1(3)] Cons.prems(4) s1(1) show ?case by (simp add: mod_add_left_eq)
qed simp

section \<open>Properties\<close>

text \<open>A kernel without tasks on a heap of 3000 pages.\<close>

definition demo_vfs0 :: "fat_file_descriptor vfs" where
  "demo_vfs0 = \<lparr>v_k = \<lparr>k_drive = (\<lambda>_. 0), k_heap = page_demo, k_disk = \<lparr>dk_type = 0, dk_sector_size = 512, dk_id = 0,
     dk_filesystem = None, dk_fs_private = None\<rparr>\<rparr>, v_filesystems = replicate 12 None, v_fds = replicate 512 None, v_fs_name = replicate 20 0\<rparr>"

definition demo_sys :: sys where
  "demo_sys = \<lparr>y_vfs = demo_vfs0, y_ram = (\<lambda>_. 0), y_tasks = Map.empty, y_procs = Map.empty, y_processes = replicate 12 0,
     y_current_process = 0, y_current_task = 0, y_task_head = 0, y_task_tail = 0, y_directory = 0, y_kernel_chunk = 0,
     y_term = \<lparr>t_video_mem = 0xB8000, t_vga = replicate 2000 0x20, t_row = 0, t_col = 0, t_ports = []\<rparr>,
     y_commands = replicate 1024 None, y_ports = [], y_irqs = []\<rparr>"

lemma demo_sys_ok: "tasks_ok demo_sys []" "page_slack (y_heap demo_sys) (1027 + (1027 + 0))"
proof -
  show "tasks_ok demo_sys []" by (simp add: tasks_ok_def task_ring_def demo_sys_def)
  have "y_heap demo_sys = page_demo" by (simp add: y_heap_def demo_sys_def demo_vfs0_def)
  then show "page_slack (y_heap demo_sys) (1027 + (1027 + 0))" using ph.slack_mono [OF page_demo_slack] by simp
qed

text \<open>Two tasks, with the steps that make them.\<close>

lemma demo_two_tasks:
  obtains s1 s2 a b where "task_step demo_sys s1" "task_step s1 s2" "tasks_ok s2 [a, b]" "page_slack (y_heap s2) 0" "y_current_task s2 = a"
proof -
  obtain a s1 where s1: "task_new demo_sys 0 = Some (Inr a, s1)" "tasks_ok s1 ([] @ [a])" "page_slack (y_heap s1) (1027 + 0)" "y_current_task s1 = a"
    using task_new_run [OF demo_sys_ok, of 0] by auto
  from task_new_run [OF s1(2,3), of 0] s1(4) obtain b s2 where s2: "task_new s1 0 = Some (Inr b, s2)"
    "tasks_ok s2 (([] @ [a]) @ [b])" "page_slack (y_heap s2) 0" "y_current_task s2 = a" by auto
  show thesis
  proof (rule that)
    show "task_step demo_sys s1" by (rule step_new [OF demo_sys_ok(2) s1(1)])
    show "task_step s1 s2" by (rule step_new [OF s1(3) s2(1)])
  qed (use s2 in simp_all)
qed

text \<open>
  C16: Whatever tasks are made, end at the end of the list and are interrupted, in any order, the list stays intact:
  \<^verbatim>\<open>next\<close> and \<^verbatim>\<open>prev\<close> link the tasks from the head to the tail, the current task is one of them, and every task and every
  page of its address space is a live heap object of its own.
\<close>

theorem task_list_invariant:
  assumes "list_ok s" and "task_step\<^sup>*\<^sup>* s s'"
  shows "\<exists>xs. task_chain (y_tasks s') (y_task_head s') xs \<and> prevs (y_tasks s') 0 xs \<and> distinct xs \<and> dom (y_tasks s') = set xs
     \<and> (xs = [] \<and> y_current_task s' = 0 \<or> xs \<noteq> [] \<and> y_task_tail s' = last xs \<and> y_current_task s' \<in> set xs)
     \<and> distinct (concat (map (task_objects s') xs)) \<and> (\<lambda>a. (a, 1)) ` set (concat (map (task_objects s') xs)) \<subseteq> heap_live (y_heap s')"
proof -
  have "list_ok s'" using assms(2,1) by (induction rule: rtranclp_induct) (auto intro: step_list_ok)
  then obtain xs where "tasks_ok s' xs" by (auto simp: list_ok_def)
  then show ?thesis by (intro exI [of _ xs]) (auto simp: tasks_ok_def task_ring_def split: if_splits)
qed

theorem task_list_invariant_witness:
  "\<exists>s' xs. task_step\<^sup>*\<^sup>* demo_sys s' \<and> s' \<noteq> demo_sys \<and> task_chain (y_tasks s') (y_task_head s') xs \<and> prevs (y_tasks s') 0 xs"
proof -
  obtain s1 s2 a b where s: "task_step demo_sys s1" "task_step s1 s2" "tasks_ok s2 [a, b]" by (rule demo_two_tasks)
  have "list_ok demo_sys" using demo_sys_ok page_slack_0 by (auto simp: list_ok_def)
  moreover have st: "task_step\<^sup>*\<^sup>* demo_sys s2" using s(1,2) by (meson converse_rtranclp_into_rtranclp r_into_rtranclp)
  ultimately obtain xs where "task_chain (y_tasks s2) (y_task_head s2) xs" "prevs (y_tasks s2) 0 xs"
    using task_list_invariant [of demo_sys s2] by blast
  moreover have "s2 \<noteq> demo_sys" using s(3) by (auto simp: tasks_ok_def task_ring_def demo_sys_def)
  ultimately show ?thesis using st by blast
qed

text \<open>
  C17: The timer gives every task its turn: from any task that runs, every task of the list runs after fewer ticks than
  there are tasks, and after that many ticks the first one runs again. The ticks never fail.
\<close>

theorem round_robin:
  assumes "tasks_ok s xs" and "x \<in> set xs" and "length frames = length xs" and "\<forall>f \<in> set frames. f_cs f AND 3 = 3"
  shows "(\<exists>k s1. k < length xs \<and> ticks s (take k frames) = Some s1 \<and> y_current_task s1 = x)
     \<and> (\<exists>s2. ticks s frames = Some s2 \<and> y_current_task s2 = y_current_task s \<and> tasks_ok s2 xs)"
proof -
  have "y_current_task s \<in> set xs" using tasks_okD(1) [OF assms(1)] assms(2) by (auto simp: task_ring_def split: if_splits)
  then obtain i where i: "i < length xs" "y_current_task s = xs ! i" by (metis in_set_conv_nth)
  obtain j where j: "j < length xs" "x = xs ! j" using assms(2) by (metis in_set_conv_nth)
  let ?k = "(j + length xs - i) mod length xs"
  have k: "?k < length xs" using i(1) by (intro mod_less_divisor) linarith
  have "(i + ?k) mod length xs = j" using i(1) j(1) by (simp add: mod_add_right_eq)
  moreover have "\<forall>f \<in> set (take ?k frames). f_cs f AND 3 = 3" using assms(4) by (meson in_set_takeD)
  ultimately have "\<exists>s1. ticks s (take ?k frames) = Some s1 \<and> y_current_task s1 = x"
    using ticks_run [OF assms(1) i, of "take ?k frames"] k j assms(3) by auto
  moreover have "\<exists>s2. ticks s frames = Some s2 \<and> y_current_task s2 = y_current_task s \<and> tasks_ok s2 xs"
    using ticks_run [OF assms(1) i assms(4)] i assms(3) by auto
  ultimately show ?thesis using k by blast
qed

definition user_frame :: interrupt_frame where
  "user_frame = \<lparr>f_edi = 0, f_esi = 0, f_ebp = 0, f_reserved = 0, f_ebx = 0, f_edx = 0, f_ecx = 0, f_eax = 0, f_ip = 0x400000,
     f_cs = USER_CODE_SEGMENT, f_flags = 0x200, f_esp = 0x3FF000, f_ss = USER_DATA_SEGMENT\<rparr>"

theorem round_robin_witness:
  "\<exists>s a b s1. a \<noteq> b \<and> y_current_task s = a \<and> ticks s [user_frame] = Some s1 \<and> y_current_task s1 = b"
proof -
  obtain s1 s2 a b where s: "task_step demo_sys s1" "task_step s1 s2" "tasks_ok s2 [a, b]" "y_current_task s2 = a" by (rule demo_two_tasks)
  have ab: "a \<noteq> b" using tasks_okD(6) [OF s(3)] by simp
  have u: "f_cs user_frame AND 3 = 3" by (simp add: user_frame_def)
  have "\<exists>k s3. k < length [a, b] \<and> ticks s2 (take k [user_frame, user_frame]) = Some s3 \<and> y_current_task s3 = b"
    using round_robin [OF s(3), of b "[user_frame, user_frame]"] u by simp
  then obtain k s3 where k: "k < length [a, b]" "ticks s2 (take k [user_frame, user_frame]) = Some s3" "y_current_task s3 = b" by blast
  have "k \<noteq> 0" using k(2,3) s(4) ab by (cases k) auto
  then have "k = 1" using k(1) by simp
  with k s(4) ab show ?thesis by auto
qed

text \<open>
  C30: \<^verbatim>\<open>task_list_remove\<close> leaves the pointer \<^verbatim>\<open>prev\<close> of the task behind the removed one. When the first of several tasks
  is freed, \<^verbatim>\<open>prev\<close> of the second one points to an object that is no longer live, and freeing the second one
  follows it.
\<close>

theorem task_remove_first_dangles:
  assumes "tasks_ok s (a # b # ys)" and "page_slack (y_heap s) k"
  shows "\<exists>s1 u. task_free s a = Some (0, s1) \<and> y_task_head s1 = b \<and> y_tasks s1 b = Some u \<and> tk_prev u = a
     \<and> (a, 1) \<in> heap_live (y_heap s) \<and> (a, 1) \<notin> heap_live (y_heap s1) \<and> task_free s1 b = None"
proof -
  note D = tasks_okD [OF assms(1)]
  have ab: "a \<noteq> b" "a \<noteq> last (b # ys)" using D(6) by (auto simp: last_in_set)
  obtain t where t: "y_tasks s a = Some t" "tk_next t = b" "tk_prev t = 0" using D(2,7) by auto
  obtain u where u: "y_tasks s b = Some u" "tk_prev u = a" using D(2) by auto
  have bnz: "b \<noteq> 0" "a \<noteq> 0" using tchain_nonzero [OF D(7)] by auto
  have g: "y_task_head s = a" "y_task_tail s = last (b # ys)" using D(1,7) by (simp_all add: task_ring_def)
  note C = task_chunk_ok [OF assms(1) t(1)] and B = task_chunk_ok [OF assms(1) u(1)]
  obtain h1 where h1: "paging_free_4gb (y_heap s) (y_ram s) (tk_page_directory t) = Some h1" "page_slack h1 (k + 1026)"
    "heap_live h1 = heap_live (y_heap s) - (\<lambda>a. (a, 1)) ` set (chunk_pages (y_ram s) (tk_page_directory t))"
    by (rule paging_free_4gb_run [OF assms(2) C(1)])
  have "(tk_page_directory t, 1) \<in> heap_live (y_heap s)" using C(1) by (simp add: chunk_ok_def chunk_pages_def)
  then have pd: "tk_page_directory t \<noteq> 0" using ph.live_aligned [OF assms(2)] by blast
  let ?s1 = "(put_y_heap s h1)\<lparr>y_task_head := b, y_current_task := (if y_current_task s = a then b else y_current_task s)\<rparr>"
  have rm: "task_list_remove (put_y_heap s h1) a = Some ?s1"
    using t u g ab bnz by (auto simp: task_list_remove_def task_get_next_def)
  have "(a, 1) \<in> heap_live (y_heap ?s1)" "page_slack (y_heap ?s1) (k + 1026)" using C(2,3) h1(2,3) by auto
  then obtain h2 where h2: "sys_kfree ?s1 a = Some (put_y_heap ?s1 h2)" "page_slack h2 (k + 1026 + 1)" "heap_live h2 = heap_live h1 - {(a, 1)}"
    using sys_kfree_run [of ?s1 "k + 1026" a 1] by auto
  define s1 where "s1 = (put_y_heap ?s1 h2)\<lparr>y_tasks := (y_tasks s)(a := None)\<rparr>"
  have run: "task_free s a = Some (0, s1)" using t(1) pd h1(1) rm h2(1) by (simp add: task_free_def s1_def)
  have dead: "(a, 1) \<notin> heap_live (y_heap s1)" using h2(3) by (simp add: s1_def)
  have u1: "y_tasks s1 b = Some u" "y_tasks s1 a = None" "y_task_head s1 = b" using u(1) ab(1) by (simp_all add: s1_def)
  have "task_free s1 b = None"
    using u1 u(2) bnz by (simp add: task_free_def task_list_remove_def)
  with run u1 u(2) dead C(2) show ?thesis by blast
qed

theorem task_remove_first_dangles_witness:
  "\<exists>s a b s1. task_free s a = Some (0, s1) \<and> b \<in> dom (y_tasks s1) \<and> task_free s1 b = None"
proof -
  obtain s1 s2 a b where s: "task_step demo_sys s1" "task_step s1 s2" "tasks_ok s2 [a, b]" "page_slack (y_heap s2) 0" by (rule demo_two_tasks)
  from task_remove_first_dangles [OF s(3,4)] show ?thesis by blast
qed

end
