(* ===== verification/User_Copy.thy ===== *)
theory User_Copy
  imports Scheduler
begin

text \<open>
  The copies between the kernel and a program, \<^verbatim>\<open>copy_to_task\<close> and \<^verbatim>\<open>copy_string_from_task\<close> of
  \<^verbatim>\<open>src/src/task/task.c\<close>: they go through a buffer that is mapped into the address space of the task for the
  time of the copy.
\<close>

section \<open>Ranges of an address space\<close>

text \<open>An address space of live pages, all of whose tables are present.\<close>

definition space_ok :: "heap \<Rightarrow> ram \<Rightarrow> u32 \<Rightarrow> bool" where
  "space_ok h m c \<longleftrightarrow> chunk_ok h m c \<and> all_present m c"

text \<open>The \<open>n\<close> addresses from \<open>va\<close> on are mapped to the memory from \<open>p\<close> on.\<close>

definition maps :: "ram \<Rightarrow> u32 \<Rightarrow> u32 \<Rightarrow> nat \<Rightarrow> nat \<Rightarrow> bool" where
  "maps m c va n p \<longleftrightarrow> (\<forall>i < n. \<exists>pa. translate m c (va + of_nat i) = Some pa \<and> unat pa = p + i)"

text \<open>Stores to \<open>P\<close> do not change the mapping.\<close>

definition stable :: "ram \<Rightarrow> u32 \<Rightarrow> nat set \<Rightarrow> bool" where
  "stable m c P \<longleftrightarrow> (\<forall>m' va. unchanged m m' P \<longrightarrow> translate m' c va = translate m c va)"

lemma maps_mono: "maps m c va n p \<Longrightarrow> k \<le> n \<Longrightarrow> maps m c va k p"
  by (simp add: maps_def)

lemma maps_cong: "maps m c va n p \<Longrightarrow> (\<And>i. i < n \<Longrightarrow> translate m' c (va + of_nat i) = translate m c (va + of_nat i)) \<Longrightarrow> maps m' c va n p"
  by (simp add: maps_def)

lemma maps_Suc:
  assumes "maps m c va (Suc n) p"
  obtains pa where "translate m c va = Some pa" "unat pa = p" "maps m c (va + 1) n (Suc p)"
proof -
  obtain pa where pa: "translate m c va = Some pa" "unat pa = p" using assms by (auto simp: maps_def)
  have "\<exists>pa. translate m c (va + 1 + of_nat i) = Some pa \<and> unat pa = Suc p + i" if "i < n" for i
    using assms [unfolded maps_def, rule_format, of "Suc i"] that by (simp add: add.assoc)
  then have "maps m c (va + 1) n (Suc p)" by (simp add: maps_def)
  with pa that show thesis by blast
qed

lemma stable_upd:
  assumes "stable m c P" and "x \<in> P"
  shows "stable (m(x := b)) c P" "translate (m(x := b)) c va = translate m c va"
proof -
  have u: "unchanged m (m(x := b)) P" using assms(2) by (auto simp: unchanged_def)
  then show t: "translate (m(x := b)) c va = translate m c va" for va using assms(1) unfolding stable_def by blast
  have "unchanged m m' P" if "unchanged (m(x := b)) m' P" for m' using that assms(2) by (auto simp: unchanged_def)
  then show "stable (m(x := b)) c P" using assms(1) t unfolding stable_def by metis
qed

lemma stable_disjoint:
  assumes "chunk_shape m c" and "\<And>a. a \<in> set (chunk_pages m c) \<Longrightarrow> P \<inter> page a = {}"
  shows "stable m c P"
  unfolding stable_def
proof (intro allI impI)
  fix m' va assume u: "unchanged m m' P"
  note F = chunk_frame_dir [OF assms(1) u assms(2) [OF chunk_members(1)] assms(2) [OF chunk_members(2)]]
  show "translate m' c va = translate m c va"
    by (rule translate_cong) (simp_all add: F chunk_frame [OF assms(1) u assms(2)])
qed

lemma write_bytes_Cons: "write_bytes (m(p := b)) (Suc p) bs = write_bytes m p (b # bs)"
proof -
  have "write_bytes m p [b] = m(p := b)" by (auto simp: write_bytes_def fun_eq_iff)
  then show ?thesis using write_bytes_append [of m p "[b]" bs] by simp
qed

lemma unchanged_write: "unchanged m (write_bytes m p bs) {p..<p + length bs}"
  by (auto simp: unchanged_def write_bytes_def)

lemma range_tail: "{Suc p..<Suc p + n} \<subseteq> {p..<p + Suc n}" "p \<in> {p..<p + Suc n}"
  by auto

lemma bytes_at_upd: "x \<notin> {p..<p + n} \<Longrightarrow> bytes_at (m(x := b)) p n = bytes_at m p n"
  by auto

lemma bytes_at_split: "k \<le> n \<Longrightarrow> bytes_at m p n = bytes_at m p k @ bytes_at m (p + k) (n - k)"
  using upt_add_eq_append [of p "p + k" "n - k"] by simp

lemma user_memcpy_run:
  assumes "maps m c src n ps" and "maps m c dst n pd" and "stable m c P" and "{pd..<pd + n} \<subseteq> P" and "{ps..<ps + n} \<inter> P = {}"
  shows "user_memcpy m c dst src n = Some (write_bytes m pd (bytes_at m ps n))"
  using assms
proof (induction n arbitrary: m src dst ps pd)
  case (Suc n)
  obtain pa where pa: "translate m c src = Some pa" "unat pa = ps" "maps m c (src + 1) n (Suc ps)" by (rule maps_Suc [OF Suc.prems(1)])
  obtain pb where pb: "translate m c dst = Some pb" "unat pb = pd" "maps m c (dst + 1) n (Suc pd)" by (rule maps_Suc [OF Suc.prems(2)])
  let ?m = "m(pd := m ps)"
  have in_P: "pd \<in> P" "{Suc pd..<Suc pd + n} \<subseteq> P" "{Suc ps..<Suc ps + n} \<inter> P = {}" 
    using Suc.prems(4,5) range_tail [of pd n] range_tail [of ps n] by blast+
  note S = stable_upd [OF Suc.prems(3) in_P(1), of "m ps"]
  have bts: "bytes_at ?m (Suc ps) n = bytes_at m (Suc ps) n"
    using in_P(1,3) by (intro bytes_at_upd) blast
  from Suc.IH [OF maps_cong [OF pa(3) S(2)] maps_cong [OF pb(3) S(2)] S(1) in_P(2,3)]
  have "user_memcpy ?m c (dst + 1) (src + 1) n = Some (write_bytes ?m (Suc pd) (bytes_at m (Suc ps) n))"
    unfolding bts .
  moreover have "bytes_at m ps (Suc n) = m ps # bytes_at m (Suc ps) n" by (simp add: upt_conv_Cons del: upt_Suc)
  ultimately show ?case using pa(1,2) pb(1,2) by (simp del: upt_Suc add: vload_def vstore_def write_bytes_Cons)
qed simp

text \<open>The string \<open>w\<close> at \<open>ps\<close>, of which the copy reads no more than \<open>n\<close> bytes.\<close>

lemma user_strncpy_run:
  assumes "maps m c src (min n (Suc (length w))) ps" and "maps m c dst (Suc (min n (length w))) pd" and "stable m c P"
    and "{pd..<pd + Suc (min n (length w))} \<subseteq> P" and "{ps..<ps + min n (Suc (length w))} \<inter> P = {}"
    and "bytes_at m ps (min n (Suc (length w))) = take n (w @ [0])" and "0 \<notin> set w"
  shows "user_strncpy m c dst src n = Some (write_bytes m pd (take n w @ [0]))"
  using assms
proof (induction n arbitrary: m src dst ps pd w)
  case 0
  obtain pb where "translate m c dst = Some pb" "unat pb = pd" by (rule maps_Suc [where n = 0]) (use 0 in auto)
  then show ?case using write_bytes_Cons [of m pd 0 "[]"] by (simp add: vstore_def)
next
  case (Suc n)
  obtain pa where pa: "translate m c src = Some pa" "unat pa = ps" "maps m c (src + 1) (min n (length w)) (Suc ps)"
    by (rule maps_Suc [where n = "min n (length w)"]) (use Suc.prems(1) in \<open>auto simp: min_def\<close>)
  obtain pb where pb: "translate m c dst = Some pb" "unat pb = pd" "maps m c (dst + 1) (min (Suc n) (length w)) (Suc pd)"
    by (rule maps_Suc [OF Suc.prems(2)])
  show ?case
  proof (cases w)
    case Nil
    then have "m ps = 0" using Suc.prems(6) by simp
    with Nil pa pb show ?thesis using write_bytes_Cons [of m pd 0 "[]"] by (simp add: vload_def vstore_def)
  next
    case (Cons b v)
    let ?m = "m(pd := b)"
    have l: "min (Suc n) (Suc (length w)) = Suc (min n (Suc (length v)))"
      "Suc (min (Suc n) (length w)) = Suc (Suc (min n (length v)))" by (simp_all add: Cons)
    have bytes: "m ps = b" "bytes_at m (Suc ps) (min n (Suc (length v))) = take n (v @ [0])"
      using Suc.prems(6) unfolding l by (simp_all add: Cons upt_rec)
    have in_P: "pd \<in> P" "{Suc pd..<Suc pd + Suc (min n (length v))} \<subseteq> P" "{Suc ps..<Suc ps + min n (Suc (length v))} \<inter> P = {}"
      using Suc.prems(4,5) range_tail [of pd "Suc (min n (length v))"] range_tail [of ps "min n (Suc (length v))"] unfolding l by blast+
    note S = stable_upd [OF Suc.prems(3) in_P(1), of b]
    have "bytes_at ?m (Suc ps) (min n (Suc (length v))) = bytes_at m (Suc ps) (min n (Suc (length v)))" 
      using in_P(1,3) by (intro bytes_at_upd) blast
    with bytes(2) have bts: "bytes_at ?m (Suc ps) (min n (Suc (length v))) = take n (v @ [0])" by simp
    have ms: "maps ?m c (src + 1) (min n (Suc (length v))) (Suc ps)" "maps ?m c (dst + 1) (Suc (min n (length v))) (Suc pd)"
      using maps_cong [OF pa(3) S(2)] maps_cong [OF pb(3) S(2)] by (simp_all add: Cons)
    have "user_strncpy ?m c (dst + 1) (src + 1) n = Some (write_bytes ?m (Suc pd) (take n v @ [0]))"
      by (rule Suc.IH [OF ms S(1) in_P(2,3) bts]) (use Suc.prems(7) Cons in simp)
    moreover have "b \<noteq> 0" using Suc.prems(7) Cons by auto
    ultimately show ?thesis using pa(1,2) pb(1,2) bytes(1) by (simp add: Cons vload_def vstore_def write_bytes_Cons)
  qed
qed

section \<open>A buffer that is mapped for a while\<close>

lemma bytes32_load32: "bytes32 (load32 m a) = load_bytes m a 4"
proof -
  have "load_bytes m a 4 = [m (unat a), m (Suc (unat a)), m (Suc (Suc (unat a))), m (Suc (Suc (Suc (unat a))))]"
    by (simp add: load_bytes_def numeral_eq_Suc upt_conv_Cons del: upt_Suc)
  then show ?thesis by (simp add: load32_def bytes32_le32)
qed

lemma store_restore:
  assumes "unchanged (store32 m a v) m2 P" and "P \<inter> {unat a..<unat a + 4} = {}"
  shows "store32 m2 a (load32 m a) = (\<lambda>x. if x \<in> P then m2 x else m x)"
proof
  fix x
  have "m2 x = m x" if "x \<notin> P" "x \<notin> {unat a..<unat a + 4}"
    using assms(1) that unchanged_store32 [of m a v] by (simp add: unchanged_def)
  moreover have "x \<notin> P" "bytes32 (load32 m a) ! (x - unat a) = m x" if "x \<in> {unat a..<unat a + 4}"
    using assms(2) that by (auto simp: bytes32_load32 load_bytes_def)
  ultimately show "store32 m2 a (load32 m a) x = (if x \<in> P then m2 x else m x)"
    by (auto simp: store32_def store_bytes_def)
qed

lemma word_in_page: "aligned a \<Longrightarrow> i < 1024 \<Longrightarrow> {unat (a + 4 * of_nat i)..<unat (a + 4 * of_nat i) + 4} \<subseteq> page a"
  by (auto simp: unat_index page_def)

lemma all_present_cong:
  "all_present m c \<Longrightarrow> load32 m' c = load32 m c \<Longrightarrow> (\<And>i. i < 1024 \<Longrightarrow> word_at m' (load32 m c) i = word_at m (load32 m c) i) \<Longrightarrow> all_present m' c"
  by (simp add: all_present_def)

lemma space_keeps:
  assumes "page_slack h k" and "space_ok h m c" and "keeps h m m'"
  shows "space_ok h m' c" "translate m' c va = translate m c va" "chunk_pages m' c = chunk_pages m c"
proof -
  have ok: "chunk_ok h m c" "all_present m c" using assms(2) by (simp_all add: space_ok_def)
  note K = keeps_chunk [OF assms(1) ok(1) assms(3)]
  show "chunk_pages m' c = chunk_pages m c" by (rule K(1))
  show "space_ok h m' c" using ok(1) K(1) all_present_cong [OF ok(2) K(2,3)] by (simp add: space_ok_def chunk_ok_def)
  show "translate m' c va = translate m c va" by (rule keeps_translate [OF assms(1) ok(1) assms(3)])
qed

text \<open>
  The entry of the page \<open>tmp\<close> maps it to itself; afterwards the old entry is put back, and the memory is as before
  except for what was stored to \<open>P\<close>.
\<close>

lemma temp_mapping:
  assumes sl: "page_slack h k" and ok: "space_ok h m c" and al: "aligned tmp"
  obtains m1 where "paging_map m c tmp tmp 7 = (0, m1)" "\<And>va. vpage va \<noteq> vpage tmp \<Longrightarrow> translate m1 c va = translate m c va"
    "\<And>va. vpage va = vpage tmp \<Longrightarrow> translate m1 c va = Some va" "chunk_shape m1 c" "chunk_pages m1 c = chunk_pages m c"
    "unchanged m m1 (\<Union>a \<in> set (chunk_pages m c). page a)"
    "\<And>m2 P. unchanged m1 m2 P \<Longrightarrow> (\<And>a. a \<in> set (chunk_pages m c) \<Longrightarrow> P \<inter> page a = {}) \<Longrightarrow>
       paging_set m2 (load32 m c) tmp (paging_get m (load32 m c) tmp) = (0, \<lambda>x. if x \<in> P then m2 x else m x)"
proof -
  have ok': "chunk_ok h m c" "all_present m c" using ok by (simp_all add: space_ok_def)
  note S = chunk_ok_shape [OF sl ok'(1)]
  let ?q = "vpage tmp" and ?i = "vpage tmp div 1024"
  let ?t = "table_of m c ?i" and ?a = "table_of m c (vpage tmp div 1024) + 4 * of_nat (vpage tmp mod 1024)"
  have i: "?i < 1024" by (rule page_index(1) [OF vpage_less])
  obtain m1 where m1: "paging_map m c tmp tmp 7 = (0, m1)" "entry_set m c ?q (tmp OR 7) m1" by (rule paging_map_run [OF al al])
  note E = entry_set [OF m1(2) S vpage_less]
  have pr: "all_present m1 c" by (rule all_present_cong [OF ok'(2) E(3,4)])
  have tm: "translate m1 c va = translate m c va" if "vpage va \<noteq> ?q" for va
    using that translate_present [OF pr, of va] translate_present [OF ok'(2), of va] E(5) [OF vpage_less, of va] by simp
  have id: "translate m1 c va = Some va" if "vpage va = ?q" for va
  proof -
    have "tmp = of_nat (4096 * ?q)" by (rule of_nat_eqI) (use al in simp)
    then have "tmp = of_nat (vpage va) * 4096" using that by (simp add: mult.commute)
    then have "tmp OR (va AND 0xfff) = va" using page_offset(1) [of va] by simp
    moreover have "(tmp OR 7) AND 0xfffff000 = tmp" by (rule mask_entry [OF al]) simp
    moreover have "bit (tmp OR 7) 0" by (simp add: bit_or_iff)
    moreover have "page_entry m1 c (vpage va) = tmp OR 7" using that E(5) [OF vpage_less, of tmp] by simp
    ultimately show ?thesis using translate_present [OF pr, of va] by simp
  qed
  have t: "?t \<in> set (chunk_pages m c)" by (rule chunk_members(3) [OF i])
  have un: "unchanged m m1 (\<Union>a \<in> set (chunk_pages m c). page a)" by (rule unchanged_mono [OF E(6)]) (use t in blast)
  have restores: "paging_set m2 (load32 m c) tmp (paging_get m (load32 m c) tmp) = (0, \<lambda>x. if x \<in> P then m2 x else m x)"
    if u: "unchanged m1 m2 P" and P: "\<And>a. a \<in> set (chunk_pages m c) \<Longrightarrow> P \<inter> page a = {}" for m2 P
  proof -
    note F = chunk_frame_dir [OF E(2) u, unfolded E(1,3), OF P [OF chunk_members(1)] P [OF chunk_members(2)]]
    have tb: "table_of m1 c ?i = ?t" using E(3,4) i by (simp add: table_of_def)
    obtain m3 where m3: "paging_set m2 (load32 m2 c) tmp (page_entry m c ?q) = (0, m3)" "entry_set m2 c ?q (page_entry m c ?q) m3"
      by (rule paging_set_run [OF al])
    have pe: "page_entry m c ?q = load32 m ?a" by (simp add: page_entry_def word_at_def)
    have "m3 = store32 m2 ?a (load32 m ?a)" using m3(2) F(3) [OF i] by (simp add: entry_set_def pe tb)
    moreover have "unchanged (store32 m ?a (tmp OR 7)) m2 P" using u m1(2) by (simp add: entry_set_def)
    moreover have "{unat ?a..<unat ?a + 4} \<subseteq> page ?t"
      by (rule word_in_page [OF chunk_shapeD(3) [OF S i] page_index(2)])
    then have "P \<inter> {unat ?a..<unat ?a + 4} = {}" using P [OF t] by blast
    ultimately have "m3 = (\<lambda>x. if x \<in> P then m2 x else m x)" using store_restore by blast
    with m3(1) F(1) show ?thesis by (simp add: paging_get_run [OF al])
  qed
  show thesis by (rule that [OF m1(1) tm id E(2,1) un restores])
qed

text \<open>The buffer is a fresh page, at an address above the start of the heap.\<close>

lemma temp_buffer:
  assumes "page_slack (y_heap s) (Suc k)" and "small_size sz"
  obtains tmp h m where "sys_kzalloc s sz = Some (tmp, (put_y_heap s h)\<lparr>y_ram := m\<rparr>)" "tmp \<noteq> 0" "aligned tmp" "page_slack h k"
    "(tmp, 1) \<in> heap_live h" "heap_live h - {(tmp, 1)} = heap_live (y_heap s)" "unchanged (y_ram s) m (page tmp)"
    "\<And>b n. (b, n) \<in> heap_live (y_heap s) \<Longrightarrow> page tmp \<inter> extent b n = {}" "unat (h_saddr (y_heap s)) \<le> unat tmp"
proof -
  obtain a h m where a: "kzalloc_ram (y_heap s) (y_ram s) sz = Some (a, h, m)" "a \<noteq> 0" "aligned a" "page_slack h k" "grown heap_live (y_heap s) [a] h"
    "unchanged (y_ram s) m (page a)" "\<And>b n. (b, n) \<in> heap_live (y_heap s) \<Longrightarrow> page a \<inter> extent b n = {}"
    by (rule kzalloc_ram_page [OF assms]) blast
  have lv: "(a, 1) \<in> heap_live h" "heap_live h - {(a, 1)} = heap_live (y_heap s)" using a(5) by (auto simp: grown_def)
  have "heap_inv h" using a(4) by (simp add: page_slack_def heap_slack_def)
  moreover have "h_saddr h = h_saddr (y_heap s)" using a(1) kzalloc_saddr by (auto simp: kzalloc_ram_def run_iff split: if_splits)
  ultimately have "unat (h_saddr (y_heap s)) \<le> unat a" using lv(1) by (metis le_add1 live_block)
  with a lv that show thesis by (simp add: sys_kzalloc_def)
qed

section \<open>The copies\<close>

text \<open>
  Memory that a program owns: a range inside of a live object that is not a page of its address space, mapped below the
  heap.
\<close>

definition user_range :: "sys \<Rightarrow> u32 \<Rightarrow> u32 \<Rightarrow> nat \<Rightarrow> nat \<Rightarrow> bool" where
  "user_range s c va n p \<longleftrightarrow> maps (y_ram s) c va n p \<and> unat va + n \<le> unat (h_saddr (y_heap s))
     \<and> (\<exists>b j. (b, j) \<in> heap_live (y_heap s) \<and> b \<notin> set (chunk_pages (y_ram s) c) \<and> {p..<p + n} \<subseteq> extent b j)"

lemma vpage_apart:
  assumes "page_slack h k" and "unat va + n \<le> unat (h_saddr h)" and "unat (h_saddr h) \<le> unat tmp" and "i < n"
  shows "vpage (va + of_nat i) \<noteq> vpage tmp"
proof -
  have "unat (h_saddr h) < 2 ^ 32" using unsigned_less [of "h_saddr h"] by simp
  then have "unat va + i < 2 ^ 32" using assms(2,4) by linarith
  then have "unat (va + of_nat i) = unat va + i" by (simp add: unat_word_ariths unsigned_of_nat take_bit_nat_eq_self)
  then have "unat (va + of_nat i) < unat (h_saddr h)" using assms(2,4) by simp
  moreover have "aligned (h_saddr h)" using assms(1) by (simp add: page_slack_def)
  then obtain j where "unat (h_saddr h) = 4096 * j" by (auto elim!: dvdE)
  ultimately have "vpage (va + of_nat i) < j" "j \<le> vpage tmp" using assms(3) by (auto simp: div_less_iff_less_mult less_eq_div_iff_mult_less_eq mult.commute)
  then show ?thesis by simp
qed

lemma identity_range:
  assumes "aligned tmp" and "n \<le> 4096" and "\<And>va. vpage va = vpage tmp \<Longrightarrow> translate m c va = Some va"
  shows "maps m c tmp n (unat tmp)"
  unfolding maps_def
proof (intro allI impI)
  fix i assume "i < n"
  then have i: "i < 4096" using assms(2) by simp
  then have u: "unat (tmp + of_nat i) = unat tmp + i" using aligned_room [OF assms(1)]
    by (simp add: unat_word_ariths unsigned_of_nat take_bit_nat_eq_self)
  moreover have "vpage (tmp + of_nat i) = vpage tmp" using assms(1) i by (auto simp: u elim!: dvdE)
  ultimately show "\<exists>pa. translate m c (tmp + of_nat i) = Some pa \<and> unat pa = unat tmp + i" using assms(3) by blast
qed

text \<open>What the two copies do the same way: the buffer, its mapping, and the return of both.\<close>

lemma copy_frame:
  assumes sl: "page_slack (y_heap s) (Suc k)" and ok: "space_ok (y_heap s) (y_ram s) c" and "small_size sz"
  obtains tmp h m where "sys_kzalloc s sz = Some (tmp, (put_y_heap s h)\<lparr>y_ram := m\<rparr>)" "tmp \<noteq> 0" "aligned tmp" "unchanged (y_ram s) m (page tmp)"
    "\<And>b n. (b, n) \<in> heap_live (y_heap s) \<Longrightarrow> page tmp \<inter> extent b n = {}" "unat (h_saddr (y_heap s)) \<le> unat tmp"
    "\<And>m0. unchanged (y_ram s) m0 (page tmp) \<Longrightarrow> space_ok h m0 c \<and> chunk_pages m0 c = chunk_pages (y_ram s) c
       \<and> load32 m0 c = load32 (y_ram s) c \<and> (\<forall>va. translate m0 c va = translate (y_ram s) c va)"
    "page_slack h k" "(tmp, 1) \<in> heap_live h" "heap_live h - {(tmp, 1)} = heap_live (y_heap s)"
proof -
  obtain tmp h m where t: "sys_kzalloc s sz = Some (tmp, (put_y_heap s h)\<lparr>y_ram := m\<rparr>)" "tmp \<noteq> 0" "aligned tmp" "page_slack h k"
    "(tmp, 1) \<in> heap_live h" "heap_live h - {(tmp, 1)} = heap_live (y_heap s)" "unchanged (y_ram s) m (page tmp)"
    "\<And>b n. (b, n) \<in> heap_live (y_heap s) \<Longrightarrow> page tmp \<inter> extent b n = {}" "unat (h_saddr (y_heap s)) \<le> unat tmp"
    by (rule temp_buffer [OF assms(1,3)]) blast
  have "space_ok h m0 c \<and> chunk_pages m0 c = chunk_pages (y_ram s) c \<and> load32 m0 c = load32 (y_ram s) c
     \<and> (\<forall>va. translate m0 c va = translate (y_ram s) c va)" if "unchanged (y_ram s) m0 (page tmp)" for m0
  proof -
    have ke: "keeps (y_heap s) (y_ram s) m0" by (rule keeps_unchanged [OF that t(8)])
    note K = space_keeps [OF sl ok ke]
    have "load32 m0 c = load32 (y_ram s) c" using keeps_chunk(2) [OF sl _ ke] ok by (simp add: space_ok_def)
    moreover have "space_ok h m0 c" using K(1) t(6) by (auto simp: space_ok_def chunk_ok_def)
    ultimately show ?thesis using K(2,3) by blast
  qed
  with t that show thesis by blast
qed

lemma user_disjoint:
  assumes "page_slack h k" and "chunk_ok h m c" and "(b, j) \<in> heap_live h" and "b \<notin> set (chunk_pages m c)" and "P \<subseteq> extent b j"
    and "a \<in> set (chunk_pages m c)"
  shows "P \<inter> page a = {}"
proof -
  have "(a, 1) \<in> heap_live h" "a \<noteq> b" using assms(2,4,6) by (auto simp: chunk_ok_def)
  from ph.live_disjoint [OF assms(1) this(1) assms(3) this(2)] assms(5) show ?thesis by auto
qed

lemma copy_to_task_run:
  assumes sl: "page_slack (y_heap s) (Suc k)" and t: "y_tasks s task = Some t" "tk_page_directory t = c" and ok: "space_ok (y_heap s) (y_ram s) c"
    and n: "0 < n" "n < 4096" "n \<le> length buf" and ur: "user_range s c va n p"
  shows "\<exists>h m d. copy_to_task s task va buf (int n) = Some (0, (put_y_heap s h)\<lparr>y_ram := m, y_directory := d\<rparr>)
     \<and> heap_live h = heap_live (y_heap s) \<and> page_slack h (Suc k) \<and> keeps (y_heap s) (write_bytes (y_ram s) p (take n buf)) m"
proof -
  have sz: "small_size (of_nat n)" using n by (simp add: small_size_def unsigned_of_nat take_bit_nat_eq_self)
  obtain tmp h m where f: "sys_kzalloc s (of_nat n) = Some (tmp, (put_y_heap s h)\<lparr>y_ram := m\<rparr>)" "tmp \<noteq> 0" "aligned tmp"
    "unchanged (y_ram s) m (page tmp)" "\<And>b n. (b, n) \<in> heap_live (y_heap s) \<Longrightarrow> page tmp \<inter> extent b n = {}"
    "unat (h_saddr (y_heap s)) \<le> unat tmp"
    "\<And>m0. unchanged (y_ram s) m0 (page tmp) \<Longrightarrow> space_ok h m0 c \<and> chunk_pages m0 c = chunk_pages (y_ram s) c
       \<and> load32 m0 c = load32 (y_ram s) c \<and> (\<forall>va. translate m0 c va = translate (y_ram s) c va)"
    "page_slack h k" "(tmp, 1) \<in> heap_live h" "heap_live h - {(tmp, 1)} = heap_live (y_heap s)"
    by (rule copy_frame [OF sl ok sz]) blast
  let ?bs = "take n buf" and ?P = "{p..<p + n}" and ?m = "y_ram s"
  let ?mb = "store_bytes m tmp ?bs"
  have u1: "unchanged m ?mb (page tmp)" by (rule unchanged_mono [OF unchanged_store]) (use n in \<open>auto simp: page_def\<close>)
  have u0: "unchanged ?m ?mb (page tmp)" by (rule unchanged_trans [OF f(4) u1]) simp_all
  from f(7) [OF this] have m0: "space_ok h ?mb c" "chunk_pages ?mb c = chunk_pages ?m c" "\<And>va. translate ?mb c va = translate ?m c va" by blast+
  obtain m1 where m1: "paging_map ?mb c tmp tmp 7 = (0, m1)" "\<And>va. vpage va \<noteq> vpage tmp \<Longrightarrow> translate m1 c va = translate ?mb c va"
    "\<And>va. vpage va = vpage tmp \<Longrightarrow> translate m1 c va = Some va" "chunk_shape m1 c" "chunk_pages m1 c = chunk_pages ?mb c"
    "unchanged ?mb m1 (\<Union>a \<in> set (chunk_pages ?mb c). page a)"
    "\<And>m2 P. unchanged m1 m2 P \<Longrightarrow> (\<And>a. a \<in> set (chunk_pages ?mb c) \<Longrightarrow> P \<inter> page a = {}) \<Longrightarrow>
       paging_set m2 (load32 ?mb c) tmp (paging_get ?mb (load32 ?mb c) tmp) = (0, \<lambda>x. if x \<in> P then m2 x else ?mb x)"
    by (rule temp_mapping [OF f(8) m0(1) f(3)]) blast
  from ur obtain b j where b: "maps ?m c va n p" "unat va + n \<le> unat (h_saddr (y_heap s))" "(b, j) \<in> heap_live (y_heap s)"
    "b \<notin> set (chunk_pages ?m c)" "?P \<subseteq> extent b j" by (auto simp: user_range_def)
  have ck: "chunk_ok (y_heap s) ?m c" using ok by (simp add: space_ok_def)
  have dj: "?P \<inter> page a = {}" if "a \<in> set (chunk_pages ?mb c)" for a
    using user_disjoint [OF sl ck b(3,4,5)] that m0(2) by simp
  have dt: "page tmp \<inter> ?P = {}" using f(5) [OF b(3)] b(5) by blast
  have src: "maps m1 c tmp n (unat tmp)" by (rule identity_range [OF f(3) _ m1(3)]) (use n in simp)
  have dst: "maps m1 c va n p"
    by (rule maps_cong [OF b(1)]) (simp add: m1(2) [OF vpage_apart [OF sl b(2) f(6)]] m0(3))
  have st: "stable m1 c ?P" by (rule stable_disjoint [OF m1(4)]) (use dj m1(5) in simp)
  have rng: "{unat tmp..<unat tmp + n} \<subseteq> page tmp" using n by (auto simp: page_def)
  have "page tmp \<inter> page a = {}" if "a \<in> set (chunk_pages ?mb c)" for a
    using f(5) [of a 1] that m0(2) ck by (simp add: chunk_ok_def)
  then have "(\<Union>a \<in> set (chunk_pages ?mb c). page a) \<inter> {unat tmp..<unat tmp + n} = {}" using rng by blast
  from unchanged_load [OF m1(6) this] have "load_bytes m1 tmp n = load_bytes ?mb tmp n" .
  moreover have "load_bytes ?mb tmp n = ?bs" using load_store_bytes [of m tmp ?bs] n by simp
  ultimately have bts: "bytes_at m1 (unat tmp) n = ?bs" by (simp only: load_bytes_def)
  have "{unat tmp..<unat tmp + n} \<inter> ?P = {}" using rng dt by blast
  from user_memcpy_run [OF src dst st subset_refl this] have cp: "user_memcpy m1 c va tmp n = Some (write_bytes m1 p ?bs)" unfolding bts .
  let ?mr = "\<lambda>x. if x \<in> ?P then write_bytes m1 p ?bs x else ?mb x"
  have "unchanged m1 (write_bytes m1 p ?bs) ?P" using unchanged_write [of m1 p ?bs] n by simp
  from m1(7) [OF this dj] have re: "paging_set (write_bytes m1 p ?bs) (load32 ?mb c) tmp (paging_get ?mb (load32 ?mb c) tmp) = (0, ?mr)" .
  obtain h2 where h2: "kfree h tmp = Some h2" "page_slack h2 (k + 1)" "heap_live h2 = heap_live h - {(tmp, 1)}"
    by (rule ph.releaseE [OF f(8,9)])
  have run: "copy_to_task s task va buf (int n) = Some (0, (put_y_heap s h2)\<lparr>y_ram := ?mr,
      y_directory := load32 (write_bytes m1 p ?bs) (y_kernel_chunk s)\<rparr>)"
    using n t f(1,2) m1(1) cp re h2(1)
    by (simp add: copy_to_task_def kernel_page_def paging_switch_def sys_kfree_def Let_def put_y_heap_def put_heap_def y_heap_def)
  have "keeps (y_heap s) (write_bytes ?m p ?bs) ?mr"
    unfolding keeps_def
  proof (intro allI impI ballI)
    fix b' n' x assume "(b', n') \<in> heap_live (y_heap s)" "x \<in> extent b' n'"
    then have "?mb x = ?m x" using f(5) u0 unfolding unchanged_def by blast
    then show "?mr x = write_bytes ?m p ?bs x" using n by (auto simp: write_bytes_def)
  qed
  moreover have "heap_live h2 = heap_live (y_heap s)" "page_slack h2 (Suc k)" using h2(2,3) f(10) by simp_all
  ultimately show ?thesis using run by blast
qed

text \<open>The string \<open>w\<close> in the memory of a program, as far as a copy of up to \<open>n\<close> bytes reads it.\<close>

definition user_string :: "sys \<Rightarrow> u32 \<Rightarrow> u32 \<Rightarrow> nat \<Rightarrow> byte list \<Rightarrow> bool" where
  "user_string s c va n w \<longleftrightarrow> 0 \<notin> set w \<and> (\<exists>p. user_range s c va (min n (Suc (length w))) p
     \<and> bytes_at (y_ram s) p (min n (Suc (length w))) = take n (w @ [0]))"

lemma copy_string_run:
  assumes sl: "page_slack (y_heap s) (Suc k)" and t: "y_tasks s task = Some t" "tk_page_directory t = c" and ok: "space_ok (y_heap s) (y_ram s) c"
    and n: "0 < n" "n < 4096" "n \<le> length buf" and us: "user_string s c va (n - 1) w"
  shows "\<exists>h m d buf'. copy_string_from_task s task va buf (int n) = Some (0, buf', (put_y_heap s h)\<lparr>y_ram := m, y_directory := d\<rparr>)
     \<and> heap_live h = heap_live (y_heap s) \<and> page_slack h (Suc k) \<and> keeps (y_heap s) (y_ram s) m
     \<and> length buf' = length buf \<and> buf' = take (n - 1) w @ 0 # drop (Suc (min (n - 1) (length w))) buf"
proof -
  have sz: "small_size (of_nat n)" using n by (simp add: small_size_def unsigned_of_nat take_bit_nat_eq_self)
  obtain tmp h m where f: "sys_kzalloc s (of_nat n) = Some (tmp, (put_y_heap s h)\<lparr>y_ram := m\<rparr>)" "tmp \<noteq> 0" "aligned tmp"
    "unchanged (y_ram s) m (page tmp)" "\<And>b n. (b, n) \<in> heap_live (y_heap s) \<Longrightarrow> page tmp \<inter> extent b n = {}"
    "unat (h_saddr (y_heap s)) \<le> unat tmp"
    "\<And>m0. unchanged (y_ram s) m0 (page tmp) \<Longrightarrow> space_ok h m0 c \<and> chunk_pages m0 c = chunk_pages (y_ram s) c
       \<and> load32 m0 c = load32 (y_ram s) c \<and> (\<forall>va. translate m0 c va = translate (y_ram s) c va)"
    "page_slack h k" "(tmp, 1) \<in> heap_live h" "heap_live h - {(tmp, 1)} = heap_live (y_heap s)"
    by (rule copy_frame [OF sl ok sz]) blast
  let ?k = "n - 1" and ?P = "page tmp" and ?mm = "y_ram s" and ?l = "min (n - 1) (Suc (length w))"
  from f(7) [OF f(4)] have m0: "space_ok h m c" "chunk_pages m c = chunk_pages ?mm c" "\<And>va. translate m c va = translate ?mm c va" by blast+
  obtain m1 where m1: "paging_map m c tmp tmp 7 = (0, m1)" "\<And>va. vpage va \<noteq> vpage tmp \<Longrightarrow> translate m1 c va = translate m c va"
    "\<And>va. vpage va = vpage tmp \<Longrightarrow> translate m1 c va = Some va" "chunk_shape m1 c" "chunk_pages m1 c = chunk_pages m c"
    "unchanged m m1 (\<Union>a \<in> set (chunk_pages m c). page a)"
    "\<And>m2 P. unchanged m1 m2 P \<Longrightarrow> (\<And>a. a \<in> set (chunk_pages m c) \<Longrightarrow> P \<inter> page a = {}) \<Longrightarrow>
       paging_set m2 (load32 m c) tmp (paging_get m (load32 m c) tmp) = (0, \<lambda>x. if x \<in> P then m2 x else m x)"
    by (rule temp_mapping [OF f(8) m0(1) f(3)]) blast
  from us obtain p b j where b: "maps ?mm c va ?l p" "unat va + ?l \<le> unat (h_saddr (y_heap s))" "(b, j) \<in> heap_live (y_heap s)"
    "b \<notin> set (chunk_pages ?mm c)" "{p..<p + ?l} \<subseteq> extent b j" "bytes_at ?mm p ?l = take ?k (w @ [0])" "0 \<notin> set w"
    by (auto simp: user_string_def user_range_def)
  have ck: "chunk_ok (y_heap s) ?mm c" using ok by (simp add: space_ok_def)
  have dj: "{p..<p + ?l} \<inter> page a = {}" "page tmp \<inter> page a = {}" if "a \<in> set (chunk_pages m c)" for a
    using user_disjoint [OF sl ck b(3,4,5)] f(5) [of a 1] that m0(2) ck by (simp_all add: chunk_ok_def)
  have dt: "{p..<p + ?l} \<inter> page tmp = {}" using f(5) [OF b(3)] b(5) by blast
  have src: "maps m1 c va ?l p" by (rule maps_cong [OF b(1)]) (simp add: m1(2) [OF vpage_apart [OF sl b(2) f(6)]] m0(3))
  have dst: "maps m1 c tmp (Suc (min ?k (length w))) (unat tmp)" by (rule identity_range [OF f(3) _ m1(3)]) (use n in auto)
  have st: "stable m1 c ?P" by (rule stable_disjoint [OF m1(4)]) (use dj(2) m1(5) in simp)
  have rng: "{unat tmp..<unat tmp + Suc (min ?k (length w))} \<subseteq> page tmp" using n by (auto simp: page_def)
  have "unchanged ?mm m1 (page tmp \<union> (\<Union>a \<in> set (chunk_pages m c). page a))" by (rule unchanged_trans [OF f(4) m1(6)]) blast+
  then have "\<forall>x \<in> {p..<p + ?l}. m1 x = ?mm x" using dt dj(1) unfolding unchanged_def by blast
  then have bts: "bytes_at m1 p ?l = take ?k (w @ [0])" unfolding b(6) [symmetric] by (intro map_cong) simp_all
  let ?bs = "take ?k w @ [0]"
  have cp: "user_strncpy m1 c tmp va ?k = Some (write_bytes m1 (unat tmp) ?bs)"
    by (rule user_strncpy_run [OF src dst st rng dt bts b(7)])
  let ?mr = "\<lambda>x. if x \<in> ?P then write_bytes m1 (unat tmp) ?bs x else m x"
  have wr: "{unat tmp..<unat tmp + length ?bs} \<subseteq> page tmp" using n by (auto simp: page_def)
  have "unchanged m1 (write_bytes m1 (unat tmp) ?bs) ?P" by (rule unchanged_mono [OF unchanged_write wr])
  from m1(7) [OF this dj(2)] have re: "paging_set (write_bytes m1 (unat tmp) ?bs) (load32 m c) tmp (paging_get m (load32 m c) tmp) = (0, ?mr)" .
  obtain h2 where h2: "kfree h tmp = Some h2" "page_slack h2 (k + 1)" "heap_live h2 = heap_live h - {(tmp, 1)}"
    by (rule ph.releaseE [OF f(8,9)])
  have "load_bytes ?mr tmp n = bytes_at (write_bytes m1 (unat tmp) ?bs) (unat tmp) n"
    unfolding load_bytes_def by (intro map_cong) (use n in \<open>auto simp: page_def\<close>)
  also have "\<dots> = ?bs @ bytes_at (write_bytes m1 (unat tmp) ?bs) (unat tmp + length ?bs) (n - length ?bs)"
    using n by (subst bytes_at_split [of "length ?bs" n]) (simp_all only: bytes_at_write_bytes, auto)
  finally have "cstr_of (load_bytes ?mr tmp n) (take ?k w)" using b(7) by (auto simp: cstr_of_def dest: in_set_takeD)
  then have fin: "strncpy buf (load_bytes ?mr tmp n) (int n) = Some (take ?k w @ 0 # drop (Suc (min ?k (length w))) buf)"
    using strncpy_loop_cstr [of "load_bytes ?mr tmp n" "take ?k w" ?k buf] n by (simp add: strncpy_def nat_diff_distrib min.assoc min.commute)
  have "nat (int n - 1) = ?k" by simp
  then have run: "copy_string_from_task s task va buf (int n) = Some (0, take ?k w @ 0 # drop (Suc (min ?k (length w))) buf,
      (put_y_heap s h2)\<lparr>y_ram := ?mr, y_directory := load32 (write_bytes m1 (unat tmp) ?bs) (y_kernel_chunk s)\<rparr>)"
    using n t f(1,2) m1(1) cp re h2(1) fin
    by (simp add: copy_string_from_task_def kernel_page_def paging_switch_def sys_kfree_def Let_def put_y_heap_def put_heap_def y_heap_def)
  have "keeps (y_heap s) ?mm ?mr"
    unfolding keeps_def
  proof (intro allI impI ballI)
    fix b' n' x assume "(b', n') \<in> heap_live (y_heap s)" "x \<in> extent b' n'"
    then have "x \<notin> page tmp" using f(5) by blast
    then show "?mr x = ?mm x" using f(4) by (simp add: unchanged_def)
  qed
  moreover have "length (take ?k w @ 0 # drop (Suc (min ?k (length w))) buf) = length buf" using n by auto
  moreover have "heap_live h2 = heap_live (y_heap s)" "page_slack h2 (Suc k)" using h2(2,3) f(10) by simp_all
  ultimately show ?thesis using run by blast
qed

section \<open>Properties\<close>

lemma keeps_maps:
  assumes "page_slack h k" and "space_ok h m c" and "(b, j) \<in> heap_live h" and "b \<notin> set (chunk_pages m c)" and "{p..<p + length bs} \<subseteq> extent b j"
    and "keeps h (write_bytes m p bs) m'"
  shows "translate m' c va = translate m c va" "bytes_at m' p (length bs) = bs"
proof -
  have ck: "chunk_ok h m c" using assms(2) by (simp add: space_ok_def)
  have "stable m c {p..<p + length bs}"
    by (rule stable_disjoint [OF chunk_ok_shape [OF assms(1) ck]]) (rule user_disjoint [OF assms(1) ck assms(3-5)])
  then have t: "translate (write_bytes m p bs) c va = translate m c va" for va using unchanged_write unfolding stable_def by blast
  have "space_ok h (write_bytes m p bs) c"
  proof -
    have dj: "{p..<p + length bs} \<inter> page a = {}" if "a \<in> set (chunk_pages m c)" for a by (rule user_disjoint [OF assms(1) ck assms(3-5) that])
    note F = chunk_frame_dir [OF chunk_ok_shape [OF assms(1) ck] unchanged_write dj [OF chunk_members(1)] dj [OF chunk_members(2)]]
    show ?thesis using ck F(4) all_present_cong [OF _ F(1,2)] assms(2) by (simp add: space_ok_def chunk_ok_def)
  qed
  from space_keeps(2) [OF assms(1) this assms(6)] t show "translate m' c va = translate m c va" by simp
  have "m' x = write_bytes m p bs x" if "x \<in> {p..<p + length bs}" for x using assms(3,5,6) that unfolding keeps_def by blast
  then have "bytes_at m' p (length bs) = bytes_at (write_bytes m p bs) p (length bs)" by (intro map_cong) simp_all
  then show "bytes_at m' p (length bs) = bs" by (simp only: bytes_at_write_bytes)
qed

text \<open>
  C14: \<^verbatim>\<open>copy_to_task\<close> delivers. For a buffer of up to 4095 bytes and a range of the program in memory that it owns, the copy succeeds, the
  program then finds the bytes at its addresses, the rest of the live memory, the address space and the live objects of the
  heap are as before, and the kernel has its own address space back.
\<close>

theorem copy_to_task_delivers:
  assumes "page_slack (y_heap s) 1" and "y_tasks s task = Some t" and "space_ok (y_heap s) (y_ram s) (tk_page_directory t)"
    and "0 < n" and "n < 4096" and "n \<le> length buf" and "user_range s (tk_page_directory t) va n p"
  shows "\<exists>s'. copy_to_task s task va buf (int n) = Some (0, s')
     \<and> (\<forall>i < n. vload (y_ram s') (tk_page_directory t) (va + of_nat i) = Some (buf ! i))
     \<and> (\<forall>b j x. (b, j) \<in> heap_live (y_heap s) \<and> x \<in> extent b j \<and> x \<notin> {p..<p + n} \<longrightarrow> y_ram s' x = y_ram s x)
     \<and> (\<forall>va. translate (y_ram s') (tk_page_directory t) va = translate (y_ram s) (tk_page_directory t) va)
     \<and> heap_live (y_heap s') = heap_live (y_heap s) \<and> y_tasks s' = y_tasks s"
proof -
  let ?c = "tk_page_directory t"
  have "page_slack (y_heap s) (Suc 0)" using assms(1) by simp
  from copy_to_task_run [OF this assms(2) refl assms(3-7)] obtain h m d where
    r: "copy_to_task s task va buf (int n) = Some (0, (put_y_heap s h)\<lparr>y_ram := m, y_directory := d\<rparr>)"
    "heap_live h = heap_live (y_heap s)" "keeps (y_heap s) (write_bytes (y_ram s) p (take n buf)) m" by blast
  have len: "length (take n buf) = n" using assms(6) by simp
  from assms(7) obtain b j where b: "maps (y_ram s) ?c va n p" "(b, j) \<in> heap_live (y_heap s)" "b \<notin> set (chunk_pages (y_ram s) ?c)"
    "{p..<p + n} \<subseteq> extent b j" by (auto simp: user_range_def)
  note K = keeps_maps [OF assms(1,3) b(2,3) _ r(3), unfolded len, OF b(4)]
  have "vload m ?c (va + of_nat i) = Some (buf ! i)" if i: "i < n" for i
  proof -
    obtain pa where "translate (y_ram s) ?c (va + of_nat i) = Some pa" "unat pa = p + i" using b(1) i by (auto simp: maps_def)
    moreover have "m (p + i) = buf ! i" using arg_cong [OF K(2), of "\<lambda>bs. bs ! i"] i by simp
    ultimately show ?thesis using K(1) by (simp add: vload_def)
  qed
  moreover have "m x = y_ram s x" if "(b', j') \<in> heap_live (y_heap s)" "x \<in> extent b' j'" "x \<notin> {p..<p + n}" for b' j' x
    using r(3) that len by (auto simp: keeps_def write_bytes_def)
  ultimately show ?thesis using r K(1) by (intro exI [of _ "(put_y_heap s h)\<lparr>y_ram := m, y_directory := d\<rparr>"]) auto
qed

lemma in_page:
  fixes b :: u32
  assumes "aligned b" and "i < 4096"
  shows "unat (b + of_nat i) = unat b + i" "vpage (b + of_nat i) = vpage b" "(b + of_nat i) AND 0xfff = of_nat i" "b OR of_nat i = b + of_nat i"
proof -
  show u: "unat (b + of_nat i) = unat b + i"
    using aligned_room [OF assms(1)] assms(2) by (simp add: unat_word_ariths unsigned_of_nat take_bit_nat_eq_self)
  show v: "vpage (b + of_nat i) = vpage b" using assms by (auto simp: u elim!: dvdE)
  have e: "(b + of_nat i) AND 0xfff = take_bit 12 (b + of_nat i)" by (simp add: take_bit_eq_mask mask_eq_exp_minus_1)
  have "unat (take_bit 12 (b + of_nat i)) = i" using assms by (auto simp: take_bit_eq_mod unat_mod u elim!: dvdE)
  then show l: "(b + of_nat i) AND 0xfff = of_nat i" unfolding e by (rule of_nat_eqI)
  have "b = of_nat (4096 * vpage b)" by (rule of_nat_eqI) (use assms(1) in simp)
  then show "b OR of_nat i = b + of_nat i" using page_offset(1) [of "b + of_nat i"] unfolding v l by (simp add: mult.commute)
qed

lemma mapped_page:
  assumes "page_slack h k" and "space_ok h m c" and "aligned va" and "aligned b" and "paging_map m c va b 7 = (r, m1)"
  shows "maps m1 c va 4096 (unat b)" "space_ok h m1 c" "chunk_pages m1 c = chunk_pages m c" "unchanged m m1 (\<Union>a \<in> set (chunk_pages m c). page a)"
proof -
  have ok: "chunk_ok h m c" "all_present m c" using assms(2) by (simp_all add: space_ok_def)
  obtain m' where m': "paging_map m c va b 7 = (0, m')" "entry_set m c (vpage va) (b OR 7) m'" by (rule paging_map_run [OF assms(3,4)])
  then have e: "entry_set m c (vpage va) (b OR 7) m1" using assms(5) by simp
  note E = entry_set [OF e chunk_ok_shape [OF assms(1) ok(1)] vpage_less]
  have pr: "all_present m1 c" by (rule all_present_cong [OF ok(2) E(3,4)])
  show "chunk_pages m1 c = chunk_pages m c" by (rule E(1))
  show "space_ok h m1 c" using pr ok(1) E(1) by (simp add: space_ok_def chunk_ok_def)
  have "table_of m c (vpage va div 1024) \<in> set (chunk_pages m c)" by (rule chunk_members(3) [OF page_index(1) [OF vpage_less]])
  then show "unchanged m m1 (\<Union>a \<in> set (chunk_pages m c). page a)" by (intro unchanged_mono [OF E(6)]) blast
  show "maps m1 c va 4096 (unat b)"
    unfolding maps_def
  proof (intro allI impI)
    fix i :: nat assume i: "i < 4096"
    have "(b OR 7) AND 0xfffff000 = b" by (rule mask_entry [OF assms(4)]) simp
    moreover have "bit (b OR 7) 0" by (simp add: bit_or_iff)
    moreover have "page_entry m1 c (vpage (va + of_nat i)) = b OR 7" using E(5) [OF vpage_less, of va] by (simp add: in_page(2) [OF assms(3) i])
    ultimately have "translate m1 c (va + of_nat i) = Some (b OR ((va + of_nat i) AND 0xfff))" using translate_present [OF pr] by simp
    then show "\<exists>pa. translate m1 c (va + of_nat i) = Some pa \<and> unat pa = unat b + i"
      using in_page [OF assms(4) i] by (simp add: in_page(3) [OF assms(3) i])
  qed
qed

text \<open>The start of the heap stays.\<close>

lemma for_loop_keeps:
  "for_loop a n f s = Some s' \<Longrightarrow> (\<And>i t t'. f i t = Some t' \<Longrightarrow> P t \<Longrightarrow> P t') \<Longrightarrow> P s \<Longrightarrow> P s'"
  by (induction n arbitrary: a s) (auto simp: bind_Some_iff)

lemma kzalloc_ram_saddr: "kzalloc_ram h m sz = Some (a, h', m') \<Longrightarrow> h_saddr h' = h_saddr h"
  using kzalloc_saddr by (auto simp: kzalloc_ram_def bind_Some_iff)

lemma paging_new_4gb_saddr:
  assumes "paging_new_4gb h m flags = Some (c, h', m')"
  shows "h_saddr h' = h_saddr h"
proof -
  from assms obtain d h1 m1 h2 m2 off where d: "kzalloc_ram h m 4096 = Some (d, h1, m1)"
    "for_loop 0 1024 (new_4gb_step (ucast flags) d) (h1, m1, 0) = Some (h2, m2, off)" "\<exists>m3. kzalloc_ram h2 m2 4 = Some (c, h', m3)"
    by (auto simp: paging_new_4gb_def bind_Some_iff Let_def split: if_splits)
  have "(\<lambda>(h3, m3, off). h_saddr h3 = h_saddr h1) (h2, m2, off)"
    by (rule for_loop_keeps [OF d(2)]) (auto simp: new_4gb_step_def bind_Some_iff Let_def split: if_splits dest!: kzalloc_ram_saddr)
  moreover from d(3) obtain m3 where "kzalloc_ram h2 m2 4 = Some (c, h', m3)" by blast
  from kzalloc_ram_saddr [OF this] have "h_saddr h' = h_saddr h2" .
  ultimately show ?thesis using kzalloc_ram_saddr [OF d(1)] by simp
qed

lemma sys_kzalloc_saddr: "sys_kzalloc s sz = Some (a, s') \<Longrightarrow> h_saddr (y_heap s') = h_saddr (y_heap s)"
  using kzalloc_ram_saddr by (auto simp: sys_kzalloc_def bind_Some_iff)

lemma task_new_saddr: "task_new s p = Some (Inr a, s') \<Longrightarrow> h_saddr (y_heap s') = h_saddr (y_heap s)"
  by (auto simp: task_new_def task_init_def sys_kzalloc_def bind_Some_iff Let_def split: if_splits
      dest!: kzalloc_ram_saddr paging_new_4gb_saddr)

text \<open>A program: one task that runs, with a page of its own at the address 0x400000, which holds the bytes \<open>bs\<close>.\<close>

lemma demo_program:
  assumes "length bs \<le> 4096"
  obtains s t p where "y_current_task s \<noteq> 0" "y_tasks s (y_current_task s) = Some t" "page_slack (y_heap s) 900"
    "space_ok (y_heap s) (y_ram s) (tk_page_directory t)" "user_range s (tk_page_directory t) 0x400000 4096 p"
    "bytes_at (y_ram s) p (length bs) = bs" "y_term s = y_term demo_sys" "y_commands s = y_commands demo_sys" "y_kernel_chunk s = 0"
proof -
  have "page_slack (y_heap demo_sys) (1027 + 901)" using ph.slack_mono [OF demo_sys_ok(2)] by simp
  from task_new_run [OF demo_sys_ok(1) this, of 0] obtain a s1 t where s1: "task_new demo_sys 0 = Some (Inr a, s1)" "tasks_ok s1 [a]"
    "page_slack (y_heap s1) 901" "y_tasks s1 a = Some t" "all_present (y_ram s1) (tk_page_directory t)" "y_current_task s1 = a" by auto
  let ?c = "tk_page_directory t"
  have ck: "chunk_ok (y_heap s1) (y_ram s1) ?c" by (rule task_chunk_ok(1) [OF s1(2,4)])
  then have sp: "space_ok (y_heap s1) (y_ram s1) ?c" using s1(5) by (simp add: space_ok_def)
  have az: "a \<noteq> 0" using tchain_nonzero [OF tasks_okD(7) [OF s1(2)], of a] by simp
  have "page_slack (y_heap s1) (Suc 900)" "small_size 4096" using s1(3) by (simp_all add: small_size_def)
  then obtain b h m where b: "sys_kzalloc s1 4096 = Some (b, (put_y_heap s1 h)\<lparr>y_ram := m\<rparr>)" "b \<noteq> 0" "aligned b" "page_slack h 900"
    "(b, 1) \<in> heap_live h" "heap_live h - {(b, 1)} = heap_live (y_heap s1)" "unchanged (y_ram s1) m (page b)"
    "\<And>b' n. (b', n) \<in> heap_live (y_heap s1) \<Longrightarrow> page b \<inter> extent b' n = {}"
    by (rule temp_buffer) blast
  have dj: "page b \<inter> page x = {}" if "x \<in> set (chunk_pages (y_ram s1) ?c)" for x
    using b(8) [of x 1] that ck by (simp add: chunk_ok_def)
  moreover have "unat b \<in> page b" by (simp add: page_def)
  ultimately have fr: "b \<notin> set (chunk_pages (y_ram s1) ?c)" by blast
  let ?mw = "write_bytes m (unat b) bs"
  have u1: "unchanged m ?mw (page b)" by (rule unchanged_mono [OF unchanged_write]) (use assms in \<open>auto simp: page_def\<close>)
  have u0: "unchanged (y_ram s1) ?mw (page b)" by (rule unchanged_trans [OF b(7) u1]) simp_all
  have "keeps (y_heap s1) (y_ram s1) ?mw" by (rule keeps_unchanged [OF u0 b(8)])
  note K = space_keeps [OF s1(3) sp this]
  have sp': "space_ok h ?mw ?c" using K(1) b(6) by (auto simp: space_ok_def chunk_ok_def)
  obtain r m2 where m2: "paging_map ?mw ?c 0x400000 b 7 = (r, m2)" by (cases "paging_map ?mw ?c 0x400000 b 7")
  have "aligned 0x400000" by simp
  note M = mapped_page [OF b(4) sp' this b(3) m2]
  define s where "s = (put_y_heap s1 h)\<lparr>y_ram := m2, y_term := y_term demo_sys, y_commands := y_commands demo_sys, y_kernel_chunk := 0\<rparr>"
  have ram: "y_ram s = m2" by (simp add: s_def)
  have hp: "y_heap s = h" by (simp add: s_def y_heap_def put_y_heap_def put_heap_def)
  have "h_saddr h = h_saddr (y_heap s1)" using sys_kzalloc_saddr [OF b(1)] by simp
  also have "\<dots> = 0x01000000" using task_new_saddr [OF s1(1)] by (simp add: y_heap_def demo_sys_def demo_vfs0_def page_demo_def)
  finally have sa: "unat (h_saddr (y_heap s)) = 0x01000000" by (simp add: hp)
  have "{unat b..<unat b + 4096} \<subseteq> extent b 1" by (simp add: page_def)
  then have ur: "user_range s ?c 0x400000 4096 (unat b)" 
    using M(1,3) K(3) b(5) fr sa ram unfolding user_range_def hp by (intro conjI exI [of _ b] exI [of _ 1]) simp_all
  have "m2 x = ?mw x" if "x \<in> {unat b..<unat b + length bs}" for x
  proof -
    have "x \<in> page b" using that assms by (auto simp: page_def)
    then show ?thesis using M(4) dj unfolding unchanged_def K(3) by blast
  qed
  then have "bytes_at m2 (unat b) (length bs) = bytes_at ?mw (unat b) (length bs)" by (intro map_cong) simp_all
  then have bt: "bytes_at (y_ram s) (unat b) (length bs) = bs" by (simp only: bytes_at_write_bytes) (simp add: s_def)
  show thesis
  proof (rule that [of s t "unat b"])
    show "y_current_task s \<noteq> 0" "y_tasks s (y_current_task s) = Some t" using az s1(4,6) by (simp_all add: s_def)
    show "space_ok (y_heap s) (y_ram s) ?c" using M(2) by (simp add: hp) (simp add: s_def)
  qed (use b(4) ur bt in \<open>simp_all add: hp\<close>, simp_all add: s_def)
qed

theorem copy_to_task_delivers_witness:
  "\<exists>s (t :: task) s'. copy_to_task s (y_current_task s) 0x400000 [7, 8, 9] 2 = Some (0, s') \<and> vload (y_ram s') (tk_page_directory t) 0x400001 = Some 8"
proof -
  obtain s t p where s: "y_tasks s (y_current_task s) = Some t" "page_slack (y_heap s) 900" "space_ok (y_heap s) (y_ram s) (tk_page_directory t)"
    "user_range s (tk_page_directory t) 0x400000 4096 p" by (rule demo_program [of "[]"]) auto
  have "user_range s (tk_page_directory t) 0x400000 2 p" using s(4) maps_mono by (fastforce simp: user_range_def)
  from copy_to_task_delivers [OF _ s(1,3) _ _ _ this, of "[7, 8, 9]"] ph.slack_mono [OF s(2)] obtain s' where
    s': "copy_to_task s (y_current_task s) 0x400000 [7, 8, 9] 2 = Some (0, s')" "\<forall>i < 2. vload (y_ram s') (tk_page_directory t) (0x400000 + of_nat i) = Some ([7, 8, 9] ! i)"
    by auto
  from s'(2) [rule_format, of 1] have "vload (y_ram s') (tk_page_directory t) 0x400001 = Some 8" by simp
  with s'(1) show ?thesis by blast
qed

end
