(* ===== verification/System_Calls.thy ===== *)
theory System_Calls
  imports Isr80h User_Copy
begin

text \<open>
  System calls from the program to the kernel and back: the table of calls, the text that a program prints, the
  bytes that it writes to a file, and the line that it reads from the keyboard.
\<close>

section \<open>The table\<close>

definition all_commands :: "isr80h_command list" where
  "all_commands = [Command0_sum, Command1_print, Command2_open, Command3_read, Command4_fork, Command5_exit, Command6_readline,
     Command7_write, Command8_delete, Command9_close, Command10_readdir, Command11_wait]"

lemma register_next:
  assumes "y_commands s = map Some cs @ replicate (Suc n) None" and "length cs + Suc n = 1024" and "i = int (length cs)"
  shows "isr80h_register_command s i c = Some (s\<lparr>y_commands := map Some (cs @ [c]) @ replicate n None\<rparr>)"
  using assms by (simp add: isr80h_register_command_def nth_append list_update_append)

fun register_from :: "sys \<Rightarrow> int \<Rightarrow> isr80h_command list \<Rightarrow> sys option" where
  "register_from s i [] = Some s"
| "register_from s i (c # cs) = do { s1 \<leftarrow> isr80h_register_command s i c; register_from s1 (i + 1) cs }"

lemma register_from_run:
  assumes "y_commands s = map Some cs @ replicate (length ds + n) None" and "length cs + length ds + n = 1024"
  shows "register_from s (int (length cs)) ds = Some (s\<lparr>y_commands := map Some (cs @ ds) @ replicate n None\<rparr>)"
  using assms
proof (induction ds arbitrary: s cs)
  case (Cons d ds)
  let ?s = "s\<lparr>y_commands := map Some (cs @ [d]) @ replicate (length ds + n) None\<rparr>"
  have "isr80h_register_command s (int (length cs)) d = Some ?s" by (rule register_next) (use Cons.prems in simp_all)
  moreover have "register_from ?s (int (length (cs @ [d]))) ds = Some (?s\<lparr>y_commands := map Some ((cs @ [d]) @ ds) @ replicate n None\<rparr>)"
    by (rule Cons.IH) (use Cons.prems in simp_all)
  ultimately show ?case by (simp add: add.commute)
qed simp

lemma register_commands_run:
  assumes "y_commands s = replicate 1024 None"
  shows "isr80h_register_commands s = Some (s\<lparr>y_commands := map Some all_commands @ replicate 1012 None\<rparr>)"
proof -
  have "isr80h_register_commands s = register_from s 0 all_commands" by (simp add: isr80h_register_commands_def all_commands_def)
  moreover have "length all_commands = 12" by (simp add: all_commands_def)
  ultimately show ?thesis using register_from_run [of s "[]" all_commands 1012] assms by simp
qed

section \<open>Arguments\<close>

lemma stack_item:
  assumes "y_tasks s task = Some t" and "vload32 (y_ram s) (tk_page_directory t) (r_esp (tk_registers t) + 4 * of_nat i) = Some v"
  shows "task_get_stack_item s task (int i) = Some (v, kernel_page s)"
  using assms by (simp add: task_get_stack_item_def task_page_task_def kernel_page_def)

text \<open>Fields that the calls below leave as they are.\<close>

lemma kernel_page_simps [simp]:
  "y_tasks (kernel_page s) = y_tasks s" "y_ram (kernel_page s) = y_ram s" "y_heap (kernel_page s) = y_heap s" "y_term (kernel_page s) = y_term s"
  "y_current_task (kernel_page s) = y_current_task s" "y_commands (kernel_page s) = y_commands s" "y_vfs (kernel_page s) = y_vfs s"
  "y_procs (kernel_page s) = y_procs s" "y_irqs (kernel_page s) = y_irqs s" "y_current_process (kernel_page s) = y_current_process s"
  by (simp_all add: kernel_page_def)

lemma kernel_page_idem [simp]: "kernel_page (kernel_page s) = kernel_page s"
  by (simp add: kernel_page_def)

text \<open>The arguments of a call, one after the other.\<close>

lemma stack_items:
  assumes "y_tasks s a = Some t" and "vload32 (y_ram s) (tk_page_directory t) (r_esp (tk_registers t) + 4 * of_nat i) = Some v"
  shows "task_get_stack_item s a (int i) = Some (v, kernel_page s)" "task_get_stack_item (kernel_page s) a (int i) = Some (v, kernel_page s)"
  using stack_item [OF assms] stack_item [of "kernel_page s" a t i v] assms by simp_all

lemma put_task_simps [simp]:
  "y_term (put_task s a t) = y_term s" "y_commands (put_task s a t) = y_commands s" "y_vfs (put_task s a t) = y_vfs s"
  "y_procs (put_task s a t) = y_procs s" "y_irqs (put_task s a t) = y_irqs s" "y_current_process (put_task s a t) = y_current_process s"
  "y_kernel_chunk (put_task s a t) = y_kernel_chunk s"
  by (simp_all add: put_task_def)

lemma user_string_cong: "y_ram s' = y_ram s \<Longrightarrow> y_heap s' = y_heap s \<Longrightarrow> user_string s' = user_string s"
  by (intro ext) (simp add: user_string_def user_range_def)

lemma user_stringI:
  "0 \<notin> set w \<Longrightarrow> min n (Suc (length w)) = l \<Longrightarrow> user_range s c va l p \<Longrightarrow> bytes_at (y_ram s) p l = take n (w @ [0]) \<Longrightarrow> user_string s c va n w"
  unfolding user_string_def by blast

lemma save_state:
  assumes "y_current_task s \<noteq> 0" and "y_tasks s (y_current_task s) = Some t"
  shows "task_current_save_state s frame = Some (put_task s (y_current_task s) (t\<lparr>tk_registers := saved frame (tk_registers t)\<rparr>))"
  using assms by (simp add: task_current_save_state_def task_save_state_def task_current_def)

section \<open>Printing\<close>

lemma print_command:
  assumes "page_slack (y_heap s) (Suc k)" and t: "y_tasks s (y_current_task s) = Some t" and "space_ok (y_heap s) (y_ram s) (tk_page_directory t)"
    and "vload32 (y_ram s) (tk_page_directory t) (r_esp (tk_registers t)) = Some va"
    and w: "user_string s (tk_page_directory t) va 1023 w" and "terminal_ok (y_term s)"
  shows "\<exists>s'. isr80h_command1_print s = Some (0, s') \<and> terminal_ok (y_term s')
     \<and> screen_of (y_term s') = fold (\<lambda>c sc. sc_write sc c 15) (take 1023 w) (screen_of (y_term s))
     \<and> heap_live (y_heap s') = heap_live (y_heap s) \<and> keeps (y_heap s) (y_ram s) (y_ram s') \<and> y_tasks s' = y_tasks s
     \<and> y_current_task s' = y_current_task s"
proof -
  let ?s = "kernel_page s"
  have "task_get_stack_item s (y_current_task s) (int 0) = Some (va, ?s)" by (rule stack_item [OF t]) (use assms(4) in simp)
  then have item: "task_get_stack_item s (y_current_task s) 0 = Some (va, ?s)" by simp
  have "user_string ?s (tk_page_directory t) va (1024 - 1) w" using w user_string_cong [of ?s s] by simp
  from copy_string_run [of ?s k "y_current_task s" t, OF _ _ refl _ _ _ _ this, of "replicate 1024 0"] assms(1,3) t
  obtain h m d buf where c: "copy_string_from_task ?s (y_current_task s) va (replicate 1024 0) 1024 = Some (0, buf, (put_y_heap ?s h)\<lparr>y_ram := m, y_directory := d\<rparr>)"
    "heap_live h = heap_live (y_heap s)" "keeps (y_heap s) (y_ram s) m" "buf = take 1023 w @ 0 # drop (Suc (min 1023 (length w))) (replicate 1024 0)" by auto
  have "cstr_of buf (take 1023 w)" unfolding c(4) using w by (intro cstr_ofI) (auto simp: user_string_def dest: in_set_takeD)
  from print_shows [OF assms(6) this] obtain t' where t': "print (y_term s) buf = Some t'"
    "shows_screen (y_term s) (fold (\<lambda>c sc. sc_write sc c 15) (take 1023 w) (screen_of (y_term s))) t'" by blast
  let ?r = "((put_y_heap ?s h)\<lparr>y_ram := m, y_directory := d\<rparr>)\<lparr>y_term := t'\<rparr>"
  have "isr80h_command1_print s = Some (0, ?r)"
    using item c(1) t'(1) by (simp add: isr80h_command1_print_def task_current_def sys_print_def put_y_heap_def)
  moreover have "y_heap ?r = h" by (simp add: y_heap_def put_y_heap_def)
  ultimately show ?thesis using c(2,3) t'(2) by (intro exI [of _ ?r]) (simp add: shows_screen_def)
qed

lemma command_lookup: "length cs \<le> 1024 \<Longrightarrow> n < length cs \<Longrightarrow> y_commands s = map Some cs @ replicate k None \<Longrightarrow>
   isr80h_handle_command call s (int n) = call (cs ! n) s"
  by (simp add: isr80h_handle_command_def nth_append)

lemma y_heap_more [simp]: "y_heap (s\<lparr>y_commands := cs\<rparr>) = y_heap s" "y_heap (s\<lparr>y_term := tm\<rparr>) = y_heap s" "y_heap (s\<lparr>y_irqs := is\<rparr>) = y_heap s"
  "y_heap (s\<lparr>y_procs := ps\<rparr>) = y_heap s" "y_heap (s\<lparr>y_ports := po\<rparr>) = y_heap s"
  by (simp_all add: y_heap_def)

text \<open>
  C29: after the start of the kernel every system call number reaches its command, and the others, negative numbers
  included, return 0 and change nothing.
\<close>

theorem syscall_table:
  assumes "y_commands s = replicate 1024 None"
  shows "\<exists>s'. isr80h_register_commands s = Some s' \<and> s' = s\<lparr>y_commands := y_commands s'\<rparr>
     \<and> (\<forall>n call. isr80h_handle_command call s' n = (if 0 \<le> n \<and> n < 12 then call (all_commands ! nat n) s' else Some (0, s')))"
proof -
  let ?s = "s\<lparr>y_commands := map Some all_commands @ replicate 1012 None\<rparr>"
  have len: "length all_commands = 12" by (simp add: all_commands_def)
  have "isr80h_handle_command call ?s n = (if 0 \<le> n \<and> n < 12 then call (all_commands ! nat n) ?s else Some (0, ?s))" for n call
  proof (cases "0 \<le> n \<and> n < 12")
    case True
    then show ?thesis using command_lookup [of all_commands "nat n" ?s 1012 call] len by (simp add: nat_less_iff)
  next
    case False
    then show ?thesis using len by (auto simp: isr80h_handle_command_def nth_append nat_less_iff)
  qed
  with register_commands_run [OF assms] show ?thesis by (intro exI [of _ ?s]) simp
qed

theorem syscall_table_witness:
  "\<exists>s'. isr80h_register_commands demo_sys = Some s' \<and> isr80h_handle_command call_command s' 12 = Some (0, s')
     \<and> isr80h_handle_command call_command s' 1 = isr80h_command1_print s'"
  using syscall_table [of demo_sys] by (fastforce simp: demo_sys_def all_commands_def)

text \<open>
  C11: printing. A program with the number 1 in \<^verbatim>\<open>eax\<close>, the address of a string on top of its stack and the interrupt 0x80
  finds its string on the screen, up to 1023 characters of it; the call returns 0 to the same task, in its own address space, with
  its registers saved, and the live memory and the live objects of the heap are as before.
\<close>

theorem print_syscall:
  assumes "page_slack (y_heap s) 1" and "y_current_task s \<noteq> 0" and "y_tasks s (y_current_task s) = Some t"
    and "space_ok (y_heap s) (y_ram s) (tk_page_directory t)" and "y_commands s = map Some all_commands @ replicate 1012 None"
    and "vload32 (y_ram s) (tk_page_directory t) (f_esp frame) = Some va" and "user_string s (tk_page_directory t) va 1023 w" and "terminal_ok (y_term s)"
  shows "\<exists>s'. isr80h_handler call_command s 1 frame = Some (0, s') \<and> terminal_ok (y_term s')
     \<and> screen_of (y_term s') = fold (\<lambda>c sc. sc_write sc c 15) (take 1023 w) (screen_of (y_term s))
     \<and> heap_live (y_heap s') = heap_live (y_heap s) \<and> keeps (y_heap s) (y_ram s) (y_ram s')
     \<and> y_current_task s' = y_current_task s \<and> y_directory s' = load32 (y_ram s') (tk_page_directory t)
     \<and> y_tasks s' = (y_tasks s)(y_current_task s \<mapsto> t\<lparr>tk_registers := saved frame (tk_registers t)\<rparr>)"
proof -
  let ?t = "t\<lparr>tk_registers := saved frame (tk_registers t)\<rparr>"
  let ?s = "put_task (kernel_page s) (y_current_task s) ?t"
  have sv: "task_current_save_state (kernel_page s) frame = Some ?s" using save_state [of "kernel_page s" t frame] assms(2,3) by simp
  have cm: "y_commands ?s = map Some all_commands @ replicate 1012 None" "y_term ?s = y_term s"
    using assms(5) by (simp_all add: put_task_def)
  have "page_slack (y_heap ?s) (Suc 0)" "y_tasks ?s (y_current_task ?s) = Some ?t" "space_ok (y_heap ?s) (y_ram ?s) (tk_page_directory ?t)"
    "vload32 (y_ram ?s) (tk_page_directory ?t) (r_esp (tk_registers ?t)) = Some va" "user_string ?s (tk_page_directory ?t) va 1023 w" "terminal_ok (y_term ?s)"
    using assms(1,4,6,7,8) user_string_cong [of ?s s] by (simp_all add: cm(2) saved_def)
  from print_command [OF this] obtain s1 where s1: "isr80h_command1_print ?s = Some (0, s1)" "terminal_ok (y_term s1)"
    "screen_of (y_term s1) = fold (\<lambda>c sc. sc_write sc c 15) (take 1023 w) (screen_of (y_term s))" "heap_live (y_heap s1) = heap_live (y_heap s)"
    "keeps (y_heap s) (y_ram s) (y_ram s1)" "y_tasks s1 = y_tasks ?s" "y_current_task s1 = y_current_task s"
    unfolding cm(2) by auto
  have "isr80h_handle_command call_command ?s (int 1) = Some (0, s1)"
    using command_lookup [of all_commands 1, OF _ _ cm(1), of call_command] s1(1) by (simp add: all_commands_def)
  moreover have "task_page s1 = Some (0, s1\<lparr>y_current_task := y_current_task s, y_current_process := tk_process t,
      y_directory := load32 (y_ram s1) (tk_page_directory t)\<rparr>)"
    using s1(6,7) by (simp add: task_page_def task_switch_def paging_switch_def)
  ultimately have "isr80h_handler call_command s 1 frame = Some (0, s1\<lparr>y_current_task := y_current_task s, y_current_process := tk_process t,
      y_directory := load32 (y_ram s1) (tk_page_directory t)\<rparr>)" using sv by (simp add: isr80h_handler_def Let_def)
  then show ?thesis using s1 by (intro exI [of _ "s1\<lparr>y_current_task := y_current_task s, y_current_process := tk_process t,
      y_directory := load32 (y_ram s1) (tk_page_directory t)\<rparr>"]) simp
qed

lemma bytes_at_nth: "bytes_at m p n = bs \<Longrightarrow> i < n \<Longrightarrow> m (p + i) = bs ! i"
  by auto

lemma vload_maps: "maps m c va n p \<Longrightarrow> i < n \<Longrightarrow> vload m c (va + of_nat i) = Some (m (p + i))"
  unfolding maps_def vload_def by force

lemma vload32_maps:
  assumes "maps m c va n p" and "i + 3 < n"
  shows "vload32 m c (va + of_nat i) = Some (le32 [m (p + i), m (p + i + 1), m (p + i + 2), m (p + i + 3)])"
proof -
  have "vload m c (va + of_nat i + of_nat j) = Some (m (p + i + j))" if "j \<le> 3" for j
    using vload_maps [OF assms(1), of "i + j"] assms(2) that by (simp add: add.assoc)
  from this [of 0] this [of 1] this [of 2] this [of 3] show ?thesis by (simp add: vload32_def)
qed

text \<open>A page with the string ``Hi'' and, at offset 8, its address.\<close>

theorem print_syscall_witness:
  "\<exists>s t s'. y_tasks s (y_current_task s) = Some t
     \<and> isr80h_handler call_command s 1 (user_frame\<lparr>f_esp := 0x400008\<rparr>) = Some (0, s')
     \<and> screen_of (y_term s') = sc_write (sc_write (screen_of (y_term s)) 0x48 15) 0x69 15"
proof -
  let ?bs = "[0x48, 0x69, 0, 0, 0, 0, 0, 0, 0, 0, 0x40, 0] :: byte list"
  obtain s0 t p where s: "y_current_task s0 \<noteq> 0" "y_tasks s0 (y_current_task s0) = Some t" "page_slack (y_heap s0) 900"
    "space_ok (y_heap s0) (y_ram s0) (tk_page_directory t)" "user_range s0 (tk_page_directory t) 0x400000 4096 p"
    "bytes_at (y_ram s0) p (length ?bs) = ?bs" "y_term s0 = y_term demo_sys"
    by (rule demo_program [of ?bs]) auto
  define s where "s = s0\<lparr>y_commands := map Some all_commands @ replicate 1012 None\<rparr>"
  have mp: "maps (y_ram s0) (tk_page_directory t) 0x400000 4096 p" using s(5) by (simp add: user_range_def)
  have bt: "y_ram s0 (p + i) = ?bs ! i" if "i < 12" for i 
    by (rule bytes_at_nth [OF s(6)]) (use that in simp)
  have "vload32 (y_ram s0) (tk_page_directory t) (0x400000 + of_nat 8) = Some (le32 [?bs ! 8, ?bs ! (8 + 1), ?bs ! (8 + 2), ?bs ! (8 + 3)])"
    using vload32_maps [OF mp, of 8] bt [of 8] bt [of "8 + 1"] bt [of "8 + 2"] bt [of "8 + 3"] by (simp add: ac_simps)
  then have ptr: "vload32 (y_ram s) (tk_page_directory t) (f_esp (user_frame\<lparr>f_esp := 0x400008\<rparr>)) = Some 0x400000"
    by (simp add: s_def le32_def)
  have "user_range s0 (tk_page_directory t) 0x400000 3 p" using s(5) maps_mono by (fastforce simp: user_range_def)
  then have ur: "user_range s (tk_page_directory t) 0x400000 3 p" by (simp add: user_range_def s_def)
  have "bytes_at (y_ram s) p 3 = [0x48, 0x69, 0]" using bt [of 0] bt [of 1] bt [of 2] by (simp add: numeral_eq_Suc s_def)
  then have "bytes_at (y_ram s) p 3 = take 1023 ([0x48, 0x69] @ [0])" by (simp only:) simp
  then have us: "user_string s (tk_page_directory t) 0x400000 1023 [0x48, 0x69]" by (rule user_stringI [OF _ _ ur, rotated 2]) simp_all
  have "terminal_ok (y_term s)" using s(7) by (simp add: s_def demo_sys_def terminal_ok_def)
  moreover have "page_slack (y_heap s) 1" using ph.slack_mono [OF s(3), of 1] by (simp add: s_def)
  ultimately obtain s' where "isr80h_handler call_command s 1 (user_frame\<lparr>f_esp := 0x400008\<rparr>) = Some (0, s')"
    "screen_of (y_term s') = sc_write (sc_write (screen_of (y_term s)) 0x48 15) 0x69 15"
    using print_syscall [OF _ _ _ _ _ ptr us] s(1,2,4) by (auto simp: s_def)
  moreover have "y_tasks s (y_current_task s) = Some t" using s(2) by (simp add: s_def)
  ultimately show ?thesis by blast
qed

section \<open>Writing to a file\<close>

lemma user_string_keeps:
  assumes "page_slack (y_heap s) k" and "space_ok (y_heap s) (y_ram s) c" and "keeps (y_heap s) (y_ram s) (y_ram s')"
    and "heap_live (y_heap s) \<subseteq> heap_live (y_heap s')" and "h_saddr (y_heap s') = h_saddr (y_heap s)" and "user_string s c va n w"
  shows "user_string s' c va n w"
proof -
  let ?l = "min n (Suc (length w))"
  note K = space_keeps [OF assms(1-3)]
  from assms(6) obtain p b j where p: "0 \<notin> set w" "maps (y_ram s) c va ?l p" "unat va + ?l \<le> unat (h_saddr (y_heap s))" "(b, j) \<in> heap_live (y_heap s)"
    "b \<notin> set (chunk_pages (y_ram s) c)" "{p..<p + ?l} \<subseteq> extent b j" "bytes_at (y_ram s) p ?l = take n (w @ [0])"
    unfolding user_string_def user_range_def by blast
  have "user_range s' c va ?l p" unfolding user_range_def using maps_cong [OF p(2) K(2)] p(3-6) K(3) assms(4,5) by auto
  moreover have "y_ram s' x = y_ram s x" if "x \<in> {p..<p + ?l}" for x using assms(3) p(4,6) that unfolding keeps_def by blast
  then have "bytes_at (y_ram s') p ?l = bytes_at (y_ram s) p ?l" by (intro map_cong) simp_all
  ultimately show ?thesis using p(1,7) by (intro user_stringI [OF _ refl]) simp_all
qed

text \<open>
  C32: a program that writes \<open>w\<close>, without a null byte, to a file: the buffer that \<^verbatim>\<open>isr80h_command7_write\<close> passes to \<^verbatim>\<open>fwrite\<close>
  has all bytes of \<open>w\<close> but the last one, which is replaced by a null byte, since the bytes are copied as a string.
\<close>

theorem write_call_loses_last_byte:
  assumes "page_slack (y_heap s) 2" and "y_tasks s (y_current_task s) = Some t" and "space_ok (y_heap s) (y_ram s) (tk_page_directory t)"
    and "vload32 (y_ram s) (tk_page_directory t) (r_esp (tk_registers t)) = Some fd"
    and "vload32 (y_ram s) (tk_page_directory t) (r_esp (tk_registers t) + 4) = Some va"
    and "vload32 (y_ram s) (tk_page_directory t) (r_esp (tk_registers t) + 8) = Some (of_nat (length w))"
    and "w \<noteq> []" and "length w < 4096" and "user_string s (tk_page_directory t) va (length w - 1) w"
  shows "\<exists>kernel_buf S. isr80h_command7_write s = do {
       (r, v) \<leftarrow> fwrite kernel_ops (y_vfs S) (butlast w @ [0]) 1 (of_nat (length w)) (sint fd);
       s' \<leftarrow> sys_kfree (S\<lparr>y_vfs := v\<rparr>) kernel_buf;
       Some (word_of_int r, s') }
     \<and> heap_live (y_heap S) = insert (kernel_buf, 1) (heap_live (y_heap s)) \<and> (\<exists>h. y_vfs S = put_heap (y_vfs s) h)"
proof -
  let ?c = "tk_page_directory t" and ?n = "length w" and ?s = "kernel_page s"
  have n: "sint (of_nat ?n :: u32) = int ?n" "unat (of_nat ?n :: u32) = ?n" "small_size (of_nat ?n)" "0 < ?n"
    using assms(7,8) sint_of_nat_u32 [of ?n] by (simp_all add: small_size_def unsigned_of_nat take_bit_nat_eq_self)
  have items: "task_get_stack_item s (y_current_task s) 0 = Some (fd, ?s)" "task_get_stack_item ?s (y_current_task s) 1 = Some (va, ?s)"
    "task_get_stack_item ?s (y_current_task s) 2 = Some (of_nat ?n, ?s)"
    using stack_items(1) [OF assms(2), of 0 fd] stack_items(2) [OF assms(2), of 1 va] stack_items(2) [OF assms(2), of 2 "of_nat ?n"] assms(4-6) by simp_all
  have sl: "page_slack (y_heap ?s) (Suc 1)" using assms(1) by (simp add: numeral_2_eq_2)
  obtain kb h m where k: "sys_kzalloc ?s (of_nat ?n) = Some (kb, (put_y_heap ?s h)\<lparr>y_ram := m\<rparr>)" "kb \<noteq> 0" "page_slack h 1"
    "grown heap_live (y_heap ?s) [kb] h" "keeps (y_heap ?s) (y_ram ?s) m" by (rule sys_kzalloc_page [OF sl n(3)]) blast
  define s4 where "s4 = (put_y_heap ?s h)\<lparr>y_ram := m\<rparr>"
  have s4: "y_heap s4 = h" "y_ram s4 = m" "y_tasks s4 = y_tasks s" "y_current_task s4 = y_current_task s" by (simp_all add: s4_def)
  have lv: "heap_live h = insert (kb, 1) (heap_live (y_heap s))" using k(4) by (simp add: grown_def)
  note K = space_keeps [OF assms(1,3), of m]
  have ke: "keeps (y_heap s) (y_ram s) m" using k(5) by simp
  have sp: "space_ok h m ?c" using K(1) [OF ke] lv by (auto simp: space_ok_def chunk_ok_def)
  have "h_saddr h = h_saddr (y_heap s)" using sys_kzalloc_saddr [OF k(1)] by simp
  then have us: "user_string s4 ?c va (?n - 1) w"
    using user_string_keeps [OF assms(1,3), of s4] ke lv assms(9) by (auto simp: s4)
  let ?b = "load_bytes m kb ?n"
  have "page_slack (y_heap s4) (Suc 0)" "y_tasks s4 (y_current_task s) = Some t" "space_ok (y_heap s4) (y_ram s4) ?c" using k(3) assms(2) sp by (simp_all add: s4)
  from copy_string_run [OF this(1,2) refl this(3) n(4) assms(8) _ us, of ?b] obtain h5 m5 d buf where
    c: "copy_string_from_task s4 (y_current_task s) va ?b (int ?n) = Some (0, buf, (put_y_heap s4 h5)\<lparr>y_ram := m5, y_directory := d\<rparr>)"
    "heap_live h5 = heap_live h" "length buf = ?n" "buf = take (?n - 1) w @ 0 # drop (Suc (min (?n - 1) ?n)) ?b" by (auto simp: s4)
  have buf: "buf = butlast w @ [0]" using c(4) n(4) by (simp add: butlast_conv_take)
  define S where "S = (put_y_heap s4 h5)\<lparr>y_directory := d, y_ram := store_bytes m5 kb buf\<rparr>"
  have rd: "load_bytes (store_bytes m5 kb buf) kb ?n = butlast w @ [0]" using load_store_bytes [of m5 kb buf] c(3) buf by simp
  have vf: "y_vfs S = put_heap (y_vfs s) h5" by (simp add: S_def s4_def put_y_heap_def put_heap_def kernel_page_def)
  have "isr80h_command7_write s = do {
       (r, v) \<leftarrow> fwrite kernel_ops (y_vfs S) (butlast w @ [0]) 1 (of_nat ?n) (sint fd);
       s' \<leftarrow> sys_kfree (S\<lparr>y_vfs := v\<rparr>) kb;
       Some (word_of_int r, s') }"
    using n items k(1,2) c(1) assms(8) rd
    by (simp add: isr80h_command7_write_def task_current_def s4_def [symmetric] s4 S_def Let_def case_prod_unfold)
  moreover have "heap_live (y_heap S) = insert (kb, 1) (heap_live (y_heap s))" using c(2) lv by (simp add: S_def)
  ultimately show ?thesis using vf by blast
qed

lemma vload32_page:
  assumes "maps m c va n p" and "bytes_at m p (length bs) = bs" and "length bs \<le> n" and "i + 3 < length bs"
  shows "vload32 m c (va + of_nat i) = Some (le32 [bs ! i, bs ! (i + 1), bs ! (i + 2), bs ! (i + 3)])"
proof -
  have "m (p + i + j) = bs ! (i + j)" if "j \<le> 3" for j using bytes_at_nth [OF assms(2), of "i + j"] assms(4) that by (simp add: add.assoc)
  from this [of 0] this [of 1] this [of 2] this [of 3] show ?thesis using vload32_maps [OF assms(1), of i] assms(3,4) by simp
qed

theorem write_call_loses_last_byte_witness:
  "\<exists>s kernel_buf S. isr80h_command7_write s = do {
       (r, v) \<leftarrow> fwrite kernel_ops (y_vfs S) [0x41, 0x42, 0] 1 3 1;
       s' \<leftarrow> sys_kfree (S\<lparr>y_vfs := v\<rparr>) kernel_buf;
       Some (word_of_int r, s') }
     \<and> vload (y_ram s) (tk_page_directory (the (y_tasks s (y_current_task s)))) 0x400002 = Some 0x43"
proof -
  let ?bs = "[0x41, 0x42, 0x43, 0, 1, 0, 0, 0, 0, 0, 0x40, 0, 3, 0, 0, 0] :: byte list"
  obtain s0 t p where s: "y_current_task s0 \<noteq> 0" "y_tasks s0 (y_current_task s0) = Some t" "page_slack (y_heap s0) 900"
    "space_ok (y_heap s0) (y_ram s0) (tk_page_directory t)" "user_range s0 (tk_page_directory t) 0x400000 4096 p"
    "bytes_at (y_ram s0) p (length ?bs) = ?bs" by (rule demo_program [of ?bs]) auto
  let ?t = "t\<lparr>tk_registers := (tk_registers t)\<lparr>r_esp := 0x400004\<rparr>\<rparr>"
  define s where "s = put_task s0 (y_current_task s0) ?t"
  have st: "y_tasks s (y_current_task s) = Some ?t" "y_ram s = y_ram s0" "y_heap s = y_heap s0" by (simp_all add: s_def)
  have mp: "maps (y_ram s0) (tk_page_directory t) 0x400000 4096 p" using s(5) by (simp add: user_range_def)
  note V = vload32_page [OF mp s(6)]
  have args: "vload32 (y_ram s) (tk_page_directory ?t) (r_esp (tk_registers ?t)) = Some 1"
    "vload32 (y_ram s) (tk_page_directory ?t) (r_esp (tk_registers ?t) + 4) = Some 0x400000"
    "vload32 (y_ram s) (tk_page_directory ?t) (r_esp (tk_registers ?t) + 8) = Some (of_nat (length [0x41, 0x42, 0x43 :: byte]))"
    using V [of 4] V [of 8] V [of 12] by (simp_all add: st le32_def)
  have "user_range s0 (tk_page_directory t) 0x400000 2 p" using s(5) maps_mono by (fastforce simp: user_range_def)
  then have ur: "user_range s (tk_page_directory ?t) 0x400000 2 p" by (simp add: user_range_def st)
  have bt: "y_ram s (p + i) = ?bs ! i" if "i < 16" for i unfolding st by (rule bytes_at_nth [OF s(6)]) (use that in simp)
  have "bytes_at (y_ram s) p 2 = [0x41, 0x42]" using bt [of 0] bt [of 1] by (simp add: numeral_eq_Suc)
  then have "bytes_at (y_ram s) p 2 = take (length [0x41, 0x42, 0x43 :: byte] - 1) ([0x41, 0x42, 0x43] @ [0])" by (simp only:) simp
  then have us: "user_string s (tk_page_directory ?t) 0x400000 (length [0x41, 0x42, 0x43 :: byte] - 1) [0x41, 0x42, 0x43]"
    by (rule user_stringI [OF _ _ ur, rotated 2]) simp_all
  have "page_slack (y_heap s) 2" "space_ok (y_heap s) (y_ram s) (tk_page_directory ?t)" using ph.slack_mono [OF s(3), of 2] s(4) by (simp_all add: st)
  from write_call_loses_last_byte [OF this(1) st(1) this(2) args _ _ us] obtain kernel_buf S where "isr80h_command7_write s = do {
       (r, v) \<leftarrow> fwrite kernel_ops (y_vfs S) (butlast [0x41, 0x42, 0x43] @ [0]) 1 (of_nat (length [0x41, 0x42, 0x43 :: byte])) (sint (1 :: u32));
       s' \<leftarrow> sys_kfree (S\<lparr>y_vfs := v\<rparr>) kernel_buf;
       Some (word_of_int r, s') }" by auto
  then have W: "isr80h_command7_write s = do {
       (r, v) \<leftarrow> fwrite kernel_ops (y_vfs S) [0x41, 0x42, 0] 1 3 1;
       s' \<leftarrow> sys_kfree (S\<lparr>y_vfs := v\<rparr>) kernel_buf;
       Some (word_of_int r, s') }" by simp
  have "vload (y_ram s0) (tk_page_directory t) (0x400000 + of_nat 2) = Some (y_ram s0 (p + 2))" by (rule vload_maps [OF mp]) simp
  then have "vload (y_ram s) (tk_page_directory (the (y_tasks s (y_current_task s)))) 0x400002 = Some 0x43" using bt [of 2] by (simp add: st)
  with W show ?thesis by blast
qed

end
