(* ===== verification/Disk_Ports.thy ===== *)
theory Disk_Ports
  imports Disk Loops Bytes
begin

text \<open>
  The sectors of the disk over the ports of its controller, \<^verbatim>\<open>disk_read_sector\<close> and \<^verbatim>\<open>disk_write_sector\<close> of
  \<^verbatim>\<open>src/src/disk/disk.c\<close>, and the block functions that call them. The controller is hardware: the four port instructions of
  \<^verbatim>\<open>src/src/io/io.asm\<close> on a state of its own. What the code relies on is the protocol of the ATA standard for programmed transfers of
  sectors, register by register, the locale \<open>ata\<close>. Under it reading is the block operation of the theory of the disk. Writing
  is so up to the last word; then the code sends the command that flushes the cache without waiting until the controller has finished the
  sector, which the standard does not allow.
\<close>

section \<open>Operations\<close>

text \<open>The ports of a controller with states of type \<open>'c\<close>.\<close>

record 'c controller =
  io_outb :: "'c \<Rightarrow> u16 \<Rightarrow> byte \<Rightarrow> 'c"
  io_outw :: "'c \<Rightarrow> u16 \<Rightarrow> u16 \<Rightarrow> 'c"
  io_insb :: "'c \<Rightarrow> u16 \<Rightarrow> byte \<times> 'c"
  io_insw :: "'c \<Rightarrow> u16 \<Rightarrow> u16 \<times> 'c"

text \<open>The commands that start a transfer: 0x20 reads and 0x30 writes. \<^verbatim>\<open>lba >> 24\<close> is of a signed number.\<close>

definition start_transfer :: "'c controller \<Rightarrow> 'c \<Rightarrow> int \<Rightarrow> int \<Rightarrow> byte \<Rightarrow> 'c" where
  "start_transfer io c lba n command = (
     let c = io_outb io c 0x1F6 (word_of_int (drop_bit 24 lba) OR 0xE0);
         c = io_outb io c 0x1F2 (word_of_int n);
         c = io_outb io c 0x1F3 (word_of_int lba);
         c = io_outb io c 0x1F4 (word_of_int (drop_bit 8 lba));
         c = io_outb io c 0x1F5 (word_of_int (drop_bit 16 lba))
     in io_outb io c 0x1F7 command)"

text \<open>The loops that wait: until the controller has the bit 3 of its status set, and until it has the bit 7 cleared.\<close>

partial_function (option) wait_ready :: "'c controller \<Rightarrow> 'c \<Rightarrow> 'c option" where
  "wait_ready io c = (case io_insb io c 0x1F7 of (status, c1) \<Rightarrow> if status AND 0x08 = 0 then wait_ready io c1 else Some c1)"

partial_function (option) wait_idle :: "'c controller \<Rightarrow> 'c \<Rightarrow> 'c option" where
  "wait_idle io c = (case io_insb io c 0x1F7 of (status, c1) \<Rightarrow> if status AND 0x80 \<noteq> 0 then wait_idle io c1 else Some c1)"

text \<open>The bytes go to \<^verbatim>\<open>buf\<close>, two for a word.\<close>

definition read_word :: "'c controller \<Rightarrow> nat \<Rightarrow> 'c \<times> byte list \<Rightarrow> ('c \<times> byte list) option" where
  "read_word io i = (\<lambda>(c, out). case io_insw io c 0x1F0 of (w, c1) \<Rightarrow> Some (c1, out @ bytes16 w))"

definition disk_read_sector :: "'c controller \<Rightarrow> 'c \<Rightarrow> int \<Rightarrow> int \<Rightarrow> (int \<times> byte list \<times> 'c) option" where
  "disk_read_sector io c lba n = do {
     let c = start_transfer io c lba n 0x20;
     (c, out) \<leftarrow> for_loop 0 (nat n) (\<lambda>b (c, out). do {
       c \<leftarrow> wait_ready io c;
       for_loop 0 256 (read_word io) (c, out)
     }) (c, []);
     Some (0, out, c)
   }"

text \<open>The bytes that are left of \<^verbatim>\<open>buf\<close>; reading past its end is \<open>None\<close>.\<close>

definition write_word :: "'c controller \<Rightarrow> nat \<Rightarrow> 'c \<times> byte list \<Rightarrow> ('c \<times> byte list) option" where
  "write_word io i = (\<lambda>(c, buf). if length buf < 2 then None else Some (io_outw io c 0x1F0 (le16 buf), drop 2 buf))"

definition disk_write_sector :: "'c controller \<Rightarrow> 'c \<Rightarrow> int \<Rightarrow> int \<Rightarrow> byte list \<Rightarrow> (int \<times> 'c) option" where
  "disk_write_sector io c lba n buf = do {
     let c = start_transfer io c lba n 0x30;
     (c, buf) \<leftarrow> for_loop 0 (nat n) (\<lambda>b (c, buf). do {
       c \<leftarrow> wait_ready io c;
       for_loop 0 256 (write_word io) (c, buf)
     }) (c, buf);
     c \<leftarrow> wait_idle io (io_outb io c 0x1F7 0xE7);
     Some (0, c)
   }"

text \<open>The block functions with the calls of the code.\<close>

definition read_block_ports :: "'c controller \<Rightarrow> 'c \<Rightarrow> int \<Rightarrow> int \<Rightarrow> int \<Rightarrow> (int \<times> byte list \<times> 'c) option" where
  "read_block_ports io c idisk lba n = (if idisk \<noteq> 0 then Some (- EIO, [], c) else disk_read_sector io c lba n)"

definition write_block_ports :: "'c controller \<Rightarrow> 'c \<Rightarrow> int \<Rightarrow> int \<Rightarrow> int \<Rightarrow> byte list \<Rightarrow> (int \<times> 'c) option" where
  "write_block_ports io c idisk lba n buf = (if idisk \<noteq> 0 then Some (- EIO, c) else disk_write_sector io c lba n buf)"

section \<open>The protocol\<close>

text \<open>
  The sector number in the registers of a controller: 28 bits, the upper four of them in the register that also selects the device. A sector count
  of zero stands for 256.
\<close>

definition ata_address :: "(u16 \<Rightarrow> byte) \<Rightarrow> nat" where
  "ata_address r = unat (r 0x1F3) + 256 * (unat (r 0x1F4) + 256 * (unat (r 0x1F5) + 256 * (unat (r 0x1F6) mod 16)))"

definition ata_count :: "(u16 \<Rightarrow> byte) \<Rightarrow> nat" where
  "ata_count r = (if r 0x1F2 = 0 then 256 else unat (r 0x1F2))"

text \<open>The device register selects the first device and addresses by sector number.\<close>

definition ata_selected :: "(u16 \<Rightarrow> byte) \<Rightarrow> bool" where
  "ata_selected r \<longleftrightarrow> r 0x1F6 AND 0x50 = 0x40"

text \<open>The four registers of the address hold the 28 bits of the sector number.\<close>

lemma low_bits_or: "(x OR 0xE0 :: nat) mod 16 = x mod 16"
proof -
  have "take_bit 4 (x OR 0xE0 :: nat) = take_bit 4 x" by (simp add: take_bit_or)
  then show ?thesis by (simp add: take_bit_eq_mod)
qed

lemma unat_byte_of_int: "0 \<le> x \<Longrightarrow> unat (word_of_int x :: byte) = nat x mod 256"
  by (simp add: unat_eq_nat_uint uint_word_of_int nat_mod_distrib)

lemma address_digits:
  assumes "x < 2 ^ 28"
  shows "x mod 256 + 256 * (x div 256 mod 256 + 256 * (x div 65536 mod 256 + 256 * (x div 16777216 mod 256 mod 16))) = (x :: nat)"
proof -
  have "x div 16777216 < 16" using assms by (simp add: less_mult_imp_div_less)
  then have top: "x div 16777216 mod 256 mod 16 = x div 16777216" by simp
  have "x div 65536 mod 256 + 256 * (x div 65536 div 256) = x div 65536"
    "x div 256 mod 256 + 256 * (x div 256 div 256) = x div 256" "x mod 256 + 256 * (x div 256) = x" by (simp_all only: mod_mult_div_eq)
  then show ?thesis unfolding top by (simp add: div_mult2_eq [symmetric])
qed

lemma registers_of:
  fixes lba n :: int
  assumes "0 \<le> lba" "lba + n \<le> 2 ^ 28" "0 < n" "n \<le> 256"
  defines "r' \<equiv> \<lambda>r :: u16 \<Rightarrow> byte. r(0x1F6 := word_of_int (drop_bit 24 lba) OR 0xE0, 0x1F2 := word_of_int n, 0x1F3 := word_of_int lba,
    0x1F4 := word_of_int (drop_bit 8 lba), 0x1F5 := word_of_int (drop_bit 16 lba))"
  shows "ata_selected (r' r)" "ata_address (r' r) = nat lba" "ata_count (r' r) = nat n"
proof -
  have lt: "lba < 2 ^ 28" using assms(2,3) by linarith
  then have "nat lba < 2 ^ 28" using assms(1) by (simp add: nat_less_iff)
  from address_digits [OF this] show "ata_address (r' r) = nat lba" using assms(1)
    by (simp add: r'_def ata_address_def unat_byte_of_int drop_bit_eq_div nat_div_distrib pos_imp_zdiv_nonneg_iff unsigned_or_eq low_bits_or)
  show "ata_count (r' r) = nat n"
  proof (cases "n = 256")
    case True
    then show ?thesis by (simp add: r'_def ata_count_def)
  next
    case False
    then have "unat (word_of_int n :: byte) = nat n" using assms(3,4) by (simp add: unat_byte_of_int)
    moreover from this have "(word_of_int n :: byte) \<noteq> 0" using assms(3) by auto
    ultimately show ?thesis by (simp add: r'_def ata_count_def)
  qed
  let ?x = "word_of_int (drop_bit 24 lba) :: byte"
  have "drop_bit 24 lba < 16" "0 \<le> drop_bit 24 lba" using lt assms(1) by (simp_all add: drop_bit_eq_div)
  then have "unat ?x < 16" by (simp add: unat_byte_of_int)
  then have "take_bit 4 ?x = ?x" by (simp add: word_unat_eq_iff unsigned_take_bit_eq take_bit_nat_eq_self_iff)
  moreover have "take_bit 4 ?x AND 0x50 = 0" by (simp add: take_bit_eq_mask and.assoc mask_numeral)
  ultimately have "?x AND 0x50 = 0" by simp
  moreover have "(?x OR 0xE0) AND 0x50 = (?x AND 0x50) OR (0xE0 AND 0x50)" by (rule bit.conj_disj_distrib2)
  ultimately show "ata_selected (r' r)" by (simp add: r'_def ata_selected_def)
qed

text \<open>
  The states of a controller: \<open>idle d c\<close>, with the contents \<open>d\<close> of the drive and the registers \<open>regs c\<close>; \<open>reading d p k ready c\<close> and
  \<open>writing d p k ready c\<close>, in a transfer that goes on at the byte \<open>p\<close> of the drive and has \<open>k\<close> words left, \<open>ready\<close> once
  the status has shown that the words of a sector can be transferred; \<open>finishing d c\<close>, with all words of a write received and the last sector still to be
  finished. While it prepares or finishes a sector the status has the bit 7, \<^verbatim>\<open>BSY\<close>, and not the bit 3, \<^verbatim>\<open>DRQ\<close>; while it waits for words of a
  sector it has \<^verbatim>\<open>DRQ\<close> and not \<^verbatim>\<open>BSY\<close>. \<open>delay c\<close> bounds the number of times that the status has to be read. Registers and commands are written
  to a controller that is idle: the standard leaves open what a command does to a controller that is busy.
\<close>

locale ata =
  fixes io :: "'c controller" and regs :: "'c \<Rightarrow> u16 \<Rightarrow> byte" and idle :: "drive \<Rightarrow> 'c \<Rightarrow> bool"
    and reading :: "drive \<Rightarrow> nat \<Rightarrow> nat \<Rightarrow> bool \<Rightarrow> 'c \<Rightarrow> bool" and writing :: "drive \<Rightarrow> nat \<Rightarrow> nat \<Rightarrow> bool \<Rightarrow> 'c \<Rightarrow> bool"
    and finishing :: "drive \<Rightarrow> 'c \<Rightarrow> bool" and delay :: "'c \<Rightarrow> nat"
  assumes register: "idle d c \<Longrightarrow> port \<in> {0x1F2, 0x1F3, 0x1F4, 0x1F5, 0x1F6} \<Longrightarrow>
      idle d (io_outb io c port b) \<and> regs (io_outb io c port b) = (regs c)(port := b)"
    and read_command: "idle d c \<Longrightarrow> ata_selected (regs c) \<Longrightarrow> ata_address (regs c) + ata_count (regs c) \<le> 2 ^ 28 \<Longrightarrow>
      reading d (512 * ata_address (regs c)) (256 * ata_count (regs c)) False (io_outb io c 0x1F7 0x20)"
    and write_command: "idle d c \<Longrightarrow> ata_selected (regs c) \<Longrightarrow> ata_address (regs c) + ata_count (regs c) \<le> 2 ^ 28 \<Longrightarrow>
      writing d (512 * ata_address (regs c)) (256 * ata_count (regs c)) False (io_outb io c 0x1F7 0x30)"
    and read_status: "reading d p (Suc k) False c \<Longrightarrow> io_insb io c 0x1F7 = (status, c1) \<Longrightarrow>
      status AND 0x88 = 0x80 \<and> reading d p (Suc k) False c1 \<and> delay c1 < delay c \<or> status AND 0x88 = 0x08 \<and> reading d p (Suc k) True c1"
    and write_status: "writing d p (Suc k) False c \<Longrightarrow> io_insb io c 0x1F7 = (status, c1) \<Longrightarrow>
      status AND 0x88 = 0x80 \<and> writing d p (Suc k) False c1 \<and> delay c1 < delay c \<or> status AND 0x88 = 0x08 \<and> writing d p (Suc k) True c1"
    and read_data: "reading d p (Suc k) True c \<Longrightarrow> io_insw io c 0x1F0 = (w, c1) \<Longrightarrow>
      bytes16 w = [d p, d (p + 1)] \<and> (if k = 0 then idle d c1 else reading d (p + 2) k (k mod 256 \<noteq> 0) c1)"
    and write_data: "writing d p (Suc k) True c \<Longrightarrow>
      (if k = 0 then finishing (write_bytes d p (bytes16 w)) (io_outw io c 0x1F0 w)
       else writing (write_bytes d p (bytes16 w)) (p + 2) k (k mod 256 \<noteq> 0) (io_outw io c 0x1F0 w))"
    and finish_status: "finishing d c \<Longrightarrow> io_insb io c 0x1F7 = (status, c1) \<Longrightarrow>
      status AND 0x80 \<noteq> 0 \<and> finishing d c1 \<and> delay c1 < delay c \<or> status AND 0x80 = 0 \<and> idle d c1"
begin

lemma drq: "status AND 0x88 = (0x80 :: byte) \<Longrightarrow> status AND 0x08 = 0" "status AND 0x88 = (0x08 :: byte) \<Longrightarrow> status AND 0x08 \<noteq> 0"
proof -
  have "status AND 0x08 = (status AND 0x88) AND 0x08" by (simp add: and.assoc)
  then show "status AND 0x88 = (0x80 :: byte) \<Longrightarrow> status AND 0x08 = 0" "status AND 0x88 = (0x08 :: byte) \<Longrightarrow> status AND 0x08 \<noteq> 0" by simp_all
qed

lemma wait_reading:
  assumes "reading d p (Suc k) False c"
  shows "\<exists>c1. wait_ready io c = Some c1 \<and> reading d p (Suc k) True c1"
  using assms
proof (induction "delay c" arbitrary: c rule: less_induct)
  case less
  obtain status c1 where s: "io_insb io c 0x1F7 = (status, c1)" by force
  from read_status [OF less.prems s] less.hyps [of c1] show ?case
    by (subst wait_ready.simps) (auto simp: s drq split: if_splits)
qed

lemma wait_writing:
  assumes "writing d p (Suc k) False c"
  shows "\<exists>c1. wait_ready io c = Some c1 \<and> writing d p (Suc k) True c1"
  using assms
proof (induction "delay c" arbitrary: c rule: less_induct)
  case less
  obtain status c1 where s: "io_insb io c 0x1F7 = (status, c1)" by force
  from write_status [OF less.prems s] less.hyps [of c1] show ?case
    by (subst wait_ready.simps) (auto simp: s drq split: if_splits)
qed

lemma wait_finishing:
  assumes "finishing d c"
  shows "\<exists>c1. wait_idle io c = Some c1 \<and> idle d c1"
  using assms
proof (induction "delay c" arbitrary: c rule: less_induct)
  case less
  obtain status c1 where s: "io_insb io c 0x1F7 = (status, c1)" by force
  from finish_status [OF less.prems s] less.hyps [of c1] show ?case
    by (subst wait_idle.simps) (auto simp: s split: if_splits)
qed

text \<open>The registers that \<^verbatim>\<open>start_transfer\<close> writes, and the state in which the command finds the controller.\<close>

lemma registers_set:
  assumes "idle d c" and "0 \<le> lba" "lba + n \<le> 2 ^ 28" "0 < n" "n \<le> 256"
  obtains c1 where "idle d c1" "ata_selected (regs c1)" "ata_address (regs c1) = nat lba" "ata_count (regs c1) = nat n"
    "\<And>command. start_transfer io c lba n command = io_outb io c1 0x1F7 command"
proof -
  let ?r = "(regs c)(0x1F6 := word_of_int (drop_bit 24 lba) OR 0xE0, 0x1F2 := word_of_int n, 0x1F3 := word_of_int lba,
    0x1F4 := word_of_int (drop_bit 8 lba), 0x1F5 := word_of_int (drop_bit 16 lba))"
  define c1 where "c1 = io_outb io (io_outb io (io_outb io (io_outb io (io_outb io c 0x1F6 (word_of_int (drop_bit 24 lba) OR 0xE0)) 0x1F2 (word_of_int n))
    0x1F3 (word_of_int lba)) 0x1F4 (word_of_int (drop_bit 8 lba))) 0x1F5 (word_of_int (drop_bit 16 lba))"
  have "idle d c1 \<and> regs c1 = ?r" unfolding c1_def using register [of d] assms(1) by simp
  moreover have "start_transfer io c lba n command = io_outb io c1 0x1F7 command" for command by (simp add: start_transfer_def c1_def Let_def)
  ultimately show thesis using that registers_of [OF assms(2-5), of "regs c"] by metis
qed

lemma start_read:
  assumes "idle d c" and "0 \<le> lba" "lba + n \<le> 2 ^ 28" "0 < n" "n \<le> 256"
  shows "reading d (512 * nat lba) (256 * nat n) False (start_transfer io c lba n 0x20)"
proof -
  have "nat lba + nat n \<le> 2 ^ 28" using assms(2-4) by (simp add: nat_add_distrib [symmetric] nat_le_iff)
  with registers_set [OF assms] read_command show ?thesis by metis
qed

lemma start_write:
  assumes "idle d c" and "0 \<le> lba" "lba + n \<le> 2 ^ 28" "0 < n" "n \<le> 256"
  shows "writing d (512 * nat lba) (256 * nat n) False (start_transfer io c lba n 0x30)"
proof -
  have "nat lba + nat n \<le> 2 ^ 28" using assms(2-4) by (simp add: nat_add_distrib [symmetric] nat_le_iff)
  with registers_set [OF assms] write_command show ?thesis by metis
qed

lemma bytes_at_word: "bytes_at d p (2 * i) @ [d (p + 2 * i), d (p + 2 * i + 1)] = bytes_at d p (2 * Suc i)"
  by simp

lemma words_left:
  assumes "i < 256" and "256 * Suc r - i = Suc k"
  shows "k = 0 \<longleftrightarrow> Suc i = 256 \<and> r = 0" "k mod 256 \<noteq> 0 \<longleftrightarrow> Suc i < 256" "Suc i < 256 \<Longrightarrow> k = 256 * Suc r - Suc i" "Suc i = 256 \<Longrightarrow> k = 256 * r"
proof -
  have k: "k = 256 * r + (255 - i)" using assms by simp
  then show "k = 0 \<longleftrightarrow> Suc i = 256 \<and> r = 0" "Suc i < 256 \<Longrightarrow> k = 256 * Suc r - Suc i" "Suc i = 256 \<Longrightarrow> k = 256 * r" using assms(1) by auto
  have "k mod 256 = 255 - i" unfolding k by simp
  then show "k mod 256 \<noteq> 0 \<longleftrightarrow> Suc i < 256" using assms(1) by auto
qed

text \<open>One sector, and the state behind it.\<close>

lemma read_sector_words:
  assumes "reading d p (256 * Suc r) True c"
  shows "\<exists>c1. for_loop 0 256 (read_word io) (c, out) = Some (c1, out @ bytes_at d p 512)
     \<and> (if r = 0 then idle d c1 else reading d (p + 512) (256 * r) False c1)"
proof -
  define I where "I i s \<longleftrightarrow> snd s = out @ bytes_at d p (2 * i)
     \<and> (if i < 256 then reading d (p + 2 * i) (256 * Suc r - i) True (fst s)
        else if r = 0 then idle d (fst s) else reading d (p + 512) (256 * r) False (fst s))" for i s
  have "\<exists>s'. for_loop 0 256 (read_word io) (c, out) = Some s' \<and> I (0 + 256) s'"
  proof (rule for_loop_inv)
    show "I 0 (c, out)" using assms by (simp add: I_def)
    fix i t assume i: "0 \<le> i" "i < 0 + 256" and "I i t"
    then have t: "snd t = out @ bytes_at d p (2 * i)" "reading d (p + 2 * i) (256 * Suc r - i) True (fst t)" by (simp_all add: I_def)
    obtain k where k: "256 * Suc r - i = Suc k" using i by (cases "256 * Suc r - i") auto
    obtain w c1 where w: "io_insw io (fst t) 0x1F0 = (w, c1)" by force
    note L = words_left [of i r k, OF _ k]
    have "reading d (p + 2 * i) (Suc k) True (fst t)" using t(2) k by simp
    note rd = read_data [OF this w]
    have e: "p + 2 * i + 2 = p + 2 * Suc i" by simp
    from rd [unfolded e] have r: "bytes16 w = [d (p + 2 * i), d (p + 2 * i + 1)]"
      "if k = 0 then idle d c1 else reading d (p + 2 * Suc i) k (k mod 256 \<noteq> 0) c1" by blast+
    have "read_word io i t = Some (c1, out @ bytes_at d p (2 * Suc i))"
      using w t(1) r(1) bytes_at_word [of d p i] by (cases t) (simp add: read_word_def)
    moreover have "I (Suc i) (c1, out @ bytes_at d p (2 * Suc i))"
    proof (cases "Suc i < 256")
      case True
      with r(2) L i show ?thesis by (simp add: I_def)
    next
      case False
      then have "Suc i = 256" using i by simp
      with r(2) L i show ?thesis by (auto simp: I_def)
    qed
    ultimately show "\<exists>t'. read_word io i t = Some t' \<and> I (Suc i) t'" by blast
  qed
  then show ?thesis by (auto simp: I_def)
qed

lemma read_sectors:
  assumes "reading d p (256 * n) False c" and "0 < n"
  shows "\<exists>c1. for_loop 0 n (\<lambda>b (c, out). do { c \<leftarrow> wait_ready io c; for_loop 0 256 (read_word io) (c, out) }) (c, [])
     = Some (c1, bytes_at d p (512 * n)) \<and> idle d c1"
proof -
  let ?f = "\<lambda>b (c, out). do { c \<leftarrow> wait_ready io c; for_loop 0 256 (read_word io) (c, out) }"
  define I where "I b s \<longleftrightarrow> snd s = bytes_at d p (512 * b)
     \<and> (if b < n then reading d (p + 512 * b) (256 * (n - b)) False (fst s) else idle d (fst s))" for b s
  have "\<exists>s'. for_loop 0 n ?f (c, []) = Some s' \<and> I (0 + n) s'"
  proof (rule for_loop_inv)
    show "I 0 (c, [])" using assms by (simp add: I_def)
    fix b t assume b: "0 \<le> b" "b < 0 + n" and "I b t"
    then obtain r where r: "n - b = Suc r" "snd t = bytes_at d p (512 * b)" "reading d (p + 512 * b) (256 * Suc r) False (fst t)"
      by (cases "n - b") (auto simp: I_def)
    from r(3) wait_reading [of d "p + 512 * b" "256 * r + 255" "fst t"] obtain c1 where
      c1: "wait_ready io (fst t) = Some c1" "reading d (p + 512 * b) (256 * Suc r) True c1" by auto
    from read_sector_words [OF c1(2), of "snd t"] obtain c2 where
      c2: "for_loop 0 256 (read_word io) (c1, snd t) = Some (c2, snd t @ bytes_at d (p + 512 * b) 512)"
      "if r = 0 then idle d c2 else reading d (p + 512 * b + 512) (256 * r) False c2" by blast
    have "bytes_at d p (512 * b) @ bytes_at d (p + 512 * b) 512 = bytes_at d p (512 * Suc b)"
      using map_fun_upt_append [of d p "512 * b" 512] by (simp add: algebra_simps)
    then have run: "?f b t = Some (c2, bytes_at d p (512 * Suc b))" using c1(1) c2(1) r(2) by (cases t) simp
    have rest: "n - Suc b = r" "Suc b < n \<longleftrightarrow> r \<noteq> 0" using r(1) by auto
    have e: "p + 512 * b + 512 = p + 512 * Suc b" by simp
    have "I (Suc b) (c2, bytes_at d p (512 * Suc b))"
      using c2(2) [unfolded e] unfolding I_def fst_conv snd_conv rest by (cases "r = 0") (simp_all only: simp_thms if_True if_False)
    with run show "\<exists>t'. ?f b t = Some t' \<and> I (Suc b) t'" by blast
  qed
  then show ?thesis by (auto simp: I_def)
qed

text \<open>Reading sectors over the ports is the block operation.\<close>

lemma read_refines:
  assumes "idle d c" and "lba_ok lba n" and "0 < n" and "n \<le> 256"
  shows "\<exists>out c1. disk_read_sector io c lba n = Some (0, out, c1) \<and> disk_read_block d 0 lba n = Some (0, out) \<and> idle d c1"
proof -
  have l: "0 \<le> lba" "lba + n \<le> 2 ^ 28" using assms(2) by (simp_all add: lba_ok_def)
  from read_sectors [OF start_read [OF assms(1) l assms(3,4)]] assms(3) obtain c1 where
    c1: "for_loop 0 (nat n) (\<lambda>b (c, out). do { c \<leftarrow> wait_ready io c; for_loop 0 256 (read_word io) (c, out) })
      (start_transfer io c lba n 0x20, []) = Some (c1, bytes_at d (512 * nat lba) (512 * nat n))" "idle d c1" by auto
  have "nat (512 * (lba + n)) = 512 * nat lba + 512 * nat n" "nat (512 * lba) = 512 * nat lba" 
    using l(1) assms(3) by (simp_all add: nat_mult_distrib nat_add_distrib)
  then have "disk_read_block d 0 lba n = Some (0, bytes_at d (512 * nat lba) (512 * nat n))" using assms(2) by (simp add: disk_read_block_def)
  with c1 show ?thesis by (simp add: disk_read_sector_def Let_def)
qed

text \<open>The same for a write: the drive has the part of \<open>buf\<close> that was sent.\<close>

lemma write_bytes_word:
  assumes "2 * i + 2 \<le> length buf"
  shows "write_bytes (write_bytes d p (take (2 * i) buf)) (p + 2 * i) (bytes16 (le16 (drop (2 * i) buf)))
     = write_bytes d p (take (2 * Suc i) buf)"
proof -
  obtain a b r where "drop (2 * i) buf = a # b # r"
    using assms by (cases "drop (2 * i) buf"; cases "tl (drop (2 * i) buf)") (auto dest: arg_cong [of _ _ length])
  then have "bytes16 (le16 (drop (2 * i) buf)) = take 2 (drop (2 * i) buf)" by (simp add: bytes16_le16)
  moreover have "take (2 * Suc i) buf = take (2 * i) buf @ take 2 (drop (2 * i) buf)" by (simp add: take_add [symmetric])
  ultimately show ?thesis using assms write_bytes_append [of d p "take (2 * i) buf"] by simp
qed

lemma write_sector_words:
  assumes "writing d p (256 * Suc r) True c" and "512 \<le> length buf"
  shows "\<exists>c1. for_loop 0 256 (write_word io) (c, buf) = Some (c1, drop 512 buf)
     \<and> (let d' = write_bytes d p (take 512 buf) in if r = 0 then finishing d' c1 else writing d' (p + 512) (256 * r) False c1)"
proof -
  define D where "D i = write_bytes d p (take (2 * i) buf)" for i
  define I where "I i s \<longleftrightarrow> snd s = drop (2 * i) buf
     \<and> (if i < 256 then writing (D i) (p + 2 * i) (256 * Suc r - i) True (fst s)
        else if r = 0 then finishing (D 256) (fst s) else writing (D 256) (p + 512) (256 * r) False (fst s))" for i s
  have "\<exists>s'. for_loop 0 256 (write_word io) (c, buf) = Some s' \<and> I (0 + 256) s'"
  proof (rule for_loop_inv)
    show "I 0 (c, buf)" using assms by (simp add: I_def D_def)
    fix i t assume i: "0 \<le> i" "i < 0 + 256" and "I i t"
    then have t: "snd t = drop (2 * i) buf" "writing (D i) (p + 2 * i) (256 * Suc r - i) True (fst t)" by (simp_all add: I_def)
    obtain k where k: "256 * Suc r - i = Suc k" using i by (cases "256 * Suc r - i") auto
    define c1 where "c1 = io_outw io (fst t) 0x1F0 (le16 (drop (2 * i) buf))"
    note L = words_left [of i r k, OF _ k]
    have e: "p + 2 * i + 2 = p + 2 * Suc i" by simp
    have D: "write_bytes (D i) (p + 2 * i) (bytes16 (le16 (drop (2 * i) buf))) = D (Suc i)"
      unfolding D_def using assms(2) i by (intro write_bytes_word) simp
    have "writing (D i) (p + 2 * i) (Suc k) True (fst t)" using t(2) k by simp
    from write_data [OF this, of "le16 (drop (2 * i) buf)", unfolded e D, folded c1_def]
    have w: "if k = 0 then finishing (D (Suc i)) c1 else writing (D (Suc i)) (p + 2 * Suc i) k (k mod 256 \<noteq> 0) c1" .
    have "write_word io i t = Some (c1, drop (2 * Suc i) buf)"
      using t(1) assms(2) i by (cases t) (auto simp: write_word_def c1_def)
    moreover have "I (Suc i) (c1, drop (2 * Suc i) buf)"
    proof (cases "Suc i < 256")
      case True
      with w L i show ?thesis by (simp add: I_def)
    next
      case False
      then have "Suc i = 256" using i by simp
      with w L i show ?thesis by (auto simp: I_def)
    qed
    ultimately show "\<exists>t'. write_word io i t = Some t' \<and> I (Suc i) t'" by blast
  qed
  then show ?thesis by (auto simp: I_def D_def Let_def)
qed

lemma write_sectors:
  assumes "writing d p (256 * n) False c" and "0 < n" and "512 * n \<le> length buf"
  shows "\<exists>c1. for_loop 0 n (\<lambda>b (c, buf). do { c \<leftarrow> wait_ready io c; for_loop 0 256 (write_word io) (c, buf) }) (c, buf)
     = Some (c1, drop (512 * n) buf) \<and> finishing (write_bytes d p (take (512 * n) buf)) c1"
proof -
  let ?f = "\<lambda>b (c, buf). do { c \<leftarrow> wait_ready io c; for_loop 0 256 (write_word io) (c, buf) }"
  define D where "D b = write_bytes d p (take (512 * b) buf)" for b
  define I where "I b s \<longleftrightarrow> snd s = drop (512 * b) buf
     \<and> (if b < n then writing (D b) (p + 512 * b) (256 * (n - b)) False (fst s) else finishing (D b) (fst s))" for b s
  have "\<exists>s'. for_loop 0 n ?f (c, buf) = Some s' \<and> I (0 + n) s'"
  proof (rule for_loop_inv)
    show "I 0 (c, buf)" using assms by (simp add: I_def D_def)
    fix b t assume b: "0 \<le> b" "b < 0 + n" and "I b t"
    then obtain r where r: "n - b = Suc r" "snd t = drop (512 * b) buf" "writing (D b) (p + 512 * b) (256 * Suc r) False (fst t)"
      by (cases "n - b") (auto simp: I_def)
    from r(3) wait_writing [of "D b" "p + 512 * b" "256 * r + 255" "fst t"] obtain c1 where
      c1: "wait_ready io (fst t) = Some c1" "writing (D b) (p + 512 * b) (256 * Suc r) True c1" by auto
    have len: "512 * Suc b \<le> length buf" using assms(3) b(2) mult_le_mono2 [of "Suc b" n 512] by simp
    then have "512 \<le> length (snd t)" using r(2) by simp
    from write_sector_words [OF c1(2) this] obtain c2 where
      c2: "for_loop 0 256 (write_word io) (c1, snd t) = Some (c2, drop 512 (snd t))"
      "let d' = write_bytes (D b) (p + 512 * b) (take 512 (snd t)) in
        if r = 0 then finishing d' c2 else writing d' (p + 512 * b + 512) (256 * r) False c2" by blast
    have "take (512 * Suc b) buf = take (512 * b) buf @ take 512 (snd t)" by (simp add: take_add [symmetric] r(2) add.commute)
    then have D: "write_bytes (D b) (p + 512 * b) (take 512 (snd t)) = D (Suc b)"
      using len write_bytes_append [of d p "take (512 * b) buf"] by (simp add: D_def)
    have run: "?f b t = Some (c2, drop (512 * Suc b) buf)" using c1(1) c2(1) r(2) by (cases t) (simp add: add.commute)
    have rest: "n - Suc b = r" "Suc b < n \<longleftrightarrow> r \<noteq> 0" using r(1) by auto
    have e: "p + 512 * b + 512 = p + 512 * Suc b" by simp
    have "I (Suc b) (c2, drop (512 * Suc b) buf)"
      using c2(2) [unfolded e D Let_def] unfolding I_def fst_conv snd_conv rest by (cases "r = 0") (simp_all only: simp_thms if_True if_False)
    with run show "\<exists>t'. ?f b t = Some t' \<and> I (Suc b) t'" by blast
  qed
  then show ?thesis by (auto simp: I_def D_def)
qed

text \<open>All words are sent, and the command that flushes the cache goes to a controller that is still finishing the last sector.\<close>

lemma write_sends:
  assumes "idle d c" and "lba_ok lba n" and "0 < n" and "n \<le> 256" and "512 * n \<le> int (length buf)"
  obtains d1 c1 where "disk_write_block d 0 lba n buf = Some (0, d1)" "finishing d1 c1"
    "disk_write_sector io c lba n buf = map_option (Pair 0) (wait_idle io (io_outb io c1 0x1F7 0xE7))"
proof -
  have l: "0 \<le> lba" "lba + n \<le> 2 ^ 28" using assms(2) by (simp_all add: lba_ok_def)
  let ?d = "write_bytes d (512 * nat lba) (take (512 * nat n) buf)"
  have b: "512 * nat n \<le> length buf" using assms(5) by (simp add: nat_le_iff)
  from write_sectors [OF start_write [OF assms(1) l assms(3,4)] _ b] assms(3) obtain c1 where
    c1: "for_loop 0 (nat n) (\<lambda>b (c, buf). do { c \<leftarrow> wait_ready io c; for_loop 0 256 (write_word io) (c, buf) })
      (start_transfer io c lba n 0x30, buf) = Some (c1, drop (512 * nat n) buf)" "finishing ?d c1" by auto
  have "nat (512 * (lba + n)) = 512 * nat lba + 512 * nat n" "nat (512 * lba) = 512 * nat lba"
    using l(1) assms(3) by (simp_all add: nat_mult_distrib nat_add_distrib)
  then have "disk_write_block d 0 lba n buf = Some (0, ?d)" using assms(2,5) b
    by (auto simp: disk_write_block_def write_bytes_def fun_eq_iff less_diff_conv2)
  moreover have "disk_write_sector io c lba n buf = map_option (Pair 0) (wait_idle io (io_outb io c1 0x1F7 0xE7))"
    using c1(1) by (cases "wait_idle io (io_outb io c1 0x1F7 0xE7)") (simp_all add: disk_write_sector_def Let_def)
  ultimately show thesis using that c1(2) by blast
qed

text \<open>If that command leaves the controller finishing its sector, the wait behind it ends with the sector on the drive.\<close>

lemma write_refines:
  assumes "idle d c" and "lba_ok lba n" and "0 < n" and "n \<le> 256" and "512 * n \<le> int (length buf)"
    and "\<And>d c. finishing d c \<Longrightarrow> finishing d (io_outb io c 0x1F7 0xE7)"
  shows "\<exists>d1 c1. disk_write_sector io c lba n buf = Some (0, c1) \<and> disk_write_block d 0 lba n buf = Some (0, d1) \<and> idle d1 c1"
proof -
  obtain d1 c1 where c1: "disk_write_block d 0 lba n buf = Some (0, d1)" "finishing d1 c1"
    "disk_write_sector io c lba n buf = map_option (Pair 0) (wait_idle io (io_outb io c1 0x1F7 0xE7))" by (rule write_sends [OF assms(1-5)])
  from wait_finishing [OF assms(6) [OF c1(2)]] c1(1,3) show ?thesis by auto
qed

end

section \<open>A controller\<close>

text \<open>
  A drive that follows the protocol: the task file of registers, and a status that shows the drive busy twice before
  each sector, after the last word of a write, and after a flush. It ignores commands while it is not idle, and it counts the flushes that it made.
\<close>

datatype ata_phase = Idle | Reading nat nat bool | Writing nat nat bool | Finishing

record ata_drive =
  a_regs :: "u16 \<Rightarrow> byte"
  a_data :: drive
  a_phase :: ata_phase
  a_busy :: nat
  a_flushes :: nat

definition ata_outb :: "ata_drive \<Rightarrow> u16 \<Rightarrow> byte \<Rightarrow> ata_drive" where
  "ata_outb c port v = (let r = a_regs c; p = 512 * ata_address r; k = 256 * ata_count r in
     if a_phase c \<noteq> Idle then c
     else if port \<noteq> 0x1F7 then c\<lparr>a_regs := r(port := v)\<rparr>
     else if v = 0x20 then c\<lparr>a_phase := Reading p k False, a_busy := 2\<rparr>
     else if v = 0x30 then c\<lparr>a_phase := Writing p k False, a_busy := 2\<rparr>
     else if v = 0xE7 then c\<lparr>a_phase := Finishing, a_busy := 2, a_flushes := Suc (a_flushes c)\<rparr> else c)"

definition ata_status :: "ata_drive \<Rightarrow> byte \<times> ata_drive" where
  "ata_status c = (case a_phase c of
       Idle \<Rightarrow> (0x40, c)
     | Reading p k ready \<Rightarrow> if ready then (0x48, c) else if a_busy c \<noteq> 0 then (0x80, c\<lparr>a_busy := a_busy c - 1\<rparr>)
         else (0x48, c\<lparr>a_phase := Reading p k True\<rparr>)
     | Writing p k ready \<Rightarrow> if ready then (0x48, c) else if a_busy c \<noteq> 0 then (0x80, c\<lparr>a_busy := a_busy c - 1\<rparr>)
         else (0x48, c\<lparr>a_phase := Writing p k True\<rparr>)
     | Finishing \<Rightarrow> if a_busy c \<noteq> 0 then (0x80, c\<lparr>a_busy := a_busy c - 1\<rparr>) else (0x40, c\<lparr>a_phase := Idle\<rparr>))"

definition ata_insb :: "ata_drive \<Rightarrow> u16 \<Rightarrow> byte \<times> ata_drive" where
  "ata_insb c port = (if port = 0x1F7 then ata_status c else (a_regs c port, c))"

definition ata_insw :: "ata_drive \<Rightarrow> u16 \<Rightarrow> u16 \<times> ata_drive" where
  "ata_insw c port = (case a_phase c of
       Reading p (Suc k) True \<Rightarrow> (le16 [a_data c p, a_data c (p + 1)],
         if k = 0 then c\<lparr>a_phase := Idle\<rparr> else c\<lparr>a_phase := Reading (p + 2) k (k mod 256 \<noteq> 0), a_busy := 2\<rparr>)
     | _ \<Rightarrow> (0xFFFF, c))"

definition ata_outw :: "ata_drive \<Rightarrow> u16 \<Rightarrow> u16 \<Rightarrow> ata_drive" where
  "ata_outw c port w = (case a_phase c of
       Writing p (Suc k) True \<Rightarrow> (let c1 = c\<lparr>a_data := write_bytes (a_data c) p (bytes16 w)\<rparr> in
         if k = 0 then c1\<lparr>a_phase := Finishing, a_busy := 2\<rparr> else c1\<lparr>a_phase := Writing (p + 2) k (k mod 256 \<noteq> 0), a_busy := 2\<rparr>)
     | _ \<Rightarrow> c)"

definition ata_io :: "ata_drive controller" where
  "ata_io = \<lparr>io_outb = ata_outb, io_outw = ata_outw, io_insb = ata_insb, io_insw = ata_insw\<rparr>"

text \<open>A phase with the contents of the drive, before any flush.\<close>

definition ata_in :: "ata_phase \<Rightarrow> drive \<Rightarrow> ata_drive \<Rightarrow> bool" where
  "ata_in phase d c \<longleftrightarrow> a_phase c = phase \<and> a_data c = d \<and> a_flushes c = 0"

interpretation drive: ata ata_io a_regs "ata_in Idle" "\<lambda>d p k ready. ata_in (Reading p k ready) d" "\<lambda>d p k ready. ata_in (Writing p k ready) d"
  "ata_in Finishing" a_busy
  by unfold_locales (auto simp: ata_io_def ata_insb_def ata_status_def ata_in_def ata_insw_def ata_outw_def ata_outb_def Let_def bytes16_le16
    split: if_splits)

section \<open>Properties\<close>

text \<open>
  C39: the block functions over the ports. On a controller that follows the protocol, with a drive that is idle, \<^verbatim>\<open>disk_read_block\<close> of up to 256 sectors returns:
  the loops that wait end, the result and the bytes are those of the block operation, and the controller is idle again. \<^verbatim>\<open>disk_write_block\<close> sends all
  words, so that the contents of the drive are those of the block operation, and then writes the command 0xE7 to a controller that is still finishing
  the last sector, without a look at \<^verbatim>\<open>BSY\<close>, where the standard leaves the effect of a command open. On those controllers on which this command does not
  disturb the sector the function returns with the sector on the drive and the controller idle.
\<close>

theorem disk_ports_refine_blocks:
  fixes io :: "'c controller"
  assumes "ata io regs idle reading writing finishing delay" and "idle d c" and "lba_ok lba n" and "0 < n" and "n \<le> 256"
    and "512 * n \<le> int (length buf)"
  shows "(\<exists>res out c1. read_block_ports io c idisk lba n = Some (res, out, c1) \<and> disk_read_block d idisk lba n = Some (res, out) \<and> idle d c1)
    \<and> (\<exists>d1 c1. disk_write_block d 0 lba n buf = Some (0, d1) \<and> finishing d1 c1
         \<and> write_block_ports io c 0 lba n buf = map_option (Pair 0) (wait_idle io (io_outb io c1 0x1F7 0xE7)))
    \<and> ((\<forall>d c. finishing d c \<longrightarrow> finishing d (io_outb io c 0x1F7 0xE7)) \<longrightarrow>
         (\<exists>res d1 c1. write_block_ports io c idisk lba n buf = Some (res, c1) \<and> disk_write_block d idisk lba n buf = Some (res, d1) \<and> idle d1 c1))"
proof -
  have other: "disk_read_block d idisk lba n = Some (- EIO, [])" "disk_write_block d idisk lba n buf = Some (- EIO, d)" if "idisk \<noteq> 0"
    using that by (simp_all add: disk_read_block_def disk_write_block_def)
  have "\<exists>res out c1. read_block_ports io c idisk lba n = Some (res, out, c1) \<and> disk_read_block d idisk lba n = Some (res, out) \<and> idle d c1"
    using ata.read_refines [OF assms(1-5)] assms(2) by (cases "idisk = 0") (auto simp: read_block_ports_def other)
  moreover have "\<exists>d1 c1. disk_write_block d 0 lba n buf = Some (0, d1) \<and> finishing d1 c1
       \<and> write_block_ports io c 0 lba n buf = map_option (Pair 0) (wait_idle io (io_outb io c1 0x1F7 0xE7))"
    by (rule ata.write_sends [OF assms]) (auto simp: write_block_ports_def)
  moreover have "\<exists>res d1 c1. write_block_ports io c idisk lba n buf = Some (res, c1) \<and> disk_write_block d idisk lba n buf = Some (res, d1) \<and> idle d1 c1"
    if "\<forall>d c. finishing d c \<longrightarrow> finishing d (io_outb io c 0x1F7 0xE7)"
    using ata.write_refines [OF assms] that assms(2) by (cases "idisk = 0") (auto simp: write_block_ports_def other)
  ultimately show ?thesis by blast
qed

definition new_drive :: ata_drive where
  "new_drive = \<lparr>a_regs = \<lambda>_. 0, a_data = \<lambda>a. of_nat a, a_phase = Idle, a_busy = 0, a_flushes = 0\<rparr>"

text \<open>On the drive above the sector is written, and the cache is not flushed: the command was ignored.\<close>

theorem disk_ports_refine_blocks_witness:
  "\<exists>d c1. write_block_ports ata_io new_drive 0 3 1 (replicate 512 7) = Some (0, c1)
    \<and> disk_write_block (\<lambda>a. of_nat a) 0 3 1 (replicate 512 7) = Some (0, d) \<and> a_data c1 = d \<and> a_phase c1 = Idle \<and> a_flushes c1 = 0"
proof -
  have "ata_in Idle (\<lambda>a. of_nat a) new_drive" "lba_ok 3 1" by (simp_all add: ata_in_def new_drive_def lba_ok_def)
  moreover have "\<forall>d c. ata_in Finishing d c \<longrightarrow> ata_in Finishing d (io_outb ata_io c 0x1F7 0xE7)" by (simp add: ata_in_def ata_io_def ata_outb_def)
  ultimately obtain res d c1 where "write_block_ports ata_io new_drive 0 3 1 (replicate 512 7) = Some (res, c1)"
    "disk_write_block (\<lambda>a. of_nat a) 0 3 1 (replicate 512 7) = Some (res, d)" "ata_in Idle d c1"
    using disk_ports_refine_blocks [OF drive.ata_axioms, of "\<lambda>a. of_nat a" new_drive 3 1 "replicate 512 7" 0] by auto
  then show ?thesis by (auto simp: ata_in_def disk_write_block_def split: if_splits)
qed

end
