(* ===== verification/Line_Input.thy ===== *)
theory Line_Input
  imports System_Calls
begin

text \<open>
  The line that a program reads from the keyboard, \<^verbatim>\<open>isr80h_command6_readline\<close> of \<^verbatim>\<open>src/src/isr80h/process.c\<close>: from the
  interrupts that arrive while the kernel waits, through the ring buffer of the process, to the memory of the program and
  the screen. The reference is a line editor on lists of characters.
\<close>

section \<open>The reference\<close>

text \<open>
  The characters of the keys that interrupts announce. The interrupt of the one scan code for which the code reads past
  its table has none.
\<close>

fun irq_keys :: "irq list \<Rightarrow> byte list option" where
  "irq_keys [] = Some []"
| "irq_keys (Irq_key scancode # is) = do {
     key \<leftarrow> classic_key scancode;
     ks \<leftarrow> irq_keys is;
     Some (case key of None \<Rightarrow> ks | Some c \<Rightarrow> c # ks)
   }"
| "irq_keys (_ # is) = irq_keys is"

text \<open>
  The editor with room for \<open>m - 1\<close> characters, the line so far, the characters \<open>q\<close> that wait and, for every time that it
  waits, the characters that arrive. It takes one character each time, and gives the line, the characters
  that are left and those that it shows. With no more arrivals it waits for ever.
\<close>

fun edit_line :: "nat \<Rightarrow> byte list \<Rightarrow> byte list \<Rightarrow> byte list list \<Rightarrow> (byte list \<times> byte list \<times> byte list) option" where
  "edit_line m line q arrivals =
     (if m \<le> Suc (length line) then Some (line, q, [])
      else case arrivals of
        [] \<Rightarrow> None
      | ks # arrivals \<Rightarrow> (case q @ ks of
          [] \<Rightarrow> edit_line m line [] arrivals
        | c # q \<Rightarrow>
            if c = 0x08 then
              (if line = [] then edit_line m line q arrivals
               else do { (l, r, e) \<leftarrow> edit_line m (butlast line) q arrivals; Some (l, r, 0x08 # e) })
            else if c = 0x0D \<or> c = 0x0A then Some (line @ [c], q, [0x0A])
            else do { (l, r, e) \<leftarrow> edit_line m (line @ [c]) q arrivals; Some (l, r, c # e) }))"

declare edit_line.simps [simp del]

text \<open>
  Line ends that come before the first time without a key are skipped. The first other key is taken as it is,
  a backspace too.
\<close>

fun skip_ends :: "byte list \<Rightarrow> byte list list \<Rightarrow> (byte list \<times> byte list \<times> byte list list) option" where
  "skip_ends q [] = None"
| "skip_ends q (ks # arrivals) = (case q @ ks of
       [] \<Rightarrow> Some ([], [], arrivals)
     | c # q \<Rightarrow> if c = 0x0D \<or> c = 0x0A then skip_ends q arrivals else Some ([c], q, arrivals))"

definition read_line :: "nat \<Rightarrow> byte list \<Rightarrow> byte list list \<Rightarrow> (byte list \<times> byte list \<times> byte list) option" where
  "read_line m q arrivals = do {
     (first, q, arrivals) \<leftarrow> skip_ends q arrivals;
     (line, q, shown) \<leftarrow> edit_line m first q arrivals;
     Some (line, q, first @ shown)
   }"

lemma edit_line_steps:
  "m \<le> Suc (length line) \<Longrightarrow> edit_line m line q arrivals = Some (line, q, [])"
  "Suc (length line) < m \<Longrightarrow> edit_line m line q [] = None"
  "Suc (length line) < m \<Longrightarrow> q @ ks = [] \<Longrightarrow> edit_line m line q (ks # arrivals) = edit_line m line [] arrivals"
  "Suc (length line) < m \<Longrightarrow> q @ ks = c # q' \<Longrightarrow> edit_line m line q (ks # arrivals) =
     (if c = 0x08 then
        (if line = [] then edit_line m line q' arrivals
         else do { (l, r, e) \<leftarrow> edit_line m (butlast line) q' arrivals; Some (l, r, 0x08 # e) })
      else if c = 0x0D \<or> c = 0x0A then Some (line @ [c], q', [0x0A])
      else do { (l, r, e) \<leftarrow> edit_line m (line @ [c]) q' arrivals; Some (l, r, c # e) })"
  by (subst edit_line.simps, simp)+

lemma edit_line_length:
  "edit_line m line q arrivals = Some (l, r, e) \<Longrightarrow> length line < m \<Longrightarrow> 2 \<le> m \<Longrightarrow> 0 < length l \<and> length l < m"
proof (induction arrivals arbitrary: line q l r e)
  case Nil
  then show ?case by (cases "m \<le> Suc (length line)") (auto simp: edit_line_steps)
next
  case (Cons ks arrivals)
  show ?case
  proof (cases "m \<le> Suc (length line)")
    case True
    with Cons.prems show ?thesis by (auto simp: edit_line_steps)
  next
    case False
    then have len: "Suc (length line) < m" by simp
    show ?thesis
    proof (cases "q @ ks")
      case Nil
      with Cons len show ?thesis by (auto simp: edit_line_steps(3))
    next
      case c: (Cons c q')
      from Cons.prems(1) [unfolded edit_line_steps(4) [OF len c]] show ?thesis
      proof (cases "c = 0x0D \<or> c = 0x0A")
        case False
        with Cons.prems(1) [unfolded edit_line_steps(4) [OF len c]]
        obtain line' e' where "edit_line m line' q' arrivals = Some (l, r, e')" "length line' < m"
          using len by (cases "c = 0x08"; cases "line = []") (auto simp: bind_Some_iff)
        with Cons.IH Cons.prems(3) show ?thesis by blast
      qed (use len in auto)
    qed
  qed
qed

section \<open>One key\<close>

text \<open>The running process, with the characters \<open>q\<close> in its buffer.\<close>

definition at_keyboard :: "sys \<Rightarrow> byte list \<Rightarrow> bool" where
  "at_keyboard s q \<longleftrightarrow> y_current_task s \<noteq> 0 \<and> y_current_process s \<noteq> 0
     \<and> (\<exists>t p. y_tasks s (y_current_task s) = Some t \<and> tk_process t = y_current_process s
          \<and> y_procs s (y_current_process s) = Some p \<and> kb_inv (p_keyboard p) \<and> kb_content (p_keyboard p) = q)"

text \<open>Only the processes, the ports and the interrupts to come differ.\<close>

definition keyed :: "sys \<Rightarrow> sys \<Rightarrow> bool" where
  "keyed s s' \<longleftrightarrow> (\<exists>procs ports irqs. s' = s\<lparr>y_procs := procs, y_ports := ports, y_irqs := irqs\<rparr>)"

lemma keyedI: "s' = s\<lparr>y_procs := procs, y_ports := ports, y_irqs := irqs\<rparr> \<Longrightarrow> keyed s s'"
  unfolding keyed_def by blast

lemma keyed_trans: "keyed s s1 \<Longrightarrow> keyed s1 s2 \<Longrightarrow> keyed s s2"
  unfolding keyed_def by force

lemma keyed_update [simp]: "keyed s (s\<lparr>y_procs := procs\<rparr>)" "keyed s (s\<lparr>y_ports := ports\<rparr>)" "keyed s (s\<lparr>y_irqs := irqs\<rparr>)" "keyed s s"
proof -
  show "keyed s (s\<lparr>y_procs := procs\<rparr>)" by (rule keyedI [where ports = "y_ports s" and irqs = "y_irqs s"]) simp
  show "keyed s (s\<lparr>y_ports := ports\<rparr>)" by (rule keyedI [where procs = "y_procs s" and irqs = "y_irqs s"]) simp
  show "keyed s (s\<lparr>y_irqs := irqs\<rparr>)" by (rule keyedI [where procs = "y_procs s" and ports = "y_ports s"]) simp
  show "keyed s s" by (rule keyedI [where procs = "y_procs s" and ports = "y_ports s" and irqs = "y_irqs s"]) simp
qed

lemma keyed_fields: "keyed s s' \<Longrightarrow> y_term s' = y_term s" "keyed s s' \<Longrightarrow> y_ram s' = y_ram s" "keyed s s' \<Longrightarrow> y_heap s' = y_heap s"
  "keyed s s' \<Longrightarrow> y_tasks s' = y_tasks s" "keyed s s' \<Longrightarrow> y_current_task s' = y_current_task s"
  by (auto simp: keyed_def y_heap_def)

lemma key_nonzero: "classic_key scancode = Some (Some c) \<Longrightarrow> c \<noteq> 0"
proof -
  assume "classic_key scancode = Some (Some c)"
  then obtain d where d: "classic_keyboard_scancode_to_char scancode = Some d" "key_of d = Some c"
    by (auto simp: classic_key_def key_of_def bind_Some_iff split: if_splits)
  then have "d \<in> set keyboard_scan_set_one" by (auto simp: classic_keyboard_scancode_to_char_def key_of_def Let_def split: if_splits)
  with scan_set_nonzero d(2) show "c \<noteq> 0" by (auto simp: list_all_iff)
qed

lemma content_nonzero: "kb_inv k \<Longrightarrow> 0 \<notin> set (kb_content k)"
  by (auto simp: kb_inv_def kb_content_def)

lemma push_key:
  assumes "at_keyboard s q" and "c \<noteq> 0" and "length q < 1024"
  shows "\<exists>s1. keyboard_push s c = Some s1 \<and> at_keyboard s1 (q @ [c]) \<and> keyed s s1 \<and> y_irqs s1 = y_irqs s"
proof -
  from assms(1) obtain t p where p: "y_tasks s (y_current_task s) = Some t" "tk_process t = y_current_process s"
    "y_procs s (y_current_process s) = Some p" "kb_inv (p_keyboard p)" "kb_content (p_keyboard p) = q"
    "y_current_task s \<noteq> 0" "y_current_process s \<noteq> 0" by (auto simp: at_keyboard_def)
  let ?s = "put_proc s (y_current_process s) (p\<lparr>p_keyboard := kb_push (p_keyboard p) c\<rparr>)"
  have "keyboard_push s c = Some ?s" using p(3,7) by (simp add: keyboard_push_def process_current_def)
  moreover have "at_keyboard ?s (q @ [c])"
    using p assms(2,3) ring.put_inv [OF p(4)] ring.put_content [OF p(4)] by (simp add: at_keyboard_def put_proc_def)
  ultimately show ?thesis by (simp add: put_proc_def)
qed

lemma pop_key:
  assumes "at_keyboard s q"
  shows "\<exists>s1. keyboard_pop s = Some (case q of [] \<Rightarrow> 0 | c # _ \<Rightarrow> c, s1) \<and> at_keyboard s1 (tl q) \<and> keyed s s1 \<and> y_irqs s1 = y_irqs s"
proof -
  from assms obtain t p where p: "y_tasks s (y_current_task s) = Some t" "tk_process t = y_current_process s"
    "y_procs s (y_current_process s) = Some p" "kb_inv (p_keyboard p)" "kb_content (p_keyboard p) = q"
    "y_current_task s \<noteq> 0" "y_current_process s \<noteq> 0" by (auto simp: at_keyboard_def)
  let ?s = "put_proc s (y_current_process s) (p\<lparr>p_keyboard := snd (kb_pop (p_keyboard p))\<rparr>)"
  have "keyboard_pop s = Some (fst (kb_pop (p_keyboard p)), ?s)"
    using p by (simp add: keyboard_pop_def task_current_def case_prod_unfold Let_def)
  moreover have "fst (kb_pop (p_keyboard p)) = (case q of [] \<Rightarrow> 0 | c # _ \<Rightarrow> c) \<and> kb_inv (snd (kb_pop (p_keyboard p)))
      \<and> kb_content (snd (kb_pop (p_keyboard p))) = tl q"
    using ring.get_empty [OF p(4)] ring.get_inv [OF p(4)] ring.get_content [OF p(4)] p(4,5) by (cases q) auto
  ultimately show ?thesis using p by (simp add: at_keyboard_def put_proc_def)
qed

lemma deliver_keys:
  assumes "at_keyboard s q" and "irq_keys is = Some ks" and "length q + length ks \<le> 1024"
  shows "\<exists>s1. deliver_all s is = Some s1 \<and> at_keyboard s1 (q @ ks) \<and> keyed s s1 \<and> y_irqs s1 = y_irqs s"
  using assms
proof (induction "is" arbitrary: s q ks)
  case Nil
  then show ?case by simp
next
  case (Cons i "is")
  have o: "at_keyboard (outb_20 s) q" "keyed s (outb_20 s)" "y_irqs (outb_20 s) = y_irqs s"
    using Cons.prems(1) by (simp_all add: outb_20_def at_keyboard_def)
  show ?case
  proof (cases "\<exists>scancode. i = Irq_key scancode")
    case False
    then have "irq_keys is = Some ks" "deliver s i = Some (outb_20 s)" using Cons.prems(1,2)
      by (cases i; simp add: int20h_handler_def kernel_frame_def no_interrupt_handler_def at_keyboard_def outb_20_def task_current_def)+
    with Cons.IH [OF o(1) this(1) Cons.prems(3)] o(2,3) keyed_trans [OF o(2)] show ?thesis by auto
  next
    case True
    then obtain sc key ks' where i: "i = Irq_key sc" "classic_key sc = Some key" "irq_keys is = Some ks'"
      "ks = (case key of None \<Rightarrow> ks' | Some c \<Rightarrow> c # ks')" using Cons.prems(2) by (auto simp: bind_Some_iff)
    show ?thesis
    proof (cases key)
      case None
      with i o have "deliver s i = Some (outb_20 s)" by (simp add: int21h_handler_def clasic_keyboard_handle_interrupt_def)
      with Cons.IH [OF o(1) i(3)] Cons.prems(3) o(2,3) i(4) None keyed_trans [OF o(2)] show ?thesis by auto
    next
      case (Some c)
      with i have "c \<noteq> 0" "length q < 1024" using key_nonzero Cons.prems(3) by auto
      from push_key [OF o(1) this] obtain s1 where s1: "keyboard_push (outb_20 s) c = Some s1" "at_keyboard s1 (q @ [c])"
        "keyed (outb_20 s) s1" "y_irqs s1 = y_irqs s" using o(3) by auto
      have "deliver s i = Some s1" using i Some s1(1) by (simp add: int21h_handler_def clasic_keyboard_handle_interrupt_def)
      with Cons.IH [OF s1(2) i(3)] Cons.prems(3) i(4) Some s1(4) keyed_trans [OF keyed_trans [OF o(2) s1(3)]] show ?thesis by auto
    qed
  qed
qed

text \<open>The buffer of the running process, the keys to come and the screen: the part of the state that the loops read.\<close>

definition awaits :: "sys \<Rightarrow> byte list \<Rightarrow> byte list list \<Rightarrow> bool" where
  "awaits s q arrivals \<longleftrightarrow> at_keyboard s q \<and> list_all2 (\<lambda>is ks. irq_keys is = Some ks) (y_irqs s) arrivals
     \<and> length q + length (concat arrivals) \<le> 1024 \<and> terminal_ok (y_term s)"

lemma wait_key:
  assumes "awaits s q (ks # arrivals)"
  shows "\<exists>s1 s2. hlt s = Some s1 \<and> keyboard_pop s1 = Some (case q @ ks of [] \<Rightarrow> 0 | c # _ \<Rightarrow> c, s2) \<and> awaits s2 (tl (q @ ks)) arrivals \<and> keyed s s2
     \<and> length (y_irqs s) = Suc (length (y_irqs s2)) \<and> 0 \<notin> set (q @ ks)"
proof -
  from assms obtain "is" iss where i: "y_irqs s = is # iss" "irq_keys is = Some ks" "list_all2 (\<lambda>is ks. irq_keys is = Some ks) iss arrivals"
    by (auto simp: awaits_def list_all2_Cons2)
  let ?s = "s\<lparr>y_irqs := iss\<rparr>"
  have "at_keyboard ?s q" "length q + length ks \<le> 1024" using assms by (simp_all add: awaits_def at_keyboard_def)
  from deliver_keys [OF this(1) i(2) this(2)] obtain s1 where s1: "deliver_all ?s is = Some s1" "at_keyboard s1 (q @ ks)" "keyed ?s s1"
    "y_irqs s1 = iss" by auto
  from pop_key [OF s1(2)] obtain s2 where s2: "keyboard_pop s1 = Some (case q @ ks of [] \<Rightarrow> 0 | c # _ \<Rightarrow> c, s2)"
    "at_keyboard s2 (tl (q @ ks))" "keyed s1 s2" "y_irqs s2 = iss" using s1(4) by auto
  have k: "keyed s s2" by (rule keyed_trans [OF _ keyed_trans [OF s1(3) s2(3)]]) simp
  with assms keyed_fields(1) [OF k] s2(2,4) i(3) have "awaits s2 (tl (q @ ks)) arrivals" by (auto simp: awaits_def)
  moreover have "0 \<notin> set (q @ ks)" using content_nonzero s1(2) unfolding at_keyboard_def by metis
  ultimately show ?thesis using s1(1) s2(1,4) k i(1) unfolding hlt_def by (intro exI [of _ s1] exI [of _ s2]) simp
qed

section \<open>The loops\<close>

text \<open>What the loops change: the keyboard side, the screen, and the \<open>m\<close> bytes at \<open>kbuf\<close>.\<close>

definition typing :: "u32 \<Rightarrow> nat \<Rightarrow> sys \<Rightarrow> sys \<Rightarrow> bool" where
  "typing kbuf m s s' \<longleftrightarrow> (\<exists>procs ports irqs tm ram.
     s' = s\<lparr>y_procs := procs, y_ports := ports, y_irqs := irqs, y_term := tm, y_ram := ram\<rparr>
     \<and> unchanged (y_ram s) ram {unat kbuf..<unat kbuf + m})"

lemma typingI:
  "s' = s\<lparr>y_procs := procs, y_ports := ports, y_irqs := irqs, y_term := tm, y_ram := ram\<rparr> \<Longrightarrow>
   unchanged (y_ram s) ram {unat kbuf..<unat kbuf + m} \<Longrightarrow> typing kbuf m s s'"
  unfolding typing_def by blast

lemma typing_trans: "typing kbuf m s s1 \<Longrightarrow> typing kbuf m s1 s2 \<Longrightarrow> typing kbuf m s s2"
  unfolding typing_def by (force elim: unchanged_trans)

lemma typing_keyed: "keyed s s' \<Longrightarrow> typing kbuf m s s'"
  by (auto simp: keyed_def intro!: typingI [where tm = "y_term s" and ram = "y_ram s"])

lemma typing_put: "i < m \<Longrightarrow> typing kbuf m s (put_kbuf s kbuf i c)"
  by (rule typingI [where procs = "y_procs s" and ports = "y_ports s" and irqs = "y_irqs s" and tm = "y_term s"])
     (auto simp: put_kbuf_def unchanged_def)

lemma typing_term: "typing kbuf m s (s\<lparr>y_term := t\<rparr>)"
  by (rule typingI [where procs = "y_procs s" and ports = "y_ports s" and irqs = "y_irqs s" and ram = "y_ram s"]) simp_all

lemma put_kbuf_simps [simp]:
  "y_term (put_kbuf s kbuf i c) = y_term s" "y_irqs (put_kbuf s kbuf i c) = y_irqs s" "at_keyboard (put_kbuf s kbuf i c) q = at_keyboard s q"
  "awaits (put_kbuf s kbuf i c) q arrivals = awaits s q arrivals"
  by (simp_all add: put_kbuf_def awaits_def at_keyboard_def)

lemma put_kbuf_line: "load_bytes (y_ram s) kbuf (length line) = line \<Longrightarrow>
    load_bytes (y_ram (put_kbuf s kbuf (length line) c)) kbuf (Suc (length line)) = line @ [c]"
  by (simp add: put_kbuf_def load_bytes_def)

lemma show_char:
  assumes "awaits s q arrivals"
  shows "\<exists>s1. sys_writechar s c = Some s1 \<and> awaits s1 q arrivals \<and> screen_of (y_term s1) = sc_write (screen_of (y_term s)) c 15
     \<and> y_ram s1 = y_ram s \<and> y_irqs s1 = y_irqs s \<and> typing kbuf m s s1"
proof -
  have "terminal_ok (y_term s)" using assms by (simp add: awaits_def)
  from writechar_shows [OF this] obtain t where t: "terminal_writechar (y_term s) c 15 = Some t"
    "shows_screen (y_term s) (sc_write (screen_of (y_term s)) c 15) t" by blast
  then show ?thesis using assms shows_screenD [OF t(2)] typing_term by (simp add: sys_writechar_def awaits_def at_keyboard_def)
qed

text \<open>The line \<open>line\<close> is in the buffer, \<open>q\<close> are the characters that wait, and \<open>shown\<close> went to the screen.\<close>

definition typed :: "u32 \<Rightarrow> nat \<Rightarrow> sys \<Rightarrow> byte list \<Rightarrow> byte list \<Rightarrow> byte list \<Rightarrow> sys \<Rightarrow> bool" where
  "typed kbuf m s line q shown s' \<longleftrightarrow> load_bytes (y_ram s') kbuf (length line) = line \<and> at_keyboard s' q \<and> terminal_ok (y_term s')
     \<and> screen_of (y_term s') = fold (\<lambda>c sc. sc_write sc c 15) shown (screen_of (y_term s)) \<and> typing kbuf m s s'"

lemma typed_step:
  assumes "typed kbuf m s1 line q shown s'" and "typing kbuf m s s1"
    and "screen_of (y_term s1) = fold (\<lambda>c sc. sc_write sc c 15) before (screen_of (y_term s))"
  shows "typed kbuf m s line q (before @ shown) s'"
  using assms typing_trans by (auto simp: typed_def)

lemma loop_steps:
  "\<not> i + 1 < m \<Longrightarrow> readline_loop n s kbuf i (int m) = Some (i, s)"
  "i + 1 < m \<Longrightarrow> readline_loop 0 s kbuf i (int m) = None"
  "i + 1 < m \<Longrightarrow> hlt s = Some s1 \<Longrightarrow> keyboard_pop s1 = Some (c, s2) \<Longrightarrow> readline_loop (Suc n) s kbuf i (int m) =
     (if c = 0 then readline_loop n s2 kbuf i (int m)
      else if c = 0x08
      then (if i > 0 then do { s3 \<leftarrow> sys_writechar s2 0x08; readline_loop n s3 kbuf (i - 1) (int m) }
            else readline_loop n s2 kbuf i (int m))
      else do {
        s3 \<leftarrow> sys_writechar s2 (if c = 0x0D then 0x0A else c);
        let s4 = put_kbuf s3 kbuf i c;
        if c = 0x0A \<or> c = 0x0D then Some (i + 1, s4) else readline_loop n s4 kbuf (i + 1) (int m)
      })"
  by (subst readline_loop.simps, simp)+

lemma edit_loop:
  assumes "awaits s q arrivals" and "length line < m" and "load_bytes (y_ram s) kbuf (length line) = line"
  shows "case edit_line m line q arrivals of
       None \<Rightarrow> readline_loop (length (y_irqs s)) s kbuf (length line) (int m) = None
     | Some (l, r, e) \<Rightarrow> \<exists>s'. readline_loop (length (y_irqs s)) s kbuf (length line) (int m) = Some (length l, s') \<and> typed kbuf m s l r e s'"
  using assms
proof (induction arrivals arbitrary: s q line)
  case Nil
  then have "y_irqs s = []" by (simp add: awaits_def)
  with Nil show ?case
    by (cases "Suc (length line) < m") (auto simp: edit_line_steps loop_steps typed_def awaits_def typing_keyed)
next
  case (Cons ks arrivals)
  show ?case
  proof (cases "Suc (length line) < m")
    case False
    with Cons.prems show ?thesis by (auto simp: edit_line_steps loop_steps typed_def awaits_def typing_keyed)
  next
    case True
    from wait_key [OF Cons.prems(1)] obtain s1 s2 where w: "hlt s = Some s1" "keyboard_pop s1 = Some (case q @ ks of [] \<Rightarrow> 0 | c # _ \<Rightarrow> c, s2)"
      "awaits s2 (tl (q @ ks)) arrivals" "keyed s s2" "length (y_irqs s) = Suc (length (y_irqs s2))" "0 \<notin> set (q @ ks)" by blast
    have ram: "y_ram s2 = y_ram s" and tm: "y_term s2 = y_term s" using keyed_fields [OF w(4)] by simp_all
    have ln: "load_bytes (y_ram s2) kbuf (length line) = line" using Cons.prems(3) ram by simp
    have ty: "typing kbuf m s s2" by (rule typing_keyed [OF w(4)])
    have L: "length line + 1 < m" using True by simp
    note S = loop_steps(3) [OF L w(1,2), folded w(5), of "length (y_irqs s2)"]
    show ?thesis
    proof (cases "q @ ks")
      case Nil
      note IH = Cons.IH [OF w(3) Cons.prems(2) ln]
      from IH show ?thesis unfolding edit_line_steps(3) [OF True Nil] using S Nil w(5) typed_step [OF _ ty, of _ _ _ _ "[]"] tm
        by (fastforce split: option.splits)
    next
      case c: (Cons c q')
      have nz: "c \<noteq> 0" and a2: "awaits s2 q' arrivals" using w(3,6) c by auto
      note E = edit_line_steps(4) [OF True c]
      from show_char [OF a2, where kbuf = kbuf and m = m] obtain s3 where s3: "sys_writechar s2 c' = Some s3" "awaits s3 q' arrivals"
        "screen_of (y_term s3) = sc_write (screen_of (y_term s2)) c' 15" "y_ram s3 = y_ram s2" "y_irqs s3 = y_irqs s2" "typing kbuf m s2 s3"
        if "c' = (if c = 0x0D then 0x0A else c)" for c' by blast
      define c' where "c' = (if c = 0x0D then 0x0A else c)"
      note s3 = s3 [OF c'_def]
      have ty3: "typing kbuf m s s3" by (rule typing_trans [OF ty s3(6)])
      consider "c = 0x08" "line = []" | "c = 0x08" "line \<noteq> []" | "c = 0x0D \<or> c = 0x0A" | "c \<noteq> 0x08" "c \<noteq> 0x0D" "c \<noteq> 0x0A" by blast
      then show ?thesis
      proof cases
        case 1
        from Cons.IH [OF a2 Cons.prems(2) ln] show ?thesis unfolding E using 1 S c nz w(5) typed_step [OF _ ty, of _ _ _ _ "[]"] tm
          by (fastforce split: option.splits)
      next
        case 2
        have ln': "load_bytes (y_ram s3) kbuf (length (butlast line)) = butlast line"
          using ln s3(4) by (cases line rule: rev_cases) (simp_all add: load_bytes_def)
        have "length (butlast line) < m" using Cons.prems(2) by simp
        from Cons.IH [OF s3(2) this ln'] show ?thesis unfolding E
          using 2 S c nz w(5) s3(1,3,5) typed_step [OF _ ty3, of _ _ _ _ "[0x08]"] tm by (fastforce simp: c'_def split: option.splits)
      next
        case 3
        let ?s = "put_kbuf s3 kbuf (length line) c"
        have "typing kbuf m s ?s" by (rule typing_trans [OF ty3 typing_put]) (rule Cons.prems(2))
        then have "typed kbuf m s (line @ [c]) q' [0x0A] ?s"
          using 3 put_kbuf_line [of s3 kbuf line c] ln s3(2-4) tm by (auto simp: typed_def awaits_def c'_def)
        moreover have "readline_loop (length (y_irqs s)) s kbuf (length line) (int m) = Some (length (line @ [c]), ?s)"
          unfolding w(5) S using 3 c nz s3(1) by (auto simp: c'_def Let_def)
        ultimately show ?thesis unfolding E using 3 by auto
      next
        case 4
        let ?s = "put_kbuf s3 kbuf (length line) c"
        have "typing kbuf m s ?s" by (rule typing_trans [OF ty3 typing_put]) (rule Cons.prems(2))
        note T = typed_step [OF _ this, of _ _ _ _ "[c]"]
        have "awaits ?s q' arrivals" "length (line @ [c]) < m" "load_bytes (y_ram ?s) kbuf (length (line @ [c])) = line @ [c]"
          using s3(2,4) True put_kbuf_line [of s3 kbuf line c] ln by simp_all
        from Cons.IH [OF this] show ?thesis unfolding E
          using 4 S c nz w(5) s3(1,3,5) T tm by (fastforce simp: c'_def Let_def split: option.splits)
      qed
    qed
  qed
qed

lemma drain_loop:
  assumes "awaits s q arrivals"
  shows "case skip_ends q arrivals of
       None \<Rightarrow> drain (length (y_irqs s)) s = None
     | Some (first, r, rest) \<Rightarrow> \<exists>s'. drain (length (y_irqs s)) s = Some (case first of [] \<Rightarrow> 0 | c # _ \<Rightarrow> c, s') \<and> awaits s' r rest \<and> keyed s s'
         \<and> (first = [] \<or> (\<exists>c. first = [c] \<and> c \<noteq> 0 \<and> c \<noteq> 0x0D \<and> c \<noteq> 0x0A))"
  using assms
proof (induction arrivals arbitrary: s q)
  case Nil
  then have "y_irqs s = []" by (simp add: awaits_def)
  then show ?case by simp
next
  case (Cons ks arrivals)
  from wait_key [OF Cons.prems] obtain s1 s2 where w: "hlt s = Some s1" "keyboard_pop s1 = Some (case q @ ks of [] \<Rightarrow> 0 | c # _ \<Rightarrow> c, s2)"
    "awaits s2 (tl (q @ ks)) arrivals" "keyed s s2" "length (y_irqs s) = Suc (length (y_irqs s2))" "0 \<notin> set (q @ ks)" by blast
  show ?case
  proof (cases "q @ ks")
    case Nil
    with w show ?thesis by simp
  next
    case c: (Cons c q')
    then have a2: "awaits s2 q' arrivals" and nz: "c \<noteq> 0" using w(3,6) by auto
    show ?thesis
    proof (cases "c = 0x0D \<or> c = 0x0A")
      case True
      then have "skip_ends q (ks # arrivals) = skip_ends q' arrivals" "drain (length (y_irqs s)) s = drain (length (y_irqs s2)) s2"
        using c w(1,2,5) by auto
      then show ?thesis using Cons.IH [OF a2] keyed_trans [OF w(4)] by (auto split: option.splits)
    next
      case False
      then have "skip_ends q (ks # arrivals) = Some ([c], q', arrivals)" "drain (length (y_irqs s)) s = Some (c, s2)"
        using c w(1,2,5) by auto
      then show ?thesis using a2 w(4) nz False by auto
    qed
  qed
qed

text \<open>Both loops and what is between them.\<close>

definition read_loops :: "sys \<Rightarrow> u32 \<Rightarrow> nat \<Rightarrow> (nat \<times> sys) option" where
  "read_loops s kbuf m = do {
     (c, s4) \<leftarrow> drain (length (y_irqs s)) s;
     (i, s5) \<leftarrow> (if c \<noteq> 0 \<and> c \<noteq> 0x0D \<and> c \<noteq> 0x0A
        then do { s5 \<leftarrow> sys_writechar s4 c; Some (1, put_kbuf s5 kbuf 0 c) }
        else Some (0, s4));
     readline_loop (length (y_irqs s5)) s5 kbuf i (int m)
   }"

lemma read_loops_run:
  assumes "awaits s q arrivals" and "2 \<le> m"
  shows "case read_line m q arrivals of
       None \<Rightarrow> read_loops s kbuf m = None
     | Some (l, r, e) \<Rightarrow> \<exists>s'. read_loops s kbuf m = Some (length l, s') \<and> typed kbuf m s l r e s' \<and> 0 < length l \<and> length l < m"
proof (cases "skip_ends q arrivals")
  case None
  with drain_loop [OF assms(1)] show ?thesis by (simp add: read_line_def read_loops_def)
next
  case (Some fr)
  then obtain first r rest where f: "skip_ends q arrivals = Some (first, r, rest)" by (cases fr) auto
  with drain_loop [OF assms(1)] obtain s1 where d: "drain (length (y_irqs s)) s = Some (case first of [] \<Rightarrow> 0 | c # _ \<Rightarrow> c, s1)"
    "awaits s1 r rest" "keyed s s1" "first = [] \<or> (\<exists>c. first = [c] \<and> c \<noteq> 0 \<and> c \<noteq> 0x0D \<and> c \<noteq> 0x0A)" by auto
  note k = keyed_fields [OF d(3)]
  obtain s2 where s2: "awaits s2 r rest" "typing kbuf m s s2" "load_bytes (y_ram s2) kbuf (length first) = first" "length first < m"
    "screen_of (y_term s2) = fold (\<lambda>c sc. sc_write sc c 15) first (screen_of (y_term s))"
    "read_loops s kbuf m = readline_loop (length (y_irqs s2)) s2 kbuf (length first) (int m)"
  proof (cases "first = []")
    case True
    then show thesis using that [of s1] d assms(2) k typing_keyed [OF d(3)] by (simp add: read_loops_def load_bytes_def)
  next
    case False
    then obtain c where c: "first = [c]" "c \<noteq> 0" "c \<noteq> 0x0D" "c \<noteq> 0x0A" using d(4) by auto
    from show_char [OF d(2), of c kbuf m] obtain s3 where s3: "sys_writechar s1 c = Some s3" "awaits s3 r rest"
      "screen_of (y_term s3) = sc_write (screen_of (y_term s1)) c 15" "typing kbuf m s1 s3" by blast
    let ?s = "put_kbuf s3 kbuf 0 c"
    have "typing kbuf m s ?s" by (rule typing_trans [OF typing_trans [OF typing_keyed [OF d(3)] s3(4)] typing_put]) (use assms(2) in simp)
    then show thesis using that [of ?s] put_kbuf_line [of s3 kbuf "[]" c] c s3 d(1) assms(2) k by (simp add: read_loops_def load_bytes_def)
  qed
  from edit_loop [OF s2(1,4,3)] show ?thesis
    using f s2(6) typed_step [OF _ s2(2,5)] edit_line_length [OF _ s2(4) assms(2)]
    by (fastforce simp: read_line_def split: option.splits)
qed

section \<open>The call\<close>

lemma user_range_mono: "user_range s c va n p \<Longrightarrow> k \<le> n \<Longrightarrow> user_range s c va k p"
  using maps_mono unfolding user_range_def by fastforce

lemma user_range_unchanged:
  assumes "user_range s c va n p" and "\<And>va. translate (y_ram s') c va = translate (y_ram s) c va" and "h_saddr (y_heap s') = h_saddr (y_heap s)"
    and "heap_live (y_heap s) \<subseteq> heap_live (y_heap s')" and "chunk_pages (y_ram s') c = chunk_pages (y_ram s) c"
  shows "user_range s' c va n p"
  using assms maps_cong [OF _ assms(2)] unfolding user_range_def by auto

text \<open>The call from its second argument on, with the line in the buffer that it allocates.\<close>

lemma readline_start:
  assumes "y_tasks s (y_current_task s) = Some t" and "vload32 (y_ram s) (tk_page_directory t) (r_esp (tk_registers t)) = Some va"
    and "vload32 (y_ram s) (tk_page_directory t) (r_esp (tk_registers t) + 4) = Some (of_nat m)" and "0 < m" and "m \<le> 512"
    and "sys_kzalloc (kernel_page s) (of_nat m) = Some (kbuf, s3)" and "kbuf \<noteq> 0"
  shows "isr80h_command6_readline s = do {
       (j, s6) \<leftarrow> read_loops s3 kbuf m;
       let s7 = put_kbuf s6 kbuf j 0;
       s8 \<leftarrow> (if j > 0
          then map_option snd (copy_to_task s7 (y_current_task s) va (load_bytes (y_ram s7) kbuf (j + 1)) (int j + 1))
          else Some s7);
       s9 \<leftarrow> sys_kfree s8 kbuf;
       Some (of_nat j, s9)
     }"
proof -
  have m: "sint (of_nat m :: u32) = int m" using assms(5) sint_of_nat_u32 [of m] by simp
  have "task_get_stack_item s (y_current_task s) 0 = Some (va, kernel_page s)"
    "task_get_stack_item (kernel_page s) (y_current_task s) 1 = Some (of_nat m, kernel_page s)"
    using stack_items(1) [OF assms(1), of 0 va] stack_items(2) [OF assms(1), of 1 "of_nat m"] assms(2,3) by simp_all
  then show ?thesis using assms(4-7) m
    by (simp add: isr80h_command6_readline_def read_loops_def task_current_def Let_def case_prod_unfold cong: if_cong)
qed

text \<open>The end of the call: the terminator, the copy to the program and the return of the buffer.\<close>

lemma readline_deliver:
  assumes sl: "page_slack (y_heap s7) 1" and t: "y_tasks s7 task = Some t" and ok: "space_ok (y_heap s7) (y_ram s7) (tk_page_directory t)"
    and ur: "user_range s7 (tk_page_directory t) va (Suc (length line)) p" and n: "length line < 512"
    and kb: "(kbuf, 1) \<in> heap_live (y_heap s7)" and ld: "load_bytes (y_ram s7) kbuf (Suc (length line)) = line @ [0]"
  shows "\<exists>s8 s9. copy_to_task s7 task va (load_bytes (y_ram s7) kbuf (length line + 1)) (int (length line) + 1) = Some (0, s8) \<and> sys_kfree s8 kbuf = Some s9
     \<and> (\<forall>i \<le> length line. vload (y_ram s9) (tk_page_directory t) (va + of_nat i) = Some ((line @ [0]) ! i))
     \<and> heap_live (y_heap s9) = heap_live (y_heap s7) - {(kbuf, 1)}
     \<and> (\<forall>b j x. (b, j) \<in> heap_live (y_heap s7) \<and> x \<in> extent b j \<and> x \<notin> {p..<p + Suc (length line)} \<longrightarrow> y_ram s9 x = y_ram s7 x)
     \<and> y_term s9 = y_term s7 \<and> (\<forall>q. at_keyboard s9 q = at_keyboard s7 q) \<and> y_tasks s9 = y_tasks s7"
proof -
  let ?n = "Suc (length line)" and ?c = "tk_page_directory t" and ?b = "line @ [0 :: byte]"
  have sl': "page_slack (y_heap s7) (Suc 0)" using sl by simp
  from copy_to_task_run [OF sl' t refl ok, of ?n ?b, OF _ _ _ ur] n obtain h m d where
    r: "copy_to_task s7 task va ?b (int ?n) = Some (0, (put_y_heap s7 h)\<lparr>y_ram := m, y_directory := d\<rparr>)"
    "heap_live h = heap_live (y_heap s7)" "page_slack h (Suc 0)" "keeps (y_heap s7) (write_bytes (y_ram s7) p ?b) m" by auto
  let ?s8 = "(put_y_heap s7 h)\<lparr>y_ram := m, y_directory := d\<rparr>"
  have hp: "page_slack (y_heap ?s8) (Suc 0)" "(kbuf, 1) \<in> heap_live (y_heap ?s8)" "y_heap ?s8 = h" using r(2,3) kb by simp_all
  obtain h9 where h9: "sys_kfree ?s8 kbuf = Some (put_y_heap ?s8 h9)" "heap_live h9 = heap_live h - {(kbuf, 1)}"
    by (rule sys_kfree_run [OF hp(1,2)]) (simp only: hp(3))
  from ur obtain b j where b: "maps (y_ram s7) ?c va ?n p" "(b, j) \<in> heap_live (y_heap s7)" "b \<notin> set (chunk_pages (y_ram s7) ?c)"
    "{p..<p + ?n} \<subseteq> extent b j" by (auto simp: user_range_def)
  have "length ?b = ?n" by simp
  note K = keeps_maps [OF sl ok b(2,3) _ r(4), unfolded this, OF b(4)]
  have "vload m ?c (va + of_nat i) = Some (?b ! i)" if "i \<le> length line" for i
  proof -
    have "vload m ?c (va + of_nat i) = Some (m (p + i))" by (rule vload_maps [OF maps_cong [OF b(1) K(1)]]) (use that in simp)
    then show ?thesis using bytes_at_nth [OF K(2), of i] that by simp
  qed
  moreover have "m x = y_ram s7 x" if "(b', j') \<in> heap_live (y_heap s7)" "x \<in> extent b' j'" "x \<notin> {p..<p + ?n}" for b' j' x
    using r(4) that by (auto simp: keeps_def write_bytes_def)
  moreover have "copy_to_task s7 task va (load_bytes (y_ram s7) kbuf (length line + 1)) (int (length line) + 1) = Some (0, ?s8)"
    using r(1) ld by (simp add: add.commute)
  moreover have "y_term (put_y_heap ?s8 h9) = y_term s7" "at_keyboard (put_y_heap ?s8 h9) q = at_keyboard s7 q" for q
    by (simp_all add: at_keyboard_def put_y_heap_def)
  moreover have "y_ram (put_y_heap ?s8 h9) = m" "y_heap (put_y_heap ?s8 h9) = h9" "y_tasks (put_y_heap ?s8 h9) = y_tasks s7" by simp_all
  ultimately show ?thesis using h9 r(2) by (intro exI [of _ ?s8] exI [of _ "put_y_heap ?s8 h9"]) metis
qed

lemma typing_fields:
  assumes "typing kbuf m s s'"
  shows "y_heap s' = y_heap s" "y_tasks s' = y_tasks s" "y_current_task s' = y_current_task s" "unchanged (y_ram s) (y_ram s') {unat kbuf..<unat kbuf + m}"
  using assms by (auto simp: typing_def y_heap_def)

text \<open>
  C20: reading a line. A program that calls number 6 with the address of a buffer of its own and its size \<open>m\<close>, between 2 and 512,
  while the characters \<open>q\<close> wait in its keyboard buffer and those of \<open>arrivals\<close> are typed, gets the line that the line editor
  makes of them, backspaces included: it finds the line and a null byte in its buffer and the length of the line in \<^verbatim>\<open>eax\<close>; the screen has what
  the editor shows; the characters behind the line wait for the next call; the rest of the live memory and the live
  objects of the heap are as before. When the editor waits for ever, so does the call.
\<close>

theorem readline_edits:
  assumes "page_slack (y_heap s) 2" and "y_tasks s (y_current_task s) = Some t" and "space_ok (y_heap s) (y_ram s) (tk_page_directory t)"
    and "vload32 (y_ram s) (tk_page_directory t) (r_esp (tk_registers t)) = Some va"
    and "vload32 (y_ram s) (tk_page_directory t) (r_esp (tk_registers t) + 4) = Some (of_nat m)"
    and "2 \<le> m" and "m \<le> 512" and "user_range s (tk_page_directory t) va m p" and "awaits s q arrivals"
  shows "case read_line m q arrivals of
       None \<Rightarrow> isr80h_command6_readline s = None
     | Some (line, q', shown) \<Rightarrow> \<exists>s'. isr80h_command6_readline s = Some (of_nat (length line), s') \<and> length line < m
         \<and> (\<forall>i \<le> length line. vload (y_ram s') (tk_page_directory t) (va + of_nat i) = Some ((line @ [0]) ! i))
         \<and> screen_of (y_term s') = fold (\<lambda>c sc. sc_write sc c 15) shown (screen_of (y_term s)) \<and> at_keyboard s' q'
         \<and> (\<forall>b j x. (b, j) \<in> heap_live (y_heap s) \<and> x \<in> extent b j \<and> x \<notin> {p..<p + m} \<longrightarrow> y_ram s' x = y_ram s x)
         \<and> heap_live (y_heap s') = heap_live (y_heap s) \<and> y_tasks s' = y_tasks s"
proof -
  let ?c = "tk_page_directory t" and ?s = "kernel_page s"
  have sz: "small_size (of_nat m)" using assms(6,7) by (simp add: small_size_def unsigned_of_nat take_bit_nat_eq_self)
  have "page_slack (y_heap ?s) (Suc 1)" "space_ok (y_heap ?s) (y_ram ?s) ?c" using assms(1,3) by (simp_all add: numeral_2_eq_2)
  note pre = this sz
  obtain kbuf h m0 where f: "sys_kzalloc ?s (of_nat m) = Some (kbuf, (put_y_heap ?s h)\<lparr>y_ram := m0\<rparr>)" "kbuf \<noteq> 0" "aligned kbuf"
    "unchanged (y_ram s) m0 (page kbuf)" "\<And>b n. (b, n) \<in> heap_live (y_heap s) \<Longrightarrow> page kbuf \<inter> extent b n = {}"
    "unat (h_saddr (y_heap s)) \<le> unat kbuf" "\<And>m0. unchanged (y_ram s) m0 (page kbuf) \<Longrightarrow> space_ok h m0 ?c \<and> chunk_pages m0 ?c = chunk_pages (y_ram s) ?c
       \<and> load32 m0 ?c = load32 (y_ram s) ?c \<and> (\<forall>va. translate m0 ?c va = translate (y_ram s) ?c va)"
    "page_slack h 1" "(kbuf, 1) \<in> heap_live h" "heap_live h - {(kbuf, 1)} = heap_live (y_heap s)"
    by (rule copy_frame [OF pre, unfolded kernel_page_simps]) blast
  define s3 where "s3 = (put_y_heap ?s h)\<lparr>y_ram := m0\<rparr>"
  have s3: "y_heap s3 = h" "y_ram s3 = m0" "y_tasks s3 = y_tasks s" "y_current_task s3 = y_current_task s" "y_term s3 = y_term s"
    by (simp_all add: s3_def) (simp add: put_y_heap_def)
  have aw: "awaits s3 q arrivals" using assms(9) by (simp add: awaits_def at_keyboard_def s3_def put_y_heap_def kernel_page_def)
  note R = readline_start [OF assms(2,4,5) _ assms(7) f(1,2), folded s3_def] and L = read_loops_run [OF aw assms(6), of kbuf]
  show ?thesis
  proof (cases "read_line m q arrivals")
    case None
    with R L assms(6) show ?thesis by simp
  next
    case (Some r)
    then obtain line q' shown where rl: "read_line m q arrivals = Some (line, q', shown)" by (cases r) auto
    with L obtain s6 where s6: "read_loops s3 kbuf m = Some (length line, s6)" "typed kbuf m s3 line q' shown s6" "0 < length line" "length line < m" by auto
    let ?s7 = "put_kbuf s6 kbuf (length line) 0"
    have ty: "typing kbuf m s3 ?s7" using s6(2,4) typing_trans typing_put by (auto simp: typed_def)
    note T = typing_fields [OF ty, unfolded s3]
    have "unchanged m0 (y_ram ?s7) (page kbuf)" by (rule unchanged_mono [OF T(4)]) (use assms(7) in \<open>auto simp: page_def\<close>)
    then have u: "unchanged (y_ram s) (y_ram ?s7) (page kbuf)" by (rule unchanged_trans [OF f(4)]) simp_all
    note F = f(7) [OF u]
    have "h_saddr h = h_saddr (y_heap s)" using sys_kzalloc_saddr [OF f(1)] by simp
    then have ur: "user_range ?s7 ?c va (Suc (length line)) p"
      using user_range_mono [OF assms(8), of "Suc (length line)"] F f(10) s6(4) T(1) by (auto intro!: user_range_unchanged [of s])
    have "load_bytes (y_ram ?s7) kbuf (Suc (length line)) = line @ [0]" by (rule put_kbuf_line) (use s6(2) in \<open>simp add: typed_def\<close>)
    note D = readline_deliver [OF _ _ _ ur _ _ this, of "y_current_task s", unfolded T(1,2)]
    have "length line < 512" "space_ok h (y_ram ?s7) ?c" using s6(4) assms(7) F by simp_all
    from D [OF f(8) assms(2) this(2,1) f(9)] obtain s8 s9 where
      d: "copy_to_task ?s7 (y_current_task s) va (load_bytes (y_ram ?s7) kbuf (length line + 1)) (int (length line) + 1) = Some (0, s8)"
      "sys_kfree s8 kbuf = Some s9" "\<forall>i \<le> length line. vload (y_ram s9) ?c (va + of_nat i) = Some ((line @ [0]) ! i)"
      "heap_live (y_heap s9) = heap_live h - {(kbuf, 1)}"
      "\<forall>b j x. (b, j) \<in> heap_live h \<and> x \<in> extent b j \<and> x \<notin> {p..<p + Suc (length line)} \<longrightarrow> y_ram s9 x = y_ram ?s7 x"
      "y_term s9 = y_term ?s7" "\<forall>q. at_keyboard s9 q = at_keyboard ?s7 q" "y_tasks s9 = y_tasks s" by auto
    have "isr80h_command6_readline s = Some (of_nat (length line), s9)" using R s6(1,3) d(1,2) assms(6) by (simp add: Let_def)
    moreover have "y_ram s9 x = y_ram s x" if "(b, j) \<in> heap_live (y_heap s)" "x \<in> extent b j" "x \<notin> {p..<p + m}" for b j x
    proof -
      have "x \<notin> {p..<p + Suc (length line)}" using that(3) s6(4) by auto
      moreover have "(b, j) \<in> heap_live h" using that(1) f(10) by blast
      ultimately have "y_ram s9 x = y_ram ?s7 x" using d(5) that(2) by blast
      moreover have "x \<notin> page kbuf" using f(5) [OF that(1)] that(2) by blast
      ultimately show ?thesis using u by (simp add: unchanged_def)
    qed
    moreover have "screen_of (y_term s9) = fold (\<lambda>c sc. sc_write sc c 15) shown (screen_of (y_term s))" "at_keyboard s9 q'"
      using d(6,7) s6(2) s3(5) by (simp_all add: typed_def)
    moreover have "heap_live (y_heap s9) = heap_live (y_heap s)" using d(4) f(10) by simp
    ultimately show ?thesis using rl s6(4) d(3,8) by auto
  qed
qed

text \<open>A timer tick, then the keys h, q, backspace, i and enter; the arguments are at offset 32 of the page of the program.\<close>

definition demo_irqs :: "irq list list" where
  "demo_irqs = [[Irq_timer], [Irq_key 0x23], [Irq_key 0x10, Irq_timer], [Irq_key 0x0E], [Irq_key 0x17], [Irq_other, Irq_key 0x1C]]"

lemma demo_keys: "list_all2 (\<lambda>is ks. irq_keys is = Some ks) demo_irqs [[], [0x68], [0x71], [0x08], [0x69], [0x0D]]"
  by (simp add: demo_irqs_def classic_key_def classic_keyboard_scancode_to_char_def keyboard_scan_set_one_def)

lemma demo_line: "read_line 16 [] [[], [0x68], [0x71], [0x08], [0x69], [0x0D]] = Some ([0x68, 0x69, 0x0D], [], [0x68, 0x71, 0x08, 0x69, 0x0A])"
  by (simp add: read_line_def edit_line_steps)

theorem readline_edits_witness:
  "\<exists>s (t :: task) s'. y_irqs s = demo_irqs \<and> isr80h_command6_readline s = Some (3, s')
     \<and> (\<forall>i \<le> 3. vload (y_ram s') (tk_page_directory t) (0x400000 + of_nat i) = Some ([0x68, 0x69, 0x0D, 0] ! i))"
proof -
  let ?bs = "replicate 32 0 @ [0, 0, 0x40, 0, 16, 0, 0, 0] :: byte list"
  obtain s0 t p where s: "y_current_task s0 \<noteq> 0" "y_tasks s0 (y_current_task s0) = Some t" "page_slack (y_heap s0) 900"
    "space_ok (y_heap s0) (y_ram s0) (tk_page_directory t)" "user_range s0 (tk_page_directory t) 0x400000 4096 p"
    "bytes_at (y_ram s0) p (length ?bs) = ?bs" "y_term s0 = y_term demo_sys" by (rule demo_program [of ?bs]) auto
  let ?t = "t\<lparr>tk_registers := (tk_registers t)\<lparr>r_esp := 0x400020\<rparr>, tk_process := 5\<rparr>"
  define s where "s = (put_task s0 (y_current_task s0) ?t)\<lparr>y_procs := [5 \<mapsto> zero_process], y_current_process := 5, y_irqs := demo_irqs\<rparr>"
  have st: "y_tasks s (y_current_task s) = Some ?t" "y_ram s = y_ram s0" "y_heap s = y_heap s0" "y_irqs s = demo_irqs" "tk_page_directory ?t = tk_page_directory t"
    by (simp_all add: s_def)
  have mp: "maps (y_ram s0) (tk_page_directory t) 0x400000 4096 p" using s(5) by (simp add: user_range_def)
  note V = vload32_page [OF mp s(6)]
  have args: "vload32 (y_ram s) (tk_page_directory ?t) (r_esp (tk_registers ?t)) = Some 0x400000"
    "vload32 (y_ram s) (tk_page_directory ?t) (r_esp (tk_registers ?t) + 4) = Some (of_nat 16)"
    using V [of 32] V [of 36] by (simp_all add: st le32_def nth_append)
  have ur: "user_range s (tk_page_directory ?t) 0x400000 16 p" using user_range_mono [OF s(5), of 16] by (simp add: user_range_def st)
  have "at_keyboard s []" using s(1) kb_new_facts by (simp add: at_keyboard_def s_def put_task_def zero_process_def)
  then have aw: "awaits s [] [[], [0x68], [0x71], [0x08], [0x69], [0x0D]]"
    using demo_keys s(7) by (simp add: awaits_def st) (simp add: s_def put_task_def demo_sys_def terminal_ok_def)
  have sl: "page_slack (y_heap s) 2" and sp: "space_ok (y_heap s) (y_ram s) (tk_page_directory ?t)"
    using ph.slack_mono [OF s(3), of 2] s(4) by (simp_all add: st)
  have "2 \<le> (16 :: nat)" "16 \<le> (512 :: nat)" by simp_all
  from readline_edits [OF sl st(1) sp args this ur aw, unfolded demo_line option.case prod.case] obtain s' where "isr80h_command6_readline s = Some (of_nat (length [0x68, 0x69, 0x0D :: byte]), s')"
    "\<forall>i \<le> length [0x68, 0x69, 0x0D :: byte]. vload (y_ram s') (tk_page_directory ?t) (0x400000 + of_nat i) = Some (([0x68, 0x69, 0x0D] @ [0]) ! i)"
    by blast
  then have "isr80h_command6_readline s = Some (3, s')" "\<forall>i \<le> 3. vload (y_ram s') (tk_page_directory ?t) (0x400000 + of_nat i) = Some ([0x68, 0x69, 0x0D, 0] ! i)"
    by simp_all
  with st(4) show ?thesis by blast
qed

end
