(* ===== verification/Mount.thy ===== *)
theory Mount
  imports File_Runs
begin

text \<open>
  The start of the file system: \<^verbatim>\<open>disk_search_and_init\<close> of \<^verbatim>\<open>src/src/disk/disk.c\<close> and \<^verbatim>\<open>fat16_resolve\<close> of
  \<^verbatim>\<open>src/src/fs/fat/fat16.c\<close> as it is called from there. What was stored on a drive is what a kernel that mounts the
  drive finds: the invariant of mounted volumes, under which the file operations are proved, is established from the bytes of
  the drive.
\<close>

section \<open>Operations\<close>

definition disk_search_and_init :: "(filesystem \<Rightarrow> 'd filesystem_ops) \<Rightarrow> 'd vfs \<Rightarrow> 'd vfs option" where
  "disk_search_and_init ops v = do {
     let disk = \<lparr>dk_type = 0, dk_sector_size = PEACHOS_SECTOR_SIZE, dk_id = 0, dk_filesystem = None, dk_fs_private = None\<rparr>;
     (fs, v1) \<leftarrow> fs_resolve ops (v\<lparr>v_k := (v_k v)\<lparr>k_disk := disk\<rparr>\<rparr>);
     Some (v1\<lparr>v_k := (v_k v1)\<lparr>k_disk := (k_disk (v_k v1))\<lparr>dk_filesystem := fs\<rparr>\<rparr>\<rparr>)
   }"

section \<open>The root directory\<close>

text \<open>What \<^verbatim>\<open>fat16_get_total_items_for_directory\<close> counts: the entries before the first zero that are not deleted.\<close>

fun live_count :: "fat_directory_item list \<Rightarrow> nat" where
  "live_count [] = 0"
| "live_count (it # its) =
     (if di_filename it ! 0 = 0 then 0 else if di_filename it ! 0 = 0xE5 then live_count its else Suc (live_count its))"

lemma encode_item_hd: "wf_item it \<Longrightarrow> encode_item it ! 0 = di_filename it ! 0"
  by (simp add: encode_item_def wf_item_def nth_append)

lemma item_in_sector: "p mod 32 = 0 \<Longrightarrow> p mod 512 + 32 \<le> (512 :: nat)"
proof -
  assume "p mod 32 = 0"
  then obtain k where "p = 32 * k" by auto
  then have "p mod 512 = 32 * (k mod 16)" using mult_mod_right [of 32 k 16] by simp
  then show ?thesis by simp
qed

lemma total_items_run:
  assumes "\<And>k. k < length its \<Longrightarrow> bytes_at d (p + 32 * k) 32 = encode_item (its ! k) \<and> wf_item (its ! k)"
    and "\<exists>it \<in> set its. di_filename it ! 0 = 0" and "p mod 32 = 0" and "p + 32 * length its < 2 ^ 31"
  shows "\<exists>q. total_items_loop d \<lparr>ds_pos = int p, ds_disk = 0\<rparr> i = Some (i + int (live_count its), \<lparr>ds_pos = q, ds_disk = 0\<rparr>)"
  using assms
proof (induction its arbitrary: p i)
  case (Cons it its)
  have sec: "p mod 512 + 32 \<le> 512" "p < 2 ^ 37" using item_in_sector [OF Cons.prems(3)] Cons.prems(4) by simp_all
  have "bytes_at d p 32 = encode_item it" using Cons.prems(1) [of 0] by (simp del: upt_rec_numeral)
  then have rd: "diskstreamer_read d \<lparr>ds_pos = int p, ds_disk = 0\<rparr> 32 = Some (0, \<lparr>ds_pos = int (p + 32), ds_disk = 0\<rparr>, encode_item it)"
    using read_in_sector [OF sec(2,1), of d] by (simp only: of_nat_numeral)
  have hd: "encode_item it ! 0 = di_filename it ! 0" using Cons.prems(1) [of 0] by (simp add: encode_item_hd)
  have IH: "\<exists>q. total_items_loop d \<lparr>ds_pos = int (p + 32), ds_disk = 0\<rparr> i = Some (i + int (live_count its), \<lparr>ds_pos = q, ds_disk = 0\<rparr>)"
    if "di_filename it ! 0 \<noteq> 0" for i
  proof (rule Cons.IH)
    show "bytes_at d (p + 32 + 32 * k) 32 = encode_item (its ! k) \<and> wf_item (its ! k)" if "k < length its" for k
      using Cons.prems(1) [of "Suc k"] that by (simp add: add.assoc)
  qed (use Cons.prems that in \<open>auto simp: mod_add_eq\<close>)
  show ?case by (subst total_items_loop.simps) (use IH [of i] IH [of "i + 1"] in \<open>auto simp: rd hd add.assoc\<close>)
qed simp

lemma decode_items_nth:
  assumes "\<And>k. k < n \<Longrightarrow> bytes_at d (p + 32 * k) 32 = encode_item (its ! k) \<and> wf_item (its ! k)" and "length its = n"
  shows "decode_items (bytes_at d p (32 * n)) n = its"
  using assms
proof (induction n arbitrary: p its)
  case (Suc n)
  then obtain it its' where its: "its = it # its'" by (cases its) auto
  have "bytes_at d p (32 * Suc n) = bytes_at d p 32 @ bytes_at d (p + 32) (32 * n)"
    using map_fun_upt_append [of d p 32 "32 * n"] by (simp add: add.assoc)
  moreover have "decode_items (bytes_at d (p + 32) (32 * n)) n = its'"
  proof (rule Suc.IH)
    show "bytes_at d (p + 32 + 32 * k) 32 = encode_item (its' ! k) \<and> wf_item (its' ! k)" if "k < n" for k
      using Suc.prems(1) [of "Suc k"] that by (simp add: its add.assoc)
  qed (use Suc.prems its in simp)
  moreover have "decode_item (bytes_at d p 32) = it" using Suc.prems(1) [of 0] by (simp add: its decode_encode_item)
  ultimately show ?case by (simp add: its)
qed simp

text \<open>Entries in use come first.\<close>

definition compact :: "fat_directory_item list \<Rightarrow> bool" where
  "compact its \<longleftrightarrow> (\<forall>i j. i \<le> j \<longrightarrow> j < length its \<longrightarrow> \<not> free_slot (its ! j) \<longrightarrow> \<not> free_slot (its ! i))"

lemma live_count_compact:
  assumes "\<And>i j. i \<le> j \<Longrightarrow> j < length its \<Longrightarrow> \<not> free_slot (its ! j) \<Longrightarrow> \<not> free_slot (its ! i)"
    and "i < length its" and "\<not> free_slot (its ! i)"
  shows "i < live_count its"
  using assms
proof (induction its arbitrary: i)
  case (Cons it its)
  have f: "\<not> free_slot it" using Cons.prems(1) [of 0 i] Cons.prems(2,3) by simp
  show ?case
  proof (cases i)
    case (Suc j)
    have "j < live_count its"
    proof (rule Cons.IH)
      show "\<not> free_slot (its ! a)" if "a \<le> b" "b < length its" "\<not> free_slot (its ! b)" for a b
        using Cons.prems(1) [of "Suc a" "Suc b"] that by simp
    qed (use Suc Cons.prems in simp_all)
    with f Suc show ?thesis by (simp add: free_slot_def)
  qed (use f in \<open>simp add: free_slot_def\<close>)
qed simp

lemma live_count_le: "live_count its \<le> length its"
  by (induction its) auto

section \<open>Reading the root directory\<close>

definition header_sec :: "fat_h \<Rightarrow> nat" where
  "header_sec H = unat (fh_fat_copies (fat_primary_header H)) * unat (fh_sectors_per_fat (fat_primary_header H))
     + unat (fh_reserved_sectors (fat_primary_header H))"

definition header_ents :: "fat_h \<Rightarrow> nat" where
  "header_ents H = unat (fh_root_dir_entries (fat_primary_header H))"

text \<open>The entries \<open>its\<close> are those of the drive where the header \<open>H\<close> has the root directory, which fits in a block of the heap.\<close>

definition root_on :: "drive \<Rightarrow> fat_h \<Rightarrow> fat_directory_item list \<Rightarrow> bool" where
  "root_on d H its \<longleftrightarrow> length its = header_ents H \<and> length its \<le> 128 \<and> (\<exists>it \<in> set its. di_filename it ! 0 = 0)
     \<and> 512 * header_sec H + 32 * length its < 2 ^ 31
     \<and> (\<forall>k < length its. bytes_at d (512 * header_sec H + 32 * k) 32 = encode_item (its ! k) \<and> wf_item (its ! k))"

definition root_dir :: "fat_h \<Rightarrow> fat_directory_item list \<Rightarrow> u32 \<Rightarrow> u32 \<Rightarrow> fat_directory" where
  "root_dir H its pa ia = \<lparr>fd_addr = pa + 64, fd_item_addr = ia, fd_item = its, fd_total = int (live_count its),
     fd_sector_pos = int (header_sec H), fd_ending_sector_pos = int (header_sec H + 32 * length its div 512)\<rparr>"

lemma put_private_put [simp]: "put_private (put_private s p) p' = put_private s p'" "dk_fs_private (k_disk (put_private s p)) = Some p"
  "k_heap (put_private s p) = k_heap s" "k_drive (put_private s p) = k_drive s"
  "(put_private s p)\<lparr>k_heap := h\<rparr> = put_private (s\<lparr>k_heap := h\<rparr>) p" "dk_sector_size (k_disk (put_private s p)) = dk_sector_size (k_disk s)"
  "dk_id (k_disk (put_private s p)) = dk_id (k_disk s)" "dk_filesystem (k_disk (put_private s p)) = dk_filesystem (k_disk s)"
  by (simp_all add: put_private_def)

lemma total_items_directory:
  assumes "root_on (k_drive s) (fp_header p) its" and "dk_fs_private (k_disk s) = Some p" and "dk_sector_size (k_disk s) = 512"
    and "fp_directory_stream p = Some st" and "ds_disk st = 0"
  shows "\<exists>q. fat16_get_total_items_for_directory s (int (header_sec (fp_header p))) =
     Some (int (live_count its), put_private s (p\<lparr>fp_directory_stream := Some \<lparr>ds_pos = q, ds_disk = 0\<rparr>\<rparr>))"
proof -
  let ?R = "512 * header_sec (fp_header p)"
  have r: "?R + 32 * length its < 2 ^ 31" "\<exists>it \<in> set its. di_filename it ! 0 = 0"
    "\<And>k. k < length its \<Longrightarrow> bytes_at (k_drive s) (?R + 32 * k) 32 = encode_item (its ! k) \<and> wf_item (its ! k)"
    using assms(1) unfolding root_on_def by blast+
  have "?R mod 32 = 0" using mod_mult_left_eq [of 512 32] by simp
  from total_items_run [OF r(3,2) this r(1), of 0] obtain q where
    "total_items_loop (k_drive s) \<lparr>ds_pos = int ?R, ds_disk = 0\<rparr> 0 = Some (int (live_count its), \<lparr>ds_pos = q, ds_disk = 0\<rparr>)" by auto
  moreover have "s32 (u32 (int (header_sec (fp_header p))) * 512) = int ?R" using r(1) by (simp add: u32_int s32_id)
  moreover have "st\<lparr>ds_pos := x\<rparr> = \<lparr>ds_pos = x, ds_disk = 0\<rparr>" for x using assms(5) by (cases st) simp
  ultimately show ?thesis using assms(2-4)
    by (intro exI [of _ q]) (simp add: fat16_get_total_items_for_directory_def diskstreamer_seek_def Let_def)
qed

lemma root_directory_run:
  assumes "root_on (k_drive s) (fp_header p) its" and "dk_fs_private (k_disk s) = Some p" and "dk_sector_size (k_disk s) = 512"
    and "fp_directory_stream p = Some st" and "ds_disk st = 0" and "heap_slack (k_heap s) (Suc k)"
  shows "\<exists>a h q. fat16_get_root_directory s = Some (0, put_private (s\<lparr>k_heap := h\<rparr>) (p\<lparr>fp_directory_stream := Some \<lparr>ds_pos = q, ds_disk = 0\<rparr>,
       fp_root_directory := root_dir (fp_header p) its (fp_addr p) a\<rparr>))
     \<and> heap_slack h k \<and> grown heap_live (k_heap s) [a] h"
proof -
  let ?R = "512 * header_sec (fp_header p)" and ?n = "length its" and ?H = "fp_header p"
  have r: "?R + 32 * ?n < 2 ^ 31" "?n \<le> 128" "?n = header_ents ?H" "0 < ?n"
    "\<And>k. k < ?n \<Longrightarrow> bytes_at (k_drive s) (?R + 32 * k) 32 = encode_item (its ! k) \<and> wf_item (its ! k)"
    using assms(1) unfolding root_on_def by (blast, blast, blast, force, blast)
  from total_items_directory [OF assms(1-5)] obtain q where
    q: "fat16_get_total_items_for_directory s (int (header_sec ?H)) = Some (int (live_count its), put_private s (p\<lparr>fp_directory_stream := Some \<lparr>ds_pos = q, ds_disk = 0\<rparr>\<rparr>))"
    by blast
  have sec: "uint (fh_fat_copies (fat_primary_header ?H)) * uint (fh_sectors_per_fat (fat_primary_header ?H)) + uint (fh_reserved_sectors (fat_primary_header ?H)) = int (header_sec ?H)"
    by (simp add: header_sec_def)
  have es: "uint (fh_root_dir_entries (fat_primary_header ?H)) = int ?n" using r(3) by (simp add: header_ents_def)
  have uc: "(ucast (fh_root_dir_entries (fat_primary_header ?H)) :: u32) = of_nat ?n"
    using arg_cong [OF es, of "word_of_int :: int \<Rightarrow> u32"] by simp
  have w: "word_of_int (int ?n * 32) = (of_nat (32 * ?n) :: u32)" by (simp add: mult.commute)
  have "small_size (word_of_int (int ?n * 32))"
    unfolding w small_size_def using r(2,4) by (simp add: unsigned_of_nat take_bit_nat_eq_self del: of_nat_mult)
  from ko.zalloc_grown [OF assms(6) this] obtain a h where a: "kzalloc (k_heap s) (word_of_int (int ?n * 32)) = Some (a, h)" "a \<noteq> 0" "heap_slack h k"
    "grown heap_live (k_heap s) [a] h" by blast
  have "?R mod 512 = 0" by simp
  from read_aligned [OF _ this, of "32 * ?n" "k_drive s"] r(1) have rd:
    "diskstreamer_read (k_drive s) \<lparr>ds_pos = int ?R, ds_disk = 0\<rparr> (int ?n * 32) = Some (0, \<lparr>ds_pos = int (?R + 32 * ?n), ds_disk = 0\<rparr>, bytes_at (k_drive s) ?R (32 * ?n))"
    by (simp add: mult.commute)
  have ps: "s32 (int (header_sec ?H) * 512) = int ?R" using r(1) by (simp add: s32_id)
  have "int ?n * 32 sdiv 512 = int (32 * ?n div 512)" by (simp add: signed_divide_int_def sgn_if zdiv_int mult.commute)
  then have "fat16_get_root_directory s = Some (0, put_private (s\<lparr>k_heap := h\<rparr>) (p\<lparr>fp_directory_stream := Some \<lparr>ds_pos = int (?R + 32 * ?n), ds_disk = 0\<rparr>,
       fp_root_directory := root_dir ?H its (fp_addr p) a\<rparr>))" using q a(1,2) rd assms(2,3) decode_items_nth [OF r(5) refl]
    by (simp add: fat16_get_root_directory_def sec es uc k_zalloc_def diskstreamer_seek_def fat16_sector_to_absolute_def ps Let_def root_dir_def)
  with a(3,4) show ?thesis by blast
qed

section \<open>The mount\<close>

abbreviation (input) stream0 :: disk_stream where "stream0 \<equiv> \<lparr>ds_pos = 0, ds_disk = 0\<rparr>"

lemma new_stream_run:
  assumes "heap_slack (k_heap s) (Suc k)" and "dk_id (k_disk s) = 0"
  obtains a h where "new_stream s = Some (Some (a, stream0), s\<lparr>k_heap := h\<rparr>)" "heap_slack h k" "grown heap_live (k_heap s) [a] h"
proof -
  have "small_size 8" by (simp add: small_size_def)
  from ko.zalloc_grown [OF assms(1) this] obtain a h where "kzalloc (k_heap s) 8 = Some (a, h)" "a \<noteq> 0" "heap_slack h k" "grown heap_live (k_heap s) [a] h"
    by blast
  then show thesis using that assms(2) by (simp add: new_stream_def diskstreamer_new_def disk_get_def)
qed

lemma init_private_run:
  assumes "heap_slack (k_heap s) (5 + k)" and "dk_id (k_disk s) = 0" and "pa \<noteq> 0"
  obtains h as where "fat16_init_private s pa = Some ((zero_private pa)\<lparr>fp_cluster_read_stream := Some stream0, fp_fat_read_stream := Some stream0,
      fp_directory_stream := Some stream0, fp_cluster_write_stream := Some stream0, fp_fat_write_stream := Some stream0\<rparr>, s\<lparr>k_heap := h\<rparr>)"
    "heap_slack h k" "grown heap_live (k_heap s) as h" "length as = 5"
proof -
  have "heap_slack (k_heap s) (Suc (Suc (Suc (Suc (Suc k)))))" using assms(1) by (simp add: numeral_eq_Suc)
  from new_stream_run [OF this assms(2)] obtain a1 h1 where 1: "new_stream s = Some (Some (a1, stream0), s\<lparr>k_heap := h1\<rparr>)"
    "heap_slack h1 (Suc (Suc (Suc (Suc k))))" "grown heap_live (k_heap s) [a1] h1" by blast
  from new_stream_run [of "s\<lparr>k_heap := h1\<rparr>"] 1(2) assms(2) obtain a2 h2 where 2: "new_stream (s\<lparr>k_heap := h1\<rparr>) = Some (Some (a2, stream0), s\<lparr>k_heap := h2\<rparr>)"
    "heap_slack h2 (Suc (Suc (Suc k)))" "grown heap_live h1 [a2] h2" by auto
  from new_stream_run [of "s\<lparr>k_heap := h2\<rparr>"] 2(2) assms(2) obtain a3 h3 where 3: "new_stream (s\<lparr>k_heap := h2\<rparr>) = Some (Some (a3, stream0), s\<lparr>k_heap := h3\<rparr>)"
    "heap_slack h3 (Suc (Suc k))" "grown heap_live h2 [a3] h3" by auto
  from new_stream_run [of "s\<lparr>k_heap := h3\<rparr>"] 3(2) assms(2) obtain a4 h4 where 4: "new_stream (s\<lparr>k_heap := h3\<rparr>) = Some (Some (a4, stream0), s\<lparr>k_heap := h4\<rparr>)"
    "heap_slack h4 (Suc k)" "grown heap_live h3 [a4] h4" by auto
  from new_stream_run [of "s\<lparr>k_heap := h4\<rparr>"] 4(2) assms(2) obtain a5 h5 where 5: "new_stream (s\<lparr>k_heap := h4\<rparr>) = Some (Some (a5, stream0), s\<lparr>k_heap := h5\<rparr>)"
    "heap_slack h5 k" "grown heap_live h4 [a5] h5" by auto
  have "grown heap_live (k_heap s) ([a1] @ [a2] @ [a3] @ [a4] @ [a5]) h5"
    by (rule grown_trans [OF 1(3) grown_trans [OF 2(3) grown_trans [OF 3(3) grown_trans [OF 4(3) 5(3)]]]])
  then show thesis using 5(2) by (intro that [of h5 "[a1, a2, a3, a4, a5]"]) (use assms(3) in \<open>simp_all add: fat16_init_private_def 1(1) 2(1) 3(1) 4(1) 5(1)\<close>)
qed

text \<open>The state that a mount leaves: the structure \<open>p\<close> of the volume, and the heap.\<close>

definition mount_state :: "kstate \<Rightarrow> heap \<Rightarrow> fat_private \<Rightarrow> kstate" where
  "mount_state s h p = s\<lparr>k_heap := h, k_disk := (k_disk s)\<lparr>dk_filesystem := Some FAT16, dk_fs_private := Some p\<rparr>\<rparr>"

lemma mount_state_simps [simp]:
  "k_heap (mount_state s h p) = h" "k_drive (mount_state s h p) = k_drive s" "dk_fs_private (k_disk (mount_state s h p)) = Some p"
  "dk_id (k_disk (mount_state s h p)) = dk_id (k_disk s)" "dk_sector_size (k_disk (mount_state s h p)) = dk_sector_size (k_disk s)"
  "dk_filesystem (k_disk (mount_state s h p)) = Some FAT16" "priv (mount_state s h p) = p"
  "(mount_state s h p)\<lparr>k_heap := h'\<rparr> = mount_state s h' p" "put_private (mount_state s h p) p' = mount_state s h p'"
  by (simp_all add: mount_state_def put_private_def priv_def)

lemma grown_drop_one:
  assumes "grown heap_live h (as @ [x] @ bs) h'" and "heap_live h'' = heap_live h' - {(x, 1)}"
  shows "grown heap_live h (as @ bs) h''"
  using assms by (auto simp: grown_def)

lemma resolve_run:
  assumes "heap_slack (k_heap s) (8 + k)" and "dk_id (k_disk s) = 0" and "dk_sector_size (k_disk s) = 512"
    and H: "decode_fat_h (bytes_at (k_drive s) 0 62) = H" "fe_signature (fat_extended_header H) = 0x29" "root_on (k_drive s) H its"
  shows "\<exists>p h pa ia as. fat16_resolve s = Some (0, mount_state s h p) \<and> fp_header p = H \<and> fp_root_directory p = root_dir H its pa ia \<and> streams_ok p
     \<and> heap_slack h (Suc k) \<and> grown heap_live (k_heap s) as h \<and> length as = 7"
proof -
  have "heap_slack (k_heap s) (Suc (7 + k))" "small_size 100" using assms(1) by (simp_all add: small_size_def)
  from ko.zalloc_grown [OF this] obtain pa h1 where 1: "kzalloc (k_heap s) 100 = Some (pa, h1)" "pa \<noteq> 0" "heap_slack h1 (7 + k)"
    "grown heap_live (k_heap s) [pa] h1" by blast
  have "heap_slack (k_heap (s\<lparr>k_heap := h1\<rparr>)) (5 + (2 + k))" "dk_id (k_disk (s\<lparr>k_heap := h1\<rparr>)) = 0" using 1(3) assms(2) by simp_all
  from init_private_run [OF this 1(2)] obtain h2 as where 2: "fat16_init_private (s\<lparr>k_heap := h1\<rparr>) pa = Some ((zero_private pa)\<lparr>fp_cluster_read_stream := Some stream0,
      fp_fat_read_stream := Some stream0, fp_directory_stream := Some stream0, fp_cluster_write_stream := Some stream0, fp_fat_write_stream := Some stream0\<rparr>, s\<lparr>k_heap := h2\<rparr>)"
    "heap_slack h2 (2 + k)" "grown heap_live h1 as h2" "length as = 5" by auto
  define p where "p = (zero_private pa)\<lparr>fp_cluster_read_stream := Some stream0, fp_fat_read_stream := Some stream0,
      fp_directory_stream := Some stream0, fp_cluster_write_stream := Some stream0, fp_fat_write_stream := Some stream0\<rparr>"
  let ?s3 = "mount_state s h2 p"
  have "heap_slack (k_heap ?s3) (Suc (Suc k))" "dk_id (k_disk ?s3) = 0" using 2(2) assms(2) by simp_all
  from new_stream_run [OF this] obtain a h3 where 3: "new_stream ?s3 = Some (Some (a, stream0), mount_state s h3 p)" "heap_slack h3 (Suc k)" "grown heap_live h2 [a] h3" by auto
  have rd: "diskstreamer_read (k_drive s) stream0 62 = Some (0, \<lparr>ds_pos = 62, ds_disk = 0\<rparr>, bytes_at (k_drive s) 0 62)"
    using read_in_sector [of 0 62 "k_drive s"] by (simp del: upt_rec_numeral)
  let ?p5 = "p\<lparr>fp_header := H\<rparr>"
  let ?s5 = "mount_state s h3 ?p5"
  have "root_on (k_drive ?s5) (fp_header ?p5) its" "dk_fs_private (k_disk ?s5) = Some ?p5" "dk_sector_size (k_disk ?s5) = 512"
    "fp_directory_stream ?p5 = Some stream0" "ds_disk stream0 = 0" "heap_slack (k_heap ?s5) (Suc k)"
    using H(3) assms(3) 3(2) by (simp_all add: p_def)
  from root_directory_run [OF this] obtain ia h4 q where 4: "fat16_get_root_directory ?s5 = Some (0, mount_state s h4
      (?p5\<lparr>fp_directory_stream := Some \<lparr>ds_pos = q, ds_disk = 0\<rparr>, fp_root_directory := root_dir (fp_header ?p5) its (fp_addr ?p5) ia\<rparr>))"
    "heap_slack h4 k" "grown heap_live h3 [ia] h4" by auto
  define p6 where "p6 = ?p5\<lparr>fp_directory_stream := Some \<lparr>ds_pos = q, ds_disk = 0\<rparr>, fp_root_directory := root_dir H its pa ia\<rparr>"
  have p6: "fat16_get_root_directory ?s5 = Some (0, mount_state s h4 p6)"
    using 4(1) by (simp add: p6_def p_def zero_private_def)
  have g: "grown heap_live (k_heap s) (([pa] @ as) @ [a] @ [ia]) h4"
    using grown_trans [OF grown_trans [OF 1(4) 2(3)] grown_trans [OF 3(3) 4(3)]] by simp
  then have "(a, 1) \<in> heap_live h4" by (auto simp: grown_def)
  from ko.releaseE [OF 4(2) this] obtain h5 where 5: "kfree h4 a = Some h5" "heap_slack h5 (k + 1)" "heap_live h5 = heap_live h4 - {(a, 1)}" by blast
  have ms: "put_private (s\<lparr>k_heap := h2\<rparr>) p\<lparr>k_disk := (k_disk (put_private (s\<lparr>k_heap := h2\<rparr>) p))\<lparr>dk_filesystem := Some FAT16\<rparr>\<rparr> = ?s3"
    by (simp add: put_private_def mount_state_def)
  have "fat16_resolve s = Some (0, mount_state s h5 p6)"
    unfolding fat16_resolve_def k_zalloc_def using 1(1) 2(1) 3(1) rd H(1,2) p6 5(1)
    by (simp add: p_def [symmetric] ms resolve_out_def diskstreamer_close_def Let_def del: upt_rec_numeral)
  moreover have "fp_header p6 = H" "fp_root_directory p6 = root_dir H its pa ia" "streams_ok p6"
    by (simp_all add: p6_def p_def streams_ok_def stream_ok_def)
  moreover have "grown heap_live (k_heap s) (([pa] @ as) @ [ia]) h5" by (rule grown_drop_one [OF g 5(3)])
  ultimately show ?thesis using 5(2) 2(4) by (intro exI [of _ p6] exI [of _ h5] exI [of _ pa] exI [of _ ia] exI [of _ "([pa] @ as) @ [ia]"]) simp
qed

section \<open>Mounting what was stored\<close>

text \<open>
  What a mount needs on the drive: the header of the volume with its signature in the first sector, and the root directory where
  the header says, with at most 128 entries and one that was never used. It finds all files when the entries in use come first.
\<close>

definition root_readable :: "kstate \<Rightarrow> bool" where
  "root_readable s \<longleftrightarrow> decode_fat_h (bytes_at (k_drive s) 0 62) = fp_header (priv s)
     \<and> fe_signature (fat_extended_header (fp_header (priv s))) = 0x29
     \<and> fd_sector_pos (root_of s) = int (header_sec (fp_header (priv s)))
     \<and> fd_ending_sector_pos (root_of s) = int (header_sec (fp_header (priv s)) + 32 * ents s div 512)
     \<and> ents s \<le> 128 \<and> (\<exists>it \<in> set (items_of s). di_filename it ! 0 = 0)"

definition mountable :: "kstate \<Rightarrow> bool" where
  "mountable s \<longleftrightarrow> root_readable s \<and> compact (items_of s)"

lemma root_on_volume:
  assumes "layout s F" and "root_readable s"
  shows "root_on (k_drive s) (fp_header (priv s)) (items_of s)"
proof -
  note L = layoutD [OF assms(1)] and len = length_items [OF layoutD(1) [OF assms(1)]]
  have m: "root_sec s = header_sec (fp_header (priv s))" "ents s \<le> 128" "\<exists>it \<in> set (items_of s). di_filename it ! 0 = 0"
    using assms(2) by (simp_all add: root_readable_def root_sec_def)
  have "512 * root_sec s + 32 * ents s < 2 ^ 31" using L(1) by (simp add: ready_def geometry_ok_def)
  moreover have "bytes_at (k_drive s) (512 * root_sec s + 32 * k) 32 = encode_item (items_of s ! k) \<and> wf_item (items_of s ! k)" if "k < ents s" for k
    using L(3) entry_okD(1) [OF L(4) [OF that]] that unfolding synced_def entry_pos_def by blast
  moreover have "ents s = header_ents (fp_header (priv s))" by (simp add: ents_def header_ents_def)
  ultimately show ?thesis using m len unfolding root_on_def by simp
qed

lemma mount_stores:
  assumes "stores s M" and "mountable s" and "dk_filesystem (k_disk s) = Some FAT16" and "k_drive s0 = k_drive s"
    and "dk_id (k_disk s0) = 0" "dk_sector_size (k_disk s0) = 512"
    and p: "fp_header p = fp_header (priv s)" "fp_root_directory p = root_dir (fp_header (priv s)) (items_of s) pa ia" "streams_ok p"
  shows "stores (mount_state s0 h p) M"
proof -
  from assms(1) obtain F where F: "volume s F" "files s F = M" by (auto simp: stores_def)
  note V = volumeD [OF F(1)]
  let ?s = "mount_state s0 h p"
  have len: "length (items_of s) = ents s" by (rule length_items [OF V(3)])
  have its: "items_of ?s = items_of s" "fd_total (root_of ?s) = int (live_count (items_of s))" by (simp_all add: p(2) root_dir_def)
  have vol: "same_volume s ?s" using assms(2,3) p(1,2) len by (simp add: same_volume_def mountable_def root_readable_def root_dir_def)
  note G = same_volume_geometry [OF vol]
  have rdy: "ready ?s" using V(3) assms(5,6) p(3) its(1) len G
    unfolding ready_def geometry_ok_def by (simp add: p(2) root_dir_def)
  have d: "k_drive ?s = k_drive s" using assms(4) by simp
  note C = layout_cong [OF V(1) rdy vol its(1) d]
  have cp: "\<And>i j. i \<le> j \<Longrightarrow> j < length (items_of s) \<Longrightarrow> \<not> free_slot (items_of s ! j) \<Longrightarrow> \<not> free_slot (items_of s ! i)"
    using assms(2) unfolding mountable_def compact_def by blast
  have "int i < fd_total (root_of ?s)" if "i < ents s" "\<not> free_slot (items_of s ! i)" for i
    unfolding its(2) of_nat_less_iff by (rule live_count_compact [of "items_of s"]) (use cp that len in blast, use that len in simp_all)
  moreover have "fd_total (root_of ?s) \<le> int (ents s)" "0 \<le> fd_total (root_of ?s)" using live_count_le [of "items_of s"] len its(2) by simp_all
  ultimately have dir: "dir_ok ?s" using V(2) unfolding dir_ok_def its(1) G(4) by blast
  have "volume ?s F" using C(1) dir F(1) csize_volume(1) [OF vol] usable_volume [OF vol] unfolding volume_def its(1) G(4) by simp
  moreover have "files ?s F = M"
    unfolding F(2) [symmetric] files_def file_bytes_def slot_of_def its(1) G(4) C(2) ..
  ultimately show ?thesis unfolding stores_def by blast
qed

lemma search_run:
  assumes "fat_mounted v M" and "mountable (v_k v)" and "k_drive (v_k v1) = k_drive (v_k v)" and "heap_slack (k_heap (v_k v1)) (8 + k)"
    and v1: "v_filesystems v1 = Some FAT16 # replicate 11 None" "v_fds v1 = replicate PEACHOS_MAX_FILE_DESCRIPTORS None"
  shows "\<exists>v2. disk_search_and_init kernel_ops v1 = Some v2 \<and> fat_mounted v2 M
     \<and> k_drive (v_k v2) = k_drive (v_k v) \<and> v_fds v2 = replicate PEACHOS_MAX_FILE_DESCRIPTORS None
     \<and> heap_slack (k_heap (v_k v2)) (Suc k) \<and> (\<exists>as. length as = 7 \<and> grown heap_live (k_heap (v_k v1)) as (k_heap (v_k v2)))"
proof -
  note D = mountedD [OF assms(1)]
  from D(1) obtain F where "layout (v_k v) F" by (auto simp: stores_def volume_def)
  note R = root_on_volume [OF this conjunct1 [OF assms(2) [unfolded mountable_def]]]
  define s0 where "s0 = (v_k v1)\<lparr>k_disk := \<lparr>dk_type = 0, dk_sector_size = 512, dk_id = 0, dk_filesystem = None, dk_fs_private = None\<rparr>\<rparr>"
  have s0: "k_drive s0 = k_drive (v_k v)" "k_heap s0 = k_heap (v_k v1)" "dk_id (k_disk s0) = 0" "dk_sector_size (k_disk s0) = 512"
    using assms(3) by (simp_all add: s0_def)
  have "heap_slack (k_heap s0) (8 + k)" "decode_fat_h (bytes_at (k_drive s0) 0 62) = fp_header (priv (v_k v))"
    "fe_signature (fat_extended_header (fp_header (priv (v_k v)))) = 0x29" "root_on (k_drive s0) (fp_header (priv (v_k v))) (items_of (v_k v))"
    using assms(2,4) R unfolding s0 mountable_def root_readable_def by blast+
  from resolve_run [OF this(1) s0(3,4) this(2-4)] obtain p h pa ia as where r: "fat16_resolve s0 = Some (0, mount_state s0 h p)"
    "fp_header p = fp_header (priv (v_k v))" "fp_root_directory p = root_dir (fp_header (priv (v_k v))) (items_of (v_k v)) pa ia" "streams_ok p"
    "heap_slack h (Suc k)" "grown heap_live (k_heap s0) as h" "length as = 7" by blast
  let ?v2 = "v1\<lparr>v_k := mount_state s0 h p\<rparr>"
  have st: "stores (mount_state s0 h p) M" by (rule mount_stores [OF D(1) assms(2) D(3) s0(1,3,4) r(2-4)])
  have "(mount_state s0 h p)\<lparr>k_disk := (k_disk (mount_state s0 h p))\<lparr>dk_filesystem := Some FAT16\<rparr>\<rparr> = mount_state s0 h p"
    by (simp add: mount_state_def)
  then have "disk_search_and_init kernel_ops v1 = Some ?v2"
    using r(1) v1(1) by (simp add: disk_search_and_init_def fs_resolve_def s0_def [symmetric] fat16_fs_sel)
  moreover have "fds_inv fat_owned ?v2" using v1(2) by (simp add: fds_inv_def)
  then have "fat_mounted ?v2 M" using st by (simp add: mounted_def)
  moreover have "k_drive (v_k ?v2) = k_drive (v_k v)" "v_fds ?v2 = replicate PEACHOS_MAX_FILE_DESCRIPTORS None" "heap_slack (k_heap (v_k ?v2)) (Suc k)"
    "grown heap_live (k_heap (v_k v1)) as (k_heap (v_k ?v2))" using s0(1,2) v1(2) r(5,6) by simp_all
  ultimately show ?thesis using r(7) by blast
qed

text \<open>
  C2: files survive a restart, when the root directory has no gaps. Let the drive be that of a mounted volume that is \<open>mountable\<close>: its header with the
  signature is in the first sector, its root directory is where the header says, has at most 128 entries, at least one of them never used, and no free or deleted
  entry in front of one in use. A kernel that starts with this drive, whatever else its tables held, registers the
  FAT16 driver and finds the same files with the same bytes on the drive: the volume is mounted with the files \<open>M\<close>, all
  descriptors are free, the drive is as it was, and the mount keeps seven more objects of the heap. Without the condition on the entries files
  are lost (shown below).
\<close>

theorem remount:
  assumes "fat_mounted v M" and "mountable (v_k v)" and "k_drive (v_k v0) = k_drive (v_k v)" and "length (v_fs_name v0) = 20"
    and "heap_slack (k_heap (v_k v0)) (8 + k)"
  shows "\<exists>v1 v2. fs_init v0 = Some v1 \<and> disk_search_and_init kernel_ops v1 = Some v2 \<and> fat_mounted v2 M
     \<and> k_drive (v_k v2) = k_drive (v_k v) \<and> v_fds v2 = replicate PEACHOS_MAX_FILE_DESCRIPTORS None
     \<and> heap_slack (k_heap (v_k v2)) (Suc k) \<and> (\<exists>as. length as = 7 \<and> grown heap_live (k_heap (v_k v0)) as (k_heap (v_k v2)))"
proof -
  from fs_init_tables [OF assms(4)] obtain v1 where v1: "fs_init v0 = Some v1" "v_filesystems v1 = Some FAT16 # replicate 11 None"
    "v_fds v1 = replicate PEACHOS_MAX_FILE_DESCRIPTORS None" "v_k v1 = v_k v0" by blast
  with search_run [OF assms(1,2) _ _ v1(2,3)] assms(3,5) show ?thesis by simp
qed

subsection \<open>After a deletion\<close>

text \<open>An open for reading fails and gives back its descriptor when no entry before \<^verbatim>\<open>root_directory.total\<close> has the name.\<close>

lemma open_read_unmatched:
  assumes "dk_fs_private (k_disk s) = Some p" and "cstr_of (pp_part part) xs" and "length xs < PEACHOS_MAX_PATH" and "heap_slack (k_heap s) (Suc k)"
    and "nat (fd_total (root_of s)) \<le> length (items_of s)"
    and "\<And>j. j < nat (fd_total (root_of s)) \<Longrightarrow> \<not> same_name (item_name (items_of s ! j)) xs"
  shows "\<exists>h. fat16_open s [part] FILE_MODE_READ = Some (Inl (- EIO), s\<lparr>k_heap := h\<rparr>)"
proof -
  have p: "priv s = p" using assms(1) by (simp add: priv_def)
  obtain a h1 where a: "k_zalloc s 12 = Some (a, s\<lparr>k_heap := h1\<rparr>)" "a \<noteq> 0" "heap_slack h1 k" "grown heap_live (k_heap s) [a] h1"
    by (rule k_zalloc_eq [OF assms(4) fat_sizes(1)])
  obtain h where h: "kfree h1 a = Some h" using ko.grown_release_all [OF a(3,4), of "[a]"] by (auto split: bind_splits)
  have "find_item_loop (s\<lparr>k_heap := h1\<rparr>) (items_of s) (nat (fd_total (root_of s))) 0 (pp_part part) None = Some (None, s\<lparr>k_heap := h1\<rparr>)"
    using assms(5,6) by (intro find_item_loop_unmatched [OF assms(2,3)]) auto
  then have "fat16_get_directory_entry (s\<lparr>k_heap := h1\<rparr>) [part] = Some (None, s\<lparr>k_heap := h1\<rparr>)"
    using assms(1) p by (simp add: fat16_get_directory_entry_def fat16_find_item_in_directory_def)
  then show ?thesis using a(1,2) h by (intro exI [of _ h]) (simp add: fat16_open_def fat16_open_read_def k_free_def)
qed

text \<open>
  C31: \<^verbatim>\<open>fat16_get_total_items_for_directory\<close> skips deleted entries when it counts, and \<^verbatim>\<open>fat16_find_item_in_directory\<close>
  looks at as many entries as were counted. A file whose slot is not below the number of files, because entries before it were deleted,
  is therefore on the volume and can be opened before a restart, but a kernel that mounts the drive cannot open it for reading.
\<close>

theorem remount_loses_file:
  assumes "stores s M" and "root_readable s" and "good_name xs" and "cstr_of (pp_part part) xs"
    and "slot_of s (canon xs) = Some i" and "live_count (items_of s) \<le> i" and "heap_slack (k_heap s) 3"
    and "k_drive s0 = k_drive s" and "dk_id (k_disk s0) = 0" and "dk_sector_size (k_disk s0) = 512" and "heap_slack (k_heap s0) 8"
  shows "(\<exists>d s'. fat16_open s [part] FILE_MODE_READ = Some (Inr d, s'))
     \<and> (\<exists>s1 h. fat16_resolve s0 = Some (0, s1) \<and> fat16_open s1 [part] FILE_MODE_READ = Some (Inl (- EIO), s1\<lparr>k_heap := h\<rparr>))"
proof
  from assms(1) obtain F where F: "volume s F" "files s F = M" by (auto simp: stores_def)
  note V = volumeD [OF F(1)] and len = length_items [OF volumeD(3) [OF F(1)]]
  have "M (canon xs) \<noteq> None" using F(2) assms(5) by (auto simp: files_def)
  from stores_open_read [OF assms(1,3,4) this, of 0] assms(7) show "\<exists>d s'. fat16_open s [part] FILE_MODE_READ = Some (Inr d, s')" by auto
  have "heap_slack (k_heap s0) (8 + 0)" "decode_fat_h (bytes_at (k_drive s0) 0 62) = fp_header (priv s)"
    "fe_signature (fat_extended_header (fp_header (priv s))) = 0x29" "root_on (k_drive s0) (fp_header (priv s)) (items_of s)"
    using assms(2,11) root_on_volume [OF V(1) assms(2)] by (simp_all add: assms(8) root_readable_def del: upt_rec_numeral)
  from resolve_run [OF this(1) assms(9,10) this(2-4)] obtain p h pa ia where r: "fat16_resolve s0 = Some (0, mount_state s0 h p)"
    "fp_root_directory p = root_dir (fp_header (priv s)) (items_of s) pa ia" "heap_slack h (Suc 0)" by blast
  let ?s1 = "mount_state s0 h p"
  have its: "items_of ?s1 = items_of s" "fd_total (root_of ?s1) = int (live_count (items_of s))" by (simp_all add: r(2) root_dir_def)
  have i: "int i < fd_total (root_of s)" using slot_of_SomeD [OF assms(5)] dir_okD(3) [OF V(2)] by blast
  have "\<not> same_name (item_name (items_of s ! j)) xs" if "j < live_count (items_of s)" for j
    using read_lookup [OF F(1) assms(3), of j] i that assms(5,6) by simp
  then have "\<exists>h'. fat16_open ?s1 [part] FILE_MODE_READ = Some (Inl (- EIO), ?s1\<lparr>k_heap := h'\<rparr>)"
    using live_count_le [of "items_of s"] r(3) its by (intro open_read_unmatched [OF _ assms(4) good_nameD(6) [OF assms(3)]]) simp_all
  with r(1) show "\<exists>s1 h. fat16_resolve s0 = Some (0, s1) \<and> fat16_open s1 [part] FILE_MODE_READ = Some (Inl (- EIO), s1\<lparr>k_heap := h\<rparr>)" by blast
qed

subsection \<open>A volume with a file\<close>

text \<open>What the reserved sectors hold does not matter to a mounted volume.\<close>

lemma stores_reserved:
  assumes "stores s M" and "\<And>a. 512 * rsv s \<le> a \<Longrightarrow> d a = k_drive s a"
  shows "stores (s\<lparr>k_drive := d\<rparr>) M"
proof -
  let ?s = "s\<lparr>k_drive := d\<rparr>"
  from assms(1) obtain F where F: "volume s F" "files s F = M" by (auto simp: stores_def)
  note V = volumeD [OF F(1)] and L = layoutD [OF volumeD(1) [OF F(1)]]
  have pr: "priv ?s = priv s" by (simp add: priv_def)
  have vol: "same_volume s ?s" by (simp add: same_volume_def pr)
  note G = same_volume_geometry [OF vol]
  have rdy: "ready ?s" using V(3) G by (simp add: ready_def geometry_ok_def pr)
  have g: "rsv s + 2 * spf s \<le> root_sec s" "512 * root_sec s + 32 * ents s \<le> 512 * data_sec s" using V(3) by (simp_all add: ready_def geometry_ok_def)
  have same: "bytes_at d a n = bytes_at (k_drive s) a n" if "512 * rsv s \<le> a" for a n using assms(2) that by simp
  have w: "word16_at d a = word16_at (k_drive s) a" if "512 * rsv s \<le> a" for a unfolding word16_at_def same [OF that] ..
  have "512 * rsv s \<le> fat_off s c" "512 * rsv s \<le> fat2_off s c" for c by (simp_all add: fat_off_def fat2_off_def)
  then have f: "fat_at ?s = fat_at s" "fat2_at ?s = fat2_at s" using w by (simp_all add: fun_eq_iff fat_at_def fat2_at_def agrees_offs [OF vol])
  have c: "contents ?s cs = contents s cs" for cs by (rule contents_read [OF vol]) (use assms(2) g in simp)
  have "synced ?s" unfolding synced_def G pr
  proof (intro allI impI)
    fix i assume "i < ents s"
    have "512 * rsv s \<le> entry_pos s i" using g(1) by (simp add: entry_pos_def)
    then show "bytes_at (k_drive ?s) (entry_pos ?s i) 32 = encode_item (items_of s ! i)"
      using L(3) \<open>i < ents s\<close> same [of "entry_pos s i" 32] unfolding synced_def by (simp add: entry_pos_def G)
  qed
  moreover have "mirrored ?s" using L(2) by (simp add: mirrored_def f agrees_offs [OF vol])
  moreover have "file_at ?s cs = file_at s cs" for cs by (simp add: file_at_def file_chain_def f G)
  ultimately have "layout ?s F" using V(1) rdy unfolding layout_def pr G by blast
  moreover have "dir_ok ?s" using V(2) unfolding dir_ok_def pr G .
  ultimately have "volume ?s F" using F(1) csize_volume(1) [OF vol] usable_volume [OF vol] unfolding volume_def pr G by simp
  moreover have "files ?s F = M" unfolding F(2) [symmetric] files_def file_bytes_def slot_of_def pr G c ..
  ultimately show ?thesis unfolding stores_def by blast
qed

text \<open>The first sector of a volume with the parameters of \<^verbatim>\<open>src/src/boot/boot.asm\<close>.\<close>

definition demo_boot :: "byte list" where
  "demo_boot = [0xEB, 0x3C, 0x90, 0x20, 0x20, 0x20, 0x20, 0x20, 0x20, 0x20, 0x20, 0x00, 0x02, 0x80, 200, 0, 2, 0x40, 0, 0, 0, 0xF8, 0x00, 0x01, 0x20, 0, 0x40, 0,
     0, 0, 0, 0, 0x94, 0x35, 0x77, 0, 0x80, 0, 0x29, 0x05, 0xD1, 0, 0, 0x20, 0x20, 0x20, 0x20, 0x20, 0x20, 0x20, 0x20, 0x20, 0x20, 0x20,
     0x20, 0x20, 0x20, 0x20, 0x20, 0x20, 0x20, 0x20]"

lemma replicate_demo: "replicate 8 x = [x, x, x, x, x, x, x, x]" "replicate 11 x = [x, x, x, x, x, x, x, x, x, x, x]"
  by (simp_all add: numeral_eq_Suc)

lemma demo_boot_header: "decode_fat_h demo_boot = fp_header demo_private" "length demo_boot = 62"
  by (simp_all add: demo_boot_def demo_private_def decode_fat_h_def le16_def le32_def replicate_demo)

lemma demo_readable:
  assumes "stores s M" and "same_volume demo_volume s" and "i < 64" and "di_filename (items_of s ! i) ! 0 = 0"
  defines "s' \<equiv> s\<lparr>k_drive := write_bytes (k_drive s) 0 demo_boot\<rparr>"
  shows "stores s' M" "root_readable s'" "items_of s' = items_of s" "dk_filesystem (k_disk s') = Some FAT16" "ents s' = 64"
proof -
  show pr: "items_of s' = items_of s" by (simp add: s'_def priv_def)
  have hd': "priv s' = priv s" by (simp add: s'_def priv_def)
  note G = same_volume_geometry [OF assms(2), unfolded demo_geometry]
  have "write_bytes (k_drive s) 0 demo_boot a = k_drive s a" if "512 * rsv s \<le> a" for a
    using that G(1) demo_boot_header(2) by (simp add: write_bytes_outside)
  then show "stores s' M" unfolding s'_def by (rule stores_reserved [OF assms(1)])
  have hd: "fp_header (priv s) = fp_header demo_private" "fd_sector_pos (root_of s) = 712" "fd_ending_sector_pos (root_of s) = 716"
    "dk_filesystem (k_disk s) = Some FAT16"
    using assms(2) by (simp_all add: same_volume_def) (simp_all add: priv_def demo_state_def demo_private_def)
  then show "dk_filesystem (k_disk s') = Some FAT16" by (simp add: s'_def)
  show e: "ents s' = 64" using G(4) by (simp add: ents_def hd')
  have "length (items_of s) = 64" using assms(1) length_items G(4) by (auto simp: stores_def volume_def layout_def)
  then have "\<exists>it \<in> set (items_of s). di_filename it ! 0 = 0" using assms(3,4) nth_mem by metis
  moreover have "bytes_at (k_drive s') 0 62 = demo_boot"
    using bytes_at_write_bytes [of "k_drive s" 0 demo_boot] unfolding demo_boot_header(2) s'_def by (simp del: upt_rec_numeral)
  moreover have "header_sec (fp_header demo_private) = 712" by (simp add: header_sec_def demo_private_def)
  moreover have "fe_signature (fat_extended_header (fp_header demo_private)) = 0x29" by (simp add: demo_private_def)
  ultimately show "root_readable s'" using e unfolding root_readable_def hd' hd by (simp add: demo_boot_header(1) del: upt_rec_numeral)
qed

text \<open>The volume with the file \<^verbatim>\<open>a.txt\<close> in its first slot.\<close>

abbreviation (input) demo_item :: fat_directory_item where
  "demo_item \<equiv> fresh_item (map upper83 [0x61] @ replicate (8 - length [0x61::byte]) 0x20)
    (map upper83 [0x74, 0x78, 0x74] @ replicate (3 - length [0x74, 0x78, 0x74::byte]) 0x20)"

lemma demo_one_file:
  obtains s where "stores s [canon demo_text \<mapsto> []]" "same_volume demo_volume s" "items_of s = demo_item # replicate 63 (decode_item (replicate 32 0))"
    "entry_room s 1" "heap_slack (k_heap s) 97"
proof -
  have h: "hd [0x61 :: byte] \<noteq> 0xE5" by simp
  from fat16_open_write_new [OF demo_layout demo_name h demo_no_entry demo_heap_room refl, of "[]"]
  obtain desc s1 where d: "fat16_open demo_volume [demo_part] FILE_MODE_WRITE = Some (Inr desc, s1)"
    "items_of s1 = (items_of demo_volume)[0 := demo_item]" "same_volume demo_volume s1" by blast
  have nm: "dotted [0x61] [0x74, 0x78, 0x74] = demo_text" by (simp add: dotted_def demo_text_def)
  have "cstr_of (pp_part demo_part) demo_text" using demo_name(1) unfolding nm .
  moreover have "entry_room demo_volume (Suc 1)" "heap_slack (k_heap demo_volume) (97 + 3)"
    using demo_rooms(1) [of "Suc 1"] demo_heap_room by (simp_all add: demo_vfs_def)
  ultimately have "stores s1 [canon demo_text \<mapsto> []]" "entry_room s1 1" "heap_slack (k_heap s1) 97"
    using stores_open_write [OF demo_stores demo_good, of demo_part 1 97 "[]"] d(1) by fastforce+
  moreover have "items_of s1 = demo_item # replicate 63 (decode_item (replicate 32 0))" using d(2) by (simp add: demo_items numeral_eq_Suc)
  ultimately show thesis using that d(3) by blast
qed

lemma zero_item_first: "di_filename (decode_item (replicate 32 0)) ! 0 = 0"
  by (simp add: decode_item_def)

lemma demo_item_live: "\<not> free_slot demo_item"
  using fresh_item_facts(3) [OF demo_name(2) _ refl] by simp

lemma demo_mountable:
  obtains v where "fat_mounted v [canon demo_text \<mapsto> []]" "mountable (v_k v)"
proof -
  obtain s where s: "stores s [canon demo_text \<mapsto> []]" "same_volume demo_volume s" "items_of s = demo_item # replicate 63 (decode_item (replicate 32 0))"
    by (rule demo_one_file)
  define s2 where "s2 = s\<lparr>k_drive := write_bytes (k_drive s) 0 demo_boot\<rparr>"
  have "di_filename (items_of s ! 1) ! 0 = 0" using s(3) zero_item_first by simp
  note R = demo_readable [OF s(1,2) _ this, folded s2_def, simplified]
  have "free_slot (items_of s2 ! i)" if "i < 64" "i \<noteq> 0" for i using that zero_item(3) by (simp add: R(3) s(3) nth_Cons')
  moreover have "\<not> free_slot (items_of s2 ! 0)" "length (items_of s2) = 64" using demo_item_live by (simp_all add: R(3) s(3))
  ultimately have "compact (items_of s2)" unfolding compact_def by (metis le_zero_eq)
  then have "mountable s2" using R(2) by (simp add: mountable_def)
  moreover have "fat_mounted (demo_vfs\<lparr>v_k := s2\<rparr>) [canon demo_text \<mapsto> []]"
    using R(1,4) by (simp add: mounted_def fds_inv_def demo_vfs_def)
  ultimately show thesis using that [of "demo_vfs\<lparr>v_k := s2\<rparr>"] by simp
qed

theorem remount_witness:
  "\<exists>v v1 v2. fat_mounted v [canon demo_text \<mapsto> []] \<and> fs_init (demo_vfs\<lparr>v_k := demo_state (k_drive (v_k v))\<rparr>) = Some v1
     \<and> disk_search_and_init kernel_ops v1 = Some v2 \<and> fat_mounted v2 [canon demo_text \<mapsto> []]"
proof -
  obtain v where v: "fat_mounted v [canon demo_text \<mapsto> []]" "mountable (v_k v)" by (rule demo_mountable)
  have "heap_slack (k_heap (demo_state (k_drive (v_k v)))) (8 + 92)" using demo_heap_slack [of 100] by (simp add: demo_state_def)
  moreover have "k_drive (demo_state (k_drive (v_k v))) = k_drive (v_k v)" by (simp add: demo_state_def)
  ultimately show ?thesis using remount [OF v, of "demo_vfs\<lparr>v_k := demo_state (k_drive (v_k v))\<rparr>" 92] v(1) by (auto simp: demo_vfs_def)
qed

text \<open>The volume with \<^verbatim>\<open>b\<close> in its second slot, after \<^verbatim>\<open>a.txt\<close> was deleted.\<close>

definition demo_part_b :: path_part where
  "demo_part_b = \<lparr>pp_addr = 0x01007000, pp_str_addr = 0x01008000, pp_part = [0x62, 0]\<rparr>"

lemma demo_b: "cstr_of (pp_part demo_part_b) (dotted [0x62] [])" "name83 [0x62] []" "dotted [0x62] [] = [0x62 :: byte]" "hd [0x62 :: byte] \<noteq> 0xE5"
  by (simp_all add: demo_part_b_def cstr_of_def dotted_def name83_def name_char_def)

abbreviation (input) demo_item_b :: fat_directory_item where
  "demo_item_b \<equiv> fresh_item (map upper83 [0x62] @ replicate (8 - length [0x62::byte]) 0x20) (map upper83 [] @ replicate (3 - length ([]::byte list)) 0x20)"

lemma demo_two_files:
  obtains s where "stores s [canon demo_text \<mapsto> [], canon [0x62] \<mapsto> []]" "same_volume demo_volume s"
    "items_of s = demo_item # demo_item_b # replicate 62 (decode_item (replicate 32 0))" "entry_room s 0" "heap_slack (k_heap s) 94"
proof -
  obtain s where s: "stores s [canon demo_text \<mapsto> []]" "same_volume demo_volume s" "items_of s = demo_item # replicate 63 (decode_item (replicate 32 0))"
    "entry_room s 1" "heap_slack (k_heap s) 97" by (rule demo_one_file)
  from s(1) obtain F where F: "volume s F" "files s F = [canon demo_text \<mapsto> []]" by (auto simp: stores_def)
  note V = volumeD [OF F(1)]
  have no: "[canon demo_text \<mapsto> []] (canon [0x62]) = None" using demo_names by auto
  then have "files s F (canon [0x62]) = None" unfolding F(2) .
  then have "slot_of s (canon [0x62]) = None" by (simp add: files_def)
  then have none: "first_index (\<lambda>it. di_filename it ! 0 = 0) (named_slot (dotted [0x62] [])) (items_of s) = None"
    using lookup_slot [OF V(3,2), of "[0x62]"] by (simp add: demo_b(3))
  have free: "first_index (\<lambda>_. False) free_slot (items_of s) = Some 1"
    using demo_item_live zero_item(3) by (simp add: s(3) first_index_Cons numeral_eq_Suc)
  have "heap_slack (k_heap s) (94 + 3)" using s(5) by simp
  from fat16_open_write_new [OF V(1) demo_b(1,2,4) none free this refl, of "[]"] obtain d s1 where
    d: "fat16_open s [demo_part_b] FILE_MODE_WRITE = Some (Inr d, s1)" "items_of s1 = (items_of s)[1 := demo_item_b]" "same_volume s s1" by blast
  have "entry_room s (if [canon demo_text \<mapsto> []] (canon [0x62]) = None then Suc 0 else 0)" using s(4) demo_names by simp
  from stores_open_write [OF s(1) good_b demo_b(1) [unfolded demo_b(3)] this \<open>heap_slack (k_heap s) (94 + 3)\<close>, of "[]"] d(1)
  have "stores s1 [canon demo_text \<mapsto> [], canon [0x62] \<mapsto> []]" "entry_room s1 0" "heap_slack (k_heap s1) 94" by (simp_all del: fun_upd_apply)
  moreover have "items_of s1 = demo_item # demo_item_b # replicate 62 (decode_item (replicate 32 0))" using d(2) by (simp add: s(3) numeral_eq_Suc)
  ultimately show thesis using that same_volume_trans [OF s(2) d(3)] by blast
qed

lemma demo_deleted:
  obtains s where "stores s [canon [0x62] \<mapsto> []]" "root_readable s" "slot_of s (canon [0x62]) = Some 1" "live_count (items_of s) = 1" "heap_slack (k_heap s) 94"
proof -
  obtain s where s: "stores s [canon demo_text \<mapsto> [], canon [0x62] \<mapsto> []]" "same_volume demo_volume s"
    "items_of s = demo_item # demo_item_b # replicate 62 (decode_item (replicate 32 0))" "entry_room s 0" "heap_slack (k_heap s) 94" by (rule demo_two_files)
  from s(1) obtain F where F: "volume s F" by (auto simp: stores_def)
  note V = volumeD [OF F]
  have nm: "dotted [0x61] [0x74, 0x78, 0x74] = demo_text" by (simp add: dotted_def demo_text_def)
  have part: "cstr_of (pp_part demo_part) demo_text" using demo_name(1) unfolding nm .
  have it: "named_slot demo_text demo_item" using fresh_item_facts(6) [OF demo_name(2) _ refl] unfolding nm by simp
  then have "first_index (\<lambda>it. di_filename it ! 0 = 0) (named_slot demo_text) (items_of s) = Some 0"
    using demo_item_live by (simp add: s(3) first_index_Cons free_slot_def)
  from fat16_delete_eq [OF V(1) part good_nameD(6) [OF demo_good] this, of "[]"] obtain s1 where
    d: "fat16_delete s [demo_part] = Some (0, s1)" "items_of s1 = (items_of s)[0 := deleted (items_of s ! 0)]" "same_volume s s1" "k_heap s1 = k_heap s" by blast
  from stores_delete [OF s(1) demo_good part _ s(4), of "[]"] d(1) have st: "stores s1 [canon [0x62] \<mapsto> []]"
    using demo_names by (auto simp: fun_upd_twist)
  have its: "items_of s1 = deleted demo_item # demo_item_b # replicate 62 (decode_item (replicate 32 0))" using d(2) by (simp add: s(3))
  note I = fresh_item_facts [OF demo_b(2,4) refl]
  define s2 where "s2 = s1\<lparr>k_drive := write_bytes (k_drive s1) 0 demo_boot\<rparr>"
  have "di_filename (items_of s1 ! 2) ! 0 = 0" using its zero_item_first by simp
  note R = demo_readable [OF st same_volume_trans [OF s(2) d(3)] _ this, folded s2_def, simplified]
  from R(1) obtain F' where F': "volume s2 F'" by (auto simp: stores_def)
  have "canon (item_name demo_item_b) = canon [0x62]" using I(5) by (simp add: same_name_canon demo_b(3))
  then have slot: "slot_of s2 (canon [0x62]) = Some 1" using I(3) by (simp add: slot_of_Some [OF volumeD(2) [OF F']] R(3,5) its)
  have "length (di_filename demo_item) = 8" using fresh_item_facts(1) [OF demo_name(2) _ refl] by (simp add: wf_item_def)
  then have "di_filename (deleted demo_item) ! 0 = 0xE5" by (simp add: deleted_def emptied_def)
  moreover have "live_count (replicate 62 (decode_item (replicate 32 0))) = 0"
    using zero_item_first by (simp only: live_count.simps replicate_Suc [of 61, simplified] simp_thms if_True)
  ultimately have "live_count (items_of s2) = 1" using I(3) by (simp add: R(3) its free_slot_def)
  moreover have "heap_slack (k_heap s2) 94" using s(5) d(4) by (simp add: s2_def)
  ultimately show thesis using that [OF R(1,2) slot] by simp
qed

theorem remount_loses_file_witness:
  "\<exists>s d s' s1 h. stores s [canon [0x62] \<mapsto> []] \<and> fat16_open s [demo_part_b] FILE_MODE_READ = Some (Inr d, s')
     \<and> fat16_resolve (demo_state (k_drive s)) = Some (0, s1) \<and> fat16_open s1 [demo_part_b] FILE_MODE_READ = Some (Inl (- EIO), s1\<lparr>k_heap := h\<rparr>)"
proof -
  obtain s where s: "stores s [canon [0x62] \<mapsto> []]" "root_readable s" "slot_of s (canon [0x62]) = Some 1" "live_count (items_of s) = 1"
    "heap_slack (k_heap s) 94" by (rule demo_deleted)
  have "live_count (items_of s) \<le> 1" "heap_slack (k_heap s) 3" using s(4) ko.slack_mono [OF s(5), of 3] by simp_all
  moreover have "heap_slack (k_heap (demo_state (k_drive s))) 8" "k_drive (demo_state (k_drive s)) = k_drive s"
    "dk_id (k_disk (demo_state (k_drive s))) = 0" "dk_sector_size (k_disk (demo_state (k_drive s))) = 512"
    using ko.slack_mono [OF demo_heap_slack [of 100], of 8] by (simp_all add: demo_state_def)
  ultimately show ?thesis
    using remount_loses_file [OF s(1,2) good_b demo_b(1) [unfolded demo_b(3)] s(3)] s(1) by blast
qed

end
