(* ===== verification/Subdirectory.thy ===== *)
theory Subdirectory
  imports Mount
begin

text \<open>
  Paths with more than one component, \<^verbatim>\<open>src/src/fs/fat/fat16.c\<close>: what \<^verbatim>\<open>fat16_open\<close> does for a file in a subdirectory that is on the
  volume.
\<close>

section \<open>Loading a directory\<close>

text \<open>
  The entry \<open>i\<close> of the root directory is a directory with the entries \<open>its\<close>, which are in its one cluster \<open>c\<close> in front of an entry that ends them and fit in
  a block of the heap.
\<close>

definition subdirectory :: "kstate \<Rightarrow> nat \<Rightarrow> nat \<Rightarrow> fat_directory_item list \<Rightarrow> bool" where
  "subdirectory s i c its \<longleftrightarrow> di_attribute (items_of s ! i) AND 0x10 \<noteq> 0 \<and> sint (fat16_get_first_cluster (items_of s ! i)) = int c
     \<and> reach s c \<and> file_chain s [c] \<and> 32 * length its \<le> csize s \<and> length its \<le> 128 \<and> 0 < live_count its \<and> (\<exists>it \<in> set its. di_filename it ! 0 = 0)
     \<and> (\<forall>k < length its. bytes_at (k_drive s) (data_pos s c + 32 * k) 32 = encode_item (its ! k) \<and> wf_item (its ! k))"

lemma with_heap:
  "priv (s\<lparr>k_heap := h\<rparr>) = priv s" "ready (s\<lparr>k_heap := h\<rparr>) = ready s" "file_chain (s\<lparr>k_heap := h\<rparr>) cs = file_chain s cs"
  "reach (s\<lparr>k_heap := h\<rparr>) c = reach s c" "csize (s\<lparr>k_heap := h\<rparr>) = csize s" "data_pos (s\<lparr>k_heap := h\<rparr>) c = data_pos s c"
proof -
  show p: "priv (s\<lparr>k_heap := h\<rparr>) = priv s" by (simp add: priv_def)
  then have v: "same_volume s (s\<lparr>k_heap := h\<rparr>)" by (simp add: same_volume_def)
  note G = same_volume_geometry [OF v]
  show "ready (s\<lparr>k_heap := h\<rparr>) = ready s" by (simp add: ready_def geometry_ok_def p G)
  show "file_chain (s\<lparr>k_heap := h\<rparr>) cs = file_chain s cs" 
    unfolding file_chain_def G(7) using agrees_offs(1) [OF v] by (simp add: fat_at_def [abs_def])
  show "reach (s\<lparr>k_heap := h\<rparr>) c = reach s c" "csize (s\<lparr>k_heap := h\<rparr>) = csize s" "data_pos (s\<lparr>k_heap := h\<rparr>) c = data_pos s c"
    by (simp_all add: reach_def csize_def data_pos_def G)
qed

lemma agrees_heap: "agrees s d s' \<Longrightarrow> agrees (s\<lparr>k_heap := h\<rparr>) d (s'\<lparr>k_heap := h\<rparr>)"
  by (cases s; cases s') (simp add: agrees_def norm_def)

lemma subdirectory_total:
  assumes "ready s" and "subdirectory s i c its" and "dk_fs_private (k_disk s) = Some p"
  obtains s' where "fat16_get_total_items_for_directory (s\<lparr>k_heap := h\<rparr>) (fat16_cluster_to_sector p (int c)) = Some (int (live_count its), s')"
    "agrees (s\<lparr>k_heap := h\<rparr>) (k_drive s) s'"
proof -
  from assms(2) have r: "reach s c" "32 * length its \<le> csize s" "\<exists>it \<in> set its. di_filename it ! 0 = 0"
    "\<And>k. k < length its \<Longrightarrow> bytes_at (k_drive s) (data_pos s c + 32 * k) 32 = encode_item (its ! k) \<and> wf_item (its ! k)"
    unfolding subdirectory_def by blast+
  have pv: "priv s = p" using assms(3) by (simp add: priv_def)
  obtain st where st: "fp_directory_stream p = Some st" "ds_disk st = 0" "stream_ok (Some st)" "dk_sector_size (k_disk s) = 512"
    using assms(1) by (auto simp: ready_def streams_ok_def stream_ok_def pv split: option.splits)
  have "s32 (u32 x * 512) = s32 (x * 512)" for x
    unfolding s32_def u32_def by (simp only: mod_add_cong [OF mod_mult_left_eq refl])
  then have pos: "s32 (u32 (fat16_cluster_to_sector p (int c)) * 512) = int (data_pos s c)"
    using cluster_position [OF assms(1) r(1), of 0] pv by simp
  have "data_pos s c mod 32 = 0" "data_pos s c + 32 * length its < 2 ^ 31" using r(1,2) by (auto simp: data_pos_def csize_def reach_def)
  from total_items_run [OF r(4,3) this, of 0] obtain q where
    q: "total_items_loop (k_drive s) \<lparr>ds_pos = int (data_pos s c), ds_disk = 0\<rparr> 0 = Some (int (live_count its), \<lparr>ds_pos = q, ds_disk = 0\<rparr>)" by auto
  let ?p = "p\<lparr>fp_directory_stream := Some \<lparr>ds_pos = q, ds_disk = 0\<rparr>\<rparr>"
  have sp: "st\<lparr>ds_pos := x\<rparr> = \<lparr>ds_pos = x, ds_disk = 0\<rparr>" for x using st(2) by (cases st) simp
  have "fat16_get_total_items_for_directory (s\<lparr>k_heap := h\<rparr>) (fat16_cluster_to_sector p (int c)) = Some (int (live_count its), put_private (s\<lparr>k_heap := h\<rparr>) ?p)"
    using q assms(3) st(1,4) pos by (simp add: fat16_get_total_items_for_directory_def diskstreamer_seek_def Let_def sp)
  moreover have "still_private ?p = still_private p" using still_seek [OF st(3), of q] st(1) by (simp add: still_private_def)
  then have "agrees (s\<lparr>k_heap := h\<rparr>) (k_drive s) (put_private (s\<lparr>k_heap := h\<rparr>) ?p)"
    using agrees_put_same [of "s\<lparr>k_heap := h\<rparr>" p ?p] assms(3) by simp
  ultimately show thesis by (rule that)
qed

text \<open>The directory is read, and its two objects are live.\<close>

lemma load_directory_run:
  assumes "ready s" and "subdirectory s i c its" and "heap_slack (k_heap s) (Suc (Suc k))"
  obtains d s' a b where "fat16_load_fat_directory s (items_of s ! i) = Some (Some d, s')" "agrees (s\<lparr>k_heap := k_heap s'\<rparr>) (k_drive s) s'"
    "heap_slack (k_heap s') k" "grown heap_live (k_heap s) [a, b] (k_heap s')"
proof -
  let ?n = "live_count its"
  obtain p where p: "dk_fs_private (k_disk s) = Some p" "priv s = p" using assms(1) by (auto simp: ready_def priv_def)
  from assms(2) have r: "di_attribute (items_of s ! i) AND 0x10 \<noteq> 0" "sint (fat16_get_first_cluster (items_of s ! i)) = int c" "reach s c" "file_chain s [c]"
    "32 * length its \<le> csize s" "length its \<le> 128" "0 < ?n" unfolding subdirectory_def by blast+
  have "small_size 16" by (simp add: small_size_def)
  from k_zalloc_eq [OF assms(3) this] obtain a h1 where a: "k_zalloc s 16 = Some (a, s\<lparr>k_heap := h1\<rparr>)" "a \<noteq> 0" "heap_slack h1 (Suc k)"
    "grown heap_live (k_heap s) [a] h1" by blast
  obtain s2 where s2: "fat16_get_total_items_for_directory (s\<lparr>k_heap := h1\<rparr>) (fat16_cluster_to_sector p (int c)) = Some (int ?n, s2)"
    "agrees (s\<lparr>k_heap := h1\<rparr>) (k_drive s) s2" by (rule subdirectory_total [OF assms(1,2) p(1)])
  have hp: "k_heap s2 = h1" using agrees_keeps(1) [OF s2(2)] by simp
  have w: "word_of_int (int ?n * 32) = (of_nat (32 * ?n) :: u32)" by (simp add: mult.commute)
  have n: "32 * ?n \<le> 4096" "32 * ?n \<le> csize s" using live_count_le [of its] r(5,6) by linarith+
  have "small_size (word_of_int (int ?n * 32))"
    unfolding w small_size_def using n(1) r(7) by (simp add: unsigned_of_nat take_bit_nat_eq_self del: of_nat_mult)
  from k_zalloc_eq [OF _ this, of s2 k] a(3) obtain b h2 where
    b: "k_zalloc s2 (word_of_int (int ?n * 32)) = Some (b, s2\<lparr>k_heap := h2\<rparr>)" "b \<noteq> 0" "heap_slack h2 k" "grown heap_live h1 [b] h2"
    unfolding hp by blast
  let ?s = "s\<lparr>k_heap := h2\<rparr>" and ?s2 = "s2\<lparr>k_heap := h2\<rparr>"
  have ag: "agrees ?s (k_drive ?s) ?s2" using agrees_heap [OF s2(2), of h2] by simp
  have rs: "ready ?s" using assms(1) by (simp add: with_heap)
  note V = agrees_volume [OF ag rs] and C = file_chain_agrees [OF rs ag]
  have g: "file_chain ?s2 [c]" "reach ?s2 c" "csize ?s2 = csize s"
    using C [of "[c]"] r(3,4) csize_volume [OF V(1)] by (simp_all add: with_heap)
  have "0 < csize s" using r(5,7) live_count_le [of its] by linarith
  then obtain s3 where s3: "fat16_read_internal ?s2 (int c) 0 (int (32 * ?n)) = Some (0, take (32 * ?n) (drop 0 (contents ?s2 [c])), s3)" "agrees ?s2 (k_drive ?s2) s3"
    using fat16_read_internal_correct [OF V(2) g(1), of 0 "32 * ?n"] g n(2) by (auto simp: readable_def)
  have m: "int (32 * ?n) = int ?n * 32" by simp
  have dr: "k_drive ?s2 = k_drive s" using agrees_drive [OF s2(2)] by simp
  have run: "\<exists>d. fat16_load_fat_directory s (items_of s ! i) = Some (Some d, s3)"
    using r(1,2) a(1,2) p(1) s2(1) b(1,2) s3(1) unfolding m by (simp add: fat16_load_fat_directory_def Let_def)
  have ag3: "agrees ?s (k_drive s) s3" using agrees_trans [OF ag s3(2)] dr by simp
  have "k_heap s3 = h2" using agrees_keeps(1) [OF ag3] by simp
  then show thesis using run ag3 b(3) grown_trans [OF a(4) b(4)] that by auto
qed

text \<open>An item for the directory is made, of the type of a file; what was loaded is not referred to any more.\<close>

lemma directory_item_run:
  assumes "ready s" and "subdirectory s i c its" and "heap_slack (k_heap s) (k + 4)"
  obtains f s' as where "fat16_new_fat_item_for_directory_item s (items_of s ! i) = Some (Some f, s')" "fi_type f = FAT_ITEM_TYPE_FILE"
    "agrees (s\<lparr>k_heap := k_heap s'\<rparr>) (k_drive s) s'" "heap_slack (k_heap s') k" "length as = 4" "grown heap_live (k_heap s) as (k_heap s')"
proof -
  have "heap_slack (k_heap s) (Suc (k + 3))" using assms(3) by (simp add: numeral_eq_Suc)
  from k_zalloc_eq [OF this fat_sizes(2)] obtain a h1 where a: "k_zalloc s 8 = Some (a, s\<lparr>k_heap := h1\<rparr>)" "a \<noteq> 0" "heap_slack h1 (k + 3)"
    "grown heap_live (k_heap s) [a] h1" by blast
  let ?s1 = "s\<lparr>k_heap := h1\<rparr>"
  have pre: "ready ?s1" "subdirectory ?s1 i c its" "heap_slack (k_heap ?s1) (Suc (Suc (Suc k)))"
    using assms(1,2) a(3) by (simp_all add: subdirectory_def with_heap numeral_3_eq_3)
  obtain d s2 b b' where l: "fat16_load_fat_directory ?s1 (items_of ?s1 ! i) = Some (Some d, s2)" "agrees (?s1\<lparr>k_heap := k_heap s2\<rparr>) (k_drive ?s1) s2"
    "heap_slack (k_heap s2) (Suc k)" "grown heap_live (k_heap ?s1) [b, b'] (k_heap s2)" by (rule load_directory_run [OF pre])
  from k_zalloc_eq [OF l(3) fat_sizes(3)] obtain e h3 where e: "k_zalloc s2 32 = Some (e, s2\<lparr>k_heap := h3\<rparr>)" "e \<noteq> 0" "heap_slack h3 k"
    "grown heap_live (k_heap s2) [e] h3" by blast
  have at: "di_attribute (items_of s ! i) AND 0x10 \<noteq> 0" using assms(2) by (simp add: subdirectory_def)
  have it: "items_of ?s1 = items_of s" by (simp add: with_heap)
  have "\<exists>f. fat16_new_fat_item_for_directory_item s (items_of s ! i) = Some (Some f, s2\<lparr>k_heap := h3\<rparr>) \<and> fi_type f = FAT_ITEM_TYPE_FILE"
    using a(1,2) l(1) [unfolded it] e(1,2) at by (simp add: fat16_new_fat_item_for_directory_item_def fat16_clone_directory_item_def)
  moreover have "grown heap_live (k_heap s) ([a] @ [b, b'] @ [e]) h3" using grown_trans [OF a(4) grown_trans [OF l(4) [simplified] e(4)]] by simp
  moreover have "agrees (s\<lparr>k_heap := h3\<rparr>) (k_drive s) (s2\<lparr>k_heap := h3\<rparr>)" using agrees_heap [OF l(2), of h3] by simp
  ultimately show thesis using e(3) that by force
qed

section \<open>Properties\<close>

text \<open>
  C28: a file in a subdirectory is not opened. For a path of more than one component whose first one is a subdirectory of the volume, an open for
  reading loads the entries of the directory and then fails, whatever they are, because the item for the directory gets the type of a file: the result
  is \<open>- EIO\<close>, and four objects of the heap stay behind. No path of several components is opened for reading in any other state either. An open for writing does not
  look behind the first component: it opens the first component as a file of the root directory.
\<close>

theorem fat16_open_subdirectory_fails:
  assumes "ready s" and "cstr_of (pp_part part) xs" and "length xs < PEACHOS_MAX_PATH"
    and "0 \<le> fd_total (root_of s)" and "fd_total (root_of s) \<le> int (ents s)" and "int i < fd_total (root_of s)"
    and "\<forall>j. int j < fd_total (root_of s) \<longrightarrow> (same_name (item_name (items_of s ! j)) xs \<longleftrightarrow> j = i)"
    and "subdirectory s i c its" and "heap_slack (k_heap s) 5"
  shows "(\<exists>s' as. fat16_open s (part # part' # parts) FILE_MODE_READ = Some (Inl (- EIO), s') \<and> agrees (s\<lparr>k_heap := k_heap s'\<rparr>) (k_drive s) s'
       \<and> length as = 4 \<and> grown heap_live (k_heap s) as (k_heap s'))
     \<and> (\<forall>t r t'. fat16_open t (part # part' # parts) FILE_MODE_READ = Some (r, t') \<longrightarrow> (\<exists>err. r = Inl err))
     \<and> fat16_open s (part # part' # parts) FILE_MODE_WRITE = fat16_open s [part] FILE_MODE_WRITE"
proof -
  have "heap_slack (k_heap s) (Suc (0 + 4))" using assms(9) by simp
  from k_zalloc_eq [OF this fat_sizes(1)] obtain a h1 where a: "k_zalloc s 12 = Some (a, s\<lparr>k_heap := h1\<rparr>)" "a \<noteq> 0" "heap_slack h1 (0 + 4)"
    "grown heap_live (k_heap s) [a] h1" by blast
  let ?s1 = "s\<lparr>k_heap := h1\<rparr>"
  have pre: "ready ?s1" "subdirectory ?s1 i c its" "heap_slack (k_heap ?s1) (0 + 4)"
    using assms(1,8) a(3) by (simp_all add: subdirectory_def with_heap)
  obtain f s2 as where f: "fat16_new_fat_item_for_directory_item ?s1 (items_of ?s1 ! i) = Some (Some f, s2)" "fi_type f = FAT_ITEM_TYPE_FILE"
    "agrees (?s1\<lparr>k_heap := k_heap s2\<rparr>) (k_drive ?s1) s2" "heap_slack (k_heap s2) 0" "length as = 4" "grown heap_live (k_heap ?s1) as (k_heap s2)"
    by (rule directory_item_run [OF pre])
  have it: "items_of ?s1 = items_of s" by (simp add: with_heap)
  have "find_item_loop ?s1 (items_of s) (nat (fd_total (root_of s))) 0 (pp_part part) None = Some (Some f, s2)"
    using assms(4-7) length_items [OF assms(1)] f(1) [unfolded it]
    by (intro find_item_loop_unique [OF assms(2,3) _ _ _ _, where i = i]) auto
  moreover obtain p where p: "dk_fs_private (k_disk s) = Some p" "priv s = p" using assms(1) by (auto simp: ready_def priv_def)
  ultimately have ge: "fat16_get_directory_entry ?s1 (part # part' # parts) = Some (None, s2)"
    using f(2) by (simp add: fat16_get_directory_entry_def fat16_find_item_in_directory_def)
  have g: "grown heap_live (k_heap s) (a # as) (k_heap s2)" using grown_trans [OF a(4) f(6) [simplified]] by simp
  then have "(a, 1) \<in> heap_live (k_heap s2)" by (simp add: grown_def)
  from ko.releaseE [OF f(4) this] obtain h3 where h3: "kfree (k_heap s2) a = Some h3" "heap_live h3 = heap_live (k_heap s2) - {(a, 1)}" by blast
  have "grown heap_live (k_heap s) as h3" using g h3(2) by (auto simp: grown_def)
  moreover have "fat16_open s (part # part' # parts) FILE_MODE_READ = Some (Inl (- EIO), s2\<lparr>k_heap := h3\<rparr>)"
    using a(1,2) ge h3(1) by (simp add: fat16_open_def fat16_open_read_def k_free_def)
  moreover have "agrees (s\<lparr>k_heap := h3\<rparr>) (k_drive s) (s2\<lparr>k_heap := h3\<rparr>)" using agrees_heap [OF f(3), of h3] by simp
  ultimately have "\<exists>s' as. fat16_open s (part # part' # parts) FILE_MODE_READ = Some (Inl (- EIO), s') \<and> agrees (s\<lparr>k_heap := k_heap s'\<rparr>) (k_drive s) s'
       \<and> length as = 4 \<and> grown heap_live (k_heap s) as (k_heap s')"
    using f(5) by (intro exI [of _ "s2\<lparr>k_heap := h3\<rparr>"] exI [of _ as]) simp
  moreover have "fat16_open s (part # part' # parts) FILE_MODE_WRITE = fat16_open s [part] FILE_MODE_WRITE"
    by (simp add: fat16_open_def fat16_open_write_def)
  ultimately show ?thesis using open_deep_fails by blast
qed

text \<open>A volume with the directory \<^verbatim>\<open>b\<close> in the cluster 2, which has the file \<^verbatim>\<open>a.txt\<close>.\<close>

definition demo_directory :: fat_directory_item where
  "demo_directory = (decode_item (replicate 32 0))\<lparr>di_filename := 0x42 # replicate 7 0x20, di_ext := replicate 3 0x20, di_attribute := 0x10,
     di_low_16_bits_first_cluster := 2\<rparr>"

definition demo_inner :: fat_directory_item where
  "demo_inner = fresh_item (0x41 # replicate 7 0x20) [0x54, 0x58, 0x54]"

definition demo_tree :: kstate where
  "demo_tree = put_private (demo_state (write_bytes (write_bytes (write_bytes (write_bytes (\<lambda>a. 0) 102404 (bytes16 0xFFFF)) 233476 (bytes16 0xFFFF))
       364544 (encode_item demo_directory)) 366592 (encode_item demo_inner)))
     (demo_private\<lparr>fp_root_directory := (fp_root_directory demo_private)\<lparr>fd_item := demo_directory # replicate 63 (decode_item (replicate 32 0)), fd_total := 1\<rparr>\<rparr>)"

lemma demo_tree_volume: "ready demo_tree" "same_volume (demo_state d) demo_tree" "items_of demo_tree = demo_directory # replicate 63 (decode_item (replicate 32 0))"
  "fd_total (root_of demo_tree) = 1" "k_heap demo_tree = k_heap demo_volume"
proof -
  have p: "priv demo_tree = demo_private\<lparr>fp_root_directory := (fp_root_directory demo_private)\<lparr>fd_item := demo_directory # replicate 63 (decode_item (replicate 32 0)), fd_total := 1\<rparr>\<rparr>"
    by (simp add: demo_tree_def priv_def)
  show "items_of demo_tree = demo_directory # replicate 63 (decode_item (replicate 32 0))" "fd_total (root_of demo_tree) = 1" by (simp_all add: p)
  show v: "same_volume (demo_state d) demo_tree" for d by (simp add: same_volume_def p) (simp add: demo_state_def priv_def demo_tree_def put_private_def)
  note G = same_volume_geometry [OF v [of "\<lambda>a. 0"]]
  show "ready demo_tree" using demo_ready [of "\<lambda>a. 0"] unfolding ready_def geometry_ok_def G demo_geometry p
    by (simp add: demo_tree_def demo_state_def priv_def streams_ok_def demo_private_def)
  show "k_heap demo_tree = k_heap demo_volume" by (simp add: demo_tree_def demo_state_def)
qed

lemma demo_tree_subdirectory: "subdirectory demo_tree 0 2 [demo_inner, decode_item (replicate 32 0)]"
proof -
  note G = same_volume_geometry [OF demo_tree_volume(2) [of "\<lambda>a. 0"], unfolded demo_geometry]
  let ?d = "k_drive demo_tree"
  have wf: "wf_item demo_inner" "wf_item demo_directory" "length (encode_item demo_inner) = 32" "length (encode_item demo_directory) = 32"
    by (simp_all add: wf_item_def demo_inner_def demo_directory_def fresh_item_def length_encode_item)
  have d: "?d = write_bytes (write_bytes (write_bytes (write_bytes (\<lambda>a. 0) 102404 (bytes16 0xFFFF)) 233476 (bytes16 0xFFFF))
       364544 (encode_item demo_directory)) 366592 (encode_item demo_inner)" by (simp add: demo_tree_def)
  have b0: "bytes_at ?d 366592 32 = encode_item demo_inner" using bytes_at_write_bytes [of _ 366592 "encode_item demo_inner"] wf(3) unfolding d by simp
  have "?d x = 0" if "366624 \<le> x" "x < 366656" for x unfolding d using that wf(3,4) by (simp add: write_bytes_outside bytes16_def)
  then have b1: "bytes_at ?d 366624 32 = encode_item (decode_item (replicate 32 0))" unfolding zero_item(1) by (intro nth_equalityI) (simp_all del: upt_rec_numeral)
  have "word16_at ?d 102404 = 0xFFFF" unfolding d by (simp add: word16_at_other wf)
  then have "file_chain demo_tree [2]" by (simp add: file_chain_def fat_at_def fat_off_def G)
  moreover have "reach demo_tree 2" "csize demo_tree = 65536" "data_pos demo_tree 2 = 366592" by (simp_all add: reach_def csize_def data_pos_def G)
  moreover have "bytes_at ?d (366592 + 32 * k) 32 = encode_item ([demo_inner, decode_item (replicate 32 0)] ! k)
     \<and> wf_item ([demo_inner, decode_item (replicate 32 0)] ! k)" if "k < 2" for k
    using that b0 b1 wf(1) zero_item(2) by (cases k) (simp_all del: upt_rec_numeral)
  moreover have "items_of demo_tree ! 0 = demo_directory" by (simp add: demo_tree_volume)
  moreover have "di_attribute demo_directory AND 0x10 \<noteq> 0" "sint (fat16_get_first_cluster demo_directory) = int 2"
    by (simp_all add: demo_directory_def fat16_get_first_cluster_def decode_item_def le16_def replicate_demo)
  moreover have "live_count [demo_inner, decode_item (replicate 32 0)] = 1" "di_filename (decode_item (replicate 32 0)) ! 0 = 0"
    by (simp_all add: demo_inner_def fresh_item_def decode_item_def)
  ultimately show ?thesis unfolding subdirectory_def by (simp del: upt_rec_numeral live_count.simps)
qed

theorem fat16_open_subdirectory_fails_witness:
  "subdirectory demo_tree 0 2 [demo_inner, decode_item (replicate 32 0)] \<and> same_name (item_name demo_inner) (dotted [0x61] [0x74, 0x78, 0x74])
     \<and> (\<exists>s'. fat16_open demo_tree [demo_part_b, demo_part] FILE_MODE_READ = Some (Inl (- EIO), s'))"
proof -
  have nm: "same_name (item_name (items_of demo_tree ! j)) [0x62] \<longleftrightarrow> j = 0" if "int j < fd_total (root_of demo_tree)" for j
    using that by (simp add: demo_tree_volume item_name_def demo_directory_def dotted_def same_name_def visible_char_def tolower_def)
  have "heap_slack (k_heap demo_tree) 5" using ko.slack_mono [OF demo_heap_room, of 5] by (simp add: demo_tree_volume)
  moreover have "ents demo_tree = 64" using same_volume_geometry(4) [OF demo_tree_volume(2)] by (simp add: demo_geometry)
  ultimately obtain s' where "fat16_open demo_tree [demo_part_b, demo_part] FILE_MODE_READ = Some (Inl (- EIO), s')"
    using fat16_open_subdirectory_fails [OF demo_tree_volume(1) demo_b(1) [unfolded demo_b(3)] _ _ _ _ _ demo_tree_subdirectory, of demo_part "[]"] nm
    by (auto simp: demo_tree_volume(4))
  moreover have "same_name (item_name demo_inner) (dotted [0x61] [0x74, 0x78, 0x74])"
    by (simp add: item_name_def demo_inner_def fresh_item_def dotted_def same_name_def visible_char_def tolower_def)
  ultimately show ?thesis using demo_tree_subdirectory by blast
qed

end
