(* ===== verification/Heap_Runs.thy ===== *)
theory Heap_Runs
  imports Paging
begin

text \<open>
  Objects of several blocks. A program, its stack and the structure of a process take more than one block of the kernel heap, so
  that free blocks are not enough: they have to be next to each other. \<open>open_run h n\<close> says that \<open>n\<close> free blocks of \<open>h\<close> are. First fit
  takes an object from such a run or from before it, and objects of one block that are allocated in between leave some part of a long
  run whole.
\<close>

section \<open>Runs of free blocks\<close>

definition open_run :: "heap \<Rightarrow> nat \<Rightarrow> bool" where
  "open_run h n \<longleftrightarrow> (\<exists>s. free_run (ht_entries (h_table h)) s n)"

lemma free_run_shorter: "free_run es s (n + k) \<Longrightarrow> free_run es s n" "free_run es s (n + k) \<Longrightarrow> free_run es (s + n) k"
  by (auto simp: free_run_def)

lemma open_run_mono: "open_run h n \<Longrightarrow> j \<le> n \<Longrightarrow> open_run h j"
  unfolding open_run_def using free_run_shorter(1) by (metis le_Suc_ex)

text \<open>What first fit leaves of a run.\<close>

lemma free_run_rest:
  assumes "free_run es s n" and "free_run es t (n + k)" and "s \<le> t"
  shows "\<exists>u. free_run (mark_run es s n) u k"
proof -
  let ?u = "max t (s + n)"
  have "free_run (mark_run es s n) ?u k"
    unfolding free_run_def
  proof (intro conjI allI impI)
    show "?u + k \<le> length (mark_run es s n)" using assms by (auto simp: free_run_def)
    fix j assume j: "?u \<le> j \<and> j < ?u + k"
    then have "t \<le> j" "j < t + (n + k)" "\<not> (s \<le> j \<and> j < s + n)" using assms(3) by auto
    moreover have "j < length es" using calculation assms(2) by (simp add: free_run_def)
    ultimately show "heap_get_entry_type (mark_run es s n ! j) = 0" using assms(2) by (auto simp: free_run_def)
  qed
  then show ?thesis ..
qed

lemma free_blocks_mark:
  assumes "table_wf es" and "free_run es s n"
  shows "card (free_blocks es) = n + card (free_blocks (mark_run es s n))"
proof -
  have len: "s + n \<le> length es" using assms(2) by (simp add: free_run_def)
  have z: "es ! j = 0" if "s \<le> j" "j < s + n" for j by (rule free_run_zero [OF assms that])
  have "free_blocks es = free_blocks (mark_run es s n) \<union> {s..<s + n}"
    using z len by (auto simp: free_blocks_def split: if_splits)
  moreover have "free_blocks (mark_run es s n) \<inter> {s..<s + n} = {}" using len by (auto simp: free_blocks_def)
  ultimately show ?thesis by (simp add: card_Un_disjoint)
qed

section \<open>Allocating an object of several blocks\<close>

text \<open>The blocks of an object hold its bytes.\<close>

lemma blocks_of_covers:
  assumes "unat sz < 2 ^ 31"
  shows "unat sz \<le> 4096 * blocks_of sz" "4096 * blocks_of sz < unat sz + 4096"
proof -
  have m: "unat (sz mod 4096) = unat sz mod 4096" by (simp add: unat_mod)
  have "unat (heap_align_value_to_upper sz) = (if unat sz mod 4096 = 0 then unat sz else unat sz - unat sz mod 4096 + 4096)"
  proof (cases "unat sz mod 4096 = 0")
    case True
    then have "sz mod 4096 = 0" using m by (simp add: word_unat_eq_iff)
    with True show ?thesis by (simp add: heap_align_value_to_upper_def)
  next
    case False
    then have "sz mod 4096 \<noteq> 0" using m by (auto simp: word_unat_eq_iff)
    moreover have "unat (sz - sz mod 4096) = unat sz - unat sz mod 4096"
      using m by (subst unat_sub) (simp_all add: word_le_nat_alt)
    moreover have "unat sz - unat sz mod 4096 + 4096 < 2 ^ 32" using assms by simp
    then have "unat (sz - sz mod 4096 + 4096) = unat sz - unat sz mod 4096 + 4096"
      using calculation(2) by (subst unat_add_lem [THEN iffD1]) simp_all
    ultimately show ?thesis using False by (simp add: heap_align_value_to_upper_def)
  qed
  moreover have b: "blocks_of sz = unat (heap_align_value_to_upper sz) div 4096" by (simp add: blocks_of_def unat_div)
  define q r where "q = unat sz div 4096" and "r = unat sz mod 4096"
  have qr: "unat sz = 4096 * q + r" "r < 4096" by (simp_all add: q_def r_def)
  ultimately have "unat (heap_align_value_to_upper sz) = (if r = 0 then 4096 * q else 4096 * (q + 1))"
    unfolding r_def [symmetric] qr(1) by (simp only: add_diff_cancel_right' distrib_left) simp
  then have "4096 * blocks_of sz = 4096 * (if r = 0 then q else q + 1)" unfolding b by (cases "r = 0") simp_all
  with qr show "unat sz \<le> 4096 * blocks_of sz" "4096 * blocks_of sz < unat sz + 4096" by auto
qed

text \<open>First fit on a heap with a run: the object, what stays of the run, and that releasing is undone exactly.\<close>

lemma malloc_run:
  assumes "heap_inv h" and "0 < blocks_of sz" and "open_run h (blocks_of sz + j)"
  obtains a h' where "heap_malloc h sz = Some (a, h')" "open_run h' j" "h_saddr h' = h_saddr h" "a \<noteq> 0"
    "card (free_blocks (ht_entries (h_table h))) = blocks_of sz + card (free_blocks (ht_entries (h_table h')))"
proof -
  let ?es = "ht_entries (h_table h)" and ?n = "heap_align_value_to_upper sz div 4096"
  from assms(1) have ok: "table_ok h" "table_wf ?es" by (simp_all add: heap_inv_def)
  have n: "unat ?n = blocks_of sz" "uint ?n = int (blocks_of sz)" by (simp_all add: blocks_of_def)
  from assms(3) obtain t where t: "free_run ?es t (blocks_of sz + j)" by (auto simp: open_run_def)
  then have t0: "free_run ?es t (unat ?n)" unfolding n(1) by (rule free_run_shorter)
  from heap_get_start_block_first_fit [OF ok(1) _ t0] assms(2) obtain s where
    s: "heap_get_start_block h ?n = Some (int s)" "free_run ?es s (blocks_of sz)" "\<forall>r < s. \<not> free_run ?es r (blocks_of sz)" unfolding n(1) by blast
  have st: "s \<le> t" using s(3) t0 unfolding n(1) by (meson not_le)
  have len: "s + unat ?n \<le> length ?es" using s(2) by (simp add: n(1) free_run_def)
  let ?h' = "with_entries h (mark_run ?es s (blocks_of sz))"
  have "heap_malloc h sz = Some (heap_block_to_address h (int s), ?h')"
    using heap_mark_blocks_taken_run [OF len] assms(2) s(1) by (simp add: heap_malloc_def Let_def heap_malloc_blocks_def n)
  moreover have "open_run ?h' j" using free_run_rest [OF s(2) t st] by (simp add: open_run_def)
  moreover have "s < ht_total (h_table h)" using len assms(2) ok(1) by (simp add: n(1) table_ok_def)
  then have "heap_block_to_address h (int s) \<noteq> 0" by (rule block_address_nonzero [OF assms(1)])
  moreover have "card (free_blocks ?es) = blocks_of sz + card (free_blocks (ht_entries (h_table ?h')))" using free_blocks_mark [OF ok(2) s(2)] by simp
  ultimately show thesis using that by simp
qed

lemma kzalloc_run:
  assumes "page_slack h (blocks_of sz + k)" and "0 < blocks_of sz" and "open_run h (blocks_of sz + j)"
  obtains a h' where "kzalloc h sz = Some (a, h')" "a \<noteq> 0" "aligned a" "page_slack h' k" "open_run h' j"
    "heap_live h' = insert (a, blocks_of sz) (heap_live h)" "\<And>n. (a, n) \<notin> heap_live h"
    "\<And>b n. (b, n) \<in> heap_live h \<Longrightarrow> extent a (blocks_of sz) \<inter> extent b n = {}"
proof -
  from assms(1) have inv: "heap_inv h" and al: "aligned (h_saddr h)" by (simp_all add: page_slack_def heap_slack_def)
  obtain a h' where a: "heap_malloc h sz = Some (a, h')" "open_run h' j" "h_saddr h' = h_saddr h" "a \<noteq> 0"
    "card (free_blocks (ht_entries (h_table h))) = blocks_of sz + card (free_blocks (ht_entries (h_table h')))"
    by (rule malloc_run [OF inv assms(2,3)])
  have "heap_room h sz" using assms(2) open_run_mono [OF assms(3), of "blocks_of sz"] by (simp add: heap_room_def open_run_def)
  note F = kh.alloc_fresh [OF inv this a(1)]
  have sl: "page_slack h' k" using assms(1) F(1) a(3,5) by (simp add: page_slack_def heap_slack_def)
  have lv: "(a, blocks_of sz) \<in> heap_live h'" using F(2) by simp
  have "extent a (blocks_of sz) \<inter> extent b n = {}" if "(b, n) \<in> heap_live h" for b n
    using ph.live_disjoint [OF sl lv, of b n] that F(2,3) by auto
  moreover have "aligned a" using ph.live_aligned [OF sl lv] by simp
  moreover have "kzalloc h sz = Some (a, h')" using a(1,4) by (simp add: kzalloc_def kmalloc_def)
  ultimately show thesis using that a(2,4) sl F(2,3) by blast
qed

text \<open>The memory of a fresh object is zero, and that of the live ones stays.\<close>

lemma kzalloc_ram_run:
  assumes "page_slack h (blocks_of sz + k)" and "0 < blocks_of sz" and "open_run h (blocks_of sz + j)" and "unat sz < 2 ^ 31"
  obtains a h' m' where "kzalloc_ram h m sz = Some (a, h', m')" "a \<noteq> 0" "aligned a" "page_slack h' k" "open_run h' j"
    "heap_live h' = insert (a, blocks_of sz) (heap_live h)" "\<And>n. (a, n) \<notin> heap_live h"
    "\<And>b n. (b, n) \<in> heap_live h \<Longrightarrow> extent a (blocks_of sz) \<inter> extent b n = {}"
    "m' = store_bytes m a (replicate (unat sz) 0)" "keeps h m m'"
proof -
  obtain a h' where a: "kzalloc h sz = Some (a, h')" "a \<noteq> 0" "aligned a" "page_slack h' k" "open_run h' j"
    "heap_live h' = insert (a, blocks_of sz) (heap_live h)" "\<And>n. (a, n) \<notin> heap_live h"
    "\<And>b n. (b, n) \<in> heap_live h \<Longrightarrow> extent a (blocks_of sz) \<inter> extent b n = {}" using kzalloc_run [OF assms(1-3)] by metis
  let ?m' = "store_bytes m a (replicate (unat sz) 0)"
  have "{unat a..<unat a + length (replicate (unat sz) (0 :: byte))} \<subseteq> extent a (blocks_of sz)"
    using blocks_of_covers(1) [OF assms(4)] by (auto simp: extent_def)
  then have "unchanged m ?m' (extent a (blocks_of sz))" by (rule unchanged_mono [OF unchanged_store])
  then have "keeps h m ?m'" by (rule keeps_unchanged) (rule a(8))
  then show thesis using that a by (simp add: kzalloc_ram_def)
qed

section \<open>Objects of one block in a run\<close>

text \<open>
  Of \<open>m + 1\<close> runs of \<open>n\<close> blocks, \<open>m\<close> taken blocks leave one free.
\<close>

lemma segment_pigeonhole:
  fixes T :: "nat set"
  assumes "finite T" and "card T \<le> m"
  shows "\<exists>i \<le> m. \<forall>j < n. t + i * n + j \<notin> T"
proof (rule ccontr)
  assume "\<not> ?thesis"
  then have "\<forall>i \<in> {..m}. \<exists>j < n. t + i * n + j \<in> T" by auto
  then obtain f where f: "\<And>i. i \<le> m \<Longrightarrow> f i < n \<and> t + i * n + f i \<in> T" by (metis atMost_iff)
  have "inj_on (\<lambda>i. t + i * n + f i) {..m}"
  proof (rule inj_onI)
    fix i k assume "i \<in> {..m}" "k \<in> {..m}" and eq: "t + i * n + f i = t + k * n + f k"
    with f have "f i < n" "f k < n" "f i + n * i = f k + n * k" by (auto simp: mult.commute)
    then show "i = k" by (metis add.commute div_mult_self4 div_less add_cancel_right_left gr_zeroI not_less_zero)
  qed
  moreover have "(\<lambda>i. t + i * n + f i) ` {..m} \<subseteq> T" using f by auto
  ultimately have "card {..m} \<le> card T" using card_inj_on_le [OF _ _ assms(1)] by blast
  with assms(2) show False by simp
qed

text \<open>A heap with few taken blocks has a long run.\<close>

lemma slack_run:
  assumes "heap_slack h k" and "(ht_total (h_table h) - k + 1) * n \<le> ht_total (h_table h)"
  shows "open_run h n"
proof -
  let ?es = "ht_entries (h_table h)" and ?N = "ht_total (h_table h)"
  have len: "length ?es = ?N" and k: "k \<le> card (free_blocks ?es)" using assms(1) by (simp_all add: heap_slack_def heap_inv_def table_ok_def)
  let ?T = "{..<?N} - free_blocks ?es"
  have "free_blocks ?es \<subseteq> {..<?N}" using len by (auto simp: free_blocks_def)
  then have "card ?T = ?N - card (free_blocks ?es)" by (simp add: card_Diff_subset finite_subset)
  then have "card ?T \<le> ?N - k" using k by simp
  then obtain i where i: "i \<le> ?N - k" "\<forall>j < n. 0 + i * n + j \<notin> ?T" using segment_pigeonhole [of ?T] by (metis finite_Diff finite_lessThan)
  have "Suc i * n \<le> (?N - k + 1) * n" by (rule mult_le_mono1) (use i(1) in simp)
  also have "\<dots> \<le> ?N" by (rule assms(2))
  finally have bd: "i * n + n \<le> ?N" by (simp only: mult_Suc add.commute)
  have "?es ! j = 0" if "i * n \<le> j" "j < i * n + n" for j
    using i(2) [rule_format, of "j - i * n"] that bd by (auto simp: free_blocks_def)
  then have "free_run ?es (i * n) n" using bd len by (simp add: free_run_def heap_get_entry_type_def)
  then show ?thesis by (auto simp: open_run_def)
qed

text \<open>A block that is taken belongs to a live object.\<close>

lemma taken_block:
  assumes "heap_inv h" and "i < ht_total (h_table h)" and "ht_entries (h_table h) ! i \<noteq> 0"
  obtains a n where "(a, n) \<in> heap_live h" "unat a \<le> unat (h_saddr h) + 4096 * i" "unat (h_saddr h) + 4096 * i < unat a + 4096 * n"
    "unat a = unat (h_saddr h) + 4096 * i \<or> n \<noteq> 1"
proof -
  let ?es = "ht_entries (h_table h)"
  from assms have "i < length ?es" "table_wf ?es" by (simp_all add: heap_inv_def table_ok_def)
  with assms(3) obtain s n where s: "(s, n) \<in> allocs ?es" "s \<le> i" "i < s + n" unfolding table_wf_def by fastforce
  let ?a = "heap_block_to_address h (int s)"
  have "unat ?a = unat (h_saddr h) + 4096 * s" by (rule unat_block_address [OF assms(1) alloc_block_less [OF assms(1) s(1)]])
  moreover have "(?a, n) \<in> heap_live h" using s(1) by (auto simp: heap_live_def)
  moreover have "s = i \<or> n \<noteq> 1" using s(2,3) by linarith
  ultimately show thesis using that [of ?a n] s(2,3) by simp
qed

text \<open>A block that belongs to a live object is taken.\<close>

lemma live_taken:
  assumes "heap_inv h" and "(a, n) \<in> heap_live h" and "unat a \<le> unat (h_saddr h) + 4096 * i" "unat (h_saddr h) + 4096 * i < unat a + 4096 * n"
  shows "ht_entries (h_table h) ! i \<noteq> 0"
proof -
  obtain s where s: "(s, n) \<in> allocs (ht_entries (h_table h))" "unat a = unat (h_saddr h) + 4096 * s" using live_block [OF assms(1,2)] by metis
  with assms(3,4) have "s \<le> i" "i < s + n" by auto
  with allocsD(3) [OF s(1)] show ?thesis by simp
qed

lemma run_survives:
  assumes "heap_inv h" and "heap_inv h'" and "h_saddr h' = h_saddr h" and "ht_total (h_table h') = ht_total (h_table h)"
    and "heap_live h' \<subseteq> heap_live h \<union> (\<lambda>a. (a, 1)) ` set as" and "open_run h (Suc (length as) * n)"
  shows "open_run h' n"
proof -
  let ?es = "ht_entries (h_table h)" and ?es' = "ht_entries (h_table h')"
  from assms(6) obtain t where t: "free_run ?es t (Suc (length as) * n)" by (auto simp: open_run_def)
  have len: "t + Suc (length as) * n \<le> length ?es" "length ?es = ht_total (h_table h)" "length ?es' = length ?es"
    using t assms(1,2,4) by (simp_all add: free_run_def heap_inv_def table_ok_def)
  define T where "T = {i. t \<le> i \<and> i < t + Suc (length as) * n \<and> ?es' ! i \<noteq> 0}"
  have "\<exists>a \<in> set as. unat a = unat (h_saddr h) + 4096 * i" if "i \<in> T" for i
  proof -
    have i: "t \<le> i" "i < t + Suc (length as) * n" "?es' ! i \<noteq> 0" "i < ht_total (h_table h')" using that len assms(4) by (auto simp: T_def)
    obtain a k where a: "(a, k) \<in> heap_live h'" "unat a \<le> unat (h_saddr h) + 4096 * i" "unat (h_saddr h) + 4096 * i < unat a + 4096 * k"
      "unat a = unat (h_saddr h) + 4096 * i \<or> k \<noteq> 1" using taken_block [OF assms(2) i(4,3)] unfolding assms(3) by metis
    have "?es ! i = 0" by (rule free_run_zero [OF _ t i(1,2)]) (use assms(1) in \<open>simp add: heap_inv_def\<close>)
    then have "(a, k) \<notin> heap_live h" using live_taken [OF assms(1) _ a(2,3)] by blast
    with a(1,4) assms(5) show ?thesis by auto
  qed
  then have "(\<lambda>i. unat (h_saddr h) + 4096 * i) ` T \<subseteq> unat ` set as" by force
  then have "card T \<le> card (unat ` set as)" using card_image [of "\<lambda>i. unat (h_saddr h) + 4096 * i" T] card_mono by (metis (no_types, lifting) List.finite_set add_left_imp_eq finite_imageI inj_onI mult_cancel1 zero_neq_numeral)
  also have "\<dots> \<le> length as" by (metis card_image_le card_length le_trans List.finite_set)
  finally have "card T \<le> length as" .
  moreover have "finite T" by (rule finite_subset [of _ "{..<t + Suc (length as) * n}"]) (auto simp: T_def)
  ultimately obtain i where i: "i \<le> length as" "\<forall>j < n. t + i * n + j \<notin> T" using segment_pigeonhole by metis
  have bd: "i * n + n \<le> Suc (length as) * n" using mult_le_mono1 [of "Suc i" "Suc (length as)" n] i(1) by (simp add: add.commute)
  have "?es' ! j = 0" if "t + i * n \<le> j" "j < t + i * n + n" for j
  proof -
    have "j \<notin> T" using i(2) [rule_format, of "j - (t + i * n)"] that by simp
    moreover have "j < t + Suc (length as) * n" "t \<le> j" using that bd by linarith+
    ultimately show ?thesis unfolding T_def by blast
  qed
  moreover have "t + i * n + n \<le> length ?es'" using len(1,3) bd by linarith
  ultimately have "free_run ?es' (t + i * n) n" by (auto simp: free_run_def heap_get_entry_type_def)
  then show ?thesis by (auto simp: open_run_def)
qed

section \<open>Address spaces in a run\<close>

text \<open>An object of one block takes at most one block of a run; \<open>runs h k\<close> is kept with \<open>k\<close> counted down.\<close>

definition runs :: "heap \<Rightarrow> nat \<Rightarrow> bool" where
  "runs h k \<longleftrightarrow> heap_inv h \<and> open_run h k"

lemma runs_mono: "runs h n \<Longrightarrow> j \<le> n \<Longrightarrow> runs h j"
  unfolding runs_def using open_run_mono by blast

lemma runs_small:
  assumes "runs h (Suc k)" and "small_size sz" and "kzalloc_ram h m sz = Some (a, h', m')"
  shows "runs h' k"
proof -
  note b = blocks_of_small [OF assms(2)]
  have inv: "heap_inv h" and run: "open_run h (blocks_of sz + k)" using assms(1) b by (simp_all add: runs_def)
  obtain c h1 where c: "heap_malloc h sz = Some (c, h1)" "open_run h1 k" "c \<noteq> 0" using malloc_run [OF inv _ run] b by (metis zero_less_one)
  have "heap_room h sz" using b open_run_mono [OF run, of "blocks_of sz"] by (simp add: heap_room_def open_run_def)
  then have "heap_inv h1" using kh.alloc_fresh(1) [OF inv _ c(1)] by blast
  moreover have "h' = h1" using assms(3) c by (auto simp: kzalloc_ram_def kzalloc_def kmalloc_def)
  ultimately show ?thesis using c(2) by (simp add: runs_def)
qed

lemma for_loop_counts:
  assumes "\<And>i x y k. f i x = Some y \<Longrightarrow> P x (Suc k) \<Longrightarrow> P y k" and "for_loop a n f x = Some y" and "P x (n + k)"
  shows "P y k"
  using assms(2,3)
proof (induction n arbitrary: a x)
  case (Suc n)
  from Suc.prems(1) obtain z where z: "f a x = Some z" "for_loop (Suc a) n f z = Some y" by (auto simp: bind_Some_iff)
  have "P z (n + k)" using assms(1) [OF z(1)] Suc.prems(2) by simp
  with Suc.IH z(2) show ?case by blast
qed simp

lemma runs_paging_new:
  assumes "paging_new_4gb h m flags = Some (c, h', m')" and "runs h (1026 + k)"
  shows "runs h' k"
proof -
  from assms(1) obtain d h1 m1 h2 m2 off m3 where d: "kzalloc_ram h m 4096 = Some (d, h1, m1)"
    "for_loop 0 1024 (new_4gb_step (ucast flags) d) (h1, m1, 0) = Some (h2, m2, off)" "kzalloc_ram h2 m2 4 = Some (c, h', m3)"
    by (auto simp: paging_new_4gb_def bind_Some_iff Let_def split: if_splits)
  have "runs h1 (1024 + Suc k)" using runs_small [OF _ small_4096(1) d(1)] assms(2) by simp
  then have "(\<lambda>(g, _, _). runs g) (h2, m2, off) (Suc k)"
    by (intro for_loop_counts [where P = "\<lambda>(g, _, _). runs g", OF _ d(2)])
       (auto simp: new_4gb_step_def bind_Some_iff Let_def split: if_splits intro: runs_small [OF _ small_4096(1)])
  then have "runs h2 (Suc k)" by simp
  then show ?thesis by (rule runs_small [OF _ small_4096(2) d(3)])
qed

lemma runs_fresh: "runs page_demo 3000"
proof -
  have "heap_inv page_demo" using page_demo_slack by (simp add: page_slack_def heap_slack_def)
  moreover have "free_run (ht_entries (h_table page_demo)) 0 3000" by (simp add: page_demo_def free_run_def heap_get_entry_type_def)
  ultimately show ?thesis unfolding runs_def open_run_def by blast
qed

end
