(* ===== verification/Heap_Pool.thy ===== *)
theory Heap_Pool
  imports Mount Heap_Runs
begin

text \<open>
  The pool of the kernel heap, its start and its number of blocks, stays the same: the file operations reach the heap through
  \<^verbatim>\<open>kzalloc\<close> and \<^verbatim>\<open>kfree\<close> alone. With it, runs of free blocks outlast the objects that the file operations leave.
\<close>

section \<open>The heap\<close>

definition pool :: "heap \<Rightarrow> u32 \<times> nat" where
  "pool h = (h_saddr h, ht_total (h_table h))"

abbreviation k_pool :: "kstate \<Rightarrow> u32 \<times> nat" where "k_pool s \<equiv> pool (k_heap s)"

lemma kzalloc_pool: "kzalloc h sz = Some (a, h') \<Longrightarrow> pool h' = pool h"
  by (auto simp: pool_def kzalloc_def kmalloc_def heap_malloc_def heap_malloc_blocks_def heap_mark_blocks_taken_def Let_def run_iff split: if_splits)

lemma kfree_pool: "kfree h a = Some h' \<Longrightarrow> pool h' = pool h"
  by (auto simp: pool_def kfree_def heap_free_def heap_mark_blocks_free_def run_iff)

lemma k_zalloc_pool: "k_zalloc s sz = Some (a, s') \<Longrightarrow> k_pool s' = k_pool s"
  by (auto simp: k_zalloc_def bind_Some_iff dest: kzalloc_pool)

lemma k_free_pool: "k_free s a = Some s' \<Longrightarrow> k_pool s' = k_pool s"
  by (auto simp: k_free_def bind_Some_iff dest: kfree_pool)

lemma run_survives_pool:
  assumes "heap_inv h" and "heap_inv h'" and "pool h' = pool h" and "heap_live h' \<subseteq> heap_live h \<union> (\<lambda>a. (a, 1)) ` set as"
    and "open_run h (Suc (length as) * n)"
  shows "open_run h' n"
  using run_survives [OF assms(1,2) _ _ assms(4,5)] assms(3) by (simp add: pool_def)

section \<open>Mounting\<close>

lemma new_stream_pool: "new_stream s = Some (x, s') \<Longrightarrow> k_pool s' = k_pool s"
  by (auto simp: new_stream_def diskstreamer_new_def bind_Some_iff split: option.splits if_splits dest: kzalloc_pool)

lemma init_private_pool: "fat16_init_private s a = Some (p, s') \<Longrightarrow> k_pool s' = k_pool s"
  by (auto simp: fat16_init_private_def bind_Some_iff split: if_splits dest!: new_stream_pool)

lemma resolve_out_pool: "resolve_out s a st res = Some (r, s') \<Longrightarrow> k_pool s' = k_pool s"
  by (auto simp: resolve_out_def diskstreamer_close_def bind_Some_iff Let_def split: if_splits option.splits dest!: k_free_pool kfree_pool)

lemma total_items_pool: "fat16_get_total_items_for_directory s d = Some (n, s') \<Longrightarrow> k_pool s' = k_pool s"
  by (auto simp: fat16_get_total_items_for_directory_def diskstreamer_seek_def bind_Some_iff Let_def split: if_splits)

lemma root_directory_pool: "fat16_get_root_directory s = Some (r, s') \<Longrightarrow> k_pool s' = k_pool s"
  by (auto simp: fat16_get_root_directory_def diskstreamer_seek_def bind_Some_iff Let_def split: if_splits dest!: total_items_pool k_zalloc_pool)

lemma resolve_pool: "fat16_resolve s = Some (r, s') \<Longrightarrow> k_pool s' = k_pool s"
  by (auto simp: fat16_resolve_def bind_Some_iff Let_def split: if_splits option.splits
      dest!: resolve_out_pool root_directory_pool new_stream_pool init_private_pool k_zalloc_pool)

lemma search_pool:
  assumes "disk_search_and_init kernel_ops v1 = Some v2" and "v_filesystems v1 = Some FAT16 # replicate 11 None"
  shows "k_pool (v_k v2) = k_pool (v_k v1)"
proof -
  have "resolve_loop kernel_ops (replicate n None) s = Some (None, s)" for n s by (induction n) simp_all
  then show ?thesis using assms
    by (auto simp: disk_search_and_init_def fs_resolve_def bind_Some_iff fat16_fs_sel split: if_splits dest!: resolve_pool)
qed

section \<open>Paths\<close>

lemma parse_path_part_pool: "pathparser_parse_path_part h path = Some (x, path', h') \<Longrightarrow> pool h' = pool h"
  by (auto simp: pathparser_parse_path_part_def pathparser_get_path_part_def bind_Some_iff Let_def split: if_splits option.splits prod.splits
      dest!: kzalloc_pool kfree_pool)

lemma parse_parts_pool: "parse_parts h path = Some (parts, h') \<Longrightarrow> pool h' = pool h"
proof (induction h path arbitrary: parts h' rule: parse_parts.induct)
  case (1 h path)
  from "1.prems" obtain part path1 h1 where p: "pathparser_parse_path_part h path = Some (part, path1, h1)"
    by (subst (asm) parse_parts.simps) (auto split: option.splits)
  note h1 = parse_path_part_pool [OF p]
  show ?case
  proof (cases part)
    case None
    with "1.prems" p h1 show ?thesis by (subst (asm) parse_parts.simps) simp
  next
    case (Some x)
    with "1.prems" p obtain parts' where q: "parse_parts h1 path1 = Some (parts', h')" by (subst (asm) parse_parts.simps) (auto split: option.splits)
    from "1.IH" [OF p refl _ refl q] Some h1 show ?thesis by simp
  qed
qed

lemma parse_pool: "pathparser_parse h path = Some (r, h') \<Longrightarrow> pool h' = pool h"
  by (auto simp: pathparser_parse_def pathparser_create_root_def bind_Some_iff split: if_splits option.splits prod.splits
      dest!: kzalloc_pool parse_path_part_pool parse_parts_pool)

section \<open>Opening and closing files\<close>

lemma fat_entry_pool: "fat16_get_fat_entry s c = Some (e, s') \<Longrightarrow> k_pool s' = k_pool s"
  by (auto simp: fat16_get_fat_entry_def bind_Some_iff Let_def case_prod_unfold split: if_splits option.split_asm)

lemma cluster_walk_pool: "cluster_walk s k c = Some (r, s') \<Longrightarrow> k_pool s' = k_pool s"
  by (induction s k c rule: cluster_walk.induct) (auto simp: bind_Some_iff split: if_splits dest: fat_entry_pool)

lemma cluster_for_offset_pool: "fat16_get_cluster_for_offset s c off = Some (r, s') \<Longrightarrow> k_pool s' = k_pool s"
  by (auto simp: fat16_get_cluster_for_offset_def bind_Some_iff Let_def split: if_splits dest!: cluster_walk_pool)

lemma read_from_stream_pool:
  assumes "fat16_read_internal_from_stream s c off tot = Some r"
  shows "k_pool (snd (snd r)) = k_pool s"
proof (rule fat16_read_internal_from_stream.raw_induct [where P = "\<lambda>s c off tot r. k_pool (snd (snd r)) = k_pool s", OF _ assms])
  fix f s c off tot r
  assume IH: "\<And>s c off tot r. f s c off tot = Some r \<Longrightarrow> k_pool (snd (snd r)) = k_pool s"
    and run: "fat16_get_cluster_for_offset s c off \<bind> (\<lambda>(cluster_to_use, s1).
      if cluster_to_use < 0 then Some (cluster_to_use, [], s1)
      else dk_fs_private (k_disk s1) \<bind> (\<lambda>private. fp_cluster_read_stream private \<bind> (\<lambda>stream.
        let sz = size_of_cluster_bytes s1 private; offset_from_cluster = off smod sz;
            starting_sector = fat16_cluster_to_sector private cluster_to_use;
            starting_pos = s32 (starting_sector * dk_sector_size (k_disk s1) + offset_from_cluster);
            total_to_read = if sz < tot then sz else tot;
            (res, stream1) = diskstreamer_seek stream starting_pos
        in if res \<noteq> 0 then Some (res, [], put_private s1 (private\<lparr>fp_cluster_read_stream := Some stream1\<rparr>))
           else diskstreamer_read (k_drive s1) stream1 total_to_read \<bind> (\<lambda>(res1, stream2, out).
             let s2 = put_private s1 (private\<lparr>fp_cluster_read_stream := Some stream2\<rparr>)
             in if res1 \<noteq> 0 then Some (res1, out, s2)
                else if 0 < tot - total_to_read
                then f s2 c (off + total_to_read) (tot - total_to_read) \<bind> (\<lambda>(res2, out2, s3). Some (res2, out @ out2, s3))
                else Some (res1, out, s2))))) = Some r"
  from run show "k_pool (snd (snd r)) = k_pool s"
    by (auto simp: bind_Some_iff Let_def case_prod_unfold split: if_splits dest!: cluster_for_offset_pool IH)
qed

lemma read_internal_pool: "fat16_read_internal s c off tot = Some (r, bs, s') \<Longrightarrow> k_pool s' = k_pool s"
  by (auto simp: fat16_read_internal_def bind_Some_iff dest!: read_from_stream_pool)

lemma free_directory_pool: "fat16_free_directory s d = Some s' \<Longrightarrow> k_pool s' = k_pool s"
  by (auto simp: fat16_free_directory_def bind_Some_iff split: option.splits if_splits dest!: k_free_pool)

lemma item_free_pool: "fat16_fat_item_free s it = Some s' \<Longrightarrow> k_pool s' = k_pool s"
  by (auto simp: fat16_fat_item_free_def bind_Some_iff split: option.splits if_splits fat_item_ptr.splits dest!: k_free_pool free_directory_pool)

lemma load_directory_pool: "fat16_load_fat_directory s it = Some (d, s') \<Longrightarrow> k_pool s' = k_pool s"
  by (auto simp: fat16_load_fat_directory_def bind_Some_iff Let_def split: if_splits
      dest!: k_zalloc_pool total_items_pool free_directory_pool read_internal_pool)

lemma new_item_pool: "fat16_new_fat_item_for_directory_item s it = Some (d, s') \<Longrightarrow> k_pool s' = k_pool s"
  by (auto simp: fat16_new_fat_item_for_directory_item_def fat16_clone_directory_item_def bind_Some_iff Let_def split: if_splits
      dest!: k_zalloc_pool load_directory_pool)

lemma find_item_pool: "find_item_loop s its k i name f = Some (r, s') \<Longrightarrow> k_pool s' = k_pool s"
  by (induction s its k i name f rule: find_item_loop.induct) (auto simp: bind_Some_iff split: if_splits dest: new_item_pool)

lemma entry_loop_pool: "entry_loop s it parts = Some (r, s') \<Longrightarrow> k_pool s' = k_pool s"
  by (induction s it parts rule: entry_loop.induct)
     (auto simp: bind_Some_iff fat16_find_item_in_directory_def split: if_splits fat_item_ptr.splits, metis find_item_pool item_free_pool)

lemma open_read_pool: "fat16_open_read s path = Some (r, s') \<Longrightarrow> k_pool s' = k_pool s"
  by (auto simp: fat16_open_read_def fat16_get_directory_entry_def fat16_find_item_in_directory_def bind_Some_iff split: if_splits list.splits option.splits
      dest!: k_zalloc_pool find_item_pool entry_loop_pool k_free_pool)

lemma new_descriptor_pool: "file_new_descriptor v = Some (r, d, v') \<Longrightarrow> k_pool (v_k v') = k_pool (v_k v)"
  by (auto simp: file_new_descriptor_def bind_Some_iff Let_def put_heap_def split: option.splits if_splits dest: kzalloc_pool)

lemma fopen_pool:
  assumes "fopen kernel_ops v path mode_r = Some (fd, v')" and fs: "dk_filesystem (k_disk (v_k v)) = Some FAT16"
  shows "k_pool (v_k v') = k_pool (v_k v)"
proof -
  from assms(1) obtain res where b: "fopen_body kernel_ops v path mode_r = Some (res, v')" by (auto simp: fopen_def bind_Some_iff)
  then obtain rp h where p: "pathparser_parse (k_heap (v_k v)) path = Some (rp, h)" by (auto simp: fopen_body_def bind_Some_iff)
  note h = parse_pool [OF p]
  let ?v1 = "put_heap v h"
  consider "v' = ?v1" | root :: path_root and r s2 where "fat16_open_read (v_k ?v1) (pr_first root) = Some (r, s2)" "v' = ?v1\<lparr>v_k := s2\<rparr>"
    | root :: path_root and r s2 x d v3 where "fat16_open_read (v_k ?v1) (pr_first root) = Some (r, s2)" "file_new_descriptor (?v1\<lparr>v_k := s2\<rparr>) = Some (x, d, v3)" "v_k v' = v_k v3"
  proof (cases "\<exists>root disk. rp = Some root \<and> pr_first root \<noteq> [] \<and> disk_get (pr_drive_no root) = Some disk")
    case False
    with b p have "v' = ?v1" by (auto simp: fopen_body_def Let_def split: option.split_asm if_split_asm)
    then show thesis by (rule that(1))
  next
    case True
    then obtain root disk where r: "rp = Some root" "pr_first root \<noteq> []" "disk_get (pr_drive_no root) = Some disk" by blast
    have m: "dk_filesystem (k_disk (v_k ?v1)) = Some FAT16" using fs by (simp add: put_heap_def)
    with b p r obtain o2 s2 where o: "fat16_open_read (v_k ?v1) (pr_first root) = Some (o2, s2)"
      by (auto simp: fopen_body_def bind_Some_iff fat16_fs_sel fat16_open_def)
    show thesis
    proof (cases o2)
      case (Inl e)
      with b p r m o have "v' = ?v1\<lparr>v_k := s2\<rparr>" by (simp add: fopen_body_def fat16_fs_sel fat16_open_def)
      with o show thesis using that(2) by blast
    next
      case (Inr q)
      with b p r m o obtain x d v3 where "file_new_descriptor (?v1\<lparr>v_k := s2\<rparr>) = Some (x, d, v3)" "v_k v' = v_k v3"
        by (auto simp: fopen_body_def fat16_fs_sel fat16_open_def bind_Some_iff split: option.split_asm)
      with o show thesis using that(3) by blast
    qed
  qed
  then show ?thesis using h by cases (auto simp: put_heap_def dest!: open_read_pool new_descriptor_pool)
qed

lemma close_pool: "fs_close_fn (kernel_ops fs) s d = Some (r, s') \<Longrightarrow> k_pool s' = k_pool s"
  by (cases fs) (auto simp: fat16_fs_sel fat16_close_def fat16_free_file_descriptor_def bind_Some_iff dest!: item_free_pool k_free_pool)

lemma fclose_pool: "fclose kernel_ops v fd = Some (r, v') \<Longrightarrow> k_pool (v_k v') = k_pool (v_k v)"
  by (auto simp: fclose_def file_free_descriptor_def bind_Some_iff put_heap_def split: if_splits option.split_asm dest!: close_pool kfree_pool)

end
