(* ===== verification/Start_Up.thy ===== *)
theory Start_Up
  imports System_Calls Heap_Pool Gdt
begin

text \<open>
  The start of the kernel, \<^verbatim>\<open>kernel_main\<close> and \<^verbatim>\<open>panic\<close> of \<^verbatim>\<open>src/src/kernel.c\<close>, with the task state segment of
  \<^verbatim>\<open>src/src/task/tss.h\<close>: the tables that the processor reads, the components in the order in which they are initialised, the test
  that reads a file, and the first program.
\<close>

section \<open>Data\<close>

record tss =
  ts_link :: u32
  ts_esp0 :: u32
  ts_ss0 :: u32
  ts_esp1 :: u32
  ts_esp2 :: u32
  ts_ss2 :: u32
  ts_sr3 :: u32
  ts_eip :: u32
  ts_eflags :: u32
  ts_eax :: u32
  ts_ecx :: u32
  ts_edx :: u32
  ts_ebx :: u32
  ts_esp :: u32
  ts_ebp :: u32
  ts_esi :: u32
  ts_edi :: u32
  ts_es :: u32
  ts_cs :: u32
  ts_ss :: u32
  ts_ds :: u32
  ts_fs :: u32
  ts_gs :: u32
  ts_ldtr :: u32
  ts_iopb :: u32

definition zero_tss :: tss where
  "zero_tss = \<lparr>ts_link = 0, ts_esp0 = 0, ts_ss0 = 0, ts_esp1 = 0, ts_esp2 = 0, ts_ss2 = 0, ts_sr3 = 0, ts_eip = 0, ts_eflags = 0,
     ts_eax = 0, ts_ecx = 0, ts_edx = 0, ts_ebx = 0, ts_esp = 0, ts_ebp = 0, ts_esi = 0, ts_edi = 0, ts_es = 0, ts_cs = 0, ts_ss = 0,
     ts_ds = 0, ts_fs = 0, ts_gs = 0, ts_ldtr = 0, ts_iopb = 0\<rparr>"

text \<open>
  The addresses of the globals, and the machine: the kernel with the tables and the operands of the instructions that load
  them, \<^verbatim>\<open>gdt_load\<close> (address and size), \<^verbatim>\<open>idt_load\<close> and \<^verbatim>\<open>tss_load\<close>, and whether paging is enabled.
\<close>

record kernel_symbols =
  a_tss :: u32
  a_gdt_real :: u32
  a_idt :: idt_symbols

record machine =
  b_sys :: sys
  b_gdt :: "byte list list"
  b_gdtr :: "u32 \<times> int"
  b_idt :: "idt_desc list"
  b_idtr :: idtr_desc
  b_tss :: tss
  b_task_register :: int
  b_keyboards :: "keyboard list"
  b_paging :: bool

section \<open>Operations\<close>

text \<open>A string literal with its terminator.\<close>

definition c_str :: "string \<Rightarrow> byte list" where
  "c_str str = map (\<lambda>c. of_nat (of_char c)) str @ [0]"

abbreviation (input) newline :: string where "newline \<equiv> [CHR 0x0A]"

text \<open>\<^verbatim>\<open>panic\<close> never returns.\<close>

definition panic :: "sys \<Rightarrow> byte list \<Rightarrow> 'a option" where
  "panic s msg = do { _ \<leftarrow> sys_print s msg; None }"

text \<open>
  \<^verbatim>\<open>kernel_main\<close> up to the initialisation of the keyboards. \<open>raw\<close> is what the memory of the heap table holds before.
\<close>

definition kernel_init :: "kernel_symbols \<Rightarrow> byte list \<Rightarrow> machine \<Rightarrow> machine option" where
  "kernel_init a raw m = do {
     t \<leftarrow> terminal_initialize (y_term (b_sys m));
     let s = (b_sys m)\<lparr>y_term := t\<rparr>;
     gdt \<leftarrow> gdt_structured_to_gdt (replicate 6 (replicate 8 0)) (kernel_gdt (a_tss a)) 6;
     (res, heap) \<leftarrow> kheap_init raw;
     s \<leftarrow> (if res < 0 then sys_print s (c_str (''Failed to create heap'' @ newline)) else Some s);
     v \<leftarrow> fs_init (put_heap (y_vfs s) heap);
     v \<leftarrow> disk_search_and_init kernel_ops v;
     (idt, idtr, ports) \<leftarrow> idt_init (a_idt a) (y_ports s);
     let s = s\<lparr>y_vfs := v, y_ports := ports\<rparr>;
     (chunk, h, ram) \<leftarrow> paging_new_4gb (y_heap s) (y_ram s) 7;
     let s = (put_y_heap s h)\<lparr>y_ram := ram, y_kernel_chunk := chunk, y_directory := paging_switch ram chunk\<rparr>;
     s \<leftarrow> isr80h_register_commands s;
     let k = keyboard_init \<lparr>kl_list = b_keyboards m, kl_ports = y_ports s\<rparr>;
     Some \<lparr>b_sys = s\<lparr>y_ports := kl_ports k\<rparr>, b_gdt = gdt, b_gdtr = (a_gdt_real a, 48), b_idt = idt, b_idtr = idtr,
       b_tss = zero_tss\<lparr>ts_esp0 := 0x600000, ts_ss0 := KERNEL_DATA_SELECTOR\<rparr>, b_task_register = 0x28, b_keyboards = kl_list k, b_paging = True\<rparr>
   }"

text \<open>The test that reads \<^verbatim>\<open>0:/hello.txt\<close>. The descriptor is not closed.\<close>

definition open_test :: "sys \<Rightarrow> sys option" where
  "open_test s = do {
     s \<leftarrow> sys_print s (c_str (''sys_open/sys_read test'' @ newline));
     (fd, v) \<leftarrow> fopen kernel_ops (y_vfs s) (c_str ''0:/hello.txt'') (c_str ''r'');
     let s = s\<lparr>y_vfs := v\<rparr>;
     if fd \<le> 0 then sys_print s (c_str (''fopen returned 0'' @ newline))
     else do {
       s \<leftarrow> sys_print s (c_str (''fopen returned valid fd'' @ newline));
       (n, out, v) \<leftarrow> fread kernel_ops (y_vfs s) 1 63 fd;
       let s = s\<lparr>y_vfs := v\<rparr>;
       let buf = out @ replicate (64 - length out) 0;
       if n \<le> 0 then sys_print s (c_str (''fread returned 0'' @ newline))
       else do {
         s \<leftarrow> sys_print s (c_str ''fread got data: '');
         s \<leftarrow> sys_print s buf;
         s \<leftarrow> sys_print s (c_str newline);
         r \<leftarrow> strncmp buf (c_str ''Testo world!'') 12;
         sys_print s (c_str ((if r = 0 then ''content matched'' else ''content mismatch'') @ newline @ newline))
       }
     }
   }"

text \<open>The registers with which the first program starts, and the machine at that time.\<close>

definition kernel_main :: "kernel_symbols \<Rightarrow> byte list \<Rightarrow> machine \<Rightarrow> (registers \<times> machine) option" where
  "kernel_main a raw m = do {
     m1 \<leftarrow> kernel_init a raw m;
     s \<leftarrow> open_test (b_sys m1);
     (res, process, s) \<leftarrow> process_load s (c_str ''0:/shell.bin'');
     if res \<noteq> PEACHOS_ALL_OK then panic s (c_str (''Failed to load shell.bin'' @ newline))
     else do {
       (regs, s) \<leftarrow> task_run_first_ever_task s;
       Some (regs, m1\<lparr>b_sys := s\<rparr>)
     }
   }"

section \<open>The interrupt table\<close>

text \<open>The address that a descriptor leads to, as the processor reads it.\<close>

definition gate_target :: "idt_desc \<Rightarrow> u32" where
  "gate_target d = ucast (d_offset_1 d) OR push_bit 16 (ucast (d_offset_2 d))"

definition is_gate :: "idt_desc \<Rightarrow> u32 \<Rightarrow> bool" where
  "is_gate d address \<longleftrightarrow> gate_target d = address \<and> d_selector d = 0x08 \<and> d_type_attr d = 0xEE"

lemma word_halves: "ucast (ucast (w AND 0xffff) :: u16) OR push_bit 16 (ucast (ucast (drop_bit 16 w) :: u16)) = (w :: u32)" (is "?l = w")
proof (rule bit_word_eqI)
  fix n :: nat assume n: "n < LENGTH(32)"
  have m: "(0xffff :: u32) = mask 16" by (simp add: mask_eq_exp_minus_1)
  show "bit ?l n = bit w n" unfolding m using n by (cases "n < 16") (auto simp: bit_simps)
qed

lemma idt_set_gate:
  assumes "n < length tab"
  obtains d where "idt_set tab (int n) address = Some (tab[n := d])" "is_gate d address"
  using assms that by (simp add: idt_set_def is_gate_def gate_target_def word_halves)

definition handler_of :: "idt_symbols \<Rightarrow> nat \<Rightarrow> u32" where
  "handler_of a n = (if n = 0 then a_idt_zero a else if n = 0x20 then a_int20h a else if n = 0x21 then a_int21h a
     else if n = 0x80 then a_isr80h_wrapper a else a_no_interrupt a)"

lemma idt_fill:
  "\<exists>tab. for_loop 0 512 (\<lambda>i tab. idt_set tab (int i) address) (replicate 512 zero_desc) = Some tab \<and> length tab = 512
     \<and> (\<forall>n < 512. is_gate (tab ! n) address)"
proof -
  let ?I = "\<lambda>i tab. length tab = 512 \<and> (\<forall>n < i. is_gate (tab ! n) address)"
  have "\<exists>tab. for_loop 0 512 (\<lambda>i tab. idt_set tab (int i) address) (replicate 512 zero_desc) = Some tab \<and> ?I (0 + 512) tab"
  proof (rule for_loop_inv)
    show "?I 0 (replicate 512 zero_desc)" by simp
    fix i tab assume i: "i < 0 + 512" "?I i tab"
    then have "i < length tab" by simp
    from idt_set_gate [OF this] obtain d where "idt_set tab (int i) address = Some (tab[i := d])" "is_gate d address" by blast
    with i show "\<exists>tab'. idt_set tab (int i) address = Some tab' \<and> ?I (Suc i) tab'"
      by (intro exI [of _ "tab[i := d]"]) (auto simp: nth_list_update less_Suc_eq)
  qed
  then show ?thesis by simp
qed

lemma idt_init_run:
  "\<exists>tab ports'. idt_init a ports = Some (tab, \<lparr>i_limit = 4095, i_base = a_idt_descriptors a\<rparr>, ports') \<and> length tab = 512
     \<and> (\<forall>n < 512. is_gate (tab ! n) (handler_of a n))"
proof -
  from idt_fill [of "a_no_interrupt a"] obtain tab where t: "for_loop 0 512 (\<lambda>i tab. idt_set tab (int i) (a_no_interrupt a)) (replicate 512 zero_desc) = Some tab"
    "length tab = 512" "\<forall>n < 512. is_gate (tab ! n) (a_no_interrupt a)" by blast
  obtain d0 where d0: "idt_set tab (int 0) (a_idt_zero a) = Some (tab[0 := d0])" "is_gate d0 (a_idt_zero a)" by (rule idt_set_gate [of 0 tab]) (simp add: t(2))
  obtain d1 where d1: "idt_set (tab[0 := d0]) (int 0x20) (a_int20h a) = Some (tab[0 := d0, 0x20 := d1])" "is_gate d1 (a_int20h a)"
    by (rule idt_set_gate [of "0x20" "tab[0 := d0]"]) (simp add: t(2))
  obtain d2 where d2: "idt_set (tab[0 := d0, 0x20 := d1]) (int 0x21) (a_int21h a) = Some (tab[0 := d0, 0x20 := d1, 0x21 := d2])" "is_gate d2 (a_int21h a)"
    by (rule idt_set_gate [of "0x21" "tab[0 := d0, 0x20 := d1]"]) (simp add: t(2))
  obtain d3 where d3: "idt_set (tab[0 := d0, 0x20 := d1, 0x21 := d2]) (int 0x80) (a_isr80h_wrapper a) = Some (tab[0 := d0, 0x20 := d1, 0x21 := d2, 0x80 := d3])"
    "is_gate d3 (a_isr80h_wrapper a)" by (rule idt_set_gate [of "0x80" "tab[0 := d0, 0x20 := d1, 0x21 := d2]"]) (simp add: t(2))
  let ?t = "tab[0 := d0, 0x20 := d1, 0x21 := d2, 0x80 := d3]"
  have "is_gate (?t ! n) (handler_of a n)" if "n < 512" for n
    using that t(2,3) d0(2) d1(2) d2(2) d3(2) by (auto simp: handler_of_def nth_list_update)
  moreover have "\<exists>ports'. idt_init a ports = Some (?t, \<lparr>i_limit = 4095, i_base = a_idt_descriptors a\<rparr>, ports')"
    using t(1) d0(1) d1(1) d2(1) d3(1) by (simp add: idt_init_def)
  ultimately show ?thesis using t(2) by (auto intro!: exI [of _ ?t])
qed

section \<open>The kernel after its start\<close>

lemma kernel_gdt_run: "\<exists>gdt. gdt_structured_to_gdt (replicate 6 (replicate 8 0)) (kernel_gdt a) 6 = Some gdt \<and> map gdt_decode gdt = kernel_gdt a"
proof -
  have l: "length (kernel_gdt a) = 6" by (simp add: kernel_gdt_def)
  have "list_all encodable (kernel_gdt a)" by (simp add: kernel_gdt_def encodable_def)
  moreover have "list_all (\<lambda>e. length e = 8) (replicate 6 (replicate 8 (0 :: byte)))" by (simp add: list_all_length)
  ultimately show ?thesis using gdt_table_run [of "replicate 6 (replicate 8 0)" "kernel_gdt a"] l by simp
qed

lemma kernel_heap_start:
  assumes "length raw = 25600"
  obtains h where "kheap_init raw = Some (0, h)" "page_slack h 25600" "pool h = (0x01000000, 25600)"
proof -
  from kheap_init_ok [OF assms] obtain h where h: "kheap_init raw = Some (0, h)" "heap_slack h 25600" by blast
  moreover have "h_saddr h = 0x01000000" "ht_total (h_table h) = 25600"
    using h(1) by (auto simp: kheap_init_def heap_create_def Let_def split: if_splits option.splits bind_splits)
  ultimately show thesis using that by (simp add: page_slack_def pool_def)
qed

text \<open>The files of the kernel after its start.\<close>

lemma files_start:
  assumes "page_slack h 25600" and "length (v_fs_name v0) = 20" and "fat_mounted v M" and "mountable (v_k v)" and "k_drive (v_k v0) = k_drive (v_k v)"
  obtains v1 v2 where "fs_init (put_heap v0 h) = Some v1" "disk_search_and_init kernel_ops v1 = Some v2" "fat_mounted v2 M" "page_slack (k_heap (v_k v2)) 25593"
    "v_fds v2 = replicate PEACHOS_MAX_FILE_DESCRIPTORS None" "k_pool (v_k v2) = pool h"
proof -
  have "length (v_fs_name (put_heap v0 h)) = 20" using assms(2) by (simp add: put_heap_def)
  from fs_init_tables [OF this] obtain v1 where v1: "fs_init (put_heap v0 h) = Some v1" "v_filesystems v1 = Some FAT16 # replicate 11 None"
    "v_fds v1 = replicate PEACHOS_MAX_FILE_DESCRIPTORS None" "v_k v1 = (v_k v0)\<lparr>k_heap := h\<rparr>" unfolding put_heap_def by auto
  have hp: "heap_slack h (8 + 25592)" "aligned (h_saddr h)" using assms(1) by (simp_all add: page_slack_def)
  then have "k_drive (v_k v1) = k_drive (v_k v)" "heap_slack (k_heap (v_k v1)) (8 + 25592)" using v1(4) assms(5) by simp_all
  from search_run [OF assms(3,4) this v1(2,3)] obtain v2 where v2: "disk_search_and_init kernel_ops v1 = Some v2" "fat_mounted v2 M"
    "heap_slack (k_heap (v_k v2)) (Suc 25592)" "v_fds v2 = replicate PEACHOS_MAX_FILE_DESCRIPTORS None" by blast
  have pl: "k_pool (v_k v2) = pool h" using search_pool [OF v2(1) v1(2)] v1(4) by simp
  then have "aligned (h_saddr (k_heap (v_k v2)))" using hp(2) by (simp add: pool_def)
  then show thesis using that [OF v1(1) v2(1,2) _ v2(4) pl] v2(3) by (simp add: page_slack_def)
qed

text \<open>
  The state after the initialisation: beside what the kernel needs to run, the tables of tasks and processes are as they were, no file is
  open, and a long run of blocks is free.
\<close>

lemma kernel_init_run:
  assumes "length raw = 25600" and "VGA_HEIGHT * VGA_WIDTH \<le> length (t_vga (y_term (b_sys m)))" and "y_commands (b_sys m) = replicate 1024 None"
    and "length (v_fs_name (y_vfs (b_sys m))) = 20" and "fat_mounted v M" and "mountable (v_k v)" and "k_drive (v_k (y_vfs (b_sys m))) = k_drive (v_k v)"
  obtains m' s where "kernel_init a raw m = Some m'" "b_sys m' = s" "terminal_ok (y_term s)" "sc_rows (screen_of (y_term s)) = replicate VGA_HEIGHT blank_row"
    "fat_mounted (y_vfs s) M" "page_slack (y_heap s) 24567" "space_ok (y_heap s) (y_ram s) (y_kernel_chunk s)"
    "\<And>va. translate (y_ram s) (y_kernel_chunk s) va = Some va" "y_directory s = load32 (y_ram s) (y_kernel_chunk s)"
    "y_commands s = map Some all_commands @ replicate 1012 None"
    "map gdt_decode (b_gdt m') = kernel_gdt (a_tss a)" "\<forall>n < 512. is_gate (b_idt m' ! n) (handler_of (a_idt a) n)"
    "open_run (y_heap s) 2174" "v_fds (y_vfs s) = replicate PEACHOS_MAX_FILE_DESCRIPTORS None"
    "y_tasks s = y_tasks (b_sys m)" "y_procs s = y_procs (b_sys m)" "y_processes s = y_processes (b_sys m)" "y_task_head s = y_task_head (b_sys m)"
    "y_task_tail s = y_task_tail (b_sys m)" "y_current_task s = y_current_task (b_sys m)"
proof -
  from initialize_shows [OF assms(2)] obtain t where t: "terminal_initialize (y_term (b_sys m)) = Some t" "terminal_ok t"
    "sc_rows (screen_of t) = replicate VGA_HEIGHT blank_row" by auto
  from kernel_gdt_run obtain gdt where gdt: "gdt_structured_to_gdt (replicate 6 (replicate 8 0)) (kernel_gdt (a_tss a)) 6 = Some gdt"
    "map gdt_decode gdt = kernel_gdt (a_tss a)" by blast
  obtain h0 where h0: "kheap_init raw = Some (0, h0)" "page_slack h0 25600" "pool h0 = (0x01000000, 25600)" by (rule kernel_heap_start [OF assms(1)])
  obtain v1 v2 where v2: "fs_init (put_heap (y_vfs (b_sys m)) h0) = Some v1" "disk_search_and_init kernel_ops v1 = Some v2" "fat_mounted v2 M"
    "page_slack (k_heap (v_k v2)) 25593" "v_fds v2 = replicate PEACHOS_MAX_FILE_DESCRIPTORS None" "k_pool (v_k v2) = pool h0" by (rule files_start [OF h0(2) assms(4-7)])
  from idt_init_run [of "a_idt a" "y_ports (b_sys m)"] obtain tab ports where
    idt: "idt_init (a_idt a) (y_ports (b_sys m)) = Some (tab, \<lparr>i_limit = 4095, i_base = a_idt_descriptors (a_idt a)\<rparr>, ports)"
    "\<forall>n < 512. is_gate (tab ! n) (handler_of (a_idt a) n)" by blast
  have "page_slack (k_heap (v_k v2)) (1026 + 24567)" using v2(4) by simp
  then obtain c h ram where c: "paging_new_4gb (k_heap (v_k v2)) (y_ram (b_sys m)) 7 = Some (c, h, ram)" "page_slack h 24567" "chunk_ok h ram c"
    "\<And>i. i < 1024 \<Longrightarrow> word_at ram (load32 ram c) i = table_of ram c i OR ucast (7 :: byte) OR 2"
    "\<And>p. p < 2 ^ 20 \<Longrightarrow> page_entry ram c p = of_nat p * 4096 OR ucast (7 :: byte)" by (rule paging_new_4gb_run) blast
  have tr: "translate ram c va = Some va" for va by (rule identity_translate [where flags = 7, OF c(4,5)]) (simp_all add: bit_0)
  have so: "space_ok h ram c" using c(3,4) by (simp add: space_ok_def all_present_def bit_or_iff)
  have hs: "heap_slack (k_heap (v_k v2)) 25593" "ht_total (h_table (k_heap (v_k v2))) = 25600" using v2(4,6) h0(3) by (simp_all add: page_slack_def pool_def)
  have "open_run (k_heap (v_k v2)) 3200" by (rule slack_run [OF hs(1)]) (simp only: hs(2), simp)
  then have "runs (k_heap (v_k v2)) (1026 + 2174)" using hs(1) by (simp add: runs_def heap_slack_def)
  from runs_paging_new [OF c(1) this] have rn: "open_run h 2174" by (simp add: runs_def)
  define s where "s = (put_y_heap ((b_sys m)\<lparr>y_term := t, y_vfs := v2, y_ports := ports\<rparr>) h)\<lparr>y_ram := ram, y_kernel_chunk := c, y_directory := load32 ram c\<rparr>"
  have cm: "y_commands s = replicate 1024 None" using assms(3) by (simp add: s_def put_y_heap_def)
  let ?s = "s\<lparr>y_commands := map Some all_commands @ replicate 1012 None\<rparr>"
  have "\<exists>m'. kernel_init a raw m = Some m' \<and> (\<exists>po. b_sys m' = ?s\<lparr>y_ports := po\<rparr>) \<and> b_gdt m' = gdt \<and> b_idt m' = tab"
    using t(1) gdt(1) h0(1) v2(1,2) idt(1) c(1) register_commands_run [OF cm] assms(3)
    by (auto simp: kernel_init_def Let_def y_heap_def paging_switch_def s_def put_y_heap_def)
  then obtain m' po where m': "kernel_init a raw m = Some m'" "b_sys m' = ?s\<lparr>y_ports := po\<rparr>" "b_gdt m' = gdt" "b_idt m' = tab" by blast
  have "fat_mounted (put_heap v2 h) M"
    using v2(3,5) fatfs.rep_heap by (simp add: mounted_def put_heap_def fds_inv_def)
  moreover have "y_heap (?s\<lparr>y_ports := po\<rparr>) = h" by (simp add: s_def put_y_heap_def put_heap_def y_heap_def)
  ultimately show thesis using that [OF m'(1,2)] t(2,3) gdt(2) idt(2) c(2) tr so rn v2(5) unfolding m'(3,4)
    by (simp add: s_def put_y_heap_def put_heap_def)
qed

section \<open>A machine\<close>

definition demo_symbols :: kernel_symbols where
  "demo_symbols = \<lparr>a_tss = 0x00120000, a_gdt_real = 0x00120100, a_idt = \<lparr>a_no_interrupt = 0x00101000, a_idt_zero = 0x00102000, a_int20h = 0x00101010,
     a_int21h = 0x00101020, a_isr80h_wrapper = 0x00101030, a_idt_descriptors = 0x00121000\<rparr>\<rparr>"

definition demo_machine :: "drive \<Rightarrow> machine" where
  "demo_machine d = \<lparr>b_sys = demo_sys\<lparr>y_vfs := demo_vfs\<lparr>v_k := demo_state d\<rparr>\<rparr>, b_gdt = [], b_gdtr = (0, 0), b_idt = [], b_idtr = \<lparr>i_limit = 0, i_base = 0\<rparr>,
     b_tss = zero_tss, b_task_register = 0, b_keyboards = [], b_paging = False\<rparr>"

end
