(* ===== verification/Process_Runs.thy ===== *)
theory Process_Runs
  imports Process Heap_Runs User_Copy
begin

text \<open>
  What the creation of processes does, \<^verbatim>\<open>src/src/task/process.c\<close>: the memory of a process, and what a forked process shares with its
  parent.
\<close>

section \<open>States\<close>

text \<open>The heap and the memory of a state.\<close>

definition with_mem :: "sys \<Rightarrow> heap \<Rightarrow> ram \<Rightarrow> sys" where
  "with_mem s h m = (put_y_heap s h)\<lparr>y_ram := m\<rparr>"

lemma with_mem_simps [simp]:
  "y_heap (with_mem s h m) = h" "y_ram (with_mem s h m) = m" "y_tasks (with_mem s h m) = y_tasks s" "y_procs (with_mem s h m) = y_procs s"
  "y_processes (with_mem s h m) = y_processes s" "y_task_head (with_mem s h m) = y_task_head s" "y_task_tail (with_mem s h m) = y_task_tail s"
  "y_current_task (with_mem s h m) = y_current_task s" "y_vfs (with_mem s h m) = put_heap (y_vfs s) h"
  "with_mem (with_mem s h m) h' m' = with_mem s h' m'"
  by (simp_all add: with_mem_def put_y_heap_def put_heap_def y_heap_def)

lemma put_proc_simps [simp]:
  "y_heap (put_proc s a p) = y_heap s" "y_ram (put_proc s a p) = y_ram s" "y_tasks (put_proc s a p) = y_tasks s"
  "y_procs (put_proc s a p) = (y_procs s)(a \<mapsto> p)" "y_processes (put_proc s a p) = y_processes s" "y_task_head (put_proc s a p) = y_task_head s"
  "y_task_tail (put_proc s a p) = y_task_tail s" "y_current_task (put_proc s a p) = y_current_task s" "y_vfs (put_proc s a p) = y_vfs s"
  "put_proc (put_proc s a p) a q = put_proc s a q" "put_proc (with_mem s h m) a p = with_mem (put_proc s a p) h m"
  by (simp_all add: put_proc_def with_mem_def put_y_heap_def y_heap_def)

text \<open>A copy of \<open>sz\<close> bytes from \<open>src\<close>.\<close>

definition copy_object :: "ram \<Rightarrow> u32 \<Rightarrow> u32 \<Rightarrow> u32 \<Rightarrow> ram" where
  "copy_object m dest src sz = store_bytes m dest (load_bytes m src (unat sz))"

lemma copy_ram_mem: "copy_ram (with_mem s h m) dest src sz = with_mem s h (copy_object m dest src sz)"
  by (simp add: copy_ram_def copy_object_def) (simp add: with_mem_def)

lemma sys_kzalloc_mem: "kzalloc_ram h m sz = Some (a, h', m') \<Longrightarrow> sys_kzalloc (with_mem s h m) sz = Some (a, with_mem s h' m')"
  by (simp add: sys_kzalloc_def) (simp add: with_mem_def put_y_heap_def put_heap_def)

lemma with_mem_self: "with_mem s (y_heap s) (y_ram s) = s"
  by (simp add: with_mem_def put_y_heap_def put_heap_def y_heap_def)

text \<open>The tasks stay in order when the heap grows and the memory of live objects stays.\<close>

lemma tasks_ok_mem:
  assumes "tasks_ok s xs" and "page_slack (y_heap s) k" and "keeps (y_heap s) (y_ram s) m" and "heap_live (y_heap s) \<subseteq> heap_live h"
  shows "tasks_ok (with_mem s h m) xs"
proof -
  have "task_objects (with_mem s h m) x = task_objects s x" for x
    by (rule task_objects_cong) (simp_all add: keeps_chunk(1) [OF assms(2) task_chunk_ok(1) [OF assms(1)] assms(3)])
  then have "map (task_objects (with_mem s h m)) xs = map (task_objects s) xs" by simp
  with assms(1,4) show ?thesis unfolding tasks_ok_def task_ring_def by (simp only: with_mem_simps) blast
qed

lemma tasks_ok_proc [simp]: "tasks_ok (put_proc s a p) xs = tasks_ok s xs"
proof -
  have "task_objects (put_proc s a p) x = task_objects s x" for x by (rule task_objects_cong) simp_all
  then have "task_objects (put_proc s a p) = task_objects s" by (rule ext)
  then show ?thesis by (simp add: tasks_ok_def task_ring_def)
qed

lemma tasks_ok_processes [simp]: "tasks_ok (s\<lparr>y_processes := ps\<rparr>) xs = tasks_ok s xs"
proof -
  have "task_objects (s\<lparr>y_processes := ps\<rparr>) x = task_objects s x" for x by (rule task_objects_cong) simp_all
  then have "task_objects (s\<lparr>y_processes := ps\<rparr>) = task_objects s" by (rule ext)
  then show ?thesis by (simp add: tasks_ok_def task_ring_def y_heap_def)
qed

section \<open>The task of a forked process\<close>

lemma copied_translate:
  assumes "page_slack h' k" and "chunk_ok h' m' c" and "\<And>i. i < 1024 \<Longrightarrow> word_at m' (load32 m' c) i = table_of m' c i OR copied_flags m src i"
    and "\<And>p. p < 2 ^ 20 \<Longrightarrow> page_entry m' c p = page_entry m src p"
  shows "translate m' c va = translate m src va"
proof (rule translate_cong [OF _ assms(4)])
  fix i :: nat assume "i < 1024"
  then show "bit (word_at m' (load32 m' c) i) 0 = bit (word_at m (load32 m src) i) 0"
    using assms(3) chunk_shapeD(3) [OF chunk_ok_shape [OF assms(1,2)]] by (simp add: bit_or_iff bit_and_iff aligned_low_bit)
qed simp

text \<open>A new task changes at most the link of another one.\<close>

lemma new_tasks_old:
  assumes "y_tasks s x = Some u" and "x \<noteq> a" and "xs \<noteq> []"
  shows "\<exists>l. new_tasks s xs a t x = Some (u\<lparr>tk_next := l\<rparr>)"
proof (cases "x = last xs")
  case False
  then have "new_tasks s xs a t x = Some (u\<lparr>tk_next := tk_next u\<rparr>)" using new_tasks_simps(2) [OF assms(2,3), of s t] assms(1) by simp
  then show ?thesis ..
qed (use new_tasks_simps(2) [OF assms(2,3), of s t] assms(1) in auto)

text \<open>
  The task of the child has the registers of the parent but for the result 0, and an address space of its own that translates as that of the
  parent.
\<close>

lemma fork_task_run:
  assumes ok: "tasks_ok s xs" and sl: "page_slack (y_heap s) (1027 + k)" and c: "y_procs s child = Some c" and pt: "y_tasks s (p_task parent) = Some pt"
  obtains a t h m s' where "fork_task s parent child slot = Some (0, child, s')"
    "s' = (with_task (put_proc s child (c\<lparr>p_task := a\<rparr>)) xs a t h m)\<lparr>y_processes := (y_processes s)[nat slot := child]\<rparr>"
    "tasks_ok s' (xs @ [a])" "page_slack h k" "tk_process t = child" "tk_registers t = (tk_registers pt)\<lparr>r_eax := 0\<rparr>" "keeps (y_heap s) (y_ram s) m"
    "\<And>va. translate m (tk_page_directory t) va = translate (y_ram s) (tk_page_directory pt) va" "heap_live (y_heap s) \<subseteq> heap_live h" "a \<notin> set xs"
proof -
  obtain a t h1 m1 where n: "task_new s child = Some (Inr a, with_task s xs a t h1 m1)" "page_slack h1 k"
    "tk_process t = child" "a \<notin> set xs" "a \<noteq> 0" "tasks_ok (with_task s xs a t h1 m1) (xs @ [a])" "keeps (y_heap s) (y_ram s) m1"
    "heap_live h1 = heap_live (y_heap s) \<union> (\<lambda>a. (a, 1)) ` set (a # chunk_pages m1 (tk_page_directory t))"
    "\<And>b n. b \<in> set (a # chunk_pages m1 (tk_page_directory t)) \<Longrightarrow> (b, n) \<notin> heap_live (y_heap s)"
    "tk_next t = 0" "tk_prev t = (if xs = [] then 0 else last xs)"
    using task_new_full [OF ok sl] by metis
  have "y_tasks (with_task s xs a t h1 m1) a = Some t" by (simp add: new_tasks_simps)
  note T = task_chunk_ok [OF n(6) this, unfolded with_task_simps]
  obtain h2 where h2: "paging_free_4gb h1 m1 (tk_page_directory t) = Some h2" "page_slack h2 (k + 1026)"
    "heap_live h2 = heap_live h1 - (\<lambda>a. (a, 1)) ` set (chunk_pages m1 (tk_page_directory t))" by (rule paging_free_4gb_run [OF n(2) T(1)])
  have live2: "heap_live h2 = insert (a, 1) (heap_live (y_heap s))"
    using n(8,9) T(3) unfolding h2(3) by (auto simp: image_iff)
  have "page_slack (y_heap s) k" by (rule ph.slack_mono [OF sl]) simp
  note K = task_chunk_ok(1) [OF ok pt] and kc = keeps_chunk [OF this task_chunk_ok(1) [OF ok pt] n(7)]
  have ck: "chunk_ok h2 m1 (tk_page_directory pt)" using K live2 unfolding chunk_ok_def kc(1) by auto
  have "page_slack h2 (1026 + k)" using h2(2) by (simp add: add.commute)
  then obtain pd h m where q: "paging_copy_4gb h2 m1 (tk_page_directory pt) = Some (pd, h, m)" "pd \<noteq> 0" "page_slack h k" "chunk_ok h m pd"
    "heap_live h = heap_live h2 \<union> (\<lambda>a. (a, 1)) ` set (chunk_pages m pd)" "\<And>a n. a \<in> set (chunk_pages m pd) \<Longrightarrow> (a, n) \<notin> heap_live h2"
    "keeps h2 m1 m" "\<And>i. i < 1024 \<Longrightarrow> word_at m (load32 m pd) i = table_of m pd i OR copied_flags m1 (tk_page_directory pt) i"
    "\<And>p. p < 2 ^ 20 \<Longrightarrow> page_entry m pd p = page_entry m1 (tk_page_directory pt) p"
    by (rule paging_copy_4gb_run [OF _ ck]) blast
  have ke: "keeps (y_heap s) (y_ram s) m" by (rule keeps_trans [OF n(7) keeps_older [OF q(7)]]) (use live2 in blast)
  have tr: "translate m pd va = translate (y_ram s) (tk_page_directory pt) va" for va
    using copied_translate [OF q(3,4,8,9), of va] keeps_translate [OF \<open>page_slack (y_heap s) k\<close> K n(7), of va] by simp
  let ?t = "t\<lparr>tk_page_directory := pd, tk_registers := (tk_registers pt)\<lparr>r_eax := 0\<rparr>\<rparr>" and ?s0 = "put_proc s child (c\<lparr>p_task := a\<rparr>)"
  define s' where "s' = (with_task ?s0 xs a ?t h m)\<lparr>y_processes := (y_processes s)[nat slot := child]\<rparr>"
  have p: "p_task parent \<in> set xs" "p_task parent \<noteq> a" using tasks_okD(3) [OF ok] pt n(4) by auto
  obtain l where l: "new_tasks s xs a t (p_task parent) = Some (pt\<lparr>tk_next := l\<rparr>)" using new_tasks_old [OF pt p(2), of xs t] p(1) by fastforce
  have run: "fork_task s parent child slot = Some (0, child, s')"
    using n(1,5) c h2(1) q(1,2) l by (simp add: fork_task_def new_tasks_simps) (simp add: s'_def with_task_def put_proc_def put_task_def put_y_heap_def put_heap_def new_tasks_def)
  have "a \<notin> set (chunk_pages m pd)" using q(6) [of a 1] live2 by blast
  then have dist: "distinct (a # chunk_pages m pd)" using q(4) by (simp add: chunk_ok_def)
  have fresh: "(b, j) \<notin> heap_live (y_heap s)" if "b \<in> set (a # chunk_pages m pd)" for b j using that q(6) n(9) live2 by auto
  have live: "heap_live h = heap_live (y_heap s) \<union> (\<lambda>a. (a, 1)) ` set (a # chunk_pages m pd)" using q(5) live2 by auto
  have "tasks_ok (with_task ?s0 xs a ?t h m) (xs @ [a])"
    by (rule with_task_ok [OF _ _ n(5,4)]) (use ok \<open>page_slack (y_heap s) k\<close> n(10,11) ke dist fresh live in simp_all)
  then have tok: "tasks_ok s' (xs @ [a])" by (simp add: s'_def)
  have sub: "heap_live (y_heap s) \<subseteq> heap_live h" using live by blast
  show thesis by (rule that [OF run s'_def tok q(3) _ _ ke _ sub n(4)]) (simp_all add: n(3) tr)
qed

section \<open>The memory of a process\<close>

lemma process_blocks: "blocks_of 5256 = 2" "blocks_of 16384 = 4"
  by (simp_all add: blocks_of_def heap_align_value_to_upper_def)

text \<open>A store to an object leaves the memory of the others.\<close>

lemma store_keeps:
  assumes "\<And>b n. (b, n) \<in> heap_live h \<Longrightarrow> extent a j \<inter> extent b n = {}" and "length bs \<le> 4096 * j"
  shows "keeps h m (store_bytes m a bs)"
proof (rule keeps_unchanged)
  show "unchanged m (store_bytes m a bs) (extent a j)"
    by (rule unchanged_mono [OF unchanged_store]) (use assms(2) in \<open>auto simp: extent_def\<close>)
qed (rule assms(1))

lemma keeps_load:
  assumes "keeps h m m'" and "(a, n) \<in> heap_live h" and "k \<le> 4096 * n"
  shows "load_bytes m' a k = load_bytes m a k"
proof -
  have "m' x = m x" if "unat a \<le> x" "x < unat a + k" for x
    using assms that unfolding keeps_def extent_def by fastforce
  then show ?thesis by (simp add: load_bytes_def)
qed

text \<open>An object that is allocated and filled with a copy of another one.\<close>

lemma copied_object:
  assumes sl: "page_slack h (blocks_of sz + k)" and run: "open_run h (blocks_of sz + j)" and sz: "0 < blocks_of sz" "unat sz < 2 ^ 31"
    and src: "(src, blocks_of sz) \<in> heap_live h"
  obtains a h' m' where "kzalloc_ram h m sz = Some (a, h', m')" "a \<noteq> 0" "page_slack h' k" "open_run h' j"
    "heap_live h' = insert (a, blocks_of sz) (heap_live h)" "\<And>n. (a, n) \<notin> heap_live h"
    "keeps h m (copy_object m' a src sz)" "load_bytes (copy_object m' a src sz) a (unat sz) = load_bytes m src (unat sz)"
proof -
  obtain a h' m' where a: "kzalloc_ram h m sz = Some (a, h', m')" "a \<noteq> 0" "page_slack h' k" "open_run h' j"
    "heap_live h' = insert (a, blocks_of sz) (heap_live h)" "\<And>n. (a, n) \<notin> heap_live h"
    "\<And>b n. (b, n) \<in> heap_live h \<Longrightarrow> extent a (blocks_of sz) \<inter> extent b n = {}" "keeps h m m'"
    using kzalloc_ram_run [OF sl sz(1) run sz(2)] by metis
  note cov = blocks_of_covers(1) [OF sz(2)]
  have "keeps h m' (copy_object m' a src sz)" unfolding copy_object_def by (rule store_keeps [OF a(7)]) (use cov in simp_all)
  then have ke: "keeps h m (copy_object m' a src sz)" by (rule keeps_trans [OF a(8)])
  have "load_bytes (copy_object m' a src sz) a (unat sz) = load_bytes m' src (unat sz)"
    unfolding copy_object_def using load_store_bytes [of m' a "load_bytes m' src (unat sz)"] by simp
  also have "\<dots> = load_bytes m src (unat sz)" by (rule keeps_load [OF a(8) src cov])
  finally show thesis using that a(1-6) ke by blast
qed

lemma strncpy_total:
  assumes "n < length dest" and "n \<le> length src"
  shows "\<exists>r. strncpy_loop dest src n = Some r \<and> length r = length dest"
  using assms
proof (induction dest src n rule: strncpy_loop.induct)
  case (4 d dest c src n)
  then show ?case by (cases "c = 0") auto
qed simp_all

lemma free_slot_range: "free_slot_from ps i = int k \<Longrightarrow> 0 \<le> i \<Longrightarrow> nat i \<le> k \<and> k < nat i + length ps"
  by (induction ps arbitrary: i) (fastforce split: if_splits simp: nat_add_distrib)+

lemma process_sizes: "unat (5256 :: u32) < 2 ^ 31" "unat (16384 :: u32) < 2 ^ 31" "unat (16384 :: u32) = 16384"
  by simp_all

text \<open>The three objects of a child of the process with the program at \<open>src\<close> and the stack at \<open>stk\<close>, and the memory after the copies.\<close>

lemma fork_memory:
  assumes "page_slack h (blocks_of sz + (6 + k))" and "open_run h (blocks_of sz + 6)"
    and sz: "0 < unat sz" "unat sz < 2 ^ 31" and src: "(src, blocks_of sz) \<in> heap_live h" and stk: "(stk, 4) \<in> heap_live h"
  obtains child h1 m1 ptr h2 m2 stack h3 m3 where "kzalloc_ram h m 5256 = Some (child, h1, m1)" "kzalloc_ram h1 m1 sz = Some (ptr, h2, m2)"
    "kzalloc_ram h2 (copy_object m2 ptr src sz) 16384 = Some (stack, h3, m3)" "child \<noteq> 0" "ptr \<noteq> 0" "stack \<noteq> 0" "page_slack h3 k"
    "\<And>n. (child, n) \<notin> heap_live h" "ptr \<noteq> src" "stack \<noteq> stk" "heap_live h \<subseteq> heap_live h3" "keeps h m (copy_object m3 stack stk 16384)"
    "(ptr, blocks_of sz) \<in> heap_live h3" "(stack, 4) \<in> heap_live h3" "(child, 2) \<in> heap_live h3"
    "load_bytes (copy_object m3 stack stk 16384) ptr (unat sz) = load_bytes m src (unat sz)"
    "load_bytes (copy_object m3 stack stk 16384) stack 16384 = load_bytes m stk 16384"
proof -
  let ?n = "blocks_of sz"
  note cov = blocks_of_covers(1) [OF sz(2)]
  have n: "0 < ?n" using cov sz(1) by (cases "?n = 0") simp_all
  have s1: "page_slack h (blocks_of 5256 + (?n + (4 + k)))" "0 < blocks_of 5256" "open_run h (blocks_of 5256 + (?n + 4))"
    using assms(1,2) unfolding process_blocks by (simp_all add: add.left_commute)
  obtain child h1 m1 where 1: "kzalloc_ram h m 5256 = Some (child, h1, m1)" "child \<noteq> 0" "page_slack h1 (?n + (4 + k))" "open_run h1 (?n + 4)"
    "heap_live h1 = insert (child, blocks_of 5256) (heap_live h)" "\<And>n. (child, n) \<notin> heap_live h" "keeps h m m1"
    using kzalloc_ram_run [OF s1 process_sizes(1)] by metis
  have in1: "(src, ?n) \<in> heap_live h1" "(stk, 4) \<in> heap_live h1" using 1(5) src stk by simp_all
  obtain ptr h2 m2 where 2: "kzalloc_ram h1 m1 sz = Some (ptr, h2, m2)" "ptr \<noteq> 0" "page_slack h2 (4 + k)" "open_run h2 4"
    "heap_live h2 = insert (ptr, ?n) (heap_live h1)" "\<And>n. (ptr, n) \<notin> heap_live h1" "keeps h1 m1 (copy_object m2 ptr src sz)"
    "load_bytes (copy_object m2 ptr src sz) ptr (unat sz) = load_bytes m1 src (unat sz)"
    using copied_object [OF 1(3,4) n sz(2) in1(1)] by metis
  let ?m2 = "copy_object m2 ptr src sz"
  have s3: "page_slack h2 (blocks_of 16384 + k)" "open_run h2 (blocks_of 16384 + 0)" "0 < blocks_of 16384"
    "(stk, blocks_of 16384) \<in> heap_live h2" using 2(3,4,5) in1(2) unfolding process_blocks by simp_all
  obtain stack h3 m3 where 3: "kzalloc_ram h2 ?m2 16384 = Some (stack, h3, m3)" "stack \<noteq> 0" "page_slack h3 k"
    "heap_live h3 = insert (stack, blocks_of 16384) (heap_live h2)" "\<And>n. (stack, n) \<notin> heap_live h2" "keeps h2 ?m2 (copy_object m3 stack stk 16384)"
    "load_bytes (copy_object m3 stack stk 16384) stack 16384 = load_bytes ?m2 stk 16384"
    using copied_object [OF s3(1-3) process_sizes(2) s3(4), of ?m2, unfolded process_sizes(3)] by metis
  let ?m3 = "copy_object m3 stack stk 16384"
  have ke2: "keeps h m ?m2" by (rule keeps_trans [OF 1(7) keeps_older [OF 2(7)]]) (use 1(5) in blast)
  have ke3: "keeps h m ?m3" by (rule keeps_trans [OF ke2 keeps_older [OF 3(6)]]) (use 1(5) 2(5) in blast)
  have "load_bytes ?m3 ptr (unat sz) = load_bytes ?m2 ptr (unat sz)" by (rule keeps_load [OF 3(6) _ cov]) (use 2(5) in simp)
  then have lp: "load_bytes ?m3 ptr (unat sz) = load_bytes m src (unat sz)" using 2(8) keeps_load [OF 1(7) src cov] by simp
  have ls: "load_bytes ?m3 stack 16384 = load_bytes m stk 16384" using 3(7) keeps_load [OF ke2 stk, of 16384] by simp
  have ne: "ptr \<noteq> src" "stack \<noteq> stk" using 2(6) in1(1) 3(5) s3(4) by blast+
  have sub: "heap_live h \<subseteq> heap_live h3" "(ptr, ?n) \<in> heap_live h3" "(stack, 4) \<in> heap_live h3" "(child, 2) \<in> heap_live h3"
    using 1(5) 2(5) 3(4) by (auto simp: process_blocks)
  show thesis by (rule that [OF 1(1) 2(1) 3(1) 1(2) 2(2) 3(2,3) 1(6) ne sub(1) ke3 sub(2-4) lp ls])
qed

section \<open>The objects of a process\<close>

text \<open>
  What a process owns: its structure, the image and the stack are live objects, different from each other and from the objects of the tasks, and
  its slot of the table refers to it.
\<close>

definition process_ok :: "sys \<Rightarrow> u32 list \<Rightarrow> u32 \<Rightarrow> process \<Rightarrow> bool" where
  "process_ok s ts process p \<longleftrightarrow> y_procs s process = Some p \<and> distinct [process, p_ptr p, p_stack p]
     \<and> (process, 2) \<in> heap_live (y_heap s) \<and> (p_ptr p, blocks_of (p_size p)) \<in> heap_live (y_heap s) \<and> (p_stack p, 4) \<in> heap_live (y_heap s)
     \<and> {process, p_ptr p, p_stack p} \<inter> set (concat (map (task_objects s) ts)) = {}
     \<and> unat (p_id p) < length (y_processes s) \<and> y_processes s ! unat (p_id p) = process"

lemma process_okD:
  assumes "process_ok s ts process p"
  shows "y_procs s process = Some p" "process \<noteq> p_ptr p" "process \<noteq> p_stack p" "p_ptr p \<noteq> p_stack p"
    "(process, 2) \<in> heap_live (y_heap s)" "(p_ptr p, blocks_of (p_size p)) \<in> heap_live (y_heap s)" "(p_stack p, 4) \<in> heap_live (y_heap s)"
    "x \<in> set ts \<Longrightarrow> a \<in> {process, p_ptr p, p_stack p} \<Longrightarrow> a \<notin> set (task_objects s x)"
    "unat (p_id p) < length (y_processes s)" "y_processes s ! unat (p_id p) = process"
  using assms by (auto simp: process_ok_def)

text \<open>The tasks stay in order while other objects are released.\<close>

lemma tasks_ok_release:
  assumes "tasks_ok s xs" and "\<And>x b. x \<in> set xs \<Longrightarrow> b \<in> set (task_objects s x) \<Longrightarrow> (b, 1) \<in> heap_live h"
  shows "tasks_ok (put_y_heap s h) xs"
proof -
  have "task_objects (put_y_heap s h) x = task_objects s x" for x by (rule task_objects_cong) (simp_all add: put_y_heap_def)
  then have m: "map (task_objects (put_y_heap s h)) xs = map (task_objects s) xs" by simp
  have "\<forall>a \<in> set (concat (map (task_objects s) xs)). (a, 1) \<in> heap_live h" using assms(2) by auto
  with assms(1) show ?thesis unfolding tasks_ok_def m by (simp add: task_ring_def put_y_heap_def y_heap_def put_heap_def)
qed

lemma tasks_ok_fields:
  assumes "tasks_ok s xs" and "y_tasks s' = y_tasks s" "y_ram s' = y_ram s" "y_heap s' = y_heap s" "y_task_head s' = y_task_head s"
    "y_task_tail s' = y_task_tail s" "y_current_task s' = y_current_task s"
  shows "tasks_ok s' xs"
proof -
  have "task_objects s' x = task_objects s x" for x by (rule task_objects_cong) (simp_all add: assms(2,3))
  then have m: "map (task_objects s') xs = map (task_objects s) xs" by simp
  show ?thesis using assms(1) unfolding tasks_ok_def task_ring_def m by (simp add: assms(2-))
qed

lemma put_y_heap_fields [simp]:
  "y_procs (put_y_heap s h) = y_procs s" "y_processes (put_y_heap s h) = y_processes s" "y_ram (put_y_heap s h) = y_ram s"
  "put_y_heap (put_y_heap s h) h' = put_y_heap s h'"
  by (simp_all add: put_y_heap_def put_heap_def)

text \<open>Releasing a process whose task is the last one of the list gives back all that it owns.\<close>

lemma process_free_run:
  assumes ok: "tasks_ok s (ts @ [p_task p])" and pr: "process_ok s (ts @ [p_task p]) process p" and sl: "page_slack (y_heap s) k"
  obtains s' where "process_free s process = Some s'" "tasks_ok s' ts" "page_slack (y_heap s') (k + (blocks_of (p_size p) + 1033))"
    "heap_live (y_heap s') = heap_live (y_heap s) - (\<lambda>b. (b, 1)) ` set (task_objects s (p_task p)) - {(process, 2), (p_ptr p, blocks_of (p_size p)), (p_stack p, 4)}"
    "y_procs s' = (y_procs s)(process := None)" "y_processes s' = (y_processes s)[unat (p_id p) := 0]" "y_ram s' = y_ram s"
    "y_current_task s' = (if y_current_task s \<noteq> p_task p then y_current_task s else if ts = [] then 0 else hd ts)"
    "\<And>x t. x \<in> set ts \<Longrightarrow> y_tasks s x = Some t \<Longrightarrow> \<exists>l. y_tasks s' x = Some (t\<lparr>tk_next := l\<rparr>)"
proof -
  let ?a = "p_task p" and ?n = "blocks_of (p_size p)"
  note P = process_okD [OF pr] and D = tasks_okD [OF ok]
  from task_free_last [OF ok sl] obtain s1 where f: "task_free s ?a = Some (0, s1)" "tasks_ok s1 ts" "page_slack (y_heap s1) (k + 1027)"
    "heap_live (y_heap s1) = heap_live (y_heap s) - (\<lambda>b. (b, 1)) ` set (task_objects s ?a)"
    "y_current_task s1 = (if y_current_task s \<noteq> ?a then y_current_task s else if ts = [] then 0 else hd ts)"
    "y_ram s1 = y_ram s" "y_procs s1 = y_procs s" "y_processes s1 = y_processes s"
    "\<forall>x t. x \<in> set ts \<longrightarrow> y_tasks s x = Some t \<longrightarrow> (\<exists>l. y_tasks s1 x = Some (t\<lparr>tk_next := l\<rparr>))" by blast
  have own: "b \<notin> set (task_objects s ?a)" if "b \<in> {process, p_ptr p, p_stack p}" for b using P(8) [of ?a b] that by simp
  have l1: "(p_ptr p, ?n) \<in> heap_live (y_heap s1)" "(p_stack p, 4) \<in> heap_live (y_heap s1)" "(process, 2) \<in> heap_live (y_heap s1)"
    using P(5-7) own unfolding f(4) by auto
  obtain h2 where h2: "sys_kfree s1 (p_ptr p) = Some (put_y_heap s1 h2)" "page_slack h2 (k + 1027 + ?n)" "heap_live h2 = heap_live (y_heap s1) - {(p_ptr p, ?n)}"
    by (rule sys_kfree_run [OF f(3) l1(1)])
  have l2: "(p_stack p, 4) \<in> heap_live (y_heap (put_y_heap s1 h2))" "page_slack (y_heap (put_y_heap s1 h2)) (k + 1027 + ?n)" using l1(2) P(4) h2(2,3) by auto
  obtain h3 where h3: "sys_kfree (put_y_heap s1 h2) (p_stack p) = Some (put_y_heap s1 h3)" "page_slack h3 (k + 1027 + ?n + 4)"
    "heap_live h3 = heap_live h2 - {(p_stack p, 4)}" using sys_kfree_run [OF l2(2,1)] by auto
  let ?s3 = "(put_y_heap s1 h3)\<lparr>y_processes := (y_processes s)[unat (p_id p) := 0]\<rparr>"
  have y3: "y_heap ?s3 = h3" by (simp add: y_heap_def put_y_heap_def put_heap_def)
  have l3: "(process, 2) \<in> heap_live (y_heap ?s3)" "page_slack (y_heap ?s3) (k + 1027 + ?n + 4)" unfolding y3 using l1(3) P(2,3) h2(3) h3(2,3) by auto
  obtain h4 where h4: "sys_kfree ?s3 process = Some (put_y_heap ?s3 h4)" "page_slack h4 (k + 1027 + ?n + 4 + 2)" "heap_live h4 = heap_live h3 - {(process, 2)}"
    using sys_kfree_run [OF l3(2,1)] unfolding y3 by auto
  define s' where "s' = (put_y_heap ?s3 h4)\<lparr>y_procs := (y_procs s)(process := None)\<rparr>"
  have "process \<noteq> 0" using ph.live_aligned [OF sl P(5)] by simp
  then have run: "process_free s process = Some s'" using P(1,9) f(1,7,8) h2(1) h3(1) h4(1) by (simp add: process_free_def s'_def)
  have live: "heap_live h4 = heap_live (y_heap s) - (\<lambda>b. (b, 1)) ` set (task_objects s ?a) - {(process, 2), (p_ptr p, ?n), (p_stack p, 4)}"
    using f(4) h2(3) h3(3) h4(3) by blast
  have "task_objects s1 x = task_objects s x" if "x \<in> set ts" for x
  proof -
    have "x \<in> dom (y_tasks s)" using D(3) that by simp
    then obtain t where t: "y_tasks s x = Some t" by blast
    with f(9) that obtain l where "y_tasks s1 x = Some (t\<lparr>tk_next := l\<rparr>)" by blast
    with t show ?thesis by (intro task_objects_cong) (simp_all add: f(6))
  qed
  then have "(b, 1) \<in> heap_live h4" if x: "x \<in> set ts" "b \<in> set (task_objects s1 x)" for x b
    using tasks_okD(5) [OF f(2) x] P(8) [of x b] x h2(3) h3(3) h4(3) by auto
  then have "tasks_ok (put_y_heap s1 h4) ts" by (rule tasks_ok_release [OF f(2)])
  then have tok: "tasks_ok s' ts" by (rule tasks_ok_fields) (simp_all add: s'_def put_y_heap_def y_heap_def put_heap_def)
  have ys: "y_heap s' = h4" by (simp add: s'_def y_heap_def put_y_heap_def put_heap_def)
  show thesis by (rule that [OF run tok]) (use f(5,6,9) h4(2) live ys in \<open>auto simp: s'_def put_y_heap_def ac_simps\<close>)
qed

section \<open>Properties\<close>

text \<open>
  C15: a forked process. With room in the heap \<^verbatim>\<open>process_fork\<close> puts a child in the first free slot, with a task at the end of the list that has the
  registers of the parent but for the result 0. The program and the stack of the parent are copied to objects of the child, and the live memory stays as
  it was. But the copied address space still translates to the memory of the parent: at every address, parent and child load the same bytes, and
  what one of them stores the other one finds, so that the copies are never used.
\<close>

theorem fork_shares_memory:
  assumes ok: "tasks_ok s xs" and parent: "y_procs s parent = Some p" "(parent, 2) \<in> heap_live (y_heap s)" "length (p_filename p) = PEACHOS_MAX_PATH"
    and t: "y_tasks s (p_task p) = Some t"
    and mem: "(p_ptr p, blocks_of (p_size p)) \<in> heap_live (y_heap s)" "(p_stack p, 4) \<in> heap_live (y_heap s)" "0 < unat (p_size p)" "unat (p_size p) < 2 ^ 31"
    and slot: "process_get_free_slot s = int slot"
    and room: "page_slack (y_heap s) (blocks_of (p_size p) + 1033)" "open_run (y_heap s) (blocks_of (p_size p) + 6)"
  shows "\<exists>child s' c ct. process_fork s parent = Some (0, child, s') \<and> y_processes s' = (y_processes s)[slot := child]
     \<and> y_procs s' child = Some c \<and> y_tasks s' (p_task c) = Some ct \<and> tk_process ct = child \<and> tasks_ok s' (xs @ [p_task c])
     \<and> tk_registers ct = (tk_registers t)\<lparr>r_eax := 0\<rparr>
     \<and> load_bytes (y_ram s') (p_ptr c) (unat (p_size p)) = load_bytes (y_ram s) (p_ptr p) (unat (p_size p))
     \<and> load_bytes (y_ram s') (p_stack c) 16384 = load_bytes (y_ram s) (p_stack p) 16384
     \<and> p_ptr c \<noteq> p_ptr p \<and> p_stack c \<noteq> p_stack p \<and> keeps (y_heap s) (y_ram s) (y_ram s')
     \<and> y_procs s' parent = Some p \<and> map_option tk_page_directory (y_tasks s' (p_task p)) = Some (tk_page_directory t)
     \<and> (\<forall>va. vload (y_ram s') (tk_page_directory ct) va = vload (y_ram s') (tk_page_directory t) va
            \<and> vload (y_ram s') (tk_page_directory t) va = map_option (\<lambda>pa. y_ram s' (unat pa)) (translate (y_ram s) (tk_page_directory t) va))
     \<and> (\<forall>va b. vstore (y_ram s') (tk_page_directory ct) va b = vstore (y_ram s') (tk_page_directory t) va b)"
proof -
  let ?h = "y_heap s" and ?m = "y_ram s"
  have "page_slack ?h (blocks_of (p_size p) + (6 + (1027 + 0)))" using room(1) by simp
  then obtain child h1 m1 ptr h2 m2 stack h3 m3 where
    a: "kzalloc_ram ?h ?m 5256 = Some (child, h1, m1)" "kzalloc_ram h1 m1 (p_size p) = Some (ptr, h2, m2)"
    "kzalloc_ram h2 (copy_object m2 ptr (p_ptr p) (p_size p)) 16384 = Some (stack, h3, m3)" "child \<noteq> 0" "ptr \<noteq> 0" "stack \<noteq> 0" "page_slack h3 (1027 + 0)"
    "\<And>n. (child, n) \<notin> heap_live ?h" "ptr \<noteq> p_ptr p" "stack \<noteq> p_stack p" "heap_live ?h \<subseteq> heap_live h3"
    "keeps ?h ?m (copy_object m3 stack (p_stack p) 16384)" "(ptr, blocks_of (p_size p)) \<in> heap_live h3" "(stack, 4) \<in> heap_live h3" "(child, 2) \<in> heap_live h3"
    "load_bytes (copy_object m3 stack (p_stack p) 16384) ptr (unat (p_size p)) = load_bytes ?m (p_ptr p) (unat (p_size p))"
    "load_bytes (copy_object m3 stack (p_stack p) 16384) stack 16384 = load_bytes ?m (p_stack p) 16384" by (rule fork_memory [OF _ room(2) mem(3,4,1,2)]) blast
  have np: "parent \<noteq> child" using parent(2) a(8) by blast
  obtain name where name: "strncpy (p_filename zero_process) (p_filename p) (int PEACHOS_MAX_PATH) = Some name"
    using strncpy_total [of 107 "p_filename zero_process" "p_filename p"] parent(3) by (auto simp: strncpy_def zero_process_def)
  define c where "c = zero_process\<lparr>p_ptr := ptr, p_size := p_size p, p_stack := stack, p_filename := name, p_id := word_of_int (int slot)\<rparr>"
  define m where "m = copy_object m3 stack (p_stack p) 16384"
  let ?s = "with_mem (put_proc s child c) h3 m"
  have "sys_kzalloc s 5256 = Some (child, with_mem s h1 m1)" using sys_kzalloc_mem [OF a(1), of s] by (simp only: with_mem_self)
  then have run: "process_fork s parent = fork_task ?s p child (int slot)"
    unfolding process_fork_def slot using a(2-6) np name parent(1)
    by (simp add: Let_def process_init_def sys_kzalloc_mem copy_ram_mem c_def m_def)
  have "tasks_ok ?s xs" by (rule tasks_ok_mem [of "put_proc s child c", simplified, OF ok room(1) a(12) [folded m_def] a(11)])
  moreover have "page_slack (y_heap ?s) (1027 + 0)" "y_procs ?s child = Some c" "y_tasks ?s (p_task p) = Some t" using a(7) t by simp_all
  ultimately obtain b ct h4 m4 s' where f: "fork_task ?s p child (int slot) = Some (0, child, s')"
    "s' = (with_task (put_proc ?s child (c\<lparr>p_task := b\<rparr>)) xs b ct h4 m4)\<lparr>y_processes := (y_processes ?s)[nat (int slot) := child]\<rparr>"
    "tasks_ok s' (xs @ [b])" "tk_process ct = child" "tk_registers ct = (tk_registers t)\<lparr>r_eax := 0\<rparr>" "keeps h3 m m4"
    "\<And>va. translate m4 (tk_page_directory ct) va = translate m (tk_page_directory t) va" "b \<notin> set xs"
    using fork_task_run [of ?s xs 0 child c p t "int slot"] unfolding with_mem_simps by metis
  have px: "p_task p \<in> set xs" using tasks_okD(3) [OF ok] t by auto
  then have "xs \<noteq> []" "p_task p \<noteq> b" using f(8) by auto
  then obtain l where l: "new_tasks (put_proc ?s child (c\<lparr>p_task := b\<rparr>)) xs b ct (p_task p) = Some (t\<lparr>tk_next := l\<rparr>)"
    using new_tasks_old [of "put_proc ?s child (c\<lparr>p_task := b\<rparr>)" "p_task p" t b xs ct] t by auto
  have S: "y_processes s' = (y_processes s)[slot := child]" "y_procs s' child = Some (c\<lparr>p_task := b\<rparr>)" "y_tasks s' b = Some ct" "y_ram s' = m4"
    "y_procs s' parent = Some p" "map_option tk_page_directory (y_tasks s' (p_task p)) = Some (tk_page_directory t)"
    using l np parent(1) by (simp_all add: f(2) new_tasks_simps del: map_option_eq_Some)
  have ke: "keeps ?h ?m m4" by (rule keeps_trans [OF a(12) [folded m_def] keeps_older [OF f(6) a(11)]])
  note K = keeps_translate [OF room(1) task_chunk_ok(1) [OF ok t]]
  have tr: "translate m4 (tk_page_directory ct) va = translate ?m (tk_page_directory t) va" for va
    unfolding f(7) by (rule K [OF a(12) [folded m_def]])
  have tp: "translate m4 (tk_page_directory t) va = translate ?m (tk_page_directory t) va" for va by (rule K [OF ke])
  have "load_bytes m4 ptr (unat (p_size p)) = load_bytes ?m (p_ptr p) (unat (p_size p))"
    using a(16) keeps_load [OF f(6) a(13) blocks_of_covers(1) [OF mem(4)]] by (simp add: m_def)
  moreover have "load_bytes m4 stack 16384 = load_bytes ?m (p_stack p) 16384" using a(17) keeps_load [OF f(6) a(14), of 16384] by (simp add: m_def)
  ultimately show ?thesis
    by (intro exI [of _ child] exI [of _ s'] exI [of _ "c\<lparr>p_task := b\<rparr>"] exI [of _ ct] conjI)
       (use run f(1,3,4,5) ke tr tp a(9,10) in \<open>simp_all add: S c_def vload_def vstore_def del: map_option_eq_Some\<close>)
qed

subsection \<open>A process to fork\<close>

lemma runs_task_new: "task_new s p = Some (Inr a, s') \<Longrightarrow> runs (y_heap s) (1027 + k) \<Longrightarrow> runs (y_heap s') k"
proof -
  assume a: "task_new s p = Some (Inr a, s')" "runs (y_heap s) (1027 + k)"
  from a(1) obtain b h1 m1 c h2 m2 where d: "kzalloc_ram (y_heap s) (y_ram s) 64 = Some (b, h1, m1)" "paging_new_4gb h1 m1 5 = Some (c, h2, m2)" "y_heap s' = h2"
    by (auto simp: task_new_def task_init_def sys_kzalloc_def bind_Some_iff Let_def split: if_splits)
  have "runs h1 (1026 + k)" using runs_small [OF _ _ d(1)] a(2) by (simp add: small_size_def)
  from runs_paging_new [OF d(2) this] d(3) show ?thesis by simp
qed

text \<open>A process of 5 bytes with its structure, program and stack in the heap, and one task.\<close>

lemma demo_process:
  obtains s parent p t where "tasks_ok s [p_task p]" "y_procs s parent = Some p" "(parent, 2) \<in> heap_live (y_heap s)" "length (p_filename p) = PEACHOS_MAX_PATH"
    "y_tasks s (p_task p) = Some t" "(p_ptr p, blocks_of (p_size p)) \<in> heap_live (y_heap s)" "(p_stack p, 4) \<in> heap_live (y_heap s)" "p_size p = 5"
    "process_get_free_slot s = int 0" "page_slack (y_heap s) (blocks_of (p_size p) + 1033)" "open_run (y_heap s) (blocks_of (p_size p) + 6)"
proof -
  have b: "blocks_of 5 = 1" by (simp add: blocks_of_small small_size_def)
  have h: "y_heap demo_sys = page_demo" by (simp add: y_heap_def demo_sys_def demo_vfs0_def)
  have "page_slack page_demo (1027 + 1500)" using ph.slack_mono [OF page_demo_slack] by simp
  then obtain a t h m where t: "task_new demo_sys 0 = Some (Inr a, with_task demo_sys [] a t h m)" "tasks_ok (with_task demo_sys [] a t h m) ([] @ [a])"
    "page_slack h 1500" using task_new_full [OF demo_sys_ok(1), unfolded h] by metis
  have "runs (y_heap demo_sys) (1027 + 1500)" unfolding h by (rule runs_mono [OF runs_fresh]) simp
  from runs_task_new [OF t(1) this] have "runs h 1500" by simp
  then have s1: "page_slack h (blocks_of 5256 + 1498)" "0 < blocks_of 5256" "open_run h (blocks_of 5256 + 1498)"
    using t(3) by (simp_all add: process_blocks runs_def)
  obtain c h1 m1 where 1: "page_slack h1 1498" "open_run h1 1498" "heap_live h1 = insert (c, blocks_of 5256) (heap_live h)" "keeps h m m1"
    using kzalloc_ram_run [OF s1 process_sizes(1)] by metis
  have s2: "page_slack h1 (blocks_of 5 + 1497)" "0 < blocks_of 5" "open_run h1 (blocks_of 5 + 1497)" "unat (5 :: u32) < 2 ^ 31" using 1(1,2) by (simp_all add: b)
  obtain d h2 m2 where 2: "page_slack h2 1497" "open_run h2 1497" "heap_live h2 = insert (d, blocks_of 5) (heap_live h1)" "keeps h1 m1 m2"
    using kzalloc_ram_run [OF s2] by metis
  have s3: "page_slack h2 (blocks_of 16384 + 1493)" "0 < blocks_of 16384" "open_run h2 (blocks_of 16384 + 1493)" using 2(1,2) by (simp_all add: process_blocks)
  obtain e h3 m3 where 3: "page_slack h3 1493" "open_run h3 1493" "heap_live h3 = insert (e, blocks_of 16384) (heap_live h2)" "keeps h2 m2 m3"
    using kzalloc_ram_run [OF s3 process_sizes(2)] by metis
  define p where "p = zero_process\<lparr>p_task := a, p_ptr := d, p_size := 5, p_stack := e\<rparr>"
  define s where "s = with_mem (put_proc (with_task demo_sys [] a t h m) c p) h3 m3"
  have sub: "heap_live h \<subseteq> heap_live h1" "heap_live h \<subseteq> heap_live h2" "heap_live h \<subseteq> heap_live h3" using 1(3) 2(3) 3(3) by auto
  have "keeps h m m3" by (rule keeps_trans [OF keeps_trans [OF 1(4) keeps_older [OF 2(4) sub(1)]] keeps_older [OF 3(4) sub(2)]])
  then have "tasks_ok s [p_task p]" unfolding s_def using tasks_ok_mem [of "put_proc (with_task demo_sys [] a t h m) c p" "[a]" 1500 m3 h3] t(2,3) sub(3)
    by (simp add: p_def)
  moreover have "page_slack (y_heap s) (blocks_of (p_size p) + 1033)" "open_run (y_heap s) (blocks_of (p_size p) + 6)"
    using ph.slack_mono [OF 3(1)] open_run_mono [OF 3(2)] by (simp_all add: s_def p_def b)
  ultimately show thesis using 1(3) 2(3) 3(3)
    by (intro that [of s p c t]) (simp_all add: s_def p_def zero_process_def new_tasks_simps process_blocks process_get_free_slot_def demo_sys_def numeral_eq_Suc)
qed

theorem fork_shares_memory_witness:
  "\<exists>s parent p t child s' c ct. process_fork s parent = Some (0, child, s') \<and> y_procs s' child = Some c \<and> y_tasks s' (p_task c) = Some ct
     \<and> y_procs s parent = Some p \<and> y_tasks s (p_task p) = Some t \<and> p_ptr c \<noteq> p_ptr p
     \<and> vstore (y_ram s') (tk_page_directory ct) 0x400000 7 = vstore (y_ram s') (tk_page_directory t) 0x400000 7"
proof -
  obtain s parent p t where d: "tasks_ok s [p_task p]" "y_procs s parent = Some p" "(parent, 2) \<in> heap_live (y_heap s)" "length (p_filename p) = PEACHOS_MAX_PATH"
    "y_tasks s (p_task p) = Some t" "(p_ptr p, blocks_of (p_size p)) \<in> heap_live (y_heap s)" "(p_stack p, 4) \<in> heap_live (y_heap s)" "p_size p = 5"
    "process_get_free_slot s = int 0" "page_slack (y_heap s) (blocks_of (p_size p) + 1033)" "open_run (y_heap s) (blocks_of (p_size p) + 6)" by (rule demo_process)
  have "0 < unat (p_size p)" "unat (p_size p) < 2 ^ 31" by (simp_all add: d(8))
  from fork_shares_memory [OF d(1-7) this d(9-11)] d(2,5) show ?thesis by blast
qed

end
