(* ===== verification/Program_Loading.thy ===== *)
theory Program_Loading
  imports Process_Runs Heap_Pool
begin

text \<open>
  Loading a program, \<^verbatim>\<open>process_load\<close> of \<^verbatim>\<open>src/src/task/process.c\<close>: from the bytes of a file on a mounted volume to the bytes that the
  task finds at the address where it starts.
\<close>

section \<open>Files and the heap\<close>

text \<open>The mounted volume and its open files do not depend on the rest of the heap.\<close>

lemma fat_mounted_heap:
  assumes "fat_mounted v M" and "heap_live (k_heap (v_k v)) \<subseteq> heap_live h"
  shows "fat_mounted (put_heap v h) M"
proof -
  note D = mountedD [OF assms(1)]
  have "fds_inv fat_owned (put_heap v h)" by (rule fds_inv_same [OF D(2)]) (use assms(2) in \<open>simp_all add: put_heap_def\<close>)
  then show ?thesis using fatfs.rep_heap [OF D(1)] D(3) by (simp add: mounted_def put_heap_def)
qed

lemma fat_handle_heap: "fat_handle v fd w k p \<Longrightarrow> fat_handle (put_heap v h) fd w k p"
  by (rule handle_other) (simp_all add: put_heap_def fat_opened_heap)

text \<open>A file that is open for reading takes seven blocks, so that of eight runs of free blocks one stays whole.\<close>

lemma fopen_read_run:
  assumes "fat_mounted v M" and "good_name xs" and "M (canon xs) \<noteq> None" and "i < 511" "v_fds v ! i = None"
    and sl: "page_slack (k_heap (v_k v)) (7 + k)" and run: "open_run (k_heap (v_k v)) (8 * n)"
  obtains fd v1 d leak where "fopen kernel_ops v (path_of xs) mode_r = Some (fd, v1)" "fat_mounted v1 M" "page_slack (k_heap (v_k v1)) k"
    "open_run (k_heap (v_k v1)) n" "fat_handle v1 fd False (canon xs) 0" "v_fds v1 ! nat (fd - 1) = Some d"
    "grown heap_live (k_heap (v_k v)) (leak @ desc_objects fat_owned d) (k_heap (v_k v1))" "(v_fds v1)[nat (fd - 1) := None] = v_fds v"
proof -
  have en: "entry_room (v_k v) 0" by (simp add: entry_room_def)
  have hs: "heap_slack (k_heap (v_k v)) (4 + (k + 3))" using sl by (simp add: page_slack_def add.commute)
  from fat_fopen_read [OF assms(1,2) path_of_cstr [OF assms(2)] mode_simps(2) assms(3) en assms(4,5) hs] obtain fd v1 where
    o: "fopen kernel_ops v (path_of xs) mode_r = Some (fd, v1)" "fat_mounted v1 M" "heap_slack (k_heap (v_k v1)) k"
    "fopen_ok fat_opened data_room fat_owned FAT16 v (canon xs) False fd v1" by blast
  from o(4) obtain d leak where d: "fat_handle v1 fd False (canon xs) 0" "v_fds v1 ! nat (fd - 1) = Some d" "length leak = 3"
    "grown heap_live (k_heap (v_k v)) (leak @ desc_objects fat_owned d) (k_heap (v_k v1))"
    "\<forall>n. n \<noteq> nat (fd - 1) \<longrightarrow> v_fds v1 ! n = v_fds v ! n" "v_fds v ! nat (fd - 1) = None"
    unfolding fopen_ok_def by blast
  have pl: "k_pool (v_k v1) = k_pool (v_k v)" by (rule fopen_pool [OF o(1) mountedD(3) [OF assms(1)]])
  then have s1: "page_slack (k_heap (v_k v1)) k" using sl o(3) by (simp add: page_slack_def pool_def)
  let ?as = "leak @ desc_objects fat_owned d"
  have "length (desc_objects fat_owned d) \<le> 4" by (simp add: desc_objects_def desc_addrs_def split: option.split fat_item_ptr.split)
  then have "Suc (length ?as) * n \<le> 8 * n" using d(3) by (intro mult_le_mono1) simp
  then have rn: "open_run (k_heap (v_k v)) (Suc (length ?as) * n)" by (rule open_run_mono [OF run])
  have r1: "open_run (k_heap (v_k v1)) n"
    by (rule run_survives_pool [OF _ _ pl _ rn]) (use sl s1 d(4) in \<open>simp_all add: page_slack_def heap_slack_def grown_def\<close>)
  have len: "length (v_fds v1) = 512" "length (v_fds v) = 512"
    using fds_invD(1) [OF mountedD(2) [OF o(2)]] fds_invD(1) [OF mountedD(2) [OF assms(1)]] by simp_all
  have "(v_fds v1)[nat (fd - 1) := None] ! n = v_fds v ! n" if "n < 512" for n
    using that d(5,6) len by (cases "n = nat (fd - 1)") simp_all
  then have "(v_fds v1)[nat (fd - 1) := None] = v_fds v" using len by (intro nth_equalityI) simp_all
  then show thesis by (rule that [OF o(1,2) s1 r1 d(1,2,4)])
qed

section \<open>Reading the program\<close>

text \<open>The state with another file layer and memory.\<close>

definition with_files :: "sys \<Rightarrow> fat_file_descriptor vfs \<Rightarrow> ram \<Rightarrow> sys" where
  "with_files s v m = s\<lparr>y_vfs := v, y_ram := m\<rparr>"

lemma with_files_simps [simp]:
  "y_vfs (with_files s v m) = v" "y_ram (with_files s v m) = m" "y_heap (with_files s v m) = k_heap (v_k v)" "y_tasks (with_files s v m) = y_tasks s"
  "y_procs (with_files s v m) = y_procs s" "y_processes (with_files s v m) = y_processes s" "y_task_head (with_files s v m) = y_task_head s"
  "y_task_tail (with_files s v m) = y_task_tail s" "y_current_task (with_files s v m) = y_current_task s"
  "with_files (with_files s v m) v' m' = with_files s v' m'" "with_files (put_proc s a p) v m = put_proc (with_files s v m) a p"
  by (simp_all add: with_files_def y_heap_def put_proc_def)

lemma tasks_ok_files: "tasks_ok (with_files s v m) ts = tasks_ok (with_mem s (k_heap (v_k v)) m) ts"
proof -
  have "task_objects (with_files s v m) x = task_objects (with_mem s (k_heap (v_k v)) m) x" for x by (rule task_objects_cong) simp_all
  then have "task_objects (with_files s v m) = task_objects (with_mem s (k_heap (v_k v)) m)" by (rule ext)
  then show ?thesis by (simp add: tasks_ok_def task_ring_def)
qed

lemma blocks_positive: "0 < unat sz \<Longrightarrow> unat sz < 2 ^ 31 \<Longrightarrow> 0 < blocks_of sz"
  using blocks_of_covers(1) [of sz] by (cases "blocks_of sz = 0") simp_all

text \<open>
  The body between the opening and the closing of the file: the bytes of the file are in a fresh object.
\<close>

lemma load_body_run:
  assumes M: "fat_mounted (y_vfs s) M" and h: "fat_handle (y_vfs s) fd False k 0" and bs: "M k = Some bs" "bs \<noteq> []" "length bs < 2 ^ 31"
    and n: "n = blocks_of (word_of_nat (length bs))" and sl: "page_slack (y_heap s) (n + j)" and run: "open_run (y_heap s) (n + r)"
    and p: "y_procs s process = Some p"
  obtains a v m where "load_binary_body s fd process = Some (0, with_files (put_proc s process (p\<lparr>p_ptr := a, p_size := word_of_nat (length bs)\<rparr>)) v m)"
    "fat_mounted v M" "fat_handle v fd False k 0" "v_fds v = v_fds (y_vfs s)" "page_slack (k_heap (v_k v)) j" "open_run (k_heap (v_k v)) r"
    "keeps (y_heap s) (y_ram s) m" "heap_live (k_heap (v_k v)) = insert (a, n) (heap_live (y_heap s))" "\<And>n. (a, n) \<notin> heap_live (y_heap s)"
    "a \<noteq> 0" "load_bytes m a (length bs) = bs"
proof -
  let ?sz = "word_of_nat (length bs) :: u32"
  have sz: "unat ?sz = length bs" using bs(3) by (simp add: unsigned_of_nat take_bit_nat_eq_self_iff)
  have b: "0 < blocks_of ?sz" "unat ?sz < 2 ^ 31" using blocks_positive [of ?sz] bs(2,3) by (simp_all add: sz)
  from fat_fstat [OF M h bs(1)] obtain st where st0: "fstat kernel_ops (y_vfs s) fd \<lparr>st_flags = 0, st_filesize = 0\<rparr> = Some (0, st)"
    "unat (st_filesize st) = length bs" by blast
  have st: "st_filesize st = ?sz" by (rule of_nat_eqI [OF st0(2)])
  obtain a h1 m1 where a: "kzalloc_ram (y_heap s) (y_ram s) ?sz = Some (a, h1, m1)" "a \<noteq> 0" "page_slack h1 j" "open_run h1 r"
    "heap_live h1 = insert (a, n) (heap_live (y_heap s))" "\<And>n. (a, n) \<notin> heap_live (y_heap s)"
    "\<And>b i. (b, i) \<in> heap_live (y_heap s) \<Longrightarrow> extent a n \<inter> extent b i = {}" "keeps (y_heap s) (y_ram s) m1"
    using kzalloc_ram_run [OF sl [unfolded n] b(1) run [unfolded n] b(2)] unfolding n by metis
  let ?v1 = "put_heap (y_vfs s) h1"
  have M1: "fat_mounted ?v1 M" by (rule fat_mounted_heap [OF M]) (use a(5) in \<open>auto simp: y_heap_def\<close>)
  from fat_fread_members [where z = "length bs" and n = 1, OF M1 fat_handle_heap [OF h] bs(1)] bs(2,3) obtain v where
    v: "fread kernel_ops ?v1 ?sz 1 fd = Some (1, bs, v)" "fat_mounted v M" "fat_handle v fd False k 0" "k_heap (v_k v) = k_heap (v_k ?v1)" "v_fds v = v_fds ?v1"
    by auto
  let ?m = "store_bytes m1 a bs"
  have len: "length bs \<le> 4096 * n" using blocks_of_covers(1) [OF b(2)] by (simp add: n sz)
  have "keeps (y_heap s) m1 ?m" by (rule store_keeps [of _ a n, OF _ len]) (rule a(7))
  then have ke: "keeps (y_heap s) (y_ram s) ?m" by (rule keeps_trans [OF a(8)])
  have kz: "sys_kzalloc s ?sz = Some (a, with_mem s h1 m1)" using sys_kzalloc_mem [OF a(1), of s] by (simp only: with_mem_self)
  have run': "load_binary_body s fd process = Some (0, with_files (put_proc s process (p\<lparr>p_ptr := a, p_size := ?sz\<rparr>)) v ?m)"
    using st0(1) kz a(2) v(1) p
    by (simp add: load_binary_body_def st) (simp add: with_files_def put_proc_def with_mem_def put_y_heap_def)
  have lb: "load_bytes ?m a (length bs) = bs" by (rule load_store_bytes)
  have hp: "k_heap (v_k v) = h1" using v(4) by (simp add: put_heap_def)
  show thesis by (rule that [OF run' v(2,3) _ _ _ ke _ a(6,2) lb]) (use v(5) hp a(3-5) in \<open>simp_all add: put_heap_def\<close>)
qed

text \<open>The whole of \<^verbatim>\<open>process_load_data\<close>: the file is closed again, and nothing that was live is lost.\<close>

lemma load_data_run:
  assumes M: "fat_mounted (y_vfs s) M" and xs: "good_name xs" and bs: "M (canon xs) = Some bs" "bs \<noteq> []" "length bs < 2 ^ 31"
    and i: "i < 511" "v_fds (y_vfs s) ! i = None"
    and n: "n = blocks_of (word_of_nat (length bs))" and sl: "page_slack (y_heap s) (7 + (n + j))" and run: "open_run (y_heap s) (8 * (n + r))"
    and p: "y_procs s process = Some p"
  obtains a v m where "process_load_data s (path_of xs) process =
       Some (0, with_files (put_proc s process (p\<lparr>p_ptr := a, p_size := word_of_nat (length bs)\<rparr>)) v m)"
    "fat_mounted v M" "v_fds v = v_fds (y_vfs s)" "page_slack (k_heap (v_k v)) j" "open_run (k_heap (v_k v)) r" "keeps (y_heap s) (y_ram s) m"
    "heap_live (y_heap s) \<subseteq> heap_live (k_heap (v_k v))" "(a, n) \<in> heap_live (k_heap (v_k v))" "\<And>n. (a, n) \<notin> heap_live (y_heap s)"
    "a \<noteq> 0" "load_bytes m a (length bs) = bs"
proof -
  note ye = y_heap_def
  have "M (canon xs) \<noteq> None" using bs(1) by simp
  then obtain fd v1 d leak where o: "fopen kernel_ops (y_vfs s) (path_of xs) mode_r = Some (fd, v1)" "fat_mounted v1 M" "page_slack (k_heap (v_k v1)) (n + j)"
    "open_run (k_heap (v_k v1)) (n + r)" "fat_handle v1 fd False (canon xs) 0" "v_fds v1 ! nat (fd - 1) = Some d"
    "grown heap_live (y_heap s) (leak @ desc_objects fat_owned d) (k_heap (v_k v1))" "(v_fds v1)[nat (fd - 1) := None] = v_fds (y_vfs s)"
    unfolding ye by (rule fopen_read_run [OF M xs _ i sl [unfolded ye] run [unfolded ye]]) blast
  let ?s1 = "with_files s v1 (y_ram s)"
  have s1: "s\<lparr>y_vfs := v1\<rparr> = ?s1" by (simp add: with_files_def)
  have fd: "fd \<noteq> 0" using o(5) by (auto simp: handle_def)
  obtain a v2 m where b: "load_binary_body ?s1 fd process = Some (0, put_proc (with_files s v2 m) process (p\<lparr>p_ptr := a, p_size := word_of_nat (length bs)\<rparr>))"
    "fat_mounted v2 M" "fat_handle v2 fd False (canon xs) 0" "v_fds v2 = v_fds v1" "page_slack (k_heap (v_k v2)) j" "open_run (k_heap (v_k v2)) r"
    "keeps (k_heap (v_k v1)) (y_ram s) m" "heap_live (k_heap (v_k v2)) = insert (a, n) (heap_live (k_heap (v_k v1)))"
    "\<And>n. (a, n) \<notin> heap_live (k_heap (v_k v1))" "a \<noteq> 0" "load_bytes m a (length bs) = bs"
    using load_body_run [of ?s1, unfolded with_files_simps, OF o(2,5) bs n o(3,4) p] by metis
  have "heap_slack (k_heap (v_k v2)) j" using b(5) by (simp add: page_slack_def)
  from fat_fclose [OF b(2,3) this] o(6) obtain h v where
    c: "fclose kernel_ops v2 fd = Some (0, v)" "fat_mounted v M" "v_fds v = (v_fds v2)[nat (fd - 1) := None]" "k_heap (v_k v) = h" "heap_slack h j"
    "heap_live h = heap_live (k_heap (v_k v2)) - (\<lambda>a. (a, 1)) ` set (desc_objects fat_owned d)" unfolding b(4) by auto
  have pl: "k_pool (v_k v) = k_pool (v_k v2)" by (rule fclose_pool [OF c(1)])
  have sl4: "page_slack h j" using b(5) c(4,5) pl by (simp add: page_slack_def pool_def)
  have rn4: "open_run h r"
    by (rule run_survives_pool [where as = "[]", OF _ _ pl [unfolded c(4)]]) (use b(5,6) c(6) sl4 in \<open>simp_all add: page_slack_def heap_slack_def\<close>)
  have old: "heap_live (y_heap s) \<subseteq> heap_live (k_heap (v_k v1))" "\<And>x n. x \<in> set (desc_objects fat_owned d) \<Longrightarrow> (x, n) \<notin> heap_live (y_heap s)"
    "\<And>x. x \<in> set (desc_objects fat_owned d) \<Longrightarrow> (x, 1) \<in> heap_live (k_heap (v_k v1))" using o(7) by (auto simp: grown_def)
  have "a \<notin> set (desc_objects fat_owned d)" using old(3) b(9) by blast
  then have lv: "heap_live (y_heap s) \<subseteq> heap_live h" "(a, n) \<in> heap_live h" "\<And>n. (a, n) \<notin> heap_live (y_heap s)"
    using old c(6) b(8,9) by auto
  have ke: "keeps (y_heap s) (y_ram s) m" by (rule keeps_older [OF b(7) old(1)])
  have rn: "process_load_data s (path_of xs) process = Some (0, with_files (put_proc s process (p\<lparr>p_ptr := a, p_size := word_of_nat (length bs)\<rparr>)) v m)"
    using o(1) [unfolded mode_r_def] fd b(1) c(1) by (simp add: process_load_data_def process_load_binary_def s1 sys_fclose_def) (simp add: with_files_def put_proc_def)
  show thesis by (rule that [OF rn c(2) _ _ _ ke _ _ lv(3) b(10,11)]) (use o(8) b(4) c(3,4) sl4 rn4 lv in simp_all)
qed

section \<open>Mapping objects\<close>

text \<open>The end of an object, rounded up to a page, is the end of its last block.\<close>

lemma align_end:
  assumes "aligned a" and "unat a + 4096 * blocks_of sz < 2 ^ 32" and "unat sz < 2 ^ 31"
  shows "paging_align_address (a + sz) = a + of_nat (blocks_of sz) * 4096"
proof -
  let ?n = "blocks_of sz" and ?p = "a + sz"
  note cov = blocks_of_covers [OF assms(3)]
  have up: "unat ?p = unat a + unat sz" using cov(1) assms(2) by (subst unat_add_lem [THEN iffD1]) simp_all
  have um: "unat ?p mod 4096 = unat sz mod 4096" using assms(1) unfolding up by (auto elim: dvdE)
  then have r: "?p mod 4096 = of_nat (unat sz mod 4096)" by (intro of_nat_eqI) (simp add: unat_mod)
  define q where "q = unat sz div 4096"
  have sz: "unat sz = 4096 * q + unat sz mod 4096" "unat sz mod 4096 < 4096" by (simp_all add: q_def)
  show ?thesis
  proof (cases "unat sz mod 4096 = 0")
    case True
    then have "?n = q" using cov sz by linarith
    then have "sz = of_nat (4096 * ?n)" using sz True by (intro of_nat_eqI) simp
    then show ?thesis using r True by (simp add: paging_align_address_def mult.commute)
  next
    case False
    then have "?n = Suc q" using cov sz by linarith
    then have "unat sz + 4096 = 4096 * ?n + unat sz mod 4096" using sz by simp
    then have "of_nat (unat sz + 4096) = (of_nat (4096 * ?n + unat sz mod 4096) :: u32)" by simp
    then have "sz + 4096 = of_nat ?n * 4096 + ?p mod 4096" by (simp add: r mult.commute)
    then have "?p + 4096 - ?p mod 4096 = a + of_nat ?n * 4096" by (simp add: algebra_simps)
    moreover have "unat (?p mod 4096) \<noteq> 0" using False um by (simp add: unat_mod)
    then have "?p mod 4096 \<noteq> 0" by (metis unat_0)
    ultimately show ?thesis by (simp add: paging_align_address_def)
  qed
qed

lemma unat_pages:
  assumes "unat a + 4096 * n < 2 ^ 32"
  shows "unat (a + of_nat n * 4096 :: u32) = unat a + 4096 * n"
proof -
  have "a + of_nat n * 4096 = (of_nat (unat a + 4096 * n) :: u32)" by simp
  then show ?thesis using assms by (simp add: unsigned_of_nat take_bit_nat_eq_self_iff del: of_nat_add of_nat_mult)
qed

text \<open>An object of \<open>n\<close> blocks, mapped to \<open>n\<close> pages from \<open>va\<close> on.\<close>

lemma map_object:
  assumes "chunk_shape m c" and "all_present m c" and "aligned va" and a: "aligned a" "unat a + 4096 * n < 2 ^ 32"
    and n: "n = blocks_of sz" "unat sz < 2 ^ 31" and va: "unat va + 4096 * n < 2 ^ 32"
  obtains m' where "paging_map_to m c va a (paging_align_address (a + sz)) 7 = (0, m')"
    "unchanged m m' (\<Union>a \<in> set (chunk_pages m c). page a)" "chunk_shape m' c" "all_present m' c" "chunk_pages m' c = chunk_pages m c"
    "maps m' c va (4096 * n) (unat a)" "\<And>x. unat x < unat va \<or> unat va + 4096 * n \<le> unat x \<Longrightarrow> translate m' c x = translate m c x"
proof -
  let ?e = "a + of_nat n * 4096"
  have e: "paging_align_address (a + sz) = ?e" using align_end [OF a(1) a(2) [unfolded n(1)] n(2)] by (simp add: n(1))
  have ue: "unat ?e = unat a + 4096 * n" by (rule unat_pages [OF a(2)])
  have ae: "aligned ?e" "a \<le> ?e" "vpage ?e - vpage a = n" using a(1) ue by (auto simp: word_le_nat_alt elim: dvdE)
  have vp: "vpage va + (vpage ?e - vpage a) \<le> 2 ^ 20" using va assms(3) unfolding ae(3) by (auto elim: dvdE)
  have f: "(7 :: u32) < 4096" "bit (7 :: u32) 0" by simp_all
  obtain m' where m': "paging_map_to m c va a ?e 7 = (0, m')" "unchanged m m' (\<Union>i \<in> {..<1024}. page (table_of m c i))"
    "\<And>x. translate m' c x = (if vpage va \<le> vpage x \<and> vpage x < vpage va + (vpage ?e - vpage a)
       then Some ((a + of_nat (vpage x - vpage va) * 4096) OR (x AND 0xfff)) else translate m c x)"
    "chunk_shape m' c" "all_present m' c" "chunk_pages m' c = chunk_pages m c"
    by (rule map_to_space [OF assms(1-3) a(1) ae(1,2) vp f]) blast
  have mp: "maps m' c va (4096 * n) (unat a)"
    unfolding maps_def
  proof (intro allI impI)
    fix i assume i: "i < 4096 * n"
    define q r where "q = i div 4096" and "r = i mod 4096"
    have qr: "i = 4096 * q + r" "r < 4096" "q < n" using i by (simp_all add: q_def r_def less_mult_imp_div_less mult.commute)
    let ?va = "va + of_nat q * 4096" and ?a = "a + of_nat q * 4096"
    have u: "unat ?va = unat va + 4096 * q" "unat ?a = unat a + 4096 * q" using va a(2) qr(3) by (auto intro!: unat_pages)
    have al: "aligned ?va" "aligned ?a" using assms(3) a(1) unfolding u by simp_all
    have x: "va + of_nat i = ?va + of_nat r" using qr(1) by (simp add: mult.commute)
    have "vpage ?va = vpage va + q" using assms(3) unfolding u by (auto elim: dvdE)
    then have "translate m' c (va + of_nat i) = Some (?a OR of_nat r)"
      unfolding m'(3) ae(3) x in_page(2,3) [OF al(1) qr(2)] using qr(3) by simp
    moreover have "unat (?a OR of_nat r) = unat a + i" unfolding in_page(4) [OF al(2) qr(2)] in_page(1) [OF al(2) qr(2)] u(2) qr(1) by simp
    ultimately show "\<exists>pa. translate m' c (va + of_nat i) = Some pa \<and> unat pa = unat a + i" by blast
  qed
  have other: "translate m' c x = translate m c x" if "unat x < unat va \<or> unat va + 4096 * n \<le> unat x" for x
  proof -
    have "\<not> (vpage va \<le> vpage x \<and> vpage x < vpage va + n)" using that assms(3) by (auto elim: dvdE)
    then show ?thesis unfolding m'(3) ae(3) by (rule if_not_P)
  qed
  have un: "unchanged m m' (\<Union>a \<in> set (chunk_pages m c). page a)" by (rule unchanged_mono [OF m'(2)]) (use chunk_members(3) in blast)
  show thesis by (rule that [OF _ un m'(4-6) mp other]) (simp_all add: e m'(1))
qed

section \<open>The memory of a program\<close>

lemma live_bound:
  assumes "page_slack h k" and "(a, n) \<in> heap_live h"
  shows "aligned a" "unat a + 4096 * n \<le> 2 ^ 31" "unat (h_saddr h) \<le> unat a"
proof -
  have inv: "heap_inv h" using assms(1) by (simp add: page_slack_def heap_slack_def)
  obtain b where b: "(b, n) \<in> allocs (ht_entries (h_table h))" "unat a = unat (h_saddr h) + 4096 * b" using live_block [OF inv assms(2)] by metis
  have "b + n \<le> ht_total (h_table h)" using allocsD(1,2) [OF b(1)] inv by (simp add: heap_inv_def table_ok_def)
  moreover have "int (unat (h_saddr h)) + 4096 * int (ht_total (h_table h)) \<le> 2147483648" using inv by (simp add: heap_inv_def)
  then have "unat (h_saddr h) + 4096 * ht_total (h_table h) \<le> 2147483648" by linarith
  ultimately show "unat a + 4096 * n \<le> 2 ^ 31" using b(2) by simp
  show "unat (h_saddr h) \<le> unat a" using b(2) by simp
  show "aligned a" using ph.live_aligned [OF assms] by simp
qed

text \<open>
  The image at \<^verbatim>\<open>0x400000\<close> and the stack below \<^verbatim>\<open>0x3FF000\<close>: the two ranges of the address space \<open>c\<close> that are not mapped to themselves.
\<close>

definition program_space :: "ram \<Rightarrow> u32 \<Rightarrow> u32 \<Rightarrow> nat \<Rightarrow> u32 \<Rightarrow> bool" where
  "program_space m c ptr n stack \<longleftrightarrow> maps m c 0x400000 (4096 * n) (unat ptr) \<and> maps m c 0x3FB000 16384 (unat stack)
     \<and> (\<forall>va. unat va < 0x3FB000 \<or> 0x3FF000 \<le> unat va \<and> unat va < 0x400000 \<or> 0x400000 + 4096 * n \<le> unat va \<longrightarrow> translate m c va = Some va)"

lemma map_memory_run:
  assumes p: "y_procs s process = Some p" "y_tasks s (p_task p) = Some t" and c: "c = tk_page_directory t"
    and sp: "chunk_shape (y_ram s) c" "all_present (y_ram s) c" "\<And>va. translate (y_ram s) c va = Some va"
    and ob: "aligned (p_ptr p)" "unat (p_ptr p) + 4096 * n \<le> 2 ^ 31" "n = blocks_of (p_size p)" "unat (p_size p) < 2 ^ 31"
      "aligned (p_stack p)" "unat (p_stack p) + 16384 \<le> 2 ^ 31"
  obtains m where "process_map_memory s process = Some (0, s\<lparr>y_ram := m\<rparr>)" "program_space m c (p_ptr p) n (p_stack p)"
    "unchanged (y_ram s) m (\<Union>a \<in> set (chunk_pages (y_ram s) c). page a)" "chunk_shape m c" "all_present m c" "chunk_pages m c = chunk_pages (y_ram s) c"
proof -
  have n: "4096 * n < 2 ^ 31 + 4096" using blocks_of_covers(2) [OF ob(4)] ob(3,4) by simp
  have al: "aligned 0x400000" "aligned 0x3FB000" by simp_all
  obtain m1 where m1: "paging_map_to (y_ram s) c 0x400000 (p_ptr p) (paging_align_address (p_ptr p + p_size p)) 7 = (0, m1)"
    "unchanged (y_ram s) m1 (\<Union>a \<in> set (chunk_pages (y_ram s) c). page a)" "chunk_shape m1 c" "all_present m1 c" "chunk_pages m1 c = chunk_pages (y_ram s) c"
    "maps m1 c 0x400000 (4096 * n) (unat (p_ptr p))"
    "\<And>x. unat x < unat (0x400000 :: u32) \<or> unat (0x400000 :: u32) + 4096 * n \<le> unat x \<Longrightarrow> translate m1 c x = translate (y_ram s) c x"
    by (rule map_object [OF sp(1,2) al(1) ob(1) _ ob(3,4)]) (use ob(2) n in simp_all)
  obtain m where m: "paging_map_to m1 c 0x3FB000 (p_stack p) (paging_align_address (p_stack p + 16384)) 7 = (0, m)"
    "unchanged m1 m (\<Union>a \<in> set (chunk_pages m1 c). page a)" "chunk_shape m c" "all_present m c" "chunk_pages m c = chunk_pages m1 c"
    "maps m c 0x3FB000 (4096 * 4) (unat (p_stack p))"
    "\<And>x. unat x < unat (0x3FB000 :: u32) \<or> unat (0x3FB000 :: u32) + 4096 * 4 \<le> unat x \<Longrightarrow> translate m c x = translate m1 c x"
    by (rule map_object [OF m1(3,4) al(2) ob(5) _ process_blocks(2) [symmetric] process_sizes(2)]) (use ob(6) in simp_all)
  have run: "process_map_memory s process = Some (0, s\<lparr>y_ram := m\<rparr>)"
    using p m1(1) m(1) by (simp add: process_map_memory_def process_map_binary_def Let_def c)
  have un: "unchanged (y_ram s) m (\<Union>a \<in> set (chunk_pages (y_ram s) c). page a)"
    by (rule unchanged_trans [OF m1(2) m(2)]) (simp_all add: m1(5))
  have "maps m c 0x400000 (4096 * n) (unat (p_ptr p))"
  proof (rule maps_cong [OF m1(6)])
    fix i assume "i < 4096 * n"
    then have "unat (0x400000 + of_nat i :: u32) = 0x400000 + i" using n by (subst unat_add_lem [THEN iffD1]) (simp_all add: unsigned_of_nat take_bit_nat_eq_self)
    then show "translate m c (0x400000 + of_nat i) = translate m1 c (0x400000 + of_nat i)" by (intro m(7)) simp
  qed
  then have "program_space m c (p_ptr p) n (p_stack p)" using m(6,7) m1(7) sp(3) by (auto simp: program_space_def)
  from that [OF run this un m(3,4)] show thesis using m(5) m1(5) by simp
qed

text \<open>The task of a program: it starts at the image, on its own stack.\<close>

lemma put_proc_with_task: "put_proc (with_task s xs a t h m) b q = with_task (put_proc s b q) xs a t h m"
  by (simp add: put_proc_def with_task_def new_tasks_def put_y_heap_def put_heap_def)

lemma with_task_ram: "(with_task s xs a t h m)\<lparr>y_ram := m'\<rparr> = with_task s xs a t h m'"
  by (simp add: with_task_def)

lemma load_task_run:
  assumes ok: "tasks_ok s xs" and sl: "page_slack (y_heap s) (1027 + k)" and p: "y_procs s process = Some p" and slot: "slot < length (y_processes s)"
    and n: "n = blocks_of (p_size p)" "unat (p_size p) < 2 ^ 31" and ob: "(p_ptr p, n) \<in> heap_live (y_heap s)" "(p_stack p, 4) \<in> heap_live (y_heap s)"
  obtains a t h m s' where "load_task s process (int slot) = Some (0, process, s')"
    "s' = (with_task (put_proc s process (p\<lparr>p_task := a\<rparr>)) xs a t h m)\<lparr>y_processes := (y_processes s)[slot := process]\<rparr>"
    "tasks_ok s' (xs @ [a])" "page_slack h k" "tk_process t = process" "tk_registers t = start_registers" "keeps (y_heap s) (y_ram s) m"
    "heap_live (y_heap s) \<subseteq> heap_live h" "program_space m (tk_page_directory t) (p_ptr p) n (p_stack p)" "space_ok h m (tk_page_directory t)"
    "\<And>b n. b \<in> set (a # chunk_pages m (tk_page_directory t)) \<Longrightarrow> (b, n) \<notin> heap_live (y_heap s)" "a \<notin> set xs"
proof -
  obtain a t h m0 where t: "task_new s process = Some (Inr a, with_task s xs a t h m0)" "tasks_ok (with_task s xs a t h m0) (xs @ [a])" "page_slack h k"
    "tk_process t = process" "tk_registers t = start_registers" "a \<notin> set xs" "a \<noteq> 0" "tk_next t = 0" "tk_prev t = (if xs = [] then 0 else last xs)"
    "\<And>va. translate m0 (tk_page_directory t) va = Some va" "all_present m0 (tk_page_directory t)" "keeps (y_heap s) (y_ram s) m0"
    "heap_live h = heap_live (y_heap s) \<union> (\<lambda>a. (a, 1)) ` set (a # chunk_pages m0 (tk_page_directory t))"
    "\<And>b n. b \<in> set (a # chunk_pages m0 (tk_page_directory t)) \<Longrightarrow> (b, n) \<notin> heap_live (y_heap s)"
    using task_new_full [OF ok sl] by metis
  let ?c = "tk_page_directory t" and ?q = "p\<lparr>p_task := a\<rparr>"
  let ?s = "with_task (put_proc s process ?q) xs a t h m0"
  have "y_tasks (with_task s xs a t h m0) a = Some t" by (simp add: new_tasks_simps)
  note T = task_chunk_ok [OF t(2) this, unfolded with_task_simps]
  have live: "(p_ptr p, n) \<in> heap_live h" "(p_stack p, 4) \<in> heap_live h" using ob t(13) by simp_all
  note B = live_bound [OF t(3) live(1)] live_bound [OF t(3) live(2)]
  obtain m where m: "process_map_memory ?s process = Some (0, ?s\<lparr>y_ram := m\<rparr>)" "program_space m ?c (p_ptr p) n (p_stack p)"
    "unchanged m0 m (\<Union>a \<in> set (chunk_pages m0 ?c). page a)" "all_present m ?c" "chunk_pages m ?c = chunk_pages m0 ?c"
    by (rule map_memory_run [where s = ?s and process = process and p = ?q and t = t and c = ?c and n = n])
       (use n B chunk_ok_shape [OF t(3) T(1)] t(10,11) in \<open>simp_all add: new_tasks_simps\<close>)
  have "(\<Union>a \<in> set (chunk_pages m0 ?c). page a) \<inter> extent b j = {}" if "(b, j) \<in> heap_live (y_heap s)" for b j
  proof -
    have "page x \<inter> extent b j = {}" if x: "x \<in> set (chunk_pages m0 ?c)" for x
      using ph.live_disjoint [OF t(3), of x 1 b j] t(13,14) x \<open>(b, j) \<in> heap_live (y_heap s)\<close> by (metis UnCI extent_one(1) image_eqI list.set_intros(2))
    then show ?thesis by blast
  qed
  then have ke: "keeps (y_heap s) (y_ram s) m" by (rule keeps_trans [OF t(12) keeps_unchanged [OF m(3)]])
  let ?s' = "(with_task (put_proc s process ?q) xs a t h m)\<lparr>y_processes := (y_processes s)[slot := process]\<rparr>"
  have run: "load_task s process (int slot) = Some (0, process, ?s')"
    using t(1,7) p slot m(1) by (simp add: load_task_def put_proc_with_task with_task_ram)
  have sl0: "page_slack (y_heap (put_proc s process ?q)) (1027 + k)" using sl by simp
  have "tasks_ok (with_task (put_proc s process ?q) xs a t h m) (xs @ [a])"
    by (rule with_task_ok [OF _ sl0 t(7,6,8,9)]) (use ok ke t(13,14) T m(5) in \<open>simp_all add: chunk_ok_def\<close>)
  then have tok: "tasks_ok ?s' (xs @ [a])" by simp
  have so: "space_ok h m ?c" using T(1) m(4,5) by (simp add: space_ok_def chunk_ok_def)
  show thesis by (rule that [OF run refl tok t(3-5) ke _ m(2) so]) (use t(6,13,14) m(5) in auto)
qed

section \<open>Loading a program\<close>

lemma free_slot_zero: "free_slot_from ps i = int k \<Longrightarrow> 0 \<le> i \<Longrightarrow> ps ! (k - nat i) = 0"
proof (induction ps arbitrary: i)
  case Nil
  then show ?case by simp
next
  case (Cons p ps)
  show ?case
  proof (cases "p = 0")
    case True
    with Cons.prems show ?thesis by auto
  next
    case False
    with Cons.prems have f: "free_slot_from ps (i + 1) = int k" by simp
    from free_slot_range [OF f] Cons.prems(2) have "Suc (nat i) \<le> k" by (simp add: nat_add_distrib)
    then have "k - nat i = Suc (k - nat (i + 1))" using Cons.prems(2) by (simp add: nat_add_distrib)
    then show ?thesis using Cons.IH [OF f] Cons.prems(2) by simp
  qed
qed

text \<open>The objects of a new process: its structure, the image and the stack.\<close>

lemma load_objects:
  assumes ok: "tasks_ok s ts" and M: "fat_mounted (y_vfs s) M" and xs: "good_name xs" and bs: "M (canon xs) = Some bs" "bs \<noteq> []" "length bs < 2 ^ 31"
    and i: "i < 511" "v_fds (y_vfs s) ! i = None" and n: "n = blocks_of (word_of_nat (length bs))"
    and sl: "page_slack (y_heap s) (n + (13 + k))" and run: "open_run (y_heap s) (8 * n + 34)"
  obtains process s1 ptr s2 stack s3 v h m where "sys_kzalloc s 5256 = Some (process, s1)" "process \<noteq> 0"
    "process_load_data (process_init s1 process) (path_of xs) process = Some (0, s2)" "sys_kzalloc s2 16384 = Some (stack, s3)" "stack \<noteq> 0"
    "s3 = with_files (put_proc s process (zero_process\<lparr>p_ptr := ptr, p_size := word_of_nat (length bs)\<rparr>)) v m"
    "k_heap (v_k v) = h" "page_slack h k" "heap_live (y_heap s) \<subseteq> heap_live h" "(ptr, n) \<in> heap_live h" "(stack, 4) \<in> heap_live h" "(process, 2) \<in> heap_live h"
    "keeps (y_heap s) (y_ram s) m" "load_bytes m ptr (length bs) = bs" "fat_mounted v M" "v_fds v = v_fds (y_vfs s)"
    "distinct [process, ptr, stack]" "\<And>a n. a \<in> {process, ptr, stack} \<Longrightarrow> (a, n) \<notin> heap_live (y_heap s)"
proof -
  have s1: "page_slack (y_heap s) (blocks_of 5256 + (7 + (n + (4 + k))))" "0 < blocks_of 5256" "open_run (y_heap s) (blocks_of 5256 + 8 * (n + 4))"
    using sl run unfolding process_blocks by (simp_all add: ac_simps)
  obtain process h1 m1 where 1: "kzalloc_ram (y_heap s) (y_ram s) 5256 = Some (process, h1, m1)" "process \<noteq> 0" "page_slack h1 (7 + (n + (4 + k)))"
    "open_run h1 (8 * (n + 4))" "heap_live h1 = insert (process, blocks_of 5256) (heap_live (y_heap s))" "\<And>n. (process, n) \<notin> heap_live (y_heap s)"
    "keeps (y_heap s) (y_ram s) m1" using kzalloc_ram_run [OF s1 process_sizes(1)] by metis
  let ?s1 = "put_proc (with_mem s h1 m1) process zero_process"
  have M1: "fat_mounted (put_heap (y_vfs s) h1) M" by (rule fat_mounted_heap [OF M]) (use 1(5) in \<open>auto simp: y_heap_def\<close>)
  have pre: "fat_mounted (y_vfs ?s1) M" "v_fds (y_vfs ?s1) ! i = None" "page_slack (y_heap ?s1) (7 + (n + (4 + k)))" "open_run (y_heap ?s1) (8 * (n + 4))"
    "y_procs ?s1 process = Some zero_process" using M1 i(2) 1(3,4) by (simp_all add: put_heap_def)
  obtain ptr v m2 where 2: "process_load_data ?s1 (path_of xs) process =
      Some (0, with_files (put_proc ?s1 process (zero_process\<lparr>p_ptr := ptr, p_size := word_of_nat (length bs)\<rparr>)) v m2)"
    "fat_mounted v M" "v_fds v = v_fds (y_vfs ?s1)" "page_slack (k_heap (v_k v)) (4 + k)" "open_run (k_heap (v_k v)) 4" "keeps (y_heap ?s1) (y_ram ?s1) m2"
    "heap_live (y_heap ?s1) \<subseteq> heap_live (k_heap (v_k v))" "(ptr, n) \<in> heap_live (k_heap (v_k v))" "load_bytes m2 ptr (length bs) = bs"
    "\<And>n. (ptr, n) \<notin> heap_live (y_heap ?s1)"
    using load_data_run [OF pre(1) xs bs i(1) pre(2) n pre(3-5)] by metis
  have s3: "page_slack (k_heap (v_k v)) (blocks_of 16384 + k)" "0 < blocks_of 16384" "open_run (k_heap (v_k v)) (blocks_of 16384 + 0)"
    using 2(4,5) unfolding process_blocks by simp_all
  obtain stack h m where 3: "kzalloc_ram (k_heap (v_k v)) m2 16384 = Some (stack, h, m)" "stack \<noteq> 0" "page_slack h k"
    "heap_live h = insert (stack, blocks_of 16384) (heap_live (k_heap (v_k v)))" "keeps (k_heap (v_k v)) m2 m" "\<And>n. (stack, n) \<notin> heap_live (k_heap (v_k v))"
    using kzalloc_ram_run [OF s3 process_sizes(2)] by metis
  let ?p = "zero_process\<lparr>p_ptr := ptr, p_size := word_of_nat (length bs)\<rparr>"
  let ?s2 = "with_files (put_proc ?s1 process ?p) v m2" and ?s3 = "with_files (put_proc s process ?p) (put_heap v h) m"
  have r: "sys_kzalloc s 5256 = Some (process, with_mem s h1 m1)" using sys_kzalloc_mem [OF 1(1), of s] by (simp only: with_mem_self)
  have r2: "process_load_data (process_init (with_mem s h1 m1) process) (path_of xs) process = Some (0, ?s2)" using 2(1) by (simp add: process_init_def)
  have "sys_kzalloc ?s2 16384 = Some (stack, with_mem ?s2 h m)" using sys_kzalloc_mem [where s = ?s2, OF 3(1)] with_mem_self [of ?s2] by simp
  moreover have "with_mem ?s2 h m = ?s3" by (simp add: with_files_def with_mem_def put_y_heap_def put_proc_def put_heap_def)
  ultimately have r3: "sys_kzalloc ?s2 16384 = Some (stack, ?s3)" by simp
  have sub: "heap_live (y_heap s) \<subseteq> heap_live h" "(ptr, n) \<in> heap_live h" "(stack, 4) \<in> heap_live h" "(process, 2) \<in> heap_live h"
    using 1(5) 2(7,8) 3(4) by (auto simp: process_blocks)
  have "keeps (y_heap s) m1 m2" by (rule keeps_older [of h1]) (use 1(5) 2(6) in auto)
  moreover have "keeps (y_heap s) m2 m" by (rule keeps_older [OF 3(5)]) (use 1(5) 2(7) in auto)
  ultimately have ke: "keeps (y_heap s) (y_ram s) m" using 1(7) by (blast intro: keeps_trans)
  have "unat (word_of_nat (length bs) :: u32) = length bs" using bs(3) by (simp add: unsigned_of_nat take_bit_nat_eq_self_iff)
  then have "length bs \<le> 4096 * n" using blocks_of_covers(1) [of "word_of_nat (length bs)"] bs(3) by (simp add: n)
  then have ld: "load_bytes m ptr (length bs) = bs" using keeps_load [OF 3(5) 2(8)] 2(9) by simp
  have mt: "fat_mounted (put_heap v h) M" by (rule fat_mounted_heap [OF 2(2)]) (use 3(4) in blast)
  have "(process, 2) \<in> heap_live h1" "heap_live (y_heap s) \<subseteq> heap_live h1" "heap_live h1 \<subseteq> heap_live (k_heap (v_k v))"
    using 1(5) 2(7) by (auto simp: process_blocks)
  moreover have "(ptr, j) \<notin> heap_live h1" for j using 2(10) by simp
  ultimately have fr: "distinct [process, ptr, stack]" "\<And>a j. a \<in> {process, ptr, stack} \<Longrightarrow> (a, j) \<notin> heap_live (y_heap s)"
    using 1(6) 2(8) 3(6) by auto
  show thesis by (rule that [OF r 1(2) r2 r3 3(2) refl _ 3(3) sub ke ld mt _ fr]) (use 2(3) in \<open>simp_all add: put_heap_def\<close>)
qed

lemma maps_loads:
  assumes "maps m c va k (unat a)" and "load_bytes m a (length bs) = bs" and "length bs \<le> k" and "i < length bs"
  shows "vload m c (va + of_nat i) = Some (bs ! i)"
proof -
  obtain pa where "translate m c (va + of_nat i) = Some pa" "unat pa = unat a + i" using assms(1,3,4) unfolding maps_def by (meson less_le_trans)
  moreover have "m (unat a + i) = bs ! i" using assms(4) arg_cong [OF assms(2), of "\<lambda>l. l ! i"] by (simp add: load_bytes_def)
  ultimately show ?thesis by (simp add: vload_def)
qed

lemma process_load_run:
  assumes ok: "tasks_ok s ts" and M: "fat_mounted (y_vfs s) M" and xs: "good_name xs" and bs: "M (canon xs) = Some bs" "bs \<noteq> []" "length bs < 2 ^ 31"
    and i: "i < 511" "v_fds (y_vfs s) ! i = None" and slot: "process_get_free_slot s = int slot"
    and n: "n = blocks_of (word_of_nat (length bs))" and room: "page_slack (y_heap s) (n + (1040 + k))" "open_run (y_heap s) (8 * n + 34)"
  obtains process s' p t where "process_load s (path_of xs) = Some (0, process, s')" "y_processes s' = (y_processes s)[slot := process]"
    "y_procs s' = (y_procs s)(process \<mapsto> p)" "cstr_of (p_filename p) (0x30 # chr_colon # chr_slash # xs)" "p_id p = word_of_nat slot"
    "y_tasks s' (p_task p) = Some t" "tk_process t = process" "tasks_ok s' (ts @ [p_task p])" "tk_registers t = start_registers"
    "\<And>j. j < length bs \<Longrightarrow> vload (y_ram s') (tk_page_directory t) (0x400000 + of_nat j) = Some (bs ! j)"
    "program_space (y_ram s') (tk_page_directory t) (p_ptr p) n (p_stack p)" "(p_ptr p, n) \<in> heap_live (y_heap s')" "(p_stack p, 4) \<in> heap_live (y_heap s')"
    "space_ok (y_heap s') (y_ram s') (tk_page_directory t)" "page_slack (y_heap s') k" "keeps (y_heap s) (y_ram s) (y_ram s')" "heap_live (y_heap s) \<subseteq> heap_live (y_heap s')"
    "fat_mounted (y_vfs s') M" "v_fds (y_vfs s') = v_fds (y_vfs s)" "y_term s' = y_term s" "y_commands s' = y_commands s" "y_kernel_chunk s' = y_kernel_chunk s"
    "length (y_processes s) = PEACHOS_MAX_PROCESSES \<Longrightarrow> process_ok s' (ts @ [p_task p]) process p" "y_current_task s' = (if ts = [] then p_task p else y_current_task s)"
proof -
  have sl: "page_slack (y_heap s) (n + (13 + (1027 + k)))" using room(1) by simp
  obtain process s1 ptr s2 stack s3 v h m where a: "sys_kzalloc s 5256 = Some (process, s1)" "process \<noteq> 0"
    "process_load_data (process_init s1 process) (path_of xs) process = Some (0, s2)" "sys_kzalloc s2 16384 = Some (stack, s3)" "stack \<noteq> 0"
    "s3 = with_files (put_proc s process (zero_process\<lparr>p_ptr := ptr, p_size := word_of_nat (length bs)\<rparr>)) v m"
    "k_heap (v_k v) = h" "page_slack h (1027 + k)" "heap_live (y_heap s) \<subseteq> heap_live h" "(ptr, n) \<in> heap_live h" "(stack, 4) \<in> heap_live h"
    "keeps (y_heap s) (y_ram s) m" "load_bytes m ptr (length bs) = bs" "fat_mounted v M" "v_fds v = v_fds (y_vfs s)"
    "(process, 2) \<in> heap_live h" "distinct [process, ptr, stack]" "\<And>a n. a \<in> {process, ptr, stack} \<Longrightarrow> (a, n) \<notin> heap_live (y_heap s)"
    by (rule load_objects [OF ok M xs bs i n sl room(2)]) blast
  let ?cs = "0x30 # chr_colon # chr_slash # xs"
  have lx: "length xs \<le> 12" using fatfs.good_name [OF xs] by simp
  then have tk: "take (nat (int PEACHOS_MAX_PATH) - 1) ?cs = ?cs" by simp
  from strncpy_terminated [OF path_of_cstr [OF xs], of "int PEACHOS_MAX_PATH" "p_filename zero_process"] obtain name where
    nm: "strncpy (p_filename zero_process) (path_of xs) (int PEACHOS_MAX_PATH) = Some name" "cstr_of name ?cs"
    unfolding tk by (auto simp: zero_process_def)
  define p where "p = zero_process\<lparr>p_ptr := ptr, p_size := word_of_nat (length bs), p_filename := name, p_stack := stack, p_id := word_of_nat slot\<rparr>"
  let ?s = "put_proc s3 process p"
  have st: "y_heap ?s = h" "y_ram ?s = m" "y_procs ?s = (y_procs s)(process \<mapsto> p)" "y_processes ?s = y_processes s" "y_vfs ?s = v"
    using a(6,7) by simp_all
  have "tasks_ok (with_mem s h m) ts" by (rule tasks_ok_mem [OF ok room(1) a(12,9)])
  then have tok: "tasks_ok ?s ts" unfolding a(6) using a(7) by (simp add: tasks_ok_files)
  have sz: "unat (p_size p) = length bs" using bs(3) by (simp add: p_def unsigned_of_nat take_bit_nat_eq_self_iff)
  have slot': "slot < length (y_processes ?s)" "y_processes s ! slot = 0"
    using free_slot_range [of "y_processes s" 0 slot] free_slot_zero [of "y_processes s" 0 slot] slot unfolding st(4) by (simp_all add: process_get_free_slot_def)
  have q: "page_slack (y_heap ?s) (1027 + k)" "y_procs ?s process = Some p" "n = blocks_of (p_size p)" "unat (p_size p) < 2 ^ 31"
    "(p_ptr p, n) \<in> heap_live (y_heap ?s)" "(p_stack p, 4) \<in> heap_live (y_heap ?s)"
    using a(8,10,11) st n sz bs(3) by (simp_all add: p_def)
  obtain b t h' m' s' where l: "load_task ?s process (int slot) = Some (0, process, s')"
    "s' = (with_task (put_proc ?s process (p\<lparr>p_task := b\<rparr>)) ts b t h' m')\<lparr>y_processes := (y_processes ?s)[slot := process]\<rparr>"
    "tasks_ok s' (ts @ [b])" "page_slack h' k" "tk_process t = process" "tk_registers t = start_registers" "keeps h m m'"
    "heap_live h \<subseteq> heap_live h'" "program_space m' (tk_page_directory t) (p_ptr p) n (p_stack p)" "space_ok h' m' (tk_page_directory t)"
    "\<And>z j. z \<in> set (b # chunk_pages m' (tk_page_directory t)) \<Longrightarrow> (z, j) \<notin> heap_live h" "b \<notin> set ts"
    using load_task_run [OF tok q(1,2) slot'(1) q(3-6)] unfolding st by metis
  have run: "process_load s (path_of xs) = Some (0, process, s')"
    using slot slot'(2) a(1-5) nm(1) l(1) unfolding a(6)
    by (simp add: process_load_def process_load_for_slot_def process_get_def load_out_def p_def Let_def)
  have s': "y_procs s' = (y_procs s)(process \<mapsto> p\<lparr>p_task := b\<rparr>)" "y_tasks s' b = Some t" "y_ram s' = m'" "y_heap s' = h'" "y_processes s' = (y_processes s)[slot := process]"
    "y_vfs s' = put_heap v h'" unfolding l(2) using st a(6) by (simp_all add: new_tasks_simps y_heap_def)
  have nt: "y_tasks s' = new_tasks s ts b t" unfolding l(2) a(6) by (simp add: new_tasks_def)
  have cov: "length bs \<le> 4096 * n" using blocks_of_covers(1) [OF q(4)] q(3) sz by simp
  have "load_bytes m' ptr (length bs) = bs" using keeps_load [OF l(7) a(10) cov] a(13) by simp
  moreover have "maps m' (tk_page_directory t) 0x400000 (4096 * n) (unat ptr)" using l(9) by (simp add: program_space_def p_def)
  ultimately have ld: "vload m' (tk_page_directory t) (0x400000 + of_nat j) = Some (bs ! j)" if "j < length bs" for j
    using maps_loads cov that by blast
  have ke: "keeps (y_heap s) (y_ram s) m'" by (rule keeps_trans [OF a(12) keeps_older [OF l(7) a(9)]])
  have mt: "fat_mounted (put_heap v h') M" by (rule fat_mounted_heap [OF a(14)]) (use a(7) l(8) in simp)
  have "task_objects s' x = task_objects s x" if "x \<in> set ts" for x
    by (rule new_tasks_objects [OF ok room(1) that l(12) nt]) (use ke s'(3) in simp)
  then have "z \<notin> set (task_objects s' x)" if "z \<in> {process, ptr, stack}" "x \<in> set ts" for x z
    using tasks_okD(5) [OF ok that(2)] a(18) [OF that(1)] that(2) by auto
  moreover have "z \<notin> set (task_objects s' b)" if "z \<in> {process, ptr, stack}" for z
    using l(11) that a(10,11,16) s'(2,3) by (auto simp: task_objects_def)
  moreover have "unat (word_of_nat slot :: u16) = slot" if "length (y_processes s) = PEACHOS_MAX_PROCESSES"
    using that slot'(1) st(4) by (simp add: unsigned_of_nat take_bit_nat_eq_self_iff)
  ultimately have pok: "process_ok s' (ts @ [b]) process (p\<lparr>p_task := b\<rparr>)" if "length (y_processes s) = PEACHOS_MAX_PROCESSES"
    unfolding process_ok_def using that a(10,11,16,17) l(8) s' slot'(1) st(4) n by (auto simp: p_def)
  have "cstr_of (p_filename p) ?cs" "p_id p = word_of_nat slot" "(ptr, n) \<in> heap_live h'" "(stack, 4) \<in> heap_live h'" "p_ptr p = ptr" "p_stack p = stack"
    using nm(2) l(8) a(10,11) by (auto simp: p_def)
  moreover have "y_term s' = y_term s" "y_commands s' = y_commands s" "y_kernel_chunk s' = y_kernel_chunk s"
    unfolding l(2) a(6) by (simp_all add: with_task_def put_y_heap_def put_proc_def with_files_def)
  moreover have "heap_live (y_heap s) \<subseteq> heap_live h'" using a(9) l(8) by blast
  moreover have "y_current_task s' = (if ts = [] then b else y_current_task s)" unfolding l(2) a(6) by (simp add: with_files_def)
  ultimately show thesis using s' l(3-6,9,10) ld ke mt a(15) pok
    by (intro that [where process = process and s' = s' and p = "p\<lparr>p_task := b\<rparr>" and t = t, OF run]) (simp_all add: put_heap_def)
qed

section \<open>Properties\<close>

text \<open>
  C10: a loaded program. With a file on the mounted volume, a free slot, a free descriptor and room in the heap, \<^verbatim>\<open>process_load\<close> returns 0 and a new
  process in that slot, with the path as its name. Its task is at the end of the list and starts at \<^verbatim>\<open>0x400000\<close> with the stack pointer
  at \<^verbatim>\<open>0x3FF000\<close>, in user mode; at the address where it starts it finds the bytes of the file, its stack is an object of its own, and
  every other address is mapped to itself. The memory of all live objects is as before, the volume is mounted with the same files, and the
  descriptors are as before.
\<close>

theorem program_loads:
  assumes ok: "tasks_ok s ts" and M: "fat_mounted (y_vfs s) M" and xs: "good_name xs" and bs: "M (canon xs) = Some bs" "bs \<noteq> []" "length bs < 2 ^ 31"
    and i: "i < 511" "v_fds (y_vfs s) ! i = None" and slot: "process_get_free_slot s = int slot"
    and n: "n = blocks_of (word_of_nat (length bs))" and room: "page_slack (y_heap s) (n + (1040 + k))" "open_run (y_heap s) (8 * n + 34)"
  shows "\<exists>process s' p t. process_load s (path_of xs) = Some (0, process, s') \<and> y_processes s' = (y_processes s)[slot := process]
     \<and> y_procs s' = (y_procs s)(process \<mapsto> p) \<and> cstr_of (p_filename p) (0x30 # chr_colon # chr_slash # xs) \<and> p_id p = word_of_nat slot
     \<and> y_tasks s' (p_task p) = Some t \<and> tk_process t = process \<and> tasks_ok s' (ts @ [p_task p])
     \<and> r_ip (tk_registers t) = 0x400000 \<and> r_esp (tk_registers t) = 0x3FF000 \<and> r_cs (tk_registers t) = USER_CODE_SEGMENT \<and> r_ss (tk_registers t) = USER_DATA_SEGMENT
     \<and> (\<forall>j < length bs. vload (y_ram s') (tk_page_directory t) (0x400000 + of_nat j) = Some (bs ! j))
     \<and> program_space (y_ram s') (tk_page_directory t) (p_ptr p) n (p_stack p) \<and> (p_ptr p, n) \<in> heap_live (y_heap s') \<and> (p_stack p, 4) \<in> heap_live (y_heap s')
     \<and> space_ok (y_heap s') (y_ram s') (tk_page_directory t) \<and> page_slack (y_heap s') k
     \<and> keeps (y_heap s) (y_ram s) (y_ram s') \<and> fat_mounted (y_vfs s') M \<and> v_fds (y_vfs s') = v_fds (y_vfs s)"
proof -
  obtain process s' p t where "process_load s (path_of xs) = Some (0, process, s')" "y_processes s' = (y_processes s)[slot := process]"
    "y_procs s' = (y_procs s)(process \<mapsto> p)" "cstr_of (p_filename p) (0x30 # chr_colon # chr_slash # xs)" "p_id p = word_of_nat slot"
    "y_tasks s' (p_task p) = Some t" "tk_process t = process" "tasks_ok s' (ts @ [p_task p])" "tk_registers t = start_registers"
    "\<And>j. j < length bs \<Longrightarrow> vload (y_ram s') (tk_page_directory t) (0x400000 + of_nat j) = Some (bs ! j)"
    "program_space (y_ram s') (tk_page_directory t) (p_ptr p) n (p_stack p)" "(p_ptr p, n) \<in> heap_live (y_heap s')" "(p_stack p, 4) \<in> heap_live (y_heap s')"
    "space_ok (y_heap s') (y_ram s') (tk_page_directory t)" "page_slack (y_heap s') k" "keeps (y_heap s) (y_ram s) (y_ram s')"
    "fat_mounted (y_vfs s') M" "v_fds (y_vfs s') = v_fds (y_vfs s)" by (rule process_load_run [OF assms]) blast
  then show ?thesis by (intro exI [of _ process] exI [of _ s'] exI [of _ p] exI [of _ t]) (simp add: start_registers_def)
qed

text \<open>A kernel with one program of three bytes on its volume.\<close>

definition demo_program_bytes :: "byte list" where
  "demo_program_bytes = [0x55, 0xEB, 0xFE]"

lemma demo_loadable:
  obtains s where "tasks_ok s []" "fat_mounted (y_vfs s) [canon [0x62] \<mapsto> demo_program_bytes]" "v_fds (y_vfs s) ! 0 = None"
    "process_get_free_slot s = int 0" "y_heap s = page_demo" "length (y_processes s) = PEACHOS_MAX_PROCESSES"
proof -
  have e: "entry_room (v_k demo_vfs) (if Map.empty (canon [0x62]) = None then Suc 2 else 2)"
    using demo_rooms(1) [of 3] by simp
  have r: "data_room (v_k demo_vfs) (length demo_program_bytes # [])" by (rule demo_rooms(4)) (simp_all add: demo_program_bytes_def)
  have b: "demo_program_bytes \<noteq> []" "length demo_program_bytes < 2 ^ 31" by (simp_all add: demo_program_bytes_def)
  have hs: "heap_slack (k_heap (v_k demo_vfs)) (4 + (0 + 3))" by (rule ko.slack_mono [OF demo_rooms(3)]) simp
  from write_new_file [OF demo_mounted good_b e b r _ demo_rooms(2) hs] obtain v where
    v: "fat_mounted v [canon [0x62] \<mapsto> demo_program_bytes]" by auto
  let ?v = "(put_heap v page_demo)\<lparr>v_fds := replicate PEACHOS_MAX_FILE_DESCRIPTORS None\<rparr>"
  let ?s = "demo_sys\<lparr>y_vfs := ?v\<rparr>"
  have "fat_mounted ?v [canon [0x62] \<mapsto> demo_program_bytes]"
    using mountedD [OF v] fatfs.rep_heap by (simp add: mounted_def put_heap_def fds_inv_def)
  moreover have "tasks_ok ?s []" by (simp add: tasks_ok_def task_ring_def demo_sys_def)
  moreover have "process_get_free_slot ?s = int 0" by (simp add: process_get_free_slot_def demo_sys_def numeral_eq_Suc)
  moreover have "y_heap ?s = page_demo" by (simp add: y_heap_def put_heap_def)
  moreover have "length (y_processes ?s) = PEACHOS_MAX_PROCESSES" by (simp add: demo_sys_def)
  ultimately show thesis using that [of ?s] by simp
qed

theorem program_loads_witness:
  "\<exists>s process s' p t. process_load s (path_of [0x62]) = Some (0, process, s') \<and> y_procs s' process = Some p \<and> y_tasks s' (p_task p) = Some t
     \<and> r_ip (tk_registers t) = 0x400000 \<and> vload (y_ram s') (tk_page_directory t) 0x400001 = Some 0xEB"
proof -
  obtain s where s: "tasks_ok s []" "fat_mounted (y_vfs s) [canon [0x62] \<mapsto> demo_program_bytes]" "v_fds (y_vfs s) ! 0 = None"
    "process_get_free_slot s = int 0" "y_heap s = page_demo" by (rule demo_loadable)
  have b: "[canon [0x62] \<mapsto> demo_program_bytes] (canon [0x62]) = Some demo_program_bytes" "demo_program_bytes \<noteq> []" "length demo_program_bytes < 2 ^ 31"
    by (simp_all add: demo_program_bytes_def)
  have n: "1 = blocks_of (word_of_nat (length demo_program_bytes))" by (simp add: demo_program_bytes_def blocks_of_def heap_align_value_to_upper_def)
  have "page_slack (y_heap s) (1 + (1040 + 0))" unfolding s(5) by (rule ph.slack_mono [OF page_demo_slack]) simp
  moreover have "open_run (y_heap s) (8 * 1 + 34)" unfolding s(5) using runs_mono [OF runs_fresh, of 42] by (simp add: runs_def)
  ultimately obtain process s' p t where r: "process_load s (path_of [0x62]) = Some (0, process, s')" "y_procs s' = (y_procs s)(process \<mapsto> p)"
    "y_tasks s' (p_task p) = Some t" "r_ip (tk_registers t) = 0x400000"
    "\<forall>j < length demo_program_bytes. vload (y_ram s') (tk_page_directory t) (0x400000 + of_nat j) = Some (demo_program_bytes ! j)"
    using program_loads [OF s(1,2) good_b b _ s(3,4) n] by fastforce
  have "vload (y_ram s') (tk_page_directory t) 0x400001 = Some 0xEB" using r(5) [rule_format, of 1] by (simp add: demo_program_bytes_def)
  with r(1-4) show ?thesis by (intro exI [of _ s] exI [of _ process] exI [of _ s'] exI [of _ p] exI [of _ t]) simp
qed

end
