(* ===== verification/Process_End.thy ===== *)
theory Process_End
  imports System_Calls Program_Loading
begin

text \<open>
  The end of a process, \<^verbatim>\<open>isr80h_command5_exit\<close> of \<^verbatim>\<open>src/src/isr80h/process.c\<close>, from the interrupt of the program to the task
  that runs next: all that the process owns is released, its slot is free again, and the first task of the list goes on.
\<close>

section \<open>The call\<close>

lemma kernel_page_lists [simp]:
  "y_task_head (kernel_page s) = y_task_head s" "y_task_tail (kernel_page s) = y_task_tail s" "y_processes (kernel_page s) = y_processes s"
  by (simp_all add: kernel_page_def)

text \<open>The objects of a process do not depend on the registers of its task or on the task that runs.\<close>

lemma relinked_process_ok:
  assumes "process_ok s ts process p" and "relinked s s'" and "y_procs s' = y_procs s" and "y_processes s' = y_processes s"
  shows "process_ok s' ts process p"
proof -
  have r: "y_ram s' = y_ram s" "y_heap s' = y_heap s" using assms(2) by (simp_all add: relinked_def)
  have "task_objects s' x = task_objects s x" for x by (rule task_objects_cong) (simp_all add: relinked_field [OF assms(2)] r)
  then have "map (task_objects s') ts = map (task_objects s) ts" by simp
  with assms(1) show ?thesis unfolding process_ok_def assms(3,4) r by simp
qed

text \<open>A list of tasks that is not empty has a head.\<close>

lemma tasks_ok_head:
  assumes "tasks_ok s xs" and "xs \<noteq> []"
  obtains u where "y_task_head s = hd xs" "hd xs \<noteq> 0" "y_tasks s (hd xs) = Some u"
proof -
  obtain x ys where xs: "xs = x # ys" using assms(2) by (cases xs) auto
  with tasks_okD(7) [OF assms(1)] show thesis by (auto intro: that)
qed

text \<open>The call releases the process of the task that runs and returns when another task is there to go on.\<close>

lemma exit_command:
  assumes "y_tasks s (y_current_task s) = Some t" and "process_free s (tk_process t) = Some s'" and "tasks_ok s' ts" and "ts \<noteq> []"
  shows "isr80h_command5_exit s = Some (0, s')"
proof -
  obtain u where "y_task_head s' = hd ts" "hd ts \<noteq> 0" by (rule tasks_ok_head [OF assms(3,4)])
  then show ?thesis using assms(1,2) by (simp add: isr80h_command5_exit_def task_current_def task_has_any_def)
qed

section \<open>Properties\<close>

text \<open>
  C13: the end of a process. When a program whose task is the last one of the list calls \<^verbatim>\<open>exit\<close> while another task is there, the interrupt
  handler returns 0 and the first task of the list goes on with its process and its address space. The task is out of the list, which is still in
  order; the structure of the process, its image, its stack, its task and its page tables, and nothing else, are released; its slot is free, so that
  \<^verbatim>\<open>process_get\<close> finds no process there any more, and the memory is as it was.
\<close>

theorem exit_syscall:
  assumes ok: "tasks_ok s (ts @ [p_task p])" and more: "ts \<noteq> []" and cur: "y_current_task s = p_task p" "y_tasks s (p_task p) = Some t"
    and pr: "process_ok s (ts @ [p_task p]) (tk_process t) p" and sl: "page_slack (y_heap s) k"
    and cm: "y_commands s = map Some all_commands @ replicate 1012 None"
  shows "\<exists>s' u. isr80h_handler call_command s 5 frame = Some (0, s') \<and> tasks_ok s' ts \<and> y_current_task s' = hd ts
     \<and> y_tasks s (hd ts) = Some u \<and> y_current_process s' = tk_process u \<and> y_directory s' = load32 (y_ram s) (tk_page_directory u)
     \<and> heap_live (y_heap s') = heap_live (y_heap s) - (\<lambda>b. (b, 1)) ` set (task_objects s (p_task p))
         - {(tk_process t, 2), (p_ptr p, blocks_of (p_size p)), (p_stack p, 4)}
     \<and> page_slack (y_heap s') (k + (blocks_of (p_size p) + 1033)) \<and> y_ram s' = y_ram s
     \<and> y_procs s' = (y_procs s)(tk_process t := None) \<and> y_processes s' = (y_processes s)[unat (p_id p) := 0] \<and> process_get s' (uint (p_id p)) = 0"
proof -
  let ?a = "p_task p"
  let ?t = "t\<lparr>tk_registers := saved frame (tk_registers t)\<rparr>"
  let ?s = "put_task (kernel_page s) ?a ?t"
  have rl: "relinked s ?s" using cur(2) by (simp add: relinked_def put_task_def)
  have ok': "tasks_ok ?s (ts @ [?a])" by (rule relinked_tasks_ok [OF ok rl]) (use cur(1) in \<open>simp add: put_task_def\<close>)
  have pr': "process_ok ?s (ts @ [?a]) (tk_process ?t) p"
    using relinked_process_ok [OF pr rl] by (simp add: put_task_def)
  have c: "y_current_task ?s = ?a" "y_tasks ?s ?a = Some ?t" "page_slack (y_heap ?s) k" "y_commands ?s = map Some all_commands @ replicate 1012 None"
    using cur(1) sl cm by (simp_all add: put_task_def)
  obtain s1 where f: "process_free ?s (tk_process t) = Some s1" "tasks_ok s1 ts" "page_slack (y_heap s1) (k + (blocks_of (p_size p) + 1033))"
    "heap_live (y_heap s1) = heap_live (y_heap ?s) - (\<lambda>b. (b, 1)) ` set (task_objects ?s ?a) - {(tk_process t, 2), (p_ptr p, blocks_of (p_size p)), (p_stack p, 4)}"
    "y_procs s1 = (y_procs ?s)(tk_process t := None)" "y_processes s1 = (y_processes ?s)[unat (p_id p) := 0]" "y_ram s1 = y_ram ?s" "y_current_task s1 = hd ts"
    "\<And>x v. x \<in> set ts \<Longrightarrow> y_tasks ?s x = Some v \<Longrightarrow> \<exists>l. y_tasks s1 x = Some (v\<lparr>tk_next := l\<rparr>)"
    by (rule process_free_run [OF ok' pr' c(3)]) (use c(1) more in simp)
  have ob: "task_objects ?s ?a = task_objects s ?a" by (rule task_objects_cong) (use cur(2) in \<open>simp_all add: put_task_def\<close>)
  have hd: "hd ts \<in> set ts" using more by simp
  then have "hd ts \<noteq> ?a" using tasks_okD(6) [OF ok] by auto
  moreover from hd obtain u where u: "y_tasks s (hd ts) = Some u" using tasks_okD(3) [OF ok] by auto
  ultimately obtain l where l: "y_tasks s1 (hd ts) = Some (u\<lparr>tk_next := l\<rparr>)" using f(9) [OF hd, of u] by (auto simp: put_task_def)
  let ?s' = "s1\<lparr>y_current_task := hd ts, y_current_process := tk_process u, y_directory := load32 (y_ram s) (tk_page_directory u)\<rparr>"
  have "(?a, 1) \<in> heap_live (y_heap s)" by (rule tasks_okD(5) [OF ok, of ?a]) (simp_all add: task_objects_def)
  then have nz: "?a \<noteq> 0" using ph.live_aligned [OF sl] by blast
  have "isr80h_handle_command call_command ?s (int 5) = Some (0, s1)"
    using command_lookup [of all_commands 5, OF _ _ c(4), of call_command] exit_command [OF _ _ f(2) more, of ?s ?t] c(1,2) f(1) by (simp add: all_commands_def)
  moreover have "task_current_save_state (kernel_page s) frame = Some ?s" using save_state [of "kernel_page s" t frame] cur nz by simp
  moreover have "task_page s1 = Some (0, ?s')" using f(7,8) l by (simp add: task_page_def task_switch_def paging_switch_def put_task_def)
  ultimately have run: "isr80h_handler call_command s 5 frame = Some (0, ?s')" by (simp add: isr80h_handler_def Let_def)
  have tok: "tasks_ok ?s' ts" by (rule tasks_ok_fields [OF f(2)]) (simp_all add: f(8) y_heap_def)
  have pg: "process_get ?s' (uint (p_id p)) = 0" using process_okD(9) [OF pr] f(6) by (simp add: process_get_def put_task_def)
  have "y_heap ?s' = y_heap s1" by (simp add: y_heap_def)
  then show ?thesis using run tok u f(3-7) ob pg by (intro exI [of _ ?s'] exI [of _ u]) (simp add: put_task_def)
qed


text \<open>A program that is loaded beside another task, and that runs.\<close>

lemma demo_loaded:
  obtains s a p t where "tasks_ok s ([a] @ [p_task p])" "y_current_task s = p_task p" "y_tasks s (p_task p) = Some t" "page_slack (y_heap s) 0"
    "process_ok s ([a] @ [p_task p]) (tk_process t) p" "y_commands s = map Some all_commands @ replicate 1012 None" "p_id p = 0"
proof -
  let ?M = "[canon [0x62] \<mapsto> demo_program_bytes]"
  obtain s0 where s0: "tasks_ok s0 []" "fat_mounted (y_vfs s0) ?M" "v_fds (y_vfs s0) ! 0 = None" "process_get_free_slot s0 = int 0" "y_heap s0 = page_demo"
    "length (y_processes s0) = PEACHOS_MAX_PROCESSES" by (rule demo_loadable)
  have "page_slack (y_heap s0) (1027 + 1500)" unfolding s0(5) by (rule ph.slack_mono [OF page_demo_slack]) simp
  then obtain a t h m where t: "task_new s0 0 = Some (Inr a, with_task s0 [] a t h m)" "tasks_ok (with_task s0 [] a t h m) ([] @ [a])" "page_slack h 1500"
    "heap_live h = heap_live (y_heap s0) \<union> (\<lambda>a. (a, 1)) ` set (a # chunk_pages m (tk_page_directory t))" using task_new_full [OF s0(1)] by metis
  let ?s = "with_task s0 [] a t h m"
  have "runs (y_heap s0) (1027 + 1500)" unfolding s0(5) by (rule runs_mono [OF runs_fresh]) simp
  from runs_task_new [OF t(1) this] have "runs h 1500" by simp
  then have r: "open_run (y_heap ?s) (8 * 1 + 34)" using runs_mono [of h 1500 42] by (simp add: runs_def)
  have "fat_mounted (put_heap (y_vfs s0) h) ?M" by (rule fat_mounted_heap [OF s0(2)]) (use t(4) in \<open>auto simp: y_heap_def\<close>)
  then have M: "fat_mounted (y_vfs ?s) ?M" by (simp add: with_task_def put_y_heap_def)
  have b: "?M (canon [0x62]) = Some demo_program_bytes" "demo_program_bytes \<noteq> []" "length demo_program_bytes < 2 ^ 31"
    by (simp_all add: demo_program_bytes_def)
  have n: "1 = blocks_of (word_of_nat (length demo_program_bytes))" by (simp add: demo_program_bytes_def blocks_of_def heap_align_value_to_upper_def)
  have sl: "page_slack (y_heap ?s) (1 + (1040 + 0))" using ph.slack_mono [OF t(3)] by simp
  have st: "v_fds (y_vfs ?s) ! 0 = None" "process_get_free_slot ?s = int 0" "length (y_processes ?s) = PEACHOS_MAX_PROCESSES"
    using s0(3,4,6) by (simp_all add: process_get_free_slot_def with_task_def put_y_heap_def put_heap_def)
  obtain process s1 p u where l: "tasks_ok s1 ([a] @ [p_task p])" "y_tasks s1 (p_task p) = Some u" "tk_process u = process" "page_slack (y_heap s1) 0"
    "process_ok s1 ([a] @ [p_task p]) process p" "p_id p = word_of_nat 0"
    by (rule process_load_run [OF t(2) M good_b b _ st(1,2) n sl r]) (use st(3) in \<open>simp_all\<close>)
  let ?s1 = "s1\<lparr>y_current_task := p_task p, y_commands := map Some all_commands @ replicate 1012 None\<rparr>"
  have rl: "relinked s1 ?s1" by (simp add: relinked_def y_heap_def)
  have "tasks_ok ?s1 ([a] @ [p_task p])" by (rule relinked_tasks_ok [OF l(1) rl]) simp
  moreover have "process_ok ?s1 ([a] @ [p_task p]) process p" by (rule relinked_process_ok [OF l(5) rl]) simp_all
  ultimately show thesis using l(2-4,6) by (intro that [of ?s1 a p u]) (simp_all add: y_heap_def)
qed

theorem exit_syscall_witness:
  "\<exists>s a s'. y_current_task s \<noteq> a \<and> process_get s 0 \<noteq> 0 \<and> isr80h_handler call_command s 5 user_frame = Some (0, s')
     \<and> y_current_task s' = a \<and> process_get s' 0 = 0"
proof -
  obtain s a p t where s: "tasks_ok s ([a] @ [p_task p])" "y_current_task s = p_task p" "y_tasks s (p_task p) = Some t" "page_slack (y_heap s) 0"
    "process_ok s ([a] @ [p_task p]) (tk_process t) p" "y_commands s = map Some all_commands @ replicate 1012 None" "p_id p = 0" by (rule demo_loaded)
  have "p_task p \<noteq> a" using tasks_okD(6) [OF s(1)] by auto
  moreover have "process_get s 0 = tk_process t" using process_okD(10) [OF s(5)] s(7) by (simp add: process_get_def)
  then have "process_get s 0 \<noteq> 0" using ph.live_aligned [OF s(4) process_okD(5) [OF s(5)]] by simp
  moreover obtain s' where "isr80h_handler call_command s 5 user_frame = Some (0, s')" "y_current_task s' = a" "process_get s' 0 = 0"
    using exit_syscall [OF s(1) _ s(2,3,5,4,6), of user_frame] s(7) by auto
  ultimately show ?thesis using s(2) by (intro exI [of _ s] exI [of _ a] exI [of _ s']) simp
qed

end
