(* ===== verification/Boot.thy ===== *)
theory Boot
  imports Start_Up Program_Loading
begin

text \<open>
  The whole of \<^verbatim>\<open>kernel_main\<close>, \<^verbatim>\<open>src/src/kernel.c\<close>: from a machine with the shell on its disk to the registers with which the shell
  starts, through the initialisation, the test that reads a file, and the loading of the program.
\<close>

section \<open>Text\<close>

definition name_of :: "string \<Rightarrow> byte list" where
  "name_of str = map (\<lambda>c. of_nat (of_char c)) str"

lemma c_str_name: "c_str str = name_of str @ [0]"
  by (simp add: c_str_def name_of_def)

lemma c_str_path: "c_str (CHR ''0'' # CHR '':'' # CHR ''/'' # str) = path_of (name_of str)"
  by (simp add: c_str_def name_of_def path_of_def)

lemma char_zero: "(of_nat (of_char c) :: byte) = 0 \<longleftrightarrow> c = CHR 0x00"
proof
  assume z: "(of_nat (of_char c) :: byte) = 0"
  have "of_char c < (256 :: nat)" by (rule nat_of_char_less_256)
  then have "(of_char c :: nat) = unat (of_nat (of_char c) :: byte)" by (simp add: unsigned_of_nat take_bit_eq_mod)
  then have "(of_char c :: nat) = of_char (CHR 0x00)" using z by simp
  then show "c = CHR 0x00" by (simp only: of_char_eq_iff)
qed simp

lemma c_str_cstr: "CHR 0x00 \<notin> set str \<Longrightarrow> cstr_of (c_str str) (name_of str)"
  unfolding c_str_name name_of_def by (rule cstr_ofI) (metis (no_types, lifting) char_zero in_set_conv_nth length_map nth_map)

lemma prints_text:
  assumes "terminal_ok t" and "cstr_of str w"
  shows "\<exists>t'. sys_print (s\<lparr>y_term := t, y_vfs := v\<rparr>) str = Some (s\<lparr>y_term := t', y_vfs := v\<rparr>) \<and> terminal_ok t'"
proof -
  from print_shows [OF assms] obtain t' where "print t str = Some t'" "terminal_ok t'" using shows_screenD(1) by blast
  then show ?thesis by (intro exI [of _ t']) (simp add: sys_print_def)
qed

lemma prints_c_str:
  "terminal_ok t \<Longrightarrow> CHR 0x00 \<notin> set str \<Longrightarrow>
     \<exists>t'. sys_print (s\<lparr>y_term := t, y_vfs := v\<rparr>) (c_str str) = Some (s\<lparr>y_term := t', y_vfs := v\<rparr>) \<and> terminal_ok t'"
  by (rule prints_text [OF _ c_str_cstr])

lemma cstr_takeWhile: "0 \<in> set b \<Longrightarrow> cstr_of b (takeWhile (\<lambda>x. x \<noteq> 0) b)"
proof -
  assume "0 \<in> set b"
  then obtain xs ys where "b = xs @ 0 # ys" "0 \<notin> set xs" by (meson split_list_first)
  moreover from this have "takeWhile (\<lambda>x. x \<noteq> 0) b = xs" by (metis (mono_tags, lifting) append.right_neutral takeWhile.simps(2) takeWhile_append2)
  ultimately show ?thesis by (simp add: cstr_ofI)
qed

lemma strncmp_total: "n \<le> length a \<Longrightarrow> n \<le> length b \<Longrightarrow> \<exists>r. strncmp a b n = Some r"
  by (induction a b n rule: strncmp.induct) auto

section \<open>The test of the files\<close>

lemma good_hello: "good_name (name_of ''hello.txt'')"
proof -
  have "name_of ''hello.txt'' = dotted (name_of ''hello'') (name_of ''txt'')" by (simp add: name_of_def dotted_def)
  moreover have "name83 (name_of ''hello'') (name_of ''txt'')" by (simp add: name83_def name_char_def name_of_def)
  moreover have "hd (name_of ''hello'') \<noteq> 0xE5" "0x2F \<notin> set (name_of ''hello.txt'')" by (simp_all add: name_of_def)
  ultimately show ?thesis unfolding good_name_def by blast
qed

lemma good_shell: "good_name (name_of ''shell.bin'')"
proof -
  have "name_of ''shell.bin'' = dotted (name_of ''shell'') (name_of ''bin'')" by (simp add: name_of_def dotted_def)
  moreover have "name83 (name_of ''shell'') (name_of ''bin'')" by (simp add: name83_def name_char_def name_of_def)
  moreover have "hd (name_of ''shell'') \<noteq> 0xE5" "0x2F \<notin> set (name_of ''shell.bin'')" by (simp_all add: name_of_def)
  ultimately show ?thesis unfolding good_name_def by blast
qed

text \<open>
  The test prints what it finds and leaves the volume as it is, with or without the file; the file stays open.
\<close>

lemma open_test_run:
  assumes t: "terminal_ok (y_term s)" and M: "fat_mounted (y_vfs s) M"
    and hello: "M (canon (name_of ''hello.txt'')) \<noteq> Some []"
    and fds: "v_fds (y_vfs s) = replicate PEACHOS_MAX_FILE_DESCRIPTORS None" and sl: "page_slack (y_heap s) (7 + k)" and run: "open_run (y_heap s) (8 * n)"
  obtains t v i where "open_test s = Some (s\<lparr>y_term := t, y_vfs := v\<rparr>)" "terminal_ok t" "fat_mounted v M" "page_slack (k_heap (v_k v)) k"
    "open_run (k_heap (v_k v)) n" "heap_live (y_heap s) \<subseteq> heap_live (k_heap (v_k v))" "i < 511" "v_fds v ! i = None"
proof -
  let ?h = "name_of ''hello.txt''"
  have path: "c_str ''0:/hello.txt'' = path_of ?h" by (rule c_str_path)
  have md: "c_str ''r'' = mode_r" by (simp add: c_str_def mode_r_def)
  let ?st = "\<lambda>t v. s\<lparr>y_term := t, y_vfs := v\<rparr>"
  have st0: "?st (y_term s) (y_vfs s) = s" by simp
  obtain t1 where t1: "sys_print s (c_str (''sys_open/sys_read test'' @ newline)) = Some (?st t1 (y_vfs s))" "terminal_ok t1"
    using prints_c_str [where s = s and v = "y_vfs s", OF t, of "''sys_open/sys_read test'' @ newline"] unfolding st0 by auto
  show thesis
  proof (cases "M (canon ?h)")
    case None
    have "heap_slack (k_heap (v_k (y_vfs s))) (4 + (3 + k))" using sl by (simp add: page_slack_def y_heap_def)
    from fat_fopen_missing [OF M good_hello path_of_cstr [OF good_hello] mode_simps(2) None this] obtain v leak where
      v: "fopen kernel_ops (y_vfs s) (path_of ?h) mode_r = Some (0, v)" "fat_mounted v M" "v_fds v = v_fds (y_vfs s)" "heap_slack (k_heap (v_k v)) (3 + k)"
      "length leak = 3" "grown heap_live (y_heap s) leak (k_heap (v_k v))" unfolding y_heap_def by blast
    have pl: "k_pool (v_k v) = pool (y_heap s)" unfolding y_heap_def by (rule fopen_pool [OF v(1) mountedD(3) [OF M]])
    have sv: "page_slack (k_heap (v_k v)) k" using pl sl ko.slack_mono [OF v(4), of k] by (simp add: page_slack_def pool_def)
    have "open_run (y_heap s) (Suc (length leak) * n)" by (rule open_run_mono [OF run]) (simp add: v(5))
    then have rv: "open_run (k_heap (v_k v)) n"
      by (intro run_survives_pool [OF _ _ pl]) (use sl sv v(6) in \<open>auto simp: page_slack_def heap_slack_def grown_def\<close>)
    obtain t2 where t2: "sys_print (s\<lparr>y_term := t1, y_vfs := v\<rparr>) (c_str (''fopen returned 0'' @ newline)) = Some (s\<lparr>y_term := t2, y_vfs := v\<rparr>)" "terminal_ok t2"
      using prints_c_str [where s = s and v = v, OF t1(2), of "''fopen returned 0'' @ newline"] by auto
    have "open_test s = Some (s\<lparr>y_term := t2, y_vfs := v\<rparr>)"
      using t1(1) t2(1) v(1) by (simp add: open_test_def Let_def path md)
    moreover have "heap_live (y_heap s) \<subseteq> heap_live (k_heap (v_k v))" "v_fds v ! 0 = None" using v(3,6) fds by (auto simp: grown_def)
    ultimately show thesis by (intro that [where i = 0, OF _ t2(2) v(2) sv rv]) simp_all
  next
    case (Some bs)
    then have nb: "bs \<noteq> []" using hello by simp
    have ne: "M (canon ?h) \<noteq> None" using Some by simp
    have f0: "v_fds (y_vfs s) ! 0 = None" using fds by simp
    obtain fd v1 d leak where o: "fopen kernel_ops (y_vfs s) (path_of ?h) mode_r = Some (fd, v1)" "fat_mounted v1 M" "page_slack (k_heap (v_k v1)) k"
      "open_run (k_heap (v_k v1)) n" "fat_handle v1 fd False (canon ?h) 0" "grown heap_live (y_heap s) (leak @ desc_objects fat_owned d) (k_heap (v_k v1))"
      "(v_fds v1)[nat (fd - 1) := None] = v_fds (y_vfs s)"
      unfolding y_heap_def by (rule fopen_read_run [OF M good_hello ne _ f0 sl [unfolded y_heap_def] run [unfolded y_heap_def]]) auto
    obtain out v where v: "fread kernel_ops v1 1 (word_of_nat 63) fd = Some (int 63, out, v)" "fat_mounted v M" "k_heap (v_k v) = k_heap (v_k v1)" "v_fds v = v_fds v1"
      and len: "length out = 63" by (rule fat_fread_past [OF o(2,5) Some nb, of 63]) simp_all
    have fd: "0 < fd" using o(5) by (auto simp: handle_def)
    let ?b = "out @ [0]"
    obtain t2 where t2: "sys_print (s\<lparr>y_term := t1, y_vfs := v1\<rparr>) (c_str (''fopen returned valid fd'' @ newline)) = Some (s\<lparr>y_term := t2, y_vfs := v1\<rparr>)" "terminal_ok t2"
      using prints_c_str [where s = s and v = v1, OF t1(2), of "''fopen returned valid fd'' @ newline"] by auto
    obtain t3 where t3: "sys_print (s\<lparr>y_term := t2, y_vfs := v\<rparr>) (c_str ''fread got data: '') = Some (s\<lparr>y_term := t3, y_vfs := v\<rparr>)" "terminal_ok t3"
      using prints_c_str [where s = s and v = v, OF t2(2), of "''fread got data: ''"] by auto
    have "0 \<in> set ?b" by simp
    then obtain t4 where t4: "sys_print (s\<lparr>y_term := t3, y_vfs := v\<rparr>) ?b = Some (s\<lparr>y_term := t4, y_vfs := v\<rparr>)" "terminal_ok t4"
      using prints_text [where s = s and v = v, OF t3(2) cstr_takeWhile] by blast
    obtain t5 where t5: "sys_print (s\<lparr>y_term := t4, y_vfs := v\<rparr>) (c_str newline) = Some (s\<lparr>y_term := t5, y_vfs := v\<rparr>)" "terminal_ok t5"
      using prints_c_str [where s = s and v = v, OF t4(2), of newline] by auto
    obtain r where r: "strncmp ?b (c_str ''Testo world!'') 12 = Some r" using strncmp_total [of 12 ?b "c_str ''Testo world!''"] len by (auto simp: c_str_def)
    let ?w = "(if r = 0 then ''content matched'' else ''content mismatch'') @ newline @ newline"
    have nz: "CHR 0x00 \<notin> set ?w" by simp
    obtain t6 where t6: "sys_print (s\<lparr>y_term := t5, y_vfs := v\<rparr>) (c_str ?w) = Some (s\<lparr>y_term := t6, y_vfs := v\<rparr>)" "terminal_ok t6"
      using prints_c_str [where s = s and v = v, OF t5(2) nz] by blast
    have ot: "open_test s = Some (s\<lparr>y_term := t6, y_vfs := v\<rparr>)"
      unfolding open_test_def path md using t1(1) o(1) fd t2(1) v(1) t3(1) t4(1) t5(1) r t6(1) by (simp add: Let_def len)
    have sub: "heap_live (y_heap s) \<subseteq> heap_live (k_heap (v_k v))" using o(6) v(3) by (auto simp: grown_def)
    have hp: "page_slack (k_heap (v_k v)) k" "open_run (k_heap (v_k v)) n" using o(3,4) v(3) by simp_all
    let ?i = "if nat (fd - 1) = 0 then 1 else 0 :: nat"
    have "v_fds v ! ?i = (v_fds v1)[nat (fd - 1) := None] ! ?i" using v(4) by simp
    also have "\<dots> = None" unfolding o(7) fds by simp
    finally have "v_fds v ! ?i = None" .
    then show thesis by (rule that [OF ot t6(2) v(2) hp sub, rotated]) simp
  qed
qed

section \<open>Properties\<close>

lemma blocks_bound: "unat sz \<le> 118784 \<Longrightarrow> blocks_of sz \<le> 29"
  using blocks_of_covers(2) [of sz] by simp

text \<open>The first task is the only one, and the switch to it loads its address space.\<close>

lemma first_task_run:
  assumes "tasks_ok s [a]" and "y_tasks s a = Some t" and "page_slack (y_heap s) k"
  shows "task_run_first_ever_task s =
    Some (tk_registers t, s\<lparr>y_current_task := a, y_current_process := tk_process t, y_directory := load32 (y_ram s) (tk_page_directory t)\<rparr>)"
proof -
  have "y_task_head s = a" "y_current_task s = a" using tasks_okD(1) [OF assms(1)] by (auto simp: task_ring_def split: if_splits)
  moreover have "a \<noteq> 0" using ph.live_aligned [OF assms(3) task_chunk_ok(2) [OF assms(1,2)]] by simp
  ultimately show ?thesis using assms(2) by (simp add: task_run_first_ever_task_def task_switch_def paging_switch_def)
qed

text \<open>
  C12: the machine boots. From a drive with a mountable volume that holds \<^verbatim>\<open>shell.bin\<close>, of up to 29 blocks, and whose \<^verbatim>\<open>hello.txt\<close>, if there is
  one, is not empty, \<^verbatim>\<open>kernel_main\<close> does not panic: it hands over to the shell in user mode at \<^verbatim>\<open>0x400000\<close>, with
  the address space of its task loaded, in which the bytes of the file are at that address. The shell is process 0 and the running one; the
  segments, the interrupt gates and the system calls are in place, the address space of the kernel maps every address to itself, and the volume is mounted
  with its files.
\<close>

theorem kernel_boots:
  assumes init: "length raw = 25600" "VGA_HEIGHT * VGA_WIDTH \<le> length (t_vga (y_term (b_sys m)))" "y_commands (b_sys m) = replicate 1024 None"
      "length (v_fs_name (y_vfs (b_sys m))) = 20" "fat_mounted v M" "mountable (v_k v)" "k_drive (v_k (y_vfs (b_sys m))) = k_drive (v_k v)"
    and none: "y_tasks (b_sys m) = Map.empty" "y_task_head (b_sys m) = 0" "y_current_task (b_sys m) = 0" "y_processes (b_sys m) = replicate 12 0"
    and bs: "M (canon (name_of ''shell.bin'')) = Some bs" "bs \<noteq> []" "length bs \<le> 118784"
    and hello: "M (canon (name_of ''hello.txt'')) \<noteq> Some []"
  shows "\<exists>regs m' s p t. kernel_main a raw m = Some (regs, m') \<and> b_sys m' = s \<and> y_tasks s (y_current_task s) = Some t \<and> tk_registers t = regs
     \<and> r_ip regs = 0x400000 \<and> r_esp regs = 0x3FF000 \<and> r_cs regs = USER_CODE_SEGMENT \<and> r_ss regs = USER_DATA_SEGMENT
     \<and> y_directory s = load32 (y_ram s) (tk_page_directory t)
     \<and> (\<forall>j < length bs. vload (y_ram s) (tk_page_directory t) (0x400000 + of_nat j) = Some (bs ! j))
     \<and> y_processes s ! 0 = y_current_process s \<and> y_procs s (y_current_process s) = Some p \<and> p_task p = y_current_task s \<and> p_id p = 0
     \<and> tasks_ok s [y_current_task s] \<and> terminal_ok (y_term s) \<and> fat_mounted (y_vfs s) M
     \<and> space_ok (y_heap s) (y_ram s) (y_kernel_chunk s) \<and> (\<forall>va. translate (y_ram s) (y_kernel_chunk s) va = Some va)
     \<and> y_commands s = map Some all_commands @ replicate 1012 None \<and> map gdt_decode (b_gdt m') = kernel_gdt (a_tss a)
     \<and> (\<forall>n < 512. is_gate (b_idt m' ! n) (handler_of (a_idt a) n))"
proof -
  obtain m1 s1 where 1: "kernel_init a raw m = Some m1" "b_sys m1 = s1" "terminal_ok (y_term s1)" "fat_mounted (y_vfs s1) M" "page_slack (y_heap s1) 24567"
    "space_ok (y_heap s1) (y_ram s1) (y_kernel_chunk s1)" "\<And>va. translate (y_ram s1) (y_kernel_chunk s1) va = Some va"
    "y_commands s1 = map Some all_commands @ replicate 1012 None" "map gdt_decode (b_gdt m1) = kernel_gdt (a_tss a)"
    "\<forall>n < 512. is_gate (b_idt m1 ! n) (handler_of (a_idt a) n)" "open_run (y_heap s1) 2174" "v_fds (y_vfs s1) = replicate PEACHOS_MAX_FILE_DESCRIPTORS None"
    "y_tasks s1 = y_tasks (b_sys m)" "y_processes s1 = y_processes (b_sys m)" "y_task_head s1 = y_task_head (b_sys m)" "y_current_task s1 = y_current_task (b_sys m)"
    by (rule kernel_init_run [OF init]) blast
  have "page_slack (y_heap s1) (7 + 24560)" "open_run (y_heap s1) (8 * 271)" using 1(5) open_run_mono [OF 1(11), of "8 * 271"] by simp_all
  then obtain t2 v2 i where 2: "open_test s1 = Some (s1\<lparr>y_term := t2, y_vfs := v2\<rparr>)" "terminal_ok t2" "fat_mounted v2 M" "page_slack (k_heap (v_k v2)) 24560"
    "open_run (k_heap (v_k v2)) 271" "heap_live (y_heap s1) \<subseteq> heap_live (k_heap (v_k v2))" "i < 511" "v_fds v2 ! i = None"
    by (rule open_test_run [OF 1(3,4) hello 1(12)])
  let ?s2 = "s1\<lparr>y_term := t2, y_vfs := v2\<rparr>"
  define n where n: "n = blocks_of (word_of_nat (length bs))"
  have "unat (word_of_nat (length bs) :: u32) = length bs" using bs(3) by (simp add: unsigned_of_nat take_bit_nat_eq_self_iff)
  then have n29: "n \<le> 29" unfolding n using bs(3) by (intro blocks_bound) simp
  have len: "length bs < 2 ^ 31" using bs(3) by simp
  have hp: "y_heap ?s2 = k_heap (v_k v2)" by (simp add: y_heap_def)
  have pre: "tasks_ok ?s2 []" "fat_mounted (y_vfs ?s2) M" "v_fds (y_vfs ?s2) ! i = None" "process_get_free_slot ?s2 = int 0"
    using 1(13-16) none 2(3,8) by (simp_all add: tasks_ok_def task_ring_def process_get_free_slot_def numeral_eq_Suc)
  have room: "page_slack (y_heap ?s2) (n + (1040 + 0))" "open_run (y_heap ?s2) (8 * n + 34)"
    unfolding hp using n29 ph.slack_mono [OF 2(4)] open_run_mono [OF 2(5)] by simp_all
  obtain process s3 p t where 3: "process_load ?s2 (path_of (name_of ''shell.bin'')) = Some (0, process, s3)" "y_processes s3 = (y_processes ?s2)[0 := process]"
    "y_procs s3 = (y_procs ?s2)(process \<mapsto> p)" "p_id p = word_of_nat 0" "y_tasks s3 (p_task p) = Some t" "tk_process t = process" "tasks_ok s3 ([] @ [p_task p])"
    "tk_registers t = start_registers" "\<And>j. j < length bs \<Longrightarrow> vload (y_ram s3) (tk_page_directory t) (0x400000 + of_nat j) = Some (bs ! j)"
    "page_slack (y_heap s3) 0" "keeps (y_heap ?s2) (y_ram ?s2) (y_ram s3)" "heap_live (y_heap ?s2) \<subseteq> heap_live (y_heap s3)" "fat_mounted (y_vfs s3) M"
    "y_term s3 = y_term ?s2" "y_commands s3 = y_commands ?s2" "y_kernel_chunk s3 = y_kernel_chunk ?s2"
    by (rule process_load_run [OF pre(1,2) good_shell bs(1,2) len 2(7) pre(3,4) n room]) blast
  let ?a = "p_task p" and ?c = "y_kernel_chunk s1"
  have ta: "tasks_ok s3 [?a]" using 3(7) by simp
  define s where "s = s3\<lparr>y_current_task := ?a, y_current_process := process, y_directory := load32 (y_ram s3) (tk_page_directory t)\<rparr>"
  have "task_run_first_ever_task s3 = Some (start_registers, s)" using first_task_run [OF ta 3(5,10)] 3(6,8) by (simp add: s_def)
  then have run: "kernel_main a raw m = Some (start_registers, m1\<lparr>b_sys := s\<rparr>)"
    using 1(1,2) 2(1) 3(1) by (simp add: kernel_main_def c_str_path)
  have ck: "chunk_ok (y_heap ?s2) (y_ram ?s2) ?c" "all_present (y_ram s1) ?c" using 1(6) 2(6) unfolding hp by (auto simp: space_ok_def chunk_ok_def)
  note K = keeps_chunk [OF room(1) ck(1) 3(11)]
  have tr: "translate (y_ram s3) ?c va = Some va" for va using keeps_translate [OF room(1) ck(1) 3(11), of va] 1(7) by simp
  have so: "space_ok (y_heap s3) (y_ram s3) ?c" using ck K(1-3) 3(12) by (auto simp: space_ok_def chunk_ok_def all_present_def)
  have ts: "tasks_ok s [?a]"
  proof -
    have "task_objects s x = task_objects s3 x" for x by (rule task_objects_cong) (simp_all add: s_def)
    then have "task_objects s = task_objects s3" by (rule ext)
    then show ?thesis using ta by (simp add: tasks_ok_def task_ring_def s_def y_heap_def)
  qed
  have f: "y_processes s3 ! 0 = process" using 3(2) 1(14) none(4) by simp
  show ?thesis
    by (rule exI [of _ start_registers], rule exI [of _ "m1\<lparr>b_sys := s\<rparr>"], rule exI [of _ s], rule exI [of _ p], rule exI [of _ t])
       (use run ts tr so f 1(8-10) 2(2) 3 in \<open>simp add: s_def start_registers_def y_heap_def\<close>)
qed

text \<open>A drive with a shell of three bytes.\<close>

definition shell_part :: path_part where
  "shell_part = \<lparr>pp_addr = 0x01005000, pp_str_addr = 0x01006000, pp_part = c_str ''shell.bin''\<rparr>"

lemma shell_name: "dotted (name_of ''shell'') (name_of ''bin'') = name_of ''shell.bin''" "name83 (name_of ''shell'') (name_of ''bin'')" "hd (name_of ''shell'') \<noteq> 0xE5"
  "cstr_of (pp_part shell_part) (name_of ''shell.bin'')"
  using c_str_cstr [of "''shell.bin''"] by (simp_all add: shell_part_def) (simp_all add: name_of_def dotted_def name83_def name_char_def)

lemma demo_shell:
  obtains v where "fat_mounted v [canon (name_of ''shell.bin'') \<mapsto> demo_program_bytes]" "mountable (v_k v)"
proof -
  let ?n = "name_of ''shell.bin''" and ?bs = demo_program_bytes and ?z = "decode_item (replicate 32 0)"
  let ?it = "fresh_item (map upper83 (name_of ''shell'') @ replicate (8 - length (name_of ''shell'')) 0x20)
     (map upper83 (name_of ''bin'') @ replicate (3 - length (name_of ''bin'')) 0x20)"
  have no: "first_index (\<lambda>it. di_filename it ! 0 = 0) (named_slot ?n) (items_of demo_volume) = None" "first_index (\<lambda>_. False) free_slot (items_of demo_volume) = Some 0"
    using zero_item(3) zero_item_first by (simp_all add: demo_items first_index_Cons numeral_eq_Suc)
  have cs: "cstr_of (pp_part shell_part) (dotted (name_of ''shell'') (name_of ''bin''))" using shell_name(1,4) by simp
  from fat16_open_write_new [OF demo_layout cs shell_name(2,3) no(1) [folded shell_name(1)] no(2) demo_heap_room refl, of "[]"] obtain d s1 where
    d: "fat16_open demo_volume [shell_part] FILE_MODE_WRITE = Some (Inr d, s1)" "desc_at s1 d 0" "ff_pos d = 0"
    "items_of s1 = (items_of demo_volume)[0 := ?it]" "same_volume demo_volume s1" by blast
  have "entry_room demo_volume (Suc 1)" "heap_slack (k_heap demo_volume) (97 + 3)" using demo_rooms(1) [of "Suc 1"] demo_heap_room by (simp_all add: demo_vfs_def)
  then have st: "stores s1 [canon ?n \<mapsto> []]" "data_room demo_volume ns \<Longrightarrow> data_room s1 ns" for ns
    using stores_open_write [OF demo_stores good_shell shell_name(4), of 1 97 "[]"] d(1) by fastforce+
  have "data_room demo_volume [length ?bs]" using demo_rooms(4) [of "[length ?bs]"] by (simp add: demo_vfs_def demo_program_bytes_def)
  then have dr: "data_room s1 (length ?bs # [])" by (rule st(2))
  from st(1) obtain F where F: "volume s1 F" "files s1 F = [canon ?n \<mapsto> []]" by (auto simp: stores_def)
  have its: "items_of s1 = ?it # replicate 63 ?z" using d(4) by (simp add: demo_items numeral_eq_Suc)
  note I = fresh_item_facts [OF shell_name(2,3) refl]
  have en: "ents s1 = 64" using same_volume_geometry(4) [OF d(5)] by (simp add: demo_geometry)
  have sl: "slot_of s1 (canon ?n) = Some 0"
    unfolding slot_of_Some [OF volumeD(2) [OF F(1)]] using I(3,5) by (simp add: its en same_name_canon shell_name(1))
  then have fb: "file_bytes s1 F 0 = []" using F(2) by (auto simp: files_def dest: fun_cong [where x = "canon ?n"])
  have pos: "ff_pos d = word_of_nat 0" using d(3) by simp
  have w0: "0 \<le> length (file_bytes s1 F 0)" "?bs \<noteq> []" "unat (1 :: u32) * unat (3 :: u32) = length ?bs" "0 + length ?bs < 2 ^ 31" by (simp_all add: demo_program_bytes_def)
  from volume_write [OF F(1) d(2) sl pos w0 dr] obtain F' it s2 where
    w: "volume s2 F'" "files s2 F' = [canon ?n \<mapsto> [], canon ?n \<mapsto> patch [] 0 ?bs]" "free_slots s2 = free_slots s1" "same_volume s1 s2" "items_of s2 = (items_of s1)[0 := it]"
    unfolding fb F(2) by blast
  have "patch [] 0 ?bs = ?bs" by (simp add: demo_program_bytes_def patch_def)
  then have st2: "stores s2 [canon ?n \<mapsto> ?bs]" using w(1,2) by (auto simp: stores_def)
  have i2: "items_of s2 = it # replicate 63 ?z" using w(5) its by simp
  define s3 where "s3 = s2\<lparr>k_drive := write_bytes (k_drive s2) 0 demo_boot\<rparr>"
  have "di_filename (items_of s2 ! 1) ! 0 = 0" using i2 zero_item_first by simp
  note R = demo_readable [OF st2 same_volume_trans [OF d(5) w(4)] _ this, folded s3_def, simplified]
  have "0 \<notin> free_slots s2" using w(3) I(3) by (simp add: free_slots_def its)
  then have live: "\<not> free_slot it" using same_volume_geometry(4) [OF w(4)] by (simp add: free_slots_def en i2)
  have "free_slot (items_of s3 ! i)" if "i < 64" "i \<noteq> 0" for i using that zero_item(3) by (simp add: R(3) i2 nth_Cons')
  moreover have "\<not> free_slot (items_of s3 ! 0)" "length (items_of s3) = 64" using live by (simp_all add: R(3) i2)
  ultimately have "compact (items_of s3)" unfolding compact_def by (metis le_zero_eq)
  then have "mountable s3" using R(2) by (simp add: mountable_def)
  moreover have "fat_mounted (demo_vfs\<lparr>v_k := s3\<rparr>) [canon ?n \<mapsto> ?bs]" using R(1,4) by (simp add: mounted_def fds_inv_def demo_vfs_def)
  ultimately show thesis using that [of "demo_vfs\<lparr>v_k := s3\<rparr>"] by simp
qed

theorem kernel_boots_witness:
  "\<exists>d regs m' t. kernel_main demo_symbols (replicate 25600 7) (demo_machine d) = Some (regs, m') \<and> r_ip regs = 0x400000
     \<and> y_tasks (b_sys m') (y_current_task (b_sys m')) = Some t \<and> vload (y_ram (b_sys m')) (tk_page_directory t) 0x400001 = Some 0xEB
     \<and> is_gate (b_idt m' ! 0x80) 0x00101030"
proof -
  obtain v where v: "fat_mounted v [canon (name_of ''shell.bin'') \<mapsto> demo_program_bytes]" "mountable (v_k v)" by (rule demo_shell)
  let ?m = "demo_machine (k_drive (v_k v))" and ?M = "[canon (name_of ''shell.bin'') \<mapsto> demo_program_bytes]"
  have "length (replicate 25600 (7 :: byte)) = 25600" by (rule length_replicate)
  moreover have "VGA_HEIGHT * VGA_WIDTH \<le> length (t_vga (y_term (b_sys ?m)))" "y_commands (b_sys ?m) = replicate 1024 None"
    "length (v_fs_name (y_vfs (b_sys ?m))) = 20" "k_drive (v_k (y_vfs (b_sys ?m))) = k_drive (v_k v)"
    "y_tasks (b_sys ?m) = Map.empty" "y_task_head (b_sys ?m) = 0" "y_current_task (b_sys ?m) = 0" "y_processes (b_sys ?m) = replicate 12 0"
    by (simp_all add: demo_machine_def demo_sys_def demo_vfs_def demo_state_def)
  moreover have "?M (canon (name_of ''shell.bin'')) = Some demo_program_bytes" "demo_program_bytes \<noteq> []" "length demo_program_bytes \<le> 118784"
    by (simp_all add: demo_program_bytes_def)
  moreover have "length (canon (name_of ''shell.bin'')) = length (canon (name_of ''hello.txt''))" by (simp add: canon_def name_of_def)
  moreover have "canon (name_of ''hello.txt'') ! 0 \<noteq> canon (name_of ''shell.bin'') ! 0" by (simp add: canon_def name_of_def tolower_def)
  then have "?M (canon (name_of ''hello.txt'')) \<noteq> Some []" by auto
  ultimately obtain regs m' s t where b: "kernel_main demo_symbols (replicate 25600 7) ?m = Some (regs, m')" "b_sys m' = s" "y_tasks s (y_current_task s) = Some t"
    "r_ip regs = 0x400000" "\<forall>j < length demo_program_bytes. vload (y_ram s) (tk_page_directory t) (0x400000 + of_nat j) = Some (demo_program_bytes ! j)"
    "\<forall>n < 512. is_gate (b_idt m' ! n) (handler_of (a_idt demo_symbols) n)"
    using kernel_boots [OF _ _ _ _ v, of "replicate 25600 7" ?m demo_program_bytes demo_symbols] by blast
  have "vload (y_ram s) (tk_page_directory t) 0x400001 = Some 0xEB" using b(5) [rule_format, of 1] by (simp add: demo_program_bytes_def)
  moreover have "is_gate (b_idt m' ! 0x80) 0x00101030" using b(6) [rule_format, of "0x80"] by (simp add: handler_of_def demo_symbols_def)
  ultimately show ?thesis using b(1-4) by blast
qed

end
