(* ===== verification/Spec2Isabelle.thy ===== *)
theory Spec2Isabelle
  imports Prelude Loops Bytes Memory Cstring Kheap Disk Path_Parser Fat16_Layout Fat16_Table Fat16_Data
    Fat16_Root File_System Fat16 Fat16_Volume File_Layer File_Runs
    Ram Paging Terminal Gdt Keyboard_Buffer Kernel_State Task Process Idt Isr80h Scheduler User_Copy System_Calls Disk_Ports Line_Input
    Mount Subdirectory Start_Up Heap_Runs Heap_Pool Process_Runs Program_Loading Process_End Boot
begin

text \<open>
  A verification development of the kernel under \<^verbatim>\<open>src/src\<close>: a 32-bit operating system with a FAT16
  file system that can create, write and delete files, paged processes, round-robin tasks and
  twelve system calls. The model is a shallow embedding of the C code; this theory collects its parts.

  \<^bold>\<open>The program.\<close> \<^verbatim>\<open>kernel.c\<close> starts the machine: it clears the terminal, loads the segments, sets up the
  heap, the file systems, the disk, the interrupt table, the address space of the kernel, the system calls
  and the keyboard, loads the shell and hands over to the first task. From then on the kernel runs when an
  interrupt comes: the timer gives the turn to the next task, the keyboard puts a character into the buffer
  of the running process, and \<^verbatim>\<open>int 0x80\<close> calls a function of the table of system calls with the registers
  of the program. A call reads its arguments from the stack of the program through its page tables, works
  on files, on the terminal or on processes, and returns to the address space of the task. The file calls
  go through the table of descriptors (\<^verbatim>\<open>fs/file.c\<close>) to the file system (\<^verbatim>\<open>fs/fat/fat16.c\<close>), from there through
  a byte stream (\<^verbatim>\<open>disk/streamer.c\<close>) to sectors (\<^verbatim>\<open>disk/disk.c\<close>) and to the ports of the controller.

  \<^bold>\<open>How C is modelled.\<close> A struct is a record, a machine integer a word of its width (plain \<^verbatim>\<open>int\<close> is an \<^typ>\<open>int\<close>
  where the code cannot overflow it and a word where it can), a buffer a list of bytes. Structures that the
  code reaches through pointers are in tables from addresses to records (tasks, processes, descriptors);
  page tables, programs, stacks and the buffers that are mapped for a program are bytes of the physical memory
  (\<^verbatim>\<open>Ram\<close>), because their layout matters. An operation returns \<^const>\<open>None\<close> where the C code has no defined behaviour
  (an access out of bounds, a pointer to nothing), where it panics, and where it does not end; status codes are
  values of the result, as in the code. Loops with a bound are recursions over it (\<^verbatim>\<open>Loops\<close>), loops without one
  are partial functions over \<^typ>\<open>'a option\<close>, so that a theorem that gives \<^const>\<open>Some\<close> says that they end.
  The only loops with fuel are the waits for a key: their fuel is the number of interrupts that are still to come, and each wait uses one.

  \<^bold>\<open>The theories,\<close> with the code they model:

  \<^item> \<^verbatim>\<open>Prelude\<close>, \<^verbatim>\<open>Loops\<close>, \<^verbatim>\<open>Bytes\<close>: status codes and sizes of \<^verbatim>\<open>status.h\<close> and \<^verbatim>\<open>config.h\<close>, counting loops and their
    invariant rule, little-endian numbers.
  \<^item> \<^verbatim>\<open>Memory\<close>, \<^verbatim>\<open>Cstring\<close>: \<^verbatim>\<open>memory/memory.c\<close> and \<^verbatim>\<open>string/string.c\<close>, with the string that a buffer holds.
  \<^item> \<^verbatim>\<open>Kheap\<close>: \<^verbatim>\<open>memory/heap/heap.c\<close> and \<^verbatim>\<open>kheap.c\<close>, the table of blocks. The locale \<^verbatim>\<open>block_allocator\<close> states what an
    allocator promises about live objects, \<^verbatim>\<open>object_heap\<close> what its clients count with (free blocks and small
    objects); both are interpreted on the operations of the code. \<^verbatim>\<open>Heap_Runs\<close> adds objects of many blocks: a run of
    free blocks outlasts allocations elsewhere, and first fit finds it. \<^verbatim>\<open>Heap_Pool\<close>: the file operations leave the pool.
  \<^item> \<^verbatim>\<open>Disk\<close>, \<^verbatim>\<open>Disk_Ports\<close>: \<^verbatim>\<open>disk/disk.c\<close> and \<^verbatim>\<open>disk/streamer.c\<close>. The controller behind the ports is hardware: the locale
    \<^verbatim>\<open>ata\<close> states its documented protocol register by register, and an executable drive interprets it. Under it the loops that read
    are the block reads; the loops that write send all words, and then the code writes a command to a controller that is still busy. Everything above the
    block operations is for controllers on which that command does no harm to the sector.
  \<^item> \<^verbatim>\<open>Path_Parser\<close>: \<^verbatim>\<open>fs/pparser.c\<close>.
  \<^item> \<^verbatim>\<open>Fat16_Layout\<close> (structures, byte layout, 8.3 names), \<^verbatim>\<open>Fat16_Table\<close> (entries and chains of the allocation table,
    with the locale \<^verbatim>\<open>cluster_table\<close>), \<^verbatim>\<open>Fat16_Data\<close> (reads and writes along a chain), \<^verbatim>\<open>Fat16_Root\<close> (the root directory and
    the mount), \<^verbatim>\<open>Fat16\<close> (the functions of the file system interface): \<^verbatim>\<open>fs/fat/fat16.c\<close>.
  \<^item> \<^verbatim>\<open>File_System\<close>: the interface of \<^verbatim>\<open>fs/file.h\<close>, with the locale \<^verbatim>\<open>file_store\<close>, the contract of a file system as a finite
    map from names to bytes. \<^verbatim>\<open>Fat16_Volume\<close> interprets it on the FAT16 code with the relation between a mounted volume and
    the map that it stores. \<^verbatim>\<open>File_Layer\<close> models \<^verbatim>\<open>fs/file.c\<close> and proves its operations once from the contract;
    \<^verbatim>\<open>File_Runs\<close> has the runs of calls on a volume, and \<^verbatim>\<open>Mount\<close> \<^verbatim>\<open>disk_search_and_init\<close> and the mount of an existing disk,
    \<^verbatim>\<open>Subdirectory\<close> paths through a subdirectory.
  \<^item> \<^verbatim>\<open>Ram\<close>, \<^verbatim>\<open>Paging\<close>: \<^verbatim>\<open>memory/paging/paging.c\<close>, with the translation that the processor makes of the tables; the locale
    \<^verbatim>\<open>page_heap\<close> extends \<^verbatim>\<open>object_heap\<close> by alignment and by the memory that an allocation leaves alone.
  \<^item> \<^verbatim>\<open>Terminal\<close>, \<^verbatim>\<open>Gdt\<close>, \<^verbatim>\<open>Keyboard_Buffer\<close>: the terminal of \<^verbatim>\<open>kernel.c\<close> and the screen it refines, \<^verbatim>\<open>gdt/gdt.c\<close> and the decoding of a
    descriptor, \<^verbatim>\<open>keyboard/*.c\<close> and the bounded queue (locale \<^verbatim>\<open>fifo\<close>) that the ring buffer implements.
  \<^item> \<^verbatim>\<open>Kernel_State\<close>, \<^verbatim>\<open>Task\<close>, \<^verbatim>\<open>Process\<close>, \<^verbatim>\<open>Idt\<close>, \<^verbatim>\<open>Isr80h\<close>: the globals of the running kernel as one record, \<^verbatim>\<open>task/task.c\<close>,
    \<^verbatim>\<open>task/process.c\<close>, \<^verbatim>\<open>idt/idt.c\<close> and \<^verbatim>\<open>isr80h/*.c\<close>.
  \<^item> \<^verbatim>\<open>Scheduler\<close> (a step relation of creation, end and switches of tasks, with the invariant of the list by rule
    induction), \<^verbatim>\<open>User_Copy\<close> (copies between kernel and program), \<^verbatim>\<open>System_Calls\<close> and \<^verbatim>\<open>Line_Input\<close> (calls from the program and
    back), \<^verbatim>\<open>Process_Runs\<close> (the memory of processes and what a fork shares), \<^verbatim>\<open>Program_Loading\<close> (from the bytes of a file to the
    bytes that a task finds where it starts), \<^verbatim>\<open>Process_End\<close> (the exit of a program), \<^verbatim>\<open>Start_Up\<close> (\<^verbatim>\<open>kernel_main\<close> and what its initialisation leaves), \<^verbatim>\<open>Boot\<close> (the whole of
    \<^verbatim>\<open>kernel_main\<close>, up to the first instruction of the shell).

  \<^bold>\<open>What is shown.\<close> For files: on a mounted volume what is written is what is read after the file is closed and
  opened again, and after a restart when no deleted entry is in front of one in use; a write changes no other file; a deleted file is gone and its clusters are
  free; the listing has exactly the files; and what happens with bad descriptors, subdirectories and the last entry of the table.
  For memory: first fit and its inverse, the identity and independence of address spaces, and what a mapping translates to.
  For tasks and calls: the list of tasks is well formed in every reachable state, every task gets its turn, what a program
  prints is on the screen, what the kernel copies to a program is what the program finds, a line that is
  read is the line that was typed with its corrections. For the composition: a program that is loaded starts at its first byte on
  a stack of its own, one that exits gives back all that it owns and another task goes on, and \<^verbatim>\<open>kernel_main\<close> reaches a state in which all this holds and the shell runs.
  Where the code does not do what it means to, a theorem says what it does instead.

  \<^bold>\<open>Bounds.\<close> The preconditions are those under which the code is defined: free blocks of the heap (each theorem says how
  many), free clusters and a free entry of the directory, positions and sizes below \<open>2 ^ 31\<close>, names that
  have an 8.3 form. Every theorem with preconditions is followed by an instance on a concrete state.

  \<^bold>\<open>Not modelled.\<close> The assembly files (boot loader, interrupt stubs, the loading of registers, the return to user mode,
  port instructions) and the user programs are not C; the model has their effect on the state where C code
  depends on it: the loaded directory, the registers handed to the task, the values that ports give, and the interrupt
  handlers as functions of the registers that the stub pushes. Compiler-specific layout is modelled only where the
  code depends on it (packed structures on the disk, descriptors, page tables). An interrupt in the middle of a kernel
  function does not happen, since the gates of the table disable interrupts; the one place that enables them, the wait for a
  key in \<^verbatim>\<open>isr80h/process.c\<close>, takes the interrupts that come from the state (\<^verbatim>\<open>y_irqs\<close>).
\<close>

end
